(* ===== verification/Prelude.thy ===== *)
theory Prelude
  imports Main "HOL-Library.Word"
begin

unbundle bit_operations_syntax

text \<open>
  Shared vocabulary of the development.

  The C++ program works on \<^verbatim>\<open>char\<close>, \<^verbatim>\<open>unsigned char\<close> / \<^verbatim>\<open>std::uint8_t\<close>, wider unsigned
  integers, \<^verbatim>\<open>std::string\<close> / \<^verbatim>\<open>string_view_t\<close>, exceptions and \<^verbatim>\<open>expected_t\<close> results. Here:
  \<^item> machine integers are words of the source's width (\<open>u8\<close> .. \<open>u64\<close>), with wrap-around;
  \<^item> \<^verbatim>\<open>std::string\<close> and \<^verbatim>\<open>string_view_t\<close> are lists of \<open>char\<close> (bytes); the casts
    between \<^verbatim>\<open>char\<close> and \<^verbatim>\<open>std::uint8_t\<close> are \<open>byte_of_char\<close> and \<open>char_of_byte\<close>;
  \<^item> a throwing or \<^verbatim>\<open>expected_t\<close> returning function has a sum as its result, \<open>Inl\<close> the error;
    \<open>sum_bind\<close> is the sequencing in which the first error wins;
  \<^item> \<open>std::size_t\<close> counters that are bounded by the size of an object in memory are \<open>nat\<close>.

  The lemmas below are the generic facts on bytes, words and lists that several components use;
  \<open>mask_simps\<close> collects those that read a bit mask as a range of byte values.
\<close>

named_theorems mask_simps

type_synonym u8 = "8 word"
type_synonym u16 = "16 word"
type_synonym u32 = "32 word"
type_synonym u64 = "64 word"

subsection \<open>Characters and bytes\<close>

definition byte_of_char :: "char \<Rightarrow> u8" where
  "byte_of_char c = word_of_nat (of_char c)"

definition char_of_byte :: "u8 \<Rightarrow> char" where
  "char_of_byte b = char_of (unat b)"

lemma unat_byte_of_char: "unat (byte_of_char c) = of_char c"
  by (simp add: byte_of_char_def unat_of_nat)

lemma char_of_byte_of_char [simp]: "char_of_byte (byte_of_char c) = c"
  by (simp add: char_of_byte_def unat_byte_of_char)

lemma unat_byte_less [simp]: "unat (b :: u8) < 256"
  using unsigned_less [of b, where 'a = nat] by simp

lemma byte_of_char_of_byte [simp]: "byte_of_char (char_of_byte b) = b"
  by (simp add: char_of_byte_def byte_of_char_def)

lemma byte_of_char_inject [simp]: "byte_of_char a = byte_of_char b \<longleftrightarrow> a = b"
  by (metis char_of_byte_of_char)

lemma char_of_byte_inject [simp]: "char_of_byte a = char_of_byte b \<longleftrightarrow> a = b"
  by (metis byte_of_char_of_byte)

lemma char_of_byte_eq_iff: "char_of_byte b = c \<longleftrightarrow> b = byte_of_char c"
  by auto

text \<open>A property of all bytes is a finite check, and so is one of all characters.\<close>

lemma byte_all:
  assumes "list_all (\<lambda>n. P (word_of_nat n :: u8)) [0..<256]"
  shows "P (b :: u8)"
proof -
  have "P (word_of_nat (unat b))"
    using assms unat_byte_less [of b] unfolding list_all_iff set_upt by fastforce
  then show ?thesis by simp
qed

lemma char_all:
  assumes "list_all (\<lambda>n. P (char_of n)) [0..<256]"
  shows "P (c :: char)"
proof -
  have "P (char_of (of_char c :: nat))"
    using assms by (auto simp: list_all_iff simp del: char_of_char)
  then show ?thesis by simp
qed

subsection \<open>Bit masks on bytes\<close>

text \<open>Keeping the high bits of a word rounds its value down to a multiple of \<open>2 ^ n\<close>.\<close>

lemma unat_and_not_mask: "unat ((b :: 'a::len word) AND NOT (mask n)) = unat b div 2 ^ n * 2 ^ n"
proof -
  have "b AND NOT (mask n) = push_bit n (drop_bit n b)"
    by (rule bit_word_eqI) (auto simp: bit_simps)
  moreover have "unat b div 2 ^ n * 2 ^ n < 2 ^ LENGTH('a)"
    using unsigned_less [of b, where 'a = nat] by (metis div_times_less_eq_dividend le_less_trans)
  ultimately show ?thesis
    by (simp only: unsigned_push_bit_eq unat_drop_bit_eq)
      (simp only: push_bit_eq_mult drop_bit_eq_div take_bit_nat_eq_self)
qed

lemma high_mask_range:
  fixes b m v :: u8
  assumes m: "m = NOT (mask n)" and v: "unat v = k * 2 ^ n"
  shows "b AND m = v \<longleftrightarrow> k * 2 ^ n \<le> unat b \<and> unat b < Suc k * 2 ^ n"
proof -
  have "b AND m = v \<longleftrightarrow> unat b div 2 ^ n = k"
    unfolding word_unat_eq_iff [of "b AND m"] v unfolding m unat_and_not_mask by simp
  also have "\<dots> \<longleftrightarrow> k * 2 ^ n \<le> unat b \<and> unat b < Suc k * 2 ^ n"
    by (metis div_nat_eqI dividend_less_div_times div_times_less_eq_dividend mult.commute
        mult_Suc add.commute zero_less_numeral zero_less_power)
  finally show ?thesis .
qed

lemma mask_1xxxxxxx [mask_simps]: "(b :: u8) AND 0x80 = 0 \<longleftrightarrow> unat b < 0x80"
  using high_mask_range [of "0x80" 7 "0" 0 b] by (simp add: mask_eq_exp_minus_1 not_eq_complement)

lemma mask_10xxxxxx [mask_simps]: "(b :: u8) AND 0xC0 = 0x80 \<longleftrightarrow> 0x80 \<le> unat b \<and> unat b < 0xC0"
  using high_mask_range [of "0xC0" 6 "0x80" 2 b] by (simp add: mask_eq_exp_minus_1 not_eq_complement)

lemma mask_110xxxxx [mask_simps]: "(b :: u8) AND 0xE0 = 0xC0 \<longleftrightarrow> 0xC0 \<le> unat b \<and> unat b < 0xE0"
  using high_mask_range [of "0xE0" 5 "0xC0" 6 b] by (simp add: mask_eq_exp_minus_1 not_eq_complement)

lemma mask_1110xxxx [mask_simps]: "(b :: u8) AND 0xF0 = 0xE0 \<longleftrightarrow> 0xE0 \<le> unat b \<and> unat b < 0xF0"
  using high_mask_range [of "0xF0" 4 "0xE0" 14 b] by (simp add: mask_eq_exp_minus_1 not_eq_complement)

lemma mask_11110xxx [mask_simps]: "(b :: u8) AND 0xF8 = 0xF0 \<longleftrightarrow> 0xF0 \<le> unat b \<and> unat b < 0xF8"
  using high_mask_range [of "0xF8" 3 "0xF0" 30 b] by (simp add: mask_eq_exp_minus_1 not_eq_complement)

lemma mask_111110xx [mask_simps]: "(b :: u8) AND 0xFC = 0xF8 \<longleftrightarrow> 0xF8 \<le> unat b \<and> unat b < 0xFC"
  using high_mask_range [of "0xFC" 2 "0xF8" 62 b] by (simp add: mask_eq_exp_minus_1 not_eq_complement)

lemma mask_1111110x [mask_simps]: "(b :: u8) AND 0xFE = 0xFC \<longleftrightarrow> 0xFC \<le> unat b \<and> unat b < 0xFE"
  using high_mask_range [of "0xFE" 1 "0xFC" 126 b] by (simp add: mask_eq_exp_minus_1 not_eq_complement)

lemma mask_100xxxxx [mask_simps]: "(b :: u8) AND 0xE0 = 0x80 \<longleftrightarrow> 0x80 \<le> unat b \<and> unat b < 0xA0"
  using high_mask_range [of "0xE0" 5 "0x80" 4 b] by (simp add: mask_eq_exp_minus_1 not_eq_complement)

lemma mask_1000xxxx [mask_simps]: "(b :: u8) AND 0xF0 = 0x80 \<longleftrightarrow> 0x80 \<le> unat b \<and> unat b < 0x90"
  using high_mask_range [of "0xF0" 4 "0x80" 8 b] by (simp add: mask_eq_exp_minus_1 not_eq_complement)

lemma mask_10000xxx [mask_simps]: "(b :: u8) AND 0xF8 = 0x80 \<longleftrightarrow> 0x80 \<le> unat b \<and> unat b < 0x88"
  using high_mask_range [of "0xF8" 3 "0x80" 16 b] by (simp add: mask_eq_exp_minus_1 not_eq_complement)

lemma mask_100000xx [mask_simps]: "(b :: u8) AND 0xFC = 0x80 \<longleftrightarrow> 0x80 \<le> unat b \<and> unat b < 0x84"
  using high_mask_range [of "0xFC" 2 "0x80" 32 b] by (simp add: mask_eq_exp_minus_1 not_eq_complement)

text \<open>Masking with \<open>2 ^ n - 1\<close> keeps the value modulo \<open>2 ^ n\<close>.\<close>

lemma unat_and_mask: "unat ((b :: 'a::len word) AND mask n) = unat b mod 2 ^ n"
  by (simp add: take_bit_eq_mask [symmetric] unsigned_take_bit_eq) (simp add: take_bit_eq_mod)

lemma and_3F [mask_simps]: "unat ((b :: u8) AND 0x3F) = unat b mod 64"
  using unat_and_mask [of b 6] by (simp add: mask_eq_exp_minus_1)

lemma and_1F [mask_simps]: "unat ((b :: u8) AND 0x1F) = unat b mod 32"
  using unat_and_mask [of b 5] by (simp add: mask_eq_exp_minus_1)

lemma and_0F [mask_simps]: "unat ((b :: u8) AND 0xF) = unat b mod 16"
  using unat_and_mask [of b 4] by (simp add: mask_eq_exp_minus_1)

lemma and_07 [mask_simps]: "unat ((b :: u8) AND 0x7) = unat b mod 8"
  using unat_and_mask [of b 3] by (simp add: mask_eq_exp_minus_1)

lemma and_03 [mask_simps]: "unat ((b :: u8) AND 0x3) = unat b mod 4"
  using unat_and_mask [of b 2] by (simp add: mask_eq_exp_minus_1)

lemma and_01 [mask_simps]: "unat ((b :: u8) AND 0x1) = unat b mod 2"
  using unat_and_mask [of b 1] by (simp add: mask_eq_exp_minus_1)

subsection \<open>Shifts and concatenation of bit fields\<close>

lemma push_bit_or_disjoint:
  fixes s b :: "'a::len word"
  assumes "unat b < 2 ^ n"
  shows "push_bit n s OR b = push_bit n s + b"
proof -
  have hi: "\<not> bit b k" if "n \<le> k" for k
  proof -
    have "b = take_bit n b"
      using assms by (simp add: word_unat_eq_iff unsigned_take_bit_eq take_bit_nat_eq_self)
    then show ?thesis using that by (metis bit_take_bit_iff not_le)
  qed
  have "push_bit n s AND b = 0"
    by (rule bit_eqI) (auto simp: bit_simps dest: hi)
  then show ?thesis by (simp add: disjunctive_add_eq_or)
qed

lemma unat_push_bit_or:
  fixes s b :: "'a::len word"
  assumes "unat b < 2 ^ n" and "unat s * 2 ^ n + unat b < 2 ^ LENGTH('a)"
  shows "unat (push_bit n s OR b) = unat s * 2 ^ n + unat b"
proof -
  have "unat s * 2 ^ n < 2 ^ LENGTH('a)"
    using assms(2) by simp
  then have "unat (push_bit n s) = unat s * 2 ^ n"
    by (simp only: unsigned_push_bit_eq) (simp only: push_bit_eq_mult take_bit_nat_eq_self)
  then show ?thesis
    using assms by (simp add: push_bit_or_disjoint unat_word_ariths)
qed

lemma append_bits:
  fixes s b :: "'a::len word"
  assumes "unat s = m" "unat b = k" "k < 2 ^ n" "m * 2 ^ n + k < 2 ^ LENGTH('a)"
  shows "unat (push_bit n s OR b) = m * 2 ^ n + k"
  using assms unat_push_bit_or [of b n s] by simp

lemma unat_ucast_byte_32 [simp]: "unat (ucast (b :: u8) :: u32) = unat b"
  unfolding unsigned_ucast_eq by (rule take_bit_nat_eq_self) (rule less_trans [OF unat_byte_less], simp)

lemma unat_ucast_byte_16 [simp]: "unat (ucast (b :: u8) :: u16) = unat b"
  unfolding unsigned_ucast_eq by (rule take_bit_nat_eq_self) (rule less_trans [OF unat_byte_less], simp)

lemma unat_ucast_byte_64 [simp]: "unat (ucast (b :: u8) :: u64) = unat b"
  unfolding unsigned_ucast_eq by (rule take_bit_nat_eq_self) (rule less_trans [OF unat_byte_less], simp)

subsection \<open>Splitting a list at a given length\<close>

lemma split_length_0:
  "(\<exists>cs rest. bs = cs @ rest \<and> length cs = 0 \<and> P cs rest) \<longleftrightarrow> P [] bs"
  by auto

lemma split_length_Suc:
  "(\<exists>cs rest. bs = cs @ rest \<and> length cs = Suc k \<and> P cs rest) \<longleftrightarrow>
   (\<exists>b bs'. bs = b # bs' \<and> (\<exists>cs rest. bs' = cs @ rest \<and> length cs = k \<and> P (b # cs) rest))"
proof
  assume "\<exists>cs rest. bs = cs @ rest \<and> length cs = Suc k \<and> P cs rest"
  then obtain b cs rest where "bs = b # (cs @ rest)" "length cs = k" "P (b # cs) rest"
    by (auto simp: length_Suc_conv)
  then show "\<exists>b bs'. bs = b # bs' \<and> (\<exists>cs rest. bs' = cs @ rest \<and> length cs = k \<and> P (b # cs) rest)"
    by blast
next
  assume "\<exists>b bs'. bs = b # bs' \<and> (\<exists>cs rest. bs' = cs @ rest \<and> length cs = k \<and> P (b # cs) rest)"
  then obtain b cs rest where "bs = (b # cs) @ rest" "length (b # cs) = Suc k" "P (b # cs) rest"
    by auto
  then show "\<exists>cs rest. bs = cs @ rest \<and> length cs = Suc k \<and> P cs rest"
    by blast
qed

lemma split_length_1:
  "(\<exists>cs rest. bs = cs @ rest \<and> length cs = 1 \<and> P cs rest) \<longleftrightarrow> (\<exists>b bs'. bs = b # bs' \<and> P [b] bs')"
  unfolding One_nat_def split_length_Suc split_length_0 by blast

lemma split_length_2:
  "(\<exists>cs rest. bs = cs @ rest \<and> length cs = 2 \<and> P cs rest) \<longleftrightarrow>
   (\<exists>b c bs'. bs = b # c # bs' \<and> P [b, c] bs')"
  unfolding numeral_2_eq_2 split_length_Suc split_length_0 by blast

lemma split_length_3:
  "(\<exists>cs rest. bs = cs @ rest \<and> length cs = 3 \<and> P cs rest) \<longleftrightarrow>
   (\<exists>b c d bs'. bs = b # c # d # bs' \<and> P [b, c, d] bs')"
  unfolding numeral_3_eq_3 split_length_Suc split_length_0 by blast

lemmas split_length = split_length_0 split_length_1 split_length_2 split_length_3

lemma split_length_hd:
  assumes "0 < k"
  shows "Q (hd bs) \<and> (\<exists>cs rest. bs = cs @ rest \<and> length cs = k \<and> P cs rest) \<longleftrightarrow>
    (\<exists>cs rest. bs = cs @ rest \<and> length cs = k \<and> Q (hd cs) \<and> P cs rest)"
proof -
  have "hd (cs @ rest) = hd cs" if "length cs = k" for cs rest :: "'a list"
    using that assms by (auto simp: hd_append)
  then show ?thesis by fastforce
qed

subsection \<open>Results\<close>

fun sum_bind :: "'e + 'a \<Rightarrow> ('a \<Rightarrow> 'e + 'b) \<Rightarrow> 'e + 'b" where
  "sum_bind (Inl e) f = Inl e"
| "sum_bind (Inr x) f = f x"

lemma sum_bind_Inr_iff: "sum_bind r f = Inr y \<longleftrightarrow> (\<exists>x. r = Inr x \<and> f x = Inr y)"
  by (cases r) auto

lemma sum_bind_assoc: "sum_bind (sum_bind r f) g = sum_bind r (\<lambda>x. sum_bind (f x) g)"
  by (cases r) auto

section \<open>Decimal numbers\<close>

text \<open>The conversion \<^verbatim>\<open>%llu\<close> of \<^verbatim>\<open>snprintf\<close>: decimal digits without leading zeros.\<close>

definition digit_char :: "nat \<Rightarrow> char" where
  "digit_char d = char_of (48 + d)"

fun decimal :: "nat \<Rightarrow> string" where
  "decimal n = (if n < 10 then [digit_char n] else decimal (n div 10) @ [digit_char (n mod 10)])"

declare decimal.simps [simp del]

lemma decimal_length:
  assumes "n < 10 ^ Suc k"
  shows "length (decimal n) \<le> Suc k"
  using assms
proof (induction k arbitrary: n)
  case 0
  then show ?case by (subst decimal.simps) simp
next
  case (Suc k)
  then have "n div 10 < 10 ^ Suc k" by (simp add: div_less_iff_less_mult mult.commute)
  from Suc.IH [OF this] show ?case by (subst decimal.simps) simp
qed

text \<open>The number a text of decimal digits denotes.\<close>

definition digit_value :: "char \<Rightarrow> nat" where
  "digit_value c = of_char c - 48"

definition decimal_digit_char :: "char \<Rightarrow> bool" where
  "decimal_digit_char c \<longleftrightarrow> (48 :: nat) \<le> of_char c \<and> (of_char c :: nat) \<le> 57"

definition decimal_value :: "string \<Rightarrow> nat" where
  "decimal_value ds = foldl (\<lambda>a c. a * 10 + digit_value c) 0 ds"

lemma of_char_digit_char: "d < 10 \<Longrightarrow> of_char (digit_char d) = 48 + d"
  by (simp add: digit_char_def)

lemma digit_value_digit_char [simp]: "d < 10 \<Longrightarrow> digit_value (digit_char d) = d"
  by (simp add: digit_value_def of_char_digit_char)

lemma decimal_digit_char_digit_char [simp]: "d < 10 \<Longrightarrow> decimal_digit_char (digit_char d)"
  by (simp add: decimal_digit_char_def of_char_digit_char)

lemma decimal_ne [simp]: "decimal n \<noteq> []"
  by (subst decimal.simps) simp

lemma decimal_digits: "list_all decimal_digit_char (decimal n)"
  by (induction n rule: decimal.induct) (subst decimal.simps, simp)

lemma decimal_value_decimal [simp]: "decimal_value (decimal n) = n"
proof (induction n rule: decimal.induct)
  case (1 n)
  then show ?case
    by (subst decimal.simps) (auto simp: decimal_value_def)
qed

end
