(* ===== verification/Std_Regex.thy ===== *)
theory Std_Regex
  imports Prelude
begin

text \<open>
  The part of \<^verbatim>\<open>std::regex\<close> the routers use: compilation of an ECMAScript pattern,
  \<^verbatim>\<open>regex_search\<close> and \<^verbatim>\<open>cregex_iterator\<close>.  It is the vocabulary of
  \<open>Path2Regex\<close>, and like the library itself it has no source lines in the repository.

  A pattern is cut into tokens (\<open>lex\<close>) and built into an expression by a machine with a stack of
  open groups (\<open>build\<close>).  Matching gives the list of all ways to match, in the order in which the
  backtracking of ECMAScript tries them, so the first element is the match the library reports.  Not covered,
  and refused by \<open>compile\<close> like a malformed pattern: back references, word boundaries, numeric escapes
  and the named classes of POSIX.
\<close>

section \<open>Expressions\<close>

datatype class_item = Item_char char | Item_range char char | Item_class char

datatype regex =
    R_empty
  | R_char char
  | R_any
  | R_class bool "class_item list"
  | R_begin
  | R_end
  | R_seq regex regex
  | R_alt regex regex
  | R_group nat regex
  | R_look bool regex
  | R_repeat nat "nat option" bool regex

definition c_tolower :: "char \<Rightarrow> char" where
  "c_tolower c = (if 65 \<le> (of_char c :: nat) \<and> (of_char c :: nat) \<le> 90 then char_of (of_char c + 32 :: nat) else c)"

definition c_toupper :: "char \<Rightarrow> char" where
  "c_toupper c = (if 97 \<le> (of_char c :: nat) \<and> (of_char c :: nat) \<le> 122 then char_of (of_char c - 32 :: nat) else c)"

definition same_char :: "bool \<Rightarrow> char \<Rightarrow> char \<Rightarrow> bool" where
  "same_char icase a b \<longleftrightarrow> (if icase then c_tolower a = c_tolower b else a = b)"

definition in_char_range :: "char \<Rightarrow> char \<Rightarrow> char \<Rightarrow> bool" where
  "in_char_range lo hi c \<longleftrightarrow> (of_char lo :: nat) \<le> of_char c \<and> (of_char c :: nat) \<le> of_char hi"

definition is_digit_char :: "char \<Rightarrow> bool" where
  "is_digit_char c \<longleftrightarrow> in_char_range CHR ''0'' CHR ''9'' c"

definition is_word_char :: "char \<Rightarrow> bool" where
  "is_word_char c \<longleftrightarrow> in_char_range CHR ''a'' CHR ''z'' c \<or> in_char_range CHR ''A'' CHR ''Z'' c \<or>
     is_digit_char c \<or> c = CHR ''_''"

definition is_space_char :: "char \<Rightarrow> bool" where
  "is_space_char c \<longleftrightarrow> c = CHR '' '' \<or> in_char_range CHR 0x09 CHR 0x0D c"

text \<open>The classes of the escapes \<^verbatim>\<open>d\<close>, \<^verbatim>\<open>w\<close>, \<^verbatim>\<open>s\<close> and, in upper case, of their complements.\<close>

definition in_named_class :: "char \<Rightarrow> char \<Rightarrow> bool" where
  "in_named_class k c \<longleftrightarrow>
     (if k = CHR ''d'' then is_digit_char c else if k = CHR ''D'' then \<not> is_digit_char c
      else if k = CHR ''w'' then is_word_char c else if k = CHR ''W'' then \<not> is_word_char c
      else if k = CHR ''s'' then is_space_char c else \<not> is_space_char c)"

fun item_matches :: "bool \<Rightarrow> char \<Rightarrow> class_item \<Rightarrow> bool" where
  "item_matches icase c (Item_char a) = same_char icase a c"
| "item_matches icase c (Item_range lo hi) =
     (if icase then in_char_range lo hi (c_tolower c) \<or> in_char_range lo hi (c_toupper c) else in_char_range lo hi c)"
| "item_matches icase c (Item_class k) = in_named_class k c"

section \<open>Compilation\<close>

datatype group_kind = G_capture | G_plain | G_look bool

datatype regex_token =
    T_term regex
  | T_open group_kind
  | T_close
  | T_bar
  | T_quant nat "nat option" bool

text \<open>An escape outside and inside of brackets: a class, a control character or the character itself.\<close>

definition escaped_item :: "char \<Rightarrow> class_item option" where
  "escaped_item c =
     (if c \<in> set ''dDwWsS'' then Some (Item_class c)
      else if c = CHR ''t'' then Some (Item_char CHR 0x09) else if c = CHR ''n'' then Some (Item_char CHR 0x0A)
      else if c = CHR ''v'' then Some (Item_char CHR 0x0B) else if c = CHR ''f'' then Some (Item_char CHR 0x0C)
      else if c = CHR ''r'' then Some (Item_char CHR 0x0D)
      else if is_word_char c \<and> c \<noteq> CHR ''_'' then None else Some (Item_char c))"

fun item_term :: "class_item \<Rightarrow> regex" where
  "item_term (Item_char c) = R_char c"
| "item_term i = R_class False [i]"

text \<open>One item of a bracket expression, and the items up to the closing bracket.\<close>

definition lex_item :: "char \<Rightarrow> string \<Rightarrow> (class_item \<times> string) option" where
  "lex_item c s =
     (if c = CHR 0x5C then
        (case s of e # s' \<Rightarrow> map_option (\<lambda>i. (i, s')) (escaped_item e) | [] \<Rightarrow> None)
      else if c = CHR ''['' \<and> s \<noteq> [] \<and> hd s \<in> set '':.='' then None
      else if 2 \<le> length s \<and> hd s = CHR ''-'' \<and> s ! 1 \<noteq> CHR '']'' then
        (if s ! 1 = CHR 0x5C \<or> (of_char (s ! 1) :: nat) < of_char c then None
         else Some (Item_range c (s ! 1), drop 2 s))
      else Some (Item_char c, s))"

lemma lex_item_shorter: "lex_item c s = Some (i, rest) \<Longrightarrow> length rest \<le> length s"
  by (auto simp: lex_item_def split: if_splits list.splits)

function lex_items :: "string \<Rightarrow> (class_item list \<times> string) option" where
  "lex_items [] = None"
| "lex_items (c # s) =
     (if c = CHR '']'' then Some ([], s)
      else case lex_item c s of
             None \<Rightarrow> None
           | Some (i, s') \<Rightarrow> map_option (\<lambda>(is, rest). (i # is, rest)) (lex_items s'))"
  by pat_completeness auto
termination by (relation "measure length") (auto simp: less_Suc_eq_le dest: lex_item_shorter)

definition lex_class :: "string \<Rightarrow> (regex \<times> string) option" where
  "lex_class s =
     (case s of
        c # s' \<Rightarrow>
          (if c = CHR ''^'' then map_option (\<lambda>(is, rest). (R_class True is, rest)) (lex_items s')
           else map_option (\<lambda>(is, rest). (R_class False is, rest)) (lex_items s))
      | [] \<Rightarrow> None)"

definition take_digits :: "string \<Rightarrow> (nat \<times> string) option" where
  "take_digits s =
     (let ds = takeWhile is_digit_char s
      in if ds = [] then None
         else Some (foldl (\<lambda>n c. 10 * n + (of_char c - 48)) 0 ds, dropWhile is_digit_char s))"

text \<open>The bounds between braces.\<close>

definition lex_bounds :: "string \<Rightarrow> (nat \<times> nat option \<times> string) option" where
  "lex_bounds s =
     (case take_digits s of
        None \<Rightarrow> None
      | Some (n, s) \<Rightarrow>
          (case s of
             c # s \<Rightarrow>
               (if c = CHR ''}'' then Some (n, Some n, s)
                else if c \<noteq> CHR '','' then None
                else case s of
                  d # s' \<Rightarrow>
                    (if d = CHR ''}'' then Some (n, None, s')
                     else case take_digits s of
                       Some (k, e # rest) \<Rightarrow> (if e = CHR ''}'' \<and> n \<le> k then Some (n, Some k, rest) else None)
                     | _ \<Rightarrow> None)
                | [] \<Rightarrow> None)
           | [] \<Rightarrow> None))"

text \<open>A question mark after a quantifier makes it lazy.\<close>

definition lex_lazy :: "nat \<Rightarrow> nat option \<Rightarrow> string \<Rightarrow> regex_token \<times> string" where
  "lex_lazy mn mx s =
     (case s of
        c # s' \<Rightarrow> (if c = CHR ''?'' then (T_quant mn mx False, s') else (T_quant mn mx True, s))
      | [] \<Rightarrow> (T_quant mn mx True, s))"

definition lex_open :: "string \<Rightarrow> (regex_token \<times> string) option" where
  "lex_open s =
     (case s of
        c # s' \<Rightarrow>
          (if c \<noteq> CHR ''?'' then Some (T_open G_capture, s)
           else case s' of
             d # s'' \<Rightarrow>
               (if d = CHR '':'' then Some (T_open G_plain, s'')
                else if d = CHR ''='' then Some (T_open (G_look True), s'')
                else if d = CHR ''!'' then Some (T_open (G_look False), s'')
                else None)
           | [] \<Rightarrow> None)
      | [] \<Rightarrow> Some (T_open G_capture, s))"

definition lex_token :: "char \<Rightarrow> string \<Rightarrow> (regex_token \<times> string) option" where
  "lex_token c s =
     (if c = CHR 0x5C then
        (case s of
           e # s' \<Rightarrow> map_option (\<lambda>i. (T_term (item_term i), s')) (escaped_item e)
         | [] \<Rightarrow> None)
      else if c = CHR ''('' then lex_open s
      else if c = CHR '')'' then Some (T_close, s)
      else if c = CHR ''|'' then Some (T_bar, s)
      else if c = CHR ''.'' then Some (T_term R_any, s)
      else if c = CHR ''^'' then Some (T_term R_begin, s)
      else if c = CHR ''$'' then Some (T_term R_end, s)
      else if c = CHR ''['' then map_option (\<lambda>(r, s'). (T_term r, s')) (lex_class s)
      else if c = CHR ''*'' then Some (lex_lazy 0 None s)
      else if c = CHR ''+'' then Some (lex_lazy 1 None s)
      else if c = CHR ''?'' then Some (lex_lazy 0 (Some 1) s)
      else if c = CHR ''{'' then
        (case lex_bounds s of Some (mn, mx, s') \<Rightarrow> Some (lex_lazy mn mx s') | None \<Rightarrow> None)
      else if c = CHR '']'' \<or> c = CHR ''}'' then None
      else Some (T_term (R_char c), s))"

lemma lex_items_shorter: "lex_items s = Some (is, rest) \<Longrightarrow> length rest < length s"
proof (induction s arbitrary: "is" rest rule: lex_items.induct)
  case (2 c s)
  then show ?case
    by (force split: if_splits option.splits dest: lex_item_shorter)
qed simp

lemma lex_class_shorter: "lex_class s = Some (r, rest) \<Longrightarrow> length rest \<le> length s"
  by (cases s) (auto simp: lex_class_def simp del: lex_items.simps dest!: lex_items_shorter split: if_splits)

lemma lex_open_shorter: "lex_open s = Some (t, rest) \<Longrightarrow> length rest \<le> length s"
  by (auto simp: lex_open_def split: if_splits list.splits)

lemma take_digits_shorter: "take_digits s = Some (n, rest) \<Longrightarrow> length rest < length s"
  by (cases s) (auto simp: take_digits_def Let_def length_dropWhile_le less_Suc_eq_le split: if_splits)

lemma lex_bounds_shorter: "lex_bounds s = Some (mn, mx, rest) \<Longrightarrow> length rest < length s"
  by (auto simp: lex_bounds_def split: option.splits list.splits if_splits dest!: take_digits_shorter)

lemma lex_lazy_shorter: "lex_lazy mn mx s = (t, rest) \<Longrightarrow> length rest \<le> length s"
  by (auto simp: lex_lazy_def split: list.splits if_splits)

lemma lex_token_shorter: "lex_token c s = Some (t, rest) \<Longrightarrow> length rest \<le> length s"
  unfolding lex_token_def
  by (auto dest!: lex_class_shorter lex_open_shorter lex_bounds_shorter lex_lazy_shorter
      split: if_split_asm list.split_asm option.split_asm)

function lex :: "string \<Rightarrow> regex_token list option" where
  "lex [] = Some []"
| "lex (c # s) =
     (case lex_token c s of
        None \<Rightarrow> None
      | Some (t, rest) \<Rightarrow> map_option (\<lambda>ts. t # ts) (lex rest))"
  by pat_completeness auto
termination by (relation "measure length") (auto simp: less_Suc_eq_le dest: lex_token_shorter)

text \<open>
  An open group: its kind, its number when it captures, the alternatives read so far and the terms of
  the current alternative, both with the last one first.
\<close>

record group_frame =
  gf_kind :: group_kind
  gf_number :: nat
  gf_alternatives :: "regex list"
  gf_terms :: "regex list"

definition seq_of :: "regex list \<Rightarrow> regex" where
  "seq_of ts = foldr R_seq ts R_empty"

definition frame_regex :: "group_frame \<Rightarrow> regex" where
  "frame_regex f = foldl (\<lambda>r a. R_alt a r) (seq_of (rev (gf_terms f))) (gf_alternatives f)"

definition group_regex :: "group_frame \<Rightarrow> regex" where
  "group_regex f =
     (case gf_kind f of
        G_capture \<Rightarrow> R_group (gf_number f) (frame_regex f)
      | G_plain \<Rightarrow> frame_regex f
      | G_look b \<Rightarrow> R_look b (frame_regex f))"

definition add_term :: "regex \<Rightarrow> group_frame \<Rightarrow> group_frame" where
  "add_term r f = f\<lparr>gf_terms := r # gf_terms f\<rparr>"

fun quantifiable :: "regex \<Rightarrow> bool" where
  "quantifiable R_begin = False"
| "quantifiable R_end = False"
| "quantifiable (R_look _ _) = False"
| "quantifiable (R_repeat _ _ _ _) = False"
| "quantifiable _ = True"

fun build :: "regex_token list \<Rightarrow> nat \<Rightarrow> group_frame \<Rightarrow> group_frame list \<Rightarrow> (regex \<times> nat) option" where
  "build [] n f [] = Some (frame_regex f, n)"
| "build [] n f (g # gs) = None"
| "build (T_term r # ts) n f gs = build ts n (add_term r f) gs"
| "build (T_open k # ts) n f gs =
     build ts (if k = G_capture then n + 1 else n)
       \<lparr>gf_kind = k, gf_number = n, gf_alternatives = [], gf_terms = []\<rparr> (f # gs)"
| "build (T_close # ts) n f (g # gs) = build ts n (add_term (group_regex f) g) gs"
| "build (T_close # ts) n f [] = None"
| "build (T_bar # ts) n f gs =
     build ts n (f\<lparr>gf_alternatives := seq_of (rev (gf_terms f)) # gf_alternatives f, gf_terms := []\<rparr>) gs"
| "build (T_quant mn mx greedy # ts) n f gs =
     (case gf_terms f of
        r # rs \<Rightarrow> (if quantifiable r then build ts n (f\<lparr>gf_terms := R_repeat mn mx greedy r # rs\<rparr>) gs else None)
      | [] \<Rightarrow> None)"

text \<open>The compiled pattern: the expression, the number of its groups and the case flag.\<close>

record compiled_regex =
  cr_regex :: regex
  cr_groups :: nat
  cr_icase :: bool

definition compile :: "string \<Rightarrow> bool \<Rightarrow> compiled_regex option" where
  "compile s icase =
     (case lex s of
        None \<Rightarrow> None
      | Some ts \<Rightarrow>
          map_option (\<lambda>(r, n). \<lparr>cr_regex = r, cr_groups = n, cr_icase = icase\<rparr>)
            (build ts 0 \<lparr>gf_kind = G_plain, gf_number = 0, gf_alternatives = [], gf_terms = []\<rparr> []))"

section \<open>Matching\<close>

text \<open>A position, the text from there on, and the captures so far as pairs of positions.\<close>

type_synonym captures = "(nat \<times> nat) option list"
type_synonym match_state = "nat \<times> string \<times> captures"

fun groups_in :: "regex \<Rightarrow> nat list" where
  "groups_in (R_seq a b) = groups_in a @ groups_in b"
| "groups_in (R_alt a b) = groups_in a @ groups_in b"
| "groups_in (R_group n r) = n # groups_in r"
| "groups_in (R_look _ r) = groups_in r"
| "groups_in (R_repeat _ _ _ r) = groups_in r"
| "groups_in _ = []"

definition reset_captures :: "nat list \<Rightarrow> captures \<Rightarrow> captures" where
  "reset_captures ns caps = foldl (\<lambda>cs n. cs[n := None]) caps ns"

definition shorter_rest :: "nat \<Rightarrow> match_state \<Rightarrow> match_state \<Rightarrow> bool" where
  "shorter_rest mn st st' \<longleftrightarrow>
     length (fst (snd st')) \<le> length (fst (snd st)) \<and> (mn \<noteq> 0 \<or> length (fst (snd st')) < length (fst (snd st)))"

text \<open>
  The repetitions of a term: once the minimum is reached, a repetition that matches nothing is not
  tried (RepeatMatcher of ECMAScript).
\<close>

function repeat_matches ::
    "(match_state \<Rightarrow> match_state list) \<Rightarrow> nat \<Rightarrow> nat option \<Rightarrow> bool \<Rightarrow> match_state \<Rightarrow> match_state list" where
  "repeat_matches f mn mx greedy st =
     (if mx = Some 0 then [st]
      else let more = concat (map (repeat_matches f (mn - 1) (map_option (\<lambda>n. n - 1) mx) greedy)
                        (filter (shorter_rest mn st) (f st)))
           in if mn \<noteq> 0 then more else if greedy then more @ [st] else st # more)"
  by pat_completeness auto
termination
  by (relation "measure (\<lambda>(f, mn, mx, greedy, st). mn + length (fst (snd st)))") (auto simp: shorter_rest_def)

declare repeat_matches.simps [simp del]

fun rmatch :: "bool \<Rightarrow> regex \<Rightarrow> match_state \<Rightarrow> match_state list" where
  "rmatch icase R_empty st = [st]"
| "rmatch icase (R_char c) (pos, s, caps) =
     (case s of x # xs \<Rightarrow> (if same_char icase c x then [(pos + 1, xs, caps)] else []) | [] \<Rightarrow> [])"
| "rmatch icase R_any (pos, s, caps) =
     (case s of x # xs \<Rightarrow> (if x \<noteq> CHR 0x0A \<and> x \<noteq> CHR 0x0D then [(pos + 1, xs, caps)] else []) | [] \<Rightarrow> [])"
| "rmatch icase (R_class neg items) (pos, s, caps) =
     (case s of
        x # xs \<Rightarrow> (if list_ex (item_matches icase x) items \<noteq> neg then [(pos + 1, xs, caps)] else [])
      | [] \<Rightarrow> [])"
| "rmatch icase R_begin (pos, s, caps) = (if pos = 0 then [(pos, s, caps)] else [])"
| "rmatch icase R_end (pos, s, caps) = (if s = [] then [(pos, s, caps)] else [])"
| "rmatch icase (R_seq a b) st = concat (map (rmatch icase b) (rmatch icase a st))"
| "rmatch icase (R_alt a b) st = rmatch icase a st @ rmatch icase b st"
| "rmatch icase (R_group n r) (pos, s, caps) =
     map (\<lambda>(pos', s', caps'). (pos', s', caps'[n := Some (pos, pos')])) (rmatch icase r (pos, s, caps))"
| "rmatch icase (R_look positive r) (pos, s, caps) =
     (case rmatch icase r (pos, s, caps) of
        [] \<Rightarrow> (if positive then [] else [(pos, s, caps)])
      | (_, _, caps') # _ \<Rightarrow> (if positive then [(pos, s, caps')] else []))"
| "rmatch icase (R_repeat mn mx greedy r) st =
     repeat_matches (\<lambda>(pos, s, caps). rmatch icase r (pos, s, reset_captures (groups_in r) caps)) mn mx greedy st"

text \<open>A match: its position and length, and the captures.\<close>

record match_result =
  mr_begin :: nat
  mr_end :: nat
  mr_captures :: captures

definition match_at :: "compiled_regex \<Rightarrow> nat \<Rightarrow> string \<Rightarrow> match_result option" where
  "match_at re pos s =
     (case rmatch (cr_icase re) (cr_regex re) (pos, s, replicate (cr_groups re) None) of
        [] \<Rightarrow> None
      | (pos', _, caps) # _ \<Rightarrow> Some \<lparr>mr_begin = pos, mr_end = pos', mr_captures = caps\<rparr>)"

text \<open>\<^verbatim>\<open>regex_search\<close> from a position on: the leftmost position with a match.\<close>

fun search_from :: "compiled_regex \<Rightarrow> nat \<Rightarrow> string \<Rightarrow> match_result option" where
  "search_from re pos s =
     (case match_at re pos s of
        Some m \<Rightarrow> Some m
      | None \<Rightarrow> (case s of [] \<Rightarrow> None | _ # s' \<Rightarrow> search_from re (pos + 1) s'))"

declare search_from.simps [simp del]

definition regex_search :: "compiled_regex \<Rightarrow> string \<Rightarrow> match_result option" where
  "regex_search re s = search_from re 0 s"

text \<open>
  The matches \<^verbatim>\<open>cregex_iterator\<close> steps through, each search starting where the last match ended.  The
  iterator treats empty matches apart; here they end the iteration, and the pattern it is used with has none.
\<close>

function regex_matches :: "compiled_regex \<Rightarrow> nat \<Rightarrow> string \<Rightarrow> match_result list" where
  "regex_matches re pos s =
     (case search_from re pos s of
        None \<Rightarrow> []
      | Some m \<Rightarrow> m # (if pos < mr_end m \<and> s \<noteq> [] then regex_matches re (mr_end m) (drop (mr_end m - pos) s) else []))"
  by pat_completeness auto
termination by (relation "measure (\<lambda>(re, pos, s). length s)") (auto simp: length_greater_0_conv[symmetric] simp del: length_greater_0_conv)

declare regex_matches.simps [simp del]

section \<open>Building an expression\<close>

lemma build_terms:
  "build (map T_term rs @ ts) n f gs = build ts n (f\<lparr>gf_terms := rev rs @ gf_terms f\<rparr>) gs"
  by (induction rs arbitrary: f) (simp_all add: add_term_def)

lemma concat_map_concat: "concat (map f (concat xss)) = concat (map (\<lambda>xs. concat (map f xs)) xss)"
  by (induction xss) simp_all

lemma rmatch_seq_of_append:
  "rmatch icase (seq_of (as @ bs)) st = concat (map (rmatch icase (seq_of bs)) (rmatch icase (seq_of as) st))"
proof (induction "as" arbitrary: st)
  case (Cons a as)
  have "rmatch icase (seq_of ((a # as) @ bs)) st = concat (map (rmatch icase (seq_of (as @ bs))) (rmatch icase a st))"
    by (simp add: seq_of_def)
  also have "\<dots> = concat (map (\<lambda>x. concat (map (rmatch icase (seq_of bs)) (rmatch icase (seq_of as) x))) (rmatch icase a st))"
    by (intro arg_cong [of _ _ concat] map_cong refl Cons.IH)
  also have "\<dots> = concat (map (rmatch icase (seq_of bs)) (rmatch icase (seq_of (a # as)) st))"
    by (simp add: seq_of_def concat_map_concat o_def)
  finally show ?case .
qed (simp add: seq_of_def)

lemma rmatch_append_iff:
  "st' \<in> set (rmatch icase (seq_of (as @ bs)) st) \<longleftrightarrow>
     (\<exists>st1. st1 \<in> set (rmatch icase (seq_of as) st) \<and> st' \<in> set (rmatch icase (seq_of bs) st1))"
  by (auto simp: rmatch_seq_of_append)

lemma rmatch_Cons_iff:
  "st' \<in> set (rmatch icase (seq_of (a # bs)) st) \<longleftrightarrow>
     (\<exists>st1. st1 \<in> set (rmatch icase a st) \<and> st' \<in> set (rmatch icase (seq_of bs) st1))"
  by (auto simp: seq_of_def)

section \<open>Repetitions of a class of characters\<close>

text \<open>Consuming one character that satisfies a predicate, and all the ways to consume several of them.\<close>

definition char_step :: "(char \<Rightarrow> bool) \<Rightarrow> match_state \<Rightarrow> match_state list" where
  "char_step P st =
     (case st of (pos, s, caps) \<Rightarrow>
        (case s of x # xs \<Rightarrow> (if P x then [(pos + 1, xs, caps)] else []) | [] \<Rightarrow> []))"

definition advance :: "nat \<Rightarrow> match_state \<Rightarrow> match_state" where
  "advance k st = (case st of (pos, s, caps) \<Rightarrow> (pos + k, drop k s, caps))"

lemma advance_simps [simp]:
  "advance 0 st = st" "advance k (pos, s, caps) = (pos + k, drop k s, caps)"
  by (cases st; simp add: advance_def)+

lemma rmatch_class_step:
  "rmatch icase (R_class neg items) = char_step (\<lambda>x. list_ex (item_matches icase x) items \<noteq> neg)"
  by (rule ext, rename_tac st, case_tac st) (auto simp: char_step_def split: list.split)

lemma repeat_char_step:
  "repeat_matches (char_step P) 0 None greedy (pos, s, caps) =
     (let all = map (\<lambda>k. (pos + k, drop k s, caps)) [0..<Suc (length (takeWhile P s))]
      in if greedy then rev all else all)"
proof (induction s arbitrary: pos)
  case Nil
  then show ?case
    by (subst repeat_matches.simps) (simp add: char_step_def)
next
  case (Cons x s)
  have upt: "[0..<Suc (Suc n)] = 0 # map Suc [0..<Suc n]" for n
    by (subst map_Suc_upt) (rule upt_conv_Cons, simp)
  show ?case
  proof (cases "P x")
    case True
    have "repeat_matches (char_step P) 0 None greedy (pos, x # s, caps) =
            (let more = repeat_matches (char_step P) 0 None greedy (pos + 1, s, caps)
             in if greedy then more @ [(pos, x # s, caps)] else (pos, x # s, caps) # more)"
      using True by (subst repeat_matches.simps) (simp add: char_step_def shorter_rest_def)
    with True show ?thesis
      unfolding Cons.IH by (simp add: upt Let_def rev_map o_def del: upt_Suc)
  next
    case False
    then show ?thesis
      by (subst repeat_matches.simps) (simp add: char_step_def)
  qed
qed

lemma repeat_char_step_once:
  "repeat_matches (char_step P) 1 None greedy (pos, s, caps) =
     (let all = map (\<lambda>k. (pos + k, drop k s, caps)) [1..<Suc (length (takeWhile P s))]
      in if greedy then rev all else all)"
proof (cases s)
  case Nil
  then show ?thesis
    by (subst repeat_matches.simps) (simp add: char_step_def)
next
  case (Cons x s')
  have upt: "[Suc 0..<Suc (Suc n)] = map Suc [0..<Suc n]" for n
    by (subst map_Suc_upt) simp
  have "repeat_matches (char_step P) 1 None greedy (pos, s, caps) =
          (if P x then repeat_matches (char_step P) 0 None greedy (pos + 1, s', caps) else [])"
    using Cons by (subst repeat_matches.simps) (simp add: char_step_def shorter_rest_def)
  then show ?thesis
    using Cons unfolding repeat_char_step by (simp add: upt Let_def rev_map o_def del: upt_Suc)
qed

lemma repeat_none: "f st = [] \<Longrightarrow> repeat_matches f 0 mx greedy st = [st]"
  by (subst repeat_matches.simps) simp

lemma rmatch_repeat_class:
  "rmatch icase (R_repeat mn mx greedy (R_class neg items)) st =
     repeat_matches (char_step (\<lambda>x. list_ex (item_matches icase x) items \<noteq> neg)) mn mx greedy st"
proof -
  have "(\<lambda>(pos, s, caps). rmatch icase (R_class neg items) (pos, s, reset_captures (groups_in (R_class neg items)) caps)) =
      char_step (\<lambda>x. list_ex (item_matches icase x) items \<noteq> neg)"
    unfolding rmatch_class_step by (simp add: reset_captures_def fun_eq_iff)
  then show ?thesis
    unfolding rmatch.simps by simp
qed

section \<open>Where captures lie\<close>

fun no_look :: "regex \<Rightarrow> bool" where
  "no_look (R_seq a b) = (no_look a \<and> no_look b)"
| "no_look (R_alt a b) = (no_look a \<and> no_look b)"
| "no_look (R_group n r) = no_look r"
| "no_look (R_look _ _) = False"
| "no_look (R_repeat _ _ _ r) = no_look r"
| "no_look _ = True"

text \<open>A match moves forward, and the captures it sets lie in the text it consumes.\<close>

definition forward :: "match_state \<Rightarrow> match_state \<Rightarrow> bool" where
  "forward st st' \<longleftrightarrow>
     (case (st, st') of ((pos, s, caps), (pos', s', caps')) \<Rightarrow>
        pos \<le> pos' \<and> pos' + length s' = pos + length s \<and> length caps' = length caps \<and>
        (\<forall>j < length caps. \<forall>b e. caps' ! j = Some (b, e) \<longrightarrow> caps ! j = Some (b, e) \<or> pos \<le> b \<and> b \<le> e \<and> e \<le> pos'))"

lemma forward_refl [simp]: "forward st st"
  by (auto simp: forward_def split: prod.split)

lemma forward_trans: "forward st st1 \<Longrightarrow> forward st1 st2 \<Longrightarrow> forward st st2"
  unfolding forward_def by (auto split: prod.splits) (meson le_trans)+

lemma length_reset_captures [simp]: "length (reset_captures ns caps) = length caps"
  by (induction ns arbitrary: caps) (simp_all add: reset_captures_def)

lemma nth_reset_captures: "reset_captures ns caps ! j = Some be \<Longrightarrow> j < length caps \<Longrightarrow> caps ! j = Some be"
proof (induction ns arbitrary: caps)
  case (Cons n ns)
  have "(caps[n := None]) ! j = Some be"
    using Cons.IH [of "caps[n := None]"] Cons.prems by (simp add: reset_captures_def)
  then show ?case
    using Cons.prems(2) by (cases "n = j") auto
qed (simp add: reset_captures_def)

lemma repeat_matches_forward:
  assumes "\<And>st st'. st' \<in> set (f st) \<Longrightarrow> forward st st'" and "st' \<in> set (repeat_matches f mn mx greedy st)"
  shows "forward st st'"
  using assms(2)
proof (induction "mn + length (fst (snd st))" arbitrary: mn mx st rule: less_induct)
  case less
  have "st' = st \<or> (\<exists>st1. st1 \<in> set (f st) \<and> shorter_rest mn st st1 \<and>
      st' \<in> set (repeat_matches f (mn - 1) (map_option (\<lambda>n. n - 1) mx) greedy st1))"
    using less.prems by (subst (asm) repeat_matches.simps) (auto simp: Let_def split: if_splits)
  then show ?case
  proof
    assume "\<exists>st1. st1 \<in> set (f st) \<and> shorter_rest mn st st1 \<and>
      st' \<in> set (repeat_matches f (mn - 1) (map_option (\<lambda>n. n - 1) mx) greedy st1)"
    then obtain st1 where st1: "st1 \<in> set (f st)" "shorter_rest mn st st1"
      "st' \<in> set (repeat_matches f (mn - 1) (map_option (\<lambda>n. n - 1) mx) greedy st1)"
      by blast
    have "forward st1 st'"
      using st1(2,3) by (intro less.hyps) (auto simp: shorter_rest_def)
    with assms(1) [OF st1(1)] show ?thesis
      by (rule forward_trans)
  qed simp
qed

lemma rmatch_forward: "no_look r \<Longrightarrow> st' \<in> set (rmatch icase r st) \<Longrightarrow> forward st st'"
proof (induction r arbitrary: st st')
  case (R_seq a b)
  then obtain st1 where "st1 \<in> set (rmatch icase a st)" "st' \<in> set (rmatch icase b st1)"
    by auto
  with R_seq have "forward st st1" "forward st1 st'"
    by simp_all
  then show ?case
    by (rule forward_trans)
next
  case (R_alt a b)
  from R_alt.prems(2) consider "st' \<in> set (rmatch icase a st)" | "st' \<in> set (rmatch icase b st)"
    by auto
  then show ?case
    using R_alt by cases simp_all
next
  case (R_group n r)
  obtain pos s caps where st: "st = (pos, s, caps)"
    by (cases st)
  with R_group.prems obtain pos' s' caps' where st1: "(pos', s', caps') \<in> set (rmatch icase r (pos, s, caps))"
    "st' = (pos', s', caps'[n := Some (pos, pos')])"
    by auto
  then have "forward (pos, s, caps) (pos', s', caps')"
    using R_group by simp
  then show ?case
    unfolding st st1(2) forward_def
    by (cases "n < length caps'") (auto simp: nth_list_update not_less split: if_splits)
next
  case (R_repeat mn mx greedy r)
  let ?f = "\<lambda>(pos, s, caps). rmatch icase r (pos, s, reset_captures (groups_in r) caps)"
  have "forward st st'" if "st' \<in> set (?f st)" for st st'
  proof -
    obtain pos s caps where st: "st = (pos, s, caps)"
      by (cases st)
    then have "forward (pos, s, reset_captures (groups_in r) caps) st'"
      using R_repeat.IH [of st' "(pos, s, reset_captures (groups_in r) caps)"] R_repeat.prems(1) that by simp
    then show ?thesis
      unfolding st forward_def by (auto split: prod.splits dest: nth_reset_captures)
  qed
  then show ?case
    using R_repeat.prems(2) by (auto intro: repeat_matches_forward [of ?f])
qed (auto simp: forward_def split: list.splits if_splits prod.splits)

text \<open>The matches of an iterator follow each other, with their captures inside.\<close>

fun matches_within :: "nat \<Rightarrow> nat \<Rightarrow> match_result list \<Rightarrow> nat \<Rightarrow> bool" where
  "matches_within n pos [] stop = (pos \<le> stop)"
| "matches_within n pos (m # ms) stop =
     (length (mr_captures m) = n \<and> pos \<le> mr_begin m \<and> mr_begin m \<le> mr_end m \<and>
      (\<forall>c \<in> set (mr_captures m). \<forall>b e. c = Some (b, e) \<longrightarrow> mr_begin m \<le> b \<and> b \<le> e \<and> e \<le> mr_end m) \<and>
      matches_within n (mr_end m) ms stop)"

lemma matches_within_le: "matches_within n pos ms stop \<Longrightarrow> pos \<le> stop"
  by (induction ms arbitrary: pos) fastforce+

lemma match_at_within:
  assumes "no_look (cr_regex re)" "match_at re pos s = Some m"
  shows "length (mr_captures m) = cr_groups re \<and> mr_begin m = pos \<and> pos \<le> mr_end m \<and> mr_end m \<le> pos + length s \<and>
    (\<forall>c \<in> set (mr_captures m). \<forall>b e. c = Some (b, e) \<longrightarrow> pos \<le> b \<and> b \<le> e \<and> e \<le> mr_end m)"
proof -
  obtain pos' s' caps rest where r: "rmatch (cr_icase re) (cr_regex re) (pos, s, replicate (cr_groups re) None) = (pos', s', caps) # rest"
    "m = \<lparr>mr_begin = pos, mr_end = pos', mr_captures = caps\<rparr>"
    using assms(2) by (auto simp: match_at_def split: list.splits)
  have "forward (pos, s, replicate (cr_groups re) None) (pos', s', caps)"
    by (rule rmatch_forward [OF assms(1), of _ "cr_icase re"]) (simp add: r(1))
  then show ?thesis
    unfolding r(2) forward_def by (auto simp: in_set_conv_nth)
qed

lemma search_from_within:
  assumes "no_look (cr_regex re)"
  shows "search_from re pos s = Some m \<Longrightarrow> length (mr_captures m) = cr_groups re \<and> pos \<le> mr_begin m \<and> mr_begin m \<le> mr_end m \<and> mr_end m \<le> pos + length s \<and>
    (\<forall>c \<in> set (mr_captures m). \<forall>b e. c = Some (b, e) \<longrightarrow> mr_begin m \<le> b \<and> b \<le> e \<and> e \<le> mr_end m)"
proof (induction s arbitrary: pos)
  case Nil
  then show ?case
    by (subst (asm) search_from.simps) (auto split: option.splits dest: match_at_within [OF assms])
next
  case (Cons c s)
  show ?case
  proof (cases "match_at re pos (c # s)")
    case None
    then have "search_from re (pos + 1) s = Some m"
      using Cons.prems by (subst (asm) search_from.simps) simp
    from Cons.IH [OF this] show ?thesis
      by simp
  next
    case (Some m')
    then have "m' = m"
      using Cons.prems by (subst (asm) search_from.simps) simp
    with match_at_within [OF assms Some] show ?thesis
      by simp
  qed
qed

lemma regex_matches_within:
  assumes "no_look (cr_regex re)"
  shows "matches_within (cr_groups re) pos (regex_matches re pos s) (pos + length s)"
proof (induction "length s" arbitrary: pos s rule: less_induct)
  case less
  show ?case
  proof (cases "search_from re pos s")
    case None
    then show ?thesis
      by (subst regex_matches.simps) simp
  next
    case (Some m)
    note w = search_from_within [OF assms Some]
    show ?thesis
    proof (cases "pos < mr_end m \<and> s \<noteq> []")
      case True
      then have "matches_within (cr_groups re) (mr_end m) (regex_matches re (mr_end m) (drop (mr_end m - pos) s))
          (mr_end m + length (drop (mr_end m - pos) s))"
        by (intro less) (auto simp: length_greater_0_conv [symmetric] simp del: length_greater_0_conv)
      moreover have "mr_end m + length (drop (mr_end m - pos) s) = pos + length s"
        using w True by auto
      ultimately show ?thesis
        using w True Some by (subst regex_matches.simps) (simp add: add.commute)
    next
      case False
      then show ?thesis
        using w Some by (subst regex_matches.simps) auto
    qed
  qed
qed

end
