(* ===== verification/Path2Regex.thy ===== *)
theory Path2Regex
  imports Std_Regex
begin

text \<open>
  \<^verbatim>\<open>restinio/path2regex/path2regex.hpp\<close>: a route in the style of express.js becomes a regular
  expression and a sequence of appenders, one per parameter.

  The virtual classes derived from \<^verbatim>\<open>token_t\<close> are the constructors of \<open>token_t\<close>.  The views of the
  names in the shared buffer are positions in it.  A string that was moved from is empty.  An exception is
  a value; \<^verbatim>\<open>tokens2regexp\<close> turns the ones raised inside it into its own.
\<close>

section \<open>Definitions\<close>

definition escape_group :: "string \<Rightarrow> string" where
  "escape_group grp = concat (map (\<lambda>c. if c \<in> set ''=!:$/()'' then [CHR 0x5C, c] else [c]) grp)"

definition must_be_escaped :: "char \<Rightarrow> bool" where
  "must_be_escaped c \<longleftrightarrow> c \<in> set ''.+*?=^:${}()[]|/'' \<or> c = CHR 0x5C"

definition escape_string :: "string \<Rightarrow> string" where
  "escape_string grp = concat (map (\<lambda>c. if must_be_escaped c then [CHR 0x5C, c] else [c]) grp)"

record options_t =
  o_sensitive :: bool
  o_strict :: bool
  o_ending :: bool
  o_delimiter :: string
  o_delimiters :: string
  o_ends_with :: "string list"

definition options_default :: options_t where
  "options_default =
     \<lparr>o_sensitive = False, o_strict = False, o_ending = True, o_delimiter = ''/'', o_delimiters = ''./'',
      o_ends_with = []\<rparr>"

definition make_delimiter :: "options_t \<Rightarrow> string \<Rightarrow> string" where
  "make_delimiter options d = (if d = [] then o_delimiter options else d)"

definition make_ends_with :: "options_t \<Rightarrow> string" where
  "make_ends_with options =
     concat (map (\<lambda>e. if e \<noteq> [] then escape_string e @ ''|'' else []) (o_ends_with options)) @ ''$''"

datatype param_appender_t = Add_named nat nat | Add_indexed

datatype path_error =
    Unmatched_group_start nat
  | Unmatched_group_finish nat
  | Unable_to_insert_name
  | Too_many_parameters u64
  | Regex_error
  | Unable_to_process_route path_error

text \<open>The shared buffer of names; \<^verbatim>\<open>reserve\<close> guarantees the capacity that was asked for.\<close>

record names_buffer_appender_t =
  nb_buffer :: string
  nb_capacity :: nat

definition names_buffer_appender :: "nat \<Rightarrow> names_buffer_appender_t" where
  "names_buffer_appender reserve_size = \<lparr>nb_buffer = [], nb_capacity = reserve_size\<rparr>"

definition append_name ::
    "string \<Rightarrow> names_buffer_appender_t \<Rightarrow> path_error + (nat \<times> nat) \<times> names_buffer_appender_t" where
  "append_name name nb =
     (let n = length name
      in if nb_capacity nb - length (nb_buffer nb) < n then Inl Unable_to_insert_name
         else Inr ((length (nb_buffer nb), n), nb\<lparr>nb_buffer := nb_buffer nb @ name\<rparr>))"

definition path_regex_str :: string where
  "path_regex_str =
     [CHR ''('', CHR 0x5C, CHR 0x5C, CHR ''.'', CHR '')'', CHR ''|''] @
     ''(?:'' @ [CHR 0x5C] @ '':('' @ [CHR 0x5C] @ ''w+)(?:'' @ [CHR 0x5C] @ ''(((?:'' @ [CHR 0x5C, CHR 0x5C] @ ''.|[^'' @
     [CHR 0x5C, CHR 0x5C] @ ''()])+)'' @ [CHR 0x5C] @ ''))?|'' @
     [CHR 0x5C] @ ''(((?:'' @ [CHR 0x5C, CHR 0x5C] @ ''.|[^'' @ [CHR 0x5C, CHR 0x5C] @ ''()])+)'' @ [CHR 0x5C] @
     ''))([+*?])?''"

datatype param_name = Name_of string | Name_index nat

datatype token_t =
    Plain_string_token string char
  | Parameter_token param_name string string bool bool bool string

datatype token_type_t = Plain_string | Capturing_token

definition create_plain_token :: "string \<Rightarrow> token_t" where
  "create_plain_token path = Plain_string_token (escape_string path) (last path)"

definition create_param_token ::
    "param_name \<Rightarrow> string \<Rightarrow> string \<Rightarrow> bool \<Rightarrow> bool \<Rightarrow> bool \<Rightarrow> string \<Rightarrow> token_t" where
  "create_param_token name prefix delimiter is_optional is_repeat is_partial pattern =
     Parameter_token name (escape_string prefix) delimiter is_optional is_repeat is_partial pattern"

text \<open>The text of a parameter in the regular expression of the route.\<close>

definition param_capture :: "string \<Rightarrow> bool \<Rightarrow> bool \<Rightarrow> bool \<Rightarrow> string \<Rightarrow> string" where
  "param_capture escaped_prefix is_optional is_repeat is_partial pattern =
     (let capture = ''(?:'' @ pattern @ '')'';
          capture = (if is_repeat then capture @ ''(?:'' @ escaped_prefix @ capture @ '')*'' else capture)
      in if is_optional then
           (if \<not> is_partial then ''(?:'' @ escaped_prefix @ ''('' @ capture @ ''))?''
            else escaped_prefix @ ''('' @ capture @ '')?'')
         else escaped_prefix @ ''('' @ capture @ '')'')"

fun append_self_to ::
    "token_t \<Rightarrow> string \<times> param_appender_t list \<times> names_buffer_appender_t \<Rightarrow>
       path_error + token_type_t \<times> string \<times> param_appender_t list \<times> names_buffer_appender_t" where
  "append_self_to (Plain_string_token escaped_path last_char) (route, appenders, nb) =
     Inr (Plain_string, route @ escaped_path, appenders, nb)"
| "append_self_to (Parameter_token name escaped_prefix delimiter is_optional is_repeat is_partial pattern) (route, appenders, nb) =
     (let route = route @ param_capture escaped_prefix is_optional is_repeat is_partial pattern
      in case name of
           Name_of n \<Rightarrow>
             (case append_name n nb of
                Inl e \<Rightarrow> Inl e
              | Inr ((pos, len), nb) \<Rightarrow> Inr (Capturing_token, route, appenders @ [Add_named pos len], nb))
         | Name_index i \<Rightarrow> Inr (Capturing_token, route, appenders @ [Add_indexed], nb))"

fun is_end_delimited :: "token_t \<Rightarrow> string \<Rightarrow> bool" where
  "is_end_delimited (Plain_string_token escaped_path last_char) delimiters = (last_char \<in> set delimiters)"
| "is_end_delimited _ delimiters = False"

text \<open>The position of a character in a view.\<close>

definition find_char :: "char \<Rightarrow> string \<Rightarrow> nat option" where
  "find_char c s = (if c \<in> set s then Some (length (takeWhile (\<lambda>x. x \<noteq> c) s)) else None)"

definition check_no_unescaped_brackets :: "string \<Rightarrow> nat \<Rightarrow> path_error + string" where
  "check_no_unescaped_brackets strv base_pos =
     (case find_char CHR ''('' strv of
        Some pos \<Rightarrow> Inl (Unmatched_group_start (base_pos + pos))
      | None \<Rightarrow>
          (case find_char CHR '')'' strv of
             Some pos \<Rightarrow> Inl (Unmatched_group_finish (base_pos + pos))
           | None \<Rightarrow> Inr strv))"

text \<open>\<^verbatim>\<open>match[i].str()\<close>, empty when the group did not take part.\<close>

definition submatch_str :: "string \<Rightarrow> match_result \<Rightarrow> nat \<Rightarrow> string" where
  "submatch_str text m i =
     (case mr_captures m ! (i - 1) of Some (b, e) \<Rightarrow> take (e - b) (drop b text) | None \<Rightarrow> [])"

abbreviation (input) group_escaped_idx :: nat where "group_escaped_idx \<equiv> 1"
abbreviation (input) group_name_idx :: nat where "group_name_idx \<equiv> 2"
abbreviation (input) group_capture_idx :: nat where "group_capture_idx \<equiv> 3"
abbreviation (input) group_group_idx :: nat where "group_group_idx \<equiv> 4"
abbreviation (input) group_modifier_idx :: nat where "group_modifier_idx \<equiv> 5"

definition create_pattern :: "string \<Rightarrow> string \<Rightarrow> string" where
  "create_pattern delimiter pattern =
     (if pattern \<noteq> [] then escape_group pattern else ''[^'' @ escape_string delimiter @ '']+?'')"

text \<open>The local variables of \<^verbatim>\<open>parse()\<close>.\<close>

record parse_state =
  ps_path :: string
  ps_path_escaped :: bool
  ps_result :: "token_t list"

definition handle_param_token :: "options_t \<Rightarrow> string \<Rightarrow> match_result \<Rightarrow> parse_state \<Rightarrow> parse_state" where
  "handle_param_token options route m st =
     (let (prefix, path) =
            (if \<not> ps_path_escaped st \<and> ps_path st \<noteq> [] \<and> last (ps_path st) \<in> set (o_delimiters options)
             then ([last (ps_path st)], butlast (ps_path st)) else ([], ps_path st));
          (result, path, path_escaped) =
            (if path \<noteq> [] then (ps_result st @ [create_plain_token path], [], False)
             else (ps_result st, path, ps_path_escaped st));
          next_str = take 1 (drop (mr_end m) route);
          name = submatch_str route m group_name_idx;
          modifier = submatch_str route m group_modifier_idx;
          is_partial = (prefix \<noteq> [] \<and> next_str \<noteq> [] \<and> prefix \<noteq> next_str);
          is_optional = (modifier = ''?'' \<or> modifier = ''*'');
          is_repeat = (modifier = ''+'' \<or> modifier = ''*'');
          delimiter = make_delimiter options prefix;
          tok = (if name \<noteq> []
                 then create_param_token (Name_of name) prefix delimiter is_optional is_repeat is_partial
                        (create_pattern delimiter (submatch_str route m group_capture_idx))
                 else create_param_token (Name_index 0) prefix delimiter is_optional is_repeat is_partial
                        (create_pattern delimiter (submatch_str route m group_group_idx)))
      in \<lparr>ps_path = path, ps_path_escaped = path_escaped, ps_result = result @ [tok]\<rparr>)"

fun parse_loop :: "options_t \<Rightarrow> string \<Rightarrow> nat \<Rightarrow> match_result list \<Rightarrow> parse_state \<Rightarrow> path_error + parse_state" where
  "parse_loop options route prev_end [] st = Inr st"
| "parse_loop options route prev_end (m # ms) st =
     (case check_no_unescaped_brackets (take (mr_begin m - prev_end) (drop prev_end route)) prev_end of
        Inl e \<Rightarrow> Inl e
      | Inr prefix \<Rightarrow>
          (let st = st\<lparr>ps_path := ps_path st @ prefix\<rparr>;
               escaped = submatch_str route m group_escaped_idx;
               st = (if escaped \<noteq> []
                     then st\<lparr>ps_path := ps_path st @ [escaped ! 1], ps_path_escaped := True\<rparr>
                     else handle_param_token options route m st)
           in if ms = [] then
                (case check_no_unescaped_brackets (drop (mr_end m) route) (mr_end m) of
                   Inl e \<Rightarrow> Inl e
                 | Inr suffix \<Rightarrow> Inr (st\<lparr>ps_path := ps_path st @ suffix\<rparr>))
              else parse_loop options route (mr_end m) ms st))"

definition main_path_regex :: compiled_regex where
  "main_path_regex = the (compile path_regex_str False)"

definition parse :: "string \<Rightarrow> options_t \<Rightarrow> path_error + token_t list" where
  "parse route options =
     (let tokens = regex_matches main_path_regex 0 route;
          st = \<lparr>ps_path = [], ps_path_escaped = False, ps_result = []\<rparr>
      in case (if tokens = []
               then (case check_no_unescaped_brackets route 0 of
                       Inl e \<Rightarrow> Inl e
                     | Inr path \<Rightarrow> Inr (st\<lparr>ps_path := path\<rparr>))
               else parse_loop options route 0 tokens st) of
           Inl e \<Rightarrow> Inl e
         | Inr st \<Rightarrow>
             Inr (if ps_path st \<noteq> [] then ps_result st @ [create_plain_token (ps_path st)] else ps_result st))"

record route_regex_matcher_data_t =
  rd_regex :: compiled_regex
  rd_named_params_buffer :: string
  rd_param_appender_sequence :: "param_appender_t list"

fun append_tokens ::
    "token_t list \<Rightarrow> u64 \<Rightarrow> string \<times> param_appender_t list \<times> names_buffer_appender_t \<Rightarrow>
       path_error + u64 \<times> string \<times> param_appender_t list \<times> names_buffer_appender_t" where
  "append_tokens [] captured_groups_count acc = Inr (captured_groups_count, acc)"
| "append_tokens (t # tokens) captured_groups_count acc =
     (case append_self_to t acc of
        Inl e \<Rightarrow> Inl e
      | Inr (appended_token_type, acc) \<Rightarrow>
          append_tokens tokens
            (if Capturing_token = appended_token_type then captured_groups_count + 1 else captured_groups_count) acc)"

definition route_ending :: "token_t list \<Rightarrow> options_t \<Rightarrow> string" where
  "route_ending tokens options =
     (let delimiter = escape_string (o_delimiter options);
          ends_with = make_ends_with options
      in if o_ending options then
           (if \<not> o_strict options then ''(?:'' @ delimiter @ '')?'' else []) @
           (if ends_with = ''$'' then ''$'' else ''(?='' @ ends_with @ '')'')
         else
           (if \<not> o_strict options then ''(?:'' @ delimiter @ ''(?='' @ ends_with @ ''))?'' else []) @
           (if tokens \<noteq> [] \<and> \<not> is_end_delimited (last tokens) (o_delimiters options)
            then ''(?='' @ delimiter @ ''|'' @ ends_with @ '')'' else []))"

text \<open>\<^verbatim>\<open>std_regex_engine_t\<close>: the bound on groups and the compilation.\<close>

definition max_capture_groups :: u64 where "max_capture_groups = - 1"

definition compile_regex :: "string \<Rightarrow> bool \<Rightarrow> compiled_regex option" where
  "compile_regex r is_case_sensative = compile r (\<not> is_case_sensative)"

definition tokens2regexp :: "string \<Rightarrow> token_t list \<Rightarrow> options_t \<Rightarrow> path_error + route_regex_matcher_data_t" where
  "tokens2regexp path tokens options =
     (case append_tokens tokens 1 ([], [], names_buffer_appender (length path)) of
        Inl e \<Rightarrow> Inl (Unable_to_process_route e)
      | Inr (captured_groups_count, route, appenders, nb) \<Rightarrow>
          (if max_capture_groups < captured_groups_count
           then Inl (Unable_to_process_route (Too_many_parameters captured_groups_count))
           else case compile_regex (''^'' @ route @ route_ending tokens options) (o_sensitive options) of
                  None \<Rightarrow> Inl (Unable_to_process_route Regex_error)
                | Some re \<Rightarrow>
                    Inr \<lparr>rd_regex = re, rd_named_params_buffer = nb_buffer nb, rd_param_appender_sequence = appenders\<rparr>))"

definition path2regex :: "string \<Rightarrow> options_t \<Rightarrow> path_error + route_regex_matcher_data_t" where
  "path2regex path options =
     (case parse path options of
        Inl e \<Rightarrow> Inl e
      | Inr tokens \<Rightarrow> tokens2regexp path tokens options)"

section \<open>Escaped text stands for itself\<close>

lemma lex_token_plain: "\<not> must_be_escaped c \<Longrightarrow> lex_token c s = Some (T_term (R_char c), s)"
  by (simp add: lex_token_def must_be_escaped_def)

lemma lex_token_escaped: "must_be_escaped c \<Longrightarrow> lex_token CHR 0x5C (c # s) = Some (T_term (R_char c), s)"
  unfolding must_be_escaped_def
  by (auto; simp add: lex_token_def escaped_item_def is_word_char_def is_digit_char_def in_char_range_def)

lemma lex_escape_string:
  "lex (escape_string t @ s) = map_option (append (map (\<lambda>c. T_term (R_char c)) t)) (lex s)"
proof (induction t)
  case Nil
  then show ?case by (cases "lex s") (simp_all add: escape_string_def)
next
  case (Cons c t)
  have "lex (escape_string (c # t) @ s) = map_option (Cons (T_term (R_char c))) (lex (escape_string t @ s))"
    by (simp add: escape_string_def lex_token_plain lex_token_escaped)
  then show ?case
    by (simp add: Cons.IH option.map_comp o_def)
qed

section \<open>The tokens of a route\<close>

lemma compile_main_path_regex:
  "main_path_regex = \<lparr>cr_regex =
     R_alt (seq_of [R_group 0 (seq_of [R_char CHR 0x5C, R_any])])
       (seq_of
         [R_alt
            (seq_of
              [R_char CHR '':'', R_group 1 (seq_of [R_repeat 1 None True (R_class False [Item_class CHR ''w''])]),
               R_repeat 0 (Some 1) True
                 (seq_of [R_char CHR ''('',
                   R_group 2 (seq_of [R_repeat 1 None True
                     (R_alt (seq_of [R_char CHR 0x5C, R_any])
                            (seq_of [R_class True [Item_char CHR 0x5C, Item_char CHR ''('', Item_char CHR '')'']]))]),
                   R_char CHR '')''])])
            (seq_of
              [R_char CHR ''('',
               R_group 3 (seq_of [R_repeat 1 None True
                 (R_alt (seq_of [R_char CHR 0x5C, R_any])
                        (seq_of [R_class True [Item_char CHR 0x5C, Item_char CHR ''('', Item_char CHR '')'']]))]),
               R_char CHR '')'']),
          R_repeat 0 (Some 1) True (R_group 4 (seq_of [R_class False [Item_char CHR ''+'', Item_char CHR ''*'', Item_char CHR ''?'']]))]),
     cr_groups = 5, cr_icase = False\<rparr>"
  by code_simp

lemma match_main_none:
  assumes "s = [] \<or> hd s \<notin> {CHR 0x5C, CHR '':'', CHR ''(''}"
  shows "match_at main_path_regex pos s = None"
  using assms by (cases s) (auto simp: match_at_def compile_main_path_regex seq_of_def same_char_def)

text \<open>A parameter name ends where a character follows that neither belongs to it nor qualifies it.\<close>

definition ends_name :: "string \<Rightarrow> bool" where
  "ends_name r \<longleftrightarrow> r = [] \<or> (\<not> is_word_char (hd r) \<and> hd r \<notin> set ''(+*?'')"

lemma takeWhile_name: "list_all P n \<Longrightarrow> r = [] \<or> \<not> P (hd r) \<Longrightarrow> takeWhile P (n @ r) = n"
  by (cases r) (auto simp: takeWhile_append list_all_iff takeWhile_eq_all_conv)

lemma match_main_param:
  assumes n: "n \<noteq> []" "list_all is_word_char n" and r: "ends_name r"
  shows "match_at main_path_regex pos (CHR '':'' # n @ r) =
    Some \<lparr>mr_begin = pos, mr_end = pos + 1 + length n,
          mr_captures = [None, Some (pos + 1, pos + 1 + length n), None, None, None]\<rparr>"
proof -
  have tw: "takeWhile is_word_char (n @ r) = n"
    using n(2) r by (intro takeWhile_name) (auto simp: ends_name_def)
  obtain k where k: "length n = Suc k"
    using n(1) by (cases n) auto
  have upt: "rev [Suc 0..<Suc (Suc k)] = Suc k # rev [Suc 0..<Suc k]"
    by simp
  have name: "rmatch False (R_repeat (Suc 0) None True (R_class False [Item_class CHR ''w''])) (p, n @ r, caps) =
      (p + Suc k, r, caps) # map (\<lambda>k. (p + k, drop k (n @ r), caps)) (rev [Suc 0..<Suc k])" for p caps
    using k by (simp add: rmatch_repeat_class repeat_char_step_once [unfolded One_nat_def] in_named_class_def tw rev_map upt
        del: upt_Suc rmatch.simps(11))
  have group: "rmatch False (R_repeat 0 mx greedy (R_seq (R_char CHR ''('') x)) (p, r, caps) = [(p, r, caps)]"
    for mx greedy x p caps
    using r by (cases r) (auto simp: ends_name_def same_char_def intro!: repeat_none)
  have modifier: "rmatch False (R_repeat 0 mx greedy (R_group g
      (R_seq (R_class False [Item_char CHR ''+'', Item_char CHR ''*'', Item_char CHR ''?'']) x))) (p, r, caps) = [(p, r, caps)]"
    for mx greedy g x p caps
    using r by (cases r) (auto simp: ends_name_def same_char_def intro!: repeat_none)
  show ?thesis
    by (simp add: match_at_def compile_main_path_regex seq_of_def same_char_def name group modifier k numeral_eq_Suc
        del: upt_Suc rmatch.simps(11))
qed

text \<open>Text without the characters that begin a token is passed over.\<close>

definition plain_char :: "char \<Rightarrow> bool" where
  "plain_char c \<longleftrightarrow> c \<noteq> CHR 0x5C \<and> c \<noteq> CHR '':'' \<and> c \<noteq> CHR ''('' \<and> c \<noteq> CHR '')''"

lemma search_main_plain:
  "list_all plain_char w \<Longrightarrow> search_from main_path_regex pos (w @ r) = search_from main_path_regex (pos + length w) r"
proof (induction w arbitrary: pos)
  case (Cons c w)
  then have "search_from main_path_regex pos ((c # w) @ r) = search_from main_path_regex (pos + 1) (w @ r)"
    by (subst search_from.simps) (simp add: match_main_none plain_char_def)
  with Cons show ?case by simp
qed simp

lemma search_main_end: "search_from main_path_regex pos [] = None"
  by (subst search_from.simps) (simp add: match_main_none)

text \<open>
  A route of literal pieces and named parameters, as \<open>Literal w\<close> and \<open>Param n\<close>, and what the parser makes
  of it.  \<open>pending\<close> is the literal text that is not yet in a token.
\<close>

datatype route_piece = Literal string | Param string

fun piece_text :: "route_piece \<Rightarrow> string" where
  "piece_text (Literal w) = w"
| "piece_text (Param n) = CHR '':'' # n"

definition route_text :: "route_piece list \<Rightarrow> string" where
  "route_text ps = concat (map piece_text ps)"

fun pieces_ok :: "route_piece list \<Rightarrow> bool" where
  "pieces_ok [] = True"
| "pieces_ok (Literal w # ps) = (list_all plain_char w \<and> pieces_ok ps)"
| "pieces_ok (Param n # ps) =
     (n \<noteq> [] \<and> list_all is_word_char n \<and> ends_name (route_text ps) \<and> pieces_ok ps)"

fun piece_matches :: "nat \<Rightarrow> route_piece list \<Rightarrow> match_result list" where
  "piece_matches pos [] = []"
| "piece_matches pos (Literal w # ps) = piece_matches (pos + length w) ps"
| "piece_matches pos (Param n # ps) =
     \<lparr>mr_begin = pos, mr_end = pos + 1 + length n,
      mr_captures = [None, Some (pos + 1, pos + 1 + length n), None, None, None]\<rparr> #
     piece_matches (pos + 1 + length n) ps"

lemma regex_matches_main:
  "pieces_ok ps \<Longrightarrow> list_all plain_char w \<Longrightarrow>
     regex_matches main_path_regex pos (w @ route_text ps) = piece_matches (pos + length w) ps"
proof (induction ps arbitrary: pos w)
  case Nil
  then have "search_from main_path_regex pos w = None"
    using search_main_plain [of w pos "[]"] by (simp add: search_main_end)
  then show ?case
    by (subst regex_matches.simps) (simp add: route_text_def)
next
  case (Cons p ps)
  show ?case
  proof (cases p)
    case (Literal v)
    with Cons.prems Cons.IH [of "w @ v" pos] show ?thesis
      by (simp add: route_text_def add.assoc)
  next
    case (Param n)
    let ?r = "route_text ps"
    have rt: "route_text (p # ps) = CHR '':'' # n @ ?r"
      by (simp add: Param route_text_def)
    have "search_from main_path_regex pos (w @ route_text (p # ps)) =
        search_from main_path_regex (pos + length w) (CHR '':'' # n @ ?r)"
      using Cons.prems by (simp add: search_main_plain rt)
    also have "\<dots> = match_at main_path_regex (pos + length w) (CHR '':'' # n @ ?r)"
      using Cons.prems Param by (subst search_from.simps) (simp add: match_main_param)
    finally show ?thesis
      unfolding Param using Cons.prems Param Cons.IH [of "[]" "pos + length w + 1 + length n"] rt
      by (subst regex_matches.simps) (simp add: match_main_param)
  qed
qed

definition split_prefix :: "options_t \<Rightarrow> string \<Rightarrow> string \<times> string" where
  "split_prefix options path =
     (if path \<noteq> [] \<and> last path \<in> set (o_delimiters options) then ([last path], butlast path) else ([], path))"

definition plain_tokens :: "string \<Rightarrow> token_t list" where
  "plain_tokens path = (if path \<noteq> [] then [create_plain_token path] else [])"

fun piece_tokens :: "options_t \<Rightarrow> string \<Rightarrow> route_piece list \<Rightarrow> token_t list" where
  "piece_tokens options pending [] = plain_tokens pending"
| "piece_tokens options pending (Literal w # ps) = piece_tokens options (pending @ w) ps"
| "piece_tokens options pending (Param n # ps) =
     (let (prefix, path) = split_prefix options pending;
          following = take 1 (route_text ps);
          delimiter = make_delimiter options prefix
      in plain_tokens path @
         create_param_token (Name_of n) prefix delimiter False False (prefix \<noteq> [] \<and> following \<noteq> [] \<and> prefix \<noteq> following)
           (''[^'' @ escape_string delimiter @ '']+?'') #
         piece_tokens options [] ps)"

lemma check_plain: "list_all plain_char w \<Longrightarrow> check_no_unescaped_brackets w base = Inr w"
  by (auto simp: check_no_unescaped_brackets_def find_char_def plain_char_def list_all_iff)

lemma no_params:
  "piece_matches pos ps = [] \<Longrightarrow> pieces_ok ps \<Longrightarrow>
     list_all plain_char (route_text ps) \<and> piece_tokens options q ps = plain_tokens (q @ route_text ps)"
  by (induction ps arbitrary: pos q rule: pieces_ok.induct) (auto simp: route_text_def)

lemma parse_loop_pieces:
  assumes "route = d @ w @ route_text ps" "list_all plain_char w" "pieces_ok ps"
    "piece_matches (length d + length w) ps \<noteq> []"
  shows "\<exists>st. parse_loop options route (length d) (piece_matches (length d + length w) ps)
            \<lparr>ps_path = p, ps_path_escaped = False, ps_result = res\<rparr> = Inr st \<and>
          ps_result st @ plain_tokens (ps_path st) = res @ piece_tokens options (p @ w) ps"
  using assms
proof (induction ps arbitrary: d w p res)
  case (Cons x ps)
  show ?case
  proof (cases x)
    case (Literal v)
    with Cons.prems Cons.IH [of d "w @ v" p res] show ?thesis
      by (simp add: route_text_def add.assoc)
  next
    case (Param n)
    let ?e = "length d + length w + 1 + length n"
    let ?m = "\<lparr>mr_begin = length d + length w, mr_end = ?e,
                mr_captures = [None, Some (length d + length w + 1, ?e), None, None, None]\<rparr>"
    have route: "route = d @ w @ CHR '':'' # n @ route_text ps"
      using Cons.prems(1) by (simp add: Param route_text_def)
    obtain prefix path where split: "split_prefix options (p @ w) = (prefix, path)"
      by fastforce
    define tok where "tok = create_param_token (Name_of n) prefix (make_delimiter options prefix) False False
        (prefix \<noteq> [] \<and> take 1 (route_text ps) \<noteq> [] \<and> prefix \<noteq> take 1 (route_text ps))
        (''[^'' @ escape_string (make_delimiter options prefix) @ '']+?'')"
    have tok: "handle_param_token options route ?m \<lparr>ps_path = p @ w, ps_path_escaped = False, ps_result = res\<rparr> =
        \<lparr>ps_path = [], ps_path_escaped = False, ps_result = res @ plain_tokens path @ [tok]\<rparr>"
      using split Cons.prems(3) Param
      by (auto simp: handle_param_token_def submatch_str_def route tok_def create_pattern_def plain_tokens_def
          split_prefix_def Let_def split: if_splits)
    have drops: "drop ?e route = route_text ps" "take (length w) (drop (length d) route) = w"
      by (simp_all add: route)
    have ok: "pieces_ok ps"
      using Cons.prems(3) Param by simp
    have tokens: "piece_tokens options (p @ w) (x # ps) = plain_tokens path @ tok # piece_tokens options [] ps"
      by (simp add: Param split tok_def Let_def)
    show ?thesis
    proof (cases "piece_matches ?e ps = []")
      case True
      then show ?thesis
        using no_params [OF True ok, of options "[]"] Cons.prems(2)
        unfolding tokens by (simp add: Param tok [simplified] drops [simplified] check_plain submatch_str_def)
    next
      case False
      have "\<exists>st. parse_loop options route ?e (piece_matches ?e ps)
            \<lparr>ps_path = [], ps_path_escaped = False, ps_result = res @ plain_tokens path @ [tok]\<rparr> = Inr st \<and>
          ps_result st @ plain_tokens (ps_path st) = (res @ plain_tokens path @ [tok]) @ piece_tokens options [] ps"
        using Cons.IH [of "d @ w @ CHR '':'' # n" "[]" "[]" "res @ plain_tokens path @ [tok]"] route ok False
        by (simp add: add.assoc)
      then show ?thesis
        using False Cons.prems(2)
        unfolding tokens by (simp add: Param tok [simplified] drops [simplified] check_plain submatch_str_def)
    qed
  qed
qed simp

lemma parse_pieces:
  assumes "pieces_ok ps"
  shows "parse (route_text ps) options = Inr (piece_tokens options [] ps)"
proof -
  have m: "regex_matches main_path_regex 0 (route_text ps) = piece_matches 0 ps"
    using regex_matches_main [of ps "[]" 0] assms by simp
  show ?thesis
  proof (cases "piece_matches 0 ps = []")
    case True
    then show ?thesis
      using no_params [OF True assms, of options "[]"] by (simp add: parse_def m check_plain plain_tokens_def Let_def)
  next
    case False
    then show ?thesis
      using parse_loop_pieces [of "route_text ps" "[]" "[]" ps options "[]" "[]"] assms
      by (auto simp: parse_def m plain_tokens_def Let_def)
  qed
qed

section \<open>The regular expression of a route\<close>

fun token_text :: "token_t \<Rightarrow> string" where
  "token_text (Plain_string_token escaped_path last_char) = escaped_path"
| "token_text (Parameter_token name escaped_prefix delimiter is_optional is_repeat is_partial pattern) =
     param_capture escaped_prefix is_optional is_repeat is_partial pattern"

text \<open>The delimiter of a parameter after the literal text \<open>q\<close>.\<close>

definition delimiter_after :: "options_t \<Rightarrow> string \<Rightarrow> string" where
  "delimiter_after options q = make_delimiter options (fst (split_prefix options q))"

definition value_regex :: "string \<Rightarrow> regex" where
  "value_regex d = seq_of [seq_of [R_repeat 1 None False (R_class True (map Item_char d))]]"

fun piece_terms :: "options_t \<Rightarrow> nat \<Rightarrow> string \<Rightarrow> route_piece list \<Rightarrow> regex list" where
  "piece_terms options i q [] = []"
| "piece_terms options i q (Literal w # ps) = map R_char w @ piece_terms options i (q @ w) ps"
| "piece_terms options i q (Param n # ps) =
     R_group i (value_regex (delimiter_after options q)) # piece_terms options (i + 1) [] ps"

fun param_names :: "route_piece list \<Rightarrow> string list" where
  "param_names [] = []"
| "param_names (Literal w # ps) = param_names ps"
| "param_names (Param n # ps) = n # param_names ps"

text \<open>The options the lemmas are about: the usual delimiters and a match up to the end of the path.\<close>

definition usual_options :: "options_t \<Rightarrow> bool" where
  "usual_options options \<longleftrightarrow>
     o_ending options \<and> o_delimiter options = ''/'' \<and> o_delimiters options = ''./'' \<and> o_ends_with options = []"

lemma delimiter_after_escaped:
  "usual_options options \<Longrightarrow> list_all must_be_escaped (delimiter_after options q)"
  by (auto simp: delimiter_after_def usual_options_def make_delimiter_def split_prefix_def must_be_escaped_def)

lemma lex_item_escaped: "must_be_escaped c \<Longrightarrow> lex_item CHR 0x5C (c # s) = Some (Item_char c, s)"
  using lex_token_escaped [of c s]
  by (auto simp: lex_token_def lex_item_def split: option.splits elim: item_term.elims)

lemma lex_items_escaped:
  "list_all must_be_escaped d \<Longrightarrow> lex_items (escape_string d @ CHR '']'' # s) = Some (map Item_char d, s)"
proof (induction d)
  case (Cons c d)
  then have "lex_items (escape_string (c # d) @ CHR '']'' # s) =
      map_option (\<lambda>(is, rest). (Item_char c # is, rest)) (lex_items (escape_string d @ CHR '']'' # s))"
    by (simp add: escape_string_def lex_item_escaped)
  with Cons show ?case by simp
qed (simp add: escape_string_def)

definition value_tokens :: "string \<Rightarrow> regex_token list" where
  "value_tokens d =
     [T_open G_capture, T_open G_plain, T_term (R_class True (map Item_char d)), T_quant 1 None False, T_close, T_close]"

lemma lex_value:
  assumes "list_all must_be_escaped d"
  shows "lex (''((?:[^'' @ escape_string d @ '']+?))'' @ s) = map_option (append (value_tokens d)) (lex s)"
  using lex_items_escaped [OF assms, of "''+?))'' @ s"]
  by (cases "lex s") (simp_all add: lex_token_def lex_open_def lex_class_def lex_lazy_def value_tokens_def)

lemma build_value:
  "build (value_tokens d @ ts) n f gs = build ts (n + 1) (add_term (R_group n (value_regex d)) f) gs"
  by (simp add: value_tokens_def value_regex_def add_term_def group_regex_def frame_regex_def)

fun name_spans :: "nat \<Rightarrow> string list \<Rightarrow> param_appender_t list" where
  "name_spans k [] = []"
| "name_spans k (n # ns) = Add_named k (length n) # name_spans (k + length n) ns"

lemma append_tokens_plain:
  "append_tokens (plain_tokens path @ ts) cnt (route, apps, nb) = append_tokens ts cnt (route @ escape_string path, apps, nb)"
  by (simp add: plain_tokens_def create_plain_token_def escape_string_def)

lemma append_pieces:
  "length (nb_buffer nb) + length (concat (param_names ps)) \<le> nb_capacity nb \<Longrightarrow>
     \<exists>k. append_tokens (piece_tokens options q ps) cnt (route, apps, nb) =
       Inr (k, route @ concat (map token_text (piece_tokens options q ps)),
            apps @ name_spans (length (nb_buffer nb)) (param_names ps),
            nb\<lparr>nb_buffer := nb_buffer nb @ concat (param_names ps)\<rparr>)"
proof (induction ps arbitrary: q cnt route apps nb)
  case Nil
  then show ?case
    using append_tokens_plain [of q "[]"] by (simp add: plain_tokens_def create_plain_token_def escape_string_def)
next
  case (Cons x ps)
  show ?case
  proof (cases x)
    case (Literal w)
    with Cons show ?thesis by simp
  next
    case (Param n)
    obtain prefix path where split: "split_prefix options q = (prefix, path)"
      by fastforce
    define tok where "tok = create_param_token (Name_of n) prefix (make_delimiter options prefix) False False
        (prefix \<noteq> [] \<and> take 1 (route_text ps) \<noteq> [] \<and> prefix \<noteq> take 1 (route_text ps))
        (''[^'' @ escape_string (make_delimiter options prefix) @ '']+?'')"
    have tokens: "piece_tokens options q (Param n # ps) = plain_tokens path @ tok # piece_tokens options [] ps"
      by (simp add: split Let_def tok_def)
    have plain: "concat (map token_text (plain_tokens path)) = escape_string path"
      by (simp add: plain_tokens_def create_plain_token_def escape_string_def)
    have tok: "append_self_to tok (r, apps, nb) =
        Inr (Capturing_token, r @ token_text tok, apps @ [Add_named (length (nb_buffer nb)) (length n)],
             nb\<lparr>nb_buffer := nb_buffer nb @ n\<rparr>)" for r
    proof -
      have "\<not> nb_capacity nb - length (nb_buffer nb) < length n"
        using Cons.prems Param by simp
      then show ?thesis
        by (simp add: tok_def create_param_token_def append_name_def Let_def)
    qed
    obtain k where "append_tokens (piece_tokens options [] ps) (cnt + 1)
        (route @ escape_string path @ token_text tok, apps @ [Add_named (length (nb_buffer nb)) (length n)],
         nb\<lparr>nb_buffer := nb_buffer nb @ n\<rparr>) =
       Inr (k, (route @ escape_string path @ token_text tok) @ concat (map token_text (piece_tokens options [] ps)),
            (apps @ [Add_named (length (nb_buffer nb)) (length n)]) @ name_spans (length (nb_buffer nb @ n)) (param_names ps),
            nb\<lparr>nb_buffer := (nb_buffer nb @ n) @ concat (param_names ps)\<rparr>)"
      using Cons.IH [of "nb\<lparr>nb_buffer := nb_buffer nb @ n\<rparr>" "[]" "cnt + 1" "route @ escape_string path @ token_text tok"
          "apps @ [Add_named (length (nb_buffer nb)) (length n)]"] Cons.prems Param
      by auto
    then show ?thesis
      unfolding Param tokens append_tokens_plain by (simp add: tok plain)
  qed
qed

fun piece_rtoks :: "options_t \<Rightarrow> string \<Rightarrow> route_piece list \<Rightarrow> regex_token list" where
  "piece_rtoks options q [] = []"
| "piece_rtoks options q (Literal w # ps) = map T_term (map R_char w) @ piece_rtoks options (q @ w) ps"
| "piece_rtoks options q (Param n # ps) = value_tokens (delimiter_after options q) @ piece_rtoks options [] ps"

lemma escape_string_append: "escape_string (a @ b) = escape_string a @ escape_string b"
  by (simp add: escape_string_def)

lemma split_prefix_join: "split_prefix options q = (prefix, path) \<Longrightarrow> path @ prefix = q"
  by (auto simp: split_prefix_def split: if_splits)

lemma lex_pieces:
  assumes "usual_options options"
  shows "lex (concat (map token_text (piece_tokens options q ps)) @ s) =
    map_option (append (map T_term (map R_char q) @ piece_rtoks options q ps)) (lex s)"
proof (induction ps arbitrary: q)
  case Nil
  then show ?case
    using lex_escape_string [of q s]
    by (simp add: plain_tokens_def create_plain_token_def escape_string_def o_def option.map_ident)
next
  case (Cons x ps)
  show ?case
  proof (cases x)
    case (Literal w)
    with Cons show ?thesis by simp
  next
    case (Param n)
    obtain prefix path where split: "split_prefix options q = (prefix, path)"
      by fastforce
    have d: "make_delimiter options prefix = delimiter_after options q"
      by (simp add: delimiter_after_def split)
    have plain: "concat (map token_text (plain_tokens path)) = escape_string path"
      by (simp add: plain_tokens_def create_plain_token_def escape_string_def)
    have q: "escape_string q = escape_string path @ escape_string prefix"
      using split_prefix_join [OF split] by (simp flip: escape_string_append)
    have "concat (map token_text (piece_tokens options q (Param n # ps))) @ s =
        escape_string q @ ''((?:[^'' @ escape_string (delimiter_after options q) @ '']+?))'' @
        concat (map token_text (piece_tokens options [] ps)) @ s"
      by (simp add: split d Let_def create_param_token_def param_capture_def plain q)
    then show ?thesis
      unfolding Param
      by (simp only: lex_escape_string lex_value [OF delimiter_after_escaped [OF assms]] Cons.IH)
        (simp add: option.map_comp o_def)
  qed
qed

lemma build_pieces:
  "build (piece_rtoks options q ps @ ts) n f gs =
     build ts (n + length (param_names ps)) (f\<lparr>gf_terms := rev (piece_terms options n q ps) @ gf_terms f\<rparr>) gs"
proof (induction ps arbitrary: q n f)
  case (Cons x ps)
  then show ?case
    by (cases x) (simp_all add: build_terms build_value add_term_def del: map_map)
qed simp

text \<open>The end of the regular expression.\<close>

definition ending_terms :: "options_t \<Rightarrow> regex list" where
  "ending_terms options =
     (if o_strict options then [R_end] else [R_repeat 0 (Some 1) True (seq_of [R_char CHR ''/'']), R_end])"

lemma lex_ending:
  assumes "usual_options options"
  shows "lex (route_ending ts options) =
    Some (if o_strict options then [T_term R_end]
          else [T_open G_plain, T_term (R_char CHR ''/''), T_close, T_quant 0 (Some 1) True, T_term R_end])"
  using assms
  by (simp add: usual_options_def route_ending_def make_ends_with_def escape_string_def must_be_escaped_def
      lex_token_escaped lex_token_def lex_open_def lex_lazy_def escaped_item_def is_word_char_def is_digit_char_def in_char_range_def)

lemma path2regex_pieces:
  assumes ok: "pieces_ok ps" and options: "usual_options options"
  shows "path2regex (route_text ps) options =
    Inr \<lparr>rd_regex = \<lparr>cr_regex = seq_of (R_begin # piece_terms options 0 [] ps @ ending_terms options),
                     cr_groups = length (param_names ps), cr_icase = \<not> o_sensitive options\<rparr>,
         rd_named_params_buffer = concat (param_names ps),
         rd_param_appender_sequence = name_spans 0 (param_names ps)\<rparr>"
proof -
  let ?ts = "piece_tokens options [] ps"
  have "length (concat (param_names ps)) \<le> length (route_text ps)"
    by (induction ps rule: param_names.induct) (simp_all add: route_text_def)
  then obtain k where app: "append_tokens ?ts 1 ([], [], names_buffer_appender (length (route_text ps))) =
      Inr (k, concat (map token_text ?ts), name_spans 0 (param_names ps),
           \<lparr>nb_buffer = concat (param_names ps), nb_capacity = length (route_text ps)\<rparr>)"
    using append_pieces [of "names_buffer_appender (length (route_text ps))" ps options "[]" 1 "[]" "[]"]
    by (auto simp: names_buffer_appender_def)
  have "lex (''^'' @ concat (map token_text ?ts) @ route_ending ?ts options) =
      Some (T_term R_begin # piece_rtoks options [] ps @ the (lex (route_ending ?ts options)))"
    by (simp add: lex_token_def lex_pieces [OF options] lex_ending [OF options])
  moreover have "quantifiable (seq_of [R_char CHR ''/''])"
    by (simp add: seq_of_def)
  ultimately have "compile_regex (''^'' @ concat (map token_text ?ts) @ route_ending ?ts options) (o_sensitive options) =
      Some \<lparr>cr_regex = seq_of (R_begin # piece_terms options 0 [] ps @ ending_terms options),
            cr_groups = length (param_names ps), cr_icase = \<not> o_sensitive options\<rparr>"
    by (simp add: compile_regex_def compile_def build_pieces lex_ending [OF options] add_term_def frame_regex_def
        group_regex_def ending_terms_def)
  moreover have "\<not> max_capture_groups < k"
    by (simp add: max_capture_groups_def not_less)
  ultimately show ?thesis
    by (simp add: path2regex_def parse_pieces [OF ok] tokens2regexp_def app)
qed

section \<open>The paths a route matches\<close>

text \<open>
  \<open>fits\<close> says that the texts \<open>us\<close> are what the pieces stand for: a literal up to the case of letters
  when the route is not case sensitive, a non-empty value without the delimiter for a parameter.
\<close>

fun fits :: "options_t \<Rightarrow> string \<Rightarrow> route_piece list \<Rightarrow> string list \<Rightarrow> bool" where
  "fits options q [] us = (us = [])"
| "fits options q (Literal w # ps) (u # us) =
     (list_all2 (same_char (\<not> o_sensitive options)) w u \<and> fits options (q @ w) ps us)"
| "fits options q (Param n # ps) (u # us) =
     (u \<noteq> [] \<and> set u \<inter> set (delimiter_after options q) = {} \<and> fits options [] ps us)"
| "fits options q ps [] = False"

fun param_values :: "route_piece list \<Rightarrow> string list \<Rightarrow> string list" where
  "param_values (Literal w # ps) (u # us) = param_values ps us"
| "param_values (Param n # ps) (u # us) = u # param_values ps us"
| "param_values _ _ = []"

fun set_captures :: "nat \<Rightarrow> nat \<Rightarrow> route_piece list \<Rightarrow> string list \<Rightarrow> captures \<Rightarrow> captures" where
  "set_captures i pos (Literal w # ps) (u # us) caps = set_captures i (pos + length u) ps us caps"
| "set_captures i pos (Param n # ps) (u # us) caps =
     set_captures (i + 1) (pos + length u) ps us (caps[i := Some (pos, pos + length u)])"
| "set_captures i pos _ _ caps = caps"

lemma same_char_escaped: "must_be_escaped d \<Longrightarrow> same_char icase d x \<longleftrightarrow> x = d"
proof
  assume d: "must_be_escaped d" and "same_char icase d x"
  have "c_tolower d = d" "\<not> (97 \<le> (of_char d :: nat) \<and> (of_char d :: nat) \<le> 122)"
    using d unfolding must_be_escaped_def by (auto simp: c_tolower_def)
  moreover have "c_tolower x = x \<or> 97 \<le> (of_char (c_tolower x) :: nat) \<and> (of_char (c_tolower x) :: nat) \<le> 122"
    by (auto simp: c_tolower_def)
  ultimately show "x = d"
    using \<open>same_char icase d x\<close> by (auto simp: same_char_def split: if_splits)
qed (simp add: same_char_def)

lemma class_excludes:
  "list_all must_be_escaped d \<Longrightarrow> (list_ex (item_matches icase x) (map Item_char d) \<noteq> True) \<longleftrightarrow> x \<notin> set d"
  by (auto simp: list_ex_iff list_all_iff same_char_escaped)

lemma rmatch_literal:
  "st' \<in> set (rmatch icase (seq_of (map R_char w)) (pos, s, caps)) \<longleftrightarrow>
     (\<exists>u t. s = u @ t \<and> list_all2 (same_char icase) w u \<and> st' = (pos + length u, t, caps))"
proof (induction w arbitrary: pos s)
  case (Cons c w)
  show ?case
    using Cons by (cases s) (auto simp: seq_of_def list_all2_Cons1 Cons_eq_append_conv)
qed (auto simp: seq_of_def)

lemma le_length_takeWhile:
  "k \<le> length (takeWhile P s) \<longleftrightarrow> (\<exists>u t. s = u @ t \<and> length u = k \<and> (\<forall>x \<in> set u. P x))"
proof
  assume k: "k \<le> length (takeWhile P s)"
  have "s = takeWhile P s @ dropWhile P s"
    by simp
  then have "s = take k (takeWhile P s) @ (drop k (takeWhile P s) @ dropWhile P s)"
    by (metis append.assoc append_take_drop_id)
  with k show "\<exists>u t. s = u @ t \<and> length u = k \<and> (\<forall>x \<in> set u. P x)"
    by (intro exI conjI) (auto dest: in_set_takeD set_takeWhileD)
qed (auto simp: takeWhile_append2)

lemma concat_map_empty [simp]:
  "concat (map (rmatch icase R_empty) sts) = sts"
  "concat (map (rmatch icase R_empty \<circ> f) xs) = map f xs"
  by (induction sts, simp_all) (induction xs, simp_all)

lemma rmatch_value:
  assumes "list_all must_be_escaped d"
  shows "st' \<in> set (rmatch icase (R_group i (value_regex d)) (pos, s, caps)) \<longleftrightarrow>
    (\<exists>u t. s = u @ t \<and> u \<noteq> [] \<and> set u \<inter> set d = {} \<and>
       st' = (pos + length u, t, caps[i := Some (pos, pos + length u)]))"
proof -
  let ?P = "\<lambda>x. x \<notin> set d"
  have "rmatch icase (value_regex d) (pos, s, caps) =
      map (\<lambda>k. (pos + k, drop k s, caps)) [1..<Suc (length (takeWhile ?P s))]"
    using class_excludes [OF assms]
    by (simp add: value_regex_def seq_of_def rmatch_repeat_class repeat_char_step_once [unfolded One_nat_def]
        del: rmatch.simps(11) upt_Suc)
  then have "st' \<in> set (rmatch icase (R_group i (value_regex d)) (pos, s, caps)) \<longleftrightarrow>
      (\<exists>k. 1 \<le> k \<and> k \<le> length (takeWhile ?P s) \<and> st' = (pos + k, drop k s, caps[i := Some (pos, pos + k)]))"
    by (auto simp: less_Suc_eq_le simp del: upt_Suc)
  also have "\<dots> \<longleftrightarrow> (\<exists>u t. s = u @ t \<and> u \<noteq> [] \<and> set u \<inter> set d = {} \<and>
       st' = (pos + length u, t, caps[i := Some (pos, pos + length u)]))"
    unfolding le_length_takeWhile by (auto simp: Suc_le_eq disjoint_iff) (metis append_eq_conv_conj length_greater_0_conv)
  finally show ?thesis .
qed

lemma rmatch_pieces:
  assumes "usual_options options"
  shows "st' \<in> set (rmatch (\<not> o_sensitive options) (seq_of (piece_terms options i q ps)) (pos, s, caps)) \<longleftrightarrow>
    (\<exists>us t. fits options q ps us \<and> s = concat us @ t \<and>
       st' = (pos + length (concat us), t, set_captures i pos ps us caps))"
proof (induction ps arbitrary: i q pos s caps)
  case Nil
  then show ?case by (cases st') (auto simp: seq_of_def)
next
  case (Cons x ps)
  have "\<not> fits options q (x # ps) []"
    by (cases x) simp_all
  then have fits_Cons: "(\<exists>us. fits options q (x # ps) us \<and> R us) \<longleftrightarrow> (\<exists>u us. fits options q (x # ps) (u # us) \<and> R (u # us))" for R
    by (metis neq_Nil_conv)
  show ?case
  proof (cases x)
    case (Literal w)
    have "st' \<in> set (rmatch (\<not> o_sensitive options) (seq_of (piece_terms options i q (x # ps))) (pos, s, caps)) \<longleftrightarrow>
        (\<exists>u t. s = u @ t \<and> list_all2 (same_char (\<not> o_sensitive options)) w u \<and>
           st' \<in> set (rmatch (\<not> o_sensitive options) (seq_of (piece_terms options i (q @ w) ps)) (pos + length u, t, caps)))"
      unfolding Literal piece_terms.simps rmatch_append_iff rmatch_literal by blast
    then show ?thesis
      unfolding Cons.IH by (auto simp: Literal fits_Cons [unfolded Literal] add.assoc)
  next
    case (Param n)
    have "st' \<in> set (rmatch (\<not> o_sensitive options) (seq_of (piece_terms options i q (x # ps))) (pos, s, caps)) \<longleftrightarrow>
        (\<exists>u t. s = u @ t \<and> u \<noteq> [] \<and> set u \<inter> set (delimiter_after options q) = {} \<and>
           st' \<in> set (rmatch (\<not> o_sensitive options) (seq_of (piece_terms options (i + 1) [] ps))
              (pos + length u, t, caps[i := Some (pos, pos + length u)])))"
      unfolding Param piece_terms.simps rmatch_Cons_iff rmatch_value [OF delimiter_after_escaped [OF assms]] by blast
    then show ?thesis
      unfolding Cons.IH by (auto simp: Param fits_Cons [unfolded Param] add.assoc)
  qed
qed

text \<open>What may follow the pieces: nothing, or one slash when the route is not strict.\<close>

definition path_tail :: "options_t \<Rightarrow> string \<Rightarrow> bool" where
  "path_tail options t \<longleftrightarrow> t = [] \<or> (\<not> o_strict options \<and> t = ''/'')"

lemma rmatch_ending:
  "st' \<in> set (rmatch icase (seq_of (ending_terms options)) (pos, t, caps)) \<longleftrightarrow>
     path_tail options t \<and> st' = (pos + length t, [], caps)"
proof -
  have slash: "st1 \<in> set (rmatch icase (R_repeat 0 (Some 1) True (seq_of [R_char CHR ''/''])) (pos, t, caps)) \<longleftrightarrow>
      st1 = (pos, t, caps) \<or> (\<exists>t'. t = CHR ''/'' # t' \<and> st1 = (pos + 1, t', caps))" for st1
  proof -
    have "must_be_escaped CHR ''/''"
      by (simp add: must_be_escaped_def)
    then show ?thesis
      by (cases t; simp add: seq_of_def same_char_escaped; subst repeat_matches.simps)
        (auto simp: same_char_escaped reset_captures_def shorter_rest_def repeat_matches.simps [of _ _ "Some 0"])
  qed
  show ?thesis
  proof (cases "o_strict options")
    case True
    then show ?thesis
      by (cases st') (auto simp: ending_terms_def path_tail_def seq_of_def)
  next
    case False
    have last: "st' \<in> set (rmatch icase (seq_of [R_end]) (p, s, c)) \<longleftrightarrow> s = [] \<and> st' = (p, s, c)" for p s c
      by (auto simp: seq_of_def)
    from False have "ending_terms options = [R_repeat 0 (Some 1) True (seq_of [R_char CHR ''/'']), R_end]"
      by (simp add: ending_terms_def)
    then show ?thesis
      unfolding path_tail_def \<open>ending_terms options = _\<close> rmatch_Cons_iff [of _ _ "R_repeat _ _ _ _"] slash
      using False by (auto simp: last conj_disj_distribR ex_disj_distrib)
  qed
qed

definition route_regex :: "options_t \<Rightarrow> route_piece list \<Rightarrow> compiled_regex" where
  "route_regex options ps =
     \<lparr>cr_regex = seq_of (R_begin # piece_terms options 0 [] ps @ ending_terms options),
      cr_groups = length (param_names ps), cr_icase = \<not> o_sensitive options\<rparr>"

lemma search_route:
  "regex_search (route_regex options ps) path = match_at (route_regex options ps) 0 path"
proof -
  have later: "match_at (route_regex options ps) (Suc k) s = None" for k s
    by (simp add: match_at_def route_regex_def seq_of_def)
  have none: "search_from (route_regex options ps) (Suc k) s = None" for k s
    by (induction s arbitrary: k) (subst search_from.simps, simp add: later)+
  show ?thesis
    unfolding regex_search_def by (subst search_from.simps) (auto simp: none split: option.split list.split)
qed

lemma route_search:
  assumes "usual_options options"
  shows "regex_search (route_regex options ps) path = None \<longleftrightarrow>
      (\<nexists>us t. fits options [] ps us \<and> path = concat us @ t \<and> path_tail options t)"
    and "regex_search (route_regex options ps) path = Some m \<Longrightarrow>
      \<exists>us t. fits options [] ps us \<and> path = concat us @ t \<and> path_tail options t \<and>
        m = \<lparr>mr_begin = 0, mr_end = length path,
             mr_captures = set_captures 0 0 ps us (replicate (length (param_names ps)) None)\<rparr>"
proof -
  let ?icase = "\<not> o_sensitive options" and ?caps = "replicate (length (param_names ps)) None"
  let ?sts = "rmatch ?icase (seq_of (R_begin # piece_terms options 0 [] ps @ ending_terms options)) (0, path, ?caps)"
  have start: "st1 \<in> set (rmatch ?icase R_begin (0, path, ?caps)) \<longleftrightarrow> st1 = (0, path, ?caps)" for st1
    by auto
  have sts: "st' \<in> set ?sts \<longleftrightarrow> (\<exists>us t. fits options [] ps us \<and> path = concat us @ t \<and> path_tail options t \<and>
      st' = (length path, [], set_captures 0 0 ps us ?caps))" for st'
    unfolding rmatch_Cons_iff start rmatch_append_iff
    by (auto simp: rmatch_pieces [OF assms] rmatch_ending) blast
  have search: "regex_search (route_regex options ps) path =
      (case ?sts of [] \<Rightarrow> None | (pos', _, caps) # _ \<Rightarrow> Some \<lparr>mr_begin = 0, mr_end = pos', mr_captures = caps\<rparr>)"
    unfolding search_route by (simp add: match_at_def route_regex_def)
  have "(\<exists>st'. st' \<in> set ?sts) \<longleftrightarrow> (\<exists>us t. fits options [] ps us \<and> path = concat us @ t \<and> path_tail options t)"
    unfolding sts by blast
  moreover have "?sts = [] \<longleftrightarrow> \<not> (\<exists>st'. st' \<in> set ?sts)"
    by (metis ex_in_conv set_empty)
  moreover have "regex_search (route_regex options ps) path = None \<longleftrightarrow> ?sts = []"
    unfolding search by (auto split: list.splits)
  ultimately show "regex_search (route_regex options ps) path = None \<longleftrightarrow>
      (\<nexists>us t. fits options [] ps us \<and> path = concat us @ t \<and> path_tail options t)"
    by blast
  assume "regex_search (route_regex options ps) path = Some m"
  with search obtain pos s caps rest where "?sts = (pos, s, caps) # rest" "m = \<lparr>mr_begin = 0, mr_end = pos, mr_captures = caps\<rparr>"
    by (auto split: list.splits)
  moreover from this(1) have "(pos, s, caps) \<in> set ?sts"
    by simp
  ultimately show "\<exists>us t. fits options [] ps us \<and> path = concat us @ t \<and> path_tail options t \<and>
        m = \<lparr>mr_begin = 0, mr_end = length path, mr_captures = set_captures 0 0 ps us ?caps\<rparr>"
    unfolding sts by auto
qed

subsection \<open>The captured values\<close>

definition capture_text :: "string \<Rightarrow> (nat \<times> nat) option \<Rightarrow> string" where
  "capture_text path c = (case c of Some (b, e) \<Rightarrow> take (e - b) (drop b path) | None \<Rightarrow> [])"

lemma set_captures_values:
  assumes "fits options q ps us" "path = pre @ concat us @ t" "pos = length pre" "i = length caps"
  shows "map (capture_text path) (set_captures i pos ps us (caps @ replicate (length (param_names ps)) None)) =
      map (capture_text path) caps @ param_values ps us \<and>
    list_all (\<lambda>c. c \<noteq> None) (set_captures i pos ps us (caps @ replicate (length (param_names ps)) None)) =
      list_all (\<lambda>c. c \<noteq> None) caps"
  using assms
proof (induction options q ps us arbitrary: i pos pre caps rule: fits.induct)
  case (2 options q w ps u us)
  then show ?case
    using "2.IH" [of "pre @ u" "pos + length u" i caps] by (simp add: fits.simps)
next
  case (3 options q n ps u us)
  have "(caps @ None # replicate (length (param_names ps)) None)[i := Some (pos, pos + length u)] =
      (caps @ [Some (pos, pos + length u)]) @ replicate (length (param_names ps)) None"
    using "3.prems"(4) by (simp add: list_update_append)
  then show ?case
    using "3.IH" [of "pre @ u" "pos + length u" "i + 1" "caps @ [Some (pos, pos + length u)]"] "3.prems"
    by (simp add: capture_text_def)
qed auto

text \<open>When every parameter is followed by a slash or by the end, the texts are determined.\<close>

fun segmented :: "options_t \<Rightarrow> string \<Rightarrow> route_piece list \<Rightarrow> bool" where
  "segmented options q [] = True"
| "segmented options q (Literal w # ps) = segmented options (q @ w) ps"
| "segmented options q (Param n # ps) =
     (delimiter_after options q = ''/'' \<and>
      (case ps of [] \<Rightarrow> True | Literal w # _ \<Rightarrow> w \<noteq> [] \<and> hd w = CHR ''/'' | Param _ # _ \<Rightarrow> False) \<and> segmented options [] ps)"

lemma segment_text:
  assumes "segmented options q (Param n # ps)" "fits options [] ps us" "path_tail options t" "CHR ''/'' \<notin> set u"
  shows "takeWhile (\<lambda>c. c \<noteq> CHR ''/'') (u @ concat us @ t) = u"
proof -
  have slash: "must_be_escaped CHR ''/''"
    by (simp add: must_be_escaped_def)
  have "concat us @ t = [] \<or> hd (concat us @ t) = CHR ''/''"
  proof (cases ps)
    case Nil
    with assms show ?thesis by (auto simp: path_tail_def)
  next
    case (Cons x ps')
    then obtain w where x: "x = Literal w" "w \<noteq> []" "hd w = CHR ''/''"
      using assms(1) by (cases x) auto
    then obtain v us' where us: "us = v # us'" "list_all2 (same_char (\<not> o_sensitive options)) w v"
      using assms(2) Cons by (cases us) auto
    then have "v \<noteq> []" "hd v = CHR ''/''"
      using x(2,3) by (cases w; auto simp: list_all2_Cons1 same_char_escaped [OF slash])+
    then show ?thesis
      by (simp add: us)
  qed
  then show ?thesis
    using assms(4) by (intro takeWhile_name) (auto simp: list_all_iff)
qed

lemma fits_unique:
  "segmented options q ps \<Longrightarrow> fits options q ps us \<Longrightarrow> fits options q ps us' \<Longrightarrow>
     concat us @ t = concat us' @ t' \<Longrightarrow> path_tail options t \<Longrightarrow> path_tail options t' \<Longrightarrow> us = us'"
proof (induction options q ps us arbitrary: us' rule: fits.induct)
  case (2 options q w ps u us)
  then obtain v vs where us': "us' = v # vs" "list_all2 (same_char (\<not> o_sensitive options)) w v" "fits options (q @ w) ps vs"
    by (cases us') auto
  have "length u = length v"
    using 2 us' by (auto dest!: list_all2_lengthD)
  then have "u = v" "concat us @ t = concat vs @ t'"
    using "2.prems"(4) us' by simp_all
  with 2 us' show ?case by simp
next
  case (3 options q n ps u us)
  then obtain v vs where us': "us' = v # vs" "CHR ''/'' \<notin> set v" "fits options [] ps vs"
    by (cases us') auto
  have "u = takeWhile (\<lambda>c. c \<noteq> CHR ''/'') (u @ concat us @ t)"
    using 3 by (intro segment_text [symmetric]) auto
  also have "\<dots> = takeWhile (\<lambda>c. c \<noteq> CHR ''/'') (v @ concat vs @ t')"
    using "3.prems"(4) us' by simp
  also have "\<dots> = v"
    using 3 us' by (intro segment_text) auto
  finally have "u = v" .
  with 3 us' show ?case by simp
qed auto

section \<open>The buffer of names is always large enough\<close>

fun token_name_length :: "token_t \<Rightarrow> nat" where
  "token_name_length (Parameter_token (Name_of n) _ _ _ _ _ _) = length n"
| "token_name_length _ = 0"

lemma plain_token_name [simp]: "token_name_length (create_plain_token p) = 0"
  by (simp add: create_plain_token_def)

lemma submatch_length:
  assumes "matches_within n pos (m # ms) stop" "i - 1 < n"
  shows "length (submatch_str route m i) \<le> mr_end m - mr_begin m"
proof (cases "mr_captures m ! (i - 1)")
  case (Some be)
  then have "Some be \<in> set (mr_captures m)"
    using assms by (metis matches_within.simps(2) nth_mem)
  then have "mr_begin m \<le> fst be \<and> fst be \<le> snd be \<and> snd be \<le> mr_end m"
    using assms(1) by (cases be) auto
  then show ?thesis
    using Some by (cases be) (auto simp: submatch_str_def)
qed (simp add: submatch_str_def)

lemma handle_param_names:
  "(\<Sum>t \<leftarrow> ps_result (handle_param_token opts route m st). token_name_length t) \<le>
     (\<Sum>t \<leftarrow> ps_result st. token_name_length t) + length (submatch_str route m 2)"
  by (simp add: handle_param_token_def create_param_token_def Let_def split: prod.split)

lemma parse_loop_names:
  "parse_loop opts route prev ms st = Inr st' \<Longrightarrow> matches_within 5 pos ms stop \<Longrightarrow>
     (\<Sum>t \<leftarrow> ps_result st'. token_name_length t) \<le> (\<Sum>t \<leftarrow> ps_result st. token_name_length t) + (stop - pos)"
proof (induction ms arbitrary: prev st pos)
  case (Cons m ms)
  obtain prefix where prefix: "check_no_unescaped_brackets (take (mr_begin m - prev) (drop prev route)) prev = Inr prefix"
    using Cons.prems(1) by (auto split: sum.splits)
  define st1 where "st1 = (if submatch_str route m 1 \<noteq> []
      then st\<lparr>ps_path := (ps_path st @ prefix) @ [submatch_str route m 1 ! 1], ps_path_escaped := True\<rparr>
      else handle_param_token opts route m (st\<lparr>ps_path := ps_path st @ prefix\<rparr>))"
  have st1: "ms = [] \<and> ps_result st' = ps_result st1 \<or> parse_loop opts route (mr_end m) ms st1 = Inr st'"
    using Cons.prems(1) prefix by (auto simp: st1_def Let_def split: sum.splits if_splits)
  have within: "pos \<le> mr_begin m" "mr_begin m \<le> mr_end m" "matches_within 5 (mr_end m) ms stop"
    using Cons.prems(2) by auto
  note le = matches_within_le [OF within(3)]
  have "(\<Sum>t \<leftarrow> ps_result st1. token_name_length t) \<le>
      (\<Sum>t \<leftarrow> ps_result st. token_name_length t) + (mr_end m - mr_begin m)"
    using handle_param_names [of opts route m "st\<lparr>ps_path := ps_path st @ prefix\<rparr>"]
      submatch_length [OF Cons.prems(2), of 2 route] by (simp add: st1_def)
  moreover have "(\<Sum>t \<leftarrow> ps_result st'. token_name_length t) \<le>
      (\<Sum>t \<leftarrow> ps_result st1. token_name_length t) + (stop - mr_end m)"
    using st1 Cons.IH [OF _ within(3)] by auto
  ultimately show ?case
    using within(1,2) le by linarith
qed simp

lemma append_tokens_fits:
  "length (nb_buffer nb) + (\<Sum>t \<leftarrow> ts. token_name_length t) \<le> nb_capacity nb \<Longrightarrow>
   \<forall>a \<in> set apps. \<forall>p l. a = Add_named p l \<longrightarrow> p + l \<le> length (nb_buffer nb) \<Longrightarrow>
     \<exists>k route' apps' nb'. append_tokens ts cnt (route, apps, nb) = Inr (k, route', apps', nb') \<and>
       (\<forall>a \<in> set apps'. \<forall>p l. a = Add_named p l \<longrightarrow> p + l \<le> length (nb_buffer nb'))"
proof (induction ts arbitrary: cnt route apps nb)
  case (Cons t ts)
  show ?case
  proof (cases t)
    case (Plain_string_token e c)
    then show ?thesis
      using Cons.IH [OF _ Cons.prems(2)] Cons.prems(1) by simp
  next
    case (Parameter_token name e d o1 o2 o3 pat)
    show ?thesis
    proof (cases name)
      case (Name_of n)
      define nb1 where "nb1 = nb\<lparr>nb_buffer := nb_buffer nb @ n\<rparr>"
      have le: "length (nb_buffer nb) + length n \<le> nb_capacity nb"
        using Cons.prems(1) Parameter_token Name_of by simp
      then have self: "append_self_to t (route, apps, nb) =
          Inr (Capturing_token, route @ token_text t, apps @ [Add_named (length (nb_buffer nb)) (length n)], nb1)"
        by (simp add: Parameter_token Name_of append_name_def nb1_def Let_def)
      have "\<forall>a \<in> set (apps @ [Add_named (length (nb_buffer nb)) (length n)]). \<forall>p l. a = Add_named p l \<longrightarrow> p + l \<le> length (nb_buffer nb1)"
        using Cons.prems(2) by (auto simp: nb1_def trans_le_add1)
      then show ?thesis
        using Cons.IH [of nb1] Cons.prems(1) self by (simp add: Parameter_token Name_of nb1_def)
    next
      case (Name_index i)
      have "\<forall>a \<in> set (apps @ [Add_indexed]). \<forall>p l. a = Add_named p l \<longrightarrow> p + l \<le> length (nb_buffer nb)"
        using Cons.prems(2) by auto
      then show ?thesis
        using Cons.IH [of nb "apps @ [Add_indexed]"] Cons.prems(1) by (simp add: Parameter_token Name_index)
    qed
  qed
qed auto

text \<open>
  The errors of a route. Making a regular expression of a route can only fail because of an unescaped bracket
  or because the regular expression is refused; the buffer of names, whose size is the length of the
  route, is never too small, so the views of the names stay valid and lie inside of it.
\<close>

theorem path2regex_errors:
  "case path2regex route opts of
     Inl e \<Rightarrow> (\<exists>n. e = Unmatched_group_start n \<or> e = Unmatched_group_finish n) \<or> e = Unable_to_process_route Regex_error
   | Inr d \<Rightarrow> list_all (\<lambda>a. case a of
       Add_named p l \<Rightarrow> p + l \<le> length (rd_named_params_buffer d) | Add_indexed \<Rightarrow> True) (rd_param_appender_sequence d)"
proof (cases "parse route opts")
  case (Inl e)
  have brackets: "check_no_unescaped_brackets s b = Inl e' \<Longrightarrow> \<exists>n. e' = Unmatched_group_start n \<or> e' = Unmatched_group_finish n"
    for s b e'
    by (auto simp: check_no_unescaped_brackets_def split: option.splits)
  have "parse_loop opts route prev ms st = Inl e' \<Longrightarrow> \<exists>n. e' = Unmatched_group_start n \<or> e' = Unmatched_group_finish n"
    for prev ms st e'
    by (induction ms arbitrary: prev st) (auto simp: Let_def split: sum.splits if_splits dest: brackets)
  then have "\<exists>n. e = Unmatched_group_start n \<or> e = Unmatched_group_finish n"
    using Inl by (auto simp: parse_def Let_def split: sum.splits if_splits dest: brackets)
  then show ?thesis
    using Inl by (simp add: path2regex_def)
next
  case (Inr tokens)
  have "no_look (cr_regex main_path_regex)" "cr_groups main_path_regex = 5"
    by (simp_all add: compile_main_path_regex seq_of_def)
  then have within: "matches_within 5 0 (regex_matches main_path_regex 0 route) (length route)"
    using regex_matches_within [of main_path_regex 0 route] by simp
  have "(\<Sum>t \<leftarrow> tokens. token_name_length t) \<le> length route"
    using Inr parse_loop_names [OF _ within, of opts route 0]
    by (fastforce simp: parse_def Let_def split: sum.splits if_splits)
  then obtain k rt apps nb where app: "append_tokens tokens 1 ([], [], names_buffer_appender (length route)) = Inr (k, rt, apps, nb)"
    "\<forall>a \<in> set apps. \<forall>p l. a = Add_named p l \<longrightarrow> p + l \<le> length (nb_buffer nb)"
    using append_tokens_fits [of "names_buffer_appender (length route)" tokens "[]" 1 "[]"]
    by (auto simp: names_buffer_appender_def)
  have "\<not> max_capture_groups < k"
    by (simp add: max_capture_groups_def not_less)
  then show ?thesis
    using app by (auto simp: path2regex_def Inr tokens2regexp_def list_all_iff split: option.splits param_appender_t.splits)
qed

end
