(* ===== verification/Field_Names.thy ===== *)
theory Field_Names
  imports Prelude
begin

text \<open>
  Names of HTTP header fields: \<^verbatim>\<open>restinio/impl/to_lower_lut.hpp\<close>,
  \<^verbatim>\<open>restinio/impl/string_caseless_compare.hpp\<close> and the first part of
  \<^verbatim>\<open>restinio/http_headers.hpp\<close> (\<^verbatim>\<open>RESTINIO_HTTP_FIELDS_MAP\<close>, \<^verbatim>\<open>http_field_t\<close>,
  \<^verbatim>\<open>string_to_field\<close> and \<^verbatim>\<open>field_to_string\<close>).

  An enumerator is modelled by its identifier. \<open>http_fields_map\<close> is the macro that generates the
  enumeration and \<open>field_to_string\<close>; \<open>fields_of_size\<close> is the hand-written switch of
  \<open>string_to_field\<close>, one list of candidates per case label, in the order of the checks. That the
  two agree is what the lemmas show.
\<close>

subsection \<open>Caseless comparison\<close>

definition to_lower_lut :: "u8 list" where
  "to_lower_lut =
     [0x00, 0x01, 0x02, 0x03, 0x04, 0x05, 0x06, 0x07, 0x08, 0x09, 0x0A, 0x0B, 0x0C, 0x0D, 0x0E, 0x0F, 0x10, 0x11,
      0x12, 0x13, 0x14, 0x15, 0x16, 0x17, 0x18, 0x19, 0x1A, 0x1B, 0x1C, 0x1D, 0x1E, 0x1F, 0x20, 0x21, 0x22, 0x23,
      0x24, 0x25, 0x26, 0x27, 0x28, 0x29, 0x2A, 0x2B, 0x2C, 0x2D, 0x2E, 0x2F, 0x30, 0x31, 0x32, 0x33, 0x34, 0x35,
      0x36, 0x37, 0x38, 0x39, 0x3A, 0x3B, 0x3C, 0x3D, 0x3E, 0x3F, 0x40, 0x61, 0x62, 0x63, 0x64, 0x65, 0x66, 0x67,
      0x68, 0x69, 0x6A, 0x6B, 0x6C, 0x6D, 0x6E, 0x6F, 0x70, 0x71, 0x72, 0x73, 0x74, 0x75, 0x76, 0x77, 0x78, 0x79,
      0x7A, 0x5B, 0x5C, 0x5D, 0x5E, 0x5F, 0x60, 0x61, 0x62, 0x63, 0x64, 0x65, 0x66, 0x67, 0x68, 0x69, 0x6A, 0x6B,
      0x6C, 0x6D, 0x6E, 0x6F, 0x70, 0x71, 0x72, 0x73, 0x74, 0x75, 0x76, 0x77, 0x78, 0x79, 0x7A, 0x7B, 0x7C, 0x7D,
      0x7E, 0x7F, 0x80, 0x81, 0x82, 0x83, 0x84, 0x85, 0x86, 0x87, 0x88, 0x89, 0x8A, 0x8B, 0x8C, 0x8D, 0x8E, 0x8F,
      0x90, 0x91, 0x92, 0x93, 0x94, 0x95, 0x96, 0x97, 0x98, 0x99, 0x9A, 0x9B, 0x9C, 0x9D, 0x9E, 0x9F, 0xA0, 0xA1,
      0xA2, 0xA3, 0xA4, 0xA5, 0xA6, 0xA7, 0xA8, 0xA9, 0xAA, 0xAB, 0xAC, 0xAD, 0xAE, 0xAF, 0xB0, 0xB1, 0xB2, 0xB3,
      0xB4, 0xB5, 0xB6, 0xB7, 0xB8, 0xB9, 0xBA, 0xBB, 0xBC, 0xBD, 0xBE, 0xBF, 0xC0, 0xC1, 0xC2, 0xC3, 0xC4, 0xC5,
      0xC6, 0xC7, 0xC8, 0xC9, 0xCA, 0xCB, 0xCC, 0xCD, 0xCE, 0xCF, 0xD0, 0xD1, 0xD2, 0xD3, 0xD4, 0xD5, 0xD6, 0xD7,
      0xD8, 0xD9, 0xDA, 0xDB, 0xDC, 0xDD, 0xDE, 0xDF, 0xE0, 0xE1, 0xE2, 0xE3, 0xE4, 0xE5, 0xE6, 0xE7, 0xE8, 0xE9,
      0xEA, 0xEB, 0xEC, 0xED, 0xEE, 0xEF, 0xF0, 0xF1, 0xF2, 0xF3, 0xF4, 0xF5, 0xF6, 0xF7, 0xF8, 0xF9, 0xFA, 0xFB,
      0xFC, 0xFD, 0xFE, 0xFF]"

definition to_lower_case :: "char \<Rightarrow> char" where
  "to_lower_case ch = char_of_byte (to_lower_lut ! unat (byte_of_char ch))"

definition uchar_at :: "string \<Rightarrow> nat \<Rightarrow> u8" where
  "uchar_at from at = byte_of_char (from ! at)"

text \<open>The overload on pointers and a common size, and the one on two strings.\<close>

definition is_equal_caseless_n :: "string \<Rightarrow> string \<Rightarrow> nat \<Rightarrow> bool" where
  "is_equal_caseless_n a b sz \<longleftrightarrow>
     list_all (\<lambda>i. to_lower_lut ! unat (uchar_at a i) = to_lower_lut ! unat (uchar_at b i)) [0..<sz]"

definition is_equal_caseless :: "string \<Rightarrow> string \<Rightarrow> bool" where
  "is_equal_caseless a b \<longleftrightarrow> (if length a = length b then is_equal_caseless_n a b (length a) else False)"

subsection \<open>The known fields\<close>

datatype http_field_t = http_field string | field_unspecified

definition http_fields_map :: "(string \<times> string) list" where
  "http_fields_map =
     [(''a_im'', ''A-IM''), (''accept'', ''Accept''), (''accept_additions'', ''Accept-Additions''),
      (''accept_charset'', ''Accept-Charset''), (''accept_datetime'', ''Accept-Datetime''),
      (''accept_encoding'', ''Accept-Encoding''), (''accept_features'', ''Accept-Features''),
      (''accept_language'', ''Accept-Language''), (''accept_patch'', ''Accept-Patch''),
      (''accept_post'', ''Accept-Post''), (''accept_ranges'', ''Accept-Ranges''), (''age'', ''Age''),
      (''allow'', ''Allow''), (''alpn'', ''ALPN''), (''alt_svc'', ''Alt-Svc''), (''alt_used'', ''Alt-Used''),
      (''alternates'', ''Alternates''), (''apply_to_redirect_ref'', ''Apply-To-Redirect-Ref''),
      (''authentication_control'', ''Authentication-Control''), (''authentication_info'', ''Authentication-Info''),
      (''authorization'', ''Authorization''), (''c_ext'', ''C-Ext''), (''c_man'', ''C-Man''),
      (''c_opt'', ''C-Opt''), (''c_pep'', ''C-PEP''), (''c_pep_info'', ''C-PEP-Info''),
      (''cache_control'', ''Cache-Control''), (''caldav_timezones'', ''CalDAV-Timezones''), (''close'', ''Close''),
      (''content_base'', ''Content-Base''), (''content_disposition'', ''Content-Disposition''),
      (''content_encoding'', ''Content-Encoding''), (''content_id'', ''Content-ID''),
      (''content_language'', ''Content-Language''), (''content_location'', ''Content-Location''),
      (''content_md5'', ''Content-MD5''), (''content_range'', ''Content-Range''),
      (''content_script_type'', ''Content-Script-Type''), (''content_style_type'', ''Content-Style-Type''),
      (''content_type'', ''Content-Type''), (''content_version'', ''Content-Version''), (''cookie'', ''Cookie''),
      (''cookie2'', ''Cookie2''), (''dasl'', ''DASL''), (''dav'', ''DAV''), (''date'', ''Date''),
      (''default_style'', ''Default-Style''), (''delta_base'', ''Delta-Base''), (''depth'', ''Depth''),
      (''derived_from'', ''Derived-From''), (''destination'', ''Destination''),
      (''differential_id'', ''Differential-ID''), (''digest'', ''Digest''), (''etag'', ''ETag''),
      (''expect'', ''Expect''), (''expires'', ''Expires''), (''ext'', ''Ext''), (''forwarded'', ''Forwarded''),
      (''from'', ''From''), (''getprofile'', ''GetProfile''), (''hobareg'', ''Hobareg''), (''host'', ''Host''),
      (''http2_settings'', ''HTTP2-Settings''), (''im'', ''IM''), (''if_'', ''If''), (''if_match'', ''If-Match''),
      (''if_modified_since'', ''If-Modified-Since''), (''if_none_match'', ''If-None-Match''),
      (''if_range'', ''If-Range''), (''if_schedule_tag_match'', ''If-Schedule-Tag-Match''),
      (''if_unmodified_since'', ''If-Unmodified-Since''), (''keep_alive'', ''Keep-Alive''), (''label'', ''Label''),
      (''last_modified'', ''Last-Modified''), (''link'', ''Link''), (''location'', ''Location''),
      (''lock_token'', ''Lock-Token''), (''man'', ''Man''), (''max_forwards'', ''Max-Forwards''),
      (''memento_datetime'', ''Memento-Datetime''), (''meter'', ''Meter''), (''mime_version'', ''MIME-Version''),
      (''negotiate'', ''Negotiate''), (''opt'', ''Opt''),
      (''optional_www_authenticate'', ''Optional-WWW-Authenticate''), (''ordering_type'', ''Ordering-Type''),
      (''origin'', ''Origin''), (''overwrite'', ''Overwrite''), (''p3p'', ''P3P''), (''pep'', ''PEP''),
      (''pics_label'', ''PICS-Label''), (''pep_info'', ''Pep-Info''), (''position'', ''Position''),
      (''pragma'', ''Pragma''), (''prefer'', ''Prefer''), (''preference_applied'', ''Preference-Applied''),
      (''profileobject'', ''ProfileObject''), (''protocol'', ''Protocol''), (''protocol_info'', ''Protocol-Info''),
      (''protocol_query'', ''Protocol-Query''), (''protocol_request'', ''Protocol-Request''),
      (''proxy_authenticate'', ''Proxy-Authenticate''),
      (''proxy_authentication_info'', ''Proxy-Authentication-Info''),
      (''proxy_authorization'', ''Proxy-Authorization''), (''proxy_features'', ''Proxy-Features''),
      (''proxy_instruction'', ''Proxy-Instruction''), (''public_'', ''Public''),
      (''public_key_pins'', ''Public-Key-Pins''),
      (''public_key_pins_report_only'', ''Public-Key-Pins-Report-Only''), (''range'', ''Range''),
      (''redirect_ref'', ''Redirect-Ref''), (''referer'', ''Referer''), (''retry_after'', ''Retry-After''),
      (''safe'', ''Safe''), (''schedule_reply'', ''Schedule-Reply''), (''schedule_tag'', ''Schedule-Tag''),
      (''sec_websocket_accept'', ''Sec-WebSocket-Accept''),
      (''sec_websocket_extensions'', ''Sec-WebSocket-Extensions''), (''sec_websocket_key'', ''Sec-WebSocket-Key''),
      (''sec_websocket_protocol'', ''Sec-WebSocket-Protocol''),
      (''sec_websocket_version'', ''Sec-WebSocket-Version''), (''security_scheme'', ''Security-Scheme''),
      (''server'', ''Server''), (''set_cookie'', ''Set-Cookie''), (''set_cookie2'', ''Set-Cookie2''),
      (''setprofile'', ''SetProfile''), (''slug'', ''SLUG''), (''soapaction'', ''SoapAction''),
      (''status_uri'', ''Status-URI''), (''strict_transport_security'', ''Strict-Transport-Security''),
      (''surrogate_capability'', ''Surrogate-Capability''), (''surrogate_control'', ''Surrogate-Control''),
      (''tcn'', ''TCN''), (''te'', ''TE''), (''timeout'', ''Timeout''), (''topic'', ''Topic''),
      (''trailer'', ''Trailer''), (''transfer_encoding'', ''Transfer-Encoding''), (''ttl'', ''TTL''),
      (''urgency'', ''Urgency''), (''uri'', ''URI''), (''upgrade'', ''Upgrade''), (''user_agent'', ''User-Agent''),
      (''variant_vary'', ''Variant-Vary''), (''vary'', ''Vary''), (''via'', ''Via''),
      (''www_authenticate'', ''WWW-Authenticate''), (''want_digest'', ''Want-Digest''), (''warning'', ''Warning''),
      (''x_frame_options'', ''X-Frame-Options''), (''access_control'', ''Access-Control''),
      (''access_control_allow_credentials'', ''Access-Control-Allow-Credentials''),
      (''access_control_allow_headers'', ''Access-Control-Allow-Headers''),
      (''access_control_allow_methods'', ''Access-Control-Allow-Methods''),
      (''access_control_allow_origin'', ''Access-Control-Allow-Origin''),
      (''access_control_max_age'', ''Access-Control-Max-Age''),
      (''access_control_request_method'', ''Access-Control-Request-Method''),
      (''access_control_request_headers'', ''Access-Control-Request-Headers''), (''compliance'', ''Compliance''),
      (''content_transfer_encoding'', ''Content-Transfer-Encoding''), (''cost'', ''Cost''),
      (''ediint_features'', ''EDIINT-Features''), (''message_id'', ''Message-ID''),
      (''method_check'', ''Method-Check''), (''method_check_expires'', ''Method-Check-Expires''),
      (''non_compliance'', ''Non-Compliance''), (''optional'', ''Optional''), (''referer_root'', ''Referer-Root''),
      (''resolution_hint'', ''Resolution-Hint''), (''resolver_location'', ''Resolver-Location''),
      (''subok'', ''SubOK''), (''subst'', ''Subst''), (''title'', ''Title''), (''ua_color'', ''UA-Color''),
      (''ua_media'', ''UA-Media''), (''ua_pixels'', ''UA-Pixels''), (''ua_resolution'', ''UA-Resolution''),
      (''ua_windowpixels'', ''UA-Windowpixels''), (''version'', ''Version''),
      (''x_device_accept'', ''X-Device-Accept''), (''x_device_accept_charset'', ''X-Device-Accept-Charset''),
      (''x_device_accept_encoding'', ''X-Device-Accept-Encoding''),
      (''x_device_accept_language'', ''X-Device-Accept-Language''),
      (''x_device_user_agent'', ''X-Device-User-Agent'')]"

definition fields_of_size :: "nat \<Rightarrow> (string \<times> string) list" where
  "fields_of_size field_name_size =
     (if field_name_size = 2 then
        [(''if_'', ''If''), (''im'', ''IM''), (''te'', ''TE'')]
      else if field_name_size = 3 then
        [(''age'', ''Age''), (''dav'', ''DAV''), (''ext'', ''Ext''), (''man'', ''Man''), (''opt'', ''Opt''),
         (''p3p'', ''P3P''), (''pep'', ''PEP''), (''tcn'', ''TCN''), (''ttl'', ''TTL''), (''uri'', ''URI''),
         (''via'', ''Via'')]
      else if field_name_size = 4 then
        [(''host'', ''Host''), (''a_im'', ''A-IM''), (''alpn'', ''ALPN''), (''dasl'', ''DASL''), (''date'', ''Date''),
         (''etag'', ''ETag''), (''from'', ''From''), (''link'', ''Link''), (''safe'', ''Safe''), (''slug'', ''SLUG''),
         (''vary'', ''Vary''), (''cost'', ''Cost'')]
      else if field_name_size = 5 then
        [(''allow'', ''Allow''), (''c_ext'', ''C-Ext''), (''c_man'', ''C-Man''), (''c_opt'', ''C-Opt''),
         (''c_pep'', ''C-PEP''), (''close'', ''Close''), (''depth'', ''Depth''), (''label'', ''Label''),
         (''meter'', ''Meter''), (''range'', ''Range''), (''topic'', ''Topic''), (''subok'', ''SubOK''),
         (''subst'', ''Subst''), (''title'', ''Title'')]
      else if field_name_size = 6 then
        [(''accept'', ''Accept''), (''cookie'', ''Cookie''), (''server'', ''Server''), (''digest'', ''Digest''),
         (''expect'', ''Expect''), (''origin'', ''Origin''), (''pragma'', ''Pragma''), (''prefer'', ''Prefer''),
         (''public_'', ''Public'')]
      else if field_name_size = 7 then
        [(''alt_svc'', ''Alt-Svc''), (''cookie2'', ''Cookie2''), (''expires'', ''Expires''),
         (''hobareg'', ''Hobareg''), (''referer'', ''Referer''), (''timeout'', ''Timeout''),
         (''trailer'', ''Trailer''), (''urgency'', ''Urgency''), (''upgrade'', ''Upgrade''),
         (''warning'', ''Warning''), (''version'', ''Version'')]
      else if field_name_size = 8 then
        [(''alt_used'', ''Alt-Used''), (''if_match'', ''If-Match''), (''if_range'', ''If-Range''),
         (''location'', ''Location''), (''pep_info'', ''Pep-Info''), (''position'', ''Position''),
         (''protocol'', ''Protocol''), (''optional'', ''Optional''), (''ua_color'', ''UA-Color''),
         (''ua_media'', ''UA-Media'')]
      else if field_name_size = 9 then
        [(''forwarded'', ''Forwarded''), (''negotiate'', ''Negotiate''), (''overwrite'', ''Overwrite''),
         (''ua_pixels'', ''UA-Pixels'')]
      else if field_name_size = 10 then
        [(''alternates'', ''Alternates''), (''c_pep_info'', ''C-PEP-Info''), (''content_id'', ''Content-ID''),
         (''delta_base'', ''Delta-Base''), (''getprofile'', ''GetProfile''), (''keep_alive'', ''Keep-Alive''),
         (''lock_token'', ''Lock-Token''), (''pics_label'', ''PICS-Label''), (''set_cookie'', ''Set-Cookie''),
         (''setprofile'', ''SetProfile''), (''soapaction'', ''SoapAction''), (''status_uri'', ''Status-URI''),
         (''user_agent'', ''User-Agent''), (''compliance'', ''Compliance''), (''message_id'', ''Message-ID'')]
      else if field_name_size = 11 then
        [(''accept_post'', ''Accept-Post''), (''content_md5'', ''Content-MD5''), (''destination'', ''Destination''),
         (''retry_after'', ''Retry-After''), (''set_cookie2'', ''Set-Cookie2''), (''want_digest'', ''Want-Digest'')]
      else if field_name_size = 12 then
        [(''content_type'', ''Content-Type''), (''accept_patch'', ''Accept-Patch''),
         (''content_base'', ''Content-Base''), (''derived_from'', ''Derived-From''),
         (''max_forwards'', ''Max-Forwards''), (''mime_version'', ''MIME-Version''),
         (''schedule_tag'', ''Schedule-Tag''), (''redirect_ref'', ''Redirect-Ref''),
         (''variant_vary'', ''Variant-Vary''), (''method_check'', ''Method-Check''),
         (''referer_root'', ''Referer-Root'')]
      else if field_name_size = 13 then
        [(''accept_ranges'', ''Accept-Ranges''), (''authorization'', ''Authorization''),
         (''cache_control'', ''Cache-Control''), (''content_range'', ''Content-Range''),
         (''default_style'', ''Default-Style''), (''if_none_match'', ''If-None-Match''),
         (''last_modified'', ''Last-Modified''), (''ordering_type'', ''Ordering-Type''),
         (''profileobject'', ''ProfileObject''), (''protocol_info'', ''Protocol-Info''),
         (''ua_resolution'', ''UA-Resolution'')]
      else if field_name_size = 14 then
        [(''accept_charset'', ''Accept-Charset''), (''http2_settings'', ''HTTP2-Settings''),
         (''protocol_query'', ''Protocol-Query''), (''proxy_features'', ''Proxy-Features''),
         (''schedule_reply'', ''Schedule-Reply''), (''non_compliance'', ''Non-Compliance''),
         (''access_control'', ''Access-Control'')]
      else if field_name_size = 15 then
        [(''accept_encoding'', ''Accept-Encoding''), (''accept_features'', ''Accept-Features''),
         (''accept_language'', ''Accept-Language''), (''accept_datetime'', ''Accept-Datetime''),
         (''content_version'', ''Content-Version''), (''differential_id'', ''Differential-ID''),
         (''public_key_pins'', ''Public-Key-Pins''), (''security_scheme'', ''Security-Scheme''),
         (''x_frame_options'', ''X-Frame-Options''), (''x_device_accept'', ''X-Device-Accept''),
         (''resolution_hint'', ''Resolution-Hint''), (''ediint_features'', ''EDIINT-Features''),
         (''ua_windowpixels'', ''UA-Windowpixels'')]
      else if field_name_size = 16 then
        [(''accept_additions'', ''Accept-Additions''), (''caldav_timezones'', ''CalDAV-Timezones''),
         (''content_encoding'', ''Content-Encoding''), (''content_language'', ''Content-Language''),
         (''content_location'', ''Content-Location''), (''memento_datetime'', ''Memento-Datetime''),
         (''protocol_request'', ''Protocol-Request''), (''www_authenticate'', ''WWW-Authenticate'')]
      else if field_name_size = 17 then
        [(''if_modified_since'', ''If-Modified-Since''), (''proxy_instruction'', ''Proxy-Instruction''),
         (''sec_websocket_key'', ''Sec-WebSocket-Key''), (''surrogate_control'', ''Surrogate-Control''),
         (''transfer_encoding'', ''Transfer-Encoding''), (''resolver_location'', ''Resolver-Location'')]
      else if field_name_size = 18 then
        [(''content_style_type'', ''Content-Style-Type''), (''preference_applied'', ''Preference-Applied''),
         (''proxy_authenticate'', ''Proxy-Authenticate'')]
      else if field_name_size = 19 then
        [(''authentication_info'', ''Authentication-Info''), (''content_disposition'', ''Content-Disposition''),
         (''content_script_type'', ''Content-Script-Type''), (''if_unmodified_since'', ''If-Unmodified-Since''),
         (''proxy_authorization'', ''Proxy-Authorization''), (''x_device_user_agent'', ''X-Device-User-Agent'')]
      else if field_name_size = 20 then
        [(''sec_websocket_accept'', ''Sec-WebSocket-Accept''), (''surrogate_capability'', ''Surrogate-Capability''),
         (''method_check_expires'', ''Method-Check-Expires'')]
      else if field_name_size = 21 then
        [(''apply_to_redirect_ref'', ''Apply-To-Redirect-Ref''),
         (''if_schedule_tag_match'', ''If-Schedule-Tag-Match''), (''sec_websocket_version'', ''Sec-WebSocket-Version'')]
      else if field_name_size = 22 then
        [(''authentication_control'', ''Authentication-Control''),
         (''sec_websocket_protocol'', ''Sec-WebSocket-Protocol''),
         (''access_control_max_age'', ''Access-Control-Max-Age'')]
      else if field_name_size = 23 then
        [(''x_device_accept_charset'', ''X-Device-Accept-Charset'')]
      else if field_name_size = 24 then
        [(''sec_websocket_extensions'', ''Sec-WebSocket-Extensions''),
         (''x_device_accept_encoding'', ''X-Device-Accept-Encoding''),
         (''x_device_accept_language'', ''X-Device-Accept-Language'')]
      else if field_name_size = 25 then
        [(''optional_www_authenticate'', ''Optional-WWW-Authenticate''),
         (''proxy_authentication_info'', ''Proxy-Authentication-Info''),
         (''strict_transport_security'', ''Strict-Transport-Security''),
         (''content_transfer_encoding'', ''Content-Transfer-Encoding'')]
      else if field_name_size = 27 then
        [(''public_key_pins_report_only'', ''Public-Key-Pins-Report-Only''),
         (''access_control_allow_origin'', ''Access-Control-Allow-Origin'')]
      else if field_name_size = 28 then
        [(''access_control_allow_headers'', ''Access-Control-Allow-Headers''),
         (''access_control_allow_methods'', ''Access-Control-Allow-Methods'')]
      else if field_name_size = 29 then
        [(''access_control_request_method'', ''Access-Control-Request-Method'')]
      else if field_name_size = 30 then
        [(''access_control_request_headers'', ''Access-Control-Request-Headers'')]
      else if field_name_size = 32 then
        [(''access_control_allow_credentials'', ''Access-Control-Allow-Credentials'')]
      else [])"

definition string_to_field :: "string \<Rightarrow> http_field_t" where
  "string_to_field field =
     (case find (\<lambda>(_, candidate_field_name). is_equal_caseless_n field candidate_field_name (length field))
             (fields_of_size (length field)) of
        Some (field_id, _) \<Rightarrow> http_field field_id
      | None \<Rightarrow> field_unspecified)"

fun field_to_string :: "http_field_t \<Rightarrow> string" where
  "field_to_string (http_field name) =
     (case map_of http_fields_map name of Some string_name \<Rightarrow> string_name | None \<Rightarrow> [])"
| "field_to_string field_unspecified = []"

subsection \<open>Facts about the comparison\<close>

lemma length_to_lower_lut [simp]: "length to_lower_lut = 256"
  by (simp add: to_lower_lut_def)

lemma is_equal_caseless_iff: "is_equal_caseless a b \<longleftrightarrow> map to_lower_case a = map to_lower_case b"
proof -
  have *: "to_lower_lut ! unat (uchar_at a i) = to_lower_lut ! unat (uchar_at b i) \<longleftrightarrow>
      to_lower_case (a ! i) = to_lower_case (b ! i)" for i
    by (simp add: uchar_at_def to_lower_case_def)
  show ?thesis
    unfolding is_equal_caseless_def is_equal_caseless_n_def * list.rel_eq [symmetric] list.rel_map list_all2_conv_all_nth
    by (auto simp: list_all_iff)
qed

lemma is_equal_caseless_refl [simp]: "is_equal_caseless a a"
  by (simp add: is_equal_caseless_iff)

lemma is_equal_caseless_sym: "is_equal_caseless a b \<longleftrightarrow> is_equal_caseless b a"
  by (auto simp: is_equal_caseless_iff)

lemma is_equal_caseless_trans: "is_equal_caseless a b \<Longrightarrow> is_equal_caseless b c \<Longrightarrow> is_equal_caseless a c"
  by (simp add: is_equal_caseless_iff)

lemma to_lower_case_name:
    "to_lower_case CHR ''A'' = CHR ''a''" "to_lower_case CHR ''B'' = CHR ''b''" "to_lower_case CHR ''C'' = CHR ''c''" "to_lower_case CHR ''D'' = CHR ''d''" "to_lower_case CHR ''E'' = CHR ''e''"
    "to_lower_case CHR ''F'' = CHR ''f''" "to_lower_case CHR ''G'' = CHR ''g''" "to_lower_case CHR ''H'' = CHR ''h''" "to_lower_case CHR ''I'' = CHR ''i''" "to_lower_case CHR ''J'' = CHR ''j''"
    "to_lower_case CHR ''K'' = CHR ''k''" "to_lower_case CHR ''L'' = CHR ''l''" "to_lower_case CHR ''M'' = CHR ''m''" "to_lower_case CHR ''N'' = CHR ''n''" "to_lower_case CHR ''O'' = CHR ''o''"
    "to_lower_case CHR ''P'' = CHR ''p''" "to_lower_case CHR ''Q'' = CHR ''q''" "to_lower_case CHR ''R'' = CHR ''r''" "to_lower_case CHR ''S'' = CHR ''s''" "to_lower_case CHR ''T'' = CHR ''t''"
    "to_lower_case CHR ''U'' = CHR ''u''" "to_lower_case CHR ''V'' = CHR ''v''" "to_lower_case CHR ''W'' = CHR ''w''" "to_lower_case CHR ''X'' = CHR ''x''" "to_lower_case CHR ''Y'' = CHR ''y''" "to_lower_case CHR ''Z'' = CHR ''z''"
    "to_lower_case CHR ''a'' = CHR ''a''" "to_lower_case CHR ''b'' = CHR ''b''" "to_lower_case CHR ''c'' = CHR ''c''" "to_lower_case CHR ''d'' = CHR ''d''" "to_lower_case CHR ''e'' = CHR ''e''" "to_lower_case CHR ''f'' = CHR ''f''" "to_lower_case CHR ''g'' = CHR ''g''" "to_lower_case CHR ''h'' = CHR ''h''" "to_lower_case CHR ''i'' = CHR ''i''"
    "to_lower_case CHR ''j'' = CHR ''j''" "to_lower_case CHR ''k'' = CHR ''k''" "to_lower_case CHR ''l'' = CHR ''l''" "to_lower_case CHR ''m'' = CHR ''m''" "to_lower_case CHR ''n'' = CHR ''n''" "to_lower_case CHR ''o'' = CHR ''o''" "to_lower_case CHR ''p'' = CHR ''p''" "to_lower_case CHR ''q'' = CHR ''q''" "to_lower_case CHR ''r'' = CHR ''r''"
    "to_lower_case CHR ''s'' = CHR ''s''" "to_lower_case CHR ''t'' = CHR ''t''" "to_lower_case CHR ''u'' = CHR ''u''" "to_lower_case CHR ''v'' = CHR ''v''" "to_lower_case CHR ''w'' = CHR ''w''" "to_lower_case CHR ''x'' = CHR ''x''" "to_lower_case CHR ''y'' = CHR ''y''" "to_lower_case CHR ''z'' = CHR ''z''"
    "to_lower_case CHR ''0'' = CHR ''0''" "to_lower_case CHR ''1'' = CHR ''1''" "to_lower_case CHR ''2'' = CHR ''2''" "to_lower_case CHR ''3'' = CHR ''3''" "to_lower_case CHR ''4'' = CHR ''4''" "to_lower_case CHR ''5'' = CHR ''5''" "to_lower_case CHR ''6'' = CHR ''6''" "to_lower_case CHR ''7'' = CHR ''7''" "to_lower_case CHR ''8'' = CHR ''8''" "to_lower_case CHR ''9'' = CHR ''9''"
    "to_lower_case CHR ''-'' = CHR ''-''"
  by (simp_all add: to_lower_case_def char_of_byte_eq_iff to_lower_lut_def byte_of_char_def)

subsection \<open>Facts about the tables\<close>

lemma fields_of_size_length: "(field_id, name) \<in> set (fields_of_size n) \<Longrightarrow> length name = n"
  by (auto simp: fields_of_size_def split: if_splits)

lemma fields_of_size_distinct: "distinct (map (map to_lower_case \<circ> snd) (fields_of_size n))"
  by (simp add: fields_of_size_def to_lower_case_name)

lemma fields_map_switch:
  "list_all (\<lambda>f. List.member (fields_of_size (length (snd f))) f) http_fields_map"
  by code_simp

lemma fields_switch_map:
  "concat (map fields_of_size [0..<33]) =
   map (\<lambda>i. http_fields_map ! i)
      [64, 63, 133, 11, 44, 56, 77, 83, 88, 89, 132, 138, 140, 145, 61, 0, 13, 43, 45, 53, 58, 74, 113, 126,
       144, 160, 12, 21, 22, 23, 24, 28, 48, 72, 80, 109, 135, 170, 171, 172, 1, 41, 122, 52, 54, 86, 93, 94,
       106, 14, 42, 55, 60, 111, 134, 136, 139, 141, 148, 178, 15, 65, 68, 75, 91, 92, 97, 166, 173, 174, 57,
       82, 87, 175, 16, 25, 32, 47, 59, 71, 76, 90, 123, 125, 127, 128, 142, 158, 162, 9, 35, 50, 112, 124,
       147, 39, 8, 29, 49, 78, 81, 115, 110, 143, 163, 167, 10, 20, 26, 36, 46, 67, 73, 85, 96, 98, 176, 3, 62,
       99, 104, 114, 165, 150, 5, 6, 7, 4, 40, 51, 107, 121, 149, 179, 168, 161, 177, 2, 27, 31, 33, 34, 79,
       100, 146, 66, 105, 118, 131, 137, 169, 38, 95, 101, 19, 30, 37, 70, 103, 183, 116, 130, 164, 17, 69,
       120, 18, 119, 155, 180, 117, 181, 182, 84, 102, 129, 159, 108, 154, 152, 153, 156, 157, 151]"
  by code_simp

lemma fields_of_size_bound: "f \<in> set (fields_of_size n) \<Longrightarrow> n < 33"
  by (auto simp: fields_of_size_def split: if_splits)

text \<open>The switch and the macro list the same fields.\<close>

lemma fields_of_size_map: "f \<in> set (fields_of_size n) \<longleftrightarrow> f \<in> set http_fields_map \<and> length (snd f) = n"
proof -
  have "f \<in> set http_fields_map" if f: "f \<in> set (fields_of_size n)"
  proof -
    have "f \<in> set (concat (map fields_of_size [0..<33]))" using f fields_of_size_bound [OF f] by auto
    moreover have "length http_fields_map = 184" by (simp add: http_fields_map_def)
    ultimately show ?thesis unfolding fields_switch_map set_map by (elim imageE) (auto intro!: nth_mem)
  qed
  then show ?thesis
    using fields_map_switch fields_of_size_length [of "fst f" "snd f"] by (auto simp: list_all_iff)
qed

lemma fields_unique:
  assumes "f \<in> set http_fields_map" "g \<in> set http_fields_map" "is_equal_caseless (snd f) (snd g)"
  shows "f = g"
proof -
  have "length (snd f) = length (snd g)" using assms(3) by (auto simp: is_equal_caseless_def split: if_splits)
  then have "f \<in> set (fields_of_size (length (snd g)))" "g \<in> set (fields_of_size (length (snd g)))"
    using assms by (simp_all add: fields_of_size_map)
  with fields_of_size_distinct [of "length (snd g)"] assms(3) show ?thesis
    by (simp add: distinct_map inj_on_def is_equal_caseless_iff)
qed

text \<open>Identifiers are the names in lower case, a keyword with an underscore at its end.\<close>

definition identifier_size :: "string \<Rightarrow> nat" where
  "identifier_size field_id = (if last field_id = CHR ''_'' then length field_id - 1 else length field_id)"

lemma identifier_sizes: "list_all (\<lambda>f. identifier_size (fst f) = length (snd f)) http_fields_map"
  by code_simp

lemma fields_of_size_identifiers: "distinct (map fst (fields_of_size n))"
  by (simp add: fields_of_size_def)

lemma identifier_unique:
  assumes "(field_id, name) \<in> set http_fields_map" "(field_id, name') \<in> set http_fields_map"
  shows "name = name'"
proof -
  have "identifier_size field_id = length name" "identifier_size field_id = length name'"
    using assms identifier_sizes unfolding list_all_iff by fastforce+
  then have "length name = length name'" by simp
  then have "(field_id, name) \<in> set (fields_of_size (length name))" "(field_id, name') \<in> set (fields_of_size (length name))"
    using assms by (simp_all add: fields_of_size_map)
  with fields_of_size_identifiers [of "length name"] show ?thesis by (simp add: eq_key_imp_eq_value)
qed

lemma field_to_string_known:
  assumes "(field_id, name) \<in> set http_fields_map"
  shows "field_to_string (http_field field_id) = name"
proof -
  obtain name' where m: "map_of http_fields_map field_id = Some name'"
    using assms by (cases "map_of http_fields_map field_id") (auto simp: map_of_eq_None_iff image_iff)
  then have "name' = name" using assms identifier_unique map_of_SomeD by metis
  with m show ?thesis by simp
qed

lemma find_field:
  "find (\<lambda>(_, name). is_equal_caseless_n s name (length s)) (fields_of_size (length s)) =
   find (\<lambda>(_, name). is_equal_caseless s name) (fields_of_size (length s))"
  by (rule find_cong) (auto simp: is_equal_caseless_def fields_of_size_map)

lemma string_to_field_known:
  assumes "(field_id, name) \<in> set http_fields_map" "is_equal_caseless s name"
  shows "string_to_field s = http_field field_id"
proof -
  have "length s = length name" using assms(2) by (auto simp: is_equal_caseless_def split: if_splits)
  then have mem: "(field_id, name) \<in> set (fields_of_size (length s))" using assms(1) by (simp add: fields_of_size_map)
  then have "find (\<lambda>(_, name). is_equal_caseless s name) (fields_of_size (length s)) \<noteq> None"
    using assms(2) unfolding find_None_iff by blast
  then obtain f where f: "find (\<lambda>(_, name). is_equal_caseless s name) (fields_of_size (length s)) = Some f"
    by blast
  then have "f \<in> set (fields_of_size (length s)) \<and> is_equal_caseless s (snd f)"
    unfolding find_Some_iff by (metis (mono_tags, lifting) case_prod_beta nth_mem)
  then have "f \<in> set http_fields_map" "is_equal_caseless s (snd f)" by (simp_all add: fields_of_size_map)
  then have "f = (field_id, name)"
    using assms fields_unique [of f "(field_id, name)"] is_equal_caseless_sym is_equal_caseless_trans
    unfolding snd_conv by metis
  with f show ?thesis unfolding string_to_field_def find_field by simp
qed

lemma string_to_field_unknown:
  assumes "\<And>field_id name. (field_id, name) \<in> set http_fields_map \<Longrightarrow> \<not> is_equal_caseless s name"
  shows "string_to_field s = field_unspecified"
proof -
  have "find (\<lambda>(_, name). is_equal_caseless s name) (fields_of_size (length s)) = None"
    using assms by (auto simp: find_None_iff fields_of_size_map)
  then show ?thesis unfolding string_to_field_def find_field by simp
qed

lemma string_to_field_cong: "is_equal_caseless a b \<Longrightarrow> string_to_field a = string_to_field b"
  using string_to_field_known string_to_field_unknown is_equal_caseless_sym is_equal_caseless_trans by metis

subsection \<open>Properties\<close>

text \<open>
  C37: recognising field names. The switch over the length of the name finds exactly the fields of the
  macro: a text is recognised as a field if and only if it is the name of that field up to the
  case of letters, it is unspecified if and only if it is the name of none, and the name of every
  field is recognised as that field.
\<close>

theorem string_to_field_correct:
  "(string_to_field s = http_field i) =
     (\<exists>name. (i, name) \<in> set http_fields_map \<and> is_equal_caseless s name) \<and>
   (string_to_field s = field_unspecified) =
     (\<not> (\<exists>j name. (j, name) \<in> set http_fields_map \<and> is_equal_caseless s name)) \<and>
   list_all (\<lambda>f. string_to_field (field_to_string (http_field (fst f))) = http_field (fst f)) http_fields_map"
proof (intro conjI)
  show "(string_to_field s = field_unspecified) =
      (\<not> (\<exists>j name. (j, name) \<in> set http_fields_map \<and> is_equal_caseless s name))"
    using string_to_field_known string_to_field_unknown by (metis http_field_t.distinct(1))
  show "(string_to_field s = http_field i) =
      (\<exists>name. (i, name) \<in> set http_fields_map \<and> is_equal_caseless s name)"
    using string_to_field_known string_to_field_unknown by (metis http_field_t.distinct(1) http_field_t.inject)
  show "list_all (\<lambda>f. string_to_field (field_to_string (http_field (fst f))) = http_field (fst f)) http_fields_map"
    unfolding list_all_iff
  proof
    fix f
    assume f: "f \<in> set http_fields_map"
    then have "field_to_string (http_field (fst f)) = snd f" by (intro field_to_string_known) simp
    with f string_to_field_known [of "fst f" "snd f" "snd f"]
    show "string_to_field (field_to_string (http_field (fst f))) = http_field (fst f)" by simp
  qed
qed

end
