(* ===== verification/Http_Headers.thy ===== *)
theory Http_Headers
  imports Field_Names
begin

text \<open>
  HTTP message headers: \<^verbatim>\<open>restinio/http_headers.hpp\<close>, from the single field to the request and
  response headers.

  A container of fields is a list in the order of insertion; an iterator is an index into it, the
  end iterator its length. Overloads on a name and on a field id are separate definitions with the
  suffixes \<open>_name\<close> and \<open>_id\<close>. The headers are records that extend each other as the classes derive
  from each other.

  The abstract view of a container is a multimap from names, up to the case of letters, to the
  list of values in order; the operations implement the operations of the multimap. The fields of
  a container keep their id consistent with their name, so looking up by id and by name agree.
\<close>

subsection \<open>A single field\<close>

record http_header_field_t =
  m_name :: string
  m_value :: string
  m_field_id :: http_field_t

definition http_header_field_default :: http_header_field_t where
  "http_header_field_default = \<lparr>m_name = [], m_value = [], m_field_id = field_unspecified\<rparr>"

definition http_header_field_name :: "string \<Rightarrow> string \<Rightarrow> http_header_field_t" where
  "http_header_field_name name value = \<lparr>m_name = name, m_value = value, m_field_id = string_to_field name\<rparr>"

definition http_header_field_id :: "http_field_t \<Rightarrow> string \<Rightarrow> http_header_field_t" where
  "http_header_field_id field_id value = \<lparr>m_name = field_to_string field_id, m_value = value, m_field_id = field_id\<rparr>"

definition field_set_name :: "string \<Rightarrow> http_header_field_t \<Rightarrow> http_header_field_t" where
  "field_set_name n f = f\<lparr>m_name := n, m_field_id := string_to_field n\<rparr>"

definition field_set_value :: "string \<Rightarrow> http_header_field_t \<Rightarrow> http_header_field_t" where
  "field_set_value v f = f\<lparr>m_value := v\<rparr>"

definition append_value :: "string \<Rightarrow> http_header_field_t \<Rightarrow> http_header_field_t" where
  "append_value v f = f\<lparr>m_value := m_value f @ v\<rparr>"

definition field_set_id :: "http_field_t \<Rightarrow> http_header_field_t \<Rightarrow> http_header_field_t" where
  "field_set_id field_id f = f\<lparr>m_field_id := field_id, m_name := field_to_string field_id\<rparr>"

subsection \<open>Header fields\<close>

type_synonym http_header_fields_t = "http_header_field_t list"

datatype header_error =
    Field_doesnt_exist string
  | Unspecified_fields_cannot_be_searched

fun find_if :: "('a \<Rightarrow> bool) \<Rightarrow> 'a list \<Rightarrow> nat" where
  "find_if p [] = 0"
| "find_if p (x # xs) = (if p x then 0 else Suc (find_if p xs))"

definition find_name :: "http_header_fields_t \<Rightarrow> string \<Rightarrow> nat" where
  "find_name m_fields field_name = find_if (\<lambda>f. is_equal_caseless (m_name f) field_name) m_fields"

definition find_id :: "http_header_fields_t \<Rightarrow> http_field_t \<Rightarrow> nat" where
  "find_id m_fields field_id = find_if (\<lambda>f. m_field_id f = field_id) m_fields"

definition erase_at :: "nat \<Rightarrow> 'a list \<Rightarrow> 'a list" where
  "erase_at it xs = take it xs @ drop (Suc it) xs"

definition has_field_name :: "string \<Rightarrow> http_header_fields_t \<Rightarrow> bool" where
  "has_field_name field_name m_fields \<longleftrightarrow> length m_fields \<noteq> find_name m_fields field_name"

definition has_field_id :: "http_field_t \<Rightarrow> http_header_fields_t \<Rightarrow> bool" where
  "has_field_id field_id m_fields \<longleftrightarrow> length m_fields \<noteq> find_id m_fields field_id"

definition set_field :: "http_header_field_t \<Rightarrow> http_header_fields_t \<Rightarrow> http_header_fields_t" where
  "set_field http_header_field m_fields =
     (let it = (if field_unspecified \<noteq> m_field_id http_header_field
                then find_id m_fields (m_field_id http_header_field)
                else find_name m_fields (m_name http_header_field))
      in if length m_fields \<noteq> it then m_fields[it := http_header_field]
         else m_fields @ [http_header_field])"

definition set_field_name :: "string \<Rightarrow> string \<Rightarrow> http_header_fields_t \<Rightarrow> http_header_fields_t" where
  "set_field_name field_name field_value m_fields =
     (let it = find_name m_fields field_name
      in if length m_fields \<noteq> it
         then m_fields[it := field_set_value field_value (field_set_name field_name (m_fields ! it))]
         else m_fields @ [http_header_field_name field_name field_value])"

definition set_field_id :: "http_field_t \<Rightarrow> string \<Rightarrow> http_header_fields_t \<Rightarrow> http_header_fields_t" where
  "set_field_id field_id field_value m_fields =
     (if field_unspecified \<noteq> field_id then
        (let it = find_id m_fields field_id
         in if length m_fields \<noteq> it then m_fields[it := field_set_value field_value (m_fields ! it)]
            else m_fields @ [http_header_field_id field_id field_value])
      else m_fields)"

definition add_field_id :: "http_field_t \<Rightarrow> string \<Rightarrow> http_header_fields_t \<Rightarrow> http_header_fields_t" where
  "add_field_id field_id field_value m_fields =
     (if field_unspecified \<noteq> field_id then m_fields @ [http_header_field_id field_id field_value] else m_fields)"

definition add_field_name :: "string \<Rightarrow> string \<Rightarrow> http_header_fields_t \<Rightarrow> http_header_fields_t" where
  "add_field_name field_name field_value m_fields = m_fields @ [http_header_field_name field_name field_value]"

definition add_field :: "http_header_field_t \<Rightarrow> http_header_fields_t \<Rightarrow> http_header_fields_t" where
  "add_field http_header_field m_fields = m_fields @ [http_header_field]"

definition append_field_name :: "string \<Rightarrow> string \<Rightarrow> http_header_fields_t \<Rightarrow> http_header_fields_t" where
  "append_field_name field_name field_value m_fields =
     (let it = find_name m_fields field_name
      in if length m_fields \<noteq> it then m_fields[it := append_value field_value (m_fields ! it)]
         else m_fields @ [http_header_field_name field_name field_value])"

definition append_field_id :: "http_field_t \<Rightarrow> string \<Rightarrow> http_header_fields_t \<Rightarrow> http_header_fields_t" where
  "append_field_id field_id field_value m_fields =
     (if field_unspecified \<noteq> field_id then
        (let it = find_id m_fields field_id
         in if length m_fields \<noteq> it then m_fields[it := append_value field_value (m_fields ! it)]
            else m_fields @ [http_header_field_id field_id field_value])
      else m_fields)"

definition get_field_name :: "string \<Rightarrow> http_header_fields_t \<Rightarrow> header_error + string" where
  "get_field_name field_name m_fields =
     (let it = find_name m_fields field_name
      in if length m_fields = it then Inl (Field_doesnt_exist field_name) else Inr (m_value (m_fields ! it)))"

definition try_get_field_name :: "string \<Rightarrow> http_header_fields_t \<Rightarrow> string option" where
  "try_get_field_name field_name m_fields =
     (let it = find_name m_fields field_name
      in if length m_fields = it then None else Some (m_value (m_fields ! it)))"

definition get_field_id :: "http_field_t \<Rightarrow> http_header_fields_t \<Rightarrow> header_error + string" where
  "get_field_id field_id m_fields =
     (if field_unspecified = field_id then Inl Unspecified_fields_cannot_be_searched
      else let it = find_id m_fields field_id
           in if length m_fields = it then Inl (Field_doesnt_exist (field_to_string field_id))
              else Inr (m_value (m_fields ! it)))"

definition try_get_field_id :: "http_field_t \<Rightarrow> http_header_fields_t \<Rightarrow> string option" where
  "try_get_field_id field_id m_fields =
     (if field_unspecified \<noteq> field_id then
        (let it = find_id m_fields field_id
         in if length m_fields \<noteq> it then Some (m_value (m_fields ! it)) else None)
      else None)"

definition get_field_or_name :: "string \<Rightarrow> string \<Rightarrow> http_header_fields_t \<Rightarrow> string" where
  "get_field_or_name field_name default_value m_fields =
     (let it = find_name m_fields field_name
      in if length m_fields = it then default_value else m_value (m_fields ! it))"

definition get_field_or_id :: "http_field_t \<Rightarrow> string \<Rightarrow> http_header_fields_t \<Rightarrow> string" where
  "get_field_or_id field_id default_value m_fields =
     (if field_unspecified \<noteq> field_id then
        (let it = find_id m_fields field_id
         in if length m_fields \<noteq> it then m_value (m_fields ! it) else default_value)
      else default_value)"

definition remove_field_name :: "string \<Rightarrow> http_header_fields_t \<Rightarrow> bool \<times> http_header_fields_t" where
  "remove_field_name field_name m_fields =
     (let it = find_name m_fields field_name
      in if length m_fields \<noteq> it then (True, erase_at it m_fields) else (False, m_fields))"

definition remove_field_id :: "http_field_t \<Rightarrow> http_header_fields_t \<Rightarrow> bool \<times> http_header_fields_t" where
  "remove_field_id field_id m_fields =
     (if field_unspecified \<noteq> field_id then
        (let it = find_id m_fields field_id
         in if length m_fields \<noteq> it then (True, erase_at it m_fields) else (False, m_fields))
      else (False, m_fields))"

text \<open>The loop of \<^verbatim>\<open>remove_all_of\<close>: erasing moves the following fields to the iterator.\<close>

function remove_loop :: "('a \<Rightarrow> bool) \<Rightarrow> nat \<Rightarrow> nat \<Rightarrow> 'a list \<Rightarrow> nat \<times> 'a list" where
  "remove_loop p it count m_fields =
     (if it < length m_fields then
        if p (m_fields ! it) then remove_loop p it (count + 1) (erase_at it m_fields)
        else remove_loop p (it + 1) count m_fields
      else (count, m_fields))"
  by auto
termination
  by (relation "measure (\<lambda>(_, it, _, m_fields). length m_fields - it)") (auto simp: erase_at_def)

declare remove_loop.simps [simp del]

definition remove_all_of_name :: "string \<Rightarrow> http_header_fields_t \<Rightarrow> nat \<times> http_header_fields_t" where
  "remove_all_of_name field_name m_fields = remove_loop (\<lambda>f. is_equal_caseless (m_name f) field_name) 0 0 m_fields"

definition remove_all_of_id :: "http_field_t \<Rightarrow> http_header_fields_t \<Rightarrow> nat \<times> http_header_fields_t" where
  "remove_all_of_id field_id m_fields =
     (if field_unspecified \<noteq> field_id then remove_loop (\<lambda>f. m_field_id f = field_id) 0 0 m_fields
      else (0, m_fields))"

definition value_of_name :: "string \<Rightarrow> http_header_fields_t \<Rightarrow> header_error + string" where
  "value_of_name name m_fields = get_field_name name m_fields"

definition value_of_id :: "http_field_t \<Rightarrow> http_header_fields_t \<Rightarrow> header_error + string" where
  "value_of_id field_id m_fields = get_field_id field_id m_fields"

definition opt_value_of_name :: "string \<Rightarrow> http_header_fields_t \<Rightarrow> string option" where
  "opt_value_of_name name m_fields =
     (case try_get_field_name name m_fields of Some v \<Rightarrow> Some v | None \<Rightarrow> None)"

definition opt_value_of_id :: "http_field_t \<Rightarrow> http_header_fields_t \<Rightarrow> string option" where
  "opt_value_of_id field_id m_fields =
     (case try_get_field_id field_id m_fields of Some v \<Rightarrow> Some v | None \<Rightarrow> None)"

text \<open>The lambdas of the enumerations act on a state of their own.\<close>

definition for_each_field :: "(http_header_field_t \<Rightarrow> 's \<Rightarrow> 's) \<Rightarrow> http_header_fields_t \<Rightarrow> 's \<Rightarrow> 's" where
  "for_each_field lambda m_fields s = fold lambda m_fields s"

datatype handling_result_t = continue_enumeration | stop_enumeration

fun for_each_value_of_name ::
    "string \<Rightarrow> (string \<Rightarrow> 's \<Rightarrow> handling_result_t \<times> 's) \<Rightarrow> http_header_fields_t \<Rightarrow> 's \<Rightarrow> 's" where
  "for_each_value_of_name field_name lambda [] s = s"
| "for_each_value_of_name field_name lambda (f # fs) s =
     (if is_equal_caseless (m_name f) field_name then
        (let (r, s) = lambda (m_value f) s
         in if stop_enumeration = r then s else for_each_value_of_name field_name lambda fs s)
      else for_each_value_of_name field_name lambda fs s)"

fun for_each_value_of_id ::
    "http_field_t \<Rightarrow> (string \<Rightarrow> 's \<Rightarrow> handling_result_t \<times> 's) \<Rightarrow> http_header_fields_t \<Rightarrow> 's \<Rightarrow> 's" where
  "for_each_value_of_id field_id lambda [] s = s"
| "for_each_value_of_id field_id lambda (f # fs) s =
     (if field_id = m_field_id f then
        (let (r, s) = lambda (m_value f) s
         in if stop_enumeration = r then s else for_each_value_of_id field_id lambda fs s)
      else for_each_value_of_id field_id lambda fs s)"

definition fields_count :: "http_header_fields_t \<Rightarrow> nat" where
  "fields_count m_fields = length m_fields"

definition swap_fields :: "http_header_fields_t \<Rightarrow> http_header_fields_t \<Rightarrow> http_header_fields_t \<times> http_header_fields_t" where
  "swap_fields m_fields http_header_fields = (http_header_fields, m_fields)"

text \<open>Appending to the last field of an empty container is undefined behaviour: no result.\<close>

definition append_last_field :: "string \<Rightarrow> http_header_fields_t \<Rightarrow> http_header_fields_t option" where
  "append_last_field field_value m_fields =
     (if m_fields = [] then None else Some (butlast m_fields @ [append_value field_value (last m_fields)]))"

subsection \<open>Common part of the headers\<close>

datatype http_connection_header_t = Keep_alive | Close | Upgrade

record http_header_common_t =
  m_fields :: http_header_fields_t
  m_http_major :: u16
  m_http_minor :: u16
  m_content_length :: u64
  m_http_connection_header_field_value :: http_connection_header_t

definition http_header_common_default :: http_header_common_t where
  "http_header_common_default =
     \<lparr>m_fields = [], m_http_major = 1, m_http_minor = 1, m_content_length = 0,
      m_http_connection_header_field_value = Close\<rparr>"

definition set_http_major :: "u16 \<Rightarrow> 'a http_header_common_t_scheme \<Rightarrow> 'a http_header_common_t_scheme" where
  "set_http_major v h = h\<lparr>m_http_major := v\<rparr>"

definition set_http_minor :: "u16 \<Rightarrow> 'a http_header_common_t_scheme \<Rightarrow> 'a http_header_common_t_scheme" where
  "set_http_minor v h = h\<lparr>m_http_minor := v\<rparr>"

definition set_content_length :: "u64 \<Rightarrow> 'a http_header_common_t_scheme \<Rightarrow> 'a http_header_common_t_scheme" where
  "set_content_length l h = h\<lparr>m_content_length := l\<rparr>"

definition should_keep_alive :: "'a http_header_common_t_scheme \<Rightarrow> bool" where
  "should_keep_alive h \<longleftrightarrow> Keep_alive = m_http_connection_header_field_value h"

definition set_connection ::
    "http_connection_header_t \<Rightarrow> 'a http_header_common_t_scheme \<Rightarrow> 'a http_header_common_t_scheme" where
  "set_connection ch h = h\<lparr>m_http_connection_header_field_value := ch\<rparr>"

definition set_should_keep_alive :: "bool \<Rightarrow> 'a http_header_common_t_scheme \<Rightarrow> 'a http_header_common_t_scheme" where
  "set_should_keep_alive ka h = set_connection (if ka then Keep_alive else Close) h"

subsection \<open>Methods\<close>

text \<open>
  The numbers of the methods are enumerators of the HTTP parser the library is built on; they are
  the argument \<open>nodejs_code\<close> below.
\<close>

record http_method_id_t =
  method_value :: int
  method_name :: string

definition http_method_map :: "(string \<times> string \<times> string) list" where
  "http_method_map =
     [(''http_method_delete'', ''HTTP_DELETE'', ''DELETE''), (''http_method_get'', ''HTTP_GET'', ''GET''),
      (''http_method_head'', ''HTTP_HEAD'', ''HEAD''), (''http_method_post'', ''HTTP_POST'', ''POST''),
      (''http_method_put'', ''HTTP_PUT'', ''PUT''), (''http_method_connect'', ''HTTP_CONNECT'', ''CONNECT''),
      (''http_method_options'', ''HTTP_OPTIONS'', ''OPTIONS''), (''http_method_trace'', ''HTTP_TRACE'', ''TRACE''),
      (''http_method_copy'', ''HTTP_COPY'', ''COPY''), (''http_method_lock'', ''HTTP_LOCK'', ''LOCK''),
      (''http_method_mkcol'', ''HTTP_MKCOL'', ''MKCOL''), (''http_method_move'', ''HTTP_MOVE'', ''MOVE''),
      (''http_method_propfind'', ''HTTP_PROPFIND'', ''PROPFIND''),
      (''http_method_proppatch'', ''HTTP_PROPPATCH'', ''PROPPATCH''),
      (''http_method_search'', ''HTTP_SEARCH'', ''SEARCH''), (''http_method_unlock'', ''HTTP_UNLOCK'', ''UNLOCK''),
      (''http_method_bind'', ''HTTP_BIND'', ''BIND''), (''http_method_rebind'', ''HTTP_REBIND'', ''REBIND''),
      (''http_method_unbind'', ''HTTP_UNBIND'', ''UNBIND''), (''http_method_acl'', ''HTTP_ACL'', ''ACL''),
      (''http_method_report'', ''HTTP_REPORT'', ''REPORT''),
      (''http_method_mkactivity'', ''HTTP_MKACTIVITY'', ''MKACTIVITY''),
      (''http_method_checkout'', ''HTTP_CHECKOUT'', ''CHECKOUT''),
      (''http_method_merge'', ''HTTP_MERGE'', ''MERGE''),
      (''http_method_msearch'', ''HTTP_MSEARCH'', ''M-SEARCH''),
      (''http_method_notify'', ''HTTP_NOTIFY'', ''NOTIFY''),
      (''http_method_subscribe'', ''HTTP_SUBSCRIBE'', ''SUBSCRIBE''),
      (''http_method_unsubscribe'', ''HTTP_UNSUBSCRIBE'', ''UNSUBSCRIBE''),
      (''http_method_patch'', ''HTTP_PATCH'', ''PATCH''), (''http_method_purge'', ''HTTP_PURGE'', ''PURGE''),
      (''http_method_mkcalendar'', ''HTTP_MKCALENDAR'', ''MKCALENDAR''),
      (''http_method_link'', ''HTTP_LINK'', ''LINK''), (''http_method_unlink'', ''HTTP_UNLINK'', ''UNLINK'')]"

definition unknown_method :: int where
  "unknown_method = - 1"

definition http_method_unknown :: http_method_id_t where
  "http_method_unknown = \<lparr>method_value = unknown_method, method_name = ''<undefined>''\<rparr>"

definition http_method :: "(string \<Rightarrow> int) \<Rightarrow> string \<Rightarrow> http_method_id_t" where
  "http_method nodejs_code func_name =
     (case map_of http_method_map func_name of
        Some (code, name) \<Rightarrow> \<lparr>method_value = nodejs_code code, method_name = name\<rparr>
      | None \<Rightarrow> http_method_unknown)"

definition method_eq :: "http_method_id_t \<Rightarrow> http_method_id_t \<Rightarrow> bool" where
  "method_eq a b \<longleftrightarrow> method_value a = method_value b"

definition method_ne :: "http_method_id_t \<Rightarrow> http_method_id_t \<Rightarrow> bool" where
  "method_ne a b \<longleftrightarrow> method_value a \<noteq> method_value b"

definition method_less :: "http_method_id_t \<Rightarrow> http_method_id_t \<Rightarrow> bool" where
  "method_less a b \<longleftrightarrow> method_value a < method_value b"

definition from_nodejs :: "(string \<Rightarrow> int) \<Rightarrow> int \<Rightarrow> http_method_id_t" where
  "from_nodejs nodejs_code value =
     (case find (\<lambda>(_, code, _). nodejs_code code = value) http_method_map of
        Some (func_name, _) \<Rightarrow> http_method nodejs_code func_name
      | None \<Rightarrow> http_method_unknown)"

subsection \<open>Request header\<close>

record http_request_header_t = http_header_common_t +
  m_method :: http_method_id_t
  m_request_target :: string
  m_query_separator_pos :: nat
  m_fragment_separator_pos :: nat

definition http_request_header_default :: "(string \<Rightarrow> int) \<Rightarrow> http_request_header_t" where
  "http_request_header_default nodejs_code =
     http_header_common_t.extend http_header_common_default
       (http_request_header_t.fields (http_method nodejs_code ''http_method_get'') [] 0 0)"

text \<open>\<^verbatim>\<open>memchr\<close> on the first \<open>n\<close> characters: the position found, or \<open>n\<close>.\<close>

definition memchr_helper :: "char \<Rightarrow> string \<Rightarrow> nat \<Rightarrow> nat" where
  "memchr_helper chr from n = find_if (\<lambda>c. c = chr) (take n from)"

definition request_target :: "string \<Rightarrow> http_request_header_t \<Rightarrow> http_request_header_t" where
  "request_target t h =
     (let h = h\<lparr>m_request_target := t\<rparr>;
          h = h\<lparr>m_fragment_separator_pos := memchr_helper CHR ''#'' (m_request_target h) (length (m_request_target h))\<rparr>
      in h\<lparr>m_query_separator_pos := memchr_helper CHR ''?'' (m_request_target h) (m_fragment_separator_pos h)\<rparr>)"

definition http_request_header :: "(string \<Rightarrow> int) \<Rightarrow> http_method_id_t \<Rightarrow> string \<Rightarrow> http_request_header_t" where
  "http_request_header nodejs_code meth target =
     request_target target ((http_request_header_default nodejs_code)\<lparr>m_method := meth\<rparr>)"

definition path :: "http_request_header_t \<Rightarrow> string" where
  "path h = take (m_query_separator_pos h) (m_request_target h)"

definition query :: "http_request_header_t \<Rightarrow> string" where
  "query h =
     (if m_fragment_separator_pos h = m_query_separator_pos h then []
      else take (m_fragment_separator_pos h - m_query_separator_pos h - 1)
             (drop (m_query_separator_pos h + 1) (m_request_target h)))"

definition fragment :: "http_request_header_t \<Rightarrow> string" where
  "fragment h =
     (if length (m_request_target h) = m_fragment_separator_pos h then []
      else take (length (m_request_target h) - m_fragment_separator_pos h - 1)
             (drop (m_fragment_separator_pos h + 1) (m_request_target h)))"

definition append_request_target :: "string \<Rightarrow> http_request_header_t \<Rightarrow> http_request_header_t" where
  "append_request_target at h =
     (let h =
        (if length (m_request_target h) = m_fragment_separator_pos h then
           (let fragment_separator_pos_inc = memchr_helper CHR ''#'' at (length at);
                h = h\<lparr>m_fragment_separator_pos := m_fragment_separator_pos h + fragment_separator_pos_inc\<rparr>
            in if length (m_request_target h) = m_query_separator_pos h
               then h\<lparr>m_query_separator_pos := m_query_separator_pos h +
                        memchr_helper CHR ''?'' at fragment_separator_pos_inc\<rparr>
               else h)
         else h)
      in h\<lparr>m_request_target := m_request_target h @ at\<rparr>)"

subsection \<open>Status codes, status lines and the response header\<close>

type_synonym http_status_code_t = u16

text \<open>The three comparisons of status codes, with the operands as they are written.\<close>

definition status_code_eq :: "http_status_code_t \<Rightarrow> http_status_code_t \<Rightarrow> bool" where
  "status_code_eq this sc \<longleftrightarrow> this = sc"

definition status_code_ne :: "http_status_code_t \<Rightarrow> http_status_code_t \<Rightarrow> bool" where
  "status_code_ne this sc \<longleftrightarrow> sc \<noteq> sc"

definition status_code_less :: "http_status_code_t \<Rightarrow> http_status_code_t \<Rightarrow> bool" where
  "status_code_less this sc \<longleftrightarrow> sc < sc"

definition status_codes :: "(string \<times> http_status_code_t) list" where
  "status_codes =
     [(''continue_'', 100), (''switching_protocols'', 101), (''ok'', 200), (''created'', 201), (''accepted'', 202),
      (''non_authoritative_information'', 203), (''no_content'', 204), (''reset_content'', 205),
      (''partial_content'', 206), (''multiple_choices'', 300), (''moved_permanently'', 301), (''found'', 302),
      (''see_other'', 303), (''not_modified'', 304), (''use_proxy'', 305), (''temporary_redirect'', 307),
      (''bad_request'', 400), (''unauthorized'', 401), (''payment_required'', 402), (''forbidden'', 403),
      (''not_found'', 404), (''method_not_allowed'', 405), (''not_acceptable'', 406),
      (''proxy_authentication_required'', 407), (''request_time_out'', 408), (''conflict'', 409), (''gone'', 410),
      (''length_required'', 411), (''precondition_failed'', 412), (''payload_too_large'', 413),
      (''uri_too_long'', 414), (''unsupported_media_type'', 415), (''requested_range_not_satisfiable'', 416),
      (''expectation_failed'', 417), (''internal_server_error'', 500), (''not_implemented'', 501),
      (''bad_gateway'', 502), (''service_unavailable'', 503), (''gateway_time_out'', 504),
      (''http_version_not_supported'', 505), (''permanent_redirect'', 308), (''processing'', 102),
      (''multi_status'', 207), (''unprocessable_entity'', 422), (''locked'', 423), (''failed_dependency'', 424),
      (''insufficient_storage'', 507), (''precondition_required'', 428), (''too_many_requests'', 429),
      (''request_header_fields_too_large'', 431), (''network_authentication_required'', 511)]"

record http_status_line_t =
  m_status_code :: http_status_code_t
  m_reason_phrase :: string

definition status_code :: "string \<Rightarrow> http_status_code_t" where
  "status_code name = (case map_of status_codes name of Some c \<Rightarrow> c | None \<Rightarrow> 0)"

definition http_status_line_default :: http_status_line_t where
  "http_status_line_default = \<lparr>m_status_code = status_code ''ok'', m_reason_phrase = []\<rparr>"

text \<open>The functions \<^verbatim>\<open>status_ok()\<close> and so on, by name: their status code constant and reason phrase.\<close>

definition statuses :: "(string \<times> string \<times> string) list" where
  "statuses =
     [(''status_continue'', ''continue_'', ''Continue''),
      (''status_switching_protocols'', ''switching_protocols'', ''Switching Protocols''),
      (''status_ok'', ''ok'', ''OK''), (''status_created'', ''created'', ''Created''),
      (''status_accepted'', ''accepted'', ''Accepted''),
      (''status_non_authoritative_information'', ''non_authoritative_information'', ''Non-Authoritative Information''),
      (''status_no_content'', ''no_content'', ''No Content''),
      (''status_reset_content'', ''reset_content'', ''Reset Content''),
      (''status_partial_content'', ''partial_content'', ''Partial Content''),
      (''status_multiple_choices'', ''multiple_choices'', ''Multiple Choices''),
      (''status_moved_permanently'', ''moved_permanently'', ''Moved Permanently''),
      (''status_found'', ''found'', ''Found''), (''status_see_other'', ''see_other'', ''See Other''),
      (''status_not_modified'', ''not_modified'', ''Not Modified''),
      (''status_use_proxy'', ''use_proxy'', ''Use Proxy''),
      (''status_temporary_redirect'', ''temporary_redirect'', ''Temporary Redirect''),
      (''status_bad_request'', ''bad_request'', ''Bad Request''),
      (''status_unauthorized'', ''unauthorized'', ''Unauthorized''),
      (''status_payment_required'', ''payment_required'', ''Payment Required''),
      (''status_forbidden'', ''forbidden'', ''Forbidden''), (''status_not_found'', ''not_found'', ''Not Found''),
      (''status_method_not_allowed'', ''method_not_allowed'', ''Method Not Allowed''),
      (''status_not_acceptable'', ''not_acceptable'', ''Not Acceptable''),
      (''status_proxy_authentication_required'', ''proxy_authentication_required'', ''Proxy Authentication Required''),
      (''status_request_time_out'', ''request_time_out'', ''Request Timeout''),
      (''status_conflict'', ''conflict'', ''Conflict''), (''status_gone'', ''gone'', ''Gone''),
      (''status_length_required'', ''length_required'', ''Length Required''),
      (''status_precondition_failed'', ''precondition_failed'', ''Precondition Failed''),
      (''status_payload_too_large'', ''payload_too_large'', ''Payload Too Large''),
      (''status_uri_too_long'', ''uri_too_long'', ''URI Too Long''),
      (''status_unsupported_media_type'', ''unsupported_media_type'', ''Unsupported Media Type''),
      (''status_requested_range_not_satisfiable'', ''requested_range_not_satisfiable'', ''Requested Range Not Satisfiable''),
      (''status_expectation_failed'', ''expectation_failed'', ''Expectation Failed''),
      (''status_internal_server_error'', ''internal_server_error'', ''Internal Server Error''),
      (''status_not_implemented'', ''not_implemented'', ''Not Implemented''),
      (''status_bad_gateway'', ''bad_gateway'', ''Bad Gateway''),
      (''status_service_unavailable'', ''service_unavailable'', ''Service Unavailable''),
      (''status_gateway_time_out'', ''gateway_time_out'', ''Gateway Timeout''),
      (''status_http_version_not_supported'', ''http_version_not_supported'', ''HTTP Version not supported''),
      (''status_permanent_redirect'', ''permanent_redirect'', ''Permanent Redirect''),
      (''status_processing'', ''processing'', ''Processing''),
      (''status_multi_status'', ''multi_status'', ''Multi-Status''),
      (''status_unprocessable_entity'', ''unprocessable_entity'', ''Unprocessable Entity''),
      (''status_locked'', ''locked'', ''Locked''),
      (''status_failed_dependency'', ''failed_dependency'', ''Failed Dependency''),
      (''status_insufficient_storage'', ''insufficient_storage'', ''Insufficient Storage''),
      (''status_precondition_required'', ''precondition_required'', ''Precondition Required''),
      (''status_too_many_requests'', ''too_many_requests'', ''Too Many Requests''),
      (''status_request_header_fields_too_large'', ''request_header_fields_too_large'', ''Request Header Fields Too Large''),
      (''status_network_authentication_required'', ''network_authentication_required'', ''Network Authentication Required'')]"

definition status :: "string \<Rightarrow> http_status_line_t" where
  "status func_name =
     (case map_of statuses func_name of
        Some (code, phrase) \<Rightarrow> \<lparr>m_status_code = status_code code, m_reason_phrase = phrase\<rparr>
      | None \<Rightarrow> http_status_line_default)"

record http_response_header_t = http_header_common_t +
  m_status_line :: http_status_line_t

definition http_response_header :: "http_status_line_t \<Rightarrow> http_response_header_t" where
  "http_response_header status_line =
     http_header_common_t.extend http_header_common_default (http_response_header_t.fields status_line)"

definition set_status_code :: "http_status_code_t \<Rightarrow> http_response_header_t \<Rightarrow> http_response_header_t" where
  "set_status_code c h = h\<lparr>m_status_line := (m_status_line h)\<lparr>m_status_code := c\<rparr>\<rparr>"

definition set_reason_phrase :: "string \<Rightarrow> http_response_header_t \<Rightarrow> http_response_header_t" where
  "set_reason_phrase r h = h\<lparr>m_status_line := (m_status_line h)\<lparr>m_reason_phrase := r\<rparr>\<rparr>"

definition set_status_line :: "http_status_line_t \<Rightarrow> http_response_header_t \<Rightarrow> http_response_header_t" where
  "set_status_line sl h = h\<lparr>m_status_line := sl\<rparr>"

subsection \<open>Searching\<close>

lemma find_if_cases:
  obtains (none) "\<forall>x\<in>set xs. \<not> p x" "find_if p xs = length xs"
  | (some) as x bs where "xs = as @ x # bs" "p x" "\<forall>y\<in>set as. \<not> p y" "find_if p xs = length as"
proof (cases "\<exists>x\<in>set xs. p x")
  case True
  then obtain as x bs where split: "xs = as @ x # bs" "p x" "\<forall>y\<in>set as. \<not> p y"
    using split_list_first_prop by metis
  have "find_if p (as @ x # bs) = length as" using split(2,3) by (induction as) auto
  with split that(2) show thesis by blast
next
  case False
  then have "find_if p xs = length xs" by (induction xs) auto
  with False that(1) show thesis by blast
qed

lemma find_if_append:
  "find_if p (xs @ ys) = (if find_if p xs = length xs then length xs + find_if p ys else find_if p xs)"
  by (induction xs) auto

lemma find_if_le: "find_if p xs \<le> length xs"
  by (cases rule: find_if_cases [of xs p]) auto

lemma erase_at_append [simp]: "erase_at (length as) (as @ x # bs) = as @ bs"
  by (simp add: erase_at_def)

lemma remove_loop_filter:
  assumes "it \<le> length xs"
  shows "remove_loop p it count xs =
    (count + length (filter p (drop it xs)), take it xs @ filter (\<lambda>x. \<not> p x) (drop it xs))"
  using assms
proof (induction p it count xs rule: remove_loop.induct)
  case (1 p it count xs)
  show ?case
  proof (cases "it < length xs")
    case True
    then have drop: "drop it xs = xs ! it # drop (Suc it) xs" by (simp add: Cons_nth_drop_Suc)
    show ?thesis
    proof (cases "p (xs ! it)")
      case True
      then show ?thesis
        using 1 \<open>it < length xs\<close> drop by (subst remove_loop.simps) (simp add: erase_at_def)
    next
      case False
      then show ?thesis
        using 1 \<open>it < length xs\<close> drop by (subst remove_loop.simps) (simp add: take_Suc_conv_app_nth)
    qed
  qed (use 1 in \<open>simp add: remove_loop.simps\<close>)
qed

subsection \<open>Containers as multimaps\<close>

definition field_values :: "(http_header_field_t \<Rightarrow> bool) \<Rightarrow> http_header_fields_t \<Rightarrow> string list" where
  "field_values p fs = map m_value (filter p fs)"

abbreviation named :: "string \<Rightarrow> http_header_field_t \<Rightarrow> bool" where
  "named n f \<equiv> is_equal_caseless (m_name f) n"

abbreviation has_id :: "string \<Rightarrow> http_header_field_t \<Rightarrow> bool" where
  "has_id i f \<equiv> m_field_id f = http_field i"

lemma field_values_simps [simp]:
  "field_values p [] = []"
  "field_values p (f # fs) = (if p f then m_value f # field_values p fs else field_values p fs)"
  "field_values p (fs @ gs) = field_values p fs @ field_values p gs"
  by (simp_all add: field_values_def)

lemma field_values_none: "\<forall>f\<in>set fs. \<not> p f \<Longrightarrow> field_values p fs = []"
  by (induction fs) auto

lemma field_values_filter: "field_values p (filter q fs) = field_values (\<lambda>f. q f \<and> p f) fs"
  by (induction fs) auto

text \<open>
  A way to select fields by a key: the fields two keys select are the same, or have nothing in
  common.
\<close>

locale field_keys =
  fixes matches :: "'k \<Rightarrow> http_header_field_t \<Rightarrow> bool" and same :: "'k \<Rightarrow> 'k \<Rightarrow> bool"
  assumes same_iff: "matches k f \<Longrightarrow> matches k' f \<longleftrightarrow> same k k'"
    and same_refl: "same k k"
    and same_matches: "same k k' \<Longrightarrow> matches k f \<longleftrightarrow> matches k' f"
begin

abbreviation "vals k \<equiv> field_values (matches k)"

lemma vals_same: "same k k' \<Longrightarrow> vals k' fs = vals k fs"
  using same_matches [of k k'] by (simp add: field_values_def cong: filter_cong)

text \<open>Replacing the first field with a key by a field with that key.\<close>

lemma vals_update:
  assumes "find_if (matches k) fs \<noteq> length fs" "matches k g"
  shows "vals k' (fs[find_if (matches k) fs := g]) =
    (if same k k' then m_value g # tl (vals k fs) else vals k' fs)"
proof (cases rule: find_if_cases [of fs "matches k"])
  case (some as x bs)
  show ?thesis
  proof (cases "same k k'")
    case True
    then have "vals k' as = []" using some(3) same_matches [OF True] by (auto intro: field_values_none)
    with some True assms(2) show ?thesis
      using same_matches [OF True] vals_same [OF True] by (simp add: field_values_none)
  next
    case False
    then have "\<not> matches k' x" "\<not> matches k' g" using same_iff [of k] some(2) assms(2) by blast+
    with some False show ?thesis by simp
  qed
qed (use assms in simp)

lemma vals_snoc:
  assumes "matches k g"
  shows "vals k' (fs @ [g]) = (if same k k' then vals k fs @ [m_value g] else vals k' fs)"
  using assms same_iff [OF assms, of k'] vals_same [of k k' fs] by (cases "same k k'") simp_all

lemma vals_first:
  "if find_if (matches k) fs = length fs then vals k fs = []
   else \<exists>vs. vals k fs = m_value (fs ! find_if (matches k) fs) # vs \<and> matches k (fs ! find_if (matches k) fs)"
  by (cases rule: find_if_cases [of fs "matches k"]) (auto simp: field_values_none nth_append)

lemma vals_erase:
  assumes "find_if (matches k) fs \<noteq> length fs"
  shows "vals k' (erase_at (find_if (matches k) fs) fs) = (if same k k' then tl (vals k fs) else vals k' fs)"
proof (cases rule: find_if_cases [of fs "matches k"])
  case (some as x bs)
  show ?thesis
  proof (cases "same k k'")
    case True
    with some show ?thesis using vals_same [OF True] by (simp add: field_values_none)
  next
    case False
    then have "\<not> matches k' x" using same_iff [of k] some(2) by blast
    with some False show ?thesis by simp
  qed
qed (use assms in simp)

text \<open>The shapes the operations have: change the first field with a key or add one; erase it.\<close>

lemma vals_change_or_add:
  assumes g: "matches k g" and u: "\<And>f. matches k f \<Longrightarrow> matches k (u f) \<and> m_value (u f) = h (m_value f)"
  shows "vals k' (if length fs \<noteq> find_if (matches k) fs
      then fs[find_if (matches k) fs := u (fs ! find_if (matches k) fs)] else fs @ [g]) =
    (if same k k' then (case vals k fs of [] \<Rightarrow> [m_value g] | x # xs \<Rightarrow> h x # xs) else vals k' fs)"
proof (cases "find_if (matches k) fs = length fs")
  case True
  then show ?thesis using vals_first [of k fs] vals_snoc [OF g, of k' fs] by simp
next
  case False
  then obtain vs where vs: "vals k fs = m_value (fs ! find_if (matches k) fs) # vs"
      and m: "matches k (fs ! find_if (matches k) fs)"
    using vals_first [of k fs] by auto
  from False vals_update [OF False, of "u (fs ! find_if (matches k) fs)" k'] u [OF m] show ?thesis
    by (simp add: vs)
qed

lemma vals_erase_first:
  "vals k' (if length fs \<noteq> find_if (matches k) fs then erase_at (find_if (matches k) fs) fs else fs) =
    (if same k k' then tl (vals k fs) else vals k' fs)"
  using vals_first [of k fs] vals_erase [of k fs k'] vals_same [of k k' fs]
  by (cases "find_if (matches k) fs = length fs") simp_all

lemma vals_exists: "length fs \<noteq> find_if (matches k) fs \<longleftrightarrow> vals k fs \<noteq> []"
  using vals_first [of k fs] by (auto split: if_splits)

lemma first_value:
  "(if length fs \<noteq> find_if (matches k) fs then Some (m_value (fs ! find_if (matches k) fs)) else None) =
    (case vals k fs of [] \<Rightarrow> None | v # _ \<Rightarrow> Some v)"
  using vals_first [of k fs] by (cases "find_if (matches k) fs = length fs") auto

lemma vals_remove_all:
  "vals k' (filter (\<lambda>f. \<not> matches k f) fs) = (if same k k' then [] else vals k' fs)"
proof (cases "same k k'")
  case True
  then have "vals k' (filter (\<lambda>f. \<not> matches k f) fs) = []"
    using same_matches [OF True] by (intro field_values_none) auto
  with True show ?thesis by simp
next
  case False
  then have "(\<lambda>f. \<not> matches k f \<and> matches k' f) = matches k'" using same_iff [of k _ k'] by blast
  with False show ?thesis by (simp add: field_values_filter)
qed

end

interpretation names: field_keys named is_equal_caseless
  by unfold_locales (auto simp: is_equal_caseless_iff)

interpretation ids: field_keys has_id "(=)"
  by unfold_locales auto

text \<open>
  The contract of a container of fields: each operation changes the list of values of the keys that
  are the same as its own, and nothing else.
\<close>

locale value_multimap =
  fixes vals :: "'k \<Rightarrow> http_header_fields_t \<Rightarrow> string list"
    and same :: "'k \<Rightarrow> 'k \<Rightarrow> bool"
    and set_op add_op append_op :: "'k \<Rightarrow> string \<Rightarrow> http_header_fields_t \<Rightarrow> http_header_fields_t"
    and remove_op :: "'k \<Rightarrow> http_header_fields_t \<Rightarrow> bool \<times> http_header_fields_t"
    and remove_all_op :: "'k \<Rightarrow> http_header_fields_t \<Rightarrow> nat \<times> http_header_fields_t"
    and get_op :: "'k \<Rightarrow> http_header_fields_t \<Rightarrow> string option"
  assumes same_refl: "same k k"
    and vals_set: "vals k' (set_op k v fs) = (if same k k' then v # tl (vals k fs) else vals k' fs)"
    and vals_add: "vals k' (add_op k v fs) = (if same k k' then vals k fs @ [v] else vals k' fs)"
    and vals_append: "vals k' (append_op k v fs) =
      (if same k k' then (case vals k fs of [] \<Rightarrow> [v] | x # xs \<Rightarrow> (x @ v) # xs) else vals k' fs)"
    and removed: "fst (remove_op k fs) \<longleftrightarrow> vals k fs \<noteq> []"
    and vals_remove: "vals k' (snd (remove_op k fs)) = (if same k k' then tl (vals k fs) else vals k' fs)"
    and removed_all: "fst (remove_all_op k fs) = length (vals k fs)"
    and vals_remove_all: "vals k' (snd (remove_all_op k fs)) = (if same k k' then [] else vals k' fs)"
    and get: "get_op k fs = (case vals k fs of [] \<Rightarrow> None | v # _ \<Rightarrow> Some v)"
begin

lemma get_set: "get_op k' (set_op k v fs) = (if same k k' then Some v else get_op k' fs)"
  by (simp add: get vals_set)

lemma get_add: "get_op k (add_op k v fs) = (case get_op k fs of None \<Rightarrow> Some v | Some w \<Rightarrow> Some w)"
  by (simp add: get vals_add same_refl split: list.splits)

lemma get_append: "get_op k (append_op k v fs) = (case get_op k fs of None \<Rightarrow> Some v | Some w \<Rightarrow> Some (w @ v))"
  by (simp add: get vals_append same_refl split: list.splits)

lemma get_remove_all: "get_op k' (snd (remove_all_op k fs)) = (if same k k' then None else get_op k' fs)"
  by (simp add: get vals_remove_all)

text \<open>Removing one field after the other finds the values in order and then reports failure.\<close>

lemma vals_removes: "vals k (((snd \<circ> remove_op k) ^^ n) fs) = drop n (vals k fs)"
  by (induction n) (simp_all add: vals_remove same_refl drop_Suc tl_drop)

end

lemma case_set: "(case vs of [] \<Rightarrow> [v] | x # xs \<Rightarrow> (\<lambda>_. v) x # xs) = v # tl vs"
  by (cases vs) simp_all

interpretation by_name: value_multimap "\<lambda>n. field_values (named n)" is_equal_caseless
    set_field_name add_field_name append_field_name remove_field_name remove_all_of_name try_get_field_name
proof
  fix k k' v :: string and fs :: http_header_fields_t
  let ?g = "http_header_field_name k v"
  have g: "named k ?g" "m_value ?g = v" by (simp_all add: http_header_field_name_def)
  show "is_equal_caseless k k" by simp
  show "field_values (named k') (set_field_name k v fs) =
      (if is_equal_caseless k k' then v # tl (field_values (named k) fs) else field_values (named k') fs)"
    using names.vals_change_or_add [OF g(1), of "\<lambda>f. field_set_value v (field_set_name k f)" "\<lambda>_. v" k' fs]
    unfolding set_field_name_def find_name_def Let_def g(2) case_set
    by (simp add: field_set_value_def field_set_name_def)
  show "field_values (named k') (add_field_name k v fs) =
      (if is_equal_caseless k k' then field_values (named k) fs @ [v] else field_values (named k') fs)"
    using names.vals_snoc [OF g(1), of k' fs] unfolding add_field_name_def g(2) .
  show "field_values (named k') (append_field_name k v fs) =
      (if is_equal_caseless k k' then case field_values (named k) fs of [] \<Rightarrow> [v] | x # xs \<Rightarrow> (x @ v) # xs
       else field_values (named k') fs)"
    using names.vals_change_or_add [OF g(1), of "append_value v" "\<lambda>x. x @ v" k' fs]
    unfolding append_field_name_def find_name_def Let_def g(2) by (simp add: append_value_def)
  show "fst (remove_field_name k fs) \<longleftrightarrow> field_values (named k) fs \<noteq> []"
    using names.vals_exists [of fs k] by (simp add: remove_field_name_def find_name_def Let_def)
  show "field_values (named k') (snd (remove_field_name k fs)) =
      (if is_equal_caseless k k' then tl (field_values (named k) fs) else field_values (named k') fs)"
    using names.vals_erase_first [of k' fs k] unfolding remove_field_name_def find_name_def Let_def if_distrib [of snd] snd_conv .
  show "fst (remove_all_of_name k fs) = length (field_values (named k) fs)"
    by (simp add: remove_all_of_name_def remove_loop_filter field_values_def)
  show "field_values (named k') (snd (remove_all_of_name k fs)) =
      (if is_equal_caseless k k' then [] else field_values (named k') fs)"
    by (simp add: remove_all_of_name_def remove_loop_filter names.vals_remove_all)
  show "try_get_field_name k fs = (case field_values (named k) fs of [] \<Rightarrow> None | v # _ \<Rightarrow> Some v)"
    unfolding names.first_value [symmetric] by (simp add: try_get_field_name_def find_name_def Let_def)
qed

interpretation by_id: value_multimap "\<lambda>i. field_values (has_id i)" "(=)"
    "\<lambda>i. set_field_id (http_field i)" "\<lambda>i. add_field_id (http_field i)" "\<lambda>i. append_field_id (http_field i)"
    "\<lambda>i. remove_field_id (http_field i)" "\<lambda>i. remove_all_of_id (http_field i)" "\<lambda>i. try_get_field_id (http_field i)"
proof
  fix k k' v :: string and fs :: http_header_fields_t
  let ?g = "http_header_field_id (http_field k) v"
  have g: "has_id k ?g" "m_value ?g = v" by (simp_all add: http_header_field_id_def)
  show "k = k" by simp
  show "field_values (has_id k') (set_field_id (http_field k) v fs) =
      (if k = k' then v # tl (field_values (has_id k) fs) else field_values (has_id k') fs)"
    using ids.vals_change_or_add [OF g(1), of "field_set_value v" "\<lambda>_. v" k' fs]
    unfolding set_field_id_def find_id_def Let_def g(2) case_set by (simp add: field_set_value_def)
  show "field_values (has_id k') (add_field_id (http_field k) v fs) =
      (if k = k' then field_values (has_id k) fs @ [v] else field_values (has_id k') fs)"
    using ids.vals_snoc [OF g(1), of k' fs] unfolding add_field_id_def g(2) by simp
  show "field_values (has_id k') (append_field_id (http_field k) v fs) =
      (if k = k' then case field_values (has_id k) fs of [] \<Rightarrow> [v] | x # xs \<Rightarrow> (x @ v) # xs
       else field_values (has_id k') fs)"
    using ids.vals_change_or_add [OF g(1), of "append_value v" "\<lambda>x. x @ v" k' fs]
    unfolding append_field_id_def find_id_def Let_def g(2) by (simp add: append_value_def)
  show "fst (remove_field_id (http_field k) fs) \<longleftrightarrow> field_values (has_id k) fs \<noteq> []"
    using ids.vals_exists [of fs k] by (simp add: remove_field_id_def find_id_def Let_def)
  show "field_values (has_id k') (snd (remove_field_id (http_field k) fs)) =
      (if k = k' then tl (field_values (has_id k) fs) else field_values (has_id k') fs)"
    using ids.vals_erase_first [of k' fs k]
    unfolding remove_field_id_def find_id_def Let_def if_distrib [of snd] snd_conv by simp
  show "fst (remove_all_of_id (http_field k) fs) = length (field_values (has_id k) fs)"
    by (simp add: remove_all_of_id_def remove_loop_filter field_values_def)
  show "field_values (has_id k') (snd (remove_all_of_id (http_field k) fs)) =
      (if k = k' then [] else field_values (has_id k') fs)"
    by (simp add: remove_all_of_id_def remove_loop_filter ids.vals_remove_all)
  show "try_get_field_id (http_field k) fs = (case field_values (has_id k) fs of [] \<Rightarrow> None | v # _ \<Rightarrow> Some v)"
    unfolding ids.first_value [symmetric] by (simp add: try_get_field_id_def find_id_def Let_def)
qed

subsection \<open>Consistency of names and ids\<close>

definition field_ok :: "http_header_field_t \<Rightarrow> bool" where
  "field_ok f \<longleftrightarrow> m_field_id f = string_to_field (m_name f)"

definition known_id :: "http_field_t \<Rightarrow> bool" where
  "known_id field_id \<longleftrightarrow> (\<exists>i name. field_id = http_field i \<and> (i, name) \<in> set http_fields_map)"

text \<open>The containers that the public operations can build, whose arguments are enumerators.\<close>

inductive built :: "http_header_fields_t \<Rightarrow> bool" where
  built_empty: "built []"
| built_set_field_name: "built fs \<Longrightarrow> built (set_field_name n v fs)"
| built_set_field_id: "built fs \<Longrightarrow> i = field_unspecified \<or> known_id i \<Longrightarrow> built (set_field_id i v fs)"
| built_set_field: "built fs \<Longrightarrow> field_ok f \<Longrightarrow> built (set_field f fs)"
| built_add_field_name: "built fs \<Longrightarrow> built (add_field_name n v fs)"
| built_add_field_id: "built fs \<Longrightarrow> i = field_unspecified \<or> known_id i \<Longrightarrow> built (add_field_id i v fs)"
| built_add_field: "built fs \<Longrightarrow> field_ok f \<Longrightarrow> built (add_field f fs)"
| built_append_field_name: "built fs \<Longrightarrow> built (append_field_name n v fs)"
| built_append_field_id: "built fs \<Longrightarrow> i = field_unspecified \<or> known_id i \<Longrightarrow> built (append_field_id i v fs)"
| built_append_last_field: "built fs \<Longrightarrow> append_last_field v fs = Some fs' \<Longrightarrow> built fs'"
| built_remove_field_name: "built fs \<Longrightarrow> built (snd (remove_field_name n fs))"
| built_remove_field_id: "built fs \<Longrightarrow> built (snd (remove_field_id i fs))"
| built_remove_all_of_name: "built fs \<Longrightarrow> built (snd (remove_all_of_name n fs))"
| built_remove_all_of_id: "built fs \<Longrightarrow> built (snd (remove_all_of_id i fs))"

lemma known_id_name: "known_id i \<Longrightarrow> string_to_field (field_to_string i) = i"
  using string_to_field_known field_to_string_known is_equal_caseless_refl unfolding known_id_def by metis

lemma field_ok_intros [simp]:
  "field_ok (http_header_field_name n v)"
  "known_id i \<Longrightarrow> field_ok (http_header_field_id i v)"
  "field_ok (field_set_name n f)"
  "field_ok (field_set_value v f) \<longleftrightarrow> field_ok f"
  "field_ok (append_value v f) \<longleftrightarrow> field_ok f"
  by (simp_all add: field_ok_def http_header_field_name_def http_header_field_id_def known_id_name
      field_set_name_def field_set_value_def append_value_def)

lemma list_all_erase_at: "list_all P fs \<Longrightarrow> list_all P (erase_at it fs)"
  by (auto simp: erase_at_def list_all_iff dest: in_set_takeD in_set_dropD)

lemma list_all_update: "list_all P fs \<Longrightarrow> P g \<Longrightarrow> list_all P (fs[it := g])"
  by (auto simp: list_all_iff dest: set_update_subset_insert [THEN subsetD])

lemma list_all_find: "list_all P fs \<Longrightarrow> length fs \<noteq> find_if p fs \<Longrightarrow> P (fs ! find_if p fs)"
  by (rule list_all_length [THEN iffD1, rule_format]) (use find_if_le [of p fs] in auto)

lemma built_ok: "built fs \<Longrightarrow> list_all field_ok fs"
proof (induction rule: built.induct)
  case (built_append_last_field fs v fs')
  then show ?case
    by (cases fs rule: rev_cases) (auto simp: append_last_field_def split: if_splits)
next
  case (built_remove_all_of_name fs n)
  then show ?case by (auto simp: remove_all_of_name_def remove_loop_filter list_all_iff)
next
  case (built_remove_all_of_id fs i)
  then show ?case by (auto simp: remove_all_of_id_def remove_loop_filter list_all_iff)
qed (simp_all add: set_field_name_def set_field_id_def set_field_def add_field_name_def add_field_id_def
    add_field_def append_field_name_def append_field_id_def remove_field_name_def remove_field_id_def Let_def
    find_name_def find_id_def list_all_erase_at list_all_update list_all_find, auto?)

text \<open>On consistent fields, selecting by a known id and by its name is the same.\<close>

lemma ok_has_id_named:
  assumes "(i, name) \<in> set http_fields_map" "field_ok f"
  shows "has_id i f \<longleftrightarrow> named name f"
proof
  assume "has_id i f"
  then have id: "string_to_field (m_name f) = http_field i" using assms(2) by (simp add: field_ok_def)
  then obtain j n where "(j, n) \<in> set http_fields_map" "is_equal_caseless (m_name f) n"
    using string_to_field_unknown [of "m_name f"] by auto
  with id string_to_field_known [of j n "m_name f"] have "(i, n) \<in> set http_fields_map" by simp
  with assms(1) have "name = n" by (rule identifier_unique)
  with \<open>is_equal_caseless (m_name f) n\<close> show "named name f" by simp
next
  assume "named name f"
  with string_to_field_known [OF assms(1)] assms(2) show "has_id i f" by (simp add: field_ok_def)
qed

lemma built_values:
  assumes "built fs" "(i, name) \<in> set http_fields_map"
  shows "field_values (has_id i) fs = field_values (named name) fs"
proof -
  have "filter (has_id i) fs = filter (named name) fs"
    using built_ok [OF assms(1)] ok_has_id_named [OF assms(2)] by (intro filter_cong) (auto simp: list_all_iff)
  then show ?thesis by (simp add: field_values_def)
qed

subsection \<open>The request target\<close>

definition target_ok :: "http_request_header_t \<Rightarrow> bool" where
  "target_ok h \<longleftrightarrow>
     m_fragment_separator_pos h = find_if (\<lambda>c. c = CHR ''#'') (m_request_target h) \<and>
     m_query_separator_pos h = find_if (\<lambda>c. c = CHR ''?'') (take (m_fragment_separator_pos h) (m_request_target h))"

lemma target_ok_request_target: "target_ok (request_target t h)"
  by (simp add: target_ok_def request_target_def memchr_helper_def Let_def)

lemma append_request_target_eq:
  assumes "target_ok h"
  shows "append_request_target at h = request_target (m_request_target h @ at) h"
proof (cases "length (m_request_target h) = m_fragment_separator_pos h")
  case True
  with assms show ?thesis
    by (simp add: target_ok_def append_request_target_def request_target_def memchr_helper_def find_if_append Let_def)
next
  case False
  with assms find_if_le [of "\<lambda>c. c = CHR ''#''" "m_request_target h"] show ?thesis
    by (simp add: target_ok_def append_request_target_def request_target_def memchr_helper_def find_if_append Let_def)
qed

lemma request_target_twice: "request_target t (request_target u h) = request_target t h"
  by (simp add: request_target_def Let_def)

lemma m_request_target_request_target: "m_request_target (request_target t h) = t"
  by (simp add: request_target_def Let_def)

lemma fold_append_request_target:
  "fold append_request_target parts (request_target t h) = request_target (t @ concat parts) h"
proof (induction parts arbitrary: t)
  case (Cons at parts)
  have "append_request_target at (request_target t h) = request_target (t @ at) h"
    by (simp add: append_request_target_eq [OF target_ok_request_target] m_request_target_request_target
        request_target_twice)
  with Cons.IH [of "t @ at"] show ?case by simp
qed simp

lemma split_at_find:
  "xs = take (find_if (\<lambda>x. x = c) xs) xs
     @ (if find_if (\<lambda>x. x = c) xs < length xs then c # drop (Suc (find_if (\<lambda>x. x = c) xs)) xs else [])"
  "c \<notin> set (take (find_if (\<lambda>x. x = c) xs) xs)"
  by (cases rule: find_if_cases [of xs "\<lambda>x. x = c"]; auto)+

subsection \<open>Properties\<close>

definition mm_set :: "string \<Rightarrow> string \<Rightarrow> (string \<Rightarrow> string list) \<Rightarrow> string \<Rightarrow> string list" where
  "mm_set n v m = (\<lambda>k. if is_equal_caseless n k then v # tl (m n) else m k)"

definition mm_add :: "string \<Rightarrow> string \<Rightarrow> (string \<Rightarrow> string list) \<Rightarrow> string \<Rightarrow> string list" where
  "mm_add n v m = (\<lambda>k. if is_equal_caseless n k then m n @ [v] else m k)"

definition mm_append :: "string \<Rightarrow> string \<Rightarrow> (string \<Rightarrow> string list) \<Rightarrow> string \<Rightarrow> string list" where
  "mm_append n v m =
     (\<lambda>k. if is_equal_caseless n k then (case m n of [] \<Rightarrow> [v] | x # xs \<Rightarrow> (x @ v) # xs) else m k)"

definition mm_remove :: "string \<Rightarrow> (string \<Rightarrow> string list) \<Rightarrow> string \<Rightarrow> string list" where
  "mm_remove n m = (\<lambda>k. if is_equal_caseless n k then tl (m n) else m k)"

definition mm_remove_all :: "string \<Rightarrow> (string \<Rightarrow> string list) \<Rightarrow> string \<Rightarrow> string list" where
  "mm_remove_all n m = (\<lambda>k. if is_equal_caseless n k then [] else m k)"

definition fields_abs :: "http_header_fields_t \<Rightarrow> string \<Rightarrow> string list" where
  "fields_abs fs = (\<lambda>n. field_values (named n) fs)"

text \<open>Enumerating a list of values until the lambda says stop.\<close>

fun enumerate_values :: "(string \<Rightarrow> 's \<Rightarrow> handling_result_t \<times> 's) \<Rightarrow> string list \<Rightarrow> 's \<Rightarrow> 's" where
  "enumerate_values lambda [] s = s"
| "enumerate_values lambda (v # vs) s =
     (case lambda v s of (stop_enumeration, s) \<Rightarrow> s | (continue_enumeration, s) \<Rightarrow> enumerate_values lambda vs s)"

lemma for_each_value_of_values:
  "for_each_value_of_name n lambda fs s = enumerate_values lambda (field_values (named n) fs) s"
  "for_each_value_of_id (http_field i) lambda fs s = enumerate_values lambda (field_values (has_id i) fs) s"
  by (induction fs arbitrary: s) (auto split: prod.split handling_result_t.split)

lemma mm_same_name:
  assumes "is_equal_caseless n name"
  shows "mm_add n v (fields_abs fs) = mm_add name v (fields_abs fs)" "mm_append n v (fields_abs fs) = mm_append name v (fields_abs fs)"
proof -
  have "is_equal_caseless n k = is_equal_caseless name k" "named n f = named name f" for k f
    using assms by (auto simp: is_equal_caseless_iff)
  then show "mm_add n v (fields_abs fs) = mm_add name v (fields_abs fs)" "mm_append n v (fields_abs fs) = mm_append name v (fields_abs fs)"
    by (simp_all add: mm_add_def mm_append_def fields_abs_def fun_eq_iff)
qed

text \<open>
  C29: the header container implements a caseless multimap. With the list of the values of each name as
  the abstraction, setting replaces the first value or adds one, adding appends a value,
  appending extends the first value, removing drops the first value and reports whether there was
  one, removing all drops and counts all of them, the lookups return the first value or report
  its absence, and the enumeration goes through the values in order until it is told to stop.
\<close>

theorem header_fields_refine_multimap:
  "fields_abs (set_field_name n v fs) = mm_set n v (fields_abs fs) \<and>
   fields_abs (add_field_name n v fs) = mm_add n v (fields_abs fs) \<and>
   fields_abs (append_field_name n v fs) = mm_append n v (fields_abs fs) \<and>
   fields_abs (snd (remove_field_name n fs)) = mm_remove n (fields_abs fs) \<and>
   fst (remove_field_name n fs) = (fields_abs fs n \<noteq> []) \<and>
   fields_abs (snd (remove_all_of_name n fs)) = mm_remove_all n (fields_abs fs) \<and>
   fst (remove_all_of_name n fs) = length (fields_abs fs n) \<and>
   has_field_name n fs = (fields_abs fs n \<noteq> []) \<and>
   get_field_name n fs = (case fields_abs fs n of [] \<Rightarrow> Inl (Field_doesnt_exist n) | x # _ \<Rightarrow> Inr x) \<and>
   get_field_or_name n d fs = (case fields_abs fs n of [] \<Rightarrow> d | x # _ \<Rightarrow> x) \<and>
   try_get_field_name n fs = (case fields_abs fs n of [] \<Rightarrow> None | x # _ \<Rightarrow> Some x) \<and>
   opt_value_of_name n fs = (case fields_abs fs n of [] \<Rightarrow> None | x # _ \<Rightarrow> Some x) \<and>
   for_each_value_of_name n lambda fs s = enumerate_values lambda (fields_abs fs n) s"
proof (intro conjI)
  show try_get: "try_get_field_name n fs = (case fields_abs fs n of [] \<Rightarrow> None | x # _ \<Rightarrow> Some x)"
    using names.vals_first [of n fs]
    by (auto simp: try_get_field_name_def find_name_def Let_def fields_abs_def split: if_splits)
  show "opt_value_of_name n fs = (case fields_abs fs n of [] \<Rightarrow> None | x # _ \<Rightarrow> Some x)"
    by (simp add: opt_value_of_name_def try_get split: list.split)
  show "for_each_value_of_name n lambda fs s = enumerate_values lambda (fields_abs fs n) s"
    by (simp add: for_each_value_of_values fields_abs_def)
  show "get_field_name n fs = (case fields_abs fs n of [] \<Rightarrow> Inl (Field_doesnt_exist n) | x # _ \<Rightarrow> Inr x)"
    "get_field_or_name n d fs = (case fields_abs fs n of [] \<Rightarrow> d | x # _ \<Rightarrow> x)"
    using names.vals_first [of n fs]
    by (auto simp: get_field_name_def get_field_or_name_def find_name_def Let_def fields_abs_def split: if_splits)
  show "has_field_name n fs = (fields_abs fs n \<noteq> [])"
    by (simp only: has_field_name_def find_name_def fields_abs_def names.vals_exists)
qed (simp_all add: fields_abs_def fun_eq_iff by_name.vals_set by_name.vals_add by_name.vals_append
    by_name.vals_remove by_name.vals_remove_all by_name.removed by_name.removed_all
    mm_set_def mm_add_def mm_append_def mm_remove_def mm_remove_all_def)

text \<open>
  C35: names and ids of fields agree. In every container that the operations can build each field
  carries the id of its name. Every operation by a known id does what it does by the name of the field, in any case of
  letters: the lookups, the enumeration and the two removals give the same results; an absent field is reported by \<^verbatim>\<open>get_field\<close> under the
  name it was asked for; setting, adding and appending change the values of the name in the same way, and a field that
  is added by id has the name of the table.
\<close>

theorem built_fields_ids_agree:
  assumes "built fs" "(i, name) \<in> set http_fields_map" "is_equal_caseless n name"
  shows "list_all (\<lambda>f. m_field_id f = string_to_field (m_name f)) fs \<and>
    has_field_id (http_field i) fs = has_field_name n fs \<and>
    try_get_field_id (http_field i) fs = try_get_field_name n fs \<and>
    opt_value_of_id (http_field i) fs = opt_value_of_name n fs \<and>
    get_field_or_id (http_field i) d fs = get_field_or_name n d fs \<and>
    get_field_id (http_field i) fs = (case try_get_field_name n fs of None \<Rightarrow> Inl (Field_doesnt_exist name) | Some x \<Rightarrow> Inr x) \<and>
    get_field_name n fs = (case try_get_field_name n fs of None \<Rightarrow> Inl (Field_doesnt_exist n) | Some x \<Rightarrow> Inr x) \<and>
    for_each_value_of_id (http_field i) lambda fs s = for_each_value_of_name n lambda fs s \<and>
    remove_field_id (http_field i) fs = remove_field_name n fs \<and>
    remove_all_of_id (http_field i) fs = remove_all_of_name n fs \<and>
    fields_abs (set_field_id (http_field i) v fs) = mm_set n v (fields_abs fs) \<and>
    add_field_id (http_field i) v fs = add_field_name name v fs \<and>
    fields_abs (add_field_id (http_field i) v fs) = mm_add n v (fields_abs fs) \<and>
    append_field_id (http_field i) v fs = append_field_name name v fs \<and>
    fields_abs (append_field_id (http_field i) v fs) = mm_append n v (fields_abs fs)"
proof (intro conjI)
  show ok: "list_all (\<lambda>f. m_field_id f = string_to_field (m_name f)) fs"
    using built_ok [OF assms(1)] by (simp add: field_ok_def list_all_iff)
  have sel: "has_id i f \<longleftrightarrow> named n f" if "f \<in> set fs" for f
    using built_ok [OF assms(1)] that ok_has_id_named [OF assms(2), of f] assms(3)
    by (simp add: list_all_iff is_equal_caseless_iff)
  have find: "find_if (has_id i) gs = find_if (named n) gs" if "set gs \<subseteq> set fs" for gs
    using that sel by (induction gs) auto
  show try_get: "try_get_field_id (http_field i) fs = try_get_field_name n fs"
    and "has_field_id (http_field i) fs = has_field_name n fs"
    and "get_field_or_id (http_field i) d fs = get_field_or_name n d fs"
    and "remove_field_id (http_field i) fs = remove_field_name n fs"
    using find [of fs] by (simp_all add: try_get_field_id_def try_get_field_name_def has_field_id_def get_field_or_id_def
        get_field_or_name_def remove_field_id_def remove_field_name_def has_field_name_def find_id_def find_name_def Let_def)
  show "opt_value_of_id (http_field i) fs = opt_value_of_name n fs"
    by (simp add: opt_value_of_id_def opt_value_of_name_def try_get)
  show "get_field_id (http_field i) fs = (case try_get_field_name n fs of None \<Rightarrow> Inl (Field_doesnt_exist name) | Some x \<Rightarrow> Inr x)"
    "get_field_name n fs = (case try_get_field_name n fs of None \<Rightarrow> Inl (Field_doesnt_exist n) | Some x \<Rightarrow> Inr x)"
    using find [of fs] field_to_string_known [OF assms(2)]
    by (simp_all add: get_field_id_def get_field_name_def try_get_field_name_def find_id_def find_name_def Let_def)
  have "field_values (has_id i) fs = field_values (named n) fs"
    using sel by (auto simp: field_values_def cong: filter_cong)
  then show "for_each_value_of_id (http_field i) lambda fs s = for_each_value_of_name n lambda fs s"
    by (simp add: for_each_value_of_values)
  show "remove_all_of_id (http_field i) fs = remove_all_of_name n fs"
    using sel by (simp add: remove_all_of_id_def remove_all_of_name_def remove_loop_filter cong: filter_cong)
  have new: "http_header_field_id (http_field i) v = http_header_field_name name v"
    using string_to_field_known [OF assms(2)] field_to_string_known [OF assms(2)]
    by (simp add: http_header_field_id_def http_header_field_name_def)
  then have set: "set_field_id (http_field i) v fs =
      (if length fs \<noteq> find_if (named n) fs then fs[find_if (named n) fs := field_set_value v (fs ! find_if (named n) fs)]
       else fs @ [http_header_field_name name v])"
    using find [of fs] by (simp add: set_field_id_def find_id_def Let_def)
  have g: "named n (http_header_field_name name v)" "m_value (http_header_field_name name v) = v"
    using assms(3) is_equal_caseless_sym by (simp_all add: http_header_field_name_def)
  show "fields_abs (set_field_id (http_field i) v fs) = mm_set n v (fields_abs fs)"
    unfolding set fields_abs_def mm_set_def
    using names.vals_change_or_add [OF g(1), of "field_set_value v" "\<lambda>_. v" _ fs, unfolded g(2) case_set]
    by (simp add: fun_eq_iff field_set_value_def del: field_values_simps)
  have same: "named n f = named name f" for f using assms(3) by (simp add: is_equal_caseless_iff)
  show add: "add_field_id (http_field i) v fs = add_field_name name v fs"
    and append: "append_field_id (http_field i) v fs = append_field_name name v fs"
    using find [of fs] new same
    by (simp_all add: add_field_id_def add_field_name_def append_field_id_def append_field_name_def find_id_def find_name_def Let_def)
  show "fields_abs (add_field_id (http_field i) v fs) = mm_add n v (fields_abs fs)"
    "fields_abs (append_field_id (http_field i) v fs) = mm_append n v (fields_abs fs)"
    unfolding add append mm_same_name [OF assms(3)]
    by (simp_all add: fields_abs_def fun_eq_iff by_name.vals_add by_name.vals_append mm_add_def mm_append_def)
qed

theorem built_fields_ids_agree_witness:
  "fields_abs (set_field_id (http_field ''host'') ''b'' (add_field_name ''HOST'' ''a'' [])) =
     mm_set ''hOST'' ''b'' (fields_abs (add_field_name ''HOST'' ''a'' [])) \<and>
   for_each_value_of_id (http_field ''host'') (\<lambda>v vs. (continue_enumeration, vs @ [v])) (add_field_name ''HOST'' ''a'' []) [] = [''a'']"
proof -
  let ?fs = "add_field_name ''HOST'' ''a'' []" and ?l = "\<lambda>v vs. (continue_enumeration, vs @ [v])"
  have b: "built ?fs" by (intro built.intros)
  have k: "(''host'', ''Host'') \<in> set http_fields_map" unfolding http_fields_map_def by simp
  have e: "is_equal_caseless ''hOST'' ''Host''" by (simp add: is_equal_caseless_iff to_lower_case_name)
  note agree = built_fields_ids_agree [OF b k e, where v = "''b''" and lambda = ?l and s = "[]" and d = "[]"]
  have "fields_abs (set_field_id (http_field ''host'') ''b'' ?fs) = mm_set ''hOST'' ''b'' (fields_abs ?fs)"
    using agree by - (elim conjE)
  moreover have "for_each_value_of_id (http_field ''host'') ?l ?fs [] = for_each_value_of_name ''hOST'' ?l ?fs []"
    using agree by - (elim conjE)
  moreover have "for_each_value_of_name ''hOST'' ?l ?fs [] = [''a'']" by code_simp
  ultimately show ?thesis by simp
qed

text \<open>
  The request target can be delivered in pieces. Appending the pieces to a fresh header one after
  the other, however the text is cut, leaves the header as setting the whole target does: the
  positions of the query and the fragment included.
\<close>

theorem request_target_in_pieces:
  "fold append_request_target parts (http_request_header_default code) =
   request_target (concat parts) (http_request_header_default code)"
proof -
  have "http_request_header_default code = request_target [] (http_request_header_default code)"
    by (simp add: http_request_header_default_def request_target_def memchr_helper_def Let_def
        http_header_common_t.defs http_request_header_t.defs http_header_common_default_def)
  then show ?thesis using fold_append_request_target [of parts "[]" "http_request_header_default code"] by simp
qed

text \<open>
  The parts of a request target. The target is the path, then a question mark and the query if there
  is one, then a number sign and the fragment if there is one; the path has neither separator in
  it and the query no number sign.
\<close>

theorem request_target_parts:
  "let r = request_target t h
   in t = path r
      @ (if m_query_separator_pos r < m_fragment_separator_pos r then CHR ''?'' # query r else [])
      @ (if m_fragment_separator_pos r < length t then CHR ''#'' # fragment r else []) \<and>
    CHR ''?'' \<notin> set (path r) \<and> CHR ''#'' \<notin> set (path r) \<and> CHR ''#'' \<notin> set (query r)"
proof -
  define r where "r = request_target t h"
  define f where "f = find_if (\<lambda>c. c = CHR ''#'') t"
  define u where "u = take f t"
  define q where "q = find_if (\<lambda>c. c = CHR ''?'') u"
  have pos: "m_fragment_separator_pos r = f" "m_query_separator_pos r = q" "m_request_target r = t"
    by (simp_all add: r_def f_def q_def u_def request_target_def memchr_helper_def Let_def)
  have len: "length u = f" unfolding u_def f_def by (simp add: find_if_le min_absorb2)
  note t = split_at_find [where xs = t and c = "CHR ''#''", folded f_def]
  note u = split_at_find [where xs = u and c = "CHR ''?''", folded q_def]
  have "q \<le> f" unfolding q_def using find_if_le [of _ u] len by simp
  then have path: "path r = take q u" by (simp add: path_def pos u_def min_def)
  have query: "query r = (if q < f then drop (Suc q) u else [])"
    using \<open>q \<le> f\<close> by (auto simp: query_def pos u_def take_drop)
  have fragment: "fragment r = (if f < length t then drop (Suc f) t else [])"
    using find_if_le [of "\<lambda>c. c = CHR ''#''" t] by (auto simp: fragment_def pos f_def [symmetric])
  have split_u: "u = path r @ (if q < f then CHR ''?'' # query r else [])"
    using u(1) unfolding path query len by (cases "q < f") simp_all
  have split_t: "t = u @ (if f < length t then CHR ''#'' # fragment r else [])"
    using t(1) unfolding fragment u_def by (cases "f < length t") simp_all
  have "set (path r) \<subseteq> set u" "set (query r) \<subseteq> set u"
    by (auto simp: path query dest: in_set_takeD in_set_dropD)
  moreover have "CHR ''#'' \<notin> set u" "CHR ''?'' \<notin> set (path r)" using t(2) u(2) path by (simp_all add: u_def)
  moreover have "t = path r @ (if q < f then CHR ''?'' # query r else []) @
      (if f < length t then CHR ''#'' # fragment r else [])"
    using split_t unfolding split_u [symmetric] append_assoc [symmetric] .
  ultimately show ?thesis unfolding Let_def r_def [symmetric] pos by blast
qed

text \<open>
  Comparison of status codes. Equality compares the two codes, but inequality and
  less-than compare the second code with itself and never hold.
\<close>

theorem status_code_comparisons:
  "status_code_eq a b = (a = b) \<and> \<not> status_code_ne a b \<and> \<not> status_code_less a b"
  by (simp add: status_code_eq_def status_code_ne_def status_code_less_def)

end
