(* ===== verification/Utf8.thy ===== *)
theory Utf8
  imports Prelude
begin

text \<open>
  The UTF-8 checker of \<^verbatim>\<open>restinio/utils/utf8_checker.hpp\<close> (class \<^verbatim>\<open>utf8_checker_t\<close>) and the
  whole-string check of \<^verbatim>\<open>restinio/websocket/impl/utf8.hpp\<close>.

  The checker is a byte-driven state machine: \<open>process_byte\<close> returns the verdict and the new
  state of the object. The reference definition is the Unicode one: a text is well formed when it
  is a concatenation of encodings of scalar values. The two agree on every byte string.
\<close>

subsection \<open>The checker\<close>

datatype utf8_state = Valid | Invalid | May_be_overlong | Overlong

record utf8_checker =
  m_current_symbol :: u32
  m_current_symbol_rest_bytes :: nat
  m_state :: utf8_state

definition utf8_checker_init :: utf8_checker where
  "utf8_checker_init =
     \<lparr>m_current_symbol = 0, m_current_symbol_rest_bytes = 0, m_state = Valid\<rparr>"

definition validate_current_symbol :: "utf8_checker \<Rightarrow> utf8_checker" where
  "validate_current_symbol c =
     (if (0xD800 \<le> m_current_symbol c \<and> m_current_symbol c \<le> 0xDFFF)
         \<or> 0x110000 \<le> m_current_symbol c
      then c\<lparr>m_state := Invalid\<rparr> else c)"

definition check_overlong :: "utf8_checker \<Rightarrow> u8 \<Rightarrow> utf8_checker" where
  "check_overlong c byte =
     (if 0 < m_current_symbol_rest_bytes c \<and> m_state c = May_be_overlong then
        (if m_current_symbol_rest_bytes c = 2 \<and> byte AND 0xE0 = 0x80 then c\<lparr>m_state := Overlong\<rparr>
         else if m_current_symbol_rest_bytes c = 3 \<and> byte AND 0xF0 = 0x80 then c\<lparr>m_state := Overlong\<rparr>
         else if m_current_symbol_rest_bytes c = 4 \<and> byte AND 0xF8 = 0x80 then c\<lparr>m_state := Overlong\<rparr>
         else if m_current_symbol_rest_bytes c = 5 \<and> byte AND 0xFC = 0x80 then c\<lparr>m_state := Overlong\<rparr>
         else c\<lparr>m_state := Valid\<rparr>)
      else
        (let c = (if byte = 0xC0 \<or> byte = 0xC1 then c\<lparr>m_state := Overlong\<rparr>
                  else if byte = 0xE0 then c\<lparr>m_state := May_be_overlong\<rparr>
                  else if byte = 0xF0 then c\<lparr>m_state := May_be_overlong\<rparr>
                  else c);
             c = (if byte = 0xF8 then c\<lparr>m_state := May_be_overlong\<rparr> else c);
             c = (if byte = 0xFC then c\<lparr>m_state := May_be_overlong\<rparr> else c)
         in c))"

definition process_byte :: "utf8_checker \<Rightarrow> u8 \<Rightarrow> bool \<times> utf8_checker" where
  "process_byte c byte =
     (let c = check_overlong c byte;
          c = (if 0 < m_current_symbol_rest_bytes c then
                 (if byte AND 0xC0 = 0x80 then
                    (let c = c\<lparr>m_current_symbol := push_bit 6 (m_current_symbol c) OR ucast (byte AND 0x3F),
                               m_current_symbol_rest_bytes := m_current_symbol_rest_bytes c - 1\<rparr>
                     in if m_current_symbol_rest_bytes c = 0 then validate_current_symbol c else c)
                  else c\<lparr>m_state := Invalid\<rparr>)
               else
                 (let (c, byte) =
                    (if byte AND 0x80 = 0 then (c\<lparr>m_current_symbol_rest_bytes := 0\<rparr>, byte)
                     else if byte AND 0xE0 = 0xC0 then (c\<lparr>m_current_symbol_rest_bytes := 1\<rparr>, byte AND 0x1F)
                     else if byte AND 0xF0 = 0xE0 then (c\<lparr>m_current_symbol_rest_bytes := 2\<rparr>, byte AND 0xF)
                     else if byte AND 0xF8 = 0xF0 then (c\<lparr>m_current_symbol_rest_bytes := 3\<rparr>, byte AND 0x7)
                     else if byte AND 0xFC = 0xF8 then (c\<lparr>m_current_symbol_rest_bytes := 4\<rparr>, byte AND 0x3)
                     else if byte AND 0xFE = 0xFC then (c\<lparr>m_current_symbol_rest_bytes := 5\<rparr>, byte AND 0x1)
                     else (c\<lparr>m_state := Invalid\<rparr>, byte))
                  in c\<lparr>m_current_symbol := ucast byte\<rparr>))
      in (m_state c = Valid \<or> m_state c = May_be_overlong, c))"

definition finalized :: "utf8_checker \<Rightarrow> bool" where
  "finalized c \<longleftrightarrow> m_current_symbol_rest_bytes c = 0"

definition utf8_reset :: "utf8_checker \<Rightarrow> utf8_checker" where
  "utf8_reset c = c\<lparr>m_current_symbol := 0, m_current_symbol_rest_bytes := 0\<rparr>"

text \<open>The loop of \<^verbatim>\<open>check_utf8_is_correct\<close>, from any state of the checker.\<close>

fun check_utf8_loop :: "utf8_checker \<Rightarrow> u8 list \<Rightarrow> bool" where
  "check_utf8_loop c [] = finalized c"
| "check_utf8_loop c (ch # rest) =
     (let (ok, c') = process_byte c ch in if \<not> ok then False else check_utf8_loop c' rest)"

definition check_utf8_is_correct :: "string \<Rightarrow> bool" where
  "check_utf8_is_correct sv = check_utf8_loop utf8_checker_init (map byte_of_char sv)"

subsection \<open>Well-formed UTF-8, by the Unicode definition\<close>

definition unicode_scalar :: "nat \<Rightarrow> bool" where
  "unicode_scalar n \<longleftrightarrow> n < 0xD800 \<or> (0xE000 \<le> n \<and> n < 0x110000)"

definition utf8_encode :: "nat \<Rightarrow> nat list" where
  "utf8_encode n =
     (if n < 0x80 then [n]
      else if n < 0x800 then [0xC0 + n div 64, 0x80 + n mod 64]
      else if n < 0x10000 then [0xE0 + n div 4096, 0x80 + n div 64 mod 64, 0x80 + n mod 64]
      else [0xF0 + n div 262144, 0x80 + n div 4096 mod 64, 0x80 + n div 64 mod 64, 0x80 + n mod 64])"

definition utf8_text :: "nat list \<Rightarrow> bool" where
  "utf8_text bs \<longleftrightarrow> (\<exists>cps. (\<forall>n \<in> set cps. unicode_scalar n) \<and> bs = concat (map utf8_encode cps))"

lemma utf8_text_Nil [simp]: "utf8_text []"
  by (auto simp: utf8_text_def intro: exI [of _ "[]"])

lemma utf8_text_append:
  "unicode_scalar n \<Longrightarrow> utf8_text bs \<Longrightarrow> utf8_text (utf8_encode n @ bs)"
proof -
  assume n: "unicode_scalar n" and "utf8_text bs"
  then obtain cps where "\<forall>n \<in> set cps. unicode_scalar n" and "bs = concat (map utf8_encode cps)"
    by (auto simp: utf8_text_def)
  with n show ?thesis
    by (auto simp: utf8_text_def intro!: exI [of _ "n # cps"])
qed

subsection \<open>One step of the checker, as arithmetic on byte values\<close>

lemmas process_byte_defs = process_byte_def check_overlong_def validate_current_symbol_def Let_def

text \<open>A state between two symbols; the value of the last symbol is irrelevant there.\<close>

definition ready :: "u32 \<Rightarrow> utf8_checker" where
  "ready s = \<lparr>m_current_symbol = s, m_current_symbol_rest_bytes = 0, m_state = Valid\<rparr>"

text \<open>A state inside a symbol: \<open>k\<close> continuation bytes are missing.\<close>

definition inside :: "u32 \<Rightarrow> nat \<Rightarrow> utf8_state \<Rightarrow> utf8_checker" where
  "inside s k st = \<lparr>m_current_symbol = s, m_current_symbol_rest_bytes = k, m_state = st\<rparr>"

lemma lead_byte_eqs:
  fixes b :: u8
  shows "b = 0xC0 \<longleftrightarrow> unat b = 0xC0" "b = 0xC1 \<longleftrightarrow> unat b = 0xC1" "b = 0xE0 \<longleftrightarrow> unat b = 0xE0"
    "b = 0xF0 \<longleftrightarrow> unat b = 0xF0" "b = 0xF8 \<longleftrightarrow> unat b = 0xF8" "b = 0xFC \<longleftrightarrow> unat b = 0xFC"
  by (simp_all only: word_unat_eq_iff) simp_all

lemmas step_unfold = process_byte_defs ready_def inside_def mask_simps

lemma ready_ascii: "unat b < 0x80 \<Longrightarrow> process_byte (ready s) b = (True, ready (ucast b))"
  unfolding step_unfold unfolding lead_byte_eqs by simp

lemma ready_continuation: "0x80 \<le> unat b \<Longrightarrow> unat b < 0xC2 \<Longrightarrow> \<not> fst (process_byte (ready s) b)"
  unfolding step_unfold unfolding lead_byte_eqs by (cases "unat b = 0xC0"; cases "unat b = 0xC1"; simp)

lemma ready_lead2:
  "0xC2 \<le> unat b \<Longrightarrow> unat b < 0xE0 \<Longrightarrow>
     process_byte (ready s) b = (True, inside (ucast (b AND 0x1F)) 1 Valid)"
  unfolding step_unfold unfolding lead_byte_eqs by simp

lemma ready_lead3:
  "0xE0 \<le> unat b \<Longrightarrow> unat b < 0xF0 \<Longrightarrow>
     process_byte (ready s) b =
       (True, inside (ucast (b AND 0xF)) 2 (if unat b = 0xE0 then May_be_overlong else Valid))"
  unfolding step_unfold unfolding lead_byte_eqs by (cases "unat b = 0xE0"; simp)

lemma ready_lead4:
  "0xF0 \<le> unat b \<Longrightarrow> unat b < 0xF8 \<Longrightarrow>
     process_byte (ready s) b =
       (True, inside (ucast (b AND 0x7)) 3 (if unat b = 0xF0 then May_be_overlong else Valid))"
  unfolding step_unfold unfolding lead_byte_eqs by (cases "unat b = 0xF0"; simp)

lemma ready_lead5:
  "0xF8 \<le> unat b \<Longrightarrow> unat b < 0xFC \<Longrightarrow>
     process_byte (ready s) b =
       (True, inside (ucast (b AND 0x3)) 4 (if unat b = 0xF8 then May_be_overlong else Valid))"
  unfolding step_unfold unfolding lead_byte_eqs by (cases "unat b = 0xF8"; simp)

lemma ready_lead6:
  "0xFC \<le> unat b \<Longrightarrow> unat b < 0xFE \<Longrightarrow>
     process_byte (ready s) b =
       (True, inside (ucast (b AND 0x1)) 5 (if unat b = 0xFC then May_be_overlong else Valid))"
  unfolding step_unfold unfolding lead_byte_eqs by (cases "unat b = 0xFC"; simp)

lemma ready_FE_FF: "0xFE \<le> unat b \<Longrightarrow> \<not> fst (process_byte (ready s) b)"
  unfolding step_unfold unfolding lead_byte_eqs by simp

text \<open>
  Inside a symbol only a continuation byte is accepted. It appends six bits to the symbol; the
  last one is followed by the check for surrogates and for values beyond \<open>10FFFF\<close>.
\<close>

definition symbol_ok :: "nat \<Rightarrow> bool" where
  "symbol_ok n \<longleftrightarrow> \<not> (0xD800 \<le> n \<and> n \<le> 0xDFFF) \<and> n < 0x110000"

lemma check_overlong_rest_bytes [simp]:
  "m_current_symbol_rest_bytes (check_overlong c b) = m_current_symbol_rest_bytes c"
  by (simp add: check_overlong_def Let_def)

lemma inside_bad:
  assumes "0 < k" and "unat b < 0x80 \<or> 0xC0 \<le> unat b"
  shows "\<not> fst (process_byte (inside s k st) b)"
proof -
  have "b AND 0xC0 \<noteq> 0x80" using assms(2) unfolding mask_simps by auto
  moreover have "m_current_symbol_rest_bytes (inside s k st) = k" by (simp add: inside_def)
  ultimately show ?thesis using assms(1) by (simp add: process_byte_def Let_def)
qed

lemma inside_more:
  assumes "0x80 \<le> unat b" "unat b < 0xC0" "0 < k" "st = Valid"
  shows "process_byte (inside s (Suc k) st) b =
           (True, inside (push_bit 6 s OR ucast (b AND 0x3F)) k Valid)"
  using assms unfolding step_unfold unfolding lead_byte_eqs by simp

lemma inside_last:
  fixes s :: u32
  assumes "0x80 \<le> unat b" "unat b < 0xC0"
  defines "s' \<equiv> push_bit 6 s OR ucast (b AND 0x3F)"
  shows "process_byte (inside s 1 Valid) b =
           (if symbol_ok (unat s') then (True, ready s') else (False, inside s' 0 Invalid))"
  using assms(1,2) unfolding step_unfold unfolding lead_byte_eqs symbol_ok_def s'_def
  by (simp add: word_le_nat_alt)

text \<open>The byte after a lead byte that admits overlong forms.\<close>

lemma check_overlong_inside:
  assumes "0x80 \<le> unat b" "unat b < 0xC0" "k \<in> {2, 3, 4, 5}"
  shows "check_overlong (inside s k May_be_overlong) b =
           inside s k (if unat b < 0x80 + 2 ^ (7 - k) then Overlong else Valid)"
    and "check_overlong (inside s k Valid) b = inside s k Valid"
  using assms unfolding check_overlong_def inside_def Let_def mask_simps unfolding lead_byte_eqs
  by auto

lemma inside_overlong:
  assumes "0x80 \<le> unat b" "unat b < 0xC0" "k \<in> {2, 3, 4, 5}" "unat b < 0x80 + 2 ^ (7 - k)"
  shows "\<not> fst (process_byte (inside s k May_be_overlong) b)"
  using assms unfolding process_byte_def
  by (simp add: check_overlong_inside(1)) (auto simp: inside_def Let_def validate_current_symbol_def)

lemma inside_not_overlong:
  assumes "0x80 \<le> unat b" "unat b < 0xC0" "k \<in> {2, 3, 4, 5}" "0x80 + 2 ^ (7 - k) \<le> unat b"
  shows "process_byte (inside s k May_be_overlong) b = process_byte (inside s k Valid) b"
  using assms unfolding process_byte_def by (simp only: check_overlong_inside) simp

subsection \<open>What the loop accepts\<close>

definition continuation :: "u8 \<Rightarrow> bool" where
  "continuation b \<longleftrightarrow> 0x80 \<le> unat b \<and> unat b < 0xC0"

definition symbol_value :: "nat \<Rightarrow> u8 list \<Rightarrow> nat" where
  "symbol_value v cs = foldl (\<lambda>v c. v * 64 + (unat c - 0x80)) v cs"

lemma symbol_value_Nil [simp]: "symbol_value v [] = v"
  and symbol_value_Cons [simp]: "symbol_value v (c # cs) = symbol_value (v * 64 + (unat c - 0x80)) cs"
  by (simp_all add: symbol_value_def)

lemma append_six_bits:
  assumes "continuation b" and "unat (s :: u32) < 2 ^ 26"
  shows "unat (push_bit 6 s OR ucast (b AND 0x3F)) = unat s * 64 + (unat b - 0x80)"
proof -
  have "unat b mod 64 = unat b - 0x80"
    using assms(1) by (intro mod_nat_eqI) (auto simp: continuation_def)
  then have "unat (ucast (b AND 0x3F) :: u32) = unat b - 0x80"
    by (simp only: unat_ucast_byte_32 and_3F)
  moreover have "unat b - 0x80 < 2 ^ 6"
    using assms(1) by (auto simp: continuation_def)
  ultimately show ?thesis
    using unat_push_bit_or [of "ucast (b AND 0x3F) :: u32" 6 s] assms(2) by simp
qed

lemma check_overlong_symbol:
  "check_overlong (c\<lparr>m_current_symbol := s\<rparr>) b = (check_overlong c b)\<lparr>m_current_symbol := s\<rparr>"
  by (simp add: check_overlong_def Let_def)

lemma process_byte_ready: "process_byte (ready s) b = process_byte (ready 0) b"
proof -
  define c where "c = check_overlong (ready 0) b"
  have "m_current_symbol_rest_bytes c = 0" by (simp add: c_def ready_def)
  moreover have "check_overlong (ready s) b = c\<lparr>m_current_symbol := s\<rparr>"
    using check_overlong_symbol [of s "ready 0" b] by (simp add: c_def ready_def)
  ultimately show ?thesis
    unfolding process_byte_def c_def [symmetric] by (simp add: Let_def)
qed

lemma loop_ready_Nil [simp]: "check_utf8_loop (ready s) []"
  by (simp add: finalized_def ready_def)

lemma loop_ready: "check_utf8_loop (ready s) bs = check_utf8_loop (ready 0) bs"
  by (cases bs) (simp_all add: process_byte_ready [of s] del: check_utf8_loop.simps(1))

lemma loop_inside_Nil [simp]: "0 < k \<Longrightarrow> \<not> check_utf8_loop (inside s k st) []"
  by (simp add: finalized_def inside_def)

lemma loop_reject: "\<not> fst (process_byte c b) \<Longrightarrow> \<not> check_utf8_loop c (b # bs)"
  by (auto split: prod.splits)

lemma loop_inside:
  "0 < k \<Longrightarrow> (unat s + 1) * 64 ^ k \<le> 2 ^ 32 \<Longrightarrow>
   check_utf8_loop (inside s k Valid) bs \<longleftrightarrow>
     (\<exists>cs rest. bs = cs @ rest \<and> length cs = k \<and> (\<forall>c \<in> set cs. continuation c) \<and>
        symbol_ok (symbol_value (unat s) cs) \<and> check_utf8_loop (ready 0) rest)"
proof (induction k arbitrary: s bs)
  case 0
  then show ?case by simp
next
  case (Suc k)
  show ?case
  proof (cases bs)
    case Nil
    then show ?thesis by (simp del: check_utf8_loop.simps(1))
  next
    case (Cons b bs')
    show ?thesis
    proof (cases "continuation b")
      case False
      then have "\<not> check_utf8_loop (inside s (Suc k) Valid) bs"
        unfolding Cons by (intro loop_reject inside_bad) (auto simp: continuation_def)
      with False Cons show ?thesis by (auto simp: Cons_eq_append_conv)
    next
      case True
      define s' where "s' = push_bit 6 s OR (ucast (b AND 0x3F) :: u32)"
      have "(unat s + 1) * 64 \<le> (unat s + 1) * 64 ^ Suc k"
        by (rule mult_le_mono2) simp
      also have "\<dots> \<le> 2 ^ 32" by (rule Suc.prems(2))
      finally have s': "unat s' = unat s * 64 + (unat b - 0x80)"
        unfolding s'_def using True by (intro append_six_bits) auto
      have bound: "(unat s' + 1) * 64 ^ k \<le> 2 ^ 32"
      proof -
        have "unat s' + 1 \<le> (unat s + 1) * 64"
          using s' True by (auto simp: continuation_def)
        then have "(unat s' + 1) * 64 ^ k \<le> (unat s + 1) * 64 * 64 ^ k"
          by (rule mult_le_mono1)
        also have "\<dots> = (unat s + 1) * 64 ^ Suc k" by (simp only: mult.assoc power_Suc)
        also have "\<dots> \<le> 2 ^ 32" by (rule Suc.prems(2))
        finally show ?thesis .
      qed
      have rhs: "(\<exists>cs rest. bs = cs @ rest \<and> length cs = Suc k \<and> (\<forall>c \<in> set cs. continuation c) \<and>
          symbol_ok (symbol_value (unat s) cs) \<and> check_utf8_loop (ready 0) rest) \<longleftrightarrow>
        (\<exists>cs rest. bs' = cs @ rest \<and> length cs = k \<and> (\<forall>c \<in> set cs. continuation c) \<and>
          symbol_ok (symbol_value (unat s') cs) \<and> check_utf8_loop (ready 0) rest)"
        unfolding split_length_Suc [of bs] using True Cons s' by simp
      show ?thesis
      proof (cases "k = 0")
        case True
        then show ?thesis
          unfolding rhs using inside_last [of b s] \<open>continuation b\<close> Cons
          by (auto simp: continuation_def s'_def loop_ready [of "push_bit 6 s OR _"])
      next
        case False
        then have "check_utf8_loop (inside s (Suc k) Valid) bs = check_utf8_loop (inside s' k Valid) bs'"
          using inside_more [of b k Valid s] \<open>continuation b\<close> Cons by (simp add: continuation_def s'_def)
        with False show ?thesis
          unfolding rhs using Suc.IH [OF _ bound] by simp
      qed
    qed
  qed
qed

text \<open>The loop at the start of a symbol, for each class of lead bytes.\<close>

lemma loop_inside_overlong:
  assumes "k \<in> {2, 3, 4, 5}"
  shows "check_utf8_loop (inside s k May_be_overlong) bs \<longleftrightarrow>
           0x80 + 2 ^ (7 - k) \<le> unat (hd bs) \<and> check_utf8_loop (inside s k Valid) bs"
proof (cases bs)
  case Nil
  with assms show ?thesis by (auto simp del: check_utf8_loop.simps(1))
next
  case (Cons b rest)
  consider "\<not> continuation b" | "continuation b" "unat b < 0x80 + 2 ^ (7 - k)"
    | "continuation b" "0x80 + 2 ^ (7 - k) \<le> unat b" by linarith
  then show ?thesis
  proof cases
    case 1
    then have "\<not> check_utf8_loop (inside s k st) (b # rest)" for st
      using assms by (intro loop_reject inside_bad) (auto simp: continuation_def)
    with Cons show ?thesis by simp
  next
    case 2
    then have "\<not> check_utf8_loop (inside s k May_be_overlong) (b # rest)"
      using assms by (intro loop_reject inside_overlong) (auto simp: continuation_def)
    with Cons 2 show ?thesis by simp
  next
    case 3
    then show ?thesis
      using assms Cons inside_not_overlong [of b k s] by (simp add: continuation_def)
  qed
qed

lemma loop_lead:
  assumes step: "process_byte (ready s) b = (True, inside v k (if unat b = e then May_be_overlong else Valid))"
    and k: "k \<in> {2, 3, 4, 5}" and v: "(unat v + 1) * 64 ^ k \<le> 2 ^ 32"
  shows "check_utf8_loop (ready s) (b # bs) \<longleftrightarrow>
     (\<exists>cs rest. bs = cs @ rest \<and> length cs = k \<and>
        (unat b = e \<longrightarrow> 0x80 + 2 ^ (7 - k) \<le> unat (hd cs)) \<and> (\<forall>c \<in> set cs. continuation c) \<and>
        symbol_ok (symbol_value (unat v) cs) \<and> check_utf8_loop (ready 0) rest)"
proof -
  have pos: "0 < k" using k by auto
  have "check_utf8_loop (ready s) (b # bs) \<longleftrightarrow>
      (unat b = e \<longrightarrow> 0x80 + 2 ^ (7 - k) \<le> unat (hd bs)) \<and> check_utf8_loop (inside v k Valid) bs"
    using step by (simp add: loop_inside_overlong [OF k])
  also have "\<dots> \<longleftrightarrow> (unat b = e \<longrightarrow> 0x80 + 2 ^ (7 - k) \<le> unat (hd bs)) \<and>
      (\<exists>cs rest. bs = cs @ rest \<and> length cs = k \<and> (\<forall>c \<in> set cs. continuation c) \<and>
        symbol_ok (symbol_value (unat v) cs) \<and> check_utf8_loop (ready 0) rest)"
    by (simp only: loop_inside [OF pos v])
  also have "\<dots> \<longleftrightarrow> (\<exists>cs rest. bs = cs @ rest \<and> length cs = k \<and>
        (unat b = e \<longrightarrow> 0x80 + 2 ^ (7 - k) \<le> unat (hd cs)) \<and> (\<forall>c \<in> set cs. continuation c) \<and>
        symbol_ok (symbol_value (unat v) cs) \<and> check_utf8_loop (ready 0) rest)"
    by (rule split_length_hd [OF pos])
  finally show ?thesis .
qed

text \<open>Lead bytes \<open>F8\<close> and above start no symbol: five and six byte forms exceed \<open>10FFFF\<close>.\<close>

lemma symbol_value_ge: "v * 64 ^ length cs \<le> symbol_value v cs"
proof (induction cs arbitrary: v)
  case (Cons c cs)
  have "v * 64 * 64 ^ length cs \<le> (v * 64 + (unat c - 0x80)) * 64 ^ length cs"
    by (rule mult_le_mono1) simp
  also have "\<dots> \<le> symbol_value (v * 64 + (unat c - 0x80)) cs" by (rule Cons.IH)
  finally show ?case by (simp add: mult.assoc)
qed simp

lemma symbol_value_overlong_ge:
  assumes "0 < length cs" and "0x80 + m \<le> unat (hd cs)"
  shows "m * 64 ^ (length cs - 1) \<le> symbol_value v cs"
proof (cases cs)
  case (Cons c cs')
  have "m * 64 ^ length cs' \<le> (v * 64 + (unat c - 0x80)) * 64 ^ length cs'"
    using assms Cons by (intro mult_le_mono1) simp
  also have "\<dots> \<le> symbol_value (v * 64 + (unat c - 0x80)) cs'" by (rule symbol_value_ge)
  finally show ?thesis using Cons by simp
qed (use assms in simp)

lemma loop_lead_too_long:
  assumes "0xF8 \<le> unat b"
  shows "\<not> check_utf8_loop (ready s) (b # bs)"
proof -
  consider "unat b < 0xFC" | "0xFC \<le> unat b" "unat b < 0xFE" | "0xFE \<le> unat b" by linarith
  then show ?thesis
  proof cases
    case 1
    have v: "unat (ucast (b AND 0x3) :: u32) = unat b - 0xF8"
      unfolding unat_ucast_byte_32 and_03 using assms 1 by (intro mod_nat_eqI) auto
    have "\<not> symbol_ok (symbol_value (unat b - 0xF8) cs)"
      if "length cs = 4" "unat b = 0xF8 \<longrightarrow> 0x80 + 2 ^ 3 \<le> unat (hd cs)" for cs
    proof (cases "unat b = 0xF8")
      case True
      with that symbol_value_overlong_ge [of cs "2 ^ 3" "unat b - 0xF8"] show ?thesis
        by (simp add: symbol_ok_def)
    next
      case False
      with that assms have "1 * 64 ^ length cs \<le> (unat b - 0xF8) * 64 ^ length cs"
        by (intro mult_le_mono1) simp
      with that symbol_value_ge [of "unat b - 0xF8" cs] show ?thesis by (simp add: symbol_ok_def)
    qed
    then show ?thesis
      using loop_lead [OF ready_lead5 [OF assms 1]] 1 unfolding v by auto
  next
    case 2
    have v: "unat (ucast (b AND 0x1) :: u32) = unat b - 0xFC"
      unfolding unat_ucast_byte_32 and_01 using 2 by (intro mod_nat_eqI) auto
    have "\<not> symbol_ok (symbol_value (unat b - 0xFC) cs)"
      if "length cs = 5" "unat b = 0xFC \<longrightarrow> 0x80 + 2 ^ 2 \<le> unat (hd cs)" for cs
    proof (cases "unat b = 0xFC")
      case True
      with that symbol_value_overlong_ge [of cs "2 ^ 2" "unat b - 0xFC"] show ?thesis
        by (simp add: symbol_ok_def)
    next
      case False
      with that 2 have "1 * 64 ^ length cs \<le> (unat b - 0xFC) * 64 ^ length cs"
        by (intro mult_le_mono1) simp
      with that symbol_value_ge [of "unat b - 0xFC" cs] show ?thesis by (simp add: symbol_ok_def)
    qed
    then show ?thesis
      using loop_lead [OF ready_lead6 [OF 2]] 2 unfolding v by auto
  next
    case 3
    then show ?thesis by (intro loop_reject ready_FE_FF)
  qed
qed

subsection \<open>Accepted symbols are exactly the encodings of scalar values\<close>

lemma digits_64:
  fixes n :: nat
  shows "n div 64 * 64 + n mod 64 = n"
    and "(n div 4096 * 64 + n div 64 mod 64) * 64 + n mod 64 = n"
    and "((n div 262144 * 64 + n div 4096 mod 64) * 64 + n div 64 mod 64) * 64 + n mod 64 = n"
proof -
  have a: "n div 4096 = n div 64 div 64" and b: "n div 262144 = n div 64 div 64 div 64"
    by (simp_all add: div_mult2_eq [symmetric])
  show "n div 64 * 64 + n mod 64 = n" by simp
  show "(n div 4096 * 64 + n div 64 mod 64) * 64 + n mod 64 = n"
    unfolding a by (simp only: div_mult_mod_eq)
  show "((n div 262144 * 64 + n div 4096 mod 64) * 64 + n div 64 mod 64) * 64 + n mod 64 = n"
    unfolding a b by (simp only: div_mult_mod_eq)
qed

lemma encode_2:
  assumes "0xC2 \<le> b" "b < 0xE0" "0x80 \<le> c" "c < 0xC0"
  shows "utf8_encode ((b - 0xC0) * 64 + (c - 0x80)) = [b, c]"
    and "unicode_scalar ((b - 0xC0) * 64 + (c - 0x80))"
proof -
  define x y where "x = b - 0xC0" and "y = c - 0x80"
  have *: "b = 0xC0 + x" "c = 0x80 + y" "2 \<le> x" "x < 32" "y < 64"
    using assms by (auto simp: x_def y_def)
  show "utf8_encode ((b - 0xC0) * 64 + (c - 0x80)) = [b, c]"
    using * by (simp add: utf8_encode_def div_add1_eq)
  show "unicode_scalar ((b - 0xC0) * 64 + (c - 0x80))"
    using * by (simp add: unicode_scalar_def)
qed

lemma encode_3:
  assumes "0xE0 \<le> b" "b < 0xF0" "0x80 \<le> c" "c < 0xC0" "0x80 \<le> d" "d < 0xC0"
    and "b = 0xE0 \<longrightarrow> 0xA0 \<le> c"
  defines "n \<equiv> ((b - 0xE0) * 64 + (c - 0x80)) * 64 + (d - 0x80)"
  assumes "symbol_ok n"
  shows "utf8_encode n = [b, c, d]" and "unicode_scalar n"
proof -
  define x y z where "x = b - 0xE0" and "y = c - 0x80" and "z = d - 0x80"
  have *: "b = 0xE0 + x" "c = 0x80 + y" "d = 0x80 + z" "x < 16" "y < 64" "z < 64" "x = 0 \<longrightarrow> 32 \<le> y"
    and n: "n = x * 4096 + y * 64 + z"
    using assms by (auto simp: x_def y_def z_def algebra_simps)
  have "0x800 \<le> n" "n < 0x10000" using * n by (cases "x = 0"; simp)+
  moreover have "n div 4096 = x" "n div 64 = x * 64 + y" "n mod 64 = z"
    using * n by (auto intro!: div_nat_eqI mod_nat_eqI)
  moreover have "(x * 64 + y) mod 64 = y" using * by simp
  ultimately show "utf8_encode n = [b, c, d]"
    using * by (simp add: utf8_encode_def)
  show "unicode_scalar n"
    using \<open>symbol_ok n\<close> by (auto simp: unicode_scalar_def symbol_ok_def)
qed

lemma encode_4:
  assumes "0xF0 \<le> b" "b < 0xF8" "0x80 \<le> c" "c < 0xC0" "0x80 \<le> d" "d < 0xC0" "0x80 \<le> e" "e < 0xC0"
    and "b = 0xF0 \<longrightarrow> 0x90 \<le> c"
  defines "n \<equiv> (((b - 0xF0) * 64 + (c - 0x80)) * 64 + (d - 0x80)) * 64 + (e - 0x80)"
  assumes "symbol_ok n"
  shows "utf8_encode n = [b, c, d, e]" and "unicode_scalar n"
proof -
  define x y z w where "x = b - 0xF0" and "y = c - 0x80" and "z = d - 0x80" and "w = e - 0x80"
  have *: "b = 0xF0 + x" "c = 0x80 + y" "d = 0x80 + z" "e = 0x80 + w"
      "y < 64" "z < 64" "w < 64" "x = 0 \<longrightarrow> 16 \<le> y"
    and n: "n = x * 262144 + y * 4096 + z * 64 + w"
    using assms by (auto simp: x_def y_def z_def w_def algebra_simps)
  have "0x10000 \<le> n" using * n by (cases "x = 0"; simp)
  moreover have "n div 262144 = x" "n div 4096 = x * 64 + y" "n div 64 = x * 4096 + y * 64 + z" "n mod 64 = w"
    using * n by (auto intro!: div_nat_eqI mod_nat_eqI)
  moreover have "(x * 64 + y) mod 64 = y" "(x * 4096 + y * 64 + z) mod 64 = z"
    using * by (auto intro!: mod_nat_eqI)
  ultimately show "utf8_encode n = [b, c, d, e]"
    using * by (simp add: utf8_encode_def)
  show "unicode_scalar n"
    using \<open>symbol_ok n\<close> by (auto simp: unicode_scalar_def symbol_ok_def)
qed

text \<open>The four accepted classes of lead bytes, with the value the lead byte contributes.\<close>

lemma loop_lead2:
  assumes "0xC2 \<le> unat b" "unat b < 0xE0"
  shows "check_utf8_loop (ready s) (b # bs) \<longleftrightarrow>
    (\<exists>c rest. bs = c # rest \<and> continuation c \<and>
       symbol_ok ((unat b - 0xC0) * 64 + (unat c - 0x80)) \<and> check_utf8_loop (ready 0) rest)"
proof -
  have v: "unat (ucast (b AND 0x1F) :: u32) = unat b - 0xC0"
    unfolding unat_ucast_byte_32 and_1F using assms by (intro mod_nat_eqI) auto
  have "(unat (ucast (b AND 0x1F) :: u32) + 1) * 64 ^ 1 \<le> 2 ^ 32"
    unfolding v using assms by simp
  from loop_inside [OF _ this, of bs] show ?thesis
    using ready_lead2 [OF assms] unfolding v split_length by simp
qed

lemma loop_lead3:
  assumes "0xE0 \<le> unat b" "unat b < 0xF0"
  shows "check_utf8_loop (ready s) (b # bs) \<longleftrightarrow>
    (\<exists>c d rest. bs = c # d # rest \<and> (unat b = 0xE0 \<longrightarrow> 0xA0 \<le> unat c) \<and> continuation c \<and> continuation d \<and>
       symbol_ok (((unat b - 0xE0) * 64 + (unat c - 0x80)) * 64 + (unat d - 0x80)) \<and>
       check_utf8_loop (ready 0) rest)"
proof -
  have v: "unat (ucast (b AND 0xF) :: u32) = unat b - 0xE0"
    unfolding unat_ucast_byte_32 and_0F using assms by (intro mod_nat_eqI) auto
  have "(unat (ucast (b AND 0xF) :: u32) + 1) * 64 ^ 2 \<le> 2 ^ 32"
    unfolding v using assms by simp
  from loop_lead [OF ready_lead3 [OF assms] _ this, of s bs] show ?thesis
    unfolding v split_length by simp
qed

lemma loop_lead4:
  assumes "0xF0 \<le> unat b" "unat b < 0xF8"
  shows "check_utf8_loop (ready s) (b # bs) \<longleftrightarrow>
    (\<exists>c d e rest. bs = c # d # e # rest \<and> (unat b = 0xF0 \<longrightarrow> 0x90 \<le> unat c) \<and>
       continuation c \<and> continuation d \<and> continuation e \<and>
       symbol_ok ((((unat b - 0xF0) * 64 + (unat c - 0x80)) * 64 + (unat d - 0x80)) * 64 + (unat e - 0x80)) \<and>
       check_utf8_loop (ready 0) rest)"
proof -
  have v: "unat (ucast (b AND 0x7) :: u32) = unat b - 0xF0"
    unfolding unat_ucast_byte_32 and_07 using assms by (intro mod_nat_eqI) auto
  have "(unat (ucast (b AND 0x7) :: u32) + 1) * 64 ^ 3 \<le> 2 ^ 32"
    unfolding v using assms by simp
  from loop_lead [OF ready_lead4 [OF assms] _ this, of s bs] show ?thesis
    unfolding v split_length by simp
qed

lemma loop_sound:
  assumes "check_utf8_loop (ready s) (b # bs)"
  shows "\<exists>n cs rest. unicode_scalar n \<and> map unat cs = utf8_encode n \<and> b # bs = cs @ rest \<and>
           check_utf8_loop (ready 0) rest"
proof -
  consider "unat b < 0x80" | "0x80 \<le> unat b" "unat b < 0xC2" | "0xC2 \<le> unat b" "unat b < 0xE0"
    | "0xE0 \<le> unat b" "unat b < 0xF0" | "0xF0 \<le> unat b" "unat b < 0xF8" | "0xF8 \<le> unat b"
    by linarith
  then show ?thesis
  proof cases
    case 1
    then have "check_utf8_loop (ready 0) bs"
      using assms ready_ascii [of b s] loop_ready [of "ucast b"] by simp
    with 1 show ?thesis
      by (intro exI [of _ "unat b"] exI [of _ "[b]"] exI [of _ bs])
        (simp add: unicode_scalar_def utf8_encode_def)
  next
    case 2
    with assms loop_reject [OF ready_continuation] show ?thesis by blast
  next
    case 3
    with assms loop_lead2 obtain c rest where *: "bs = c # rest" "continuation c" "check_utf8_loop (ready 0) rest"
      by blast
    with 3 encode_2 [of "unat b" "unat c"] show ?thesis
      by (intro exI [of _ "(unat b - 0xC0) * 64 + (unat c - 0x80)"] exI [of _ "[b, c]"] exI [of _ rest])
        (simp add: continuation_def)
  next
    case 4
    define n where "n c d = ((unat b - 0xE0) * 64 + (unat c - 0x80)) * 64 + (unat d - 0x80)" for c d :: u8
    from assms loop_lead3 [OF 4] obtain c d rest
      where *: "bs = c # d # rest" "continuation c" "continuation d" "unat b = 0xE0 \<longrightarrow> 0xA0 \<le> unat c"
        "symbol_ok (n c d)" "check_utf8_loop (ready 0) rest"
      unfolding n_def by blast
    with 4 encode_3 [of "unat b" "unat c" "unat d"] show ?thesis
      by (intro exI [of _ "n c d"] exI [of _ "[b, c, d]"] exI [of _ rest])
        (simp add: continuation_def n_def)
  next
    case 5
    define n where "n c d e = (((unat b - 0xF0) * 64 + (unat c - 0x80)) * 64 + (unat d - 0x80)) * 64 + (unat e - 0x80)"
      for c d e :: u8
    from assms loop_lead4 [OF 5] obtain c d e rest
      where *: "bs = c # d # e # rest" "continuation c" "continuation d" "continuation e"
        "unat b = 0xF0 \<longrightarrow> 0x90 \<le> unat c" "symbol_ok (n c d e)" "check_utf8_loop (ready 0) rest"
      unfolding n_def by blast
    with 5 encode_4 [of "unat b" "unat c" "unat d" "unat e"] show ?thesis
      by (intro exI [of _ "n c d e"] exI [of _ "[b, c, d, e]"] exI [of _ rest])
        (simp add: continuation_def n_def)
  next
    case 6
    with assms loop_lead_too_long show ?thesis by blast
  qed
qed

lemma loop_complete:
  assumes n: "unicode_scalar n" and cs: "map unat cs = utf8_encode n" and rest: "check_utf8_loop (ready 0) rest"
  shows "check_utf8_loop (ready s) (cs @ rest)"
proof -
  have ok: "symbol_ok n" using n by (auto simp: unicode_scalar_def symbol_ok_def)
  consider "n < 0x80" | "0x80 \<le> n" "n < 0x800" | "0x800 \<le> n" "n < 0x10000" | "0x10000 \<le> n" "n < 0x110000"
    using n by (fastforce simp: unicode_scalar_def)
  then show ?thesis
  proof cases
    case 1
    then obtain b where "cs = [b]" "unat b = n" using cs by (auto simp: utf8_encode_def)
    with 1 rest show ?thesis using ready_ascii [of b s] loop_ready [of "ucast b"] by simp
  next
    case 2
    then obtain b c where *: "cs = [b, c]" "unat b = 0xC0 + n div 64" "unat c = 0x80 + n mod 64"
      using cs by (auto simp: utf8_encode_def)
    have "2 \<le> n div 64" "n div 64 < 32" "n mod 64 < 64" using 2 by auto
    with * ok rest show ?thesis
      using loop_lead2 [of b s "c # rest"] digits_64(1) [of n] by (simp add: continuation_def)
  next
    case 3
    then obtain b c d where *: "cs = [b, c, d]" "unat b = 0xE0 + n div 4096"
        "unat c = 0x80 + n div 64 mod 64" "unat d = 0x80 + n mod 64"
      using cs by (auto simp: utf8_encode_def)
    have d: "n div 4096 < 16" "n div 64 mod 64 < 64" "n mod 64 < 64" using 3 by auto
    have o: "n div 4096 = 0 \<Longrightarrow> 32 \<le> n div 64 mod 64"
      using 3 by (simp add: div_eq_0_iff)
    from * ok rest d o show ?thesis
      using loop_lead3 [of b s "c # d # rest"] digits_64(2) [of n] by (simp add: continuation_def)
  next
    case 4
    then obtain b c d e where *: "cs = [b, c, d, e]" "unat b = 0xF0 + n div 262144"
        "unat c = 0x80 + n div 4096 mod 64" "unat d = 0x80 + n div 64 mod 64" "unat e = 0x80 + n mod 64"
      using cs by (auto simp: utf8_encode_def)
    have d: "n div 262144 < 8" "n div 4096 mod 64 < 64" "n div 64 mod 64 < 64" "n mod 64 < 64" using 4 by auto
    have o: "n div 262144 = 0 \<Longrightarrow> 16 \<le> n div 4096 mod 64"
      using 4 by (simp add: div_eq_0_iff)
    from * ok rest d o show ?thesis
      using loop_lead4 [of b s "c # d # e # rest"] digits_64(3) [of n] by (simp add: continuation_def)
  qed
qed

lemma loop_iff_utf8_text: "check_utf8_loop (ready s) bs \<longleftrightarrow> utf8_text (map unat bs)"
proof
  show "utf8_text (map unat bs)" if "check_utf8_loop (ready s) bs"
    using that
  proof (induction "length bs" arbitrary: bs s rule: less_induct)
    case less
    show ?case
    proof (cases bs)
      case (Cons b bs')
      with loop_sound less.prems obtain n cs rest where *: "unicode_scalar n" "map unat cs = utf8_encode n"
          "bs = cs @ rest" "check_utf8_loop (ready 0) rest" by blast
      then have "cs \<noteq> []" by (auto simp: utf8_encode_def split: if_splits)
      with * have "utf8_text (map unat rest)" by (intro less.hyps) auto
      with * show ?thesis by (simp add: utf8_text_append)
    qed simp
  qed
  show "check_utf8_loop (ready s) bs" if "utf8_text (map unat bs)"
  proof -
    from that obtain cps where "\<forall>n \<in> set cps. unicode_scalar n" "map unat bs = concat (map utf8_encode cps)"
      by (auto simp: utf8_text_def)
    then show ?thesis
    proof (induction cps arbitrary: bs s)
      case Nil
      then show ?case by (simp del: check_utf8_loop.simps(1))
    next
      case (Cons n cps)
      then obtain cs rest where "bs = cs @ rest" "map unat cs = utf8_encode n"
          "map unat rest = concat (map utf8_encode cps)"
        by (auto simp: map_eq_append_conv)
      with Cons.prems Cons.IH [of rest 0] loop_complete [of n cs rest s] show ?case by simp
    qed
  qed
qed

lemma utf8_checker_init_eq: "utf8_checker_init = ready 0"
  by (simp add: utf8_checker_init_def ready_def)

subsection \<open>Feeding bytes to the UTF-8 checker\<close>

fun utf8_feed :: "utf8_checker \<Rightarrow> u8 list \<Rightarrow> utf8_checker option" where
  "utf8_feed c [] = Some c"
| "utf8_feed c (b # bs) = (let (ok, c) = process_byte c b in if ok then utf8_feed c bs else None)"

lemma check_utf8_loop_feed:
  "check_utf8_loop c bs = (case utf8_feed c bs of None \<Rightarrow> False | Some c \<Rightarrow> finalized c)"
  by (induction c bs rule: utf8_feed.induct) (auto split: prod.splits option.splits)

lemma utf8_feed_append:
  "utf8_feed c (xs @ ys) = (case utf8_feed c xs of None \<Rightarrow> None | Some c \<Rightarrow> utf8_feed c ys)"
  by (induction c xs rule: utf8_feed.induct) (auto split: prod.splits)

text \<open>A checker that has refused nothing is in the state \<open>Valid\<close> between two symbols.\<close>

definition checker_ok :: "utf8_checker \<Rightarrow> bool" where
  "checker_ok c \<longleftrightarrow> m_state c = Valid \<or> (m_state c = May_be_overlong \<and> 0 < m_current_symbol_rest_bytes c)"

lemma checker_ok_inside: "0 < k \<Longrightarrow> st = Valid \<or> st = May_be_overlong \<Longrightarrow> checker_ok (inside s k st)"
  by (auto simp: checker_ok_def inside_def)

lemma ready_checker_ok:
  assumes "fst (process_byte (ready s) b)"
  shows "checker_ok (snd (process_byte (ready s) b))"
proof -
  consider "unat b < 0x80" | "0xC2 \<le> unat b" "unat b < 0xE0" | "0xE0 \<le> unat b" "unat b < 0xF0"
    | "0xF0 \<le> unat b" "unat b < 0xF8" | "0xF8 \<le> unat b" "unat b < 0xFC" | "0xFC \<le> unat b" "unat b < 0xFE"
    using assms ready_continuation [of b s] ready_FE_FF [of b s] by linarith
  then show ?thesis
    by cases (simp_all add: ready_ascii ready_lead2 ready_lead3 ready_lead4 ready_lead5 ready_lead6
        checker_ok_inside, simp add: checker_ok_def ready_def)
qed

lemma process_byte_checker_ok:
  assumes "checker_ok c" "fst (process_byte c b)"
  shows "checker_ok (snd (process_byte c b))"
proof (cases "0 < m_current_symbol_rest_bytes c")
  case True
  have "m_state (check_overlong c b) \<noteq> May_be_overlong \<or> \<not> (0x80 \<le> unat b \<and> unat b < 0xC0)"
    using True by (auto simp: check_overlong_def Let_def)
  with True assms show ?thesis
    by (auto simp: process_byte_def checker_ok_def Let_def mask_simps validate_current_symbol_def
        split: if_splits)
next
  case False
  with assms(1) have "c = ready (m_current_symbol c)" by (simp add: checker_ok_def ready_def)
  then show ?thesis using assms(2) ready_checker_ok by metis
qed

lemma utf8_feed_checker_ok: "utf8_feed c bs = Some c' \<Longrightarrow> checker_ok c \<Longrightarrow> checker_ok c'"
proof (induction c bs rule: utf8_feed.induct)
  case (2 c b bs)
  then show ?case using process_byte_checker_ok [of c b] by (auto split: prod.splits if_splits)
qed simp

lemma checker_ok_ready: "checker_ok (ready s)"
  by (simp add: checker_ok_def ready_def)

lemma finalized_checker_ok: "checker_ok c \<Longrightarrow> finalized c \<Longrightarrow> utf8_reset c = ready 0"
  by (simp add: checker_ok_def finalized_def utf8_reset_def ready_def)

lemma reset_refuses:
  assumes "m_state c = Invalid \<or> m_state c = Overlong" and "unat byte < 0x80"
  shows "fst (process_byte (utf8_reset c) byte) = False"
  using assms unfolding step_unfold utf8_reset_def lead_byte_eqs by auto

subsection \<open>Properties\<close>

text \<open>
  C25: the checker accepts a byte string exactly when it is well-formed UTF-8 in the sense of
  Unicode, that is a concatenation of encodings of scalar values: overlong forms, surrogates,
  values above 10FFFF, stray continuation bytes and truncated symbols are all refused, and every
  encoding of a scalar value is accepted.
\<close>

theorem check_utf8_is_correct_iff: "check_utf8_is_correct sv \<longleftrightarrow> utf8_text (map of_char sv)"
  by (simp add: check_utf8_is_correct_def utf8_checker_init_eq loop_iff_utf8_text comp_def unat_byte_of_char)

text \<open>
  \<^verbatim>\<open>reset\<close> does not restore the verdict. A checker that has refused a byte (its state is
  invalid or overlong) refuses every ASCII byte it is fed after a \<^verbatim>\<open>reset\<close>, although a fresh
  checker accepts it.
\<close>

theorem utf8_reset_keeps_verdict:
  assumes "m_state c = Invalid \<or> m_state c = Overlong" and "unat byte < 0x80"
  shows "fst (process_byte (utf8_reset c) byte) = False \<and> fst (process_byte utf8_checker_init byte) = True"
proof
  show "fst (process_byte (utf8_reset c) byte) = False"
    using assms by (rule reset_refuses)
  show "fst (process_byte utf8_checker_init byte) = True"
    using assms(2) ready_ascii [of byte 0] by (simp add: utf8_checker_init_eq)
qed

theorem utf8_reset_keeps_verdict_witness:
  "(let c = snd (process_byte utf8_checker_init 0xFF)
    in m_state c = Invalid \<and> fst (process_byte (utf8_reset c) 0x41) = False)"
proof -
  have "m_state (snd (process_byte utf8_checker_init 0xFF)) = Invalid" by code_simp
  then show ?thesis
    using utf8_reset_keeps_verdict [of "snd (process_byte utf8_checker_init 0xFF)" "0x41"] by simp
qed

end
