(* ===== verification/Percent_Encoding.thy ===== *)
theory Percent_Encoding
  imports Utf8
begin

text \<open>
  \<^verbatim>\<open>restinio/utils/percent_encoding.hpp\<close>: escaping and unescaping of query strings, in place and
  into a new string, and the normalisation of unreserved characters in a URI.

  The traits classes are predicates on characters. \<^verbatim>\<open>do_unescape_percent_encoding\<close> is a template
  over a collector that may write into the very memory that is being read, so the model is a loop
  over positions with an explicit state: \<open>rd s i\<close> reads the character at position \<open>i\<close> of the
  current memory and \<open>collector\<close> changes the state. The failure descriptions are values that
  carry the position.

  \<^verbatim>\<open>fmt::format\<close> is not part of the sources: the text of \<^verbatim>\<open>{:02X}\<close> for a character is the argument
  \<open>fmt_02X\<close> of \<open>escape_percent_encoding\<close>.
\<close>

subsection \<open>Traits\<close>

definition char_between :: "char \<Rightarrow> char \<Rightarrow> char \<Rightarrow> bool" where
  "char_between lo c hi \<longleftrightarrow> (of_char lo :: nat) \<le> of_char c \<and> (of_char c :: nat) \<le> of_char hi"

definition restinio_default_unescape_traits :: "char \<Rightarrow> bool" where
  "restinio_default_unescape_traits c \<longleftrightarrow>
     char_between CHR ''0'' c CHR ''9'' \<or> char_between CHR ''a'' c CHR ''z'' \<or> char_between CHR ''A'' c CHR ''Z'' \<or>
     c = CHR ''-'' \<or> c = CHR ''.'' \<or> c = CHR ''~'' \<or> c = CHR ''_''"

definition x_www_form_urlencoded_unescape_traits :: "char \<Rightarrow> bool" where
  "x_www_form_urlencoded_unescape_traits c \<longleftrightarrow>
     char_between CHR ''0'' c CHR ''9'' \<or> char_between CHR ''a'' c CHR ''z'' \<or> char_between CHR ''A'' c CHR ''Z'' \<or>
     c = CHR ''*'' \<or> c = CHR ''-'' \<or> c = CHR ''.'' \<or> c = CHR ''_''"

text \<open>\<^verbatim>\<open>strchr\<close> also finds the terminating zero of the string.\<close>

definition relaxed_unescape_traits :: "char \<Rightarrow> bool" where
  "relaxed_unescape_traits c \<longleftrightarrow>
     c \<in> set ('' '' @ ''ABCDEFGHIJKLMNOPQRSTUVWXYZ'' @ ''abcdefghijklmnopqrstuvwxyz'' @ ''0123456789'' @ ''-._~'' @
       '':/?#[]@'' @ [CHR ''!'', CHR 0x24, CHR ''&'', CHR 0x27, CHR ''('', CHR '')'', CHR ''*'', CHR ''+'', CHR '','',
         CHR '';'', CHR ''=''] @ [CHR 0x00])"

definition javascript_compatible_unescape_traits :: "char \<Rightarrow> bool" where
  "javascript_compatible_unescape_traits c \<longleftrightarrow>
     char_between CHR ''0'' c CHR ''9'' \<or> char_between CHR ''a'' c CHR ''z'' \<or> char_between CHR ''A'' c CHR ''Z'' \<or>
     c = CHR ''-'' \<or> c = CHR ''.'' \<or> c = CHR ''~'' \<or> c = CHR ''_'' \<or> c = CHR ''*'' \<or> c = CHR ''!'' \<or>
     c = CHR 0x27 \<or> c = CHR ''('' \<or> c = CHR '')''"

subsection \<open>Unescaping\<close>

definition is_hexdigit :: "char \<Rightarrow> bool" where
  "is_hexdigit c \<longleftrightarrow>
     char_between CHR ''0'' c CHR ''9'' \<or> char_between CHR ''a'' c CHR ''f'' \<or> char_between CHR ''A'' c CHR ''F''"

definition extract_escaped_char :: "char \<Rightarrow> char \<Rightarrow> u8" where
  "extract_escaped_char c1 c2 =
     (let result = (if char_between CHR ''0'' c1 CHR ''9'' then byte_of_char c1 - byte_of_char CHR ''0''
                    else 10 + (byte_of_char c1 OR 0x20) - byte_of_char CHR ''a'');
          result = push_bit 4 result
      in if char_between CHR ''0'' c2 CHR ''9'' then result + (byte_of_char c2 - byte_of_char CHR ''0'')
         else result + (10 + (byte_of_char c2 OR 0x20) - byte_of_char CHR ''a''))"

datatype unescape_failure =
    Next_utf8_byte_expected nat
  | Invalid_utf8_sequence nat
  | Invalid_escape_sequence nat
  | Invalid_non_escaped_char char nat
  | Unfinished_utf8_sequence

function do_unescape_percent_encoding ::
    "(char \<Rightarrow> bool) \<Rightarrow> ('s \<Rightarrow> nat \<Rightarrow> char) \<Rightarrow> (char \<Rightarrow> 's \<Rightarrow> 's) \<Rightarrow> nat \<Rightarrow>
       nat \<Rightarrow> utf8_checker \<Rightarrow> bool \<Rightarrow> 's \<Rightarrow> (unescape_failure + unit) \<times> 's" where
  "do_unescape_percent_encoding ordinary_char rd collector sz d utf8_checker expect_next_utf8_byte s =
     (if \<not> d < sz then
        (if expect_next_utf8_byte then (Inl Unfinished_utf8_sequence, s) else (Inr (), s))
      else
        let c = rd s d
        in if expect_next_utf8_byte \<and> c \<noteq> CHR ''%'' then (Inl (Next_utf8_byte_expected d), s)
           else if c = CHR ''%'' then
             (if 3 \<le> sz - d \<and> is_hexdigit (rd s (d + 1)) \<and> is_hexdigit (rd s (d + 2)) then
                (let ch = extract_escaped_char (rd s (d + 1)) (rd s (d + 2));
                     (ok, utf8_checker) = process_byte utf8_checker ch
                 in if \<not> ok then (Inl (Invalid_utf8_sequence d), s)
                    else
                      let s = collector (char_of_byte ch) s;
                          expect_next_utf8_byte = (\<not> finalized utf8_checker);
                          utf8_checker = (if \<not> expect_next_utf8_byte then utf8_reset utf8_checker else utf8_checker)
                      in do_unescape_percent_encoding ordinary_char rd collector sz (d + 3)
                           utf8_checker expect_next_utf8_byte s)
              else (Inl (Invalid_escape_sequence d), s))
           else if c = CHR ''+'' then
             do_unescape_percent_encoding ordinary_char rd collector sz (d + 1)
               utf8_checker expect_next_utf8_byte (collector CHR '' '' s)
           else if ordinary_char c then
             do_unescape_percent_encoding ordinary_char rd collector sz (d + 1)
               utf8_checker expect_next_utf8_byte (collector c s)
           else (Inl (Invalid_non_escaped_char c d), s))"
  by auto
termination
  by (relation "measure (\<lambda>(_, _, _, sz, d, _). sz - d)") auto

declare do_unescape_percent_encoding.simps [simp del]

text \<open>The collector that appends to a string, and the one that writes back into the source.\<close>

definition try_unescape_percent_encoding :: "(char \<Rightarrow> bool) \<Rightarrow> string \<Rightarrow> unescape_failure + string" where
  "try_unescape_percent_encoding ordinary_char data =
     (case do_unescape_percent_encoding ordinary_char (\<lambda>_ i. data ! i) (\<lambda>ch result. result @ [ch])
             (length data) 0 utf8_checker_init False [] of
        (Inl e, _) \<Rightarrow> Inl e
      | (Inr _, result) \<Rightarrow> Inr result)"

definition unescape_percent_encoding :: "(char \<Rightarrow> bool) \<Rightarrow> string \<Rightarrow> unescape_failure + string" where
  "unescape_percent_encoding ordinary_char data =
     (case do_unescape_percent_encoding ordinary_char (\<lambda>_ i. data ! i) (\<lambda>ch result. result @ [ch])
             (length data) 0 utf8_checker_init False [] of
        (Inl e, _) \<Rightarrow> Inl e
      | (Inr _, result) \<Rightarrow> Inr result)"

definition write_dest :: "char \<Rightarrow> string \<times> nat \<Rightarrow> string \<times> nat" where
  "write_dest ch s = ((fst s)[snd s := ch], Suc (snd s))"

definition try_inplace_unescape_percent_encoding ::
    "(char \<Rightarrow> bool) \<Rightarrow> string \<Rightarrow> (unescape_failure + nat) \<times> string" where
  "try_inplace_unescape_percent_encoding ordinary_char data =
     (case do_unescape_percent_encoding ordinary_char (\<lambda>s i. fst s ! i) write_dest
             (length data) 0 utf8_checker_init False (data, 0) of
        (Inl e, s) \<Rightarrow> (Inl e, fst s)
      | (Inr _, s) \<Rightarrow> (Inr (snd s), fst s))"

definition inplace_unescape_percent_encoding ::
    "(char \<Rightarrow> bool) \<Rightarrow> string \<Rightarrow> (unescape_failure + nat) \<times> string" where
  "inplace_unescape_percent_encoding ordinary_char data =
     (case do_unescape_percent_encoding ordinary_char (\<lambda>s i. fst s ! i) write_dest
             (length data) 0 utf8_checker_init False (data, 0) of
        (Inl e, s) \<Rightarrow> (Inl e, fst s)
      | (Inr _, s) \<Rightarrow> (Inr (snd s), fst s))"

subsection \<open>Escaping\<close>

definition escape_percent_encoding :: "(char \<Rightarrow> string) \<Rightarrow> (char \<Rightarrow> bool) \<Rightarrow> string \<Rightarrow> string" where
  "escape_percent_encoding fmt_02X ordinary_char data =
     (let escaped_chars_count = length (filter (\<lambda>c. \<not> ordinary_char c) data)
      in if 0 = escaped_chars_count then data
         else concat (map (\<lambda>c. if ordinary_char c then [c] else CHR ''%'' # fmt_02X c) data))"

subsection \<open>Normalisation of unreserved characters\<close>

definition is_unreserved_char :: "char \<Rightarrow> bool" where
  "is_unreserved_char ch = restinio_default_unescape_traits ch"

fun run_normalization_algo ::
    "(char \<Rightarrow> 's \<Rightarrow> 's) \<Rightarrow> (char \<Rightarrow> char \<Rightarrow> char \<Rightarrow> 's \<Rightarrow> 's) \<Rightarrow>
       nat \<Rightarrow> utf8_checker \<Rightarrow> bool \<Rightarrow> string \<Rightarrow> 's \<Rightarrow> (unescape_failure + unit) \<times> 's" where
  "run_normalization_algo one_byte_handler three_byte_handler pos utf8_checker expect_next_utf8_byte [] s =
     (if expect_next_utf8_byte then (Inl Unfinished_utf8_sequence, s) else (Inr (), s))"
| "run_normalization_algo one_byte_handler three_byte_handler pos utf8_checker expect_next_utf8_byte (c # what) s =
     (if expect_next_utf8_byte \<and> c \<noteq> CHR ''%'' then (Inl (Next_utf8_byte_expected pos), s)
      else if c \<noteq> CHR ''%'' then
        run_normalization_algo one_byte_handler three_byte_handler (pos + 1) utf8_checker expect_next_utf8_byte
          what (one_byte_handler c s)
      else case what of
        c1 # c2 # rest \<Rightarrow>
          (if is_hexdigit c1 \<and> is_hexdigit c2 then
             (let ch = extract_escaped_char c1 c2;
                  (ok, utf8_checker) = process_byte utf8_checker ch
              in if \<not> ok then (Inl (Invalid_utf8_sequence pos), s)
                 else
                   let keep_three_bytes = True;
                       (expect_next_utf8_byte, utf8_checker, keep_three_bytes, s) =
                         (if finalized utf8_checker then
                            (let symbol = m_current_symbol utf8_checker;
                                 utf8_checker = utf8_reset utf8_checker
                             in if symbol < 0x80 \<and> is_unreserved_char (char_of_byte (ucast symbol))
                                then (False, utf8_checker, False, one_byte_handler (char_of_byte (ucast symbol)) s)
                                else (False, utf8_checker, keep_three_bytes, s))
                          else (True, utf8_checker, keep_three_bytes, s));
                       s = (if keep_three_bytes then three_byte_handler c c1 c2 s else s)
                   in run_normalization_algo one_byte_handler three_byte_handler (pos + 3)
                        utf8_checker expect_next_utf8_byte rest s)
           else (Inl (Invalid_escape_sequence pos), s))
      | _ \<Rightarrow> (Inl (Invalid_escape_sequence pos), s))"

definition estimate_required_capacity :: "string \<Rightarrow> unescape_failure + nat" where
  "estimate_required_capacity what =
     (case run_normalization_algo (\<lambda>_ n. n + 1) (\<lambda>_ _ _ n. n + 3) 0 utf8_checker_init False what 0 of
        (Inl e, _) \<Rightarrow> Inl e
      | (Inr _, calculated_capacity) \<Rightarrow> Inr calculated_capacity)"

definition write_dest_3 :: "char \<Rightarrow> char \<Rightarrow> char \<Rightarrow> string \<times> nat \<Rightarrow> string \<times> nat" where
  "write_dest_3 ch1 ch2 ch3 s =
     ((fst s)[snd s := ch1, snd s + 1 := ch2, snd s + 2 := ch3], snd s + 3)"

text \<open>The state is the destination buffer and the position in it.\<close>

definition normalize_to :: "string \<Rightarrow> string \<Rightarrow> (unescape_failure + unit) \<times> string \<times> nat" where
  "normalize_to what dest =
     run_normalization_algo write_dest write_dest_3 0 utf8_checker_init False what (dest, 0)"

subsection \<open>The loop as a function of the remaining text\<close>

fun unescape_list ::
    "(char \<Rightarrow> bool) \<Rightarrow> nat \<Rightarrow> utf8_checker \<Rightarrow> bool \<Rightarrow> string \<Rightarrow> (unescape_failure + unit) \<times> string" where
  "unescape_list ordinary_char pos u expect [] =
     (if expect then (Inl Unfinished_utf8_sequence, []) else (Inr (), []))"
| "unescape_list ordinary_char pos u expect (c # data) =
     (if expect \<and> c \<noteq> CHR ''%'' then (Inl (Next_utf8_byte_expected pos), [])
      else if c = CHR ''%'' then
        (case data of
           c1 # c2 # rest \<Rightarrow>
             (if is_hexdigit c1 \<and> is_hexdigit c2 then
                (case process_byte u (extract_escaped_char c1 c2) of
                   (False, _) \<Rightarrow> (Inl (Invalid_utf8_sequence pos), [])
                 | (True, u) \<Rightarrow>
                     (let (r, out) = unescape_list ordinary_char (pos + 3)
                        (if finalized u then utf8_reset u else u) (\<not> finalized u) rest
                      in (r, char_of_byte (extract_escaped_char c1 c2) # out)))
              else (Inl (Invalid_escape_sequence pos), []))
         | _ \<Rightarrow> (Inl (Invalid_escape_sequence pos), []))
      else if c = CHR ''+'' then
        (let (r, out) = unescape_list ordinary_char (pos + 1) u expect data in (r, CHR '' '' # out))
      else if ordinary_char c then
        (let (r, out) = unescape_list ordinary_char (pos + 1) u expect data in (r, c # out))
      else (Inl (Invalid_non_escaped_char c pos), []))"

text \<open>
  What the loop needs from a collector: at position \<open>d\<close> the memory from \<open>d\<close> on still holds the
  source text, and collecting a character never disturbs what is to be read later.
\<close>

locale chars_collector =
  fixes rd :: "'s \<Rightarrow> nat \<Rightarrow> char"
    and collector :: "char \<Rightarrow> 's \<Rightarrow> 's"
    and inv :: "nat \<Rightarrow> 's \<Rightarrow> bool"
    and data :: string
  assumes read: "inv d s \<Longrightarrow> d \<le> i \<Longrightarrow> i < length data \<Longrightarrow> rd s i = data ! i"
    and collect: "inv d s \<Longrightarrow> d < e \<Longrightarrow> inv e (collector ch s)"
begin

lemma do_unescape_list:
  assumes "inv d s"
  shows "do_unescape_percent_encoding ordinary_char rd collector (length data) d u expect s =
    (let (r, out) = unescape_list ordinary_char d u expect (drop d data) in (r, fold collector out s))"
  using assms
proof (induction "length data - d" arbitrary: d u expect s rule: less_induct)
  case less
  note step = do_unescape_percent_encoding.simps [of ordinary_char rd collector "length data" d u expect s]
  show ?case
  proof (cases "d < length data")
    case False
    then show ?thesis by (simp add: step)
  next
    case True
    let ?rest = "drop (Suc d) data"
    have drop: "drop d data = data ! d # ?rest" using True by (simp add: Cons_nth_drop_Suc)
    have rd: "rd s d = data ! d" using less.prems True by (intro read) auto
    have one: "do_unescape_percent_encoding ordinary_char rd collector (length data) (Suc d) u e (collector ch s) =
        (let (r, out) = unescape_list ordinary_char (Suc d) u e ?rest in (r, fold collector out (collector ch s)))" for ch e
      using True less.prems by (intro less.hyps collect [of d]) auto
    show ?thesis
    proof (cases "data ! d = CHR ''%''")
      case False
      then show ?thesis using one by (simp add: step True rd drop Let_def case_prod_beta)
    next
      case percent: True
      show ?thesis
      proof (cases "3 \<le> length data - d")
        case False
        then have "\<not> (\<exists>c1 c2 rest. ?rest = c1 # c2 # rest)" by (auto dest: arg_cong [where f = length])
        with False percent show ?thesis
          by (auto simp: step True rd drop split: list.splits)
      next
        case three: True
        then have rest: "?rest = data ! (d + 1) # data ! (d + 2) # drop (d + 3) data"
          by (simp add: Cons_nth_drop_Suc numeral_3_eq_3)
        have rds: "rd s (d + 1) = data ! (d + 1)" "rd s (d + 2) = data ! (d + 2)"
          using less.prems three by (auto intro: read)
        have more: "do_unescape_percent_encoding ordinary_char rd collector (length data) (d + 3) u' e' (collector ch s) =
            (let (r, out) = unescape_list ordinary_char (d + 3) u' e' (drop (d + 3) data)
             in (r, fold collector out (collector ch s)))" for u' e' ch
          using True less.prems by (intro less.hyps collect [of d]) auto
        have body: "do_unescape_percent_encoding ordinary_char rd collector (length data) d u expect s =
          (if is_hexdigit (data ! (d + 1)) \<and> is_hexdigit (data ! (d + 2)) then
             (case process_byte u (extract_escaped_char (data ! (d + 1)) (data ! (d + 2))) of
                (ok, u') \<Rightarrow> if \<not> ok then (Inl (Invalid_utf8_sequence d), s)
                 else do_unescape_percent_encoding ordinary_char rd collector (length data) (d + 3)
                   (if finalized u' then utf8_reset u' else u') (\<not> finalized u')
                   (collector (char_of_byte (extract_escaped_char (data ! (d + 1)) (data ! (d + 2)))) s))
           else (Inl (Invalid_escape_sequence d), s))"
          unfolding step using True three percent by (simp only: rd rds Let_def) (simp add: case_prod_beta)
        show ?thesis
          unfolding body more drop rest percent
          by (simp add: case_prod_beta Let_def split: bool.splits prod.splits)
      qed
    qed
  qed
qed

end

interpretation append_chars: chars_collector "\<lambda>_ i. data ! i" "\<lambda>ch result. result @ [ch]" "\<lambda>_ _. True" data
  for data :: string
  by unfold_locales auto

definition inplace_inv :: "string \<Rightarrow> nat \<Rightarrow> string \<times> nat \<Rightarrow> bool" where
  "inplace_inv data d s \<longleftrightarrow>
     length (fst s) = length data \<and> snd s \<le> d \<and> (\<forall>i. d \<le> i \<and> i < length data \<longrightarrow> fst s ! i = data ! i)"

interpretation inplace: chars_collector "\<lambda>s i. fst s ! i" write_dest "inplace_inv data" data
  for data :: string
  by unfold_locales (auto simp: inplace_inv_def write_dest_def)

lemma fold_append_chars: "fold (\<lambda>ch result. result @ [ch]) out s = s @ out"
  by (induction out arbitrary: s) auto

lemma fold_write_dest:
  assumes "snd s + length out \<le> length (fst s)"
  shows "fold write_dest out s =
    (take (snd s) (fst s) @ out @ drop (snd s + length out) (fst s), snd s + length out)"
  using assms
proof (induction out arbitrary: s)
  case (Cons ch out)
  have "take (Suc (snd s)) ((fst s)[snd s := ch]) = take (snd s) (fst s) @ [ch]"
    using Cons.prems by (simp add: take_Suc_conv_app_nth)
  with Cons show ?case by (simp add: write_dest_def)
qed simp

lemma unescape_list_induct [case_names Nil char percent]:
  assumes "\<And>pos u expect. P pos u expect []"
    and "\<And>pos u expect c data. c \<noteq> CHR ''%'' \<Longrightarrow> (\<And>pos u expect. P pos u expect data) \<Longrightarrow> P pos u expect (c # data)"
    and "\<And>pos u expect data. (\<And>c1 c2 rest pos u expect. data = c1 # c2 # rest \<Longrightarrow> P pos u expect rest) \<Longrightarrow>
      P pos u expect (CHR ''%'' # data)"
  shows "P (pos :: nat) (u :: utf8_checker) (expect :: bool) (data :: string)"
proof (induction "length data" arbitrary: pos u expect data rule: less_induct)
  case less
  show ?case
  proof (cases data)
    case (Cons c rest)
    show ?thesis
    proof (cases "c = CHR ''%''")
      case True
      with Cons less show ?thesis by (auto intro!: assms(3))
    next
      case False
      with Cons less show ?thesis by (auto intro!: assms(2))
    qed
  qed (simp add: assms(1))
qed

lemma unescape_list_percent:
  "unescape_list ordinary_char pos u expect (CHR ''%'' # data) =
     (case data of
        c1 # c2 # rest \<Rightarrow>
          (if \<not> (is_hexdigit c1 \<and> is_hexdigit c2) then (Inl (Invalid_escape_sequence pos), [])
           else if \<not> fst (process_byte u (extract_escaped_char c1 c2)) then (Inl (Invalid_utf8_sequence pos), [])
           else (let u = snd (process_byte u (extract_escaped_char c1 c2));
                     r = unescape_list ordinary_char (pos + 3) (if finalized u then utf8_reset u else u) (\<not> finalized u) rest
                 in (fst r, char_of_byte (extract_escaped_char c1 c2) # snd r)))
      | _ \<Rightarrow> (Inl (Invalid_escape_sequence pos), []))"
  by (simp add: Let_def case_prod_beta split: list.splits prod.splits bool.splits)

lemma unescape_list_char:
  "c \<noteq> CHR ''%'' \<Longrightarrow> unescape_list ordinary_char pos u expect (c # data) =
     (if expect then (Inl (Next_utf8_byte_expected pos), [])
      else if c = CHR ''+'' \<or> ordinary_char c then
        (let r = unescape_list ordinary_char (pos + 1) u False data
         in (fst r, (if c = CHR ''+'' then CHR '' '' else c) # snd r))
      else (Inl (Invalid_non_escaped_char c pos), []))"
  by (simp add: Let_def case_prod_beta)

declare unescape_list.simps(2) [simp del]

lemma unescape_list_length: "length (snd (unescape_list ordinary_char pos u expect data)) \<le> length data"
proof (induction pos u expect data rule: unescape_list_induct)
  case (char pos u expect c data)
  then show ?case by (simp add: unescape_list_char Let_def)
next
  case (percent pos u expect data)
  then show ?case
    by (auto simp: unescape_list_percent Let_def le_SucI split: list.splits)
qed simp

lemma try_unescape_list:
  "try_unescape_percent_encoding ordinary_char data =
     (case unescape_list ordinary_char 0 utf8_checker_init False data of (Inl e, _) \<Rightarrow> Inl e | (Inr _, out) \<Rightarrow> Inr out)"
  unfolding try_unescape_percent_encoding_def append_chars.do_unescape_list [OF TrueI]
  by (simp add: fold_append_chars split: prod.splits)

subsection \<open>Round trip\<close>

text \<open>The two upper case hexadecimal digits of a character.\<close>

definition hex_digit :: "nat \<Rightarrow> char" where
  "hex_digit k = char_of (if k < 10 then 48 + k else 55 + k)"

definition hex2 :: "char \<Rightarrow> string" where
  "hex2 c = [hex_digit (of_char c div 16), hex_digit (of_char c mod 16)]"

definition hex_value :: "char \<Rightarrow> u8" where
  "hex_value c = (if char_between CHR ''0'' c CHR ''9'' then byte_of_char c - byte_of_char CHR ''0''
     else 10 + (byte_of_char c OR 0x20) - byte_of_char CHR ''a'')"

lemma extract_escaped_char_value: "extract_escaped_char c1 c2 = push_bit 4 (hex_value c1) + hex_value c2"
  by (simp add: extract_escaped_char_def hex_value_def Let_def)

lemma hex_digit_value:
  assumes "k < 16"
  shows "is_hexdigit (hex_digit k) \<and> hex_value (hex_digit k) = word_of_nat k"
proof -
  from assms consider "k < 10" | "k = 10" | "k = 11" | "k = 12" | "k = 13" | "k = 14" | "k = 15" by linarith
  then show ?thesis
    by cases (simp_all add: hex_digit_def is_hexdigit_def hex_value_def char_between_def byte_of_char_def)
qed

lemma extract_hex2:
  "is_hexdigit (hex_digit (of_char c div 16)) \<and> is_hexdigit (hex_digit (of_char c mod 16)) \<and>
   extract_escaped_char (hex_digit (of_char c div 16)) (hex_digit (of_char c mod 16)) = byte_of_char c"
proof -
  let ?n = "of_char c :: nat"
  have "?n < 256" by simp
  then have hi: "?n div 16 < 16" by (intro less_mult_imp_div_less) simp
  have lo: "?n mod 16 < 16" by simp
  have "push_bit 4 (word_of_nat (?n div 16)) + word_of_nat (?n mod 16) = (word_of_nat (16 * (?n div 16) + ?n mod 16) :: u8)"
    by (simp only: push_bit_eq_mult of_nat_add of_nat_mult) (simp add: mult.commute)
  also have "\<dots> = word_of_nat ?n" by (simp only: mult_div_mod_eq)
  finally show ?thesis
    using hex_digit_value [OF hi] hex_digit_value [OF lo] by (simp only: extract_escaped_char_value byte_of_char_def simp_thms)
qed

lemma ascii_inside_refused:
  "\<not> finalized u \<Longrightarrow> unat b < 0x80 \<Longrightarrow> \<not> fst (process_byte u b)"
  by (auto simp: process_byte_def Let_def finalized_def mask_simps check_overlong_def)

text \<open>The checker between two symbols accepts the same texts whatever symbol came before.\<close>

lemma check_utf8_loop_ready: "check_utf8_loop (ready s) bs = check_utf8_loop (ready t) bs"
  by (simp add: loop_iff_utf8_text)

lemma finalized_ready: "checker_ok u \<Longrightarrow> finalized u \<Longrightarrow> u = ready (m_current_symbol u)"
  by (auto simp: checker_ok_def finalized_def ready_def)

lemma escape_percent_encoding_eq:
  "escape_percent_encoding fmt_02X ordinary_char data =
     concat (map (\<lambda>c. if ordinary_char c then [c] else CHR ''%'' # fmt_02X c) data)"
proof (cases "filter (\<lambda>c. \<not> ordinary_char c) data = []")
  case True
  then have "concat (map (\<lambda>c. if ordinary_char c then [c] else CHR ''%'' # fmt_02X c) data) = data"
    by (induction data) (auto split: if_splits)
  with True show ?thesis by (simp add: escape_percent_encoding_def)
qed (simp add: escape_percent_encoding_def)

text \<open>Traits under which escaping can be undone.\<close>

locale invertible_traits =
  fixes ordinary_char :: "char \<Rightarrow> bool"
  assumes ordinary: "ordinary_char c \<Longrightarrow> (of_char c :: nat) < 128 \<and> c \<noteq> CHR ''%'' \<and> c \<noteq> CHR ''+''"
begin

lemma unescape_list_escape:
  assumes "checker_ok u" "check_utf8_loop u (map byte_of_char s)" "\<And>c. c \<in> set s \<Longrightarrow> fmt_02X c = hex2 c"
  shows "unescape_list ordinary_char pos u (\<not> finalized u)
      (concat (map (\<lambda>c. if ordinary_char c then [c] else CHR ''%'' # fmt_02X c) s)) = (Inr (), s)"
  using assms
proof (induction s arbitrary: u pos)
  case (Cons c s)
  let ?b = "byte_of_char c"
  have ok: "fst (process_byte u ?b)" and loop: "check_utf8_loop (snd (process_byte u ?b)) (map byte_of_char s)"
    using Cons.prems(2) by (auto simp: case_prod_beta split: if_splits)
  let ?u = "snd (process_byte u ?b)"
  have ok': "checker_ok ?u" using Cons.prems(1) ok by (rule process_byte_checker_ok)
  show ?case
  proof (cases "ordinary_char c")
    case True
    then have ascii: "unat ?b < 0x80" and c: "c \<noteq> CHR ''%''" "c \<noteq> CHR ''+''"
      using ordinary [of c] by (auto simp: unat_byte_of_char)
    then have "finalized u" using ascii_inside_refused ok by blast
    then have u: "u = ready (m_current_symbol u)" using Cons.prems(1) finalized_ready by blast
    then have "?u = ready (ucast ?b)" using ready_ascii [OF ascii] by (metis snd_conv)
    then have "check_utf8_loop u (map byte_of_char s)" using loop u check_utf8_loop_ready by metis
    from Cons.IH [OF Cons.prems(1) this] Cons.prems(3) True c \<open>finalized u\<close> show ?thesis
      by (simp add: unescape_list_char)
  next
    case False
    let ?v = "if finalized ?u then utf8_reset ?u else ?u"
    have v: "checker_ok ?v \<and> check_utf8_loop ?v (map byte_of_char s) \<and> finalized ?v = finalized ?u"
    proof (cases "finalized ?u")
      case True
      then have reset: "utf8_reset ?u = ready 0" using ok' finalized_checker_ok by blast
      have "check_utf8_loop (ready (m_current_symbol ?u)) (map byte_of_char s)"
        using finalized_ready [OF ok' True] loop by simp
      then have "check_utf8_loop (ready 0) (map byte_of_char s)" using check_utf8_loop_ready by blast
      moreover have "finalized (ready 0)" by (simp add: finalized_def ready_def)
      ultimately show ?thesis using True reset checker_ok_ready by simp
    qed (use ok' loop in simp)
    have "unescape_list ordinary_char (pos + 3) ?v (\<not> finalized ?v)
        (concat (map (\<lambda>c. if ordinary_char c then [c] else CHR ''%'' # fmt_02X c) s)) = (Inr (), s)"
      using v Cons.prems(3) by (intro Cons.IH) auto
    then show ?thesis
      using False ok v extract_hex2 [of c] by (simp add: Cons.prems(3) hex2_def unescape_list_percent Let_def)
  qed
qed simp

lemma unescape_escape:
  assumes "\<And>c. c \<in> set s \<Longrightarrow> fmt_02X c = hex2 c" "utf8_text (map of_char s)"
  shows "try_unescape_percent_encoding ordinary_char (escape_percent_encoding fmt_02X ordinary_char s) = Inr s"
proof -
  have "check_utf8_loop (ready 0) (map byte_of_char s)"
    using assms(2) by (simp add: loop_iff_utf8_text comp_def unat_byte_of_char)
  from unescape_list_escape [OF checker_ok_ready this assms(1), of 0]
  have "unescape_list ordinary_char 0 (ready 0) False
      (concat (map (\<lambda>c. if ordinary_char c then [c] else CHR ''%'' # fmt_02X c) s)) = (Inr (), s)"
    by (simp add: finalized_def ready_def)
  then show ?thesis
    unfolding try_unescape_list escape_percent_encoding_eq utf8_checker_init_eq by simp
qed

end

interpretation default_traits: invertible_traits restinio_default_unescape_traits
  by unfold_locales
    (auto simp: restinio_default_unescape_traits_def char_between_def)

interpretation form_traits: invertible_traits x_www_form_urlencoded_unescape_traits
  by unfold_locales
    (auto simp: x_www_form_urlencoded_unescape_traits_def char_between_def)

interpretation javascript_traits: invertible_traits javascript_compatible_unescape_traits
  by unfold_locales
    (auto simp: javascript_compatible_unescape_traits_def char_between_def)

subsection \<open>Symbols of the checker\<close>

text \<open>
  The states of a checker that has refused nothing. Only a single byte completes a symbol below
  \<open>0x80\<close>: the lead bytes and the overlong check keep longer forms above it.
\<close>

definition symbol_inv :: "utf8_checker \<Rightarrow> bool" where
  "symbol_inv u \<longleftrightarrow>
     (\<exists>s. u = ready s) \<or>
     (\<exists>s k st. u = inside s k st \<and> 0 < k \<and> (unat s + 1) * 64 ^ k \<le> 2 ^ 32 \<and>
        (st = Valid \<and> 128 \<le> unat s * 64 ^ k \<or> st = May_be_overlong \<and> k \<in> {2, 3, 4, 5}))"

lemma symbol_inv_lead:
  assumes "unat (b AND m) = n" "0 < k" "(n + 1) * 64 ^ k \<le> 2 ^ 32"
    "st = Valid \<and> 128 \<le> n * 64 ^ k \<or> st = May_be_overlong \<and> k \<in> {2, 3, 4, 5}"
  shows "symbol_inv (inside (ucast (b AND m :: u8)) k st)"
  unfolding symbol_inv_def using assms
  by (intro disjI2 exI [of _ "ucast (b AND m)"] exI [of _ k] exI [of _ st]) auto

lemma symbol_inv_ready:
  assumes "fst (process_byte (ready s) b)"
  shows "symbol_inv (snd (process_byte (ready s) b)) \<and>
    (finalized (snd (process_byte (ready s) b)) \<longrightarrow> snd (process_byte (ready s) b) = ready (ucast b))"
proof -
  have sub: "unat b mod n = unat b - m" if "m \<le> unat b" "unat b < m + n" "n dvd m" for m n
    using that by (intro mod_nat_eqI) auto
  consider "unat b < 0x80" | "0xC2 \<le> unat b" "unat b < 0xE0" | "0xE0 \<le> unat b" "unat b < 0xF0"
    | "0xF0 \<le> unat b" "unat b < 0xF8" | "0xF8 \<le> unat b" "unat b < 0xFC" | "0xFC \<le> unat b" "unat b < 0xFE"
    using assms ready_continuation [of b s] ready_FE_FF [of b s] by linarith
  then show ?thesis
  proof cases
    case 1
    then show ?thesis by (auto simp: ready_ascii symbol_inv_def)
  next
    case 2
    with sub [of "0xC0" 32] show ?thesis
      by (auto simp: ready_lead2 finalized_def inside_def mask_simps intro!: symbol_inv_lead [unfolded inside_def] )
  next
    case 3
    with sub [of "0xE0" 16] show ?thesis
      by (auto simp: ready_lead3 finalized_def inside_def mask_simps intro!: symbol_inv_lead [unfolded inside_def])
  next
    case 4
    with sub [of "0xF0" 8] show ?thesis
      by (auto simp: ready_lead4 finalized_def inside_def mask_simps intro!: symbol_inv_lead [unfolded inside_def])
  next
    case 5
    with sub [of "0xF8" 4] show ?thesis
      by (auto simp: ready_lead5 finalized_def inside_def mask_simps intro!: symbol_inv_lead [unfolded inside_def])
  next
    case 6
    with sub [of "0xFC" 2] show ?thesis
      by (auto simp: ready_lead6 finalized_def inside_def mask_simps intro!: symbol_inv_lead [unfolded inside_def])
  qed
qed

lemma symbol_inv_inside_Valid:
  assumes "0 < k" "(unat s + 1) * 64 ^ k \<le> 2 ^ 32" "continuation b"
    "128 \<le> (unat s * 64 + (unat b - 0x80)) * 64 ^ (k - 1)" "fst (process_byte (inside s k Valid) b)"
  defines "u \<equiv> snd (process_byte (inside s k Valid) b)"
  shows "symbol_inv u \<and> (finalized u \<longrightarrow> 128 \<le> unat (m_current_symbol u))"
proof -
  define s' where "s' = push_bit 6 s OR (ucast (b AND 0x3F) :: u32)"
  have pow: "(64 :: nat) ^ k = 64 * 64 ^ (k - 1)" using assms(1) by (cases k) auto
  have "(unat s + 1) * 64 \<le> (unat s + 1) * 64 ^ k" using assms(1) by (intro mult_le_mono2) (simp add: pow)
  with assms(2) have "unat s < 2 ^ 26" by simp
  then have v: "unat s' = unat s * 64 + (unat b - 0x80)" unfolding s'_def using assms(3) by (intro append_six_bits)
  have "unat s' + 1 \<le> (unat s + 1) * 64" using v assms(3) by (auto simp: continuation_def)
  then have "(unat s' + 1) * 64 ^ (k - 1) \<le> (unat s + 1) * 64 * 64 ^ (k - 1)" by (rule mult_le_mono1)
  also have "\<dots> = (unat s + 1) * 64 ^ k" by (simp only: pow mult.assoc)
  finally have bound: "(unat s' + 1) * 64 ^ (k - 1) \<le> 2 ^ 32" using assms(2) by linarith
  have big: "128 \<le> unat s' * 64 ^ (k - 1)" using v assms(4) by simp
  have c: "0x80 \<le> unat b" "unat b < 0xC0" using assms(3) by (auto simp: continuation_def)
  show ?thesis
  proof (cases "k = 1")
    case True
    then have "u = ready s'" using inside_last [OF c, of s] assms(5) by (auto simp: u_def s'_def split: if_splits)
    with big True show ?thesis by (auto simp: symbol_inv_def ready_def)
  next
    case False
    then obtain j where j: "k = Suc j" "0 < j" using assms(1) by (cases k) auto
    then have "u = inside s' j Valid" using inside_more [OF c, of j Valid s] by (simp add: u_def s'_def)
    with bound big j show ?thesis by (auto simp: symbol_inv_def finalized_def inside_def)
  qed
qed

lemma symbol_inv_step:
  assumes "symbol_inv u" "fst (process_byte u b)"
  defines "v \<equiv> snd (process_byte u b)"
  shows "symbol_inv v \<and>
    (finalized v \<longrightarrow> (if finalized u then v = ready (ucast b) else 128 \<le> unat (m_current_symbol v)))"
proof -
  from assms(1) consider s where "u = ready s"
    | s k where "u = inside s k Valid" "0 < k" "(unat s + 1) * 64 ^ k \<le> 2 ^ 32" "128 \<le> unat s * 64 ^ k"
    | s k where "u = inside s k May_be_overlong" "k \<in> {2, 3, 4, 5}" "(unat s + 1) * 64 ^ k \<le> 2 ^ 32"
    by (auto simp: symbol_inv_def)
  then show ?thesis
  proof cases
    case 1
    with symbol_inv_ready [of s b] assms(2) show ?thesis by (auto simp: v_def finalized_def ready_def)
  next
    case 2
    have "\<not> (unat b < 0x80 \<or> 0xC0 \<le> unat b)" using inside_bad [of k b s Valid] assms(2) 2(1,2) by blast
    then have c: "continuation b" by (simp add: continuation_def)
    have "unat s * 64 ^ k \<le> (unat s * 64 + (unat b - 0x80)) * 64 ^ (k - 1)"
      using 2(2) by (cases k) (auto simp: algebra_simps)
    with 2 c assms(2) have "symbol_inv v \<and> (finalized v \<longrightarrow> 128 \<le> unat (m_current_symbol v))"
      unfolding v_def by (simp only:) (intro symbol_inv_inside_Valid, auto)
    then show ?thesis using 2 by (auto simp: finalized_def inside_def)
  next
    case 3
    then have k: "0 < k" by auto
    have "\<not> (unat b < 0x80 \<or> 0xC0 \<le> unat b)" using inside_bad [of k b s May_be_overlong] assms(2) 3(1) k by blast
    then have c: "continuation b" by (simp add: continuation_def)
    then have cc: "0x80 \<le> unat b" "unat b < 0xC0" by (auto simp: continuation_def)
    have ge: "0x80 + 2 ^ (7 - k) \<le> unat b"
      using inside_overlong [OF cc 3(2), of s] assms(2) 3(1) by (meson not_le)
    note same = inside_not_overlong [OF cc 3(2) ge, of s]
    have "128 \<le> (unat b - 0x80) * 64 ^ (k - 1)" using 3(2) ge by auto
    also have "\<dots> \<le> (unat s * 64 + (unat b - 0x80)) * 64 ^ (k - 1)" by (intro mult_le_mono1) simp
    finally have "symbol_inv v \<and> (finalized v \<longrightarrow> 128 \<le> unat (m_current_symbol v))"
      unfolding v_def 3(1) same using 3 c k assms(2) same by (intro symbol_inv_inside_Valid) auto
    then show ?thesis using 3 k by (auto simp: finalized_def inside_def)
  qed
qed

subsection \<open>Normalisation\<close>

lemma run_normalization_percent:
  "run_normalization_algo one three pos u expect (CHR ''%'' # what) s =
     (case what of
        c1 # c2 # rest \<Rightarrow>
          (if \<not> (is_hexdigit c1 \<and> is_hexdigit c2) then (Inl (Invalid_escape_sequence pos), s)
           else if \<not> fst (process_byte u (extract_escaped_char c1 c2)) then (Inl (Invalid_utf8_sequence pos), s)
           else (let v = snd (process_byte u (extract_escaped_char c1 c2));
                     ch = char_of_byte (ucast (m_current_symbol v))
                 in run_normalization_algo one three (pos + 3)
                      (if finalized v then utf8_reset v else v) (\<not> finalized v) rest
                      (if finalized v \<and> m_current_symbol v < 0x80 \<and> is_unreserved_char ch
                       then one ch s else three CHR ''%'' c1 c2 s)))
      | _ \<Rightarrow> (Inl (Invalid_escape_sequence pos), s))"
  by (simp add: Let_def case_prod_beta split: list.splits prod.splits bool.splits)

lemma run_normalization_char:
  "c \<noteq> CHR ''%'' \<Longrightarrow> run_normalization_algo one three pos u expect (c # what) s =
     (if expect then (Inl (Next_utf8_byte_expected pos), s)
      else run_normalization_algo one three (pos + 1) u False what (one c s))"
  by simp

declare run_normalization_algo.simps(2) [simp del]

text \<open>The normalised text: the handlers append to a string.\<close>

definition normalized :: "nat \<Rightarrow> utf8_checker \<Rightarrow> bool \<Rightarrow> string \<Rightarrow> string \<Rightarrow> (unescape_failure + unit) \<times> string" where
  "normalized = run_normalization_algo (\<lambda>c s. s @ [c]) (\<lambda>a b c s. s @ [a, b, c])"

text \<open>Running with other handlers is an image of running with the appending ones.\<close>

lemma run_normalization_hom:
  assumes "\<And>c s. h (s @ [c]) = one c (h s)" "\<And>a b c s. h (s @ [a, b, c]) = three a b c (h s)"
  shows "run_normalization_algo one three pos u expect what (h s) = apsnd h (normalized pos u expect what s)"
proof (induction pos u expect what arbitrary: s rule: unescape_list_induct)
  case (Nil pos u expect)
  then show ?case by (simp add: normalized_def)
next
  case (char pos u expect c data)
  then show ?case by (simp add: normalized_def run_normalization_char assms [symmetric])
next
  case (percent pos u expect data)
  show ?case
  proof (cases "\<exists>c1 c2 rest. data = c1 # c2 # rest")
    case True
    then obtain c1 c2 rest where "data = c1 # c2 # rest" by blast
    with percent [OF this] show ?thesis
      by (simp add: normalized_def run_normalization_percent Let_def assms [symmetric])
  next
    case False
    then show ?thesis by (auto simp: normalized_def run_normalization_percent split: list.splits)
  qed
qed

lemma run_normalization_verdict:
  "fst (run_normalization_algo one three pos u expect what s) = fst (normalized pos u expect what t)"
proof (induction pos u expect what arbitrary: s t rule: unescape_list_induct)
  case (char pos u expect c data)
  then show ?case by (simp add: normalized_def run_normalization_char)
next
  case (percent pos u expect data)
  show ?case
  proof (cases "\<exists>c1 c2 rest. data = c1 # c2 # rest")
    case True
    then obtain c1 c2 rest where "data = c1 # c2 # rest" by blast
    with percent [OF this] show ?thesis by (simp add: normalized_def run_normalization_percent Let_def)
  next
    case False
    then show ?thesis by (auto simp: normalized_def run_normalization_percent split: list.splits)
  qed
qed (simp add: normalized_def)

lemma normalized_append:
  "normalized pos u expect what s = apsnd (\<lambda>t. s @ t) (normalized pos u expect what [])"
  using run_normalization_hom [of "\<lambda>t. s @ t" "\<lambda>c s. s @ [c]" "\<lambda>a b c s. s @ [a, b, c]" pos u expect what "[]"]
  by (simp add: normalized_def)

lemma normalized_char:
  "c \<noteq> CHR ''%'' \<Longrightarrow> normalized pos u expect (c # what) [] =
     (if expect then (Inl (Next_utf8_byte_expected pos), [])
      else apsnd (\<lambda>t. c # t) (normalized (pos + 1) u False what []))"
  using normalized_append [of "pos + 1" u False what "[c]"]
  by (simp add: normalized_def run_normalization_char)

lemma normalized_percent:
  "normalized pos u expect (CHR ''%'' # what) [] =
     (case what of
        c1 # c2 # rest \<Rightarrow>
          (if \<not> (is_hexdigit c1 \<and> is_hexdigit c2) then (Inl (Invalid_escape_sequence pos), [])
           else if \<not> fst (process_byte u (extract_escaped_char c1 c2)) then (Inl (Invalid_utf8_sequence pos), [])
           else (let v = snd (process_byte u (extract_escaped_char c1 c2));
                     ch = char_of_byte (ucast (m_current_symbol v))
                 in apsnd (\<lambda>t. (if finalized v \<and> m_current_symbol v < 0x80 \<and> is_unreserved_char ch
                                 then [ch] else [CHR ''%'', c1, c2]) @ t)
                      (normalized (pos + 3) (if finalized v then utf8_reset v else v) (\<not> finalized v) rest [])))
      | _ \<Rightarrow> (Inl (Invalid_escape_sequence pos), []))"
proof (cases "\<exists>c1 c2 rest. what = c1 # c2 # rest")
  case True
  then obtain c1 c2 rest where "what = c1 # c2 # rest" by blast
  then show ?thesis
    by (simp add: normalized_def run_normalization_percent Let_def)
      (simp add: normalized_def [symmetric] normalized_append [of _ _ _ _ "[_]"] normalized_append [of _ _ _ _ "[_, _, _]"])
next
  case False
  then show ?thesis by (auto simp: normalized_def run_normalization_percent split: list.splits)
qed

lemma estimate_normalized:
  "estimate_required_capacity what =
     (case normalized 0 utf8_checker_init False what [] of (Inl e, _) \<Rightarrow> Inl e | (Inr _, out) \<Rightarrow> Inr (length out))"
proof -
  have "run_normalization_algo (\<lambda>_ n. n + 1) (\<lambda>_ _ _ n. n + 3) 0 utf8_checker_init False what (length ([] :: string)) =
      apsnd length (normalized 0 utf8_checker_init False what [])"
    by (rule run_normalization_hom) auto
  then show ?thesis
    unfolding estimate_required_capacity_def by (cases "normalized 0 utf8_checker_init False what []") simp
qed

text \<open>Writing into a buffer that is large enough for the whole result.\<close>

lemma run_normalization_buffer:
  assumes "normalized pos u expect what [] = (r, out)" "length s + length out \<le> length dest"
  shows "run_normalization_algo write_dest write_dest_3 pos u expect what (s @ drop (length s) dest, length s) =
    (r, (s @ out) @ drop (length (s @ out)) dest, length (s @ out))"
  using assms
proof (induction pos u expect what arbitrary: s out rule: unescape_list_induct)
  case (Nil pos u expect)
  then show ?case by (auto simp: normalized_def split: if_splits)
next
  case (char pos u expect c data)
  have w: "write_dest c (s @ drop (length s) dest, length s) = ((s @ [c]) @ drop (length (s @ [c])) dest, length (s @ [c]))"
    if "length s < length dest"
    using that by (simp add: write_dest_def list_update_append Cons_nth_drop_Suc [symmetric])
  show ?case
  proof (cases expect)
    case True
    with char show ?thesis by (simp add: normalized_char run_normalization_char)
  next
    case False
    with char.prems(1) char.hyps obtain t where t: "normalized (pos + 1) u False data [] = (r, t)" "out = c # t"
      by (cases "normalized (pos + 1) u False data []") (auto simp: normalized_char)
    with char.IH [OF t(1), of "s @ [c]"] char.prems(2) char.hyps False w show ?thesis
      by (simp add: run_normalization_char)
  qed
next
  case (percent pos u expect data)
  show ?case
  proof (cases "\<exists>c1 c2 rest. data = c1 # c2 # rest \<and> is_hexdigit c1 \<and> is_hexdigit c2 \<and>
      fst (process_byte u (extract_escaped_char c1 c2))")
    case False
    with percent.prems show ?thesis
      by (auto simp: normalized_percent run_normalization_percent split: list.splits if_splits)
  next
    case True
    then obtain c1 c2 rest where d: "data = c1 # c2 # rest" "is_hexdigit c1" "is_hexdigit c2"
      "fst (process_byte u (extract_escaped_char c1 c2))" by blast
    define v where "v = snd (process_byte u (extract_escaped_char c1 c2))"
    define ch where "ch = char_of_byte (ucast (m_current_symbol v))"
    define single where "single \<longleftrightarrow> finalized v \<and> m_current_symbol v < 0x80 \<and> is_unreserved_char ch"
    define tok where "tok = (if single then [ch] else [CHR ''%'', c1, c2])"
    obtain t where t: "normalized (pos + 3) (if finalized v then utf8_reset v else v) (\<not> finalized v) rest [] = (r, t)"
        "out = tok @ t"
      using percent.prems(1) d
      by (cases "normalized (pos + 3) (if finalized v then utf8_reset v else v) (\<not> finalized v) rest []")
        (auto simp: normalized_percent Let_def v_def [symmetric] ch_def [symmetric] single_def [symmetric] tok_def)
    have "length s + length tok \<le> length dest" using percent.prems(2) t(2) by simp
    then have w: "(if single then write_dest ch (s @ drop (length s) dest, length s)
        else write_dest_3 CHR ''%'' c1 c2 (s @ drop (length s) dest, length s)) =
        ((s @ tok) @ drop (length (s @ tok)) dest, length (s @ tok))"
      by (auto simp: write_dest_def write_dest_3_def tok_def list_update_append Cons_nth_drop_Suc [symmetric] numeral_3_eq_3)
    have step: "run_normalization_algo write_dest write_dest_3 pos u expect (CHR ''%'' # data) x =
        run_normalization_algo write_dest write_dest_3 (pos + 3) (if finalized v then utf8_reset v else v) (\<not> finalized v) rest
          (if single then write_dest ch x else write_dest_3 CHR ''%'' c1 c2 x)" for x
      using d by (simp add: run_normalization_percent Let_def v_def [symmetric] ch_def [symmetric] single_def [symmetric])
    show ?thesis
      unfolding step w using percent.IH [OF d(1) t(1), of "s @ tok"] percent.prems(2) t(2) by simp
  qed
qed

subsection \<open>Normalisation keeps the meaning\<close>

abbreviation (input) any_char :: "char \<Rightarrow> bool" where "any_char \<equiv> \<lambda>_. True"

lemma unescape_list_ready: "unescape_list ordinary_char pos (ready s) False data = unescape_list ordinary_char pos (ready t) False data"
proof (induction data arbitrary: pos)
  case (Cons c data)
  show ?case
  proof (cases "c = CHR ''%''")
    case True
    then show ?thesis
      by (simp add: unescape_list_percent process_byte_ready [of s] process_byte_ready [of t] Let_def split: list.splits)
  qed (simp add: unescape_list_char Cons.IH)
qed simp

lemma unreserved_char: "is_unreserved_char c \<Longrightarrow> c \<noteq> CHR ''%'' \<and> c \<noteq> CHR ''+''"
  using default_traits.ordinary [of c] by (simp add: is_unreserved_char_def)

lemma unescape_normalized:
  assumes "symbol_inv u" "checker_ok u" "normalized pos u (\<not> finalized u) what [] = (Inr x, out)"
  shows "\<exists>y. unescape_list any_char p u (\<not> finalized u) what = (Inr (), y) \<and>
    unescape_list any_char q u (\<not> finalized u) out = (Inr (), y)"
  using assms
proof (induction "length what" arbitrary: pos u what out p q rule: less_induct)
  case less
  show ?case
  proof (cases what)
    case Nil
    then show ?thesis using less.prems(3) by (auto simp: normalized_def split: if_splits)
  next
    case (Cons c data)
    show ?thesis
    proof (cases "c = CHR ''%''")
      case False
      with less.prems(3) Cons obtain t where t: "normalized (pos + 1) u False data [] = (Inr x, t)" "out = c # t" and "finalized u"
        by (cases "normalized (pos + 1) u False data []") (auto simp: normalized_char split: if_splits)
      with less.hyps [of data u "pos + 1" t "p + 1" "q + 1"] less.prems Cons obtain y where
        "unescape_list any_char (p + 1) u False data = (Inr (), y)" "unescape_list any_char (q + 1) u False t = (Inr (), y)"
        by auto
      with False Cons t \<open>finalized u\<close> show ?thesis by (simp add: unescape_list_char)
    next
      case True
      with less.prems(3) Cons obtain c1 c2 rest where d: "data = c1 # c2 # rest" "is_hexdigit c1" "is_hexdigit c2"
        "fst (process_byte u (extract_escaped_char c1 c2))"
        by (auto simp: normalized_percent split: list.splits if_splits)
      define b where "b = extract_escaped_char c1 c2"
      define v where "v = snd (process_byte u b)"
      define w where "w = (if finalized v then utf8_reset v else v)"
      define ch where "ch = char_of_byte (ucast (m_current_symbol v))"
      define single where "single \<longleftrightarrow> finalized v \<and> m_current_symbol v < 0x80 \<and> is_unreserved_char ch"
      note folds = b_def [symmetric] v_def [symmetric] w_def [symmetric] ch_def [symmetric] single_def [symmetric]
      have ok: "checker_ok v" using less.prems(2) d(4) process_byte_checker_ok unfolding v_def b_def by blast
      have inv: "symbol_inv v"
        "finalized v \<Longrightarrow> if finalized u then v = ready (ucast b) else 128 \<le> unat (m_current_symbol v)"
        using symbol_inv_step [OF less.prems(1), of b] d(4) unfolding v_def b_def by auto
      have fin: "finalized v \<Longrightarrow> w = ready 0" using finalized_checker_ok ok by (simp add: w_def)
      have w: "symbol_inv w" "checker_ok w" "finalized w = finalized v"
        using fin inv(1) ok checker_ok_ready by (cases "finalized v"; auto simp: w_def symbol_inv_def finalized_def ready_def)+
      obtain t where t: "normalized (pos + 3) w (\<not> finalized w) rest [] = (Inr x, t)"
          "out = (if single then [ch] else [CHR ''%'', c1, c2]) @ t"
        using less.prems(3) Cons True d w(3)
        by (cases "normalized (pos + 3) w (\<not> finalized w) rest []") (auto simp: normalized_percent Let_def folds)
      have len: "length rest < length what" using Cons d(1) by simp
      have ih: "\<exists>y. unescape_list any_char (p + 3) w (\<not> finalized w) rest = (Inr (), y) \<and>
          unescape_list any_char q' w (\<not> finalized w) t = (Inr (), y)" for q'
        using less.hyps [OF len w(1,2) t(1)] .
      have src: "unescape_list any_char p u (\<not> finalized u) what =
          apsnd ((#) (char_of_byte b)) (unescape_list any_char (p + 3) w (\<not> finalized w) rest)"
        using Cons True d w(3) by (simp add: unescape_list_percent Let_def folds apsnd_def map_prod_def split: prod.splits)
      show ?thesis
      proof (cases single)
        case False
        then have "unescape_list any_char q u (\<not> finalized u) out =
            apsnd ((#) (char_of_byte b)) (unescape_list any_char (q + 3) w (\<not> finalized w) t)"
          using d w(3) t(2) by (simp add: unescape_list_percent Let_def folds apsnd_def map_prod_def split: prod.splits)
        with ih [of "q + 3"] src show ?thesis by auto
      next
        case True
        then have v: "finalized v" "m_current_symbol v < 0x80" "is_unreserved_char ch" by (auto simp: single_def)
        then have "unat (m_current_symbol v) < 128" by (simp add: word_less_nat_alt)
        with inv(2) v(1) have u: "finalized u" "v = ready (ucast b)" by (auto split: if_splits)
        moreover have "(ucast (ucast b :: u32) :: u8) = b" by (rule bit_word_eqI) (simp add: bit_simps)
        ultimately have "ucast (m_current_symbol v) = b" by (simp add: ready_def)
        then have ch: "ch = char_of_byte b" by (simp add: ch_def)
        have "u = ready (m_current_symbol u)" using finalized_ready less.prems(2) u(1) by blast
        then have "unescape_list any_char (q + 1) u False t = unescape_list any_char (q + 1) w False t"
          using fin v(1) unescape_list_ready by metis
        with ih [of "q + 1"] src True ch u(1) v t(2) w(3) unreserved_char [OF v(3)] show ?thesis
          by (auto simp: unescape_list_char)
      qed
    qed
  qed
qed

lemma symbol_inv_init: "symbol_inv utf8_checker_init" "checker_ok utf8_checker_init" "finalized utf8_checker_init"
  by (auto simp: utf8_checker_init_eq symbol_inv_def checker_ok_ready) (simp add: finalized_def ready_def)

subsection \<open>Properties\<close>

text \<open>
  Percent-encoding round trip. For a well-formed UTF-8 text, unescaping its escaped form gives the
  text back, for the default, the form-urlencoded and the JavaScript-compatible traits. The
  assumption on \<open>fmt_02X\<close> is that the format \<^verbatim>\<open>{:02X}\<close> gives the two upper case hexadecimal
  digits of each character of the text; it is needed for these characters only, as a \<^verbatim>\<open>char\<close> above
  \<open>0x7F\<close> is a negative number on some platforms.
\<close>

theorem percent_encoding_roundtrip:
  assumes "\<And>c. c \<in> set s \<Longrightarrow> fmt_02X c = hex2 c" "utf8_text (map of_char s)"
    and "ordinary_char \<in> {restinio_default_unescape_traits, x_www_form_urlencoded_unescape_traits,
      javascript_compatible_unescape_traits}"
  shows "try_unescape_percent_encoding ordinary_char (escape_percent_encoding fmt_02X ordinary_char s) = Inr s"
  using assms(3) default_traits.unescape_escape [OF assms(1,2)] form_traits.unescape_escape [OF assms(1,2)]
    javascript_traits.unescape_escape [OF assms(1,2)] by blast

theorem percent_encoding_roundtrip_witness:
  "try_unescape_percent_encoding restinio_default_unescape_traits
     (escape_percent_encoding hex2 restinio_default_unescape_traits [CHR ''a'', CHR 0xC3, CHR 0xA9, CHR ''+'']) =
   Inr [CHR ''a'', CHR 0xC3, CHR 0xA9, CHR ''+'']"
proof -
  have "utf8_text (map of_char [CHR ''a'', CHR 0xC3, CHR 0xA9, CHR ''+''])"
    unfolding utf8_text_def by (rule exI [of _ "[97, 0xE9, 43]"]) (simp add: unicode_scalar_def utf8_encode_def)
  then show ?thesis
    using percent_encoding_roundtrip [of "[CHR ''a'', CHR 0xC3, CHR 0xA9, CHR ''+'']" hex2 restinio_default_unescape_traits]
    by simp
qed

text \<open>
  C38: unescaping in place. The in-place variant, which overwrites the memory it reads from,
  agrees with the variant that builds a new string: it fails with the same description, and on
  success the size it returns and the characters in front of the buffer are that string; the
  buffer keeps its length.
\<close>

theorem inplace_unescape_agrees:
  "(case try_unescape_percent_encoding ordinary_char data of
      Inl e \<Rightarrow> fst (try_inplace_unescape_percent_encoding ordinary_char data) = Inl e
    | Inr out \<Rightarrow> fst (try_inplace_unescape_percent_encoding ordinary_char data) = Inr (length out) \<and>
        take (length out) (snd (try_inplace_unescape_percent_encoding ordinary_char data)) = out) \<and>
   length (snd (try_inplace_unescape_percent_encoding ordinary_char data)) = length data"
proof -
  have inv: "inplace_inv data 0 (data, 0)" by (simp add: inplace_inv_def)
  obtain r out where u: "unescape_list ordinary_char 0 utf8_checker_init False data = (r, out)" by force
  then have "length out \<le> length data"
    using unescape_list_length [of ordinary_char 0 utf8_checker_init False data] by simp
  then have "fold write_dest out (data, 0) = (out @ drop (length out) data, length out)"
    by (subst fold_write_dest) auto
  with \<open>length out \<le> length data\<close> show ?thesis
    unfolding try_unescape_list try_inplace_unescape_percent_encoding_def inplace.do_unescape_list [OF inv]
    by (cases r) (simp_all add: u)
qed

text \<open>
  Capacity of the normalised URI. The estimated capacity is exactly the number of characters
  that normalisation writes: with a destination of at least that size all writes are inside the
  first \<open>n\<close> cells, nothing else changes, and normalisation fails exactly when the estimate fails.
\<close>

theorem normalize_capacity_exact:
  "case estimate_required_capacity what of
     Inl e \<Rightarrow> fst (normalize_to what dest) = Inl e
   | Inr n \<Rightarrow> n \<le> length dest \<longrightarrow>
       (\<exists>out. length out = n \<and> normalize_to what dest = (Inr (), out @ drop n dest, n))"
proof -
  obtain r out where r: "normalized 0 utf8_checker_init False what [] = (r, out)" by force
  then have "length out \<le> length dest \<Longrightarrow> normalize_to what dest = (r, out @ drop (length out) dest, length out)"
    using run_normalization_buffer [of 0 utf8_checker_init False what r out "[]" dest] by (simp add: normalize_to_def)
  moreover have "fst (normalize_to what dest) = r"
    using run_normalization_verdict [of write_dest write_dest_3 0 utf8_checker_init False what "(dest, 0)" "[]"] r
    by (simp add: normalize_to_def)
  ultimately show ?thesis
    unfolding estimate_normalized r by (cases r) auto
qed

theorem normalize_capacity_exact_witness:
  "estimate_required_capacity ''a%41'' = Inr 2 \<and>
   (\<exists>out. length out = 2 \<and> normalize_to ''a%41'' ''...'' = (Inr (), out @ drop 2 ''...'', 2))"
proof -
  have "estimate_required_capacity ''a%41'' = Inr 2" by code_simp
  with normalize_capacity_exact [of "''a%41''" "''...''"] show ?thesis by simp
qed

text \<open>
  Normalisation keeps the meaning of a URI. When the normalisation of a text succeeds, the result and
  the text unescape to the same string.
\<close>

theorem normalization_keeps_meaning:
  assumes "normalize_to what dest = (Inr (), buf, n)" "estimate_required_capacity what = Inr n" "n \<le> length dest"
  shows "\<exists>y. try_unescape_percent_encoding (\<lambda>_. True) what = Inr y \<and>
    try_unescape_percent_encoding (\<lambda>_. True) (take n buf) = Inr y"
proof -
  obtain r out where r: "normalized 0 utf8_checker_init False what [] = (r, out)" by force
  with assms(2) have n: "n = length out" "r = Inr ()" unfolding estimate_normalized by (auto split: sum.splits)
  then have "take n buf = out"
    using run_normalization_buffer [of 0 utf8_checker_init False what r out "[]" dest] assms(1,3) r
    by (auto simp: normalize_to_def)
  with unescape_normalized [of utf8_checker_init 0 what "()" out 0 0] r n symbol_inv_init show ?thesis
    by (auto simp: try_unescape_list)
qed

theorem normalization_keeps_meaning_witness:
  "\<exists>y. try_unescape_percent_encoding (\<lambda>_. True) ''a%41'' = Inr y \<and>
     try_unescape_percent_encoding (\<lambda>_. True) (take 2 ''aA.'') = Inr y"
proof -
  have "normalize_to ''a%41'' ''...'' = (Inr (), ''aA.'', 2)" "estimate_required_capacity ''a%41'' = Inr 2"
    by code_simp+
  from normalization_keeps_meaning [OF this] show ?thesis by simp
qed

text \<open>
  The relaxed traits are not invertible. They treat the plus sign as ordinary, so it is not
  escaped, but unescaping always turns it into a space; and the character with code 0, which is
  not in the documented set, counts as ordinary.
\<close>

theorem relaxed_traits_lose_plus:
  "try_unescape_percent_encoding relaxed_unescape_traits (escape_percent_encoding fmt_02X relaxed_unescape_traits ''1+1'') =
     Inr ''1 1'' \<and> relaxed_unescape_traits (CHR 0x00)"
proof -
  have "relaxed_unescape_traits CHR ''1''" "relaxed_unescape_traits CHR ''+''" "relaxed_unescape_traits (CHR 0x00)"
    by (simp_all add: relaxed_unescape_traits_def)
  then show ?thesis
    by (simp add: escape_percent_encoding_eq try_unescape_list unescape_list_char)
qed

end
