(* ===== verification/Express_Router.thy ===== *)
theory Express_Router
  imports Path2Regex Http_Headers Percent_Encoding
begin

text \<open>
  The express router: \<^verbatim>\<open>restinio/router/express.hpp\<close> with \<^verbatim>\<open>method_matcher.hpp\<close>,
  \<^verbatim>\<open>std_regex_engine.hpp\<close> and \<^verbatim>\<open>impl/target_path_holder.hpp\<close>.

  The classes derived from \<^verbatim>\<open>method_matcher_t\<close> are constructors of one type; the buffer that holds
  one of them (\<^verbatim>\<open>buffered_matcher_holder_t\<close>) is a matter of storage and is not modelled.  A handler is a function of
  the request and of the route parameters, so its result type is a parameter of the model.
  The views in \<^verbatim>\<open>route_params_t\<close> are the strings they show.  \<open>Undefined_match\<close> marks an access
  behind the sequence of appenders, which an assertion guards in debug builds.
\<close>

section \<open>Method matchers\<close>

datatype method_matcher_t =
    Simple_matcher http_method_id_t
  | Fixed_size_any_of_matcher "http_method_id_t list"
  | Fixed_size_none_of_matcher "http_method_id_t list"
  | Dynamic_any_of_methods_matcher "http_method_id_t list"
  | Dynamic_none_of_methods_matcher "http_method_id_t list"

fun any_method :: "http_method_id_t list \<Rightarrow> http_method_id_t \<Rightarrow> bool" where
  "any_method [] meth = False"
| "any_method (m # ms) meth = (if method_eq m meth then True else any_method ms meth)"

fun method_match :: "method_matcher_t \<Rightarrow> http_method_id_t \<Rightarrow> bool" where
  "method_match (Simple_matcher m) meth = method_eq m meth"
| "method_match (Fixed_size_any_of_matcher ms) meth = any_method ms meth"
| "method_match (Fixed_size_none_of_matcher ms) meth = (\<not> any_method ms meth)"
| "method_match (Dynamic_any_of_methods_matcher ms) meth = any_method ms meth"
| "method_match (Dynamic_none_of_methods_matcher ms) meth = (\<not> any_method ms meth)"

definition any_of_methods :: "http_method_id_t list \<Rightarrow> method_matcher_t" where
  "any_of_methods args = Fixed_size_any_of_matcher args"

definition none_of_methods :: "http_method_id_t list \<Rightarrow> method_matcher_t" where
  "none_of_methods args = Fixed_size_none_of_matcher args"

definition dynamic_any_add :: "http_method_id_t list \<Rightarrow> http_method_id_t \<Rightarrow> http_method_id_t list" where
  "dynamic_any_add m_methods meth = m_methods @ [meth]"

definition dynamic_none_add :: "http_method_id_t list \<Rightarrow> http_method_id_t \<Rightarrow> http_method_id_t list" where
  "dynamic_none_add m_methods meth = m_methods @ [meth]"

section \<open>The target path\<close>

record target_path_holder_t =
  tp_data :: "string option"
  tp_size :: nat

text \<open>The new array has indeterminate content, which is the argument \<open>fresh\<close>.\<close>

definition target_path_holder :: "(nat \<Rightarrow> string) \<Rightarrow> string \<Rightarrow> unescape_failure + target_path_holder_t" where
  "target_path_holder fresh original_path =
     (case estimate_required_capacity original_path of
        Inl e \<Rightarrow> Inl e
      | Inr m_size \<Rightarrow>
          (if m_size \<noteq> length original_path
           then (case normalize_to original_path (fresh m_size) of
                   (Inl e, _) \<Rightarrow> Inl e
                 | (Inr _, m_data, _) \<Rightarrow> Inr \<lparr>tp_data = Some m_data, tp_size = m_size\<rparr>)
           else Inr \<lparr>tp_data = Some (original_path @ drop (length original_path) (fresh m_size)), tp_size = m_size\<rparr>))"

definition tp_view :: "target_path_holder_t \<Rightarrow> string option" where
  "tp_view h = map_option (take (tp_size h)) (tp_data h)"

definition giveout_data :: "target_path_holder_t \<Rightarrow> string option \<times> target_path_holder_t" where
  "giveout_data h = (tp_data h, h\<lparr>tp_data := None\<rparr>)"

section \<open>Route parameters\<close>

record route_params_t =
  rp_match :: string
  rp_named_parameters :: "(string \<times> string) list"
  rp_indexed_parameters :: "string list"

definition route_params_default :: route_params_t where
  "route_params_default = \<lparr>rp_match = [], rp_named_parameters = [], rp_indexed_parameters = []\<rparr>"

datatype route_params_error = Invalid_parameter_name string | Invalid_parameter_index nat

definition find_named_parameter :: "route_params_t \<Rightarrow> string \<Rightarrow> (string \<times> string) option" where
  "find_named_parameter rp key = find (\<lambda>p. key = fst p) (rp_named_parameters rp)"

definition param_by_name :: "route_params_t \<Rightarrow> string \<Rightarrow> route_params_error + string" where
  "param_by_name rp key =
     (case find_named_parameter rp key of
        None \<Rightarrow> Inl (Invalid_parameter_name key)
      | Some p \<Rightarrow> Inr (snd p))"

definition has_param :: "route_params_t \<Rightarrow> string \<Rightarrow> bool" where
  "has_param rp key \<longleftrightarrow> find_named_parameter rp key \<noteq> None"

definition get_param :: "route_params_t \<Rightarrow> string \<Rightarrow> string option" where
  "get_param rp key = map_option snd (find_named_parameter rp key)"

definition param_by_index :: "route_params_t \<Rightarrow> nat \<Rightarrow> route_params_error + string" where
  "param_by_index rp i =
     (if length (rp_indexed_parameters rp) \<le> i then Inl (Invalid_parameter_index i)
      else Inr (rp_indexed_parameters rp ! i))"

definition named_parameters_size :: "route_params_t \<Rightarrow> nat" where
  "named_parameters_size rp = length (rp_named_parameters rp)"

definition indexed_parameters_size :: "route_params_t \<Rightarrow> nat" where
  "indexed_parameters_size rp = length (rp_indexed_parameters rp)"

text \<open>The appender of a route, over the buffer of names.\<close>

type_synonym gathered_params = "(string \<times> string) list \<times> string list"

fun apply_appender :: "string \<Rightarrow> param_appender_t \<Rightarrow> string \<Rightarrow> gathered_params \<Rightarrow> gathered_params" where
  "apply_appender names (Add_named pos len) v (named_params, indexed_params) = (named_params @ [(take len (drop pos names), v)], indexed_params)"
| "apply_appender names Add_indexed v (named_params, indexed_params) = (named_params, indexed_params @ [v])"

section \<open>Matching a route\<close>

text \<open>
  \<^verbatim>\<open>std_regex_engine_t::try_match\<close>: positions of the match and of its groups; a group that did not
  take part lies at the end of the text.
\<close>

definition try_match :: "string \<Rightarrow> compiled_regex \<Rightarrow> (nat \<times> nat) list option" where
  "try_match target_path r =
     (case regex_search r target_path of
        None \<Rightarrow> None
      | Some m \<Rightarrow>
          Some ((mr_begin m, mr_end m) #
            map (\<lambda>c. case c of Some be \<Rightarrow> be | None \<Rightarrow> (length target_path, length target_path)) (mr_captures m)))"

record route_matcher_t =
  rm_method_matcher :: method_matcher_t
  rm_route_regex :: compiled_regex
  rm_named_params_buffer :: string
  rm_param_appender_sequence :: "param_appender_t list"

definition view_of :: "string \<Rightarrow> nat \<times> nat \<Rightarrow> string" where
  "view_of data be = take (snd be - fst be) (drop (fst be) data)"

fun append_submatches :: "string \<Rightarrow> param_appender_t list \<Rightarrow> string list \<Rightarrow> gathered_params \<Rightarrow> gathered_params option" where
  "append_submatches names appenders [] g = Some g"
| "append_submatches names (a # appenders) (v # vs) g = append_submatches names appenders vs (apply_appender names a v g)"
| "append_submatches names [] (v # vs) g = None"

datatype match_failure = Undefined_match | Bad_target_path unescape_failure

definition match_route ::
    "route_matcher_t \<Rightarrow> target_path_holder_t \<Rightarrow> route_params_t \<Rightarrow>
       match_failure + bool \<times> target_path_holder_t \<times> route_params_t" where
  "match_route rm target_path parameters =
     (case tp_view target_path of
        None \<Rightarrow> Inl Undefined_match
      | Some v \<Rightarrow>
          (case try_match v (rm_route_regex rm) of
             None \<Rightarrow> Inr (False, target_path, parameters)
           | Some matches \<Rightarrow>
               (let (data, target_path) = giveout_data target_path;
                    captured_params = the data;
                    appenders = rm_param_appender_sequence rm;
                    missing = length appenders + 1 - length matches
                in case append_submatches (rm_named_params_buffer rm) appenders
                          (map (view_of captured_params) (tl matches) @ replicate missing []) ([], []) of
                     None \<Rightarrow> Inl Undefined_match
                   | Some (named_params, indexed_params) \<Rightarrow>
                       Inr (True, target_path,
                         \<lparr>rp_match = view_of captured_params (hd matches), rp_named_parameters = named_params,
                          rp_indexed_parameters = indexed_params\<rparr>))))"

definition route_matches ::
    "route_matcher_t \<Rightarrow> http_method_id_t \<Rightarrow> target_path_holder_t \<Rightarrow> route_params_t \<Rightarrow>
       match_failure + bool \<times> target_path_holder_t \<times> route_params_t" where
  "route_matches rm meth target_path parameters =
     (if method_match (rm_method_matcher rm) meth then match_route rm target_path parameters
      else Inr (False, target_path, parameters))"

section \<open>The router\<close>

record ('r, 'x) route_entry_t =
  re_matcher :: route_matcher_t
  re_handler :: "'r \<Rightarrow> route_params_t \<Rightarrow> 'x"

record ('r, 'x) express_router_t =
  er_handlers :: "('r, 'x) route_entry_t list"
  er_non_matched_request_handler :: "('r \<Rightarrow> 'x) option"

definition express_router :: "('r, 'x) express_router_t" where
  "express_router = \<lparr>er_handlers = [], er_non_matched_request_handler = None\<rparr>"

definition express_route_entry ::
    "method_matcher_t \<Rightarrow> string \<Rightarrow> options_t \<Rightarrow> ('r \<Rightarrow> route_params_t \<Rightarrow> 'x) \<Rightarrow> path_error + ('r, 'x) route_entry_t" where
  "express_route_entry matcher route_path options handler =
     (case path2regex route_path options of
        Inl e \<Rightarrow> Inl e
      | Inr d \<Rightarrow>
          Inr \<lparr>re_matcher =
                 \<lparr>rm_method_matcher = matcher, rm_route_regex = rd_regex d,
                  rm_named_params_buffer = rd_named_params_buffer d,
                  rm_param_appender_sequence = rd_param_appender_sequence d\<rparr>,
               re_handler = handler\<rparr>)"

definition add_handler ::
    "method_matcher_t \<Rightarrow> string \<Rightarrow> options_t \<Rightarrow> ('r \<Rightarrow> route_params_t \<Rightarrow> 'x) \<Rightarrow> ('r, 'x) express_router_t \<Rightarrow>
       path_error + ('r, 'x) express_router_t" where
  "add_handler matcher route_path options handler router =
     (case express_route_entry matcher route_path options handler of
        Inl e \<Rightarrow> Inl e
      | Inr entry \<Rightarrow> Inr (router\<lparr>er_handlers := er_handlers router @ [entry]\<rparr>))"

text \<open>\<^verbatim>\<open>http_delete\<close>, \<^verbatim>\<open>http_get\<close>, \<^verbatim>\<open>http_head\<close>, \<^verbatim>\<open>http_post\<close> and \<^verbatim>\<open>http_put\<close>.\<close>

definition add_method_handler ::
    "(string \<Rightarrow> int) \<Rightarrow> string \<Rightarrow> string \<Rightarrow> ('r \<Rightarrow> route_params_t \<Rightarrow> 'x) \<Rightarrow> ('r, 'x) express_router_t \<Rightarrow>
       path_error + ('r, 'x) express_router_t" where
  "add_method_handler nodejs_code meth route_path handler router =
     add_handler (Simple_matcher (http_method nodejs_code meth)) route_path options_default handler router"

definition set_non_matched_request_handler ::
    "('r \<Rightarrow> 'x) option \<Rightarrow> ('r, 'x) express_router_t \<Rightarrow> ('r, 'x) express_router_t" where
  "set_non_matched_request_handler nmrh router = router\<lparr>er_non_matched_request_handler := nmrh\<rparr>"

fun find_handler ::
    "('r, 'x) route_entry_t list \<Rightarrow> http_method_id_t \<Rightarrow> target_path_holder_t \<Rightarrow> route_params_t \<Rightarrow>
       match_failure + (('r, 'x) route_entry_t \<times> route_params_t) option" where
  "find_handler [] meth target_path params = Inr None"
| "find_handler (entry # entries) meth target_path params =
     (case route_matches (re_matcher entry) meth target_path params of
        Inl e \<Rightarrow> Inl e
      | Inr (matched, target_path, params) \<Rightarrow>
          (if matched then Inr (Some (entry, params)) else find_handler entries meth target_path params))"

text \<open>The call of the router; \<open>None\<close> is \<^verbatim>\<open>request_not_handled()\<close>.\<close>

definition router_call ::
    "(nat \<Rightarrow> string) \<Rightarrow> ('r, 'x) express_router_t \<Rightarrow> http_request_header_t \<Rightarrow> 'r \<Rightarrow> match_failure + 'x option" where
  "router_call fresh router header req =
     (case target_path_holder fresh (Http_Headers.path header) of
        Inl e \<Rightarrow> Inl (Bad_target_path e)
      | Inr target_path \<Rightarrow>
          (case find_handler (er_handlers router) (m_method header) target_path route_params_default of
             Inl e \<Rightarrow> Inl e
           | Inr (Some (entry, params)) \<Rightarrow> Inr (Some (re_handler entry req params))
           | Inr None \<Rightarrow> Inr (map_option (\<lambda>h. h req) (er_non_matched_request_handler router))))"

section \<open>Parameters of a route\<close>

lemma append_submatches_names:
  "length vs = length ns \<Longrightarrow>
     append_submatches (pre @ concat ns @ suf) (name_spans (length pre) ns) vs (named_params, indexed_params) =
       Some (named_params @ zip ns vs, indexed_params)"
proof (induction ns arbitrary: pre vs named_params)
  case (Cons n ns)
  then obtain v vs' where vs: "vs = v # vs'" "length vs' = length ns"
    by (cases vs) auto
  show ?case
    using Cons.IH [of vs' "pre @ n" "named_params @ [(n, v)]"] vs by simp
qed simp

lemma fits_values: "fits options q ps us \<Longrightarrow> length (param_values ps us) = length (param_names ps)"
  by (induction options q ps us rule: fits.induct) auto

lemma view_of_capture:
  "c \<noteq> None \<Longrightarrow> view_of v (case c of Some be \<Rightarrow> be | None \<Rightarrow> d) = capture_text v c"
  by (auto simp: view_of_def capture_text_def)

text \<open>What a successful match hands to the handler, for the texts of the pieces.\<close>

definition params_of :: "route_piece list \<Rightarrow> string list \<Rightarrow> string \<Rightarrow> route_params_t" where
  "params_of ps us v =
     \<lparr>rp_match = v, rp_named_parameters = zip (param_names ps) (param_values ps us), rp_indexed_parameters = []\<rparr>"

definition piece_entry ::
    "method_matcher_t \<Rightarrow> options_t \<Rightarrow> route_piece list \<Rightarrow> ('r \<Rightarrow> route_params_t \<Rightarrow> 'x) \<Rightarrow> ('r, 'x) route_entry_t" where
  "piece_entry mm options ps handler =
     \<lparr>re_matcher =
        \<lparr>rm_method_matcher = mm, rm_route_regex = route_regex options ps,
         rm_named_params_buffer = concat (param_names ps),
         rm_param_appender_sequence = name_spans 0 (param_names ps)\<rparr>,
      re_handler = handler\<rparr>"

lemma express_route_entry_pieces:
  "pieces_ok ps \<Longrightarrow> usual_options options \<Longrightarrow>
     express_route_entry mm (route_text ps) options handler = Inr (piece_entry mm options ps handler)"
  by (simp add: express_route_entry_def path2regex_pieces piece_entry_def route_regex_def)

lemma length_name_spans [simp]: "length (name_spans k ns) = length ns"
  by (induction ns arbitrary: k) simp_all

lemma tp_data_view: "tp_view tp = Some v \<Longrightarrow> \<exists>d. tp_data tp = Some (v @ d)"
  by (cases "tp_data tp") (auto simp: tp_view_def intro: append_take_drop_id [symmetric])

lemma match_route_pieces:
  assumes options: "usual_options options" and v: "tp_view tp = Some v"
  shows "(\<exists>us t. fits options [] ps us \<and> v = concat us @ t \<and> path_tail options t \<and>
       match_route (re_matcher (piece_entry mm options ps handler)) tp params =
         Inr (True, tp\<lparr>tp_data := None\<rparr>, params_of ps us v)) \<or>
     (\<nexists>us t. fits options [] ps us \<and> v = concat us @ t \<and> path_tail options t) \<and>
       match_route (re_matcher (piece_entry mm options ps handler)) tp params = Inr (False, tp, params)"
proof (cases "regex_search (route_regex options ps) v")
  case None
  then show ?thesis
    using route_search(1) [OF options, of ps v] v
    by (simp add: match_route_def try_match_def piece_entry_def)
next
  case (Some m)
  then obtain us t where us: "fits options [] ps us" "v = concat us @ t" "path_tail options t" and
    m: "m = \<lparr>mr_begin = 0, mr_end = length v,
             mr_captures = set_captures 0 0 ps us (replicate (length (param_names ps)) None)\<rparr>"
    using route_search(2) [OF options] by blast
  let ?caps = "set_captures 0 0 ps us (replicate (length (param_names ps)) None)"
  obtain d where d: "tp_data tp = Some (v @ d)"
    using tp_data_view [OF v] by blast
  have caps: "map (capture_text (v @ d)) ?caps = param_values ps us" "list_all (\<lambda>c. c \<noteq> None) ?caps"
    using set_captures_values [OF us(1), of "v @ d" "[]" "t @ d" 0 0 "[]"] us(2) by simp_all
  have views: "map (view_of (v @ d)) (map (\<lambda>c. case c of Some be \<Rightarrow> be | None \<Rightarrow> (length v, length v)) ?caps) =
      param_values ps us"
    using caps(2) unfolding caps(1) [symmetric] map_map o_def
    by (intro map_cong refl view_of_capture) (simp add: list_all_iff)
  have len: "length ?caps = length (param_names ps)"
    using caps(1) fits_values [OF us(1)] by (metis length_map)
  have "match_route (re_matcher (piece_entry mm options ps handler)) tp params =
      Inr (True, tp\<lparr>tp_data := None\<rparr>, params_of ps us v)"
    using append_submatches_names [of "param_values ps us" "param_names ps" "[]" "[]" "[]" "[]"] fits_values [OF us(1)]
    by (simp add: match_route_def v try_match_def piece_entry_def Some m giveout_data_def d views
        Let_def len params_of_def del: map_map) (simp add: view_of_def)
  with us show ?thesis by blast
qed

text \<open>
  C8: the meaning of a route. A route of literal texts and named parameters, with the usual delimiters, is always
  accepted by the router, and the handler it is registered with is kept.  The route matches exactly the
  paths that consist of a text for every piece, the literals up to case unless the
  route is case sensitive and every value non-empty and without the delimiter, with one more slash at the end when
  the route is not strict; no other parameters than the named ones are set, each with its value.
\<close>

theorem route_matching:
  assumes "pieces_ok ps" "usual_options options" "tp_view tp = Some v"
  shows "\<exists>entry. express_route_entry mm (route_text ps) options handler = Inr entry \<and> re_handler entry = handler \<and>
    ((\<exists>us t. fits options [] ps us \<and> v = concat us @ t \<and> path_tail options t \<and>
        match_route (re_matcher entry) tp params =
          Inr (True, tp\<lparr>tp_data := None\<rparr>,
            \<lparr>rp_match = v, rp_named_parameters = zip (param_names ps) (param_values ps us), rp_indexed_parameters = []\<rparr>)) \<or>
     (\<nexists>us t. fits options [] ps us \<and> v = concat us @ t \<and> path_tail options t) \<and>
        match_route (re_matcher entry) tp params = Inr (False, tp, params))"
  using express_route_entry_pieces [OF assms(1,2), of mm handler] match_route_pieces [OF assms(2,3)]
  unfolding params_of_def [symmetric] by (simp add: piece_entry_def)

text \<open>A piece of evidence for the theorem: the author route of the game server.\<close>

theorem route_matching_witness:
  "let mm = Simple_matcher http_method_unknown; handler = (\<lambda>(r :: unit) rp. rp); params = route_params_default;
       ps = [Literal ''/author/'', Param ''author'']; v = ''/Author/bob'';
       tp = \<lparr>tp_data = Some v, tp_size = 11\<rparr>
   in pieces_ok ps \<and> usual_options options_default \<and> tp_view tp = Some v \<and>
      (\<exists>entry. express_route_entry mm (route_text ps) options_default handler = Inr entry \<and>
        ((\<exists>us t. fits options_default [] ps us \<and> v = concat us @ t \<and> path_tail options_default t \<and>
            match_route (re_matcher entry) tp params =
              Inr (True, tp\<lparr>tp_data := None\<rparr>,
                \<lparr>rp_match = v, rp_named_parameters = zip (param_names ps) (param_values ps us),
                 rp_indexed_parameters = []\<rparr>)) \<or>
         (\<nexists>us t. fits options_default [] ps us \<and> v = concat us @ t \<and> path_tail options_default t) \<and>
            match_route (re_matcher entry) tp params = Inr (False, tp, params)))"
proof -
  let ?ps = "[Literal ''/author/'', Param ''author'']" and ?v = "''/Author/bob''"
  have ok: "pieces_ok ?ps"
    by (simp add: plain_char_def is_word_char_def is_digit_char_def in_char_range_def ends_name_def route_text_def)
  have usual: "usual_options options_default"
    by (simp add: usual_options_def options_default_def)
  have view: "tp_view \<lparr>tp_data = Some ?v, tp_size = 11\<rparr> = Some ?v"
    by (simp add: tp_view_def)
  show ?thesis
    unfolding Let_def using ok usual view route_matching [OF ok usual view, of "Simple_matcher http_method_unknown" "\<lambda>r rp. rp" route_params_default] by blast
qed

text \<open>The parameters by name.\<close>

lemma get_param_zip:
  assumes "distinct ns" "length vs = length ns" "i < length ns" "rp_named_parameters rp = zip ns vs"
  shows "get_param rp (ns ! i) = Some (vs ! i)" "param_by_name rp (ns ! i) = Inr (vs ! i)"
proof -
  have "find (\<lambda>p. ns ! i = fst p) (zip ns vs) = Some (ns ! i, vs ! i)"
    using assms(1-3)
  proof (induction ns arbitrary: vs i)
    case (Cons n ns)
    then show ?case
      by (cases vs; cases i) (auto simp: nth_eq_iff_index_eq)
  qed simp
  then show "get_param rp (ns ! i) = Some (vs ! i)" "param_by_name rp (ns ! i) = Inr (vs ! i)"
    using assms(4) by (simp_all add: get_param_def param_by_name_def find_named_parameter_def)
qed

text \<open>
  C27: reading parameters back. When every parameter of the route ends at a slash or at the end of the route,
  the path that was made from texts for the pieces matches, and the handler reads exactly those texts under
  the names of the parameters; any other name is refused.
\<close>

theorem route_params_read_back:
  assumes "pieces_ok ps" "usual_options options" "segmented options [] ps" "distinct (param_names ps)"
    and "fits options [] ps us" "path_tail options t" "tp_view tp = Some (concat us @ t)"
  shows "\<exists>entry rp. express_route_entry mm (route_text ps) options handler = Inr entry \<and>
    match_route (re_matcher entry) tp params = Inr (True, tp\<lparr>tp_data := None\<rparr>, rp) \<and>
    (\<forall>i < length (param_names ps). get_param rp (param_names ps ! i) = Some (param_values ps us ! i) \<and>
       param_by_name rp (param_names ps ! i) = Inr (param_values ps us ! i)) \<and>
    (\<forall>key. key \<notin> set (param_names ps) \<longrightarrow>
       get_param rp key = None \<and> param_by_name rp key = Inl (Invalid_parameter_name key))"
proof -
  let ?entry = "piece_entry mm options ps handler"
  obtain us' t' where us': "fits options [] ps us'" "concat us @ t = concat us' @ t'" "path_tail options t'"
      "match_route (re_matcher ?entry) tp params = Inr (True, tp\<lparr>tp_data := None\<rparr>, params_of ps us' (concat us @ t))"
    using match_route_pieces [OF assms(2,7), of ps mm handler params] assms(5,6) by blast
  then have "us' = us"
    using fits_unique [OF assms(3,5) us'(1,2) assms(6)] by simp
  with us' have m: "match_route (re_matcher ?entry) tp params =
      Inr (True, tp\<lparr>tp_data := None\<rparr>, params_of ps us (concat us @ t))"
    by simp
  have unknown: "find (\<lambda>p. key = fst p) (zip (param_names ps) (param_values ps us)) = None"
    if "key \<notin> set (param_names ps)" for key
    using that by (auto simp: find_None_iff dest: set_zip_leftD)
  show ?thesis
    using express_route_entry_pieces [OF assms(1,2), of mm handler] m unknown
      get_param_zip [OF assms(4) fits_values [OF assms(5)], of _ "params_of ps us (concat us @ t)"]
    by (intro exI [of _ ?entry] exI [of _ "params_of ps us (concat us @ t)"])
      (simp add: params_of_def get_param_def param_by_name_def find_named_parameter_def)
qed

theorem route_params_read_back_witness:
  "\<exists>entry rp. express_route_entry (Simple_matcher http_method_unknown) ''/users/:id/posts/:post'' options_default (\<lambda>(r :: unit) rp. rp) = Inr entry \<and>
    match_route (re_matcher entry) \<lparr>tp_data = Some ''/Users/42/posts/a.b/'', tp_size = 20\<rparr> route_params_default =
      Inr (True, \<lparr>tp_data = None, tp_size = 20\<rparr>, rp) \<and>
    get_param rp ''id'' = Some ''42'' \<and> get_param rp ''post'' = Some ''a.b'' \<and> get_param rp ''x'' = None"
proof -
  let ?ps = "[Literal ''/users/'', Param ''id'', Literal ''/posts/'', Param ''post'']"
  let ?us = "[''/Users/'', ''42'', ''/posts/'', ''a.b'']"
  have 1: "pieces_ok ?ps"
    by (simp add: plain_char_def is_word_char_def is_digit_char_def in_char_range_def ends_name_def route_text_def)
  have 2: "usual_options options_default"
    by (simp add: usual_options_def options_default_def)
  have 3: "segmented options_default [] ?ps"
    by (simp add: delimiter_after_def make_delimiter_def split_prefix_def options_default_def)
  have 4: "distinct (param_names ?ps)"
    by simp
  have 5: "fits options_default [] ?ps ?us"
    by code_simp
  have 6: "path_tail options_default ''/''"
    by (simp add: path_tail_def options_default_def)
  have 7: "tp_view \<lparr>tp_data = Some ''/Users/42/posts/a.b/'', tp_size = 20\<rparr> = Some (concat ?us @ ''/'')"
    by (simp add: tp_view_def)
  have route: "route_text ?ps = ''/users/:id/posts/:post''"
    by (simp add: route_text_def)
  obtain entry rp where
    e: "express_route_entry (Simple_matcher http_method_unknown) (route_text ?ps) options_default (\<lambda>(r :: unit) rp. rp) = Inr entry"
      "match_route (re_matcher entry) \<lparr>tp_data = Some ''/Users/42/posts/a.b/'', tp_size = 20\<rparr> route_params_default =
         Inr (True, \<lparr>tp_data = None, tp_size = 20\<rparr>, rp)" and
    p: "\<forall>i < length (param_names ?ps). get_param rp (param_names ?ps ! i) = Some (param_values ?ps ?us ! i) \<and>
       param_by_name rp (param_names ?ps ! i) = Inr (param_values ?ps ?us ! i)" and
    n: "\<forall>key. key \<notin> set (param_names ?ps) \<longrightarrow>
       get_param rp key = None \<and> param_by_name rp key = Inl (Invalid_parameter_name key)"
    using route_params_read_back [OF 1 2 3 4 5 6 7, of "Simple_matcher http_method_unknown" "\<lambda>r rp. rp" route_params_default]
    by auto
  have "get_param rp ''id'' = Some ''42''" "get_param rp ''post'' = Some ''a.b''" "get_param rp ''x'' = None"
    using p [rule_format, of 0] p [rule_format, of 1] n [rule_format, of "''x''"] by simp_all
  with e show ?thesis
    unfolding route by blast
qed

section \<open>The target path is the normal form\<close>

text \<open>Normalisation never lengthens a text, and one it does not shorten is already normal.\<close>

lemma apsnd_eq_iff: "apsnd f p = (a, b) \<longleftrightarrow> (\<exists>b'. p = (a, b') \<and> b = f b')"
  by (cases p) auto

lemma normalized_length:
  "normalized pos u expect what [] = (Inr (), out) \<Longrightarrow> length out \<le> length what \<and> (length out = length what \<longrightarrow> out = what)"
proof (induction "length what" arbitrary: pos u expect what out rule: less_induct)
  case less
  show ?case
  proof (cases what)
    case Nil
    then show ?thesis
      using less.prems by (auto simp: normalized_def split: if_splits)
  next
    case (Cons c rest)
    show ?thesis
    proof (cases "c = CHR ''%''")
      case False
      then obtain o1 where "normalized (pos + 1) u False rest [] = (Inr (), o1)" "out = c # o1"
        using less.prems Cons by (auto simp: normalized_char apsnd_eq_iff split: if_splits)
      then show ?thesis
        using less.hyps [of rest "pos + 1" u False o1] Cons by simp
    next
      case True
      then obtain c1 c2 rest' where rest: "rest = c1 # c2 # rest'"
        using less.prems Cons by (auto simp: normalized_percent split: list.splits)
      obtain v e k o1 where o1: "normalized (pos + 3) v e rest' [] = (Inr (), o1)" "out = k @ o1"
        "k = [CHR ''%'', c1, c2] \<or> length k = 1"
        using less.prems Cons True rest by (auto simp: normalized_percent Let_def apsnd_eq_iff split: if_splits)
      then show ?thesis
        using less.hyps [of rest' "pos + 3" v e o1] Cons True rest by auto
    qed
  qed
qed

text \<open>
  C28: the path routes are matched against. Whatever the fresh buffer holds, and although the transformation is skipped
  when it would not change the length, the target path is the normal form of the path of the request;
  a path whose normalisation fails is refused with the same failure.
\<close>

theorem target_path_is_normal_form:
  assumes "\<And>n. length (fresh n) = n" "length dest = length original_path"
  shows "case normalize_to original_path dest of
      (Inl e, _) \<Rightarrow> target_path_holder fresh original_path = Inl e
    | (Inr _, buf, n) \<Rightarrow> (\<exists>h. target_path_holder fresh original_path = Inr h \<and> tp_view h = Some (take n buf))"
proof -
  obtain r out where r: "normalized 0 utf8_checker_init False original_path [] = (r, out)"
    by force
  have to: "normalize_to original_path d = (r, out @ drop (length out) d, length out)" if "length out \<le> length d" for d
    using run_normalization_buffer [of 0 utf8_checker_init False original_path r out "[]" d] r that
    by (simp add: normalize_to_def)
  show ?thesis
  proof (cases r)
    case (Inl e)
    moreover have "fst (normalize_to original_path dest) = r"
      using run_normalization_verdict [of write_dest write_dest_3 0 utf8_checker_init False original_path "(dest, 0)" "[]"] r
      by (simp add: normalize_to_def)
    ultimately show ?thesis
      using r by (cases "normalize_to original_path dest") (simp add: target_path_holder_def estimate_normalized)
  next
    case (Inr x)
    then have out: "length out \<le> length original_path" "length out = length original_path \<longrightarrow> out = original_path"
      using normalized_length [of 0 utf8_checker_init False original_path out] r by simp_all
    then have "normalize_to original_path dest = (r, out @ drop (length out) dest, length out)"
      using assms(2) by (intro to) simp
    then show ?thesis
      using r Inr out to [of "fresh (length out)"] assms(1)
      by (auto simp: target_path_holder_def estimate_normalized tp_view_def)
  qed
qed

theorem target_path_is_normal_form_witness:
  "\<exists>h. target_path_holder (\<lambda>n. replicate n CHR ''.'') ''/%41%2fb'' = Inr h \<and> tp_view h = Some ''/A%2fb''"
proof -
  have "normalize_to ''/%41%2fb'' ''........'' = (Inr (), ''/A%2fb..'', 6)"
    by code_simp
  then show ?thesis
    using target_path_is_normal_form [of "\<lambda>n. replicate n CHR ''.''" "''........''" "''/%41%2fb''"] by simp
qed

section \<open>The choice of a handler\<close>

lemma match_route_no_match: "match_route rm tp params = Inr (False, tp', params') \<Longrightarrow> tp' = tp \<and> params' = params"
  by (auto simp: match_route_def giveout_data_def Let_def split: option.splits prod.splits)

lemma route_matches_no_match: "route_matches rm meth tp params = Inr (False, tp', params') \<Longrightarrow> tp' = tp \<and> params' = params"
  by (auto simp: route_matches_def match_route_no_match split: if_splits)

text \<open>The entry that is called is the first one, in the order of registration, that matches.\<close>

lemma find_handler_first:
  "find_handler entries meth tp params =
     (case find (\<lambda>e. route_matches (re_matcher e) meth tp params \<noteq> Inr (False, tp, params)) entries of
        None \<Rightarrow> Inr None
      | Some e \<Rightarrow>
          (case route_matches (re_matcher e) meth tp params of
             Inl err \<Rightarrow> Inl err
           | Inr (_, _, rp) \<Rightarrow> Inr (Some (e, rp))))"
proof (induction entries)
  case (Cons e entries)
  show ?case
  proof (cases "route_matches (re_matcher e) meth tp params")
    case (Inr x)
    obtain b tp' rp where x: "x = (b, tp', rp)"
      by (cases x)
    with Inr route_matches_no_match [of "re_matcher e" meth tp params tp' rp] Cons show ?thesis
      by (cases b) simp_all
  qed simp
qed simp

section \<open>Escaped brackets in the pattern of a parameter\<close>

text \<open>
  \<open>escape_group\<close> escapes the brackets of a pattern that are escaped already, so they become a
  capturing group: the route is accepted, and a path that matches has more groups than there are appenders.
\<close>

lemma escaped_brackets_undefined:
  "case express_route_entry (Simple_matcher http_method_unknown)
          [CHR ''/'', CHR '':'', CHR ''a'', CHR ''('', CHR 0x5C, CHR ''('', CHR ''x'', CHR 0x5C, CHR '')'', CHR '')'']
          options_default (\<lambda>(r :: unit) rp. rp) of
     Inl e \<Rightarrow> False
   | Inr entry \<Rightarrow>
       match_route (re_matcher entry) \<lparr>tp_data = Some [CHR ''/'', CHR 0x5C, CHR ''x'', CHR 0x5C], tp_size = 4\<rparr>
         route_params_default = Inl Undefined_match"
  by code_simp

end
