(* ===== verification/Buffers.thy ===== *)
theory Buffers
  imports Prelude
begin

text \<open>
  Output data: \<^verbatim>\<open>restinio/sendfile.hpp\<close> (the description of a file transfer) and
  \<^verbatim>\<open>restinio/buffers.hpp\<close> (writable items and write groups).

  A writable item is one of the classes derived from \<^verbatim>\<open>writable_base_t\<close>, with the bytes it
  stands for; moving an item keeps them. A callback is identified by a number, and an operation
  that invokes callbacks returns the list of invocations with their status. A function object
  that was moved from holds no callback. Opening a file and reading its meta data is the
  operating system's part: the descriptor and the meta data are arguments.
\<close>

subsection \<open>File transfers\<close>

record file_meta_t =
  m_file_total_size :: u64
  m_last_modified_at :: int

record sendfile_t =
  m_file_descriptor :: int
  m_meta :: file_meta_t
  m_offset :: u64
  m_size :: u64
  m_chunk_size :: u64
  m_timelimit :: int

datatype sendfile_error = Invalid_file_descriptor | Invalid_file_offset u64 u64

definition sendfile_default_chunk_size :: u64 where
  "sendfile_default_chunk_size = 1024 * 1024"

definition sendfile_max_chunk_size :: u64 where
  "sendfile_max_chunk_size = 1024 * 1024 * 1024"

definition clarify_chunk_size :: "u64 \<Rightarrow> u64" where
  "clarify_chunk_size chunk_size_value =
     (if 0 = chunk_size_value then sendfile_default_chunk_size
      else if sendfile_max_chunk_size < chunk_size_value then sendfile_max_chunk_size
      else chunk_size_value)"

definition sendfile :: "int \<Rightarrow> file_meta_t \<Rightarrow> u64 \<Rightarrow> sendfile_t" where
  "sendfile fd meta chunk_size =
     \<lparr>m_file_descriptor = fd, m_meta = meta, m_offset = 0, m_size = m_file_total_size meta,
      m_chunk_size = clarify_chunk_size chunk_size, m_timelimit = 0\<rparr>"

definition sendfile_is_valid :: "sendfile_t \<Rightarrow> bool" where
  "sendfile_is_valid sf \<longleftrightarrow> -1 \<noteq> m_file_descriptor sf"

text \<open>The offset is signed in the source and compared after a cast, here it is the cast value.\<close>

definition offset_and_size :: "u64 \<Rightarrow> u64 \<Rightarrow> sendfile_t \<Rightarrow> sendfile_error + sendfile_t" where
  "offset_and_size offset_value size_value sf =
     (if \<not> sendfile_is_valid sf then Inl Invalid_file_descriptor
      else if m_file_total_size (m_meta sf) < offset_value then
        Inl (Invalid_file_offset offset_value (m_file_total_size (m_meta sf)))
      else Inr (sf\<lparr>m_offset := offset_value,
                   m_size := min (m_file_total_size (m_meta sf) - offset_value) size_value\<rparr>))"

definition sendfile_chunk_size :: "u64 \<Rightarrow> sendfile_t \<Rightarrow> sendfile_error + sendfile_t" where
  "sendfile_chunk_size chunk sf =
     (if \<not> sendfile_is_valid sf then Inl Invalid_file_descriptor
      else Inr (sf\<lparr>m_chunk_size := clarify_chunk_size chunk\<rparr>))"

definition sendfile_timelimit :: "int \<Rightarrow> sendfile_t \<Rightarrow> sendfile_error + sendfile_t" where
  "sendfile_timelimit timelimit_value sf =
     (if \<not> sendfile_is_valid sf then Inl Invalid_file_descriptor
      else Inr (sf\<lparr>m_timelimit := max timelimit_value 0\<rparr>))"

definition takeaway_file_descriptor :: "sendfile_t \<Rightarrow> int \<times> sendfile_t" where
  "takeaway_file_descriptor target = (m_file_descriptor target, target\<lparr>m_file_descriptor := -1\<rparr>)"

subsection \<open>Writable items\<close>

datatype writable_item_t =
    Empty_buf
  | Const_buf string
  | Datasizeable_buf string
  | Shared_datasizeable_buf string
  | Sendfile_write_operation sendfile_t

datatype writable_item_type_t = Trivial_write_operation | File_write_operation

definition write_type :: "writable_item_t \<Rightarrow> writable_item_type_t" where
  "write_type item = (case item of Sendfile_write_operation _ \<Rightarrow> File_write_operation | _ \<Rightarrow> Trivial_write_operation)"

definition item_size :: "writable_item_t \<Rightarrow> nat" where
  "item_size item =
     (case item of
        Empty_buf \<Rightarrow> 0
      | Const_buf s \<Rightarrow> length s
      | Datasizeable_buf s \<Rightarrow> length s
      | Shared_datasizeable_buf s \<Rightarrow> length s
      | Sendfile_write_operation sf \<Rightarrow> unat (m_size sf))"

text \<open>
  The bytes that Asio gets for a trivial buffer. Asking a file transfer for its buffer is a call
  through the wrong class, undefined behaviour: no result.
\<close>

definition item_buf :: "writable_item_t \<Rightarrow> string option" where
  "item_buf item =
     (case item of
        Empty_buf \<Rightarrow> Some []
      | Const_buf s \<Rightarrow> Some s
      | Datasizeable_buf s \<Rightarrow> Some s
      | Shared_datasizeable_buf s \<Rightarrow> Some s
      | Sendfile_write_operation sf \<Rightarrow> None)"

subsection \<open>Write groups\<close>

datatype write_status = Write_ok | Write_was_not_executed | Write_group_destroyed_passively | Write_failed int

type_synonym notification = "nat \<times> write_status"

record write_group_t =
  m_items :: "writable_item_t list"
  m_status_line_size :: nat
  m_after_write_notificator :: "nat option"

datatype write_group_error = Empty_write_group | First_item_not_trivial | First_item_too_small

definition write_group :: "writable_item_t list \<Rightarrow> write_group_t" where
  "write_group items = \<lparr>m_items = items, m_status_line_size = 0, m_after_write_notificator = None\<rparr>"

definition set_status_line_size :: "nat \<Rightarrow> write_group_t \<Rightarrow> write_group_error + write_group_t" where
  "set_status_line_size n wg =
     (if 0 \<noteq> n then
        (if m_items wg = [] then Inl Empty_write_group
         else if Trivial_write_operation \<noteq> write_type (hd (m_items wg)) then Inl First_item_not_trivial
         else if item_size (hd (m_items wg)) < n then Inl First_item_too_small
         else Inr (wg\<lparr>m_status_line_size := n\<rparr>))
      else Inr wg)"

definition set_after_write_notificator :: "nat \<Rightarrow> write_group_t \<Rightarrow> write_group_t" where
  "set_after_write_notificator notificator wg = wg\<lparr>m_after_write_notificator := Some notificator\<rparr>"

definition has_after_write_notificator :: "write_group_t \<Rightarrow> bool" where
  "has_after_write_notificator wg \<longleftrightarrow> m_after_write_notificator wg \<noteq> None"

definition invoke_after_write_notificator_if_exists ::
    "write_status \<Rightarrow> write_group_t \<Rightarrow> notification list \<times> write_group_t" where
  "invoke_after_write_notificator_if_exists ec wg =
     (case m_after_write_notificator wg of
        None \<Rightarrow> ([], wg)
      | Some cb \<Rightarrow> ([(cb, ec)], wg\<lparr>m_after_write_notificator := None\<rparr>))"

definition destroy_write_group :: "write_group_t \<Rightarrow> notification list" where
  "destroy_write_group wg =
     (if has_after_write_notificator wg
      then fst (invoke_after_write_notificator_if_exists Write_group_destroyed_passively wg) else [])"

definition write_group_reset :: "write_group_t \<Rightarrow> write_group_t" where
  "write_group_reset wg = wg\<lparr>m_items := [], m_status_line_size := 0, m_after_write_notificator := None\<rparr>"

definition merge_groups :: "write_group_t \<Rightarrow> write_group_t \<Rightarrow> write_group_t" where
  "merge_groups wg second =
     wg\<lparr>m_items := m_items wg @ m_items second, m_after_write_notificator := m_after_write_notificator second\<rparr>"

text \<open>The callbacks a group still owes.\<close>

definition pending :: "write_group_t \<Rightarrow> nat list" where
  "pending wg = (case m_after_write_notificator wg of None \<Rightarrow> [] | Some cb \<Rightarrow> [cb])"

lemma pending_merge [simp]: "\<not> has_after_write_notificator wg \<Longrightarrow> pending (merge_groups wg second) = pending wg @ pending second"
  by (simp add: pending_def merge_groups_def has_after_write_notificator_def)

lemma invoked_pending: "fst (invoke_after_write_notificator_if_exists ec wg) = map (\<lambda>cb. (cb, ec)) (pending wg)"
  by (simp add: invoke_after_write_notificator_if_exists_def pending_def split: option.splits)

lemma destroyed_pending: "destroy_write_group wg = map (\<lambda>cb. (cb, Write_group_destroyed_passively)) (pending wg)"
  by (simp add: destroy_write_group_def invoked_pending has_after_write_notificator_def) (simp add: pending_def)

subsection \<open>Properties\<close>

text \<open>
  A file transfer stays inside the file. When setting an offset and a size succeeds, offset
  plus size, computed without wrap-around, does not exceed the file size, and the size is at most
  the requested one; it fails exactly for a closed descriptor or an offset beyond the end.
\<close>

theorem offset_and_size_in_file:
  "(case offset_and_size offset_value size_value sf of
      Inr sf' \<Rightarrow> unat (m_offset sf') + unat (m_size sf') \<le> unat (m_file_total_size (m_meta sf')) \<and>
        m_size sf' \<le> size_value \<and> m_offset sf' = offset_value
    | Inl Invalid_file_descriptor \<Rightarrow> m_file_descriptor sf = -1
    | Inl (Invalid_file_offset off bound) \<Rightarrow> bound < off)"
proof (cases "m_file_total_size (m_meta sf) < offset_value")
  case False
  let ?rest = "m_file_total_size (m_meta sf) - offset_value"
  have "unat ?rest = unat (m_file_total_size (m_meta sf)) - unat offset_value"
    using False by (intro unat_sub) (simp add: not_less)
  moreover have "unat offset_value \<le> unat (m_file_total_size (m_meta sf))"
    using False by (simp add: word_le_nat_alt [symmetric] not_less)
  moreover have "unat (min ?rest size_value) \<le> unat ?rest" by (simp add: word_le_nat_alt [symmetric])
  ultimately show ?thesis
    using False by (auto simp: offset_and_size_def sendfile_is_valid_def)
qed (auto simp: offset_and_size_def sendfile_is_valid_def)

text \<open>
  Chunk sizes. The guarded chunk size is always in the interval from 1 to the maximum; for the
  value zero it is the default chunk size (and not 1, as the comment on the function says).
\<close>

theorem clarify_chunk_size_range:
  "1 \<le> clarify_chunk_size n \<and> clarify_chunk_size n \<le> sendfile_max_chunk_size \<and> clarify_chunk_size 0 \<noteq> 1"
proof -
  have "1 \<le> n" if "n \<noteq> 0" for n :: u64 using that by (simp add: word_le_nat_alt unat_gt_0 Suc_le_eq)
  then show ?thesis
    by (auto simp: clarify_chunk_size_def sendfile_default_chunk_size_def sendfile_max_chunk_size_def not_less)
qed

end
