(* ===== verification/Response_Coordinator.thy ===== *)
theory Response_Coordinator
  imports Buffers "HOL-Library.Sublist"
begin

text \<open>
  \<^verbatim>\<open>restinio/impl/response_coordinator.hpp\<close>: the coordinator of pipelined responses of one
  connection, over a ring buffer of response contexts.

  Request ids are \<^verbatim>\<open>unsigned int\<close>, so 32-bit words that wrap around. A throwing function returns
  \<open>Inl\<close> of the error; \<^verbatim>\<open>append_response\<close> takes its write group by value, so when it throws the
  group is destroyed and its callback runs, which the second component of the result records.

  The ring buffer implements the interface \<open>bounded_fifo\<close>. Shown on top of it: responses leave in
  the order of their requests, each one whole before the next one starts, with
  every item and every callback in the order in which they were appended, as long as ids have
  not wrapped around; and what goes wrong when they do.
\<close>

subsection \<open>Response contexts\<close>

datatype response_parts_attr_t = Not_final_parts | Final_parts
datatype response_connection_attr_t = Connection_keepalive | Connection_close

definition response_connection_attr :: "bool \<Rightarrow> response_connection_attr_t" where
  "response_connection_attr should_keep_alive =
     (if should_keep_alive then Connection_keepalive else Connection_close)"

record response_output_flags_t =
  m_response_parts :: response_parts_attr_t
  m_response_connection :: response_connection_attr_t

record response_context_t =
  m_request_id :: u32
  m_write_groups :: "write_group_t list"
  m_response_output_flags :: response_output_flags_t

definition response_context :: response_context_t where
  "response_context =
     \<lparr>m_request_id = 0, m_write_groups = [],
      m_response_output_flags =
        \<lparr>m_response_parts = Not_final_parts, m_response_connection = Connection_keepalive\<rparr>\<rparr>"

definition reinit :: "u32 \<Rightarrow> response_context_t \<Rightarrow> response_context_t" where
  "reinit request_id ctx =
     ctx\<lparr>m_request_id := request_id,
         m_response_output_flags :=
           \<lparr>m_response_parts = Not_final_parts, m_response_connection = Connection_keepalive\<rparr>\<rparr>"

definition enqueue_group :: "write_group_t \<Rightarrow> response_context_t \<Rightarrow> response_context_t" where
  "enqueue_group wg ctx =
     (if m_write_groups ctx \<noteq> [] \<and> \<not> has_after_write_notificator (last (m_write_groups ctx))
         \<and> 0 = m_status_line_size wg
      then ctx\<lparr>m_write_groups := butlast (m_write_groups ctx) @ [merge_groups (last (m_write_groups ctx)) wg]\<rparr>
      else ctx\<lparr>m_write_groups := m_write_groups ctx @ [wg]\<rparr>)"

definition context_empty :: "response_context_t \<Rightarrow> bool" where
  "context_empty ctx \<longleftrightarrow> m_write_groups ctx = []"

definition dequeue_group :: "response_context_t \<Rightarrow> write_group_t \<times> response_context_t" where
  "dequeue_group ctx = (hd (m_write_groups ctx), ctx\<lparr>m_write_groups := tl (m_write_groups ctx)\<rparr>)"

definition is_complete :: "response_context_t \<Rightarrow> bool" where
  "is_complete ctx \<longleftrightarrow>
     m_write_groups ctx = [] \<and> Final_parts = m_response_parts (m_response_output_flags ctx)"

subsection \<open>The table of contexts\<close>

datatype coordinator_error =
    Table_is_full | Table_is_empty | Coordinator_is_closed | No_context u32 | Marked_as_complete

record response_context_table_t =
  m_contexts :: "response_context_t list"
  m_first_element_index :: nat
  m_elements_exists :: nat

definition response_context_table :: "nat \<Rightarrow> response_context_table_t" where
  "response_context_table max_elements_count =
     \<lparr>m_contexts = replicate max_elements_count response_context, m_first_element_index = 0, m_elements_exists = 0\<rparr>"

definition table_empty :: "response_context_table_t \<Rightarrow> bool" where
  "table_empty t \<longleftrightarrow> m_elements_exists t = 0"

definition table_is_full :: "response_context_table_t \<Rightarrow> bool" where
  "table_is_full t \<longleftrightarrow> length (m_contexts t) = m_elements_exists t"

definition table_front :: "response_context_table_t \<Rightarrow> response_context_t" where
  "table_front t = m_contexts t ! m_first_element_index t"

definition table_back :: "response_context_table_t \<Rightarrow> response_context_t" where
  "table_back t =
     m_contexts t ! ((m_first_element_index t + (m_elements_exists t - 1)) mod length (m_contexts t))"

text \<open>Writing through the references that \<^verbatim>\<open>front\<close> and \<^verbatim>\<open>get_by_req_id\<close> return.\<close>

definition put_context :: "nat \<Rightarrow> response_context_t \<Rightarrow> response_context_table_t \<Rightarrow> response_context_table_t" where
  "put_context i ctx t = t\<lparr>m_contexts := (m_contexts t)[i := ctx]\<rparr>"

definition get_real_index :: "u32 \<Rightarrow> response_context_table_t \<Rightarrow> nat" where
  "get_real_index req_id t =
     (let distance_from_first = req_id - m_request_id (table_front t)
      in (m_first_element_index t + unat distance_from_first) mod length (m_contexts t))"

definition get_by_req_id :: "u32 \<Rightarrow> response_context_table_t \<Rightarrow> nat option" where
  "get_by_req_id req_id t =
     (if table_empty t \<or> req_id < m_request_id (table_front t) \<or> m_request_id (table_back t) < req_id
      then None else Some (get_real_index req_id t))"

definition push_response_context ::
    "u32 \<Rightarrow> response_context_table_t \<Rightarrow> coordinator_error + response_context_table_t" where
  "push_response_context req_id t =
     (if table_is_full t then Inl Table_is_full
      else
        let i = (m_first_element_index t + m_elements_exists t) mod length (m_contexts t);
            t = put_context i (reinit req_id (m_contexts t ! i)) t
        in Inr (t\<lparr>m_elements_exists := m_elements_exists t + 1\<rparr>))"

definition pop_response_context_nonchecked :: "response_context_table_t \<Rightarrow> response_context_table_t" where
  "pop_response_context_nonchecked t =
     (let t = t\<lparr>m_elements_exists := m_elements_exists t - 1, m_first_element_index := m_first_element_index t + 1\<rparr>
      in if length (m_contexts t) = m_first_element_index t then t\<lparr>m_first_element_index := 0\<rparr> else t)"

definition pop_response_context :: "response_context_table_t \<Rightarrow> coordinator_error + response_context_table_t" where
  "pop_response_context t =
     (if table_empty t then Inl Table_is_empty else Inr (pop_response_context_nonchecked t))"

subsection \<open>The coordinator\<close>

record response_coordinator_t =
  m_request_id_counter :: u32
  m_connection_closed_response_occured :: bool
  m_context_table :: response_context_table_t

definition response_coordinator :: "nat \<Rightarrow> response_coordinator_t" where
  "response_coordinator max_req_count =
     \<lparr>m_request_id_counter = 0, m_connection_closed_response_occured = False,
      m_context_table = response_context_table max_req_count\<rparr>"

definition closed :: "response_coordinator_t \<Rightarrow> bool" where
  "closed c = m_connection_closed_response_occured c"

definition is_able_to_get_more_messages :: "response_coordinator_t \<Rightarrow> bool" where
  "is_able_to_get_more_messages c \<longleftrightarrow> \<not> closed c \<and> \<not> table_is_full (m_context_table c)"

definition register_new_request ::
    "response_coordinator_t \<Rightarrow> coordinator_error + u32 \<times> response_coordinator_t" where
  "register_new_request c =
     (case push_response_context (m_request_id_counter c) (m_context_table c) of
        Inl e \<Rightarrow> Inl e
      | Inr t \<Rightarrow> Inr (m_request_id_counter c,
                  c\<lparr>m_context_table := t, m_request_id_counter := m_request_id_counter c + 1\<rparr>))"

definition append_response ::
    "u32 \<Rightarrow> response_output_flags_t \<Rightarrow> write_group_t \<Rightarrow> response_coordinator_t \<Rightarrow>
       (coordinator_error + response_coordinator_t) \<times> notification list" where
  "append_response req_id response_output_flags wg c =
     (if closed c then (Inl Coordinator_is_closed, destroy_write_group wg)
      else case get_by_req_id req_id (m_context_table c) of
        None \<Rightarrow> (Inl (No_context req_id), destroy_write_group wg)
      | Some i \<Rightarrow>
          (let ctx = m_contexts (m_context_table c) ! i
           in if Final_parts = m_response_parts (m_response_output_flags ctx) then
                (Inl Marked_as_complete, destroy_write_group wg)
              else
                let ctx = ctx\<lparr>m_response_output_flags := response_output_flags\<rparr>;
                    ctx = enqueue_group wg ctx
                in (Inr (c\<lparr>m_context_table := put_context i ctx (m_context_table c)\<rparr>), [])))"

definition pop_ready_buffers ::
    "response_coordinator_t \<Rightarrow> coordinator_error + (write_group_t \<times> u32) option \<times> response_coordinator_t" where
  "pop_ready_buffers c =
     (if closed c then Inl Coordinator_is_closed
      else if \<not> table_empty (m_context_table c) then
        (let current_ctx = table_front (m_context_table c)
         in if \<not> context_empty current_ctx then
              (let (wg, current_ctx) = dequeue_group current_ctx;
                   t = put_context (m_first_element_index (m_context_table c)) current_ctx (m_context_table c);
                   c = c\<lparr>m_context_table := t\<rparr>;
                   result = Some (wg, m_request_id current_ctx)
               in if is_complete current_ctx then
                    (let c = c\<lparr>m_connection_closed_response_occured :=
                           Final_parts = m_response_parts (m_response_output_flags current_ctx)
                           \<and> Connection_close = m_response_connection (m_response_output_flags current_ctx)\<rparr>
                     in case pop_response_context (m_context_table c) of
                          Inl e \<Rightarrow> Inl e
                        | Inr t \<Rightarrow> Inr (result, c\<lparr>m_context_table := t\<rparr>))
                  else Inr (result, c))
            else Inr (None, c))
      else Inr (None, c))"

function drain_context :: "response_context_t \<Rightarrow> notification list \<times> response_context_t" where
  "drain_context current_ctx =
     (if context_empty current_ctx then ([], current_ctx)
      else
        let (wg, current_ctx) = dequeue_group current_ctx;
            (called, wg) = invoke_after_write_notificator_if_exists Write_was_not_executed wg;
            (rest, current_ctx) = drain_context current_ctx
        in (called @ destroy_write_group wg @ rest, current_ctx))"
  by auto
termination
  by (relation "measure (\<lambda>ctx. length (m_write_groups ctx))") (auto simp: context_empty_def dequeue_group_def)

declare drain_context.simps [simp del]

function reset_table :: "response_context_table_t \<Rightarrow> notification list \<times> response_context_table_t" where
  "reset_table t =
     (if table_empty t then ([], t)
      else
        let (called, ctx) = drain_context (table_front t);
            t = pop_response_context_nonchecked (put_context (m_first_element_index t) ctx t);
            (rest, t) = reset_table t
        in (called @ rest, t))"
  by auto
termination
  by (relation "measure m_elements_exists")
    (auto simp: table_empty_def pop_response_context_nonchecked_def put_context_def Let_def)

declare reset_table.simps [simp del]

definition coordinator_reset :: "response_coordinator_t \<Rightarrow> notification list \<times> response_coordinator_t" where
  "coordinator_reset c =
     (let (called, t) = reset_table (m_context_table c) in (called, c\<lparr>m_context_table := t\<rparr>))"

subsection \<open>The interface of the table\<close>

definition fresh_context :: "u32 \<Rightarrow> response_context_t" where
  "fresh_context req_id = reinit req_id response_context"

text \<open>
  A bounded queue of contexts. A context may only be removed when its write groups have been
  drained: the implementation reuses its slot without clearing it.
\<close>

locale bounded_fifo =
  fixes inv :: "'q \<Rightarrow> bool"
    and contexts :: "'q \<Rightarrow> response_context_t list"
    and capacity :: "'q \<Rightarrow> nat"
    and is_empty :: "'q \<Rightarrow> bool"
    and is_full :: "'q \<Rightarrow> bool"
    and push :: "u32 \<Rightarrow> 'q \<Rightarrow> coordinator_error + 'q"
    and pop :: "'q \<Rightarrow> coordinator_error + 'q"
    and front :: "'q \<Rightarrow> response_context_t"
    and set_front :: "response_context_t \<Rightarrow> 'q \<Rightarrow> 'q"
  assumes is_empty_iff: "inv q \<Longrightarrow> is_empty q \<longleftrightarrow> contexts q = []"
    and is_full_iff: "inv q \<Longrightarrow> is_full q \<longleftrightarrow> length (contexts q) = capacity q"
    and bounded: "inv q \<Longrightarrow> length (contexts q) \<le> capacity q"
    and push_full: "inv q \<Longrightarrow> is_full q \<Longrightarrow> push req_id q = Inl Table_is_full"
    and push_free: "inv q \<Longrightarrow> \<not> is_full q \<Longrightarrow>
      \<exists>q'. push req_id q = Inr q' \<and> inv q' \<and> capacity q' = capacity q \<and> contexts q' = contexts q @ [fresh_context req_id]"
    and pop_empty: "inv q \<Longrightarrow> contexts q = [] \<Longrightarrow> pop q = Inl Table_is_empty"
    and pop_drained: "inv q \<Longrightarrow> contexts q = ctx # rest \<Longrightarrow> m_write_groups ctx = [] \<Longrightarrow>
      \<exists>q'. pop q = Inr q' \<and> inv q' \<and> capacity q' = capacity q \<and> contexts q' = rest"
    and front_hd: "inv q \<Longrightarrow> contexts q = ctx # rest \<Longrightarrow> front q = ctx"
    and set_front_hd: "inv q \<Longrightarrow> contexts q = ctx # rest \<Longrightarrow>
      inv (set_front ctx' q) \<and> capacity (set_front ctx' q) = capacity q \<and> contexts (set_front ctx' q) = ctx' # rest"
begin

lemma push_Inr:
  assumes "inv q" "push req_id q = Inr q'"
  shows "inv q' \<and> capacity q' = capacity q \<and> contexts q' = contexts q @ [fresh_context req_id] \<and>
    length (contexts q) < capacity q"
proof -
  have "\<not> is_full q" using assms push_full [of q req_id] by auto
  with assms push_free [of q req_id] is_full_iff bounded [of q] show ?thesis by auto
qed

text \<open>Removing the context at the front after its groups have been taken.\<close>

lemma pop_after_drain:
  assumes "inv q" "contexts q = ctx # rest" "m_write_groups ctx' = []"
  shows "\<exists>q'. pop (set_front ctx' q) = Inr q' \<and> inv q' \<and> capacity q' = capacity q \<and> contexts q' = rest"
  using set_front_hd [OF assms(1,2), of ctx'] pop_drained [of "set_front ctx' q" ctx' rest] assms(3) by auto

text \<open>The ids in the queue are consecutive numbers below a bound.\<close>

definition consecutive :: "nat \<Rightarrow> 'q \<Rightarrow> bool" where
  "consecutive n q \<longleftrightarrow>
     length (contexts q) \<le> n \<and> map (unat \<circ> m_request_id) (contexts q) = [n - length (contexts q)..<n]"

lemma consecutive_push:
  assumes "inv q" "consecutive n q" "push req_id q = Inr q'" "unat req_id = n"
  shows "consecutive (Suc n) q'"
  using assms push_Inr [OF assms(1,3)]
  by (simp add: consecutive_def fresh_context_def reinit_def upt_Suc_append)

lemma consecutive_rest:
  assumes "consecutive n q" "contexts q = ctx # rest" "contexts q' = rest"
  shows "consecutive n q'"
proof -
  have "[n - Suc (length rest)..<n] = (n - Suc (length rest)) # [n - length rest..<n]"
    using assms(1,2) by (subst upt_conv_Cons) (auto simp: consecutive_def Suc_diff_Suc)
  with assms show ?thesis by (simp add: consecutive_def)
qed

lemma consecutive_nth:
  "consecutive n q \<Longrightarrow> k < length (contexts q) \<Longrightarrow> unat (m_request_id (contexts q ! k)) = n - length (contexts q) + k"
proof -
  assume c: "consecutive n q" and k: "k < length (contexts q)"
  have "unat (m_request_id (contexts q ! k)) = map (unat \<circ> m_request_id) (contexts q) ! k"
    using k by simp
  also have "\<dots> = [n - length (contexts q)..<n] ! k"
    using c unfolding consecutive_def by simp
  also have "\<dots> = n - length (contexts q) + k"
    using c k by (intro nth_upt) (auto simp: consecutive_def)
  finally show ?thesis .
qed

end

subsection \<open>The ring buffer implements the interface\<close>

lemma add_mod_inj:
  fixes m i k n :: nat
  assumes "(m + i) mod n = (m + k) mod n" "i < n" "k < n"
  shows "i = k"
proof -
  have "i = k" if "(m + i) mod n = (m + k) mod n" "i \<le> k" "k < n" for i k
  proof -
    have "n dvd (m + k) - (m + i)"
      using that mod_eq_dvd_iff_nat [of "m + i" "m + k" n] by simp
    then have "n dvd k - i" by simp
    with that show ?thesis by (metis dvd_imp_le le_antisym less_imp_diff_less not_less zero_less_diff)
  qed
  from this [of i k] this [of k i] assms show ?thesis by (metis nat_le_linear)
qed

lemma rotate_update:
  assumes "k < length xs"
  shows "rotate m (xs[(m + k) mod length xs := x]) = (rotate m xs)[k := x]"
proof (rule nth_equalityI)
  fix i assume "i < length (rotate m (xs[(m + k) mod length xs := x]))"
  then have i: "i < length xs" by simp
  then have "(m + i) mod length xs = (m + k) mod length xs \<longleftrightarrow> i = k"
    using assms add_mod_inj by blast
  moreover have "(m + i) mod length xs < length xs" using i by (intro mod_less_divisor) auto
  ultimately show "rotate m (xs[(m + k) mod length xs := x]) ! i = (rotate m xs)[k := x] ! i"
    using i by (auto simp: nth_rotate nth_list_update)
qed simp

definition contexts_of :: "response_context_table_t \<Rightarrow> response_context_t list" where
  "contexts_of t = take (m_elements_exists t) (rotate (m_first_element_index t) (m_contexts t))"

definition table_inv :: "response_context_table_t \<Rightarrow> bool" where
  "table_inv t \<longleftrightarrow>
     m_elements_exists t \<le> length (m_contexts t) \<and>
     (m_contexts t \<noteq> [] \<longrightarrow> m_first_element_index t < length (m_contexts t)) \<and>
     (\<forall>ctx \<in> set (drop (m_elements_exists t) (rotate (m_first_element_index t) (m_contexts t))). m_write_groups ctx = [])"

definition set_front_context :: "response_context_t \<Rightarrow> response_context_table_t \<Rightarrow> response_context_table_t" where
  "set_front_context ctx t = put_context (m_first_element_index t) ctx t"

lemma length_contexts_of: "table_inv t \<Longrightarrow> length (contexts_of t) = m_elements_exists t"
  by (simp add: contexts_of_def table_inv_def)

lemma contexts_of_nth:
  "table_inv t \<Longrightarrow> k < m_elements_exists t \<Longrightarrow>
   contexts_of t ! k = m_contexts t ! ((m_first_element_index t + k) mod length (m_contexts t))"
  by (simp add: contexts_of_def table_inv_def nth_rotate)

text \<open>Writing the context at position \<open>k\<close> of the queue.\<close>

lemma put_context_nth:
  fixes ctx
  assumes "table_inv t" "k < m_elements_exists t"
  defines "t' \<equiv> put_context ((m_first_element_index t + k) mod length (m_contexts t)) ctx t"
  shows "table_inv t' \<and> length (m_contexts t') = length (m_contexts t) \<and> contexts_of t' = (contexts_of t)[k := ctx]"
proof -
  have k: "k < length (m_contexts t)" using assms by (simp add: table_inv_def)
  have "rotate (m_first_element_index t') (m_contexts t') = (rotate (m_first_element_index t) (m_contexts t))[k := ctx]"
    using rotate_update [OF k] by (simp add: t'_def put_context_def)
  moreover have "m_elements_exists t' = m_elements_exists t" by (simp add: t'_def put_context_def)
  ultimately show ?thesis
    using assms(1,2) by (auto simp: table_inv_def contexts_of_def take_update_swap drop_update_cancel t'_def put_context_def)
qed

lemma set_front_context_hd:
  assumes "table_inv t" "contexts_of t = ctx # rest"
  shows "table_inv (set_front_context ctx' t) \<and>
    length (m_contexts (set_front_context ctx' t)) = length (m_contexts t) \<and>
    contexts_of (set_front_context ctx' t) = ctx' # rest"
proof -
  have 0: "0 < m_elements_exists t" using length_contexts_of [OF assms(1)] assms(2) by auto
  moreover have "(m_first_element_index t + 0) mod length (m_contexts t) = m_first_element_index t"
    using assms(1) 0 by (auto simp: table_inv_def)
  ultimately show ?thesis
    using put_context_nth [OF assms(1) 0, of ctx'] assms(2) by (simp add: set_front_context_def)
qed

lemma push_response_context_free:
  assumes "table_inv t" "\<not> table_is_full t"
  shows "\<exists>t'. push_response_context req_id t = Inr t' \<and> table_inv t' \<and>
    length (m_contexts t') = length (m_contexts t) \<and> contexts_of t' = contexts_of t @ [fresh_context req_id]"
proof -
  let ?e = "m_elements_exists t" and ?r = "rotate (m_first_element_index t) (m_contexts t)"
  let ?i = "(m_first_element_index t + ?e) mod length (m_contexts t)"
  define t' where "t' = t\<lparr>m_contexts := (m_contexts t)[?i := reinit req_id (m_contexts t ! ?i)], m_elements_exists := ?e + 1\<rparr>"
  have e: "?e < length (m_contexts t)" using assms by (auto simp: table_inv_def table_is_full_def)
  have stale: "drop ?e ?r = ?r ! ?e # drop (Suc ?e) ?r" using e by (simp add: Cons_nth_drop_Suc)
  have "?r ! ?e = m_contexts t ! ?i" using e by (simp add: nth_rotate)
  moreover have "m_write_groups (?r ! ?e) = []" using assms(1) stale by (simp add: table_inv_def)
  ultimately have "reinit req_id (m_contexts t ! ?i) = fresh_context req_id"
    by (simp add: fresh_context_def reinit_def response_context_def)
  then have r: "rotate (m_first_element_index t') (m_contexts t') = ?r[?e := fresh_context req_id]"
    using rotate_update [OF e] by (simp add: t'_def)
  have "take (Suc ?e) (?r[?e := fresh_context req_id]) = take ?e ?r @ [fresh_context req_id]"
    using e by (simp add: take_Suc_conv_app_nth)
  then have "contexts_of t' = contexts_of t @ [fresh_context req_id]"
    unfolding contexts_of_def r by (simp add: t'_def)
  moreover have "table_inv t'"
    using assms(1) e stale unfolding table_inv_def r by (simp add: t'_def drop_update_cancel)
  moreover have "push_response_context req_id t = Inr t'"
    using assms(2) by (simp add: push_response_context_def put_context_def t'_def Let_def)
  ultimately show ?thesis by (simp add: t'_def)
qed

lemma pop_response_context_nonchecked_drained:
  assumes "table_inv t" "contexts_of t = ctx # rest" "m_write_groups ctx = []"
  defines "t' \<equiv> pop_response_context_nonchecked t"
  shows "table_inv t' \<and> m_contexts t' = m_contexts t \<and> contexts_of t' = rest"
proof -
  let ?e = "m_elements_exists t" and ?r = "rotate (m_first_element_index t) (m_contexts t)"
  have e: "0 < ?e" "?e \<le> length (m_contexts t)" using length_contexts_of [OF assms(1)] assms(1,2) by (auto simp: table_inv_def)
  then have ne: "m_contexts t \<noteq> []" by auto
  have f: "m_first_element_index t < length (m_contexts t)" using assms(1) ne by (simp add: table_inv_def)
  have wrap: "rotate1 ?r = m_contexts t" if "length (m_contexts t) = Suc (m_first_element_index t)"
    using rotate_id [of "length (m_contexts t)" "m_contexts t"] that by simp
  have r: "rotate (m_first_element_index t') (m_contexts t') = rotate1 ?r"
    using wrap by (auto simp: t'_def pop_response_context_nonchecked_def Let_def)
  have r1: "rotate1 ?r = tl ?r @ [hd ?r]" using ne by (simp add: rotate1_hd_tl)
  have "?r = contexts_of t @ drop ?e ?r" by (simp add: contexts_of_def)
  then obtain tail where tail: "?r = ctx # rest @ tail" "tail = drop ?e ?r" using assms(2) by auto
  have len: "length rest = ?e - 1" using length_contexts_of [OF assms(1)] assms(2) by auto
  have "contexts_of t' = rest"
    unfolding contexts_of_def r r1 using tail(1) len by (simp add: t'_def pop_response_context_nonchecked_def Let_def)
  moreover have "drop (?e - 1) (rotate1 ?r) = tail @ [ctx]"
    unfolding r1 using tail(1) len by simp
  then have "table_inv t'"
    using assms(1,3) f tail(2) e unfolding table_inv_def r
    by (auto simp: t'_def pop_response_context_nonchecked_def Let_def)
  ultimately show ?thesis by (simp add: t'_def pop_response_context_nonchecked_def Let_def)
qed

interpretation rq: bounded_fifo table_inv contexts_of "\<lambda>t. length (m_contexts t)" table_empty table_is_full
  push_response_context pop_response_context table_front set_front_context
proof unfold_locales
  fix t assume inv: "table_inv t"
  note len = length_contexts_of [OF inv]
  show empty: "table_empty t \<longleftrightarrow> contexts_of t = []" using len by (auto simp: table_empty_def)
  show "table_is_full t \<longleftrightarrow> length (contexts_of t) = length (m_contexts t)" using len by (auto simp: table_is_full_def)
  show "length (contexts_of t) \<le> length (m_contexts t)" using len inv by (simp add: table_inv_def)
  show "push_response_context req_id t = Inl Table_is_full" if "table_is_full t" for req_id
    using that by (simp add: push_response_context_def)
  show "pop_response_context t = Inl Table_is_empty" if "contexts_of t = []"
    using that empty by (simp add: pop_response_context_def)
  show "table_front t = ctx" if "contexts_of t = ctx # rest" for ctx rest
    using that contexts_of_nth [OF inv, of 0] len inv by (auto simp: table_front_def table_inv_def)
  show "\<exists>t'. pop_response_context t = Inr t' \<and> table_inv t' \<and> length (m_contexts t') = length (m_contexts t) \<and> contexts_of t' = rest"
    if "contexts_of t = ctx # rest" "m_write_groups ctx = []" for ctx rest
    using that pop_response_context_nonchecked_drained [OF inv that] empty by (auto simp: pop_response_context_def)
qed (use push_response_context_free set_front_context_hd in blast)+

subsection \<open>Histories of a coordinator\<close>

datatype coord_event =
    Registered u32
  | Appended u32 response_output_flags_t write_group_t
  | Popped u32 write_group_t

text \<open>The successful calls on a coordinator, in any order, with their history.\<close>

inductive coord_run :: "nat \<Rightarrow> coord_event list \<Rightarrow> response_coordinator_t \<Rightarrow> bool" for max_req_count where
  created: "coord_run max_req_count [] (response_coordinator max_req_count)"
| register: "coord_run max_req_count h c \<Longrightarrow> register_new_request c = Inr (req_id, c') \<Longrightarrow>
    coord_run max_req_count (h @ [Registered req_id]) c'"
| append: "coord_run max_req_count h c \<Longrightarrow> append_response req_id flags wg c = (Inr c', called) \<Longrightarrow>
    coord_run max_req_count (h @ [Appended req_id flags wg]) c'"
| pop_some: "coord_run max_req_count h c \<Longrightarrow> pop_ready_buffers c = Inr (Some (wg, req_id), c') \<Longrightarrow>
    coord_run max_req_count (h @ [Popped req_id wg]) c'"
| pop_none: "coord_run max_req_count h c \<Longrightarrow> pop_ready_buffers c = Inr (None, c') \<Longrightarrow> coord_run max_req_count h c'"

fun requests :: "coord_event list \<Rightarrow> nat" where
  "requests [] = 0"
| "requests (Registered _ # h) = Suc (requests h)"
| "requests (_ # h) = requests h"

fun popped_ids :: "coord_event list \<Rightarrow> u32 list" where
  "popped_ids [] = []"
| "popped_ids (Popped req_id _ # h) = req_id # popped_ids h"
| "popped_ids (_ # h) = popped_ids h"

text \<open>What was appended for a request and what was handed out for it, seen through \<open>f\<close>.\<close>

fun appended :: "(write_group_t \<Rightarrow> 'a list) \<Rightarrow> u32 \<Rightarrow> coord_event list \<Rightarrow> 'a list" where
  "appended f req_id [] = []"
| "appended f req_id (Appended i _ wg # h) = (if i = req_id then f wg else []) @ appended f req_id h"
| "appended f req_id (_ # h) = appended f req_id h"

fun popped :: "(write_group_t \<Rightarrow> 'a list) \<Rightarrow> u32 \<Rightarrow> coord_event list \<Rightarrow> 'a list" where
  "popped f req_id [] = []"
| "popped f req_id (Popped i wg # h) = (if i = req_id then f wg else []) @ popped f req_id h"
| "popped f req_id (_ # h) = popped f req_id h"

text \<open>The marks of the parts that were appended for a request; a response is ended when the last of them is final.\<close>

fun parts_of :: "u32 \<Rightarrow> coord_event list \<Rightarrow> response_parts_attr_t list" where
  "parts_of req_id [] = []"
| "parts_of req_id (Appended i flags _ # h) = (if i = req_id then [m_response_parts flags] else []) @ parts_of req_id h"
| "parts_of req_id (_ # h) = parts_of req_id h"

definition ended :: "u32 \<Rightarrow> coord_event list \<Rightarrow> bool" where
  "ended req_id h \<longleftrightarrow> parts_of req_id h \<noteq> [] \<and> last (parts_of req_id h) = Final_parts"

lemma parts_of_append [simp]: "parts_of req_id (h @ h') = parts_of req_id h @ parts_of req_id h'"
  by (induction req_id h rule: parts_of.induct) auto

lemma ended_append [simp]:
  "ended i (h @ [Registered j]) = ended i h" "ended i (h @ [Popped j wg]) = ended i h"
  "ended i (h @ [Appended j flags wg]) = (if i = j then m_response_parts flags = Final_parts else ended i h)"
  by (simp_all add: ended_def)

lemma history_append [simp]:
  "requests (h @ h') = requests h + requests h'"
  "popped_ids (h @ h') = popped_ids h @ popped_ids h'"
  "appended f req_id (h @ h') = appended f req_id h @ appended f req_id h'"
  "popped f req_id (h @ h') = popped f req_id h @ popped f req_id h'"
proof -
  show "requests (h @ h') = requests h + requests h'" by (induction h rule: requests.induct) auto
  show "popped_ids (h @ h') = popped_ids h @ popped_ids h'" by (induction h rule: popped_ids.induct) auto
  show "appended f req_id (h @ h') = appended f req_id h @ appended f req_id h'"
    by (induction f req_id h rule: appended.induct) auto
  show "popped f req_id (h @ h') = popped f req_id h @ popped f req_id h'"
    by (induction f req_id h rule: popped.induct) auto
qed

subsection \<open>What is queued for a request\<close>

definition queued_in :: "(write_group_t \<Rightarrow> 'a list) \<Rightarrow> response_context_t \<Rightarrow> 'a list" where
  "queued_in f ctx = concat (map f (m_write_groups ctx))"

definition queued :: "(write_group_t \<Rightarrow> 'a list) \<Rightarrow> u32 \<Rightarrow> response_context_t list \<Rightarrow> 'a list" where
  "queued f req_id ctxs = concat (map (\<lambda>ctx. if m_request_id ctx = req_id then queued_in f ctx else []) ctxs)"

text \<open>A view of write groups that merging two groups concatenates.\<close>

definition mergeable :: "(write_group_t \<Rightarrow> 'a list) \<Rightarrow> bool" where
  "mergeable f \<longleftrightarrow> (\<forall>a b. \<not> has_after_write_notificator a \<longrightarrow> f (merge_groups a b) = f a @ f b)"

lemma mergeable_items: "mergeable m_items" and mergeable_pending: "mergeable pending"
  by (simp_all add: mergeable_def) (simp add: merge_groups_def)

lemma queued_in_enqueue:
  assumes "mergeable f"
  shows "queued_in f (enqueue_group wg ctx) = queued_in f ctx @ f wg"
proof -
  have "concat (map f (butlast gs @ [merge_groups (last gs) wg])) = concat (map f gs) @ f wg"
    if "gs \<noteq> []" "\<not> has_after_write_notificator (last gs)" for gs
  proof -
    have "concat (map f (butlast gs @ [last gs])) = concat (map f (butlast gs)) @ f (last gs)" by simp
    then have "concat (map f gs) = concat (map f (butlast gs)) @ f (last gs)"
      unfolding append_butlast_last_id [OF that(1)] .
    then show ?thesis using that assms by (simp add: mergeable_def)
  qed
  then show ?thesis by (simp add: enqueue_group_def queued_in_def)
qed

lemma queued_notin: "req_id \<notin> m_request_id ` set ctxs \<Longrightarrow> queued f req_id ctxs = []"
  by (induction ctxs) (auto simp: queued_def)

lemma queued_Cons:
  "queued f req_id (ctx # ctxs) = (if m_request_id ctx = req_id then queued_in f ctx else []) @ queued f req_id ctxs"
  by (simp add: queued_def)

lemma queued_update:
  assumes "distinct (map m_request_id ctxs)" "k < length ctxs" "m_request_id ctx = m_request_id (ctxs ! k)"
    "queued_in f ctx = queued_in f (ctxs ! k) @ d"
  shows "queued f req_id (ctxs[k := ctx]) =
    queued f req_id ctxs @ (if req_id = m_request_id (ctxs ! k) then d else [])"
  using assms
proof (induction ctxs arbitrary: k)
  case (Cons a ctxs)
  show ?case
  proof (cases k)
    case 0
    with Cons.prems show ?thesis using queued_notin [of "m_request_id a" ctxs f] by (auto simp: queued_Cons)
  next
    case (Suc j)
    with Cons.prems Cons.IH [of j] show ?thesis by (auto simp: queued_Cons)
  qed
qed simp

subsection \<open>The operations on the queue of contexts\<close>

lemma consecutive_distinct: "rq.consecutive n t \<Longrightarrow> distinct (map m_request_id (contexts_of t))"
proof -
  assume "rq.consecutive n t"
  then have "map unat (map m_request_id (contexts_of t)) = [n - length (contexts_of t)..<n]"
    by (simp add: rq.consecutive_def comp_def)
  then show ?thesis by (metis distinct_map distinct_upt)
qed

lemma get_by_req_id_consecutive:
  assumes inv: "table_inv t" and con: "rq.consecutive n t"
  defines "lo \<equiv> n - m_elements_exists t"
  shows "get_by_req_id req_id t =
    (if lo \<le> unat req_id \<and> unat req_id < n
     then Some ((m_first_element_index t + (unat req_id - lo)) mod length (m_contexts t)) else None)"
proof (cases "m_elements_exists t = 0")
  case True
  then show ?thesis by (auto simp: get_by_req_id_def table_empty_def lo_def)
next
  case False
  note len = length_contexts_of [OF inv]
  have ge: "m_elements_exists t \<le> n" using con len by (simp add: rq.consecutive_def)
  have "table_front t = contexts_of t ! 0"
    using contexts_of_nth [OF inv, of 0] False inv by (auto simp: table_front_def table_inv_def)
  then have front: "unat (m_request_id (table_front t)) = lo"
    using rq.consecutive_nth [OF con, of 0] False len by (simp add: lo_def)
  have "table_back t = contexts_of t ! (m_elements_exists t - 1)"
    using contexts_of_nth [OF inv, of "m_elements_exists t - 1"] False by (simp add: table_back_def)
  then have last: "unat (m_request_id (table_back t)) = n - 1"
    using rq.consecutive_nth [OF con, of "m_elements_exists t - 1"] False len ge by simp
  have "unat (req_id - m_request_id (table_front t)) = unat req_id - lo" if "lo \<le> unat req_id"
    using that unat_sub [of "m_request_id (table_front t)" req_id] front by (simp add: word_le_nat_alt)
  then show ?thesis
    using False ge front last
    by (auto simp: get_by_req_id_def table_empty_def word_less_nat_alt get_real_index_def Let_def)
qed

lemma register_new_request_Inr:
  assumes "table_inv (m_context_table c)" "register_new_request c = Inr (req_id, c')"
  shows "req_id = m_request_id_counter c \<and> m_request_id_counter c' = req_id + 1 \<and>
    table_inv (m_context_table c') \<and> contexts_of (m_context_table c') = contexts_of (m_context_table c) @ [fresh_context req_id] \<and>
    push_response_context req_id (m_context_table c) = Inr (m_context_table c')"
  using assms rq.push_Inr [OF assms(1)] by (auto simp: register_new_request_def split: sum.splits)

lemma append_response_Inr:
  assumes "table_inv (m_context_table c)" "rq.consecutive n (m_context_table c)"
    "append_response req_id flags wg c = (Inr c', called)"
  shows "\<exists>k < length (contexts_of (m_context_table c)). m_request_id (contexts_of (m_context_table c) ! k) = req_id \<and>
    m_request_id_counter c' = m_request_id_counter c \<and> table_inv (m_context_table c') \<and>
    contexts_of (m_context_table c') = (contexts_of (m_context_table c))
      [k := enqueue_group wg ((contexts_of (m_context_table c) ! k)\<lparr>m_response_output_flags := flags\<rparr>)]"
proof -
  let ?t = "m_context_table c"
  let ?k = "unat req_id - (n - m_elements_exists ?t)"
  let ?i = "(m_first_element_index ?t + ?k) mod length (m_contexts ?t)"
  note len = length_contexts_of [OF assms(1)]
  from assms(3) have i: "get_by_req_id req_id ?t = Some ?i"
    and range: "n - m_elements_exists ?t \<le> unat req_id" "unat req_id < n"
    using get_by_req_id_consecutive [OF assms(1,2), of req_id]
    by (auto simp: append_response_def split: if_splits option.splits)
  have "m_elements_exists ?t \<le> n" using assms(2) len by (simp add: rq.consecutive_def)
  then have k: "?k < m_elements_exists ?t" using range by linarith
  have ctx: "m_contexts ?t ! ?i = contexts_of ?t ! ?k" using contexts_of_nth [OF assms(1) k] by simp
  have "unat (m_request_id (contexts_of ?t ! ?k)) = unat req_id"
    using rq.consecutive_nth [OF assms(2), of ?k] k len range by simp
  then have "m_request_id (contexts_of ?t ! ?k) = req_id" by (simp add: word_unat_eq_iff)
  moreover have "c' = c\<lparr>m_context_table :=
      put_context ?i (enqueue_group wg ((contexts_of ?t ! ?k)\<lparr>m_response_output_flags := flags\<rparr>)) ?t\<rparr>"
    using assms(3) i ctx by (auto simp: append_response_def Let_def split: if_splits)
  ultimately show ?thesis
    using put_context_nth [OF assms(1) k] k len by auto
qed

lemma pop_ready_buffers_Inr:
  assumes inv: "table_inv (m_context_table c)" and pop: "pop_ready_buffers c = Inr (Some (wg, req_id), c')"
  shows "\<exists>ctx gs rest. contexts_of (m_context_table c) = ctx # rest \<and> m_write_groups ctx = wg # gs \<and>
    m_request_id ctx = req_id \<and> m_request_id_counter c' = m_request_id_counter c \<and> table_inv (m_context_table c') \<and>
    (contexts_of (m_context_table c') = ctx\<lparr>m_write_groups := gs\<rparr> # rest \<or>
     gs = [] \<and> m_response_parts (m_response_output_flags ctx) = Final_parts \<and> contexts_of (m_context_table c') = rest)"
proof -
  let ?t = "m_context_table c"
  have "\<not> table_empty ?t" "\<not> context_empty (table_front ?t)"
    using pop by (auto simp: pop_ready_buffers_def split: if_splits)
  then obtain ctx rest where ctx: "contexts_of ?t = ctx # rest" "table_front ?t = ctx"
    using rq.is_empty_iff [OF inv] rq.front_hd [OF inv] by (cases "contexts_of ?t") auto
  then obtain g gs where g: "m_write_groups ctx = g # gs"
    using \<open>\<not> context_empty (table_front ?t)\<close> by (cases "m_write_groups ctx") (auto simp: context_empty_def)
  let ?ctx = "ctx\<lparr>m_write_groups := gs\<rparr>"
  show ?thesis
  proof (cases "is_complete ?ctx")
    case True
    then have "m_write_groups ?ctx = []" "m_response_parts (m_response_output_flags ctx) = Final_parts" by (simp_all add: is_complete_def)
    from rq.pop_after_drain [OF inv ctx(1) this(1)] obtain t' where
      "pop_response_context (set_front_context ?ctx ?t) = Inr t'" "table_inv t'" "contexts_of t' = rest" by blast
    with pop True ctx g \<open>m_response_parts _ = Final_parts\<close> show ?thesis
      by (auto simp: pop_ready_buffers_def Let_def dequeue_group_def set_front_context_def is_complete_def split: if_splits)
  next
    case False
    with pop ctx g rq.set_front_hd [OF inv ctx(1), of ?ctx] show ?thesis
      by (auto simp: pop_ready_buffers_def Let_def dequeue_group_def set_front_context_def split: if_splits)
  qed
qed

subsection \<open>The invariant of a run\<close>

definition coord_inv :: "coord_event list \<Rightarrow> response_coordinator_t \<Rightarrow> bool" where
  "coord_inv h c \<longleftrightarrow>
     table_inv (m_context_table c) \<and> unat (m_request_id_counter c) = requests h \<and>
     rq.consecutive (requests h) (m_context_table c) \<and>
     sorted (map unat (popped_ids h)) \<and>
     (\<forall>i \<in> set (popped_ids h). unat i \<le> requests h - length (contexts_of (m_context_table c)) \<and> unat i < requests h)"

definition data_inv :: "(write_group_t \<Rightarrow> 'a list) \<Rightarrow> coord_event list \<Rightarrow> response_coordinator_t \<Rightarrow> bool" where
  "data_inv f h c \<longleftrightarrow>
     (\<forall>i. popped f i h @ queued f i (contexts_of (m_context_table c)) = appended f i h)"

text \<open>A context is marked final when its response is ended; a response that has left the table is ended.\<close>

definition end_inv :: "coord_event list \<Rightarrow> response_coordinator_t \<Rightarrow> bool" where
  "end_inv h c \<longleftrightarrow>
     (\<forall>ctx \<in> set (contexts_of (m_context_table c)).
        m_response_parts (m_response_output_flags ctx) = Final_parts \<longrightarrow> ended (m_request_id ctx) h) \<and>
     (\<forall>i. unat i < requests h - length (contexts_of (m_context_table c)) \<longrightarrow> ended i h)"

lemma table_inv_new: "table_inv (response_context_table n)" "contexts_of (response_context_table n) = []"
  by (auto simp: response_context_table_def table_inv_def contexts_of_def response_context_def)

lemma coord_inv_register:
  assumes "coord_inv h c" "register_new_request c = Inr (req_id, c')" "requests (h @ [Registered req_id]) < 2 ^ 32"
  shows "coord_inv (h @ [Registered req_id]) c'"
proof -
  have inv: "table_inv (m_context_table c)" using assms(1) by (simp add: coord_inv_def)
  note r = register_new_request_Inr [OF inv assms(2)]
  have id: "unat req_id = requests h" using assms(1) r by (simp add: coord_inv_def)
  have "unat (req_id + 1) = Suc (requests h)"
    using assms(3) id by (simp add: unat_word_ariths)
  moreover have "rq.consecutive (Suc (requests h)) (m_context_table c')"
    using rq.consecutive_push [OF inv, of "requests h" req_id "m_context_table c'"] assms(1) r id
    unfolding coord_inv_def by blast
  ultimately show ?thesis using assms(1) r by (auto simp: coord_inv_def)
qed

lemma data_inv_register:
  assumes "coord_inv h c" "register_new_request c = Inr (req_id, c')" "data_inv f h c"
  shows "data_inv f (h @ [Registered req_id]) c'"
proof -
  have inv: "table_inv (m_context_table c)" using assms(1) by (simp add: coord_inv_def)
  have "queued f i (xs @ [fresh_context req_id]) = queued f i xs" for i xs
    by (simp add: queued_def queued_in_def fresh_context_def reinit_def response_context_def)
  then show ?thesis
    using register_new_request_Inr [OF inv assms(2)] assms(3) by (simp add: data_inv_def)
qed

lemma map_update_same: "k < length xs \<Longrightarrow> g y = g (xs ! k) \<Longrightarrow> map g (xs[k := y]) = map g xs"
  by (simp add: map_update list_update_same_conv)

lemma run_append:
  assumes "coord_inv h c" "append_response req_id flags wg c = (Inr c', called)"
  shows "coord_inv (h @ [Appended req_id flags wg]) c'"
    and "data_inv f h c \<Longrightarrow> mergeable f \<Longrightarrow> data_inv f (h @ [Appended req_id flags wg]) c'"
proof -
  let ?xs = "contexts_of (m_context_table c)"
  have inv: "table_inv (m_context_table c)" "rq.consecutive (requests h) (m_context_table c)"
    using assms(1) by (simp_all add: coord_inv_def)
  from append_response_Inr [OF this assms(2)] obtain k where k: "k < length ?xs" "m_request_id (?xs ! k) = req_id"
      "m_request_id_counter c' = m_request_id_counter c" "table_inv (m_context_table c')"
      "contexts_of (m_context_table c') = ?xs[k := enqueue_group wg ((?xs ! k)\<lparr>m_response_output_flags := flags\<rparr>)]"
    by auto
  let ?y = "enqueue_group wg ((?xs ! k)\<lparr>m_response_output_flags := flags\<rparr>)"
  have id: "m_request_id ?y = m_request_id (?xs ! k)" by (simp add: enqueue_group_def)
  then have "rq.consecutive (requests h) (m_context_table c')"
    using inv(2) map_update_same [OF k(1), of "unat \<circ> m_request_id" ?y] k(5) by (simp add: rq.consecutive_def)
  then show "coord_inv (h @ [Appended req_id flags wg]) c'"
    using assms(1) k by (simp add: coord_inv_def)
  assume f: "data_inv f h c" "mergeable f"
  then have "queued_in f ?y = queued_in f (?xs ! k) @ f wg"
    by (simp add: queued_in_enqueue) (simp add: queued_in_def)
  with f queued_update [OF consecutive_distinct [OF inv(2)] k(1) id this]
  show "data_inv f (h @ [Appended req_id flags wg]) c'"
    by (auto simp: data_inv_def k(2,5) append_assoc [symmetric] simp del: append_assoc)
qed

lemma run_pop:
  assumes "coord_inv h c" "pop_ready_buffers c = Inr (Some (wg, req_id), c')"
  shows "coord_inv (h @ [Popped req_id wg]) c'" and "data_inv f h c \<Longrightarrow> data_inv f (h @ [Popped req_id wg]) c'"
proof -
  have inv: "table_inv (m_context_table c)" "rq.consecutive (requests h) (m_context_table c)"
    using assms(1) by (simp_all add: coord_inv_def)
  from pop_ready_buffers_Inr [OF this(1) assms(2)] obtain ctx gs rest where
    ctx: "contexts_of (m_context_table c) = ctx # rest" "m_write_groups ctx = wg # gs" "m_request_id ctx = req_id"
      "m_request_id_counter c' = m_request_id_counter c" "table_inv (m_context_table c')"
    and next_: "contexts_of (m_context_table c') = ctx\<lparr>m_write_groups := gs\<rparr> # rest \<or>
      gs = [] \<and> m_response_parts (m_response_output_flags ctx) = Final_parts \<and> contexts_of (m_context_table c') = rest" by blast
  have id: "unat req_id = requests h - length (contexts_of (m_context_table c))"
    using rq.consecutive_nth [OF inv(2), of 0] ctx by simp
  have con: "rq.consecutive (requests h) (m_context_table c')"
    using next_ rq.consecutive_rest [OF inv(2) ctx(1)] inv(2) ctx(1) by (auto simp: rq.consecutive_def)
  have "length (contexts_of (m_context_table c')) \<le> length (contexts_of (m_context_table c))"
    using next_ ctx(1) by auto
  moreover have "unat req_id < requests h" using inv(2) ctx(1) id by (auto simp: rq.consecutive_def)
  ultimately show "coord_inv (h @ [Popped req_id wg]) c'"
    using assms(1) ctx con id by (fastforce simp: coord_inv_def sorted_append)
  assume f: "data_inv f h c"
  have "queued f i (contexts_of (m_context_table c)) =
      (if req_id = i then f wg else []) @ queued f i (contexts_of (m_context_table c'))" for i
    using next_ ctx(1-3) by (auto simp: queued_Cons queued_in_def)
  with f show "data_inv f (h @ [Popped req_id wg]) c'"
    by (simp add: data_inv_def)
qed

lemma end_inv_register:
  assumes "coord_inv h c" "register_new_request c = Inr (req_id, c')" "end_inv h c"
  shows "end_inv (h @ [Registered req_id]) c'"
proof -
  have inv: "table_inv (m_context_table c)" using assms(1) by (simp add: coord_inv_def)
  have "m_response_parts (m_response_output_flags (fresh_context req_id)) \<noteq> Final_parts" by (simp add: fresh_context_def reinit_def)
  then show ?thesis using register_new_request_Inr [OF inv assms(2)] assms(3) by (auto simp: end_inv_def)
qed

lemma end_inv_append:
  assumes "coord_inv h c" "append_response req_id flags wg c = (Inr c', called)" "end_inv h c"
  shows "end_inv (h @ [Appended req_id flags wg]) c'"
proof -
  let ?xs = "contexts_of (m_context_table c)"
  have inv: "table_inv (m_context_table c)" "rq.consecutive (requests h) (m_context_table c)"
    using assms(1) by (simp_all add: coord_inv_def)
  let ?y = "\<lambda>k. enqueue_group wg ((?xs ! k)\<lparr>m_response_output_flags := flags\<rparr>)"
  from append_response_Inr [OF inv assms(2)] obtain k where k: "k < length ?xs" "m_request_id (?xs ! k) = req_id"
      "contexts_of (m_context_table c') = ?xs[k := ?y k]" by auto
  have y: "m_request_id (?y k) = req_id" "m_response_output_flags (?y k) = flags" using k(2) by (simp_all add: enqueue_group_def)
  have "ended (m_request_id ctx) (h @ [Appended req_id flags wg])"
    if "ctx \<in> set (?xs[k := ?y k])" and final: "m_response_parts (m_response_output_flags ctx) = Final_parts" for ctx
  proof -
    from that(1) obtain j where j: "j < length ?xs" "ctx = ?xs[k := ?y k] ! j" by (auto simp: in_set_conv_nth)
    show ?thesis
    proof (cases "j = k")
      case True
      with j k(1) y final show ?thesis by simp
    next
      case False
      then have "ctx = ?xs ! j" using j by simp
      moreover have "m_request_id (?xs ! j) \<noteq> req_id"
        using consecutive_distinct [OF inv(2)] False j(1) k(1,2) by (auto simp: distinct_conv_nth)
      ultimately show ?thesis using assms(3) final j(1) by (simp add: end_inv_def)
    qed
  qed
  moreover have "i \<noteq> req_id" if "unat i < requests h - length ?xs" for i
    using rq.consecutive_nth [OF inv(2) k(1)] that k(2) by auto
  ultimately show ?thesis using assms(3) k(3) by (auto simp: end_inv_def)
qed

lemma end_inv_pop:
  assumes "coord_inv h c" "pop_ready_buffers c = Inr (Some (wg, req_id), c')" "end_inv h c"
  shows "end_inv (h @ [Popped req_id wg]) c'"
proof -
  have inv: "table_inv (m_context_table c)" "rq.consecutive (requests h) (m_context_table c)"
    using assms(1) by (simp_all add: coord_inv_def)
  from pop_ready_buffers_Inr [OF this(1) assms(2)] obtain ctx gs rest where
    ctx: "contexts_of (m_context_table c) = ctx # rest" "m_request_id ctx = req_id"
    and next_: "contexts_of (m_context_table c') = ctx\<lparr>m_write_groups := gs\<rparr> # rest \<or>
      m_response_parts (m_response_output_flags ctx) = Final_parts \<and> contexts_of (m_context_table c') = rest" by blast
  have id: "unat req_id = requests h - Suc (length rest)" using rq.consecutive_nth [OF inv(2), of 0] ctx by simp
  from next_ show ?thesis
  proof
    assume "contexts_of (m_context_table c') = ctx\<lparr>m_write_groups := gs\<rparr> # rest"
    with assms(3) ctx show ?thesis by (simp add: end_inv_def)
  next
    assume popped: "m_response_parts (m_response_output_flags ctx) = Final_parts \<and> contexts_of (m_context_table c') = rest"
    then have "ended req_id h" using assms(3) ctx by (auto simp: end_inv_def)
    moreover have "i = req_id \<or> unat i < requests h - Suc (length rest)" if "unat i < requests h - length rest" for i
      using that id by (auto simp: word_unat_eq_iff)
    ultimately show ?thesis using assms(3) ctx popped by (auto simp: end_inv_def)
  qed
qed

lemma pop_none_same: "pop_ready_buffers c = Inr (None, c') \<Longrightarrow> c' = c"
  by (auto simp: pop_ready_buffers_def Let_def dequeue_group_def split: if_splits sum.splits)

lemma coord_run_inv:
  assumes "coord_run n h c" "requests h < 2 ^ 32" "mergeable f"
  shows "coord_inv h c \<and> data_inv f h c"
  using assms
proof (induction rule: coord_run.induct)
  case created
  then show ?case
    by (simp add: coord_inv_def data_inv_def response_coordinator_def table_inv_new queued_def rq.consecutive_def)
next
  case (register h c req_id c')
  then show ?case using coord_inv_register data_inv_register by (metis add_lessD1 history_append(1))
next
  case (append h c req_id flags wg c' called)
  then have "coord_inv h c" "data_inv f h c" by auto
  with run_append [OF this(1) append.hyps(2)] append.prems show ?case by blast
next
  case (pop_some h c wg req_id c')
  then have "coord_inv h c" "data_inv f h c" by auto
  with run_pop [OF this(1) pop_some.hyps(2)] show ?case by blast
next
  case (pop_none h c c')
  then show ?case using pop_none_same by blast
qed

lemma coord_run_end_inv:
  assumes "coord_run n h c" "requests h < 2 ^ 32"
  shows "end_inv h c"
  using assms
proof (induction rule: coord_run.induct)
  case created
  then show ?case by (simp add: end_inv_def response_coordinator_def table_inv_new)
next
  case (register h c req_id c')
  then have "requests h < 2 ^ 32" by simp
  with register coord_run_inv [OF register.hyps(1) this mergeable_items] end_inv_register show ?case by blast
next
  case (append h c req_id flags wg c' called)
  then have "requests h < 2 ^ 32" by simp
  with append coord_run_inv [OF append.hyps(1) this mergeable_items] end_inv_append show ?case by blast
next
  case (pop_some h c wg req_id c')
  then have "requests h < 2 ^ 32" by simp
  with pop_some coord_run_inv [OF pop_some.hyps(1) this mergeable_items] end_inv_pop show ?case by blast
next
  case (pop_none h c c')
  then show ?case using pop_none_same by blast
qed

text \<open>A request that is no longer in the table has nothing queued.\<close>

lemma retired_queued:
  assumes "coord_inv h c" "unat i < requests h - length (contexts_of (m_context_table c))"
  shows "queued f i (contexts_of (m_context_table c)) = []"
proof (rule queued_notin)
  let ?xs = "contexts_of (m_context_table c)"
  have con: "rq.consecutive (requests h) (m_context_table c)" using assms(1) by (simp add: coord_inv_def)
  show "i \<notin> m_request_id ` set ?xs"
  proof
    assume "i \<in> m_request_id ` set ?xs"
    then obtain k where "k < length ?xs" "m_request_id (?xs ! k) = i" by (auto simp: in_set_conv_nth)
    with rq.consecutive_nth [OF con, of k] assms(2) show False by simp
  qed
qed

subsection \<open>Reset\<close>

lemma drain_context_eq:
  "drain_context ctx = (map (\<lambda>cb. (cb, Write_was_not_executed)) (queued_in pending ctx), ctx\<lparr>m_write_groups := []\<rparr>)"
proof (induction "m_write_groups ctx" arbitrary: ctx)
  case Nil
  then show ?case by (subst drain_context.simps) (simp add: context_empty_def queued_in_def)
next
  case (Cons g gs)
  have invoked: "fst (invoke_after_write_notificator_if_exists Write_was_not_executed g) =
      map (\<lambda>cb. (cb, Write_was_not_executed)) (pending g)"
    "destroy_write_group (snd (invoke_after_write_notificator_if_exists Write_was_not_executed g)) = []"
    by (simp_all add: invoked_pending destroyed_pending)
      (simp add: invoke_after_write_notificator_if_exists_def pending_def split: option.splits)
  have "gs = m_write_groups (ctx\<lparr>m_write_groups := gs\<rparr>)" by simp
  from Cons(1) [OF this] Cons(2) [symmetric] invoked show ?case
    by (subst drain_context.simps)
      (simp add: context_empty_def dequeue_group_def queued_in_def case_prod_beta Let_def)
qed

lemma reset_table_eq:
  assumes "table_inv t"
  shows "\<exists>t'. reset_table t =
    (map (\<lambda>cb. (cb, Write_was_not_executed)) (concat (map (queued_in pending) (contexts_of t))), t') \<and>
    table_inv t' \<and> contexts_of t' = [] \<and> length (m_contexts t') = length (m_contexts t)"
  using assms
proof (induction "contexts_of t" arbitrary: t)
  case Nil
  then show ?case using rq.is_empty_iff [OF Nil(2)] by (subst reset_table.simps) simp
next
  case (Cons ctx rest)
  have ne: "\<not> table_empty t" and front: "table_front t = ctx"
    using Cons(2,3) rq.is_empty_iff rq.front_hd by (metis list.discI, metis)
  let ?s = "set_front_context (ctx\<lparr>m_write_groups := []\<rparr>) t"
  let ?u = "pop_response_context_nonchecked ?s"
  have s: "table_inv ?s" "contexts_of ?s = ctx\<lparr>m_write_groups := []\<rparr> # rest" "length (m_contexts ?s) = length (m_contexts t)"
    using set_front_context_hd [OF Cons(3)] Cons(2) by metis+
  have u: "table_inv ?u" "contexts_of ?u = rest" "length (m_contexts ?u) = length (m_contexts t)"
    using pop_response_context_nonchecked_drained [OF s(1,2)] s(3) by simp_all
  from Cons(1) [of ?u] u obtain t' where t': "reset_table ?u =
      (map (\<lambda>cb. (cb, Write_was_not_executed)) (concat (map (queued_in pending) rest)), t')" "table_inv t'"
      "contexts_of t' = []" "length (m_contexts t') = length (m_contexts t)" by auto
  have "reset_table t = (map (\<lambda>cb. (cb, Write_was_not_executed)) (queued_in pending ctx @ concat (map (queued_in pending) rest)), t')"
    using ne front t'(1) by (subst reset_table.simps) (simp add: drain_context_eq set_front_context_def)
  with t' Cons(2) [symmetric] show ?case by simp
qed

subsection \<open>Properties\<close>

text \<open>
  C17: pipelined responses leave in order. In any history of fewer than \<open>2 ^ 32\<close> requests on a
  connection, the groups handed out for writing come in the order of their requests; for every
  request what was handed out is a prefix of what was appended for it, item by item; and
  once a group of a later request has been handed out, the earlier response is complete: its final part was appended, no part after
  it, and all of it has been handed out.
\<close>

theorem responses_in_order:
  assumes "coord_run max_req_count h c" "requests h < 2 ^ 32"
  shows "sorted (map unat (popped_ids h)) \<and>
    prefix (popped m_items i h) (appended m_items i h) \<and>
    (j \<in> set (popped_ids h) \<and> unat i < unat j \<longrightarrow> popped m_items i h = appended m_items i h \<and> ended i h)"
proof -
  have inv: "coord_inv h c" "data_inv m_items h c"
    using coord_run_inv [OF assms mergeable_items] by auto
  then have all: "appended m_items i h = popped m_items i h @ queued m_items i (contexts_of (m_context_table c))"
    by (simp add: data_inv_def)
  moreover have "queued m_items i (contexts_of (m_context_table c)) = [] \<and> ended i h"
    if "j \<in> set (popped_ids h)" "unat i < unat j"
  proof -
    have "unat j \<le> requests h - length (contexts_of (m_context_table c))" using inv(1) that(1) by (auto simp: coord_inv_def)
    with that(2) have "unat i < requests h - length (contexts_of (m_context_table c))" by simp
    with retired_queued [OF inv(1)] coord_run_end_inv [OF assms] show ?thesis by (simp add: end_inv_def)
  qed
  ultimately show ?thesis using inv(1) by (auto simp: coord_inv_def)
qed

definition sample_group :: write_group_t where
  "sample_group = write_group [Datasizeable_buf ''ok'']"

definition sample_flags :: response_output_flags_t where
  "sample_flags = \<lparr>m_response_parts = Final_parts, m_response_connection = Connection_keepalive\<rparr>"

lemma sample_run:
  "\<exists>c. coord_run 1 [Registered 0, Appended 0 sample_flags sample_group, Popped 0 sample_group] c"
proof -
  define c1 where "c1 = snd (projr (register_new_request (response_coordinator 1)))"
  define c2 where "c2 = projr (fst (append_response 0 sample_flags sample_group c1))"
  define c3 where "c3 = snd (projr (pop_ready_buffers c2))"
  note defs = register_new_request_def response_coordinator_def response_context_table_def push_response_context_def
    table_is_full_def put_context_def Let_def reinit_def response_context_def append_response_def closed_def
    get_by_req_id_def table_empty_def table_front_def table_back_def get_real_index_def enqueue_group_def
    pop_ready_buffers_def context_empty_def dequeue_group_def is_complete_def sample_flags_def
    pop_response_context_def pop_response_context_nonchecked_def
  have 1: "register_new_request (response_coordinator 1) = Inr (0, c1)" by (simp add: c1_def defs)
  have 2: "append_response 0 sample_flags sample_group c1 = (Inr c2, [])" by (simp add: c1_def c2_def defs)
  have 3: "pop_ready_buffers c2 = Inr (Some (sample_group, 0), c3)" by (simp add: c1_def c2_def c3_def defs)
  from coord_run.pop_some [OF coord_run.append [OF coord_run.register [OF coord_run.created 1] 2] 3] show ?thesis by auto
qed

text \<open>The second of two requests is answered first.\<close>

definition pipelined_history :: "coord_event list" where
  "pipelined_history =
     [Registered 0, Registered 1, Appended 1 sample_flags sample_group, Appended 0 sample_flags sample_group,
      Popped 0 sample_group, Popped 1 sample_group]"

lemma pipelined_run: "\<exists>c. coord_run 2 pipelined_history c"
proof -
  define c1 where "c1 = snd (projr (register_new_request (response_coordinator 2)))"
  define c2 where "c2 = snd (projr (register_new_request c1))"
  define c3 where "c3 = projr (fst (append_response 1 sample_flags sample_group c2))"
  define c4 where "c4 = projr (fst (append_response 0 sample_flags sample_group c3))"
  define c5 where "c5 = snd (projr (pop_ready_buffers c4))"
  define c6 where "c6 = snd (projr (pop_ready_buffers c5))"
  note cs = c1_def c2_def c3_def c4_def c5_def c6_def
  have "register_new_request (response_coordinator 2) = Inr (0, c1)" "register_new_request c1 = Inr (1, c2)"
    "append_response 1 sample_flags sample_group c2 = (Inr c3, [])" "append_response 0 sample_flags sample_group c3 = (Inr c4, [])"
    "pop_ready_buffers c4 = Inr (Some (sample_group, 0), c5)" "pop_ready_buffers c5 = Inr (Some (sample_group, 1), c6)"
    unfolding cs by code_simp+
  note steps = this
  from coord_run.pop_some [OF coord_run.pop_some [OF coord_run.append [OF coord_run.append [OF coord_run.register
    [OF coord_run.register [OF coord_run.created steps(1)] steps(2)] steps(3)] steps(4)] steps(5)] steps(6)]
  show ?thesis unfolding pipelined_history_def by auto
qed

theorem responses_in_order_witness:
  "popped_ids pipelined_history = [0, 1] \<and> popped m_items 0 pipelined_history = [Datasizeable_buf ''ok''] \<and> ended 0 pipelined_history"
proof -
  obtain c where c: "coord_run 2 pipelined_history c" using pipelined_run by blast
  have "requests pipelined_history < 2 ^ 32" "1 \<in> set (popped_ids pipelined_history)" "popped_ids pipelined_history = [0, 1]"
    "appended m_items 0 pipelined_history = [Datasizeable_buf ''ok'']"
    by (simp_all add: pipelined_history_def sample_group_def write_group_def)
  with responses_in_order [OF c this(1), of 0 1] show ?thesis by simp
qed

text \<open>
  Nothing is lost or duplicated. Under the same bound, for every request the items handed out
  followed by the items still queued are exactly the items appended, and the same holds for the
  after-write callbacks, although groups are merged on the way.
\<close>

theorem responses_conserved:
  assumes "coord_run max_req_count h c" "requests h < 2 ^ 32"
  shows "popped m_items i h @ queued m_items i (contexts_of (m_context_table c)) = appended m_items i h \<and>
    popped pending i h @ queued pending i (contexts_of (m_context_table c)) = appended pending i h"
  using coord_run_inv [OF assms mergeable_items] coord_run_inv [OF assms mergeable_pending]
  by (simp add: data_inv_def)

theorem responses_conserved_witness:
  "\<exists>c :: response_coordinator_t. popped m_items 0 [Registered 0, Appended 0 sample_flags sample_group, Popped 0 sample_group] @
     queued m_items 0 (contexts_of (m_context_table c)) = [Datasizeable_buf ''ok'']"
proof -
  obtain c where c: "coord_run 1 [Registered 0, Appended 0 sample_flags sample_group, Popped 0 sample_group] c"
    using sample_run by blast
  have "requests [Registered 0, Appended 0 sample_flags sample_group, Popped 0 sample_group] < 2 ^ 32" by simp
  from responses_conserved [OF c this, of 0] have
    "popped m_items 0 [Registered 0, Appended 0 sample_flags sample_group, Popped 0 sample_group] @
       queued m_items 0 (contexts_of (m_context_table c)) = [Datasizeable_buf ''ok'']"
    by (simp add: sample_group_def write_group_def)
  then show ?thesis by blast
qed

text \<open>
  Every outcome of appending a response part, under the same bound. It is refused when the coordinator
  is closed, when the request is not among those waiting (the last ones registered), or when its response is marked complete, and
  accepted otherwise; a refused group is destroyed, so its callback is told so; an accepted
  one runs no callback.
\<close>

theorem append_response_outcome:
  assumes "coord_run max_req_count h c" "requests h < 2 ^ 32"
  defines "ctxs \<equiv> contexts_of (m_context_table c)"
  shows "case append_response req_id flags wg c of
      (Inl e, called) \<Rightarrow> called = map (\<lambda>cb. (cb, Write_group_destroyed_passively)) (pending wg) \<and>
        e = (if closed c then Coordinator_is_closed
             else if \<not> (requests h - length ctxs \<le> unat req_id \<and> unat req_id < requests h) then No_context req_id
             else Marked_as_complete)
    | (Inr c', called) \<Rightarrow> called = [] \<and> \<not> closed c \<and>
        requests h - length ctxs \<le> unat req_id \<and> unat req_id < requests h"
proof -
  have inv: "table_inv (m_context_table c)" "rq.consecutive (requests h) (m_context_table c)"
    using coord_run_inv [OF assms(1,2) mergeable_items] by (simp_all add: coord_inv_def)
  show ?thesis
    using get_by_req_id_consecutive [OF inv, of req_id] length_contexts_of [OF inv(1)]
    by (auto simp: append_response_def destroyed_pending ctxs_def Let_def)
qed

theorem append_response_outcome_witness:
  "append_response 5 sample_flags (sample_group\<lparr>m_after_write_notificator := Some 7\<rparr>) (response_coordinator 2) =
     (Inl (No_context 5), [(7, Write_group_destroyed_passively)])"
proof -
  have "coord_run 2 [] (response_coordinator 2)" by (rule coord_run.created)
  moreover have "requests [] < 2 ^ 32" by simp
  moreover have "fst (append_response 5 sample_flags (sample_group\<lparr>m_after_write_notificator := Some 7\<rparr>) (response_coordinator 2))
      = Inl (No_context 5)"
    by (simp add: append_response_def closed_def response_coordinator_def get_by_req_id_def table_empty_def
        response_context_table_def)
  ultimately show ?thesis
    using append_response_outcome [of 2 "[]" "response_coordinator 2",
        where req_id = 5 and flags = sample_flags and wg = "sample_group\<lparr>m_after_write_notificator := Some 7\<rparr>"]
    by (cases "append_response 5 sample_flags (sample_group\<lparr>m_after_write_notificator := Some 7\<rparr>) (response_coordinator 2)")
      (auto simp: pending_def)
qed

text \<open>
  \<^verbatim>\<open>reset\<close> terminates, empties the table, and calls every pending callback exactly once, in
  the order of the queue, with the status that the write was not executed.
\<close>

theorem coordinator_reset_notifies:
  assumes "table_inv (m_context_table c)"
  shows "fst (coordinator_reset c) =
      map (\<lambda>cb. (cb, Write_was_not_executed)) (concat (map (queued_in pending) (contexts_of (m_context_table c)))) \<and>
    table_empty (m_context_table (snd (coordinator_reset c))) \<and> table_inv (m_context_table (snd (coordinator_reset c)))"
  using reset_table_eq [OF assms] rq.is_empty_iff by (auto simp: coordinator_reset_def)

theorem coordinator_reset_notifies_witness:
  "table_empty (m_context_table (snd (coordinator_reset (response_coordinator 3))))"
  using coordinator_reset_notifies [of "response_coordinator 3"] table_inv_new(1) [of 3]
  by (simp add: response_coordinator_def)

text \<open>
  Wrap-around of request ids. When the id counter has reached its last value and
  two requests are waiting, the ids of the table are no longer increasing and the response to the first of the two is refused
  as belonging to no known request.
\<close>

theorem request_id_wraparound:
  assumes "table_inv (m_context_table c)" "contexts_of (m_context_table c) = []"
    "2 \<le> length (m_contexts (m_context_table c))" "\<not> closed c" "m_request_id_counter c = (- 1)"
  shows "\<exists>c1 c2. register_new_request c = Inr ((- 1), c1) \<and> register_new_request c1 = Inr (0, c2) \<and>
    append_response (- 1) flags wg c2 = (Inl (No_context (- 1)), destroy_write_group wg)"
proof -
  let ?t = "m_context_table c"
  have "\<not> table_is_full ?t" using rq.is_full_iff [OF assms(1)] assms(2,3) by auto
  then obtain t1 where t1: "push_response_context (- 1) ?t = Inr t1" "table_inv t1"
      "length (m_contexts t1) = length (m_contexts ?t)" "contexts_of t1 = [fresh_context (- 1)]"
    using rq.push_free [OF assms(1), of "- 1"] assms(2) by auto
  then have "\<not> table_is_full t1" using rq.is_full_iff [OF t1(2)] assms(3) by auto
  then obtain t2 where t2: "push_response_context 0 t1 = Inr t2" "table_inv t2"
      "contexts_of t2 = [fresh_context (- 1), fresh_context 0]"
    using rq.push_free [OF t1(2), of 0] t1(4) by auto
  have e: "m_elements_exists t2 = 2" using length_contexts_of [OF t2(2)] t2(3) by simp
  have "table_front t2 = fresh_context (- 1)" using rq.front_hd [OF t2(2,3)] .
  moreover have "table_back t2 = fresh_context 0"
    using contexts_of_nth [OF t2(2), of 1] e t2(3) by (simp add: table_back_def)
  moreover have "(0 :: u32) < - 1" by code_simp
  ultimately have "get_by_req_id (- 1) t2 = None"
    by (simp add: get_by_req_id_def fresh_context_def reinit_def)
  then have none: "get_by_req_id (- 1) t2 = None" by simp
  let ?c1 = "c\<lparr>m_context_table := t1, m_request_id_counter := 0\<rparr>"
  let ?c2 = "?c1\<lparr>m_context_table := t2, m_request_id_counter := 1\<rparr>"
  have "register_new_request c = Inr (- 1, ?c1)" using t1(1) assms(5) by (simp add: register_new_request_def)
  moreover have "register_new_request ?c1 = Inr (0, ?c2)" using t2(1) by (simp add: register_new_request_def)
  moreover have "append_response (- 1) flags wg ?c2 = (Inl (No_context (- 1)), destroy_write_group wg)"
    using none assms(4) by (simp add: append_response_def closed_def)
  ultimately show ?thesis by blast
qed

theorem request_id_wraparound_witness:
  "\<exists>c1 c2. register_new_request ((response_coordinator 2)\<lparr>m_request_id_counter := (- 1)\<rparr>) = Inr ((- 1), c1) \<and>
     register_new_request c1 = Inr (0, c2) \<and>
     append_response (- 1) sample_flags sample_group c2 = (Inl (No_context (- 1)), destroy_write_group sample_group)"
  using request_id_wraparound [of "(response_coordinator 2)\<lparr>m_request_id_counter := (- 1)\<rparr>" sample_flags sample_group]
    table_inv_new [of 2]
  by (simp add: response_coordinator_def closed_def) (simp add: response_context_table_def)

end
