(* ===== verification/Response_Builder.thy ===== *)
theory Response_Builder
  imports Http_Headers Response_Coordinator Percent_Encoding
begin

text \<open>
  Building responses: \<^verbatim>\<open>restinio/impl/header_helpers.hpp\<close> and \<^verbatim>\<open>restinio/message_builders.hpp\<close>.

  The three builders extend the record of \<^verbatim>\<open>base_response_builder_t\<close>. A connection handle is
  present or was moved away (\<open>b_connection\<close>); what a builder hands to the connection with
  \<^verbatim>\<open>write_response_parts\<close> is returned as a \<open>response_call\<close>: request id, output flags and write
  group. A vector that was moved from is empty. The overloads for rvalues only forward to those
  for lvalues. The date text (\<^verbatim>\<open>strftime\<close> of the current time) is an argument, and so is \<open>fmt_X\<close>,
  the format \<^verbatim>\<open>{:X}\<close> of the formatting library.
\<close>

subsection \<open>The header text\<close>

abbreviation CR :: char where "CR \<equiv> CHR 0x0D"
abbreviation LF :: char where "LF \<equiv> CHR 0x0A"
abbreviation header_rn :: string where "header_rn \<equiv> [CR, LF]"

datatype content_length_field_presence_t = Add_content_length | Skip_content_length

definition calculate_approx_buffer_size_for_header :: "http_response_header_t \<Rightarrow> nat" where
  "calculate_approx_buffer_size_for_header h =
     (let result = 13;
          result = result + length (m_reason_phrase (m_status_line h)) + 2;
          result = result + 26;
          result = result + (20 + 18);
          result = result + 2
      in for_each_field (\<lambda>f result. result + length (m_name f) + 2 + length (m_value f) + 2) (m_fields h) result)"

text \<open>
  \<^verbatim>\<open>snprintf\<close> into an array of 64 characters returns the length of the whole text and stores at
  most 63 characters of it and the terminating zero; what follows in the array is not initialised,
  and reading it has no result.
\<close>

definition snprintf_64 :: "string \<Rightarrow> string option" where
  "snprintf_64 txt = (if length txt < 64 then Some txt else None)"

definition connection_line :: "http_connection_header_t \<Rightarrow> string" where
  "connection_line c =
     (case c of
        Keep_alive \<Rightarrow> ''Connection: keep-alive'' @ header_rn
      | Close \<Rightarrow> ''Connection: close'' @ header_rn
      | Upgrade \<Rightarrow> ''Connection: Upgrade'' @ header_rn)"

definition create_header_string ::
    "http_response_header_t \<Rightarrow> content_length_field_presence_t \<Rightarrow> string option" where
  "create_header_string h content_length_field_presence =
     (let result = ''HTTP/'';
          result = result @ [char_of_byte (ucast (0x30 + m_http_major h))] @ ''.'';
          result = result @ [char_of_byte (ucast (0x30 + m_http_minor h))] @ '' '';
          sc = unat (m_status_code (m_status_line h));
          result = result @ [digit_char (sc div 100 mod 10)];
          result = result @ [digit_char (sc div 10 mod 10)];
          result = result @ [digit_char (sc mod 10)];
          result = result @ '' '' @ m_reason_phrase (m_status_line h) @ header_rn;
          result = result @ connection_line (m_http_connection_header_field_value h)
      in case (if Add_content_length = content_length_field_presence
               then snprintf_64 (''Content-Length: '' @ decimal (unat (m_content_length h)) @ header_rn)
               else Some []) of
           None \<Rightarrow> None
         | Some content_length_line \<Rightarrow>
             (let result = result @ content_length_line;
                  result = for_each_field (\<lambda>f result. result @ m_name f @ '': '' @ m_value f @ header_rn)
                             (m_fields h) result
              in Some (result @ header_rn)))"

definition create_not_implemented_resp :: "writable_item_t list" where
  "create_not_implemented_resp =
     [Const_buf (''HTTP/1.1 501 Not Implemented'' @ header_rn @ ''Connection: close'' @ header_rn @
        ''Content-Length: 0'' @ header_rn @ header_rn)]"

definition create_timeout_resp :: "writable_item_t list" where
  "create_timeout_resp =
     [Const_buf (''HTTP/1.1 504 Gateway Time-out'' @ header_rn @ ''Connection: close'' @ header_rn @
        ''Content-Length: 0'' @ header_rn @ header_rn)]"

subsection \<open>What the builders share\<close>

datatype builder_error =
    Done_cannot_be_called_twice
  | Write_group_refused write_group_error
  | Undefined_behaviour

type_synonym response_call = "u32 \<times> response_output_flags_t \<times> write_group_t"

record base_response_builder_t =
  b_header :: http_response_header_t
  b_connection :: bool
  b_request_id :: u32

definition base_response_builder :: "http_status_line_t \<Rightarrow> u32 \<Rightarrow> bool \<Rightarrow> base_response_builder_t" where
  "base_response_builder status_line request_id keep_alive =
     \<lparr>b_header = set_should_keep_alive keep_alive (http_response_header status_line),
      b_connection = True, b_request_id = request_id\<rparr>"

definition append_header_name :: "string \<Rightarrow> string \<Rightarrow> 'a base_response_builder_t_scheme \<Rightarrow> 'a base_response_builder_t_scheme" where
  "append_header_name field_name field_value b =
     b\<lparr>b_header := (b_header b)\<lparr>m_fields := add_field_name field_name field_value (m_fields (b_header b))\<rparr>\<rparr>"

definition append_header :: "http_header_field_t \<Rightarrow> 'a base_response_builder_t_scheme \<Rightarrow> 'a base_response_builder_t_scheme" where
  "append_header http_header_field b =
     b\<lparr>b_header := (b_header b)\<lparr>m_fields := add_field http_header_field (m_fields (b_header b))\<rparr>\<rparr>"

definition append_header_id :: "http_field_t \<Rightarrow> string \<Rightarrow> 'a base_response_builder_t_scheme \<Rightarrow> 'a base_response_builder_t_scheme" where
  "append_header_id field_id field_value b =
     b\<lparr>b_header := (b_header b)\<lparr>m_fields := add_field_id field_id field_value (m_fields (b_header b))\<rparr>\<rparr>"

definition append_header_date_field :: "string \<Rightarrow> 'a base_response_builder_t_scheme \<Rightarrow> 'a base_response_builder_t_scheme" where
  "append_header_date_field date b =
     b\<lparr>b_header := (b_header b)\<lparr>m_fields := set_field_id (http_field ''date'') date (m_fields (b_header b))\<rparr>\<rparr>"

definition connection_close :: "'a base_response_builder_t_scheme \<Rightarrow> 'a base_response_builder_t_scheme" where
  "connection_close b = b\<lparr>b_header := set_should_keep_alive False (b_header b)\<rparr>"

text \<open>The source calls the getter \<^verbatim>\<open>should_keep_alive()\<close> and drops its value.\<close>

definition connection_keep_alive :: "'a base_response_builder_t_scheme \<Rightarrow> 'a base_response_builder_t_scheme" where
  "connection_keep_alive b = (let ignored = should_keep_alive (b_header b) in b)"

definition calculate_status_line_size :: "'a base_response_builder_t_scheme \<Rightarrow> nat" where
  "calculate_status_line_size b = 8 + 1 + 3 + 1 + length (m_reason_phrase (m_status_line (b_header b)))"

text \<open>A write group with its status line size and, if given, its callback.\<close>

definition make_group :: "writable_item_t list \<Rightarrow> nat \<Rightarrow> nat option \<Rightarrow> builder_error + write_group_t" where
  "make_group items status_line_size wscb =
     (case set_status_line_size status_line_size (write_group items) of
        Inl e \<Rightarrow> Inl (Write_group_refused e)
      | Inr wg \<Rightarrow> Inr (case wscb of Some cb \<Rightarrow> set_after_write_notificator cb wg | None \<Rightarrow> wg))"

subsection \<open>The builder controlled by the library\<close>

record controlled_builder_t = base_response_builder_t +
  c_body_size :: u64
  c_response_parts :: "writable_item_t list"

definition controlled_builder :: "http_status_line_t \<Rightarrow> u32 \<Rightarrow> bool \<Rightarrow> controlled_builder_t" where
  "controlled_builder status_line request_id keep_alive =
     base_response_builder_t.extend (base_response_builder status_line request_id keep_alive)
       (controlled_builder_t.fields 0 [])"

definition controlled_reserve :: "controlled_builder_t \<Rightarrow> controlled_builder_t" where
  "controlled_reserve b = (if c_response_parts b = [] then b\<lparr>c_response_parts := [Empty_buf]\<rparr> else b)"

definition controlled_set_body_impl :: "writable_item_t \<Rightarrow> nat \<Rightarrow> controlled_builder_t \<Rightarrow> controlled_builder_t" where
  "controlled_set_body_impl body body_size b =
     (let b = controlled_reserve b;
          b = b\<lparr>c_response_parts := take 1 (c_response_parts b)\<rparr>;
          b = (if 0 < body_size then b\<lparr>c_response_parts := c_response_parts b @ [body]\<rparr> else b)
      in b\<lparr>c_body_size := word_of_nat body_size\<rparr>)"

definition controlled_set_body :: "writable_item_t \<Rightarrow> controlled_builder_t \<Rightarrow> controlled_builder_t" where
  "controlled_set_body body b = controlled_set_body_impl body (item_size body) b"

definition controlled_append_body_impl :: "writable_item_t \<Rightarrow> nat \<Rightarrow> controlled_builder_t \<Rightarrow> controlled_builder_t" where
  "controlled_append_body_impl body_part append_size b =
     (let b = controlled_reserve b
      in if 0 < append_size then
           b\<lparr>c_response_parts := c_response_parts b @ [body_part],
             c_body_size := c_body_size b + word_of_nat append_size\<rparr>
         else b)"

definition controlled_append_body :: "writable_item_t \<Rightarrow> controlled_builder_t \<Rightarrow> controlled_builder_t" where
  "controlled_append_body body_part b = controlled_append_body_impl body_part (item_size body_part) b"

definition controlled_done :: "nat option \<Rightarrow> controlled_builder_t \<Rightarrow> (builder_error + response_call) \<times> controlled_builder_t" where
  "controlled_done wscb b =
     (if b_connection b then
        (let response_output_flags =
               \<lparr>m_response_parts = Final_parts,
                m_response_connection = response_connection_attr (should_keep_alive (b_header b))\<rparr>;
             b = b\<lparr>b_header := Http_Headers.set_content_length (c_body_size b) (b_header b)\<rparr>;
             b = controlled_reserve b
         in case create_header_string (b_header b) Add_content_length of
              None \<Rightarrow> (Inl Undefined_behaviour, b)
            | Some header \<Rightarrow>
                (let b = b\<lparr>c_response_parts := (c_response_parts b)[0 := Datasizeable_buf header]\<rparr>;
                     parts = c_response_parts b;
                     b = b\<lparr>c_response_parts := []\<rparr>
                 in case make_group parts (calculate_status_line_size b) wscb of
                      Inl e \<Rightarrow> (Inl e, b)
                    | Inr wg \<Rightarrow>
                        (Inr (b_request_id b, response_output_flags, wg), b\<lparr>b_connection := False\<rparr>)))
      else (Inl Done_cannot_be_called_twice, b))"

subsection \<open>The builder controlled by the user\<close>

record user_builder_t = base_response_builder_t +
  u_header_was_sent :: bool
  u_should_keep_alive_when_header_was_sent :: bool
  u_response_parts :: "writable_item_t list"

definition user_builder :: "http_status_line_t \<Rightarrow> u32 \<Rightarrow> bool \<Rightarrow> user_builder_t" where
  "user_builder status_line request_id keep_alive =
     base_response_builder_t.extend (base_response_builder status_line request_id keep_alive)
       (user_builder_t.fields False True [])"

definition user_set_content_length :: "u64 \<Rightarrow> user_builder_t \<Rightarrow> user_builder_t" where
  "user_set_content_length content_length b =
     b\<lparr>b_header := Http_Headers.set_content_length content_length (b_header b)\<rparr>"

definition user_reserve :: "user_builder_t \<Rightarrow> user_builder_t" where
  "user_reserve b =
     (if \<not> u_header_was_sent b \<and> u_response_parts b = [] then b\<lparr>u_response_parts := [Empty_buf]\<rparr> else b)"

definition user_set_body_impl :: "writable_item_t \<Rightarrow> nat \<Rightarrow> user_builder_t \<Rightarrow> user_builder_t" where
  "user_set_body_impl body body_size b =
     (let b = user_reserve b;
          b = (if \<not> u_header_was_sent b then b\<lparr>u_response_parts := take 1 (u_response_parts b)\<rparr>
               else b\<lparr>u_response_parts := []\<rparr>)
      in if 0 < body_size then b\<lparr>u_response_parts := u_response_parts b @ [body]\<rparr> else b)"

definition user_set_body :: "writable_item_t \<Rightarrow> user_builder_t \<Rightarrow> user_builder_t" where
  "user_set_body body b = user_set_body_impl body (item_size body) b"

definition user_append_body_impl :: "writable_item_t \<Rightarrow> user_builder_t \<Rightarrow> user_builder_t" where
  "user_append_body_impl body_part b =
     (let b = user_reserve b in b\<lparr>u_response_parts := u_response_parts b @ [body_part]\<rparr>)"

definition user_append_body :: "writable_item_t \<Rightarrow> user_builder_t \<Rightarrow> user_builder_t" where
  "user_append_body body_part b =
     (if 0 = item_size body_part then b else user_append_body_impl body_part b)"

definition user_send_ready_data ::
    "response_parts_attr_t \<Rightarrow> nat option \<Rightarrow> user_builder_t \<Rightarrow> (builder_error + response_call option) \<times> user_builder_t" where
  "user_send_ready_data response_parts_attr wscb b =
     (case (if \<not> u_header_was_sent b then
              (let b = b\<lparr>u_should_keep_alive_when_header_was_sent := should_keep_alive (b_header b)\<rparr>;
                   b = user_reserve b
               in case create_header_string (b_header b) Add_content_length of
                    None \<Rightarrow> Inl b
                  | Some header \<Rightarrow>
                      Inr (calculate_status_line_size b,
                        b\<lparr>u_response_parts := (u_response_parts b)[0 := Datasizeable_buf header],
                          u_header_was_sent := True\<rparr>))
            else Inr (0, b)) of
        Inl b \<Rightarrow> (Inl Undefined_behaviour, b)
      | Inr (status_line_size, b) \<Rightarrow>
          (if u_response_parts b \<noteq> [] \<or> wscb \<noteq> None \<or> Final_parts = response_parts_attr then
             (let response_output_flags =
                    \<lparr>m_response_parts = response_parts_attr,
                     m_response_connection = response_connection_attr (u_should_keep_alive_when_header_was_sent b)\<rparr>;
                  parts = u_response_parts b;
                  b = b\<lparr>u_response_parts := []\<rparr>
              in case make_group parts status_line_size wscb of
                   Inl e \<Rightarrow> (Inl e, b)
                 | Inr wg \<Rightarrow> (Inr (Some (b_request_id b, response_output_flags, wg)), b))
           else (Inr None, b)))"

definition user_flush :: "nat option \<Rightarrow> user_builder_t \<Rightarrow> (builder_error + response_call option) \<times> user_builder_t" where
  "user_flush wscb b =
     (if b_connection b then user_send_ready_data Not_final_parts wscb b else (Inr None, b))"

definition user_done :: "nat option \<Rightarrow> user_builder_t \<Rightarrow> (builder_error + response_call option) \<times> user_builder_t" where
  "user_done wscb b =
     (if b_connection b then user_send_ready_data Final_parts wscb (b\<lparr>b_connection := False\<rparr>)
      else (Inl Done_cannot_be_called_twice, b))"

subsection \<open>The builder of chunked responses\<close>

record chunked_builder_t = base_response_builder_t +
  k_header_was_sent :: bool
  k_should_keep_alive_when_header_was_sent :: bool
  k_chunks :: "writable_item_t list"

definition chunked_builder :: "http_status_line_t \<Rightarrow> u32 \<Rightarrow> bool \<Rightarrow> chunked_builder_t" where
  "chunked_builder status_line request_id keep_alive =
     base_response_builder_t.extend (base_response_builder status_line request_id keep_alive)
       (chunked_builder_t.fields False True [])"

definition append_chunk :: "writable_item_t \<Rightarrow> chunked_builder_t \<Rightarrow> chunked_builder_t" where
  "append_chunk chunk b = (if 0 \<noteq> item_size chunk then b\<lparr>k_chunks := k_chunks b @ [chunk]\<rparr> else b)"

text \<open>\<^verbatim>\<open>std::string::find\<close> of a text that is not empty, as a test.\<close>

fun contains :: "string \<Rightarrow> string \<Rightarrow> bool" where
  "contains value [] \<longleftrightarrow> value = []"
| "contains value (c # cs) \<longleftrightarrow> take (length value) (c # cs) = value \<or> contains value cs"

definition prepare_header_for_sending :: "chunked_builder_t \<Rightarrow> chunked_builder_t" where
  "prepare_header_for_sending b =
     (let b = b\<lparr>k_should_keep_alive_when_header_was_sent := should_keep_alive (b_header b)\<rparr>;
          fields = m_fields (b_header b);
          transfer_encoding = http_field ''transfer_encoding''
      in if \<not> has_field_id transfer_encoding fields then
           b\<lparr>b_header := (b_header b)\<lparr>m_fields := add_field_id transfer_encoding ''chunked'' fields\<rparr>\<rparr>
         else case get_field_id transfer_encoding fields of
           Inl _ \<Rightarrow> b
         | Inr current_value \<Rightarrow>
             (if \<not> contains ''chunked'' current_value then
                b\<lparr>b_header := (b_header b)\<lparr>m_fields := append_field_id transfer_encoding '',chunked'' fields\<rparr>\<rparr>
              else b))"

text \<open>The items for the waiting chunks; \<open>prefix_rn\<close> is the line end that closes the previous chunk.\<close>

fun chunk_items :: "(nat \<Rightarrow> string) \<Rightarrow> string \<Rightarrow> writable_item_t list \<Rightarrow> writable_item_t list option" where
  "chunk_items fmt_X prefix_rn [] = Some []"
| "chunk_items fmt_X prefix_rn (chunk # chunks) =
     (case item_buf chunk of
        None \<Rightarrow> None
      | Some buf \<Rightarrow>
          (case chunk_items fmt_X header_rn chunks of
             None \<Rightarrow> None
           | Some items \<Rightarrow>
               Some (Datasizeable_buf (prefix_rn @ fmt_X (length buf) @ header_rn) # chunk # items)))"

definition create_bufs ::
    "(nat \<Rightarrow> string) \<Rightarrow> bool \<Rightarrow> chunked_builder_t \<Rightarrow> (writable_item_t list \<times> chunked_builder_t) option" where
  "create_bufs fmt_X add_zero_chunk b =
     (case (if \<not> k_header_was_sent b
            then map_option (\<lambda>header. [Datasizeable_buf header]) (create_header_string (b_header b) Skip_content_length)
            else Some []) of
        None \<Rightarrow> None
      | Some header_items \<Rightarrow>
          (case chunk_items fmt_X [] (k_chunks b) of
             None \<Rightarrow> None
           | Some items \<Rightarrow>
               (let appendix = (if k_chunks b \<noteq> [] then header_rn else []) @
                               (if add_zero_chunk then ''0'' @ header_rn @ header_rn else []);
                    bufs = header_items @ items @ (if appendix \<noteq> [] then [Const_buf appendix] else [])
                in Some (bufs, b\<lparr>k_chunks := []\<rparr>))))"

definition chunked_send_ready_data ::
    "(nat \<Rightarrow> string) \<Rightarrow> response_parts_attr_t \<Rightarrow> nat option \<Rightarrow> chunked_builder_t \<Rightarrow>
       (builder_error + response_call option) \<times> chunked_builder_t" where
  "chunked_send_ready_data fmt_X response_parts_attr wscb b =
     (let (status_line_size, b) =
            (if \<not> k_header_was_sent b then (calculate_status_line_size b, prepare_header_for_sending b) else (0, b))
      in case create_bufs fmt_X (Final_parts = response_parts_attr) b of
           None \<Rightarrow> (Inl Undefined_behaviour, b)
         | Some (bufs, b) \<Rightarrow>
             (let b = b\<lparr>k_header_was_sent := True\<rparr>;
                  response_output_flags =
                    \<lparr>m_response_parts = response_parts_attr,
                     m_response_connection = response_connection_attr (k_should_keep_alive_when_header_was_sent b)\<rparr>
              in if bufs \<noteq> [] \<or> wscb \<noteq> None then
                   (case make_group bufs status_line_size wscb of
                      Inl e \<Rightarrow> (Inl e, b)
                    | Inr wg \<Rightarrow> (Inr (Some (b_request_id b, response_output_flags, wg)), b))
                 else (Inr None, b)))"

definition chunked_flush ::
    "(nat \<Rightarrow> string) \<Rightarrow> nat option \<Rightarrow> chunked_builder_t \<Rightarrow> (builder_error + response_call option) \<times> chunked_builder_t" where
  "chunked_flush fmt_X wscb b =
     (if b_connection b then chunked_send_ready_data fmt_X Not_final_parts wscb b else (Inr None, b))"

definition chunked_done ::
    "(nat \<Rightarrow> string) \<Rightarrow> nat option \<Rightarrow> chunked_builder_t \<Rightarrow> (builder_error + response_call option) \<times> chunked_builder_t" where
  "chunked_done fmt_X wscb b =
     (if b_connection b then chunked_send_ready_data fmt_X Final_parts wscb (b\<lparr>b_connection := False\<rparr>)
      else (Inl Done_cannot_be_called_twice, b))"

subsection \<open>The shape of the header text\<close>

lemma for_each_append: "for_each_field (\<lambda>f result. result @ g f) fs r = r @ concat (map g fs)"
  unfolding for_each_field_def by (induction fs arbitrary: r) simp_all

lemma for_each_field_sizes:
  "for_each_field (\<lambda>f result. result + length (m_name f) + 2 + length (m_value f) + 2) fs r =
   r + length (concat (map (\<lambda>f. m_name f @ '': '' @ m_value f @ header_rn) fs))"
  unfolding for_each_field_def by (induction fs arbitrary: r) simp_all

lemma decimal_u64: "length (decimal (unat (l :: u64))) \<le> 20"
proof (rule decimal_length [of _ 19, simplified])
  show "unat l < 100000000000000000000" using unsigned_less [of l, where 'a = nat] by simp
qed

definition status_line_text :: "http_response_header_t \<Rightarrow> string" where
  "status_line_text h =
     ''HTTP/'' @ [char_of_byte (ucast (0x30 + m_http_major h))] @ ''.'' @
     [char_of_byte (ucast (0x30 + m_http_minor h))] @ '' '' @
     map digit_char [unat (m_status_code (m_status_line h)) div 100 mod 10,
       unat (m_status_code (m_status_line h)) div 10 mod 10, unat (m_status_code (m_status_line h)) mod 10] @
     '' '' @ m_reason_phrase (m_status_line h)"

definition content_length_text :: "http_response_header_t \<Rightarrow> content_length_field_presence_t \<Rightarrow> string" where
  "content_length_text h p =
     (if Add_content_length = p then ''Content-Length: '' @ decimal (unat (m_content_length h)) @ header_rn else [])"

definition header_text :: "http_response_header_t \<Rightarrow> content_length_field_presence_t \<Rightarrow> string" where
  "header_text h p =
     status_line_text h @ header_rn @ connection_line (m_http_connection_header_field_value h) @
     content_length_text h p @ concat (map (\<lambda>f. m_name f @ '': '' @ m_value f @ header_rn) (m_fields h)) @ header_rn"

lemma create_header_string_eq: "create_header_string h p = Some (header_text h p)"
proof -
  have "snprintf_64 (''Content-Length: '' @ decimal (unat (m_content_length h)) @ header_rn) =
      Some (''Content-Length: '' @ decimal (unat (m_content_length h)) @ header_rn)"
    using decimal_u64 [of "m_content_length h"] by (simp add: snprintf_64_def)
  then show ?thesis
    unfolding create_header_string_def Let_def header_text_def status_line_text_def content_length_text_def for_each_append
    by simp
qed

lemma length_status_line_text: "length (status_line_text h) = 13 + length (m_reason_phrase (m_status_line h))"
  by (simp add: status_line_text_def)

lemma length_header_text: "length (header_text h p) \<le> calculate_approx_buffer_size_for_header h"
proof -
  have "length (connection_line (m_http_connection_header_field_value h)) \<le> 26"
    by (cases "m_http_connection_header_field_value h") (simp_all add: connection_line_def)
  moreover have "length (content_length_text h p) \<le> 38"
    using decimal_u64 [of "m_content_length h"] by (simp add: content_length_text_def)
  ultimately show ?thesis
    unfolding calculate_approx_buffer_size_for_header_def Let_def for_each_field_sizes
    by (simp add: header_text_def length_status_line_text add_mono)
qed

lemma make_group_header:
  assumes "k \<le> length header"
  shows "make_group (Datasizeable_buf header # items) k wscb =
    Inr \<lparr>m_items = Datasizeable_buf header # items, m_status_line_size = k, m_after_write_notificator = wscb\<rparr>"
  using assms by (auto simp: make_group_def set_status_line_size_def write_group_def write_type_def item_size_def
      set_after_write_notificator_def split: option.splits)

lemma make_group_plain:
  "make_group items 0 wscb = Inr \<lparr>m_items = items, m_status_line_size = 0, m_after_write_notificator = wscb\<rparr>"
  by (auto simp: make_group_def set_status_line_size_def write_group_def set_after_write_notificator_def split: option.splits)

lemma status_line_fits: "calculate_status_line_size b \<le> length (header_text (b_header b) p)"
  by (simp add: calculate_status_line_size_def header_text_def length_status_line_text)

lemma controlled_done_eq:
  assumes "b_connection b"
  defines "h \<equiv> Http_Headers.set_content_length (c_body_size b) (b_header b)"
  shows "\<exists>b'. controlled_done wscb b =
    (Inr (b_request_id b,
       \<lparr>m_response_parts = Final_parts,
        m_response_connection = response_connection_attr (should_keep_alive (b_header b))\<rparr>,
       \<lparr>m_items = Datasizeable_buf (header_text h Add_content_length) # tl (c_response_parts b),
        m_status_line_size = calculate_status_line_size b, m_after_write_notificator = wscb\<rparr>), b') \<and>
    \<not> b_connection b'"
proof -
  define c where "c = controlled_reserve (b\<lparr>b_header := h\<rparr>)"
  have c: "c_response_parts c \<noteq> []" "tl (c_response_parts c) = tl (c_response_parts b)" "b_header c = h"
      "b_request_id c = b_request_id b"
    by (auto simp: c_def controlled_reserve_def)
  have size: "calculate_status_line_size c = calculate_status_line_size b"
    by (simp add: calculate_status_line_size_def c(3) h_def Http_Headers.set_content_length_def)
  have parts: "(c_response_parts c)[0 := x] = x # tl (c_response_parts b)" for x
    using c(1,2) by (cases "c_response_parts c") auto
  have "calculate_status_line_size b \<le> length (header_text h Add_content_length)"
    using status_line_fits [of c Add_content_length] size c(3) by simp
  then show ?thesis
    using assms(1) c size parts
    by (simp add: controlled_done_def Let_def h_def [symmetric] c_def [symmetric]
        create_header_string_eq make_group_header calculate_status_line_size_def)
qed

subsection \<open>Histories of the builders\<close>

datatype header_op =
    Append_header_name string string
  | Append_header http_header_field_t
  | Append_header_id http_field_t string
  | Append_header_date string
  | Connection_close_op
  | Connection_keep_alive_op

fun header_step :: "header_op \<Rightarrow> 'a base_response_builder_t_scheme \<Rightarrow> 'a base_response_builder_t_scheme" where
  "header_step (Append_header_name n v) b = append_header_name n v b"
| "header_step (Append_header f) b = append_header f b"
| "header_step (Append_header_id i v) b = append_header_id i v b"
| "header_step (Append_header_date d) b = append_header_date_field d b"
| "header_step Connection_close_op b = connection_close b"
| "header_step Connection_keep_alive_op b = connection_keep_alive b"

lemmas header_step_defs = append_header_name_def append_header_def append_header_id_def
  append_header_date_field_def connection_close_def connection_keep_alive_def

lemma header_step_keeps [simp]:
  "b_connection (header_step p b) = b_connection b" "b_request_id (header_step p b) = b_request_id b"
  by (cases p; simp add: header_step_defs)+

lemma header_step_controlled [simp]:
  "c_body_size (header_step p b) = c_body_size b" "c_response_parts (header_step p b) = c_response_parts b"
  by (cases p; simp add: header_step_defs)+

lemma header_step_user [simp]:
  "u_header_was_sent (header_step p b) = u_header_was_sent b"
  "u_should_keep_alive_when_header_was_sent (header_step p b) = u_should_keep_alive_when_header_was_sent b"
  "u_response_parts (header_step p b) = u_response_parts b"
  by (cases p; simp add: header_step_defs)+

lemma header_step_chunked [simp]:
  "k_header_was_sent (header_step p b) = k_header_was_sent b"
  "k_should_keep_alive_when_header_was_sent (header_step p b) = k_should_keep_alive_when_header_was_sent b"
  "k_chunks (header_step p b) = k_chunks b"
  by (cases p; simp add: header_step_defs)+

text \<open>The non-empty items a call contributes to a body.\<close>

definition body_part :: "writable_item_t \<Rightarrow> writable_item_t list" where
  "body_part item = (if 0 < item_size item then [item] else [])"

datatype controlled_op = Controlled_header header_op | Set_body writable_item_t | Append_body writable_item_t

fun controlled_step :: "controlled_op \<Rightarrow> controlled_builder_t \<Rightarrow> controlled_builder_t" where
  "controlled_step (Controlled_header p) b = header_step p b"
| "controlled_step (Set_body item) b = controlled_set_body item b"
| "controlled_step (Append_body item) b = controlled_append_body item b"

fun body_step :: "controlled_op \<Rightarrow> writable_item_t list \<Rightarrow> writable_item_t list" where
  "body_step (Controlled_header p) body = body"
| "body_step (Set_body item) body = body_part item"
| "body_step (Append_body item) body = body @ body_part item"

definition controlled_inv :: "u32 \<Rightarrow> writable_item_t list \<Rightarrow> controlled_builder_t \<Rightarrow> bool" where
  "controlled_inv rid body b \<longleftrightarrow>
     b_connection b \<and> b_request_id b = rid \<and> tl (c_response_parts b) = body \<and>
     c_body_size b = word_of_nat (sum_list (map item_size body))"

lemma controlled_inv_step:
  assumes "controlled_inv rid body b"
  shows "controlled_inv rid (body_step p body) (controlled_step p b)"
  using assms
  by (cases p) (auto simp: controlled_inv_def controlled_set_body_def controlled_set_body_impl_def
      controlled_append_body_def controlled_append_body_impl_def controlled_reserve_def body_part_def Let_def
      take_Suc neq_Nil_conv split: if_splits)

lemma controlled_inv_run: "controlled_inv rid (fold body_step ops body) (fold controlled_step ops b)"
  if "controlled_inv rid body b"
  using that by (induction ops arbitrary: b body) (simp_all add: controlled_inv_step)

lemma controlled_inv_init: "controlled_inv rid [] (controlled_builder sl rid ka)"
  by (simp add: controlled_inv_def controlled_builder_def base_response_builder_def
      base_response_builder_t.defs controlled_builder_t.defs)

datatype user_op =
    User_header header_op
  | User_content_length u64
  | User_set_body writable_item_t
  | User_append_body writable_item_t
  | User_flush "nat option"

text \<open>A run returns the calls to the connection in order; the first error ends it.\<close>

fun user_run :: "user_op list \<Rightarrow> user_builder_t \<Rightarrow> builder_error + response_call list \<times> user_builder_t" where
  "user_run [] b = Inr ([], b)"
| "user_run (User_header p # ops) b = user_run ops (header_step p b)"
| "user_run (User_content_length l # ops) b = user_run ops (user_set_content_length l b)"
| "user_run (User_set_body item # ops) b = user_run ops (user_set_body item b)"
| "user_run (User_append_body item # ops) b = user_run ops (user_append_body item b)"
| "user_run (User_flush wscb # ops) b =
     (case user_flush wscb b of
        (Inl e, _) \<Rightarrow> Inl e
      | (Inr call, b) \<Rightarrow>
          sum_bind (user_run ops b) (\<lambda>(calls, b). Inr ((case call of None \<Rightarrow> [] | Some c \<Rightarrow> [c]) @ calls, b)))"

text \<open>What was flushed and what waits, as the user sees it.\<close>

fun user_body :: "user_op list \<Rightarrow> writable_item_t list \<times> writable_item_t list \<Rightarrow> writable_item_t list \<times> writable_item_t list" where
  "user_body [] s = s"
| "user_body (User_set_body item # ops) (sent, waiting) = user_body ops (sent, body_part item)"
| "user_body (User_append_body item # ops) (sent, waiting) = user_body ops (sent, waiting @ body_part item)"
| "user_body (User_flush _ # ops) (sent, waiting) = user_body ops (sent @ waiting, [])"
| "user_body (_ # ops) s = user_body ops s"

definition call_items :: "response_call list \<Rightarrow> writable_item_t list" where
  "call_items calls = concat (map (\<lambda>(_, _, wg). m_items wg) calls)"

lemma call_items_simps [simp]: "call_items [] = []" "call_items (c # cs) = m_items (snd (snd c)) @ call_items cs"
    "call_items (cs @ ds) = call_items cs @ call_items ds"
  by (simp_all add: call_items_def case_prod_beta)

text \<open>The parts that wait in the builder: before the header was sent, the first one is reserved for it.\<close>

definition user_inv :: "writable_item_t list \<Rightarrow> user_builder_t \<Rightarrow> bool" where
  "user_inv waiting b \<longleftrightarrow>
     b_connection b \<and> (if u_header_was_sent b then u_response_parts b else tl (u_response_parts b)) = waiting"

lemma user_inv_init: "user_inv [] (user_builder sl rid ka)"
  by (simp add: user_inv_def user_builder_def base_response_builder_def base_response_builder_t.defs user_builder_t.defs)

lemma user_inv_steps:
  assumes "user_inv waiting b"
  shows "user_inv waiting (header_step p b)" "user_inv waiting (user_set_content_length l b)"
    "user_inv (body_part item) (user_set_body item b)" "user_inv (waiting @ body_part item) (user_append_body item b)"
  using assms by (auto simp: user_inv_def user_set_content_length_def user_set_body_def user_set_body_impl_def
      user_append_body_def user_append_body_impl_def user_reserve_def body_part_def Let_def take_Suc neq_Nil_conv)

text \<open>Sending what waits: the first time the header goes first, and its keep-alive attribute is kept.\<close>

lemma user_send_first:
  assumes "\<not> u_header_was_sent b" "tl (u_response_parts b) = waiting"
  shows "\<exists>b'. user_send_ready_data attr wscb b =
      (Inr (Some (b_request_id b,
         \<lparr>m_response_parts = attr, m_response_connection = response_connection_attr (should_keep_alive (b_header b))\<rparr>,
         \<lparr>m_items = Datasizeable_buf (header_text (b_header b) Add_content_length) # waiting,
          m_status_line_size = calculate_status_line_size b, m_after_write_notificator = wscb\<rparr>)), b') \<and>
      u_header_was_sent b' \<and> u_response_parts b' = [] \<and> b_connection b' = b_connection b \<and>
      u_should_keep_alive_when_header_was_sent b' = should_keep_alive (b_header b)"
proof -
  define c where "c = user_reserve (b\<lparr>u_should_keep_alive_when_header_was_sent := should_keep_alive (b_header b)\<rparr>)"
  have c: "u_response_parts c \<noteq> []" "tl (u_response_parts c) = waiting" "b_header c = b_header b"
      "b_request_id c = b_request_id b" "b_connection c = b_connection b" "\<not> u_header_was_sent c"
      "u_should_keep_alive_when_header_was_sent c = should_keep_alive (b_header b)"
    using assms by (auto simp: c_def user_reserve_def)
  have parts: "(u_response_parts c)[0 := x] = x # waiting" for x
    using c(1,2) by (cases "u_response_parts c") auto
  have size: "calculate_status_line_size c = calculate_status_line_size b"
    by (simp add: calculate_status_line_size_def c(3))
  show ?thesis
    using assms status_line_fits [of b Add_content_length]
    by (simp add: user_send_ready_data_def Let_def c_def [symmetric] c create_header_string_eq parts size make_group_header)
qed

lemma user_send_next:
  assumes "u_header_was_sent b"
  shows "user_send_ready_data attr wscb b =
    (Inr (if u_response_parts b \<noteq> [] \<or> wscb \<noteq> None \<or> Final_parts = attr
      then Some (b_request_id b,
         \<lparr>m_response_parts = attr,
          m_response_connection = response_connection_attr (u_should_keep_alive_when_header_was_sent b)\<rparr>,
         \<lparr>m_items = u_response_parts b, m_status_line_size = 0, m_after_write_notificator = wscb\<rparr>)
      else None), b\<lparr>u_response_parts := []\<rparr>)"
  using assms by (simp add: user_send_ready_data_def Let_def make_group_plain)

text \<open>Calls that do not end the response and have the given keep-alive attribute.\<close>

definition partial_calls :: "bool \<Rightarrow> response_call list \<Rightarrow> bool" where
  "partial_calls ka calls \<longleftrightarrow>
     list_all (\<lambda>(_, flags, _). flags = \<lparr>m_response_parts = Not_final_parts,
       m_response_connection = response_connection_attr ka\<rparr>) calls"

lemma partial_calls_simps [simp]: "partial_calls ka []"
    "partial_calls ka (c # cs) \<longleftrightarrow> fst (snd c) = \<lparr>m_response_parts = Not_final_parts,
       m_response_connection = response_connection_attr ka\<rparr> \<and> partial_calls ka cs"
    "partial_calls ka (cs @ ds) \<longleftrightarrow> partial_calls ka cs \<and> partial_calls ka ds"
  by (simp_all add: partial_calls_def case_prod_beta)

lemma user_run_sent:
  assumes "user_inv waiting b" "u_header_was_sent b"
  shows "\<exists>calls b'. user_run ops b = Inr (calls, b') \<and> u_header_was_sent b' \<and>
    user_inv (snd (user_body ops (sent, waiting))) b' \<and>
    fst (user_body ops (sent, waiting)) = sent @ call_items calls \<and>
    partial_calls (u_should_keep_alive_when_header_was_sent b) calls \<and>
    u_should_keep_alive_when_header_was_sent b' = u_should_keep_alive_when_header_was_sent b"
  using assms
proof (induction ops arbitrary: b sent waiting)
  case (Cons p ops)
  show ?case
  proof (cases p)
    case (User_header q)
    with Cons.IH [of waiting "header_step q b" sent] Cons.prems user_inv_steps(1) show ?thesis by simp
  next
    case (User_content_length l)
    with Cons.IH [of waiting "user_set_content_length l b" sent] Cons.prems user_inv_steps(2) show ?thesis
      by (simp add: user_set_content_length_def)
  next
    case (User_set_body item)
    have "u_header_was_sent (user_set_body item b)"
      "u_should_keep_alive_when_header_was_sent (user_set_body item b) = u_should_keep_alive_when_header_was_sent b"
      using Cons.prems(2) by (simp_all add: user_set_body_def user_set_body_impl_def user_reserve_def Let_def)
    with User_set_body Cons.IH [of "body_part item" "user_set_body item b" sent] Cons.prems user_inv_steps(3)
    show ?thesis by simp
  next
    case (User_append_body item)
    have "u_header_was_sent (user_append_body item b)"
      "u_should_keep_alive_when_header_was_sent (user_append_body item b) = u_should_keep_alive_when_header_was_sent b"
      using Cons.prems(2) by (simp_all add: user_append_body_def user_append_body_impl_def user_reserve_def Let_def)
    with User_append_body Cons.IH [of "waiting @ body_part item" "user_append_body item b" sent] Cons.prems user_inv_steps(4)
    show ?thesis by simp
  next
    case (User_flush wscb)
    let ?b = "b\<lparr>u_response_parts := []\<rparr>"
    have "user_inv [] ?b" using Cons.prems by (simp add: user_inv_def)
    then obtain calls b' where IH: "user_run ops ?b = Inr (calls, b')" "u_header_was_sent b'"
        "user_inv (snd (user_body ops (sent @ waiting, []))) b'"
        "fst (user_body ops (sent @ waiting, [])) = (sent @ waiting) @ call_items calls"
        "partial_calls (u_should_keep_alive_when_header_was_sent b) calls"
        "u_should_keep_alive_when_header_was_sent b' = u_should_keep_alive_when_header_was_sent b"
      using Cons.IH [of "[]" ?b "sent @ waiting"] Cons.prems by auto
    moreover have "b_connection b" "u_response_parts b = waiting" using Cons.prems by (simp_all add: user_inv_def)
    ultimately show ?thesis
      using User_flush Cons.prems(2) by (auto simp: user_flush_def user_send_next)
  qed
qed simp

text \<open>What the calls of a run carry: nothing, or the header and the parts flushed so far.\<close>

definition user_sent :: "user_builder_t \<Rightarrow> response_call list \<Rightarrow> writable_item_t list \<Rightarrow> bool" where
  "user_sent b calls sent \<longleftrightarrow>
     (if u_header_was_sent b
      then \<exists>h. call_items calls = Datasizeable_buf (header_text h Add_content_length) # sent \<and>
        partial_calls (should_keep_alive h) calls \<and> u_should_keep_alive_when_header_was_sent b = should_keep_alive h
      else calls = [] \<and> sent = [])"

lemma user_run_unsent:
  assumes "user_inv waiting b" "\<not> u_header_was_sent b"
  shows "\<exists>calls b'. user_run ops b = Inr (calls, b') \<and> user_inv (snd (user_body ops ([], waiting))) b' \<and>
    user_sent b' calls (fst (user_body ops ([], waiting)))"
  using assms
proof (induction ops arbitrary: b waiting)
  case (Cons p ops)
  show ?case
  proof (cases p)
    case (User_header q)
    with Cons.IH [of waiting "header_step q b"] Cons.prems user_inv_steps(1) show ?thesis by simp
  next
    case (User_content_length l)
    with Cons.IH [of waiting "user_set_content_length l b"] Cons.prems user_inv_steps(2) show ?thesis
      by (simp add: user_set_content_length_def)
  next
    case (User_set_body item)
    have "\<not> u_header_was_sent (user_set_body item b)"
      using Cons.prems(2) by (simp add: user_set_body_def user_set_body_impl_def user_reserve_def Let_def)
    with User_set_body Cons.IH [of "body_part item" "user_set_body item b"] Cons.prems user_inv_steps(3)
    show ?thesis by simp
  next
    case (User_append_body item)
    have "\<not> u_header_was_sent (user_append_body item b)"
      using Cons.prems(2) by (simp add: user_append_body_def user_append_body_impl_def user_reserve_def Let_def)
    with User_append_body Cons.IH [of "waiting @ body_part item" "user_append_body item b"] Cons.prems user_inv_steps(4)
    show ?thesis by simp
  next
    case (User_flush wscb)
    have con: "b_connection b" and tl: "tl (u_response_parts b) = waiting"
      using Cons.prems by (simp_all add: user_inv_def)
    obtain c where c: "user_send_ready_data Not_final_parts wscb b =
        (Inr (Some (b_request_id b,
           \<lparr>m_response_parts = Not_final_parts,
            m_response_connection = response_connection_attr (should_keep_alive (b_header b))\<rparr>,
           \<lparr>m_items = Datasizeable_buf (header_text (b_header b) Add_content_length) # waiting,
            m_status_line_size = calculate_status_line_size b, m_after_write_notificator = wscb\<rparr>)), c)"
      "u_header_was_sent c" "u_response_parts c = []" "b_connection c"
      "u_should_keep_alive_when_header_was_sent c = should_keep_alive (b_header b)"
      using user_send_first [OF Cons.prems(2) tl, of Not_final_parts wscb] con by metis
    then have "user_inv [] c" by (simp add: user_inv_def)
    from user_run_sent [OF this c(2), of ops waiting] obtain calls b' where
      run: "user_run ops c = Inr (calls, b')" "user_inv (snd (user_body ops (waiting, []))) b'"
      and sent: "u_header_was_sent b'" "fst (user_body ops (waiting, [])) = waiting @ call_items calls"
        "partial_calls (should_keep_alive (b_header b)) calls"
        "u_should_keep_alive_when_header_was_sent b' = should_keep_alive (b_header b)"
      using c(5) by auto
    define call where "call = (b_request_id b,
      \<lparr>m_response_parts = Not_final_parts,
       m_response_connection = response_connection_attr (should_keep_alive (b_header b))\<rparr>,
      \<lparr>m_items = Datasizeable_buf (header_text (b_header b) Add_content_length) # waiting,
       m_status_line_size = calculate_status_line_size b, m_after_write_notificator = wscb\<rparr>)"
    have "user_sent b' (call # calls) (fst (user_body ops (waiting, [])))"
      unfolding user_sent_def using sent by (auto simp: call_def intro!: exI [of _ "b_header b"])
    moreover have "user_run (p # ops) b = Inr (call # calls, b')"
      using User_flush con c(1) run(1) by (simp add: user_flush_def call_def)
    ultimately show ?thesis using User_flush run(2) by simp
  qed
qed (simp add: user_sent_def)

subsection \<open>Chunked coding\<close>

text \<open>A number in hexadecimal digits, and the chunked coding of a text, from its definition in HTTP/1.1.\<close>

definition hex_digits_of :: "string \<Rightarrow> nat \<Rightarrow> bool" where
  "hex_digits_of s n \<longleftrightarrow> s \<noteq> [] \<and> list_all is_hexdigit s \<and> foldl (\<lambda>a c. 16 * a + unat (hex_value c)) 0 s = n"

inductive chunked_coding :: "string \<Rightarrow> string \<Rightarrow> bool" where
  last_chunk: "chunked_coding (''0'' @ header_rn @ header_rn) []"
| chunk: "d \<noteq> [] \<Longrightarrow> hex_digits_of sz (length d) \<Longrightarrow> chunked_coding s ds \<Longrightarrow>
    chunked_coding (sz @ header_rn @ d @ header_rn @ s) (d @ ds)"

fun hex_text :: "nat \<Rightarrow> string" where
  "hex_text n = (if n < 16 then [hex_digit n] else hex_text (n div 16) @ [hex_digit (n mod 16)])"

declare hex_text.simps [simp del]

lemma unat_hex_value: "k < 16 \<Longrightarrow> unat (hex_value (hex_digit k)) = k"
  by (simp add: hex_digit_value unat_of_nat)

lemma hex_text_digits: "hex_digits_of (hex_text n) n"
proof (induction n rule: hex_text.induct)
  case (1 n)
  show ?case
  proof (cases "n < 16")
    case True
    then show ?thesis
      by (subst hex_text.simps) (simp add: hex_digits_of_def hex_digit_value [THEN conjunct1] unat_hex_value)
  next
    case False
    with 1 show ?thesis
      by (subst hex_text.simps) (simp add: hex_digits_of_def hex_digit_value [THEN conjunct1] unat_hex_value)
  qed
qed

definition item_bytes :: "writable_item_t \<Rightarrow> string" where
  "item_bytes item = (case item_buf item of Some s \<Rightarrow> s | None \<Rightarrow> [])"

definition items_bytes :: "writable_item_t list \<Rightarrow> string" where
  "items_bytes items = concat (map item_bytes items)"

definition trivial_items :: "writable_item_t list \<Rightarrow> bool" where
  "trivial_items items \<longleftrightarrow> list_all (\<lambda>item. write_type item = Trivial_write_operation) items"

lemma trivial_item_buf: "write_type item = Trivial_write_operation \<Longrightarrow> item_buf item = Some (item_bytes item)"
  by (cases item) (simp_all add: write_type_def item_buf_def item_bytes_def)

lemma trivial_item_size: "write_type item = Trivial_write_operation \<Longrightarrow> item_size item = length (item_bytes item)"
  by (cases item) (simp_all add: write_type_def item_buf_def item_bytes_def item_size_def)

lemma items_bytes_simps [simp]: "items_bytes [] = []" "items_bytes (i # is) = item_bytes i @ items_bytes is"
    "items_bytes (is @ js) = items_bytes is @ items_bytes js"
    "item_bytes (Datasizeable_buf s) = s" "item_bytes (Const_buf s) = s"
  by (simp_all add: items_bytes_def item_bytes_def item_buf_def)

definition chunk_texts :: "(nat \<Rightarrow> string) \<Rightarrow> string list \<Rightarrow> string" where
  "chunk_texts fmt_X ds = concat (map (\<lambda>d. fmt_X (length d) @ header_rn @ d @ header_rn) ds)"

lemma chunk_items_bytes:
  assumes "trivial_items chunks"
  shows "\<exists>items. chunk_items fmt_X pre chunks = Some items \<and>
    items_bytes items @ (if chunks = [] then [] else header_rn) =
      (if chunks = [] then [] else pre @ chunk_texts fmt_X (map item_bytes chunks))"
  using assms
proof (induction chunks arbitrary: pre)
  case (Cons c cs)
  then obtain items where "chunk_items fmt_X header_rn cs = Some items"
    "items_bytes items @ (if cs = [] then [] else header_rn) =
      (if cs = [] then [] else header_rn @ chunk_texts fmt_X (map item_bytes cs))"
    by (auto simp: trivial_items_def)
  with Cons.prems show ?case
    by (cases "cs = []") (simp_all add: trivial_items_def trivial_item_buf chunk_texts_def)
qed simp

lemma chunked_coding_texts:
  assumes "\<And>n. hex_digits_of (fmt_X n) n" "list_all (\<lambda>d. d \<noteq> []) ds"
  shows "chunked_coding (chunk_texts fmt_X ds @ ''0'' @ header_rn @ header_rn) (concat ds)"
  using assms(2)
proof (induction ds)
  case Nil
  show ?case using chunked_coding.last_chunk by (simp add: chunk_texts_def)
next
  case (Cons d ds)
  then show ?case
    using chunked_coding.chunk [OF _ assms(1), of d] by (simp add: chunk_texts_def)
qed

lemma create_bufs_bytes:
  assumes "trivial_items (k_chunks b)"
  shows "\<exists>bufs. create_bufs fmt_X z b =
      Some ((if k_header_was_sent b then [] else [Datasizeable_buf (header_text (b_header b) Skip_content_length)]) @ bufs,
        b\<lparr>k_chunks := []\<rparr>) \<and>
    items_bytes bufs = chunk_texts fmt_X (map item_bytes (k_chunks b)) @ (if z then ''0'' @ header_rn @ header_rn else [])"
proof -
  obtain items where items: "chunk_items fmt_X [] (k_chunks b) = Some items"
    "items_bytes items @ (if k_chunks b = [] then [] else header_rn) =
      (if k_chunks b = [] then [] else [] @ chunk_texts fmt_X (map item_bytes (k_chunks b)))"
    using chunk_items_bytes [OF assms] by blast
  define appendix where
    "appendix = (if k_chunks b \<noteq> [] then header_rn else []) @ (if z then ''0'' @ header_rn @ header_rn else [])"
  have "items_bytes (items @ (if appendix \<noteq> [] then [Const_buf appendix] else [])) =
      chunk_texts fmt_X (map item_bytes (k_chunks b)) @ (if z then ''0'' @ header_rn @ header_rn else [])"
    using items(2) by (cases "k_chunks b = []") (auto simp: appendix_def chunk_texts_def)
  moreover have "create_bufs fmt_X z b =
      Some ((if k_header_was_sent b then [] else [Datasizeable_buf (header_text (b_header b) Skip_content_length)]) @
        items @ (if appendix \<noteq> [] then [Const_buf appendix] else []), b\<lparr>k_chunks := []\<rparr>)"
    using items(1) by (simp add: create_bufs_def create_header_string_eq appendix_def Let_def)
  ultimately show ?thesis by blast
qed

text \<open>The header of a chunked response announces the coding.\<close>

definition chunked_header :: "http_response_header_t \<Rightarrow> bool" where
  "chunked_header h \<longleftrightarrow>
     (\<exists>before after. try_get_field_id (http_field ''transfer_encoding'') (m_fields h) = Some (before @ ''chunked'' @ after))"

text \<open>The substring test of the builder finds the word wherever it stands.\<close>

lemma contains_iff: "contains w v \<longleftrightarrow> (\<exists>before after. v = before @ w @ after)"
proof (induction v)
  case (Cons c v)
  have "take (length w) (c # v) = w \<longleftrightarrow> (\<exists>after. c # v = w @ after)"
    by (metis append_eq_conv_conj append_take_drop_id)
  moreover have "(\<exists>before after. c # v = before @ w @ after) \<longleftrightarrow>
      (\<exists>after. c # v = w @ after) \<or> (\<exists>before after. v = before @ w @ after)"
    by (auto simp: Cons_eq_append_conv)
  ultimately show ?case using Cons by simp
qed simp

lemma chunked_header_contains:
  "chunked_header h \<longleftrightarrow>
     (\<exists>v. try_get_field_id (http_field ''transfer_encoding'') (m_fields h) = Some v \<and> contains ''chunked'' v)"
  by (auto simp: chunked_header_def contains_iff)

lemma contains_chunked: "contains ''chunked'' (v @ '',chunked'')"
  unfolding contains_iff by (intro exI [of _ "v @ '',''"] exI [of _ "[]"]) simp

lemma prepare_header_ok: "chunked_header (b_header (prepare_header_for_sending b))"
proof -
  let ?fs = "m_fields (b_header b)" and ?i = "''transfer_encoding''"
  have has: "has_field_id (http_field ?i) ?fs \<longleftrightarrow> try_get_field_id (http_field ?i) ?fs \<noteq> None"
    by (auto simp: has_field_id_def try_get_field_id_def Let_def)
  have get: "get_field_id (http_field ?i) ?fs =
      (case try_get_field_id (http_field ?i) ?fs of
         None \<Rightarrow> Inl (Field_doesnt_exist (field_to_string (http_field ?i))) | Some v \<Rightarrow> Inr v)"
    by (auto simp: get_field_id_def try_get_field_id_def Let_def)
  have self: "contains ''chunked'' ''chunked''" by simp
  show ?thesis
  proof (cases "try_get_field_id (http_field ?i) ?fs")
    case None
    then show ?thesis
      using by_id.get_add [of ?i "''chunked''" ?fs] self
      by (simp add: prepare_header_for_sending_def chunked_header_contains Let_def has del: contains.simps)
  next
    case (Some v)
    then show ?thesis
      using by_id.get_append [of ?i "'',chunked''" ?fs] contains_chunked [of v]
      by (simp add: prepare_header_for_sending_def chunked_header_contains Let_def has get del: contains.simps)
  qed
qed

datatype chunked_op =
    Chunked_header header_op
  | Append_chunk writable_item_t
  | Chunked_flush "nat option"

type_synonym chunked_state = "builder_error + response_call list \<times> chunked_builder_t"

fun chunked_step :: "(nat \<Rightarrow> string) \<Rightarrow> chunked_op \<Rightarrow> chunked_state \<Rightarrow> chunked_state" where
  "chunked_step fmt_X p (Inl e) = Inl e"
| "chunked_step fmt_X (Chunked_header q) (Inr (calls, b)) = Inr (calls, header_step q b)"
| "chunked_step fmt_X (Append_chunk item) (Inr (calls, b)) = Inr (calls, append_chunk item b)"
| "chunked_step fmt_X (Chunked_flush wscb) (Inr (calls, b)) =
     (case chunked_flush fmt_X wscb b of
        (Inl e, _) \<Rightarrow> Inl e
      | (Inr call, b) \<Rightarrow> Inr (calls @ (case call of None \<Rightarrow> [] | Some c \<Rightarrow> [c]), b))"

fun chunk_data :: "chunked_op \<Rightarrow> string list" where
  "chunk_data (Append_chunk item) = map item_bytes (body_part item)"
| "chunk_data _ = []"

fun trivial_op :: "chunked_op \<Rightarrow> bool" where
  "trivial_op (Append_chunk item) \<longleftrightarrow> write_type item = Trivial_write_operation"
| "trivial_op _ \<longleftrightarrow> True"

definition chunked_sent :: "(nat \<Rightarrow> string) \<Rightarrow> chunked_builder_t \<Rightarrow> response_call list \<Rightarrow> string list \<Rightarrow> bool" where
  "chunked_sent fmt_X b calls sent \<longleftrightarrow>
     (if k_header_was_sent b
      then \<exists>h. items_bytes (call_items calls) = header_text h Skip_content_length @ chunk_texts fmt_X sent \<and>
        chunked_header h \<and> partial_calls (should_keep_alive h) calls \<and>
        k_should_keep_alive_when_header_was_sent b = should_keep_alive h
      else calls = [] \<and> sent = [])"

definition chunked_inv :: "(nat \<Rightarrow> string) \<Rightarrow> string list \<Rightarrow> chunked_state \<Rightarrow> bool" where
  "chunked_inv fmt_X ds st \<longleftrightarrow>
     (\<exists>calls b sent. st = Inr (calls, b) \<and> b_connection b \<and> trivial_items (k_chunks b) \<and>
        ds = sent @ map item_bytes (k_chunks b) \<and> chunked_sent fmt_X b calls sent)"

text \<open>Sending the waiting chunks, the header before them the first time.\<close>

lemma chunked_send_first:
  assumes "\<not> k_header_was_sent b" "trivial_items (k_chunks b)"
  shows "\<exists>h wg b'. chunked_send_ready_data fmt_X attr wscb b =
      (Inr (Some (b_request_id b,
         \<lparr>m_response_parts = attr, m_response_connection = response_connection_attr (should_keep_alive h)\<rparr>, wg)), b') \<and>
      items_bytes (m_items wg) = header_text h Skip_content_length @
        chunk_texts fmt_X (map item_bytes (k_chunks b)) @ (if attr = Final_parts then ''0'' @ header_rn @ header_rn else []) \<and>
      chunked_header h \<and> k_header_was_sent b' \<and> k_chunks b' = [] \<and> b_connection b' = b_connection b \<and>
      k_should_keep_alive_when_header_was_sent b' = should_keep_alive h"
proof -
  define c where "c = prepare_header_for_sending b"
  have c: "\<not> k_header_was_sent c" "k_chunks c = k_chunks b" "b_request_id c = b_request_id b"
      "b_connection c = b_connection b" "should_keep_alive (b_header c) = should_keep_alive (b_header b)"
      "k_should_keep_alive_when_header_was_sent c = should_keep_alive (b_header b)"
      "calculate_status_line_size c = calculate_status_line_size b"
    using assms(1) by (auto simp: c_def prepare_header_for_sending_def Let_def should_keep_alive_def
        calculate_status_line_size_def split: sum.splits)
  have "chunked_header (b_header c)" unfolding c_def by (rule prepare_header_ok)
  moreover obtain bufs where bufs: "create_bufs fmt_X (Final_parts = attr) c =
      Some (Datasizeable_buf (header_text (b_header c) Skip_content_length) # bufs, c\<lparr>k_chunks := []\<rparr>)"
    "items_bytes bufs = chunk_texts fmt_X (map item_bytes (k_chunks b)) @
      (if Final_parts = attr then ''0'' @ header_rn @ header_rn else [])"
    using create_bufs_bytes [of c fmt_X "Final_parts = attr"] c(1,2) assms(2) by auto
  moreover have "calculate_status_line_size b \<le> length (header_text (b_header c) Skip_content_length)"
    using status_line_fits [of c Skip_content_length] c(7) by simp
  ultimately show ?thesis
    using assms(1) c
    by (auto simp: chunked_send_ready_data_def Let_def c_def [symmetric] make_group_header intro!: exI [of _ "b_header c"])
qed

lemma chunked_send_next:
  assumes "k_header_was_sent b" "trivial_items (k_chunks b)"
  shows "\<exists>call b'. chunked_send_ready_data fmt_X attr wscb b = (Inr call, b') \<and>
      (case call of
         None \<Rightarrow> attr \<noteq> Final_parts \<and> k_chunks b = []
       | Some (rid, flags, wg) \<Rightarrow>
           flags = \<lparr>m_response_parts = attr,
             m_response_connection = response_connection_attr (k_should_keep_alive_when_header_was_sent b)\<rparr> \<and>
           items_bytes (m_items wg) = chunk_texts fmt_X (map item_bytes (k_chunks b)) @
             (if attr = Final_parts then ''0'' @ header_rn @ header_rn else [])) \<and>
      k_header_was_sent b' \<and> k_chunks b' = [] \<and> b_connection b' = b_connection b \<and>
      k_should_keep_alive_when_header_was_sent b' = k_should_keep_alive_when_header_was_sent b"
proof -
  obtain bufs where bufs: "create_bufs fmt_X (Final_parts = attr) b = Some (bufs, b\<lparr>k_chunks := []\<rparr>)"
    "items_bytes bufs = chunk_texts fmt_X (map item_bytes (k_chunks b)) @
      (if Final_parts = attr then ''0'' @ header_rn @ header_rn else [])"
    using create_bufs_bytes [of b fmt_X "Final_parts = attr"] assms by auto
  have "attr \<noteq> Final_parts \<and> k_chunks b = []" if "bufs = []"
    using bufs(2) that by (cases "k_chunks b") (auto simp: chunk_texts_def split: if_splits)
  with bufs assms(1) show ?thesis
    by (auto simp: chunked_send_ready_data_def Let_def make_group_plain)
qed

lemma chunked_inv_step:
  assumes "chunked_inv fmt_X ds st" "trivial_op p"
  shows "chunked_inv fmt_X (ds @ chunk_data p) (chunked_step fmt_X p st)"
proof -
  obtain calls b sent where st: "st = Inr (calls, b)" "b_connection b" "trivial_items (k_chunks b)"
      "ds = sent @ map item_bytes (k_chunks b)" "chunked_sent fmt_X b calls sent"
    using assms(1) by (auto simp: chunked_inv_def)
  show ?thesis
  proof (cases p)
    case (Chunked_header q)
    with st show ?thesis by (auto simp: chunked_inv_def chunked_sent_def)
  next
    case (Append_chunk item)
    have "chunked_sent fmt_X (append_chunk item b) calls sent"
      using st(5) by (simp add: chunked_sent_def append_chunk_def)
    with Append_chunk st assms(2) show ?thesis
      by (auto simp: chunked_inv_def append_chunk_def body_part_def trivial_items_def)
  next
    case (Chunked_flush wscb)
    have texts: "chunk_texts fmt_X (sent @ map item_bytes (k_chunks b)) =
        chunk_texts fmt_X sent @ chunk_texts fmt_X (map item_bytes (k_chunks b))"
      by (simp add: chunk_texts_def)
    show ?thesis
    proof (cases "k_header_was_sent b")
      case True
      then obtain call b' where "chunked_send_ready_data fmt_X Not_final_parts wscb b = (Inr call, b')"
        "case call of
           None \<Rightarrow> Not_final_parts \<noteq> Final_parts \<and> k_chunks b = []
         | Some (rid, flags, wg) \<Rightarrow>
             flags = \<lparr>m_response_parts = Not_final_parts,
               m_response_connection = response_connection_attr (k_should_keep_alive_when_header_was_sent b)\<rparr> \<and>
             items_bytes (m_items wg) = chunk_texts fmt_X (map item_bytes (k_chunks b)) @
               (if Not_final_parts = Final_parts then ''0'' @ header_rn @ header_rn else [])"
        "k_header_was_sent b'" "k_chunks b' = []" "b_connection b' = b_connection b"
        "k_should_keep_alive_when_header_was_sent b' = k_should_keep_alive_when_header_was_sent b"
        using chunked_send_next [OF True st(3), of fmt_X Not_final_parts wscb] by metis
      with True st Chunked_flush texts show ?thesis
        by (auto simp: chunked_inv_def chunked_sent_def chunked_flush_def trivial_items_def split: option.splits)
    next
      case False
      then have "calls = []" "sent = []" using st(5) by (simp_all add: chunked_sent_def)
      moreover obtain h wg b' where send: "chunked_send_ready_data fmt_X Not_final_parts wscb b =
          (Inr (Some (b_request_id b, \<lparr>m_response_parts = Not_final_parts,
             m_response_connection = response_connection_attr (should_keep_alive h)\<rparr>, wg)), b')"
        "items_bytes (m_items wg) = header_text h Skip_content_length @ chunk_texts fmt_X (map item_bytes (k_chunks b))"
        "chunked_header h" "k_header_was_sent b'" "k_chunks b' = []" "b_connection b'"
        "k_should_keep_alive_when_header_was_sent b' = should_keep_alive h"
        using chunked_send_first [OF False st(3), of fmt_X Not_final_parts wscb] st(2) by auto
      define call where "call = (b_request_id b, \<lparr>m_response_parts = Not_final_parts,
             m_response_connection = response_connection_attr (should_keep_alive h)\<rparr>, wg)"
      have "chunked_sent fmt_X b' [call] (map item_bytes (k_chunks b))"
        unfolding chunked_sent_def using send by (auto simp: call_def intro!: exI [of _ h])
      ultimately show ?thesis
        using st(1,2,4) Chunked_flush send by (simp add: chunked_inv_def chunked_flush_def trivial_items_def call_def)
    qed
  qed
qed

lemma chunked_inv_run:
  assumes "chunked_inv fmt_X ds st" "list_all trivial_op ops"
  shows "chunked_inv fmt_X (ds @ concat (map chunk_data ops)) (fold (chunked_step fmt_X) ops st)"
  using assms
proof (induction ops arbitrary: ds st)
  case (Cons p ops)
  from chunked_inv_step [OF Cons.prems(1), of p] Cons.IH [of "ds @ chunk_data p"] Cons.prems(2) show ?case by simp
qed simp

lemma chunked_inv_init: "chunked_inv fmt_X [] (Inr ([], chunked_builder sl rid ka))"
  by (simp add: chunked_inv_def chunked_sent_def trivial_items_def chunked_builder_def base_response_builder_def
      base_response_builder_t.defs chunked_builder_t.defs)

lemma chunk_data_nonempty: "list_all trivial_op ops \<Longrightarrow> list_all (\<lambda>d. d \<noteq> []) (concat (map chunk_data ops))"
proof (induction ops)
  case (Cons p ops)
  then show ?case by (cases p) (auto simp: body_part_def trivial_item_size)
qed simp

subsection \<open>Properties\<close>

text \<open>
  The header text. It is always produced; it starts with the status line, whose length is the one
  the builders declare to the write group, and a line end; and it is never longer than the size
  reserved for it.
\<close>

theorem header_string_shape:
  "\<exists>hdr rest. create_header_string (b_header b) p = Some hdr \<and>
     hdr = status_line_text (b_header b) @ header_rn @ rest \<and>
     length (status_line_text (b_header b)) = calculate_status_line_size b \<and>
     length hdr \<le> calculate_approx_buffer_size_for_header (b_header b)"
  using length_header_text [of "b_header b" p]
  by (simp add: create_header_string_eq calculate_status_line_size_def length_status_line_text)
    (simp add: header_text_def)

text \<open>
  C30: a response of the library-controlled builder. After any calls of the other operations, done()
  hands over exactly one final write group: the header text and the body parts given since the last
  set_body, without empty ones; the content length in the header text is the total size of the body
  parts (as a 64-bit number), the status line size is accepted, and a second done() is refused.
\<close>

theorem controlled_response:
  "let b = fold controlled_step ops (controlled_builder sl rid ka);
       body = fold body_step ops [];
       h = Http_Headers.set_content_length (word_of_nat (sum_list (map item_size body))) (b_header b)
   in \<exists>hdr b'. create_header_string h Add_content_length = Some hdr \<and>
        controlled_done wscb b =
          (Inr (rid,
             \<lparr>m_response_parts = Final_parts,
              m_response_connection = response_connection_attr (should_keep_alive (b_header b))\<rparr>,
             \<lparr>m_items = Datasizeable_buf hdr # body, m_status_line_size = calculate_status_line_size b,
              m_after_write_notificator = wscb\<rparr>), b') \<and>
        controlled_done wscb' b' = (Inl Done_cannot_be_called_twice, b')"
proof -
  define b where "b = fold controlled_step ops (controlled_builder sl rid ka)"
  define body where "body = fold body_step ops []"
  define h where "h = Http_Headers.set_content_length (word_of_nat (sum_list (map item_size body))) (b_header b)"
  have inv: "controlled_inv rid body b"
    unfolding b_def body_def by (rule controlled_inv_run [OF controlled_inv_init])
  then have "b_connection b" "b_request_id b = rid" "tl (c_response_parts b) = body"
      "c_body_size b = word_of_nat (sum_list (map item_size body))"
    by (simp_all add: controlled_inv_def)
  with controlled_done_eq [of b wscb] show ?thesis
    unfolding Let_def b_def [symmetric] body_def [symmetric] h_def [symmetric]
    by (auto simp: h_def create_header_string_eq controlled_done_def [of wscb'])
qed

text \<open>
  A response of the user-controlled builder. After any calls that set and append body parts and
  flush, no step fails; done() succeeds, and a second one is refused. All groups together carry the
  header text once, in front, and then the body parts in order, where set_body drops what was not
  flushed; all groups have the keep-alive attribute of the header that was sent, and only the last
  one is final.
\<close>

theorem user_response:
  "\<exists>calls b call b' h hdr.
     user_run ops (user_builder sl rid ka) = Inr (calls, b) \<and>
     user_done wscb b = (Inr (Some call), b') \<and>
     user_done wscb' b' = (Inl Done_cannot_be_called_twice, b') \<and>
     create_header_string h Add_content_length = Some hdr \<and>
     call_items (calls @ [call]) =
       Datasizeable_buf hdr # fst (user_body ops ([], [])) @ snd (user_body ops ([], [])) \<and>
     partial_calls (should_keep_alive h) calls \<and>
     fst (snd call) = \<lparr>m_response_parts = Final_parts,
       m_response_connection = response_connection_attr (should_keep_alive h)\<rparr>"
proof -
  have "\<not> u_header_was_sent (user_builder sl rid ka)"
    by (simp add: user_builder_def base_response_builder_def base_response_builder_t.defs user_builder_t.defs)
  from user_run_unsent [OF user_inv_init this, of ops] obtain calls b where
    run: "user_run ops (user_builder sl rid ka) = Inr (calls, b)"
    and inv: "user_inv (snd (user_body ops ([], []))) b"
    and hdr: "user_sent b calls (fst (user_body ops ([], [])))"
    by blast
  let ?b = "b\<lparr>b_connection := False\<rparr>"
  have done_eq: "user_done wscb b = user_send_ready_data Final_parts wscb ?b"
    using inv by (simp add: user_done_def user_inv_def)
  have twice: "user_done wscb' b' = (Inl Done_cannot_be_called_twice, b')" if "\<not> b_connection b'" for b'
    using that by (simp add: user_done_def)
  show ?thesis
  proof (cases "u_header_was_sent b")
    case True
    with hdr inv show ?thesis
      by (auto simp: run done_eq user_send_next twice create_header_string_eq user_inv_def user_sent_def)
  next
    case False
    then have "\<not> u_header_was_sent ?b" "tl (u_response_parts ?b) = snd (user_body ops ([], []))"
      using inv by (simp_all add: user_inv_def)
    from user_send_first [OF this, of Final_parts wscb] obtain b' where
      "user_send_ready_data Final_parts wscb ?b =
        (Inr (Some (b_request_id ?b,
           \<lparr>m_response_parts = Final_parts,
            m_response_connection = response_connection_attr (should_keep_alive (b_header ?b))\<rparr>,
           \<lparr>m_items = Datasizeable_buf (header_text (b_header ?b) Add_content_length) # snd (user_body ops ([], [])),
            m_status_line_size = calculate_status_line_size ?b, m_after_write_notificator = wscb\<rparr>)), b')"
      "\<not> b_connection b'"
      by auto
    with False hdr show ?thesis
      by (auto simp: run done_eq twice create_header_string_eq user_sent_def intro!: exI [of _ "b_header b"])
  qed
qed

text \<open>
  C31: a chunked response. If the chunks are in memory, then after any calls that append chunks and flush
  no step fails, done() succeeds and a second one is refused. The bytes of all groups
  together are a header that announces the chunked coding, followed by the chunked coding of the data of the
  chunks in order; the groups have the keep-alive attribute of that header, and only the last one is
  final. The assumption on \<open>fmt_X\<close> is that the format \<^verbatim>\<open>{:X}\<close> gives a number in hexadecimal digits.
\<close>

theorem chunked_response:
  assumes hex: "\<And>n. hex_digits_of (fmt_X n) n" and triv: "list_all trivial_op ops"
  shows "\<exists>calls b call b' h hdr stream.
     fold (chunked_step fmt_X) ops (Inr ([], chunked_builder sl rid ka)) = Inr (calls, b) \<and>
     chunked_done fmt_X wscb b = (Inr (Some call), b') \<and>
     chunked_done fmt_X wscb' b' = (Inl Done_cannot_be_called_twice, b') \<and>
     create_header_string h Skip_content_length = Some hdr \<and> chunked_header h \<and>
     items_bytes (call_items (calls @ [call])) = hdr @ stream \<and>
     chunked_coding stream (concat (concat (map chunk_data ops))) \<and>
     partial_calls (should_keep_alive h) calls \<and>
     fst (snd call) = \<lparr>m_response_parts = Final_parts,
       m_response_connection = response_connection_attr (should_keep_alive h)\<rparr>"
proof -
  let ?ds = "concat (map chunk_data ops)" and ?fin = "''0'' @ header_rn @ header_rn"
  obtain calls b sent where
    run: "fold (chunked_step fmt_X) ops (Inr ([], chunked_builder sl rid ka)) = Inr (calls, b)"
    and b: "b_connection b" "trivial_items (k_chunks b)"
    and ds: "?ds = sent @ map item_bytes (k_chunks b)" and sent: "chunked_sent fmt_X b calls sent"
    using chunked_inv_run [OF chunked_inv_init triv, of fmt_X sl rid ka] by (auto simp: chunked_inv_def)
  let ?b = "b\<lparr>b_connection := False\<rparr>"
  have texts: "chunk_texts fmt_X sent @ chunk_texts fmt_X (map item_bytes (k_chunks b)) @ ?fin = chunk_texts fmt_X ?ds @ ?fin"
    by (simp add: ds chunk_texts_def)
  have coding: "chunked_coding (chunk_texts fmt_X ?ds @ ?fin) (concat ?ds)"
    using hex chunk_data_nonempty [OF triv] by (rule chunked_coding_texts)
  have done_eq: "chunked_done fmt_X wscb b = chunked_send_ready_data fmt_X Final_parts wscb ?b"
    using b(1) by (simp add: chunked_done_def)
  have twice: "chunked_done fmt_X wscb' b' = (Inl Done_cannot_be_called_twice, b')" if "\<not> b_connection b'" for b'
    using that by (simp add: chunked_done_def)
  have "\<exists>call b' h. chunked_send_ready_data fmt_X Final_parts wscb ?b = (Inr (Some call), b') \<and> \<not> b_connection b' \<and>
      chunked_header h \<and> items_bytes (call_items (calls @ [call])) = header_text h Skip_content_length @ chunk_texts fmt_X ?ds @ ?fin \<and>
      partial_calls (should_keep_alive h) calls \<and>
      fst (snd call) = \<lparr>m_response_parts = Final_parts, m_response_connection = response_connection_attr (should_keep_alive h)\<rparr>"
  proof (cases "k_header_was_sent b")
    case True
    then obtain h where "items_bytes (call_items calls) = header_text h Skip_content_length @ chunk_texts fmt_X sent"
        "chunked_header h" "partial_calls (should_keep_alive h) calls"
        "k_should_keep_alive_when_header_was_sent b = should_keep_alive h"
      using sent by (auto simp: chunked_sent_def)
    with chunked_send_next [of ?b fmt_X Final_parts wscb] True b(2) texts show ?thesis
      by (fastforce split: option.splits)
  next
    case False
    then have "calls = []" "sent = []" using sent by (simp_all add: chunked_sent_def)
    moreover obtain h wg b' where "chunked_send_ready_data fmt_X Final_parts wscb ?b =
        (Inr (Some (b_request_id ?b, \<lparr>m_response_parts = Final_parts,
           m_response_connection = response_connection_attr (should_keep_alive h)\<rparr>, wg)), b')"
      "items_bytes (m_items wg) = header_text h Skip_content_length @
         chunk_texts fmt_X (map item_bytes (k_chunks b)) @ ?fin"
      "chunked_header h" "\<not> b_connection b'"
      using chunked_send_first [of ?b fmt_X Final_parts wscb] False b(2) by auto
    ultimately show ?thesis
      using ds by (intro exI [of _ "(b_request_id ?b, \<lparr>m_response_parts = Final_parts,
           m_response_connection = response_connection_attr (should_keep_alive h)\<rparr>, wg)"] exI [of _ b'] exI [of _ h])
        simp
  qed
  then obtain call b' h where "chunked_send_ready_data fmt_X Final_parts wscb ?b = (Inr (Some call), b')"
      "\<not> b_connection b'" "chunked_header h"
      "items_bytes (call_items (calls @ [call])) = header_text h Skip_content_length @ chunk_texts fmt_X ?ds @ ?fin"
      "partial_calls (should_keep_alive h) calls"
      "fst (snd call) = \<lparr>m_response_parts = Final_parts, m_response_connection = response_connection_attr (should_keep_alive h)\<rparr>"
    by blast
  with run coding done_eq twice create_header_string_eq [of h Skip_content_length] show ?thesis by metis
qed

theorem chunked_response_witness:
  "\<exists>calls b call b' h hdr stream.
     fold (chunked_step hex_text) [Append_chunk (Const_buf ''abc''), Chunked_flush None, Append_chunk (Const_buf ''d'')]
       (Inr ([], chunked_builder http_status_line_default 7 True)) = Inr (calls, b) \<and>
     chunked_done hex_text None b = (Inr (Some call), b') \<and>
     chunked_done hex_text None b' = (Inl Done_cannot_be_called_twice, b') \<and>
     create_header_string h Skip_content_length = Some hdr \<and> chunked_header h \<and>
     items_bytes (call_items (calls @ [call])) = hdr @ stream \<and>
     chunked_coding stream ''abcd'' \<and>
     partial_calls (should_keep_alive h) calls \<and>
     fst (snd call) = \<lparr>m_response_parts = Final_parts,
       m_response_connection = response_connection_attr (should_keep_alive h)\<rparr>"
proof -
  let ?ops = "[Append_chunk (Const_buf ''abc''), Chunked_flush None, Append_chunk (Const_buf ''d'')]"
  have "list_all trivial_op ?ops" by (simp add: write_type_def)
  moreover have "concat (concat (map chunk_data ?ops)) = ''abcd''" by (simp add: body_part_def item_size_def)
  ultimately show ?thesis
    using chunked_response [of hex_text ?ops http_status_line_default 7 True None None, OF hex_text_digits] by metis
qed

text \<open>
  Keep-alive cannot be restored. connection_keep_alive() reads the attribute and drops it: the
  builder stays as it is, so after connection_close() the response closes the connection.
\<close>

theorem connection_keep_alive_ineffective:
  "connection_keep_alive b = b \<and> \<not> should_keep_alive (b_header (connection_keep_alive (connection_close b)))"
  by (simp add: connection_keep_alive_def connection_close_def set_should_keep_alive_def set_connection_def
      should_keep_alive_def)

text \<open>A file transfer as a chunk: its size is asked with a call that is only defined for data in memory.\<close>

lemma file_chunk_undefined:
  assumes "b_connection b" "m_size sf \<noteq> 0" "k_chunks b = []"
  shows "fst (chunked_flush fmt_X wscb (append_chunk (Sendfile_write_operation sf) b)) = Inl Undefined_behaviour"
proof -
  have "unat (m_size sf) \<noteq> 0" using assms(2) by (simp add: unat_eq_0)
  moreover have "k_chunks (prepare_header_for_sending c) = k_chunks c" for c
    by (simp add: prepare_header_for_sending_def Let_def split: sum.splits)
  ultimately show ?thesis
    using assms by (auto simp: chunked_flush_def append_chunk_def chunked_send_ready_data_def create_bufs_def
        item_size_def item_buf_def create_header_string_eq Let_def)
qed

end
