(* ===== verification/Game_Server.thy ===== *)
theory Game_Server
  imports Response_Builder
begin

text \<open>
  The application: the card game server of \<^verbatim>\<open>web/restinio/sample/express_router/main.cpp\<close> with its
  settings storage (\<^verbatim>\<open>RPIdata.hpp\<close>), the link to the PSoC board (\<^verbatim>\<open>PSoCcom.hpp\<close>, \<^verbatim>\<open>Serial.hpp\<close>) and
  the data types \<^verbatim>\<open>selected_t\<close>, \<^verbatim>\<open>game_t\<close> and \<^verbatim>\<open>players_t\<close>.

  The state holds the selection shared by the handlers, the files of the working directory and
  the bytes written to the serial port. JSON conversion and the serial port are the
  libraries' part: their functions are fields of the record \<open>app_env\<close>, next to the text of the current
  date. A handler returns the call of the response builder to the connection, an exception that
  leaves the handler, or the mark that the C library functions it uses were called outside their
  specification (\<^verbatim>\<open>strcpy\<close> into an array that is too small, a conversion without argument in a
  format text). Messages on the console are left out.
\<close>

subsection \<open>Data and state\<close>

record players_t = p_players :: string
record game_t = g_game :: string
record selected_t =
  m_game :: game_t
  m_players :: players_t

datatype app_exception = Json_exception | Serial_exception
datatype app_error = App_exception app_exception | App_undefined | App_builder builder_error

record app_env =
  players_from_json :: "string \<Rightarrow> players_t option"
  game_from_json :: "string \<Rightarrow> game_t option"
  selected_from_json :: "string \<Rightarrow> selected_t option"
  selected_to_json :: "selected_t \<Rightarrow> string"
  serial_write_some :: "string \<Rightarrow> nat option"
  current_date :: string

record app_state =
  a_selected :: selected_t
  a_files :: "string \<rightharpoonup> string"
  a_settings_writable :: bool
  a_uart :: "string list"

type_synonym 'a app_result = "(app_error + 'a) \<times> app_state"

definition selected_default :: selected_t where
  "selected_default = \<lparr>m_game = \<lparr>g_game = []\<rparr>, m_players = \<lparr>p_players = []\<rparr>\<rparr>"

subsection \<open>Settings\<close>

text \<open>Inserting the buffer of a stream that could not be opened inserts nothing.\<close>

definition read_file :: "string \<Rightarrow> app_state \<Rightarrow> string" where
  "read_file name st = (case a_files st name of Some text \<Rightarrow> text | None \<Rightarrow> [])"

definition retrieveSelected :: "app_env \<Rightarrow> app_state \<Rightarrow> unit app_result" where
  "retrieveSelected env st =
     (let fileBuffer = read_file ''settings.txt'' st
      in case selected_from_json env fileBuffer of
           None \<Rightarrow> (Inl (App_exception Json_exception), st)
         | Some s \<Rightarrow> (Inr (), st\<lparr>a_selected := s\<rparr>))"

text \<open>A file that cannot be opened for writing stays as it is, without an exception.\<close>

definition saveSelected :: "app_env \<Rightarrow> app_state \<Rightarrow> app_state" where
  "saveSelected env st =
     (if a_settings_writable st
      then st\<lparr>a_files := (a_files st)(''settings.txt'' \<mapsto> selected_to_json env (a_selected st))\<rparr> else st)"

subsection \<open>The link to the board\<close>

definition writeSome :: "app_env \<Rightarrow> string \<Rightarrow> app_state \<Rightarrow> nat app_result" where
  "writeSome env buf st =
     (case serial_write_some env buf of
        None \<Rightarrow> (Inl (App_exception Serial_exception), st)
      | Some n \<Rightarrow> (Inr n, st\<lparr>a_uart := a_uart st @ [take n buf]\<rparr>))"

text \<open>
  Reading a text from the port, with the results of the reads to come: a character, or none.
  Without further results the call blocks, which has no result. \<open>buf0\<close> is the first cell of the
  buffer; the index \<^verbatim>\<open>n\<close> of the source stays 0.
\<close>

fun readCString_loop :: "nat \<Rightarrow> nat \<Rightarrow> char \<Rightarrow> char option list \<Rightarrow> (nat \<times> char \<times> char option list) option" where
  "readCString_loop n maxSize buf0 [] = None"
| "readCString_loop n maxSize buf0 (None # reads) = Some (0, buf0, reads)"
| "readCString_loop n maxSize buf0 (Some c # reads) =
     (if c \<noteq> CHR 0x00 \<and> n < maxSize then readCString_loop n maxSize c reads else Some (1, c, reads))"

definition readCString :: "nat \<Rightarrow> char \<Rightarrow> char option list \<Rightarrow> (nat \<times> char \<times> char option list) option" where
  "readCString maxSize buf0 reads =
     (let n = 0
      in case readCString_loop n maxSize buf0 reads of
           None \<Rightarrow> None
         | Some (r, buf0, reads) \<Rightarrow>
             (if n = maxSize then None else Some (if r = 1 then n else r, buf0, reads)))"

definition c_str :: "string \<Rightarrow> string" where
  "c_str s = takeWhile (\<lambda>c. c \<noteq> CHR 0x00) s"

text \<open>\<^verbatim>\<open>strcpy\<close> into an array of \<open>n\<close> characters: the text and its terminating zero have to fit.\<close>

definition strcpy :: "nat \<Rightarrow> string \<Rightarrow> string option" where
  "strcpy n src = (if length src < n then Some src else None)"

text \<open>\<^verbatim>\<open>sprintf\<close> with a format text and no arguments.\<close>

fun format_text :: "string \<Rightarrow> string option" where
  "format_text [] = Some []"
| "format_text (c # cs) =
     (if c = CHR ''%'' then
        (case cs of
           d # ds \<Rightarrow> (if d = CHR ''%'' then map_option (\<lambda>r. CHR ''%'' # r) (format_text ds) else None)
         | [] \<Rightarrow> None)
      else map_option (\<lambda>r. c # r) (format_text cs))"

definition sprintf :: "nat \<Rightarrow> string \<Rightarrow> string option" where
  "sprintf n format = (case format_text format of Some text \<Rightarrow> strcpy n text | None \<Rightarrow> None)"

definition spil_code :: "string \<Rightarrow> string" where
  "spil_code spil =
     (let spilTemp = [];
          spilTemp = (if spil = ''Fisk'' then ''1'' else spilTemp);
          spilTemp = (if spil = ''500'' then ''2'' else spilTemp);
          spilTemp = (if spil = [CHR ''R'', CHR 0xC3, CHR 0xB8, CHR ''v'', CHR ''h'', CHR ''u'', CHR ''l'']
                      then ''3'' else spilTemp)
      in spilTemp)"

definition startSpil :: "app_env \<Rightarrow> string \<Rightarrow> string \<Rightarrow> app_state \<Rightarrow> nat app_result" where
  "startSpil env spil antalSpillere st =
     (let message_temp = ''R'' @ spil_code spil @ antalSpillere @ ''C''
      in case strcpy 5 (c_str message_temp) of
           None \<Rightarrow> (Inl App_undefined, st)
         | Some message \<Rightarrow>
             (case sprintf 5 message of
                None \<Rightarrow> (Inl App_undefined, st)
              | Some buf \<Rightarrow> writeSome env buf st))"

subsection \<open>Requests and responses\<close>

record request_t =
  r_request_id :: u32
  r_keep_alive :: bool
  r_body :: string

definition create_response :: "http_status_line_t \<Rightarrow> request_t \<Rightarrow> controlled_builder_t" where
  "create_response status_line req = controlled_builder status_line (r_request_id req) (r_keep_alive req)"

definition init_resp :: "app_env \<Rightarrow> controlled_builder_t \<Rightarrow> controlled_builder_t" where
  "init_resp env resp =
     (let resp = append_header_name ''Server'' ''RESTinio sample server /v.0.6'' resp;
          resp = append_header_date_field (current_date env) resp;
          resp = append_header_name ''Content-Type'' ''text/html; charset=utf-8'' resp
      in append_header_id (http_field ''access_control_allow_origin'') ''*'' resp)"

definition mark_as_bad_request :: "controlled_builder_t \<Rightarrow> controlled_builder_t" where
  "mark_as_bad_request resp = resp\<lparr>b_header := set_status_line (status ''status_bad_request'') (b_header resp)\<rparr>"

definition done_resp :: "controlled_builder_t \<Rightarrow> app_state \<Rightarrow> response_call app_result" where
  "done_resp resp st =
     (case fst (controlled_done None resp) of
        Inl e \<Rightarrow> (Inl (App_builder e), st)
      | Inr call \<Rightarrow> (Inr call, st))"

definition set_text_body :: "string \<Rightarrow> controlled_builder_t \<Rightarrow> controlled_builder_t" where
  "set_text_body text resp = controlled_set_body (Datasizeable_buf text) resp"

subsection \<open>The handlers\<close>

definition on_players_post :: "app_env \<Rightarrow> request_t \<Rightarrow> app_state \<Rightarrow> response_call app_result" where
  "on_players_post env req st =
     (let resp = init_resp env (create_response (status ''status_ok'') req)
      in case players_from_json env (r_body req) of
           None \<Rightarrow> (Inl (App_exception Json_exception), st)
         | Some p \<Rightarrow>
             (let st = st\<lparr>a_selected := (a_selected st)\<lparr>m_players := \<lparr>p_players = p_players p\<rparr>\<rparr>\<rparr>;
                  st = saveSelected env st
              in done_resp resp st))"

definition on_home :: "app_env \<Rightarrow> request_t \<Rightarrow> app_state \<Rightarrow> response_call app_result" where
  "on_home env req st =
     (let resp = init_resp env (create_response (status ''status_ok'') req);
          resp = set_text_body (read_file ''home.html'' st) resp
      in case retrieveSelected env st of
           (Inl (App_exception _), st) \<Rightarrow> done_resp (mark_as_bad_request resp) st
         | (Inl e, st) \<Rightarrow> (Inl e, st)
         | (Inr _, st) \<Rightarrow> done_resp (set_text_body (selected_to_json env (a_selected st)) resp) st)"

definition on_start_game :: "app_env \<Rightarrow> request_t \<Rightarrow> app_state \<Rightarrow> response_call app_result" where
  "on_start_game env req st =
     (let resp = init_resp env (create_response (status ''status_ok'') req);
          (r, st) = (case retrieveSelected env st of
                       (Inl e, st) \<Rightarrow> (Inl e, st)
                     | (Inr _, st) \<Rightarrow> startSpil env (g_game (m_game (a_selected st))) (p_players (m_players (a_selected st))) st)
      in case r of
           Inl (App_exception _) \<Rightarrow> done_resp (mark_as_bad_request resp) st
         | Inl e \<Rightarrow> (Inl e, st)
         | Inr _ \<Rightarrow> done_resp (set_text_body (read_file ''startGame.html'' st) resp) st)"

definition on_game_post :: "app_env \<Rightarrow> request_t \<Rightarrow> app_state \<Rightarrow> response_call app_result" where
  "on_game_post env req st =
     (let resp = init_resp env (create_response (status ''status_ok'') req)
      in case game_from_json env (r_body req) of
           None \<Rightarrow> (Inl (App_exception Json_exception), st)
         | Some p \<Rightarrow>
             (let st = st\<lparr>a_selected := (a_selected st)\<lparr>m_game := \<lparr>g_game = g_game p\<rparr>\<rparr>\<rparr>;
                  st = saveSelected env st
              in done_resp resp st))"

definition on_set_players :: "app_env \<Rightarrow> request_t \<Rightarrow> app_state \<Rightarrow> response_call app_result" where
  "on_set_players env req st =
     (let resp = init_resp env (create_response (status ''status_ok'') req)
      in done_resp (set_text_body (read_file ''setPlayers.html'' st) resp) st)"

definition on_set_game :: "app_env \<Rightarrow> request_t \<Rightarrow> app_state \<Rightarrow> response_call app_result" where
  "on_set_game env req st =
     (let resp = init_resp env (create_response (status ''status_ok'') req)
      in done_resp (set_text_body (read_file ''setGame.html'' st) resp) st)"

definition on_settings :: "app_env \<Rightarrow> request_t \<Rightarrow> app_state \<Rightarrow> response_call app_result" where
  "on_settings env req st =
     (let resp = init_resp env (create_response (status ''status_ok'') req)
      in done_resp (set_text_body (read_file ''settings.txt'' st) resp) st)"

definition options :: "app_env \<Rightarrow> request_t \<Rightarrow> app_state \<Rightarrow> response_call app_result" where
  "options env req st =
     (let resp = init_resp env (create_response (status ''status_ok'') req);
          resp = append_header_id (http_field ''access_control_allow_methods'') ''OPTIONS, GET, POST, PATCH, DELETE'' resp;
          resp = append_header_id (http_field ''access_control_allow_headers'') ''content-type'' resp;
          resp = append_header_id (http_field ''access_control_max_age'') ''86400'' resp
      in done_resp resp st)"

definition method_not_allowed :: "app_env \<Rightarrow> request_t \<Rightarrow> app_state \<Rightarrow> response_call app_result" where
  "method_not_allowed env req st =
     done_resp (connection_close (create_response (status ''status_method_not_allowed'') req)) st"

subsection \<open>The routes\<close>

datatype route_method = Method string | None_of_methods "string list"

type_synonym app_handler = "app_env \<Rightarrow> request_t \<Rightarrow> app_state \<Rightarrow> response_call app_result"

definition server_handler :: "(route_method \<times> string \<times> app_handler) list" where
  "server_handler =
     [(Method ''http_method_get'', ''/'', on_home),
      (Method ''http_method_get'', ''/game'', on_set_game),
      (Method ''http_method_get'', ''/players'', on_set_players),
      (Method ''http_method_get'', ''/startgame'', on_start_game),
      (Method ''http_method_get'', ''/settings'', on_settings),
      (Method ''http_method_post'', ''/players'', on_players_post),
      (Method ''http_method_post'', ''/game'', on_game_post),
      (Method ''http_method_options'', ''/'', options),
      (None_of_methods [''http_method_get'', ''http_method_post''], ''/api'', method_not_allowed),
      (None_of_methods [''http_method_get''], ''/author/:author'', method_not_allowed)]"

subsection \<open>Responses\<close>

definition reply :: "controlled_builder_t \<Rightarrow> response_call" where
  "reply resp =
     (b_request_id resp,
      \<lparr>m_response_parts = Final_parts,
       m_response_connection = response_connection_attr (should_keep_alive (b_header resp))\<rparr>,
      \<lparr>m_items = Datasizeable_buf (header_text (Http_Headers.set_content_length (c_body_size resp) (b_header resp))
                   Add_content_length) # tl (c_response_parts resp),
       m_status_line_size = calculate_status_line_size resp, m_after_write_notificator = None\<rparr>)"

lemma done_resp_reply: "b_connection resp \<Longrightarrow> done_resp resp st = (Inr (reply resp), st)"
  using controlled_done_eq [of resp None] by (auto simp: done_resp_def reply_def)

lemmas resp_defs = init_resp_def create_response_def mark_as_bad_request_def set_text_body_def
  controlled_set_body_def controlled_set_body_impl_def controlled_reserve_def Let_def
  append_header_name_def append_header_date_field_def append_header_id_def connection_close_def
  controlled_builder_def base_response_builder_def base_response_builder_t.defs controlled_builder_t.defs

lemma resp_connection [simp]:
  "b_connection (create_response sl req)"
  "b_connection (init_resp env resp) = b_connection resp"
  "b_connection (set_text_body text resp) = b_connection resp"
  "b_connection (mark_as_bad_request resp) = b_connection resp"
  "b_connection (append_header_id i v resp) = b_connection resp"
  "b_connection (connection_close resp) = b_connection resp"
  by (simp_all add: resp_defs)

lemmas handler_defs = on_players_post_def on_home_def on_start_game_def on_game_post_def on_set_players_def
  on_set_game_def on_settings_def options_def method_not_allowed_def

text \<open>The text of a response and its status line.\<close>

definition response_text :: "response_call \<Rightarrow> string" where
  "response_text call = items_bytes (m_items (snd (snd call)))"

definition starts_with :: "string \<Rightarrow> string \<Rightarrow> bool" where
  "starts_with w s \<longleftrightarrow> take (length w) s = w"

definition ok_status :: string where "ok_status = ''HTTP/1.1 200 OK'' @ header_rn"
definition bad_request_status :: string where "bad_request_status = ''HTTP/1.1 400 Bad Request'' @ header_rn"

lemma status_texts:
  "m_http_major h = 1 \<Longrightarrow> m_http_minor h = 1 \<Longrightarrow> m_status_line h = status ''status_ok'' \<Longrightarrow>
     starts_with ok_status (header_text h p @ s)"
  "m_http_major h = 1 \<Longrightarrow> m_http_minor h = 1 \<Longrightarrow> m_status_line h = status ''status_bad_request'' \<Longrightarrow>
     starts_with bad_request_status (header_text h p @ s)"
  by (simp_all add: starts_with_def ok_status_def bad_request_status_def header_text_def status_line_text_def
      status_def statuses_def status_code_def status_codes_def digit_char_def char_of_byte_def char_of_eq_iff)

definition plain_header :: "string \<Rightarrow> controlled_builder_t \<Rightarrow> bool" where
  "plain_header name resp \<longleftrightarrow> m_http_major (b_header resp) = 1 \<and> m_http_minor (b_header resp) = 1 \<and>
     m_status_line (b_header resp) = status name"

lemma plain_header_simps [simp]:
  "plain_header name (init_resp env (create_response (status name) req))"
  "plain_header name (set_text_body text resp) = plain_header name resp"
  "plain_header name resp \<Longrightarrow> plain_header ''status_bad_request'' (mark_as_bad_request resp)"
  by (simp_all add: plain_header_def resp_defs http_response_header_def set_should_keep_alive_def set_connection_def
      http_header_common_default_def http_header_common_t.defs http_response_header_t.defs set_status_line_def)

lemma response_text_reply:
  "plain_header ''status_ok'' resp \<Longrightarrow> starts_with ok_status (response_text (reply resp))"
  "plain_header ''status_bad_request'' resp \<Longrightarrow> starts_with bad_request_status (response_text (reply resp))"
  by (auto simp: plain_header_def response_text_def reply_def Http_Headers.set_content_length_def intro!: status_texts)

subsection \<open>Frames\<close>

lemma format_text_plain: "CHR ''%'' \<notin> set s \<Longrightarrow> format_text s = Some s"
  by (induction s) auto

lemma format_text_length: "format_text s = Some t \<Longrightarrow> length t \<le> length s"
  by (induction s arbitrary: t rule: format_text.induct) (fastforce split: if_splits list.splits)+

lemma spil_code_cases: "spil_code spil \<in> {[], ''1'', ''2'', ''3''}"
  by (auto simp: spil_code_def Let_def)

lemma startSpil_outcome:
  "startSpil env spil antal st =
     (let message = c_str (''R'' @ spil_code spil @ antal @ ''C'')
      in case format_text message of
           Some buf \<Rightarrow> if length message < 5 then writeSome env buf st else (Inl App_undefined, st)
         | None \<Rightarrow> (Inl App_undefined, st))"
  using format_text_length [of "c_str (''R'' @ spil_code spil @ antal @ ''C'')"]
  by (auto simp: startSpil_def strcpy_def sprintf_def Let_def split: option.splits)

lemma c_str_plain: "CHR 0x00 \<notin> set s \<Longrightarrow> c_str s = s"
  by (induction s) (auto simp: c_str_def)

text \<open>Without the two special characters only the length matters.\<close>

lemma startSpil_plain:
  assumes "CHR ''%'' \<notin> set antal" "CHR 0x00 \<notin> set antal"
  shows "startSpil env spil antal st =
    (if length (spil_code spil) + length antal \<le> 2 then writeSome env (''R'' @ spil_code spil @ antal @ ''C'') st
     else (Inl App_undefined, st))"
proof -
  let ?m = "''R'' @ spil_code spil @ antal @ ''C''"
  have "CHR ''%'' \<notin> set ?m" "CHR 0x00 \<notin> set ?m" using assms spil_code_cases [of spil] by auto
  then have "c_str ?m = ?m" "format_text ?m = Some ?m" by (intro c_str_plain format_text_plain; blast)+
  then show ?thesis
    unfolding startSpil_outcome Let_def by (auto simp del: append_Cons)
qed

text \<open>Reading a text keeps only its last character and always reports length 0.\<close>

lemma readCString_loses_text:
  assumes "CHR 0x00 \<notin> set t" "0 < maxSize"
  shows "readCString maxSize buf0 (map Some t @ Some (CHR 0x00) # reads) = Some (0, CHR 0x00, reads)"
proof -
  have "readCString_loop 0 maxSize b (map Some t @ Some (CHR 0x00) # reads) = Some (1, CHR 0x00, reads)" for b
    using assms by (induction t arbitrary: b) auto
  with assms(2) show ?thesis by (simp add: readCString_def)
qed

subsection \<open>Saved settings\<close>

definition saved :: "app_env \<Rightarrow> app_state \<Rightarrow> bool" where
  "saved env st \<longleftrightarrow> a_files st ''settings.txt'' = Some (selected_to_json env (a_selected st))"

text \<open>Requests served one after the other, as long as the behaviour is defined.\<close>

inductive serves :: "app_env \<Rightarrow> app_state \<Rightarrow> app_state \<Rightarrow> bool" for env st where
  serves_start: "serves env st st"
| serves_request: "serves env st st' \<Longrightarrow> (m, p, h) \<in> set server_handler \<Longrightarrow> h env req st' = (r, st'') \<Longrightarrow>
    r \<noteq> Inl App_undefined \<Longrightarrow> serves env st st''"

lemma retrieveSelected_saved:
  assumes "\<And>s. selected_from_json env (selected_to_json env s) = Some s" "saved env st"
  shows "retrieveSelected env st = (Inr (), st)"
  using assms by (simp add: retrieveSelected_def read_file_def saved_def)

lemma startSpil_frame:
  assumes "startSpil env spil antal st = (r, st')"
  shows "a_selected st' = a_selected st \<and> a_files st' = a_files st \<and> a_settings_writable st' = a_settings_writable st \<and>
    (\<exists>fs. a_uart st' = a_uart st @ fs \<and> list_all (\<lambda>f. length f \<le> 4) fs)"
proof -
  have "length buf \<le> 4" if "format_text m = Some buf" "length m < 5" for m buf
    using format_text_length [OF that(1)] that(2) by simp
  with assms show ?thesis
    unfolding startSpil_outcome by (fastforce simp: Let_def writeSome_def min_le_iff_disj split: option.splits if_splits)
qed

text \<open>Every handler keeps saved settings saved and adds only frames to what the board receives.\<close>

lemma handler_keeps_saved:
  assumes json: "\<And>s. selected_from_json env (selected_to_json env s) = Some s"
    and st: "saved env st" "a_settings_writable st"
    and h: "(m, p, h) \<in> set server_handler" "h env req st = (r, st')"
  shows "saved env st' \<and> a_settings_writable st' \<and>
    (\<exists>fs. a_uart st' = a_uart st @ fs \<and> list_all (\<lambda>f. length f \<le> 4) fs)"
proof -
  note retrieve = retrieveSelected_saved [OF json st(1)]
  have post: "saved env (saveSelected env (st\<lparr>a_selected := s\<rparr>))" for s
    using st(2) by (simp add: saved_def saveSelected_def)
  have start: ?thesis if "on_start_game env req st = (r, st')"
  proof -
    obtain q su where q: "startSpil env (g_game (m_game (a_selected st))) (p_players (m_players (a_selected st))) st = (q, su)"
      by force
    have "st' = su"
      using that q retrieve by (auto simp: on_start_game_def Let_def done_resp_reply split: sum.splits app_error.splits)
    with startSpil_frame [OF q] st show ?thesis by (auto simp: saved_def)
  qed
  show ?thesis
    using h start st post retrieve
    by (auto simp: server_handler_def handler_defs [unfolded on_start_game_def] Let_def done_resp_reply saveSelected_def
        split: option.splits)
qed

lemma serves_saved:
  assumes json: "\<And>s. selected_from_json env (selected_to_json env s) = Some s"
    and st: "saved env st" "a_settings_writable st" and run: "serves env st st'"
  shows "saved env st' \<and> a_settings_writable st' \<and>
    (\<exists>fs. a_uart st' = a_uart st @ fs \<and> list_all (\<lambda>f. length f \<le> 4) fs)"
  using run
proof induction
  case serves_start
  with st show ?case by simp
next
  case (serves_request st' m p h req r st'')
  then obtain fs where "saved env st'" "a_settings_writable st'" "a_uart st' = a_uart st @ fs" "list_all (\<lambda>f. length f \<le> 4) fs"
    by blast
  with handler_keeps_saved [OF json _ _ serves_request.hyps(2,3)] show ?case by fastforce
qed

subsection \<open>Properties\<close>

text \<open>A sample environment: a selection is written as the length of its game in strokes, a colon and the texts.\<close>

definition sample_env :: app_env where
  "sample_env =
     \<lparr>players_from_json = \<lambda>s. Some \<lparr>p_players = s\<rparr>, game_from_json = \<lambda>s. Some \<lparr>g_game = s\<rparr>,
      selected_from_json = \<lambda>s. (let n = length (takeWhile (\<lambda>c. c = CHR ''x'') s)
        in if n < length s then Some \<lparr>m_game = \<lparr>g_game = take n (drop (n + 1) s)\<rparr>,
             m_players = \<lparr>p_players = drop n (drop (n + 1) s)\<rparr>\<rparr> else None),
      selected_to_json = \<lambda>s. replicate (length (g_game (m_game s))) CHR ''x'' @ CHR '':'' #
        g_game (m_game s) @ p_players (m_players s),
      serial_write_some = \<lambda>f. Some (length f), current_date = []\<rparr>"

lemma sample_env_json: "selected_from_json sample_env (selected_to_json sample_env s) = Some s"
proof -
  have "takeWhile (\<lambda>c. c = CHR ''x'') (replicate n CHR ''x'' @ CHR '':'' # t) = replicate n CHR ''x''" for n t
    by (induction n) simp_all
  then show ?thesis by (simp add: sample_env_def)
qed

definition sample_state :: app_state where
  "sample_state = \<lparr>a_selected = selected_default,
     a_files = Map.empty(''settings.txt'' \<mapsto> selected_to_json sample_env selected_default),
     a_settings_writable = True, a_uart = []\<rparr>"

definition sample_request :: "string \<Rightarrow> request_t" where
  "sample_request body = \<lparr>r_request_id = 1, r_keep_alive = True, r_body = body\<rparr>"

text \<open>
  C10: from the forms to the board. When the number of players and the game are posted and the game is
  started, all three requests are answered with status 200, the settings file holds the selection and
  the board receives exactly one frame: R, the code of the game, the player text, C. The
  assumptions are that reading written settings gives them back, that the two bodies are valid, that
  the player text is one ordinary character, that the settings file can be written and that the
  serial port takes all four bytes.
\<close>

theorem start_game_reaches_board:
  assumes json: "\<And>s. selected_from_json env (selected_to_json env s) = Some s"
    and bodies: "players_from_json env (r_body r1) = Some \<lparr>p_players = [c]\<rparr>"
      "game_from_json env (r_body r2) = Some \<lparr>g_game = g\<rparr>"
    and game: "g \<in> {''Fisk'', ''500'', [CHR ''R'', CHR 0xC3, CHR 0xB8, CHR ''v'', CHR ''h'', CHR ''u'', CHR ''l'']}"
    and c: "c \<noteq> CHR ''%''" "c \<noteq> CHR 0x00"
    and port: "serial_write_some env (''R'' @ spil_code g @ [c] @ ''C'') = Some 4"
    and disk: "a_settings_writable st"
  shows "\<exists>c1 st1 c2 st2 c3 st3.
    on_players_post env r1 st = (Inr c1, st1) \<and> on_game_post env r2 st1 = (Inr c2, st2) \<and>
    on_start_game env r3 st2 = (Inr c3, st3) \<and>
    list_all (\<lambda>call. starts_with ok_status (response_text call)) [c1, c2, c3] \<and>
    a_selected st3 = \<lparr>m_game = \<lparr>g_game = g\<rparr>, m_players = \<lparr>p_players = [c]\<rparr>\<rparr> \<and> saved env st3 \<and>
    a_uart st3 = a_uart st @ [''R'' @ spil_code g @ [c] @ ''C'']"
proof -
  let ?sel = "\<lparr>m_game = \<lparr>g_game = g\<rparr>, m_players = \<lparr>p_players = [c]\<rparr>\<rparr>"
  define resp where "resp req = init_resp env (create_response (status ''status_ok'') req)" for req
  have ok: "starts_with ok_status (response_text (reply (resp req)))"
    "starts_with ok_status (response_text (reply (set_text_body t (resp req))))" for req t
    by (simp_all add: resp_def response_text_reply)
  have con: "b_connection (resp req)" "b_connection (set_text_body t (resp req))" for req t by (simp_all add: resp_def)
  define st1 where "st1 = saveSelected env (st\<lparr>a_selected := (a_selected st)\<lparr>m_players := \<lparr>p_players = [c]\<rparr>\<rparr>\<rparr>)"
  define st2 where "st2 = saveSelected env (st1\<lparr>a_selected := (a_selected st1)\<lparr>m_game := \<lparr>g_game = g\<rparr>\<rparr>\<rparr>)"
  have p: "on_players_post env r1 st = (Inr (reply (resp r1)), st1)"
    by (simp add: on_players_post_def bodies resp_def [symmetric] Let_def done_resp_reply con st1_def)
  have q: "on_game_post env r2 st1 = (Inr (reply (resp r2)), st2)"
    by (simp add: on_game_post_def bodies resp_def [symmetric] Let_def done_resp_reply con st2_def)
  have st2: "a_selected st2 = ?sel" "saved env st2" "a_uart st2 = a_uart st"
    using disk by (simp_all add: st1_def st2_def saveSelected_def saved_def)
  have "length (spil_code g) = 1" using game by (auto simp: spil_code_def)
  then have frame: "startSpil env g [c] st2 = (Inr 4, st2\<lparr>a_uart := a_uart st @ [''R'' @ spil_code g @ [c] @ ''C'']\<rparr>)"
    using c port st2(3) by (simp add: startSpil_plain writeSome_def)
  let ?st3 = "st2\<lparr>a_uart := a_uart st @ [''R'' @ spil_code g @ [c] @ ''C'']\<rparr>"
  define c3 where "c3 = reply (set_text_body (read_file ''startGame.html'' ?st3) (resp r3))"
  have "on_start_game env r3 st2 = (Inr c3, ?st3)"
    unfolding c3_def using retrieveSelected_saved [OF json st2(2)] frame st2(1)
    by (simp add: on_start_game_def resp_def [symmetric] Let_def done_resp_reply con)
  moreover have "list_all (\<lambda>call. starts_with ok_status (response_text call)) [reply (resp r1), reply (resp r2), c3]"
    using ok by (simp add: c3_def)
  moreover have "a_selected ?st3 = ?sel" "saved env ?st3" "a_uart ?st3 = a_uart st @ [''R'' @ spil_code g @ [c] @ ''C'']"
    using st2 by (simp_all add: saved_def)
  ultimately show ?thesis using p q by blast
qed

theorem start_game_reaches_board_witness:
  "\<exists>c1 st1 c2 st2 c3 st3.
    on_players_post sample_env (sample_request ''4'') sample_state = (Inr c1, st1) \<and>
    on_game_post sample_env (sample_request ''Fisk'') st1 = (Inr c2, st2) \<and>
    on_start_game sample_env (sample_request []) st2 = (Inr c3, st3) \<and>
    list_all (\<lambda>call. starts_with ok_status (response_text call)) [c1, c2, c3] \<and>
    a_selected st3 = \<lparr>m_game = \<lparr>g_game = ''Fisk''\<rparr>, m_players = \<lparr>p_players = ''4''\<rparr>\<rparr> \<and> saved sample_env st3 \<and>
    a_uart st3 = [''R14C'']"
proof -
  have code: "spil_code ''Fisk'' = ''1''" by (simp add: spil_code_def)
  show ?thesis
    using start_game_reaches_board [of sample_env "sample_request ''4''" "CHR ''4''" "sample_request ''Fisk''" "''Fisk''"
        sample_state "sample_request []", OF sample_env_json]
    by (simp add: code) (simp add: sample_env_def sample_request_def sample_state_def)
qed

text \<open>
  C32: the settings survive. Starting from a state in which the settings file holds the selection, whatever
  requests are served, also those that fail, the file holds the selection afterwards, and the
  board has received only frames of at most four bytes. The assumptions are that reading written
  settings gives them back and that the file can be written.
\<close>

theorem settings_stay_saved:
  assumes "\<And>s. selected_from_json env (selected_to_json env s) = Some s" "saved env st" "a_settings_writable st"
    and "serves env st st'"
  shows "saved env st' \<and> (\<exists>fs. a_uart st' = a_uart st @ fs \<and> list_all (\<lambda>f. length f \<le> 4) fs)"
  using serves_saved [OF assms] by blast

theorem settings_stay_saved_witness:
  "saved sample_env (snd (on_players_post sample_env (sample_request ''4'') sample_state))"
proof -
  have "saved sample_env sample_state" "a_settings_writable sample_state" by (simp_all add: saved_def sample_state_def)
  moreover have "serves sample_env sample_state (snd (on_players_post sample_env (sample_request ''4'') sample_state))"
  proof (rule serves_request [OF serves_start])
    show "(Method ''http_method_post'', ''/players'', on_players_post) \<in> set server_handler"
      by (simp add: server_handler_def)
    show "on_players_post sample_env (sample_request ''4'') sample_state =
        (fst (on_players_post sample_env (sample_request ''4'') sample_state),
         snd (on_players_post sample_env (sample_request ''4'') sample_state))" by simp
    show "fst (on_players_post sample_env (sample_request ''4'') sample_state) \<noteq> Inl App_undefined"
      by (simp add: on_players_post_def sample_env_def Let_def done_resp_reply)
  qed
  ultimately show ?thesis using settings_stay_saved [OF sample_env_json] by blast
qed

text \<open>
  C40: what starting a game can do. With a player text without percent sign and zero character, starting
  sends the frame if the code of the game and the player text have at most two characters together,
  so for a known game a single character; any longer text overflows the message array. A
  percent sign alone is a conversion without argument. A game the server does not know has no code, so the
  frame has only three characters for a single player character.
\<close>

theorem startSpil_frames:
  "startSpil env spil (filter (\<lambda>c. c \<noteq> CHR ''%'' \<and> c \<noteq> CHR 0x00) t) st =
     (let antal = filter (\<lambda>c. c \<noteq> CHR ''%'' \<and> c \<noteq> CHR 0x00) t
      in if length (spil_code spil) + length antal \<le> 2 then writeSome env (''R'' @ spil_code spil @ antal @ ''C'') st
         else (Inl App_undefined, st)) \<and>
   length (spil_code ''Fisk'') = 1 \<and> length (spil_code ''500'') = 1 \<and> spil_code ''fisk'' = [] \<and>
   startSpil env ''Fisk'' ''10'' st = (Inl App_undefined, st) \<and>
   startSpil env ''Fisk'' ''%'' st = (Inl App_undefined, st) \<and>
   startSpil env ''Whist'' ''4'' st = writeSome env ''R4C'' st"
proof (intro conjI)
  show "startSpil env spil (filter (\<lambda>c. c \<noteq> CHR ''%'' \<and> c \<noteq> CHR 0x00) t) st =
     (let antal = filter (\<lambda>c. c \<noteq> CHR ''%'' \<and> c \<noteq> CHR 0x00) t
      in if length (spil_code spil) + length antal \<le> 2 then writeSome env (''R'' @ spil_code spil @ antal @ ''C'') st
         else (Inl App_undefined, st))"
    unfolding Let_def by (rule startSpil_plain) simp_all
  show "startSpil env ''Fisk'' ''%'' st = (Inl App_undefined, st)"
    by (simp add: startSpil_outcome spil_code_def c_str_def)
qed (simp_all add: startSpil_plain spil_code_def)

text \<open>
  Invalid input. Invalid JSON in a post leaves the handler as an exception without a response, and changes
  nothing; unreadable settings are answered with status 400 by the two pages that read them.
\<close>

theorem invalid_json_outcome:
  assumes "players_from_json env (r_body req) = None" "game_from_json env (r_body req) = None"
    and "selected_from_json env (read_file ''settings.txt'' st) = None"
  shows "on_players_post env req st = (Inl (App_exception Json_exception), st) \<and>
    on_game_post env req st = (Inl (App_exception Json_exception), st) \<and>
    (\<exists>call. on_home env req st = (Inr call, st) \<and> starts_with bad_request_status (response_text call)) \<and>
    (\<exists>call. on_start_game env req st = (Inr call, st) \<and> starts_with bad_request_status (response_text call))"
proof -
  have [simp]: "retrieveSelected env st = (Inl (App_exception Json_exception), st)"
    using assms(3) by (simp add: retrieveSelected_def)
  define resp where "resp = init_resp env (create_response (status ''status_ok'') req)"
  have "plain_header ''status_ok'' resp" "b_connection resp" by (simp_all add: resp_def)
  then have "starts_with bad_request_status (response_text (reply (mark_as_bad_request resp)))"
    "starts_with bad_request_status (response_text (reply (mark_as_bad_request (set_text_body t resp))))" for t
    using plain_header_simps(3) [of "''status_ok''"] by (simp_all add: response_text_reply)
  with \<open>b_connection resp\<close> assms(1,2) show ?thesis
    by (simp add: on_players_post_def on_game_post_def on_home_def on_start_game_def Let_def done_resp_reply
        resp_def [symmetric])
qed

theorem invalid_json_outcome_witness:
  "on_players_post (sample_env\<lparr>players_from_json := \<lambda>_. None, game_from_json := \<lambda>_. None\<rparr>) (sample_request [])
     (sample_state\<lparr>a_files := Map.empty\<rparr>) = (Inl (App_exception Json_exception), sample_state\<lparr>a_files := Map.empty\<rparr>)"
  using invalid_json_outcome [of "sample_env\<lparr>players_from_json := \<lambda>_. None, game_from_json := \<lambda>_. None\<rparr>" "sample_request []"
      "sample_state\<lparr>a_files := Map.empty\<rparr>"]
  by (simp add: read_file_def) (simp add: sample_env_def)

end
