(* ===== verification/Game_Routes.thy ===== *)
theory Game_Routes
  imports Express_Router Game_Server
begin

text \<open>
  The routes of the game server (\<open>server_handler\<close> of \<open>Game_Server\<close>) registered with the express router:
  which handler a request reaches.  A handler returns a function of the state of the application.
\<close>

type_synonym game_router = "(request_t, app_state \<Rightarrow> response_call app_result) express_router_t"

fun route_matcher_of :: "(string \<Rightarrow> int) \<Rightarrow> route_method \<Rightarrow> method_matcher_t" where
  "route_matcher_of nodejs_code (Method m) = Simple_matcher (http_method nodejs_code m)"
| "route_matcher_of nodejs_code (None_of_methods ms) = none_of_methods (map (http_method nodejs_code) ms)"

fun register_routes ::
    "(string \<Rightarrow> int) \<Rightarrow> app_env \<Rightarrow> (route_method \<times> string \<times> app_handler) list \<Rightarrow> game_router \<Rightarrow>
       path_error + game_router" where
  "register_routes nodejs_code env [] router = Inr router"
| "register_routes nodejs_code env ((m, p, h) # routes) router =
     (case add_handler (route_matcher_of nodejs_code m) p options_default (\<lambda>req rp. h env req) router of
        Inl e \<Rightarrow> Inl e
      | Inr router \<Rightarrow> register_routes nodejs_code env routes router)"

definition game_router :: "(string \<Rightarrow> int) \<Rightarrow> app_env \<Rightarrow> path_error + game_router" where
  "game_router nodejs_code env = register_routes nodejs_code env server_handler express_router"

section \<open>Literal routes\<close>

text \<open>A path is \<open>w\<close> up to the case of letters and one slash at the end.\<close>

definition is_path :: "string \<Rightarrow> string \<Rightarrow> bool" where
  "is_path w v \<longleftrightarrow> map c_tolower v = w \<or> map c_tolower v = w @ ''/''"

lemma same_chars_iff: "list_all2 (same_char True) w u \<longleftrightarrow> map c_tolower w = map c_tolower u"
  by (auto simp: list_all2_conv_all_nth same_char_def list_eq_iff_nth_eq)

lemma usual_default: "usual_options options_default"
  by (simp add: usual_options_def options_default_def)

lemma tolower_slash: "map c_tolower v = w @ ''/'' \<longleftrightarrow> (\<exists>u. map c_tolower u = w \<and> v = u @ ''/'')"
proof -
  have "must_be_escaped CHR ''/''"
    by (simp add: must_be_escaped_def)
  from same_char_escaped [OF this, of True] have "c_tolower CHR ''/'' = c_tolower x \<longleftrightarrow> x = CHR ''/''" for x
    by (simp add: same_char_def)
  moreover have "c_tolower CHR ''/'' = CHR ''/''"
    by (simp add: c_tolower_def)
  ultimately have slash: "c_tolower x = CHR ''/'' \<longleftrightarrow> x = CHR ''/''" for x
    by metis
  show ?thesis
  proof
    assume *: "map c_tolower v = w @ ''/''"
    then have v: "v = butlast v @ [last v]"
      by (metis append_butlast_last_id append_is_Nil_conv list.map_disc_iff not_Cons_self2)
    with * have "map c_tolower (butlast v) = w" "c_tolower (last v) = CHR ''/''"
      by (metis append_eq_append_conv last_snoc list.simps(8,9) map_append butlast_snoc)+
    with v slash show "\<exists>u. map c_tolower u = w \<and> v = u @ ''/''"
      by metis
  qed (auto simp: slash)
qed

lemma literal_route:
  assumes "map c_tolower w = w"
  shows "(\<exists>us t. fits options_default [] [Literal w] us \<and> v = concat us @ t \<and> path_tail options_default t) \<longleftrightarrow> is_path w v"
proof -
  have fits: "fits options_default [] [Literal w] us \<longleftrightarrow> (\<exists>u. us = [u] \<and> map c_tolower u = w)" for us
    using assms by (cases us) (auto simp: same_chars_iff options_default_def)
  have "(\<exists>u t. map c_tolower u = w \<and> v = u @ t \<and> (t = [] \<or> t = ''/'')) \<longleftrightarrow> is_path w v"
    unfolding is_path_def tolower_slash by auto
  moreover have "path_tail options_default t \<longleftrightarrow> t = [] \<or> t = ''/''" for t
    by (simp add: path_tail_def options_default_def)
  moreover have "(\<exists>us t. (\<exists>u. us = [u] \<and> P u) \<and> v = concat us @ t \<and> Q t) \<longleftrightarrow> (\<exists>u t. P u \<and> v = u @ t \<and> Q t)" for P Q
    by (intro iffI; elim exE conjE; force)
  ultimately show ?thesis
    unfolding fits by simp
qed

lemma literal_entry:
  assumes "list_all plain_char w"
  shows "express_route_entry mm w options_default h = Inr (piece_entry mm options_default [Literal w] h)"
  using express_route_entry_pieces [of "[Literal w]" options_default mm h] assms usual_default
  by (simp add: route_text_def)

lemma literal_matches:
  assumes "map c_tolower w = w" "tp_view tp = Some v"
  shows "route_matches (re_matcher (piece_entry mm options_default [Literal w] h)) meth tp params =
    (if method_match mm meth \<and> is_path w v
     then Inr (True, tp\<lparr>tp_data := None\<rparr>, \<lparr>rp_match = v, rp_named_parameters = [], rp_indexed_parameters = []\<rparr>)
     else Inr (False, tp, params))"
proof -
  have "match_route (re_matcher (piece_entry mm options_default [Literal w] h)) tp params =
     (if is_path w v
      then Inr (True, tp\<lparr>tp_data := None\<rparr>, \<lparr>rp_match = v, rp_named_parameters = [], rp_indexed_parameters = []\<rparr>)
      else Inr (False, tp, params))"
    using match_route_pieces [OF usual_default assms(2), of "[Literal w]" mm h params] literal_route [OF assms(1), of v]
    by (auto simp: params_of_def)
  then show ?thesis
    by (simp add: route_matches_def) (simp add: piece_entry_def)
qed

section \<open>The author route\<close>

definition author_pieces :: "route_piece list" where
  "author_pieces = [Literal ''/author/'', Param ''author'']"

definition is_author_path :: "string \<Rightarrow> bool" where
  "is_author_path v \<longleftrightarrow>
     (\<exists>u a t. v = u @ a @ t \<and> map c_tolower u = ''/author/'' \<and> a \<noteq> [] \<and> CHR ''/'' \<notin> set a \<and> t \<in> {[], ''/''})"

lemma author_entry:
  "express_route_entry mm ''/author/:author'' options_default h = Inr (piece_entry mm options_default author_pieces h)"
proof -
  have "pieces_ok author_pieces"
    by (simp add: author_pieces_def plain_char_def is_word_char_def is_digit_char_def in_char_range_def ends_name_def
        route_text_def)
  moreover have "route_text author_pieces = ''/author/:author''"
    by (simp add: author_pieces_def route_text_def)
  ultimately show ?thesis
    using express_route_entry_pieces [of author_pieces options_default mm h] usual_default by simp
qed

lemma author_route:
  "(\<exists>us t. fits options_default [] author_pieces us \<and> v = concat us @ t \<and> path_tail options_default t) \<longleftrightarrow> is_author_path v"
proof -
  have "delimiter_after options_default ''/author/'' = ''/''"
    by (simp add: delimiter_after_def make_delimiter_def split_prefix_def options_default_def)
  moreover have "map c_tolower ''/author/'' = ''/author/''"
    by (simp add: c_tolower_def)
  ultimately have fits: "fits options_default [] author_pieces us \<longleftrightarrow>
      (\<exists>u a. us = [u, a] \<and> map c_tolower u = ''/author/'' \<and> a \<noteq> [] \<and> CHR ''/'' \<notin> set a)" for us
    by (cases us; cases "tl us") (auto simp: author_pieces_def same_chars_iff options_default_def)
  have "path_tail options_default t \<longleftrightarrow> t \<in> {[], ''/''}" for t
    by (simp add: path_tail_def options_default_def)
  moreover have "(\<exists>us t. (\<exists>u a. us = [u, a] \<and> P u \<and> Q a \<and> R a) \<and> v = concat us @ t \<and> S t) \<longleftrightarrow>
      (\<exists>u a t. v = u @ a @ t \<and> P u \<and> Q a \<and> R a \<and> S t)" for P Q R S
    by (intro iffI; elim exE conjE; force)
  ultimately show ?thesis
    unfolding fits is_author_path_def by presburger
qed

lemma author_matches:
  assumes "tp_view tp = Some v"
  shows "if method_match mm meth \<and> is_author_path v
    then \<exists>rp. route_matches (re_matcher (piece_entry mm options_default author_pieces h)) meth tp params =
        Inr (True, tp\<lparr>tp_data := None\<rparr>, rp)
    else route_matches (re_matcher (piece_entry mm options_default author_pieces h)) meth tp params = Inr (False, tp, params)"
proof -
  have "if is_author_path v
    then \<exists>rp. match_route (re_matcher (piece_entry mm options_default author_pieces h)) tp params =
        Inr (True, tp\<lparr>tp_data := None\<rparr>, rp)
    else match_route (re_matcher (piece_entry mm options_default author_pieces h)) tp params = Inr (False, tp, params)"
    using match_route_pieces [OF usual_default assms, of author_pieces mm h params] author_route [of v] by auto
  then show ?thesis
    by (auto simp: route_matches_def) (auto simp: piece_entry_def)
qed

section \<open>Dispatch\<close>

definition game_dispatch :: "(string \<Rightarrow> int) \<Rightarrow> http_method_id_t \<Rightarrow> string \<Rightarrow> app_handler option" where
  "game_dispatch nodejs_code meth v =
     (let is_get = method_eq (http_method nodejs_code ''http_method_get'') meth;
          is_post = method_eq (http_method nodejs_code ''http_method_post'') meth;
          is_options = method_eq (http_method nodejs_code ''http_method_options'') meth
      in if is_get \<and> is_path ''/'' v then Some on_home
         else if is_get \<and> is_path ''/game'' v then Some on_set_game
         else if is_get \<and> is_path ''/players'' v then Some on_set_players
         else if is_get \<and> is_path ''/startgame'' v then Some on_start_game
         else if is_get \<and> is_path ''/settings'' v then Some on_settings
         else if is_post \<and> is_path ''/players'' v then Some on_players_post
         else if is_post \<and> is_path ''/game'' v then Some on_game_post
         else if is_options \<and> is_path ''/'' v then Some options
         else if \<not> is_get \<and> \<not> is_post \<and> is_path ''/api'' v then Some method_not_allowed
         else if \<not> is_get \<and> is_author_path v then Some method_not_allowed
         else None)"

definition game_entries :: "(string \<Rightarrow> int) \<Rightarrow> app_env \<Rightarrow> (request_t, app_state \<Rightarrow> response_call app_result) route_entry_t list" where
  "game_entries nodejs_code env =
     map (\<lambda>(m, p, h). piece_entry (route_matcher_of nodejs_code m) options_default
            (if p = ''/author/:author'' then author_pieces else [Literal p]) (\<lambda>req rp. h env req)) server_handler"

lemma entry_handler: "re_handler (piece_entry mm opts ps h) = h"
  by (simp add: piece_entry_def)

lemma game_router_entries:
  "game_router nodejs_code env = Inr \<lparr>er_handlers = game_entries nodejs_code env, er_non_matched_request_handler = None\<rparr>"
  by (simp add: game_router_def server_handler_def game_entries_def add_handler_def express_router_def author_entry
      literal_entry plain_char_def)

lemma find_handler_literal:
  assumes "map c_tolower w = w" "tp_view tp = Some v"
  shows "find_handler (piece_entry mm options_default [Literal w] h # es) meth tp params =
    (if method_match mm meth \<and> is_path w v
     then Inr (Some (piece_entry mm options_default [Literal w] h, \<lparr>rp_match = v, rp_named_parameters = [], rp_indexed_parameters = []\<rparr>))
     else find_handler es meth tp params)"
  using literal_matches [OF assms, of mm h meth params] by simp

lemma find_handler_author:
  assumes "tp_view tp = Some v"
  shows "\<exists>rp. find_handler [piece_entry mm options_default author_pieces h] meth tp params =
    (if method_match mm meth \<and> is_author_path v then Inr (Some (piece_entry mm options_default author_pieces h, rp)) else Inr None)"
  using author_matches [OF assms, of mm meth h params] by (cases "method_match mm meth \<and> is_author_path v") auto

text \<open>
  C9: which handler a request reaches. The routes of the game server are all accepted by the router. A request
  whose path cannot be normalised ends in that failure; otherwise the handler is the one given by
  \<open>game_dispatch\<close>, a decision on the method and on the path up to the case of letters and one
  slash at the end, and it is called with the request; a request for which there is none is not handled.
\<close>

theorem game_requests_dispatched:
  "\<exists>router. game_router nodejs_code env = Inr router \<and>
    (\<forall>header req. router_call fresh router header req =
       (case target_path_holder fresh (Http_Headers.path header) of
          Inl e \<Rightarrow> Inl (Bad_target_path e)
        | Inr tp \<Rightarrow> Inr (map_option (\<lambda>h. h env req) (game_dispatch nodejs_code (m_method header) (the (tp_view tp))))))"
proof -
  let ?router = "\<lparr>er_handlers = game_entries nodejs_code env, er_non_matched_request_handler = None\<rparr>"
  have call: "router_call fresh ?router header req =
      (case target_path_holder fresh (Http_Headers.path header) of
          Inl e \<Rightarrow> Inl (Bad_target_path e)
        | Inr tp \<Rightarrow> Inr (map_option (\<lambda>h. h env req) (game_dispatch nodejs_code (m_method header) (the (tp_view tp)))))"
    for header req
  proof (cases "target_path_holder fresh (Http_Headers.path header)")
    case (Inr tp)
    then obtain v where v: "tp_view tp = Some v"
      by (auto simp: target_path_holder_def tp_view_def split: sum.splits if_splits prod.splits)
    obtain rp where rp: "find_handler [piece_entry (none_of_methods [http_method nodejs_code ''http_method_get''])
        options_default author_pieces (\<lambda>req rp. method_not_allowed env req)] (m_method header) tp route_params_default =
      (if method_match (none_of_methods [http_method nodejs_code ''http_method_get'']) (m_method header) \<and> is_author_path v
       then Inr (Some (piece_entry (none_of_methods [http_method nodejs_code ''http_method_get''])
              options_default author_pieces (\<lambda>req rp. method_not_allowed env req), rp)) else Inr None)"
      using find_handler_author [OF v] by blast
    have "find_handler (game_entries nodejs_code env) (m_method header) tp route_params_default = Inr None \<and>
          game_dispatch nodejs_code (m_method header) v = None \<or>
        (\<exists>e rp h. find_handler (game_entries nodejs_code env) (m_method header) tp route_params_default = Inr (Some (e, rp)) \<and>
          re_handler e = (\<lambda>req rp. h env req) \<and> game_dispatch nodejs_code (m_method header) v = Some h)"
      by (simp add: game_entries_def server_handler_def find_handler_literal [OF _ v] rp [unfolded none_of_methods_def]
          c_tolower_def game_dispatch_def none_of_methods_def Let_def entry_handler del: find_handler.simps)
    then show ?thesis
      by (auto simp: router_call_def Inr v)
  qed (simp add: router_call_def)
  then show ?thesis
    using game_router_entries by blast
qed

end
