(* ===== verification/Easy_Parser.thy ===== *)
theory Easy_Parser
  imports Field_Names "HOL-Library.Sublist"
begin

text \<open>
  The parser combinators of \<^verbatim>\<open>restinio/helpers/easy_parser.hpp\<close> and the overflow-controlled
  accumulator of \<^verbatim>\<open>restinio/impl/overflow_controlled_integer_accumulator.hpp\<close>.

  A producer (\<^verbatim>\<open>try_parse\<close>) is a function from the input stream to an error or a value and the
  new stream; a clause (\<^verbatim>\<open>try_process\<close>) also takes and returns the target object it fills.
  The template parameters of the combinators (tuples of clauses) are lists of clauses over one target
  type; a default-constructed \<^verbatim>\<open>Target_Type\<close> is an argument.  A \<^verbatim>\<open>content_consumer_t\<close> that
  is destroyed without \<^verbatim>\<open>commit()\<close> is a call of \<^verbatim>\<open>backto\<close> on that path.

  The second half relates every combinator to an operator of parsing expression grammars over the rest
  of the input (\<open>refines\<close>), so that the parsers built from them can be reasoned about on plain strings.
\<close>

section \<open>Errors and the input stream\<close>

datatype error_reason =
    unexpected_character
  | unexpected_eof
  | no_appropriate_alternative
  | pattern_not_found
  | unconsumed_input
  | illegal_value_found
  | force_only_this_alternative_failed

record parse_error =
  pe_position :: nat
  pe_reason :: error_reason

definition parse_error_at :: "nat \<Rightarrow> error_reason \<Rightarrow> parse_error" where
  "parse_error_at pos reason = \<lparr>pe_position = pos, pe_reason = reason\<rparr>"

record source =
  src_data :: string
  src_index :: nat

type_synonym 'a producer = "source \<Rightarrow> (parse_error + 'a) \<times> source"
type_synonym 't clause = "source \<Rightarrow> 't \<Rightarrow> parse_error option \<times> source \<times> 't"
type_synonym ('t, 'a) consumer = "'t \<Rightarrow> 'a \<Rightarrow> 't"

definition make_source :: "string \<Rightarrow> source" where
  "make_source d = \<lparr>src_data = d, src_index = 0\<rparr>"

definition getch :: "source \<Rightarrow> char option \<times> source" where
  "getch s =
     (if src_index s < length (src_data s)
      then (Some (src_data s ! src_index s), s\<lparr>src_index := src_index s + 1\<rparr>)
      else (None, s))"

definition putback :: "source \<Rightarrow> source" where
  "putback s = (if src_index s \<noteq> 0 then s\<lparr>src_index := src_index s - 1\<rparr> else s)"

definition backto :: "nat \<Rightarrow> source \<Rightarrow> source" where
  "backto pos s = (if pos \<le> length (src_data s) then s\<lparr>src_index := pos\<rparr> else s)"

definition SP :: char where "SP = CHR '' ''"
definition HTAB :: char where "HTAB = CHR 0x09"

definition is_space :: "char \<Rightarrow> bool" where
  "is_space ch \<longleftrightarrow> ch = SP \<or> ch = HTAB"

definition is_digit :: "char \<Rightarrow> bool" where
  "is_digit ch \<longleftrightarrow> (of_char CHR ''0'' :: nat) \<le> of_char ch \<and> (of_char ch :: nat) \<le> of_char CHR ''9''"

definition is_hexdigit :: "char \<Rightarrow> bool" where
  "is_hexdigit ch \<longleftrightarrow>
     (of_char CHR ''0'' :: nat) \<le> of_char ch \<and> (of_char ch :: nat) \<le> of_char CHR ''9'' \<or>
     (of_char CHR ''A'' :: nat) \<le> of_char ch \<and> (of_char ch :: nat) \<le> of_char CHR ''F'' \<or>
     (of_char CHR ''a'' :: nat) \<le> of_char ch \<and> (of_char ch :: nat) \<le> of_char CHR ''f''"

section \<open>Combinators\<close>

definition transformed_value_producer :: "'a producer \<Rightarrow> ('a \<Rightarrow> 'b) \<Rightarrow> 'b producer" where
  "transformed_value_producer p f s =
     (case p s of (Inr v, s') \<Rightarrow> (Inr (f v), s') | (Inl e, s') \<Rightarrow> (Inl e, s'))"

text \<open>The overload for a transformer that may refuse the value.\<close>

definition checked_value_producer :: "'a producer \<Rightarrow> ('a \<Rightarrow> error_reason + 'b) \<Rightarrow> 'b producer" where
  "checked_value_producer p f s =
     (case p s of
        (Inr v, s') \<Rightarrow>
          (case f v of Inr w \<Rightarrow> (Inr w, s') | Inl reason \<Rightarrow> (Inl (parse_error_at (src_index s') reason), s'))
      | (Inl e, s') \<Rightarrow> (Inl e, s'))"

definition consume_value_clause :: "'a producer \<Rightarrow> ('t, 'a) consumer \<Rightarrow> 't clause" where
  "consume_value_clause p consume s target =
     (case p s of
        (Inr v, s') \<Rightarrow> (None, s', consume target v)
      | (Inl e, s') \<Rightarrow> (Some e, s', target))"

fun all_of_clauses :: "'t clause list \<Rightarrow> 't clause" where
  "all_of_clauses [] s t = (None, s, t)"
| "all_of_clauses (c # cs) s t =
     (case c s t of
        (None, s', t') \<Rightarrow> all_of_clauses cs s' t'
      | (Some e, s', t') \<Rightarrow> (Some e, s', t'))"

fun any_of_alternatives ::
    "'t clause list \<Rightarrow> parse_error option \<Rightarrow> source \<Rightarrow> 't \<Rightarrow> bool \<times> parse_error option \<times> source \<times> 't" where
  "any_of_alternatives [] err s target = (False, err, s, target)"
| "any_of_alternatives (c # cs) err s target =
     (case c s target of
        (None, s', tmp) \<Rightarrow> (True, None, s', tmp)
      | (Some e, s', tmp) \<Rightarrow>
          (let s'' = backto (src_index s) s' in
           if pe_reason e = force_only_this_alternative_failed then (True, Some e, s'', target)
           else any_of_alternatives cs (Some e) s'' target))"

definition alternatives :: "'t clause list \<Rightarrow> 't clause" where
  "alternatives cs s target =
     (case any_of_alternatives cs None s target of
        (success, actual_parse_error, s', target') \<Rightarrow>
          (if \<not> success \<or> actual_parse_error \<noteq> None
           then (Some (parse_error_at (src_index s) no_appropriate_alternative), s', target')
           else (None, s', target')))"

definition maybe :: "'t clause list \<Rightarrow> 't clause" where
  "maybe cs s target =
     (case all_of_clauses cs s target of
        (None, s', tmp) \<Rightarrow> (None, s', tmp)
      | (Some _, s', tmp) \<Rightarrow> (None, backto (src_index s) s', target))"

definition not_clause :: "'t \<Rightarrow> 't clause list \<Rightarrow> 't clause" where
  "not_clause dummy cs s target =
     (case all_of_clauses cs s dummy of
        (None, s', _) \<Rightarrow>
          (Some (parse_error_at (src_index s) pattern_not_found), backto (src_index s) s', target)
      | (Some _, s', _) \<Rightarrow> (None, backto (src_index s) s', target))"

definition and_clause :: "'t \<Rightarrow> 't clause list \<Rightarrow> 't clause" where
  "and_clause dummy cs s target =
     (case all_of_clauses cs s dummy of
        (None, s', _) \<Rightarrow> (None, backto (src_index s) s', target)
      | (Some _, s', _) \<Rightarrow>
          (Some (parse_error_at (src_index s) pattern_not_found), backto (src_index s) s', target))"

definition sequence_clause :: "'t clause list \<Rightarrow> 't clause" where
  "sequence_clause cs s target =
     (case all_of_clauses cs s target of
        (None, s', tmp) \<Rightarrow> (None, s', tmp)
      | (Some e, s', tmp) \<Rightarrow> (Some e, backto (src_index s) s', target))"

definition force_only_this_alternative :: "'t clause list \<Rightarrow> 't clause" where
  "force_only_this_alternative cs s target =
     (case sequence_clause cs s target of
        (Some _, s', target') \<Rightarrow>
          (Some (parse_error_at (src_index s) force_only_this_alternative_failed), s', target')
      | (None, s', target') \<Rightarrow> (None, s', target'))"

definition produce :: "'t \<Rightarrow> 't clause list \<Rightarrow> 't producer" where
  "produce blank cs s =
     (case all_of_clauses cs s blank of
        (None, s', tmp) \<Rightarrow> (Inr tmp, s')
      | (Some e, s', tmp) \<Rightarrow> (Inl e, s'))"

text \<open>
  The loop of \<^verbatim>\<open>repeat_clause_t::try_process\<close>: the subitems work on the caller's \<^verbatim>\<open>dest\<close>
  itself, and a failed round gives back the input but not what it did to \<^verbatim>\<open>dest\<close>.  The count
  starts at zero and stops at the maximum.
\<close>

function repeat_loop :: "'t clause list \<Rightarrow> nat \<Rightarrow> nat \<Rightarrow> source \<Rightarrow> 't \<Rightarrow> nat \<times> source \<times> 't" where
  "repeat_loop cs max_occurences count s dest =
     (if max_occurences \<le> count then (count, s, dest)
      else case all_of_clauses cs s dest of
             (None, s', dest') \<Rightarrow> repeat_loop cs max_occurences (count + 1) s' dest'
           | (Some _, s', dest') \<Rightarrow> (count, backto (src_index s) s', dest'))"
  by pat_completeness auto
termination by (relation "measure (\<lambda>(cs, m, c, s, d). m - c)") auto

declare repeat_loop.simps [simp del]

definition repeat_clause :: "nat \<Rightarrow> nat \<Rightarrow> 't clause list \<Rightarrow> 't clause" where
  "repeat_clause min_occurences max_occurences cs s dest =
     (case repeat_loop cs max_occurences 0 s dest of
        (count, s', dest') \<Rightarrow>
          (if min_occurences \<le> count then (None, s', dest')
           else (Some (parse_error_at (src_index s') pattern_not_found), backto (src_index s) s', dest')))"

text \<open>The constant \<^verbatim>\<open>N\<close>: the greatest value of \<^verbatim>\<open>std::size_t\<close>.\<close>

definition N_max :: nat where
  "N_max = 2 ^ 64 - 1"

section \<open>Producers\<close>

definition symbol_producer_template :: "(char \<Rightarrow> bool) \<Rightarrow> char producer" where
  "symbol_producer_template predicate s =
     (case getch s of
        (Some ch, s') \<Rightarrow>
          (if predicate ch then (Inr ch, s')
           else let s'' = putback s' in (Inl (parse_error_at (src_index s'') unexpected_character), s''))
      | (None, s') \<Rightarrow> (Inl (parse_error_at (src_index s') unexpected_eof), s'))"

definition any_symbol_predicate :: "char \<Rightarrow> bool" where
  "any_symbol_predicate ch \<longleftrightarrow> True"

definition particular_symbol_predicate :: "char \<Rightarrow> char \<Rightarrow> bool" where
  "particular_symbol_predicate expected actual \<longleftrightarrow> expected = actual"

definition not_particular_symbol_predicate :: "char \<Rightarrow> char \<Rightarrow> bool" where
  "not_particular_symbol_predicate sentinel actual \<longleftrightarrow> sentinel \<noteq> actual"

definition caseless_particular_symbol_predicate :: "char \<Rightarrow> char \<Rightarrow> bool" where
  "caseless_particular_symbol_predicate v actual \<longleftrightarrow> to_lower_case v = to_lower_case actual"

text \<open>
  The order of \<^verbatim>\<open>char\<close> is that of an unsigned \<^verbatim>\<open>char\<close>; the bounds the library passes are
  ASCII digits, for which a signed \<^verbatim>\<open>char\<close> gives the same answer.
\<close>

definition symbol_from_range_predicate :: "char \<Rightarrow> char \<Rightarrow> char \<Rightarrow> bool" where
  "symbol_from_range_predicate left right actual \<longleftrightarrow>
     (of_char left :: nat) \<le> of_char actual \<and> (of_char actual :: nat) \<le> of_char right"

definition any_symbol_p :: "char producer" where
  "any_symbol_p = symbol_producer_template any_symbol_predicate"

definition symbol_p :: "char \<Rightarrow> char producer" where
  "symbol_p expected = symbol_producer_template (particular_symbol_predicate expected)"

definition any_symbol_if_not_p :: "char \<Rightarrow> char producer" where
  "any_symbol_if_not_p sentinel = symbol_producer_template (not_particular_symbol_predicate sentinel)"

definition caseless_symbol_p :: "char \<Rightarrow> char producer" where
  "caseless_symbol_p expected = symbol_producer_template (caseless_particular_symbol_predicate expected)"

definition symbol_from_range_p :: "char \<Rightarrow> char \<Rightarrow> char producer" where
  "symbol_from_range_p left right = symbol_producer_template (symbol_from_range_predicate left right)"

definition space_p :: "char producer" where
  "space_p = symbol_producer_template is_space"

definition digit_p :: "char producer" where
  "digit_p = symbol_producer_template is_digit"

definition hexdigit_p :: "char producer" where
  "hexdigit_p = symbol_producer_template is_hexdigit"

subsection \<open>Consumers\<close>

definition any_value_skipper :: "('t, 'a) consumer" where
  "any_value_skipper t v = t"

definition as_result :: "('t, 't) consumer" where
  "as_result t v = v"

definition just_result :: "'t \<Rightarrow> ('t, 'a) consumer" where
  "just_result r t v = r"

definition to_container :: "('a list, 'a) consumer" where
  "to_container t v = t @ [v]"

text \<open>\<^verbatim>\<open>to_container\<close> of a string that is given a whole string.\<close>

definition to_container_string :: "(string, string) consumer" where
  "to_container_string t v = t @ v"

definition to_container_map :: "('k \<rightharpoonup> 'v, 'k \<times> 'v) consumer" where
  "to_container_map t kv = (if fst kv \<in> dom t then t else t(fst kv \<mapsto> snd kv))"

definition skip_p :: "'a producer \<Rightarrow> 't clause" where
  "skip_p p = consume_value_clause p any_value_skipper"

definition symbol :: "char \<Rightarrow> 't clause" where
  "symbol expected = skip_p (symbol_p expected)"

definition caseless_symbol :: "char \<Rightarrow> 't clause" where
  "caseless_symbol expected = skip_p (caseless_symbol_p expected)"

definition symbol_from_range :: "char \<Rightarrow> char \<Rightarrow> 't clause" where
  "symbol_from_range left right = skip_p (symbol_from_range_p left right)"

definition space :: "'t clause" where
  "space = skip_p space_p"

definition digit :: "'t clause" where
  "digit = skip_p digit_p"

definition hexdigit :: "'t clause" where
  "hexdigit = skip_p hexdigit_p"

subsection \<open>Fragments\<close>

text \<open>The loop of \<^verbatim>\<open>try_parse_exact_fragment\<close> from the first character of the rest of the fragment.\<close>

fun fragment_loop :: "(char \<Rightarrow> char) \<Rightarrow> source \<Rightarrow> string \<Rightarrow> error_reason option \<times> source" where
  "fragment_loop f s [] = (None, s)"
| "fragment_loop f s (b # bs) =
     (case getch s of
        (None, s') \<Rightarrow> (Some unexpected_eof, s')
      | (Some ch, s') \<Rightarrow>
          (if f ch \<noteq> b then (Some pattern_not_found, s')
           else if bs = [] then (None, s')
           else fragment_loop f s' bs))"

definition try_parse_exact_fragment :: "string \<Rightarrow> bool producer" where
  "try_parse_exact_fragment fragment s =
     (case fragment_loop (\<lambda>ch. ch) s fragment of
        (Some reason, s') \<Rightarrow> (Inl (parse_error_at (src_index s) reason), backto (src_index s) s')
      | (None, s') \<Rightarrow> (Inr True, s'))"

definition try_parse_caseless_exact_fragment :: "string \<Rightarrow> bool producer" where
  "try_parse_caseless_exact_fragment fragment s =
     (case fragment_loop to_lower_case s fragment of
        (Some reason, s') \<Rightarrow> (Inl (parse_error_at (src_index s) reason), backto (src_index s) s')
      | (None, s') \<Rightarrow> (Inr True, s'))"

text \<open>The producers for literals, whose size is checked at compile time.\<close>

definition exact_p :: "string \<Rightarrow> bool producer" where
  "exact_p fragment = try_parse_exact_fragment fragment"

definition exact :: "string \<Rightarrow> 't clause" where
  "exact fragment = skip_p (exact_p fragment)"

text \<open>The producers for run-time strings: their constructors throw for an empty one (\<^term>\<open>None\<close>).\<close>

definition exact_fragment_producer :: "string \<Rightarrow> bool producer option" where
  "exact_fragment_producer fragment =
     (if fragment = [] then None else Some (try_parse_exact_fragment fragment))"

definition caseless_exact_fragment_producer :: "string \<Rightarrow> bool producer option" where
  "caseless_exact_fragment_producer fragment =
     (if fragment = [] then None else Some (try_parse_caseless_exact_fragment (map to_lower_case fragment)))"

definition to_lower :: "string producer \<Rightarrow> string producer" where
  "to_lower p = transformed_value_producer p (map to_lower_case)"

definition just :: "'a producer \<Rightarrow> 'b \<Rightarrow> 'b producer" where
  "just p v = transformed_value_producer p (\<lambda>_. v)"

section \<open>Numbers\<close>

text \<open>
  A value of the type \<^verbatim>\<open>T\<close> and of its unsigned \<^verbatim>\<open>storage_type\<close> is the word of its bits; whether
  \<^verbatim>\<open>T\<close> is signed is an argument.  An intermediate result of a \<^verbatim>\<open>storage_type\<close> narrower than
  \<^verbatim>\<open>int\<close> is computed in \<^verbatim>\<open>int\<close> and converted, which is the word operation as well.
\<close>

record 'a accumulator =
  acc_current :: 'a
  acc_overflow_detected :: bool

definition acc_init :: "('w :: len) word accumulator" where
  "acc_init = \<lparr>acc_current = 0, acc_overflow_detected = False\<rparr>"

definition positive_extremum :: "bool \<Rightarrow> ('w :: len) word" where
  "positive_extremum is_signed = (if is_signed then word_of_nat (2 ^ (LENGTH('w) - 1) - 1) else - 1)"

definition negative_extremum :: "('w :: len) word" where
  "negative_extremum = word_of_nat (2 ^ (LENGTH('w) - 1))"

definition is_greater_than_maximum :: "bool \<Rightarrow> ('w :: len) word \<Rightarrow> 'w word \<Rightarrow> bool" where
  "is_greater_than_maximum is_signed v maximum \<longleftrightarrow> (if is_signed then maximum < v else False)"

definition next_digit ::
    "bool \<Rightarrow> nat \<Rightarrow> ('w :: len) word \<Rightarrow> 'w word \<Rightarrow> 'w word accumulator \<Rightarrow> 'w word accumulator" where
  "next_digit is_signed multiplier extremum d acc =
     (let updated_value = acc_current acc * word_of_nat multiplier + d in
      if updated_value < acc_current acc \<or> is_greater_than_maximum is_signed updated_value extremum
      then acc\<lparr>acc_overflow_detected := True\<rparr>
      else acc\<lparr>acc_current := updated_value\<rparr>)"

text \<open>\<^verbatim>\<open>digits_to_consume_t\<close>, whose counters are 8-bit signed integers.\<close>

record digits_to_consume =
  dl_min :: u8
  dl_max :: u8

definition expected_digits :: "u8 \<Rightarrow> u8 \<Rightarrow> digits_to_consume" where
  "expected_digits mn mx = \<lparr>dl_min = mn, dl_max = mx\<rparr>"

definition unlimited_max :: u8 where
  "unlimited_max = 127"

definition from_one_to_max :: digits_to_consume where
  "from_one_to_max = \<lparr>dl_min = 1, dl_max = unlimited_max\<rparr>"

function digits_loop ::
    "(char \<Rightarrow> ('w :: len) word option) \<Rightarrow> ('w word \<Rightarrow> 'w word accumulator \<Rightarrow> 'w word accumulator) \<Rightarrow> u8 \<Rightarrow> u8 \<Rightarrow>
     source \<Rightarrow> 'w word accumulator \<Rightarrow> source + u8 \<times> source \<times> 'w word accumulator" where
  "digits_loop to_digit add mx symbols_processed s acc =
     (case getch s of
        (None, s') \<Rightarrow> Inr (symbols_processed, s', acc)
      | (Some ch, s') \<Rightarrow>
          (case to_digit ch of
             None \<Rightarrow> Inr (symbols_processed, putback s', acc)
           | Some d \<Rightarrow>
               (let acc' = add d acc in
                if acc_overflow_detected acc' then Inl s'
                else if symbols_processed + 1 = mx then Inr (symbols_processed + 1, s', acc')
                else digits_loop to_digit add mx (symbols_processed + 1) s' acc')))"
  by pat_completeness auto
termination
  by (relation "measure (\<lambda>(_, _, _, _, s, _). length (src_data s) - src_index s)")
     (auto simp: getch_def split: if_splits)

declare digits_loop.simps [simp del]

definition finish_digits ::
    "digits_to_consume \<Rightarrow> source \<Rightarrow> source + u8 \<times> source \<times> ('w :: len) word accumulator \<Rightarrow>
     (parse_error + 'w word) \<times> source" where
  "finish_digits digits_limit s r =
     (case r of
        Inl s' \<Rightarrow> (Inl (parse_error_at (src_index s) illegal_value_found), backto (src_index s) s')
      | Inr (symbols_processed, s', acc) \<Rightarrow>
          (if sint symbols_processed < sint (dl_min digits_limit)
           then (Inl (parse_error_at (src_index s') pattern_not_found), backto (src_index s) s')
           else (Inr (acc_current acc), s')))"

definition decimal_digit :: "char \<Rightarrow> ('w :: len) word option" where
  "decimal_digit ch =
     (if is_digit ch then Some (word_of_nat (of_char ch - of_char CHR ''0'')) else None)"

definition ch_to_digit :: "char \<Rightarrow> ('w :: len) word option" where
  "ch_to_digit ch =
     (if (of_char CHR ''0'' :: nat) \<le> of_char ch \<and> (of_char ch :: nat) \<le> of_char CHR ''9''
      then Some (word_of_nat (of_char ch - of_char CHR ''0''))
      else if (of_char CHR ''A'' :: nat) \<le> of_char ch \<and> (of_char ch :: nat) \<le> of_char CHR ''F''
      then Some (word_of_nat (10 + (of_char ch - of_char CHR ''A'')))
      else if (of_char CHR ''a'' :: nat) \<le> of_char ch \<and> (of_char ch :: nat) \<le> of_char CHR ''f''
      then Some (word_of_nat (10 + (of_char ch - of_char CHR ''a'')))
      else None)"

definition try_parse_digits_with_digits_limit ::
    "digits_to_consume \<Rightarrow> (('w :: len) word \<Rightarrow> 'w word accumulator \<Rightarrow> 'w word accumulator) \<Rightarrow> 'w word producer" where
  "try_parse_digits_with_digits_limit digits_limit add s =
     finish_digits digits_limit s (digits_loop decimal_digit add (dl_max digits_limit) 0 s acc_init)"

definition try_parse_hexdigits_with_digits_limit ::
    "digits_to_consume \<Rightarrow> (('w :: len) word \<Rightarrow> 'w word accumulator \<Rightarrow> 'w word accumulator) \<Rightarrow> 'w word producer" where
  "try_parse_hexdigits_with_digits_limit digits_limit add s =
     finish_digits digits_limit s (digits_loop ch_to_digit add (dl_max digits_limit) 0 s acc_init)"

definition non_negative_decimal_number_p :: "bool \<Rightarrow> digits_to_consume \<Rightarrow> ('w :: len) word producer" where
  "non_negative_decimal_number_p is_signed digits_limit =
     try_parse_digits_with_digits_limit digits_limit (next_digit is_signed 10 (positive_extremum is_signed))"

definition hexadecimal_number_p :: "digits_to_consume \<Rightarrow> ('w :: len) word producer" where
  "hexadecimal_number_p digits_limit =
     try_parse_hexdigits_with_digits_limit digits_limit (next_digit False 16 (positive_extremum False))"

text \<open>
  \<^verbatim>\<open>decimal_number_p\<close>, for signed types.  The expression \<^verbatim>\<open>-(*r)\<close> is computed in \<^verbatim>\<open>int\<close> for a
  narrower type and cast back, which is the negation of the word.  For a type as wide as \<^verbatim>\<open>int\<close> (32
  bits) or wider the negation of the least value is a signed overflow, which C++ gives no meaning: the
  value is then \<^verbatim>\<open>Signed_overflow\<close> and nothing is claimed of what the program does with it.
\<close>

datatype 'a evaluated = Defined 'a | Signed_overflow

definition negated :: "('w :: len) word \<Rightarrow> 'w word evaluated" where
  "negated r =
     (if 32 \<le> LENGTH('w) \<and> r = negative_extremum then Signed_overflow else Defined (- r))"

definition try_parse_with_this_first_symbol ::
    "digits_to_consume \<Rightarrow> source \<Rightarrow> char \<Rightarrow> (parse_error + ('w :: len) word evaluated) \<times> source" where
  "try_parse_with_this_first_symbol digits_limit s first_symbol =
     (if first_symbol = CHR ''-'' then
        (case try_parse_digits_with_digits_limit digits_limit (next_digit True 10 negative_extremum) s of
           (Inr r, s') \<Rightarrow> (Inr (negated r), s')
         | (Inl e, s') \<Rightarrow> (Inl e, s'))
      else if first_symbol = CHR ''+'' then
        (case try_parse_digits_with_digits_limit digits_limit (next_digit True 10 (positive_extremum True)) s of
           (Inr r, s') \<Rightarrow> (Inr (Defined r), s')
         | (Inl e, s') \<Rightarrow> (Inl e, s'))
      else if is_digit first_symbol then
        (case try_parse_digits_with_digits_limit digits_limit (next_digit True 10 (positive_extremum True)) (putback s) of
           (Inr r, s') \<Rightarrow> (Inr (Defined r), s')
         | (Inl e, s') \<Rightarrow> (Inl e, s'))
      else (Inl (parse_error_at (src_index s) pattern_not_found), s))"

definition decimal_number_p :: "digits_to_consume \<Rightarrow> ('w :: len) word evaluated producer" where
  "decimal_number_p digits_limit s =
     (case getch s of
        (Some sign_ch, s') \<Rightarrow>
          (case try_parse_with_this_first_symbol digits_limit s' sign_ch of
             (Inr r, s'') \<Rightarrow> (Inr r, s'')
           | (Inl e, s'') \<Rightarrow> (Inl e, backto (src_index s) s''))
      | (None, s') \<Rightarrow> (Inl (parse_error_at (src_index s') pattern_not_found), backto (src_index s) s'))"

section \<open>The whole input\<close>

fun trailing_spaces_start :: "string \<Rightarrow> nat \<Rightarrow> nat" where
  "trailing_spaces_start from 0 = 0"
| "trailing_spaces_start from (Suc s) =
     (if is_space (from ! s) then trailing_spaces_start from s else Suc s)"

definition remove_trailing_spaces :: "string \<Rightarrow> string" where
  "remove_trailing_spaces from = take (trailing_spaces_start from (length from)) from"

function ensure_no_remaining_content :: "source \<Rightarrow> parse_error option" where
  "ensure_no_remaining_content s =
     (case getch s of
        (None, s') \<Rightarrow> None
      | (Some ch, s') \<Rightarrow>
          (if \<not> is_space ch then Some (parse_error_at (src_index (putback s')) unconsumed_input)
           else ensure_no_remaining_content s'))"
  by pat_completeness auto
termination
  by (relation "measure (\<lambda>s. length (src_data s) - src_index s)") (auto simp: getch_def split: if_splits)

declare ensure_no_remaining_content.simps [simp del]

definition try_parse :: "string \<Rightarrow> 'a producer \<Rightarrow> parse_error + 'a" where
  "try_parse from p =
     (case p (make_source (remove_trailing_spaces from)) of
        (Inr v, s) \<Rightarrow>
          (case ensure_no_remaining_content s of Some e \<Rightarrow> Inl e | None \<Rightarrow> Inr v)
      | (Inl e, s) \<Rightarrow> Inl e)"

section \<open>Grammar operators\<close>

text \<open>
  What a clause does is described on the rest of the input alone: it matches, leaving a shorter rest and a
  new target, or it misses, with a flag that says whether the miss is that of a forced alternative and the
  target it leaves behind.
\<close>

datatype 't outcome = Match string 't | Miss bool 't

datatype 'a value_outcome = Value string 'a | NoValue bool

type_synonym 't grammar = "string \<Rightarrow> 't \<Rightarrow> 't outcome"
type_synonym 'a value_grammar = "string \<Rightarrow> 'a value_outcome"

fun peg_all :: "'t grammar list \<Rightarrow> 't grammar" where
  "peg_all [] r t = Match r t"
| "peg_all (g # gs) r t = (case g r t of Match r' t' \<Rightarrow> peg_all gs r' t' | Miss b t' \<Rightarrow> Miss b t')"

definition peg_sequence :: "'t grammar list \<Rightarrow> 't grammar" where
  "peg_sequence gs r t = (case peg_all gs r t of Match r' t' \<Rightarrow> Match r' t' | Miss b _ \<Rightarrow> Miss b t)"

fun peg_choice :: "'t grammar list \<Rightarrow> 't grammar" where
  "peg_choice [] r t = Miss False t"
| "peg_choice (g # gs) r t =
     (case g r t of Match r' t' \<Rightarrow> Match r' t' | Miss b _ \<Rightarrow> if b then Miss False t else peg_choice gs r t)"

definition peg_option :: "'t grammar list \<Rightarrow> 't grammar" where
  "peg_option gs r t = (case peg_all gs r t of Match r' t' \<Rightarrow> Match r' t' | Miss _ _ \<Rightarrow> Match r t)"

definition peg_not :: "'t \<Rightarrow> 't grammar list \<Rightarrow> 't grammar" where
  "peg_not d gs r t = (case peg_all gs r d of Match _ _ \<Rightarrow> Miss False t | Miss _ _ \<Rightarrow> Match r t)"

definition peg_and :: "'t \<Rightarrow> 't grammar list \<Rightarrow> 't grammar" where
  "peg_and d gs r t = (case peg_all gs r d of Match _ _ \<Rightarrow> Match r t | Miss _ _ \<Rightarrow> Miss False t)"

definition peg_forced :: "'t grammar list \<Rightarrow> 't grammar" where
  "peg_forced gs r t = (case peg_all gs r t of Match r' t' \<Rightarrow> Match r' t' | Miss _ _ \<Rightarrow> Miss True t)"

fun peg_loop :: "'t grammar list \<Rightarrow> nat \<Rightarrow> string \<Rightarrow> 't \<Rightarrow> nat \<times> string \<times> 't" where
  "peg_loop gs 0 r t = (0, r, t)"
| "peg_loop gs (Suc n) r t =
     (case peg_all gs r t of
        Match r' t' \<Rightarrow> (case peg_loop gs n r' t' of (k, r'', t'') \<Rightarrow> (Suc k, r'', t''))
      | Miss _ t' \<Rightarrow> (0, r, t'))"

definition peg_repeat :: "nat \<Rightarrow> nat \<Rightarrow> 't grammar list \<Rightarrow> 't grammar" where
  "peg_repeat mn mx gs r t = (case peg_loop gs mx r t of (k, r', t') \<Rightarrow> if mn \<le> k then Match r' t' else Miss False t')"

definition peg_consume :: "'a value_grammar \<Rightarrow> ('t, 'a) consumer \<Rightarrow> 't grammar" where
  "peg_consume g f r t = (case g r of Value r' v \<Rightarrow> Match r' (f t v) | NoValue b \<Rightarrow> Miss b t)"

definition peg_produce :: "'t \<Rightarrow> 't grammar list \<Rightarrow> 't value_grammar" where
  "peg_produce d gs r = (case peg_all gs r d of Match r' t' \<Rightarrow> Value r' t' | Miss b _ \<Rightarrow> NoValue b)"

definition peg_map :: "'a value_grammar \<Rightarrow> ('a \<Rightarrow> 'b) \<Rightarrow> 'b value_grammar" where
  "peg_map g f r = (case g r of Value r' v \<Rightarrow> Value r' (f v) | NoValue b \<Rightarrow> NoValue b)"

definition peg_char :: "(char \<Rightarrow> bool) \<Rightarrow> char value_grammar" where
  "peg_char P r = (case r of [] \<Rightarrow> NoValue False | c # r' \<Rightarrow> if P c then Value r' c else NoValue False)"

subsection \<open>Refinement\<close>

definition rest :: "source \<Rightarrow> string" where
  "rest s = drop (src_index s) (src_data s)"

definition src_ok :: "source \<Rightarrow> bool" where
  "src_ok s \<longleftrightarrow> src_index s \<le> length (src_data s)"

definition same_input :: "source \<Rightarrow> source \<Rightarrow> bool" where
  "same_input s s' \<longleftrightarrow> src_data s' = src_data s \<and> src_ok s'"

definition advanced :: "source \<Rightarrow> string \<Rightarrow> source" where
  "advanced s r = s\<lparr>src_index := length (src_data s) - length r\<rparr>"

definition forced_error :: "parse_error \<Rightarrow> bool" where
  "forced_error e \<longleftrightarrow> pe_reason e = force_only_this_alternative_failed"

fun outcome_at :: "source \<Rightarrow> 't outcome \<Rightarrow> parse_error option \<times> source \<times> 't \<Rightarrow> bool" where
  "outcome_at s (Match r t) res \<longleftrightarrow> suffix r (rest s) \<and> res = (None, advanced s r, t)"
| "outcome_at s (Miss b t) res \<longleftrightarrow>
     (\<exists>e s'. res = (Some e, s', t) \<and> same_input s s' \<and> forced_error e = b)"

fun value_outcome_at :: "source \<Rightarrow> 'a value_outcome \<Rightarrow> (parse_error + 'a) \<times> source \<Rightarrow> bool" where
  "value_outcome_at s (Value r v) res \<longleftrightarrow> suffix r (rest s) \<and> res = (Inr v, advanced s r)"
| "value_outcome_at s (NoValue b) res \<longleftrightarrow>
     (\<exists>e s'. res = (Inl e, s') \<and> same_input s s' \<and> forced_error e = b)"

definition refines :: "'t clause \<Rightarrow> 't grammar \<Rightarrow> bool" where
  "refines c g \<longleftrightarrow> (\<forall>s t. src_ok s \<longrightarrow> outcome_at s (g (rest s) t) (c s t))"

definition produces :: "'a producer \<Rightarrow> 'a value_grammar \<Rightarrow> bool" where
  "produces p g \<longleftrightarrow> (\<forall>s. src_ok s \<longrightarrow> value_outcome_at s (g (rest s)) (p s))"

text \<open>
  A miss alone does not say where the input stands: a list of clauses that fails half way, and with it
  \<^verbatim>\<open>produce\<close>, leaves it where the failing clause did.  The clauses that hold a
  \<^verbatim>\<open>content_consumer_t\<close> put it back where they started.
\<close>

definition restores :: "'t clause \<Rightarrow> bool" where
  "restores c \<longleftrightarrow> (\<forall>s t e s' t'. src_ok s \<longrightarrow> c s t = (Some e, s', t') \<longrightarrow> s' = s)"

lemma refinesD: "refines c g \<Longrightarrow> src_ok s \<Longrightarrow> outcome_at s (g (rest s) t) (c s t)"
  by (simp add: refines_def)

lemma producesD: "produces p g \<Longrightarrow> src_ok s \<Longrightarrow> value_outcome_at s (g (rest s)) (p s)"
  by (simp add: produces_def)

text \<open>Moving along the input.\<close>

lemma same_input_refl: "src_ok s \<Longrightarrow> same_input s s"
  by (simp add: same_input_def)

lemma same_input_trans: "same_input s s' \<Longrightarrow> same_input s' s'' \<Longrightarrow> same_input s s''"
  by (simp add: same_input_def)

lemma suffix_rest_length: "src_ok s \<Longrightarrow> suffix r (rest s) \<Longrightarrow> length r \<le> length (src_data s) - src_index s"
  by (drule suffix_length_le) (simp add: rest_def)

lemma src_ok_advanced [simp]: "src_ok (advanced s r)"
  by (simp add: src_ok_def advanced_def)

lemma src_data_advanced [simp]: "src_data (advanced s r) = src_data s"
  by (simp add: advanced_def)

lemma same_input_advanced: "same_input s (advanced s r)"
  by (simp add: same_input_def)

lemma rest_advanced:
  assumes "suffix r (rest s)"
  shows "rest (advanced s r) = r"
proof -
  obtain pre where "rest s = pre @ r"
    using assms by (auto simp: suffix_def)
  then have "src_data s = take (src_index s) (src_data s) @ pre @ r"
    unfolding rest_def by (metis append_take_drop_id)
  then have "drop (length (src_data s) - length r) (src_data s) = r"
    by (metis append.assoc append_eq_conv_conj length_append add_diff_cancel_right')
  then show ?thesis
    by (simp add: rest_def advanced_def)
qed

lemma advanced_advanced [simp]: "advanced (advanced s r) r' = advanced s r'"
  by (simp add: advanced_def)

lemma advanced_rest: "src_ok s \<Longrightarrow> advanced s (rest s) = s"
  by (cases s) (simp add: advanced_def rest_def src_ok_def)

lemma backto_same_input: "same_input s s' \<Longrightarrow> src_ok s \<Longrightarrow> backto (src_index s) s' = s"
  by (cases s; cases s') (simp add: backto_def same_input_def src_ok_def)

lemma backto_advanced [simp]: "src_ok s \<Longrightarrow> backto (src_index s) (advanced s r) = s"
  by (rule backto_same_input[OF same_input_advanced])

lemma forced_error_at [simp]: "forced_error (parse_error_at p r) \<longleftrightarrow> r = force_only_this_alternative_failed"
  by (simp add: forced_error_def parse_error_at_def)

lemma rest_empty_iff: "rest s = [] \<longleftrightarrow> length (src_data s) \<le> src_index s"
  by (simp add: rest_def)

lemma getch_rest:
  assumes "src_ok s"
  shows "getch s = (case rest s of [] \<Rightarrow> (None, s) | c # r \<Rightarrow> (Some c, advanced s r))"
proof (cases "rest s")
  case Nil
  then have "\<not> src_index s < length (src_data s)" by (simp add: rest_empty_iff)
  with Nil show ?thesis by (simp add: getch_def)
next
  case (Cons c r)
  then have lt: "src_index s < length (src_data s)"
    by (metis leI list.distinct(1) rest_empty_iff)
  have "rest s = src_data s ! src_index s # drop (Suc (src_index s)) (src_data s)"
    unfolding rest_def by (rule Cons_nth_drop_Suc[OF lt, symmetric])
  with Cons have c: "c = src_data s ! src_index s" and r: "r = drop (Suc (src_index s)) (src_data s)"
    by simp_all
  from lt have "advanced s r = s\<lparr>src_index := src_index s + 1\<rparr>"
    by (simp add: advanced_def r)
  with Cons lt c show ?thesis by (simp add: getch_def)
qed

lemma putback_advanced:
  assumes "src_ok s" and "rest s = c # r"
  shows "putback (advanced s r) = s"
proof -
  have "length (c # r) = length (src_data s) - src_index s"
    using assms(2) by (metis length_drop rest_def)
  with assms(1) show ?thesis
    by (cases s) (auto simp: putback_def advanced_def src_ok_def)
qed

subsection \<open>The combinators refine the grammar operators\<close>

lemma consume_value_clause_refines:
  "produces p g \<Longrightarrow> refines (consume_value_clause p f) (peg_consume g f)"
  unfolding refines_def
proof (intro allI impI)
  fix s t assume p: "produces p g" and s: "src_ok s"
  show "outcome_at s (peg_consume g f (rest s) t) (consume_value_clause p f s t)"
    using producesD[OF p s] by (cases "g (rest s)") (auto simp: peg_consume_def consume_value_clause_def)
qed

lemma transformed_value_producer_produces:
  "produces p g \<Longrightarrow> produces (transformed_value_producer p f) (peg_map g f)"
  unfolding produces_def
proof (intro allI impI)
  fix s assume p: "\<forall>s. src_ok s \<longrightarrow> value_outcome_at s (g (rest s)) (p s)" and s: "src_ok s"
  show "value_outcome_at s (peg_map g f (rest s)) (transformed_value_producer p f s)"
    using p[rule_format, OF s] by (cases "g (rest s)") (auto simp: peg_map_def transformed_value_producer_def)
qed

lemma outcome_at_advanced:
  assumes "suffix r (rest s)" and "outcome_at (advanced s r) out res"
  shows "outcome_at s out res"
proof (cases out)
  case (Match r' t)
  with assms show ?thesis
    by (auto simp: rest_advanced intro: suffix_order.order_trans)
next
  case (Miss b t)
  with assms(2) show ?thesis
    by (auto intro: same_input_trans[OF same_input_advanced])
qed

lemma all_of_clauses_refines:
  "list_all2 refines cs gs \<Longrightarrow> refines (all_of_clauses cs) (peg_all gs)"
proof (induction rule: list_all2_induct)
  case Nil
  then show ?case by (simp add: refines_def advanced_rest)
next
  case (Cons c cs g gs)
  show ?case
    unfolding refines_def
  proof (intro allI impI)
    fix s t assume s: "src_ok s"
    show "outcome_at s (peg_all (g # gs) (rest s) t) (all_of_clauses (c # cs) s t)"
    proof (cases "g (rest s) t")
      case (Match r' t')
      with refinesD[OF Cons(1) s, of t] have r': "suffix r' (rest s)"
        and c: "c s t = (None, advanced s r', t')" by auto
      have "outcome_at (advanced s r') (peg_all gs r' t') (all_of_clauses cs (advanced s r') t')"
        using refinesD[OF Cons(3), of "advanced s r'" t'] by (simp add: rest_advanced[OF r'])
      with Match c show ?thesis by (simp add: outcome_at_advanced[OF r'])
    next
      case (Miss b t')
      with refinesD[OF Cons(1) s, of t] show ?thesis by auto
    qed
  qed
qed

lemmas all_of_at = refinesD[OF all_of_clauses_refines]

lemma sequence_refines:
  assumes "list_all2 refines cs gs"
  shows "refines (sequence_clause cs) (peg_sequence gs)"
  unfolding refines_def
proof (intro allI impI)
  fix s t assume s: "src_ok s"
  show "outcome_at s (peg_sequence gs (rest s) t) (sequence_clause cs s t)"
    using all_of_at[OF assms s, of t]
    by (cases "peg_all gs (rest s) t")
       (auto simp: peg_sequence_def sequence_clause_def backto_same_input[OF _ s] same_input_refl[OF s])
qed

lemma force_only_this_alternative_refines:
  assumes "list_all2 refines cs gs"
  shows "refines (force_only_this_alternative cs) (peg_forced gs)"
  unfolding refines_def
proof (intro allI impI)
  fix s t assume s: "src_ok s"
  show "outcome_at s (peg_forced gs (rest s) t) (force_only_this_alternative cs s t)"
    using refinesD[OF sequence_refines[OF assms] s, of t]
    by (cases "peg_all gs (rest s) t")
       (auto simp: peg_sequence_def peg_forced_def force_only_this_alternative_def)
qed

lemma maybe_refines:
  assumes "list_all2 refines cs gs"
  shows "refines (maybe cs) (peg_option gs)"
  unfolding refines_def
proof (intro allI impI)
  fix s t assume s: "src_ok s"
  show "outcome_at s (peg_option gs (rest s) t) (maybe cs s t)"
    using all_of_at[OF assms s, of t]
    by (cases "peg_all gs (rest s) t")
       (auto simp: peg_option_def maybe_def backto_same_input[OF _ s] advanced_rest[OF s])
qed

lemma not_clause_refines:
  assumes "list_all2 refines cs gs"
  shows "refines (not_clause d cs) (peg_not d gs)"
  unfolding refines_def
proof (intro allI impI)
  fix s t assume s: "src_ok s"
  show "outcome_at s (peg_not d gs (rest s) t) (not_clause d cs s t)"
    using all_of_at[OF assms s, of d]
    by (cases "peg_all gs (rest s) d")
       (auto simp: peg_not_def not_clause_def backto_same_input[OF _ s] advanced_rest[OF s] s same_input_refl[OF s])
qed

lemma and_clause_refines:
  assumes "list_all2 refines cs gs"
  shows "refines (and_clause d cs) (peg_and d gs)"
  unfolding refines_def
proof (intro allI impI)
  fix s t assume s: "src_ok s"
  show "outcome_at s (peg_and d gs (rest s) t) (and_clause d cs s t)"
    using all_of_at[OF assms s, of d]
    by (cases "peg_all gs (rest s) d")
       (auto simp: peg_and_def and_clause_def backto_same_input[OF _ s] advanced_rest[OF s] s same_input_refl[OF s])
qed

lemma produce_produces:
  assumes "list_all2 refines cs gs"
  shows "produces (produce d cs) (peg_produce d gs)"
  unfolding produces_def
proof (intro allI impI)
  fix s assume s: "src_ok s"
  show "value_outcome_at s (peg_produce d gs (rest s)) (produce d cs s)"
    using all_of_at[OF assms s, of d]
    by (cases "peg_all gs (rest s) d") (auto simp: peg_produce_def produce_def)
qed

text \<open>The enumeration of alternatives, on the state of \<^verbatim>\<open>any_of\<close>.\<close>

lemma any_of_alternatives_refines:
  assumes "list_all2 refines cs gs" and s: "src_ok s"
  shows "case peg_choice gs (rest s) t of
           Match r t' \<Rightarrow> suffix r (rest s) \<and> any_of_alternatives cs err s t = (True, None, advanced s r, t')
         | Miss b t' \<Rightarrow> \<not> b \<and> t' = t \<and>
             (\<exists>ok e. any_of_alternatives cs err s t = (ok, e, s, t) \<and> (ok \<longrightarrow> e \<noteq> None))"
  using assms(1)
proof (induction arbitrary: err rule: list_all2_induct)
  case Nil
  then show ?case by auto
next
  case (Cons c cs g gs)
  show ?case
  proof (cases "g (rest s) t")
    case (Match r' t')
    with refinesD[OF Cons(1) s, of t] show ?thesis by auto
  next
    case (Miss b t')
    with refinesD[OF Cons(1) s, of t] obtain e s' where c: "c s t = (Some e, s', t')"
      and s': "same_input s s'" and b: "forced_error e = b" by auto
    show ?thesis
      using Cons(3)[of "Some e"] Miss c b backto_same_input[OF s' s]
      by (auto simp: forced_error_def Let_def split: outcome.splits if_splits)
  qed
qed

lemma alternatives_refines:
  assumes "list_all2 refines cs gs"
  shows "refines (alternatives cs) (peg_choice gs)"
  unfolding refines_def
proof (intro allI impI)
  fix s t assume s: "src_ok s"
  show "outcome_at s (peg_choice gs (rest s) t) (alternatives cs s t)"
    using any_of_alternatives_refines[OF assms s, where t = t and err = None]
    by (cases "peg_choice gs (rest s) t") (auto simp: alternatives_def same_input_refl[OF s])
qed

lemma repeat_loop_refines:
  assumes "list_all2 refines cs gs"
  shows "src_ok s \<Longrightarrow> peg_loop gs n (rest s) t = (k, r, t') \<Longrightarrow>
    suffix r (rest s) \<and> repeat_loop cs (count + n) count s t = (count + k, advanced s r, t')"
proof (induction n arbitrary: s t k r t' count)
  case 0
  then show ?case by (auto simp: repeat_loop.simps[of cs count] advanced_rest)
next
  case (Suc n)
  note at = all_of_at[OF assms Suc.prems(1), of t]
  show ?case
  proof (cases "peg_all gs (rest s) t")
    case (Match r1 t1)
    with at have r1: "suffix r1 (rest s)" and c: "all_of_clauses cs s t = (None, advanced s r1, t1)" by auto
    obtain k' where k: "k = Suc k'" and l: "peg_loop gs n r1 t1 = (k', r, t')"
      using Suc.prems(2) Match by (auto split: prod.splits)
    have "suffix r r1 \<and> repeat_loop cs (Suc count + n) (Suc count) (advanced s r1) t1 = (Suc count + k', advanced s r, t')"
      using Suc.IH[of "advanced s r1" t1 k' r t' "Suc count"] l by (simp add: rest_advanced[OF r1])
    with r1 c k show ?thesis
      by (subst repeat_loop.simps) (auto intro: suffix_order.order_trans)
  next
    case (Miss b t1)
    with at obtain e s' where "all_of_clauses cs s t = (Some e, s', t1)" and s': "same_input s s'" by auto
    with Suc.prems Miss show ?thesis
      by (subst repeat_loop.simps) (auto simp: backto_same_input[OF s'] advanced_rest)
  qed
qed

lemma repeat_refines:
  assumes "list_all2 refines cs gs"
  shows "refines (repeat_clause mn mx cs) (peg_repeat mn mx gs)"
  unfolding refines_def
proof (intro allI impI)
  fix s t assume s: "src_ok s"
  obtain k r t' where l: "peg_loop gs mx (rest s) t = (k, r, t')" by (cases "peg_loop gs mx (rest s) t")
  with repeat_loop_refines[OF assms s l, of 0]
  show "outcome_at s (peg_repeat mn mx gs (rest s) t) (repeat_clause mn mx cs s t)"
    by (auto simp: peg_repeat_def repeat_clause_def s same_input_refl[OF s])
qed

text \<open>Which clauses give back the input when they fail.\<close>

lemma restoresI: "(\<And>s t e s' t'. src_ok s \<Longrightarrow> c s t = (Some e, s', t') \<Longrightarrow> s' = s) \<Longrightarrow> restores c"
  by (simp add: restores_def)

lemma restoresD: "restores c \<Longrightarrow> src_ok s \<Longrightarrow> c s t = (Some e, s', t') \<Longrightarrow> s' = s"
  unfolding restores_def by blast

lemma all_of_backto:
  assumes "list_all2 refines cs gs" and "src_ok s" and "all_of_clauses cs s t = (e, s', t')"
  shows "backto (src_index s) s' = s"
  using all_of_at[OF assms(1,2), of t] assms(2,3)
  by (cases "peg_all gs (rest s) t") (auto simp: backto_same_input)

lemma sequence_restores: "list_all2 refines cs gs \<Longrightarrow> restores (sequence_clause cs)"
  by (rule restoresI) (auto simp: sequence_clause_def all_of_backto split: prod.splits option.splits)

lemma look_ahead_restores:
  "list_all2 refines cs gs \<Longrightarrow> restores (not_clause d cs)" "list_all2 refines cs gs \<Longrightarrow> restores (and_clause d cs)"
  by (rule restoresI; auto simp: not_clause_def and_clause_def all_of_backto split: prod.splits option.splits)+

lemma force_only_this_alternative_restores:
  "list_all2 refines cs gs \<Longrightarrow> restores (force_only_this_alternative cs)"
  by (rule restoresI)
     (auto simp: force_only_this_alternative_def dest: restoresD[OF sequence_restores] split: prod.splits option.splits)

lemma alternatives_restores:
  assumes "list_all2 refines cs gs"
  shows "restores (alternatives cs)"
proof (rule restoresI)
  fix s t e s' t' assume s: "src_ok s" and "alternatives cs s t = (Some e, s', t')"
  with any_of_alternatives_refines[OF assms s, where t = t and err = None] show "s' = s"
    by (cases "peg_choice gs (rest s) t") (auto simp: alternatives_def split: if_splits)
qed

lemma repeat_restores:
  assumes "list_all2 refines cs gs"
  shows "restores (repeat_clause mn mx cs)"
proof (rule restoresI)
  fix s t e s' t' assume s: "src_ok s" and r: "repeat_clause mn mx cs s t = (Some e, s', t')"
  obtain k r t'' where l: "peg_loop gs mx (rest s) t = (k, r, t'')" by (cases "peg_loop gs mx (rest s) t")
  with repeat_loop_refines[OF assms s l, of 0] r show "s' = s"
    by (auto simp: repeat_clause_def s split: if_splits)
qed

lemmas clauses_restore = sequence_restores look_ahead_restores force_only_this_alternative_restores
  alternatives_restores repeat_restores

lemma symbol_producer_produces: "produces (symbol_producer_template P) (peg_char P)"
  unfolding produces_def
proof (intro allI impI)
  fix s assume s: "src_ok s"
  show "value_outcome_at s (peg_char P (rest s)) (symbol_producer_template P s)"
    by (cases "rest s")
       (auto simp: peg_char_def symbol_producer_template_def getch_rest[OF s] putback_advanced[OF s]
             same_input_refl[OF s] suffix_Cons Let_def)
qed

subsection \<open>The grammar of a parser\<close>

text \<open>
  A clause or producer is regular when it depends on the rest of the input only; then its behaviour
  on a stream of its own is its grammar.  The rules in \<open>peg\<close> compute the grammar of a parser built
  from the combinators and show it regular.
\<close>

named_theorems peg

definition clause_grammar :: "'t clause \<Rightarrow> 't grammar" where
  "clause_grammar c r t =
     (case c (make_source r) t of
        (None, s', t') \<Rightarrow> Match (rest s') t'
      | (Some e, s', t') \<Rightarrow> Miss (forced_error e) t')"

definition producer_grammar :: "'a producer \<Rightarrow> 'a value_grammar" where
  "producer_grammar p r =
     (case p (make_source r) of
        (Inr v, s') \<Rightarrow> Value (rest s') v
      | (Inl e, s') \<Rightarrow> NoValue (forced_error e))"

definition regular :: "'t clause \<Rightarrow> bool" where
  "regular c \<longleftrightarrow> refines c (clause_grammar c)"

definition regular_p :: "'a producer \<Rightarrow> bool" where
  "regular_p p \<longleftrightarrow> produces p (producer_grammar p)"

lemma make_source_simps [simp]: "src_ok (make_source r)" "rest (make_source r) = r"
  by (simp_all add: make_source_def src_ok_def rest_def)

lemma clause_grammar_unique: "refines c g \<Longrightarrow> clause_grammar c = g"
proof (intro ext)
  fix r t assume "refines c g"
  then have "outcome_at (make_source r) (g r t) (c (make_source r) t)"
    using refinesD[of c g "make_source r"] by simp
  then show "clause_grammar c r t = g r t"
    by (cases "g r t") (auto simp: clause_grammar_def rest_advanced)
qed

lemma producer_grammar_unique: "produces p g \<Longrightarrow> producer_grammar p = g"
proof (intro ext)
  fix r assume "produces p g"
  then have "value_outcome_at (make_source r) (g r) (p (make_source r))"
    using producesD[of p g "make_source r"] by simp
  then show "producer_grammar p r = g r"
    by (cases "g r") (auto simp: producer_grammar_def rest_advanced)
qed

lemma refines_regular: "refines c g \<Longrightarrow> regular c"
  by (simp add: regular_def clause_grammar_unique)

lemma produces_regular: "produces p g \<Longrightarrow> regular_p p"
  by (simp add: regular_p_def producer_grammar_unique)

lemma list_all2_refines: "list_all regular cs \<Longrightarrow> list_all2 refines cs (map clause_grammar cs)"
  by (induction cs) (auto simp: regular_def)

lemma peg_symbol [peg]:
  "regular_p (symbol_producer_template P)" "producer_grammar (symbol_producer_template P) = peg_char P"
  using symbol_producer_produces by (auto intro: produces_regular producer_grammar_unique)

lemma peg_consume_value [peg]:
  assumes "regular_p p"
  shows "regular (consume_value_clause p f)"
    and "clause_grammar (consume_value_clause p f) = peg_consume (producer_grammar p) f"
  using consume_value_clause_refines[of p "producer_grammar p" f] assms
  by (auto simp: regular_p_def intro: refines_regular clause_grammar_unique)

lemma peg_transformed [peg]:
  assumes "regular_p p"
  shows "regular_p (transformed_value_producer p f)"
    and "producer_grammar (transformed_value_producer p f) = peg_map (producer_grammar p) f"
  using transformed_value_producer_produces[OF assms[unfolded regular_p_def], of f]
  by (auto intro: produces_regular producer_grammar_unique)

lemma peg_clauses [peg]:
  assumes "list_all regular cs"
  shows "regular (sequence_clause cs)" "regular (alternatives cs)" "regular (maybe cs)"
    and "regular (not_clause d cs)" "regular (and_clause d cs)" "regular (force_only_this_alternative cs)"
    and "regular (repeat_clause mn mx cs)" "regular_p (produce d cs)"
    and "clause_grammar (sequence_clause cs) = peg_sequence (map clause_grammar cs)"
    and "clause_grammar (alternatives cs) = peg_choice (map clause_grammar cs)"
    and "clause_grammar (maybe cs) = peg_option (map clause_grammar cs)"
    and "clause_grammar (not_clause d cs) = peg_not d (map clause_grammar cs)"
    and "clause_grammar (and_clause d cs) = peg_and d (map clause_grammar cs)"
    and "clause_grammar (force_only_this_alternative cs) = peg_forced (map clause_grammar cs)"
    and "clause_grammar (repeat_clause mn mx cs) = peg_repeat mn mx (map clause_grammar cs)"
    and "producer_grammar (produce d cs) = peg_produce d (map clause_grammar cs)"
proof -
  note all = list_all2_refines[OF assms]
  note refs = sequence_refines[OF all] alternatives_refines[OF all] maybe_refines[OF all]
    not_clause_refines[OF all] and_clause_refines[OF all] force_only_this_alternative_refines[OF all]
    repeat_refines[OF all] 
  show "regular (sequence_clause cs)" "regular (alternatives cs)" "regular (maybe cs)"
    "regular (not_clause d cs)" "regular (and_clause d cs)" "regular (force_only_this_alternative cs)"
    "regular (repeat_clause mn mx cs)"
    by (rule refines_regular, rule refs)+
  show "clause_grammar (sequence_clause cs) = peg_sequence (map clause_grammar cs)"
    "clause_grammar (alternatives cs) = peg_choice (map clause_grammar cs)"
    "clause_grammar (maybe cs) = peg_option (map clause_grammar cs)"
    "clause_grammar (not_clause d cs) = peg_not d (map clause_grammar cs)"
    "clause_grammar (and_clause d cs) = peg_and d (map clause_grammar cs)"
    "clause_grammar (force_only_this_alternative cs) = peg_forced (map clause_grammar cs)"
    "clause_grammar (repeat_clause mn mx cs) = peg_repeat mn mx (map clause_grammar cs)"
    by (rule clause_grammar_unique, rule refs)+
  show "regular_p (produce d cs)" by (rule produces_regular[OF produce_produces[OF all]])
  show "producer_grammar (produce d cs) = peg_produce d (map clause_grammar cs)"
    by (rule producer_grammar_unique[OF produce_produces[OF all]])
qed

text \<open>A regular clause never gives back more than it was given.\<close>

lemma regular_suffix: "regular c \<Longrightarrow> clause_grammar c r t = Match r' t' \<Longrightarrow> suffix r' r"
  using refinesD[of c "clause_grammar c" "make_source r" t] by (simp add: regular_def)

lemma regular_p_suffix: "regular_p p \<Longrightarrow> producer_grammar p r = Value r' v \<Longrightarrow> suffix r' r"
  using producesD[of p "producer_grammar p" "make_source r"] by (simp add: regular_p_def)

subsection \<open>Parsing a whole text\<close>

lemma trailing_spaces_start_spec:
  "n \<le> length d \<Longrightarrow> take (trailing_spaces_start d n) d = rev (dropWhile is_space (rev (take n d)))"
  by (induction n) (auto simp: take_Suc_conv_app_nth)

lemma remove_trailing_spaces_spec: "remove_trailing_spaces d = rev (dropWhile is_space (rev d))"
  by (simp add: remove_trailing_spaces_def trailing_spaces_start_spec)

lemma remove_trailing_spaces_suffix:
  assumes "suffix r (remove_trailing_spaces d)" and "list_all is_space r"
  shows "r = []"
proof (rule ccontr)
  assume r: "r \<noteq> []"
  then have ne: "remove_trailing_spaces d \<noteq> []" and l: "last (remove_trailing_spaces d) = last r"
    using assms(1) by (auto simp: suffix_def)
  have "\<not> is_space (last (remove_trailing_spaces d))"
    using ne hd_dropWhile[of is_space "rev d"]
    by (simp add: remove_trailing_spaces_spec last_rev)
  moreover have "is_space (last r)"
    using assms(2) r by (auto simp: list_all_iff)
  ultimately show False using l by simp
qed

lemma ensure_no_remaining_content_rest:
  assumes "src_ok s"
  shows "ensure_no_remaining_content s =
    (if list_all is_space (rest s) then None
     else Some (parse_error_at (src_index s + length (takeWhile is_space (rest s))) unconsumed_input))"
  using assms
proof (induction "rest s" arbitrary: s)
  case Nil
  then show ?case
    by (subst ensure_no_remaining_content.simps) (simp add: getch_rest flip: Nil.hyps(1))
next
  case (Cons c r)
  have r: "rest (advanced s r) = r"
    by (rule rest_advanced) (simp add: Cons.hyps(2)[symmetric] suffix_Cons)
  have i: "src_index (advanced s r) = src_index s + 1"
    using Cons.prems arg_cong[OF Cons.hyps(2)[unfolded rest_def], of length]
    by (simp add: advanced_def src_ok_def)
  have g: "getch s = (Some c, advanced s r)"
    using Cons.prems by (simp add: getch_rest flip: Cons.hyps(2))
  show ?case
    using Cons.hyps(1)[OF r[symmetric]] putback_advanced[OF Cons.prems Cons.hyps(2)[symmetric]]
    by (subst ensure_no_remaining_content.simps) (simp add: g r i flip: Cons.hyps(2))
qed

lemma try_parse_grammar:
  assumes "regular_p p"
  shows "case producer_grammar p (remove_trailing_spaces d) of
      Value r v \<Rightarrow> try_parse d p =
        (if r = [] then Inr v
         else Inl (parse_error_at (length (remove_trailing_spaces d) - length (dropWhile is_space r)) unconsumed_input))
    | NoValue b \<Rightarrow> \<exists>e. try_parse d p = Inl e \<and> forced_error e = b"
proof -
  let ?d = "remove_trailing_spaces d"
  note at = producesD[OF assms[unfolded regular_p_def], of "make_source ?d"]
  show ?thesis
  proof (cases "producer_grammar p ?d")
    case (Value r v)
    with at have r: "suffix r ?d" and p: "p (make_source ?d) = (Inr v, advanced (make_source ?d) r)" by auto
    have rest: "rest (advanced (make_source ?d) r) = r" by (rule rest_advanced) (simp add: r)
    have nil: "list_all is_space r \<longleftrightarrow> r = []"
      using remove_trailing_spaces_suffix[OF r] by auto
    have "length r = length (takeWhile is_space r) + length (dropWhile is_space r)"
      by (metis length_append takeWhile_dropWhile_id)
    with suffix_length_le[OF r]
    have "src_index (advanced (make_source ?d) r) + length (takeWhile is_space r) =
        length ?d - length (dropWhile is_space r)"
      by (simp add: advanced_def make_source_def)
    with Value p show ?thesis
      by (simp add: try_parse_def ensure_no_remaining_content_rest rest nil)
  next
    case (NoValue b)
    with at show ?thesis by (auto simp: try_parse_def)
  qed
qed

lemma try_parse_ok_iff:
  assumes "regular_p p"
  shows "try_parse d p = Inr v \<longleftrightarrow> producer_grammar p (remove_trailing_spaces d) = Value [] v"
  using try_parse_grammar[OF assms, of d] by (auto split: value_outcome.splits if_splits)

section \<open>Numbers are read exactly when they fit\<close>

fun peg_digits ::
    "(char \<Rightarrow> ('w :: len) word option) \<Rightarrow> ('w word \<Rightarrow> 'w word accumulator \<Rightarrow> 'w word accumulator) \<Rightarrow> u8 \<Rightarrow> u8 \<Rightarrow>
     string \<Rightarrow> 'w word accumulator \<Rightarrow> (u8 \<times> string \<times> 'w word accumulator) option" where
  "peg_digits to_digit add mx n [] acc = Some (n, [], acc)"
| "peg_digits to_digit add mx n (c # r) acc =
     (case to_digit c of
        None \<Rightarrow> Some (n, c # r, acc)
      | Some d \<Rightarrow>
          if acc_overflow_detected (add d acc) then None
          else if n + 1 = mx then Some (n + 1, r, add d acc)
          else peg_digits to_digit add mx (n + 1) r (add d acc))"

definition peg_number ::
    "(char \<Rightarrow> ('w :: len) word option) \<Rightarrow> ('w word \<Rightarrow> 'w word accumulator \<Rightarrow> 'w word accumulator) \<Rightarrow>
     digits_to_consume \<Rightarrow> 'w word value_grammar" where
  "peg_number to_digit add lim r =
     (case peg_digits to_digit add (dl_max lim) 0 r acc_init of
        None \<Rightarrow> NoValue False
      | Some (n, r', acc) \<Rightarrow>
          if sint n < sint (dl_min lim) then NoValue False else Value r' (acc_current acc))"

lemma digits_loop_rest:
  assumes "src_ok s"
  shows "case peg_digits to_digit add mx n (rest s) acc of
      None \<Rightarrow> \<exists>s'. digits_loop to_digit add mx n s acc = Inl s' \<and> same_input s s'
    | Some (n', r', acc') \<Rightarrow>
        suffix r' (rest s) \<and> digits_loop to_digit add mx n s acc = Inr (n', advanced s r', acc')"
  using assms
proof (induction "rest s" arbitrary: s n acc)
  case Nil
  then show ?case
    using advanced_rest[OF Nil.prems]
    by (subst (1 2) digits_loop.simps) (simp add: getch_rest flip: Nil.hyps)
next
  case (Cons c r)
  have r: "rest (advanced s r) = r"
    by (rule rest_advanced) (simp add: Cons.hyps(2)[symmetric] suffix_Cons)
  have g: "getch s = (Some c, advanced s r)"
    using Cons.prems by (simp add: getch_rest flip: Cons.hyps(2))
  have sc: "suffix x (c # r)" if "suffix x r" for x using that by (simp add: suffix_Cons)
  note IH = Cons.hyps(1)[OF r[symmetric]]
  show ?case
  proof (cases "to_digit c")
    case None
    then show ?thesis
      using putback_advanced[OF Cons.prems Cons.hyps(2)[symmetric]] advanced_rest[OF Cons.prems]
      by (subst (1 2) digits_loop.simps) (simp add: g flip: Cons.hyps(2))
  next
    case (Some d)
    show ?thesis
      using IH[of "n + 1" "add d acc"] Some
      by (subst (1 2) digits_loop.simps)
         (auto simp: g r Let_def same_input_def sc suffix_Cons simp flip: Cons.hyps(2) split: option.splits)
  qed
qed

lemma finish_digits_produces:
  "produces (\<lambda>s. finish_digits lim s (digits_loop to_digit add (dl_max lim) 0 s acc_init))
     (peg_number to_digit add lim)"
  unfolding produces_def
proof (intro allI impI)
  fix s assume s: "src_ok s"
  show "value_outcome_at s (peg_number to_digit add lim (rest s))
     (finish_digits lim s (digits_loop to_digit add (dl_max lim) 0 s acc_init))"
    using digits_loop_rest[OF s, of to_digit add "dl_max lim" 0 acc_init] s
    by (auto simp: peg_number_def finish_digits_def backto_same_input[OF _ s] same_input_refl[OF s]
        split: option.splits)
qed

lemma digits_produces:
  "produces (try_parse_digits_with_digits_limit lim add) (peg_number decimal_digit add lim)"
  "produces (try_parse_hexdigits_with_digits_limit lim add) (peg_number ch_to_digit add lim)"
  using finish_digits_produces[of lim _ add]
  by (auto simp: try_parse_digits_with_digits_limit_def try_parse_hexdigits_with_digits_limit_def produces_def)

lemma peg_numbers [peg]:
  "regular_p (non_negative_decimal_number_p is_signed lim)"
  "regular_p (hexadecimal_number_p lim)"
  "producer_grammar (non_negative_decimal_number_p is_signed lim) =
     peg_number decimal_digit (next_digit is_signed 10 (positive_extremum is_signed)) lim"
  "producer_grammar (hexadecimal_number_p lim) =
     peg_number ch_to_digit (next_digit False 16 (positive_extremum False)) lim"
  unfolding non_negative_decimal_number_p_def hexadecimal_number_p_def
  by (rule produces_regular digits_produces producer_grammar_unique)+

text \<open>The sign of \<^verbatim>\<open>decimal_number_p\<close>.\<close>

definition peg_signed_number :: "digits_to_consume \<Rightarrow> ('w :: len) word evaluated value_grammar" where
  "peg_signed_number lim r =
     (case r of
        [] \<Rightarrow> NoValue False
      | c # r' \<Rightarrow>
          if c = CHR ''-'' then peg_map (peg_number decimal_digit (next_digit True 10 negative_extremum) lim) negated r'
          else if c = CHR ''+'' then peg_map (peg_number decimal_digit (next_digit True 10 (positive_extremum True)) lim) Defined r'
          else if is_digit c then peg_map (peg_number decimal_digit (next_digit True 10 (positive_extremum True)) lim) Defined r
          else NoValue False)"

lemma value_outcome_at_advanced:
  assumes "suffix r (rest s)" and "value_outcome_at (advanced s r) out res"
  shows "value_outcome_at s out res"
proof (cases out)
  case (Value r' t)
  with assms show ?thesis
    by (auto simp: rest_advanced intro: suffix_order.order_trans)
next
  case (NoValue b)
  with assms(2) show ?thesis
    by (auto intro: same_input_trans[OF same_input_advanced])
qed

lemma signed_first_symbol:
  assumes s: "src_ok s" and r: "rest s = c # r"
  shows "value_outcome_at s (peg_signed_number lim (c # r)) 
    (try_parse_with_this_first_symbol lim (advanced s r) c :: (parse_error + ('w :: len) word evaluated) \<times> source)"
proof -
  have sr: "suffix r (rest s)" by (simp add: r suffix_Cons)
  note rr = rest_advanced[OF sr]
  have at: "value_outcome_at s (peg_number decimal_digit add lim r)
      (try_parse_digits_with_digits_limit lim add (advanced s r))" for add :: "'w word \<Rightarrow> 'w word accumulator \<Rightarrow> 'w word accumulator"
    by (rule value_outcome_at_advanced[OF sr])
       (use producesD[OF digits_produces(1), of "advanced s r" add lim] in \<open>simp add: rr\<close>)
  have at': "value_outcome_at s (peg_number decimal_digit add lim (c # r))
      (try_parse_digits_with_digits_limit lim add s)" for add :: "'w word \<Rightarrow> 'w word accumulator \<Rightarrow> 'w word accumulator"
    using producesD[OF digits_produces(1) s, of add lim] by (simp add: r)
  consider "c = CHR ''-''" | "c = CHR ''+''" | "is_digit c" "c \<noteq> CHR ''-''" "c \<noteq> CHR ''+''"
    | "\<not> is_digit c" "c \<noteq> CHR ''-''" "c \<noteq> CHR ''+''" by blast
  then show ?thesis
  proof cases
    case 1
    with at[of "next_digit True 10 negative_extremum"] show ?thesis
      by (cases "peg_number decimal_digit (next_digit True 10 negative_extremum :: 'w word \<Rightarrow> _) lim r")
         (auto simp: peg_signed_number_def try_parse_with_this_first_symbol_def peg_map_def)
  next
    case 2
    with at[of "next_digit True 10 (positive_extremum True)"] show ?thesis
      by (cases "peg_number decimal_digit (next_digit True 10 (positive_extremum True) :: 'w word \<Rightarrow> _) lim r")
         (auto simp: peg_signed_number_def try_parse_with_this_first_symbol_def peg_map_def)
  next
    case 3
    with at'[of "next_digit True 10 (positive_extremum True)"] show ?thesis
      by (cases "peg_number decimal_digit (next_digit True 10 (positive_extremum True) :: 'w word \<Rightarrow> _) lim (c # r)")
         (auto simp: peg_signed_number_def try_parse_with_this_first_symbol_def peg_map_def putback_advanced[OF s r])
  next
    case 4
    then show ?thesis
      by (auto simp: peg_signed_number_def try_parse_with_this_first_symbol_def same_input_advanced)
  qed
qed

lemma decimal_number_produces: "produces (decimal_number_p lim :: ('w :: len) word evaluated producer) (peg_signed_number lim)"
  unfolding produces_def
proof (intro allI impI)
  fix s assume s: "src_ok s"
  show "value_outcome_at s (peg_signed_number lim (rest s)) (decimal_number_p lim s :: (parse_error + 'w word evaluated) \<times> source)"
  proof (cases "rest s")
    case Nil
    then show ?thesis
      by (simp add: peg_signed_number_def decimal_number_p_def getch_rest[OF s] same_input_def backto_def s[unfolded src_ok_def] src_ok_def)
  next
    case (Cons c r)
    with signed_first_symbol[where 'w = 'w, OF s Cons, of lim] show ?thesis
      by (cases "peg_signed_number lim (c # r) :: 'w word evaluated value_outcome")
         (auto simp: decimal_number_p_def getch_rest[OF s] backto_same_input[OF _ s] same_input_refl[OF s])
  qed
qed

lemma peg_decimal [peg]:
  "regular_p (decimal_number_p lim)" "producer_grammar (decimal_number_p lim) = peg_signed_number lim"
  using decimal_number_produces by (auto intro: produces_regular producer_grammar_unique)

subsection \<open>Values that fit\<close>

lemma next_digit_exact:
  fixes acc :: "('w :: len) word accumulator"
  assumes "\<not> acc_overflow_detected acc" and "0 < m"
    and v: "v = unat (acc_current acc) * m + unat d" and "v < 2 ^ LENGTH('w)"
    and "is_signed \<Longrightarrow> v \<le> unat ext"
  shows "next_digit is_signed m ext d acc = \<lparr>acc_current = word_of_nat v, acc_overflow_detected = False\<rparr>"
proof -
  let ?u = "acc_current acc * word_of_nat m + d"
  have u: "?u = word_of_nat v"
    by (simp add: v)
  have uv: "unat ?u = v"
    unfolding u using assms(4) by (simp add: unat_of_nat take_bit_nat_eq_self)
  have "unat (acc_current acc) \<le> v"
    using assms(2) by (cases m) (auto simp: v)
  then have "\<not> ?u < acc_current acc"
    using uv by (simp add: word_less_nat_alt)
  moreover have "\<not> is_greater_than_maximum is_signed ?u ext"
    using uv assms(5) by (auto simp: is_greater_than_maximum_def word_less_nat_alt)
  ultimately show ?thesis
    using assms(1) u by (cases acc) (simp add: next_digit_def Let_def)
qed

text \<open>
  A run of digits whose value fits is read to its end, unless the limit of digits comes first.  The digits
  are given with their values, so that the lemma serves both bases.
\<close>

lemma peg_digits_exact:
  fixes acc :: "('w :: len) word accumulator"
  assumes "list_all (\<lambda>c. to_digit c = Some (word_of_nat (val c) :: 'w word) \<and> val c < m) ds" and "0 < m"
    and "m \<le> 2 ^ LENGTH('w)"
    and "\<not> acc_overflow_detected acc"
    and "foldl (\<lambda>a c. a * m + val c) (unat (acc_current acc)) ds < 2 ^ LENGTH('w)"
    and "is_signed \<Longrightarrow> foldl (\<lambda>a c. a * m + val c) (unat (acc_current acc)) ds \<le> unat ext"
    and "n + length ds \<le> k" and "k < 256"
    and "r = [] \<or> to_digit (hd r) = None \<or> ds \<noteq> [] \<and> n + length ds = k"
  shows "peg_digits to_digit (next_digit is_signed m ext) (word_of_nat k) (word_of_nat n) (ds @ r) acc =
    Some (word_of_nat (n + length ds), r,
      \<lparr>acc_current = word_of_nat (foldl (\<lambda>a c. a * m + val c) (unat (acc_current acc)) ds),
       acc_overflow_detected = False\<rparr>)"
  using assms
proof (induction ds arbitrary: n acc)
  case Nil
  then show ?case by (cases r) (cases acc; simp)+
next
  case (Cons c ds)
  let ?v = "unat (acc_current acc) * m + val c"
  have mono: "a \<le> foldl (\<lambda>a c. a * m + val c) a ds" for a
  proof (induction ds arbitrary: a)
    case (Cons c ds)
    have "a \<le> a * m + val c" using \<open>0 < m\<close> by (cases m) auto
    also have "\<dots> \<le> foldl (\<lambda>a c. a * m + val c) (a * m + val c) ds" by (rule Cons)
    finally show ?case by simp
  qed simp
  have vlt: "?v < 2 ^ LENGTH('w)"
    using mono[of ?v] Cons.prems(5) by (simp del: of_nat_less_iff)
  have d: "unat (word_of_nat (val c) :: 'w word) = val c"
    using Cons.prems(1,3) by (simp add: unat_of_nat take_bit_nat_eq_self)
  have nd: "next_digit is_signed m ext (word_of_nat (val c)) acc =
      \<lparr>acc_current = word_of_nat ?v, acc_overflow_detected = False\<rparr>"
    by (rule next_digit_exact[OF Cons.prems(4) Cons.prems(2) _ vlt])
       (use mono[of ?v] Cons.prems(6) d in auto)
  have uv: "unat (word_of_nat ?v :: 'w word) = ?v"
    using vlt by (simp add: unat_of_nat take_bit_nat_eq_self del: of_nat_add of_nat_mult)
  have eq: "(word_of_nat n + 1 = (word_of_nat k :: u8)) = (n + 1 = k)"
  proof -
    have "word_of_nat n + 1 = (word_of_nat (n + 1) :: u8)" by simp
    moreover have "(word_of_nat (n + 1) = (word_of_nat k :: u8)) \<longleftrightarrow> n + 1 = k"
      using Cons.prems(7,8) by (simp add: word_of_nat_eq_iff take_bit_nat_eq_self del: of_nat_Suc of_nat_add)
    ultimately show ?thesis by (simp add: add.commute)
  qed
  show ?case
  proof (cases "n + 1 = k")
    case True
    with Cons.prems(7) have "ds = []" by (cases ds) auto
    with True show ?thesis using Cons.prems nd eq by (simp add: d)
  next
    case False
    have "peg_digits to_digit (next_digit is_signed m ext) (word_of_nat k) (word_of_nat (n + 1)) (ds @ r)
        \<lparr>acc_current = word_of_nat ?v, acc_overflow_detected = False\<rparr> =
      Some (word_of_nat (n + 1 + length ds), r,
        \<lparr>acc_current = word_of_nat (foldl (\<lambda>a c. a * m + val c) ?v ds), acc_overflow_detected = False\<rparr>)"
      by (rule Cons.IH[where n = "n + 1" and acc = "\<lparr>acc_current = word_of_nat ?v, acc_overflow_detected = False\<rparr>", simplified uv accumulator.simps])
         (use Cons.prems False uv in auto)
    with Cons.prems nd eq False show ?thesis
      by (simp add: algebra_simps)
  qed
qed

lemma decimal_digit_value:
  "decimal_digit_char c \<Longrightarrow> decimal_digit c = Some (word_of_nat (digit_value c)) \<and> digit_value c < 10"
  by (auto simp: decimal_digit_def is_digit_def digit_value_def decimal_digit_char_def)

lemma is_digit_iff: "is_digit c \<longleftrightarrow> decimal_digit_char c"
  by (simp add: is_digit_def decimal_digit_char_def)

text \<open>A decimal number at the start of a text.\<close>

lemma peg_number_decimal:
  fixes ext :: "('w :: len) word"
  assumes "4 \<le> LENGTH('w)" and "list_all decimal_digit_char ds" and "ds \<noteq> []" and "length ds \<le> 127"
    and "decimal_value ds < 2 ^ LENGTH('w)" and "is_signed \<Longrightarrow> decimal_value ds \<le> unat ext"
    and "r = [] \<or> \<not> is_digit (hd r)"
  shows "peg_number decimal_digit (next_digit is_signed 10 ext) from_one_to_max (ds @ r) =
    Value r (word_of_nat (decimal_value ds))"
proof -
  have m: "(10 :: nat) \<le> 2 ^ LENGTH('w)"
    using power_increasing[OF assms(1), of "2 :: nat"] by simp
  have "peg_digits decimal_digit (next_digit is_signed 10 ext) (word_of_nat 127) (word_of_nat 0) (ds @ r) acc_init =
    Some (word_of_nat (0 + length ds), r,
      \<lparr>acc_current = word_of_nat (foldl (\<lambda>a c. a * 10 + digit_value c) (unat (acc_current (acc_init :: 'w word accumulator))) ds),
       acc_overflow_detected = False\<rparr>)"
  proof (rule peg_digits_exact[where val = digit_value])
    show "list_all (\<lambda>c. decimal_digit c = Some (word_of_nat (digit_value c) :: 'w word) \<and> digit_value c < 10) ds"
      using assms(2) by (auto simp: list_all_iff decimal_digit_value)
    show "r = [] \<or> decimal_digit (hd r) = (None :: 'w word option) \<or> ds \<noteq> [] \<and> 0 + length ds = 127"
      using assms(7) by (auto simp: decimal_digit_def)
  qed (use assms m in \<open>auto simp: acc_init_def decimal_value_def\<close>)
  moreover have "sint (word_of_nat (length ds) :: u8) = int (length ds)"
    using assms(4) by (simp add: signed_of_nat signed_take_bit_int_eq_self)
  ultimately show ?thesis
    using assms(3)
    by (simp add: peg_number_def Suc_le_eq from_one_to_max_def unlimited_max_def acc_init_def decimal_value_def)
qed

lemma remove_trailing_spaces_id: "d = [] \<or> \<not> is_space (last d) \<Longrightarrow> remove_trailing_spaces d = d"
  by (cases d rule: rev_cases) (auto simp: remove_trailing_spaces_spec)

lemma decimal_no_space: "\<not> is_space (last (decimal n))"
proof -
  have "decimal_digit_char (last (decimal n))"
    using decimal_digits[of n] last_in_set[OF decimal_ne, of n] by (auto simp: list_all_iff)
  then show ?thesis by (auto simp: is_space_def SP_def HTAB_def decimal_digit_char_def)
qed

lemma decimal_length_word: "n < 2 ^ 64 \<Longrightarrow> length (decimal n) \<le> 127"
  using decimal_length[of n 19] by simp

text \<open>The text of an integer, with a sign for a negative one.\<close>

definition integer_text :: "int \<Rightarrow> string" where
  "integer_text i = (if i < 0 then CHR ''-'' # decimal (nat (- i)) else decimal (nat i))"

text \<open>The least value of a signed type, as a word.\<close>

lemma word_least_iff:
  fixes n :: "('w :: len) word"
  shows "- n = negative_extremum \<longleftrightarrow> sint n = - (2 ^ (LENGTH('w) - 1))"
proof -
  let ?m = "- (2 ^ (LENGTH('w) - 1)) :: int"
  have m: "sint (word_of_int ?m :: 'w word) = ?m"
    unfolding signed_of_int by (simp add: signed_take_bit_int_eq_self del: of_int_minus)
  have "- n = negative_extremum \<longleftrightarrow> n = word_of_int ?m"
    by (simp add: negative_extremum_def) (metis minus_equation_iff)
  also have "\<dots> \<longleftrightarrow> sint n = ?m"
  proof
    assume "sint n = ?m"
    then show "n = word_of_int ?m" by (metis of_int_sint scast_id)
  qed (simp only: m)
  finally show ?thesis .
qed

text \<open>
  C36: A number that fits its type is read exactly: the decimal text of any value of an unsigned type of 4 to
  64 bits is parsed by \<^verbatim>\<open>non_negative_decimal_number_p\<close> to that value, and the text of any value of a
  signed type by \<^verbatim>\<open>decimal_number_p\<close> to that value.  The least value of a signed type of 32 bits or
  more is excepted: its text reaches the negation that overflows, so the code defines no value for it;
  of the narrower types the least value is read like any other.
\<close>

theorem numbers_roundtrip:
  fixes n :: "('w :: len) word"
  assumes "4 \<le> LENGTH('w)" and "LENGTH('w) \<le> 64"
  shows "try_parse (decimal (unat n)) (non_negative_decimal_number_p False from_one_to_max) = Inr n \<and>
    try_parse (integer_text (sint n)) (decimal_number_p from_one_to_max) =
      Inr (if 32 \<le> LENGTH('w) \<and> sint n = - (2 ^ (LENGTH('w) - 1)) then Signed_overflow else Defined n)"
proof -
  have le: "(2 :: nat) ^ LENGTH('w) \<le> 2 ^ 64" "(2 :: nat) ^ (LENGTH('w) - 1) < 2 ^ LENGTH('w)"
    using power_increasing[OF assms(2), of "2 :: nat"] by auto
  have num: "peg_number decimal_digit (next_digit is_signed 10 ext) from_one_to_max (decimal k) =
      Value [] (word_of_nat k :: 'w word)"
    if "k < 2 ^ LENGTH('w)" and "is_signed \<Longrightarrow> k \<le> unat ext" for k is_signed ext
    using peg_number_decimal[of "decimal k" is_signed ext "[]"] assms(1) decimal_digits[of k] that
      decimal_length_word[of k] le by simp
  have "try_parse (decimal (unat n)) (non_negative_decimal_number_p False from_one_to_max) = Inr n"
    using unsigned_less[of n, where 'a = nat]
    by (subst try_parse_ok_iff) (simp_all add: peg remove_trailing_spaces_id decimal_no_space num)
  moreover let ?v = "if 32 \<le> LENGTH('w) \<and> sint n = - (2 ^ (LENGTH('w) - 1)) then Signed_overflow else Defined n"
  have "producer_grammar (decimal_number_p from_one_to_max) (integer_text (sint n)) = Value [] ?v"
  proof (cases "sint n < 0")
    case True
    let ?k = "nat (- sint n)"
    have k: "?k \<le> 2 ^ (LENGTH('w) - 1)"
      using sint_ge[of n] by (simp add: nat_le_iff)
    have ext: "unat (negative_extremum :: 'w word) = 2 ^ (LENGTH('w) - 1)"
      using le(2) by (simp add: negative_extremum_def unat_of_nat take_bit_nat_eq_self del: of_nat_power)
    have neg: "(word_of_nat ?k :: 'w word) = - n"
      using True by simp
    have "peg_number decimal_digit (next_digit True 10 negative_extremum) from_one_to_max (decimal ?k) =
        Value [] (word_of_nat ?k :: 'w word)"
      by (rule num) (use k ext le_less_trans[OF k le(2)] in simp_all)
    moreover have "negated (word_of_nat ?k :: 'w word) = ?v"
      unfolding neg negated_def word_least_iff by simp
    ultimately show ?thesis
      using True by (simp add: peg peg_signed_number_def integer_text_def peg_map_def del: of_nat_nat)
  next
    case False
    let ?k = "nat (sint n)"
    have k: "?k < 2 ^ (LENGTH('w) - 1)"
      using sint_less[of n] False by (simp add: nat_less_iff)
    have ext: "unat (positive_extremum True :: 'w word) = 2 ^ (LENGTH('w) - 1) - 1"
      unfolding positive_extremum_def if_True unat_of_nat using le(2) by (intro mod_less) linarith
    have "peg_number decimal_digit (next_digit True 10 (positive_extremum True)) from_one_to_max (decimal ?k) =
        Value [] (word_of_nat ?k :: 'w word)"
      by (rule num) (use k less_trans[OF k le(2)] in \<open>unfold ext, linarith+\<close>)
    moreover have "word_of_nat ?k = n" using False by simp
    moreover have "is_digit (hd (decimal ?k))"
      using decimal_digits[of ?k] by (auto simp: is_digit_iff list_all_iff)
    ultimately show ?thesis
      using False
      by (cases "decimal ?k") (auto simp: peg peg_signed_number_def integer_text_def is_digit_def peg_map_def)
  qed
  then have "try_parse (integer_text (sint n)) (decimal_number_p from_one_to_max) = Inr ?v"
    by (subst try_parse_ok_iff)
       (simp_all add: peg integer_text_def remove_trailing_spaces_id decimal_no_space split: if_splits)
  ultimately show ?thesis by simp
qed

theorem numbers_roundtrip_witness:
  "try_parse (integer_text (- 128)) (decimal_number_p from_one_to_max) = Inr (Defined (128 :: u8)) \<and>
   try_parse (integer_text (- 2147483647)) (decimal_number_p from_one_to_max) = Inr (Defined (2147483649 :: u32)) \<and>
   try_parse (integer_text (- 2147483648)) (decimal_number_p from_one_to_max) =
     Inr (Signed_overflow :: u32 evaluated)"
  using numbers_roundtrip[of "128 :: u8"] numbers_roundtrip[of "2147483649 :: u32"]
    numbers_roundtrip[of "2147483648 :: u32"] by simp

section \<open>Properties of the combinators\<close>

text \<open>
  C18: The combinators implement parsing expression grammars: when clauses behave like given grammars
  on the rest of the input wherever they start, then the sequence, the ordered choice (which a forced
  alternative cuts), the option, the two look-aheads, the forced alternative, the bounded repetition and
  the production of a value behave like the corresponding grammar operators.  A sequence, a choice, a
  look-ahead, a forced alternative or a repetition that fails leaves the input exactly where it started;
  the option, which never fails, leaves it there when its clauses do not match, which is part of what
  its grammar says.
\<close>

theorem combinators_refine_grammar:
  assumes "list_all2 refines cs gs"
  shows "refines (sequence_clause cs) (peg_sequence gs) \<and> restores (sequence_clause cs) \<and>
    refines (alternatives cs) (peg_choice gs) \<and> restores (alternatives cs) \<and>
    refines (maybe cs) (peg_option gs) \<and>
    refines (not_clause d cs) (peg_not d gs) \<and> restores (not_clause d cs) \<and>
    refines (and_clause d cs) (peg_and d gs) \<and> restores (and_clause d cs) \<and>
    refines (force_only_this_alternative cs) (peg_forced gs) \<and> restores (force_only_this_alternative cs) \<and>
    refines (repeat_clause mn mx cs) (peg_repeat mn mx gs) \<and> restores (repeat_clause mn mx cs) \<and>
    produces (produce d cs) (peg_produce d gs)"
  using assms
  by (intro conjI sequence_refines alternatives_refines maybe_refines not_clause_refines
      and_clause_refines force_only_this_alternative_refines repeat_refines produce_produces clauses_restore)

theorem combinators_refine_grammar_witness:
  "refines (repeat_clause 2 3 [symbol CHR ''a'' :: string clause])
     (peg_repeat 2 3 [peg_consume (peg_char (particular_symbol_predicate CHR ''a'')) any_value_skipper]) \<and>
   restores (repeat_clause 2 3 [symbol CHR ''a'' :: string clause]) \<and>
   repeat_clause 2 3 [symbol CHR ''a''] (make_source ''ab'') ('''' :: string) =
     (Some (parse_error_at 1 pattern_not_found), make_source ''ab'', '''')"
proof -
  have "repeat_clause 2 3 [symbol CHR ''a''] (make_source ''ab'') ('''' :: string) =
      (Some (parse_error_at 1 pattern_not_found), make_source ''ab'', '''')"
    by code_simp
  with combinators_refine_grammar[of "[symbol CHR ''a'' :: string clause]"
      "[peg_consume (peg_char (particular_symbol_predicate CHR ''a'')) any_value_skipper]"]
  show ?thesis
    by (simp add: symbol_def skip_p_def symbol_p_def consume_value_clause_refines symbol_producer_produces)
qed

text \<open>
  The check for overflow compares the wrapped product with the previous value only, so a number that
  does not fit can pass it: \<^verbatim>\<open>99999\<close> is read as 34463 into 16 bits, \<^verbatim>\<open>10000000000\<close> as
  1410065408 into 32 bits and \<^verbatim>\<open>+300\<close> as 44 into a signed byte.
\<close>

theorem overflow_not_detected:
  "try_parse ''99999'' (non_negative_decimal_number_p False from_one_to_max) = Inr (34463 :: u16) \<and>
   try_parse ''10000000000'' (non_negative_decimal_number_p False from_one_to_max) = Inr (1410065408 :: u32) \<and>
   try_parse ''+300'' (decimal_number_p from_one_to_max) = Inr (Defined (44 :: u8))"
  by (intro conjI) code_simp+

subsection \<open>Fragments of text and runs of characters\<close>

fun peg_fragment :: "(char \<Rightarrow> char) \<Rightarrow> string \<Rightarrow> bool value_grammar" where
  "peg_fragment f [] r = Value r True"
| "peg_fragment f (b # bs) [] = NoValue False"
| "peg_fragment f (b # bs) (c # r) = (if f c = b then peg_fragment f bs r else NoValue False)"

lemma fragment_loop_rest:
  assumes "src_ok s"
  shows "case peg_fragment f bs (rest s) of
      Value r v \<Rightarrow> suffix r (rest s) \<and> v \<and> fragment_loop f s bs = (None, advanced s r)
    | NoValue b \<Rightarrow> \<not> b \<and> (\<exists>reason s'. fragment_loop f s bs = (Some reason, s') \<and> same_input s s' \<and>
        reason \<noteq> force_only_this_alternative_failed)"
  using assms
proof (induction bs arbitrary: s)
  case Nil
  then show ?case by (simp add: advanced_rest)
next
  case (Cons b bs)
  show ?case
  proof (cases "rest s")
    case Nil
    with Cons.prems show ?thesis by (simp add: getch_rest same_input_refl)
  next
    case (Cons c r)
    have sr: "suffix r (rest s)" by (simp add: Cons suffix_Cons)
    note r = rest_advanced[OF sr]
    show ?thesis
      using Cons.IH[of "advanced s r"] Cons Cons.prems
      by (auto simp: getch_rest r same_input_def suffix_Cons split: value_outcome.splits)
  qed
qed

lemma fragment_produces:
  "produces (try_parse_exact_fragment fr) (peg_fragment (\<lambda>c. c) fr)"
  "produces (try_parse_caseless_exact_fragment fr) (peg_fragment to_lower_case fr)"
  unfolding produces_def
proof (intro allI impI)
  fix s assume s: "src_ok s"
  show "value_outcome_at s (peg_fragment (\<lambda>c. c) fr (rest s)) (try_parse_exact_fragment fr s)"
    using fragment_loop_rest[OF s, of "\<lambda>c. c" fr]
    by (cases "peg_fragment (\<lambda>c. c) fr (rest s)")
       (auto simp: try_parse_exact_fragment_def backto_same_input[OF _ s] same_input_refl[OF s])
next
  show "\<forall>s. src_ok s \<longrightarrow> value_outcome_at s (peg_fragment to_lower_case fr (rest s)) (try_parse_caseless_exact_fragment fr s)"
  proof (intro allI impI)
    fix s assume s: "src_ok s"
    show "value_outcome_at s (peg_fragment to_lower_case fr (rest s)) (try_parse_caseless_exact_fragment fr s)"
      using fragment_loop_rest[OF s, of to_lower_case fr]
      by (cases "peg_fragment to_lower_case fr (rest s)")
         (auto simp: try_parse_caseless_exact_fragment_def backto_same_input[OF _ s] same_input_refl[OF s])
  qed
qed

lemma peg_fragments [peg]:
  "regular_p (try_parse_exact_fragment fr)"
  "regular_p (try_parse_caseless_exact_fragment fr)"
  "producer_grammar (try_parse_exact_fragment fr) = peg_fragment (\<lambda>c. c) fr"
  "producer_grammar (try_parse_caseless_exact_fragment fr) = peg_fragment to_lower_case fr"
  by (rule produces_regular fragment_produces producer_grammar_unique)+

text \<open>The factories are the producers they make.\<close>

lemmas factory_defs [peg] = any_symbol_p_def symbol_p_def any_symbol_if_not_p_def caseless_symbol_p_def
  symbol_from_range_p_def space_p_def digit_p_def hexdigit_p_def skip_p_def symbol_def
  caseless_symbol_def symbol_from_range_def space_def digit_def hexdigit_def exact_p_def exact_def
  to_lower_def just_def

lemma peg_loop_chars:
  assumes "\<And>t v. f t v = t @ [v]"
  shows "peg_loop [peg_consume (peg_char P) f] n r t =
    (length (takeWhile P (take n r)), drop (length (takeWhile P (take n r))) r, t @ takeWhile P (take n r))"
proof (induction n arbitrary: r t)
  case (Suc n)
  then show ?case
    by (cases r) (auto simp: peg_consume_def peg_char_def assms)
qed simp

lemma peg_loop_all_chars:
  assumes "\<And>t v. f t v = t @ [v]" and "length r \<le> n"
  shows "peg_loop [peg_consume (peg_char P) f] n r t = (length (takeWhile P r), dropWhile P r, t @ takeWhile P r)"
  using assms(2) by (simp add: peg_loop_chars[OF assms(1)] dropWhile_eq_drop)
end
