(* ===== verification/Field_Basics.thy ===== *)
theory Field_Basics
  imports Easy_Parser
begin

text \<open>
  The building blocks of the field parsers: \<^verbatim>\<open>restinio/helpers/http_field_parsers/basics.hpp\<close>
  and \<^verbatim>\<open>details/pct_encoded_symbols.hpp\<close>.  Tokens, quoted strings and pairs, comments, quality
  values and weights, comma-separated lists and parameter lists, each with its grammar.
\<close>

section \<open>Quality values\<close>

record qvalue = qv_value :: u16

definition qvalue_maximum :: u16 where "qvalue_maximum = 1000"

text \<open>\<^verbatim>\<open>qvalue_details::untrusted\<close> refuses values above the maximum.\<close>

definition qvalue_untrusted :: "u16 \<Rightarrow> qvalue option" where
  "qvalue_untrusted v = (if qvalue_maximum < v then None else Some \<lparr>qv_value = v\<rparr>)"

definition qvalue_zero :: qvalue where "qvalue_zero = \<lparr>qv_value = 0\<rparr>"
definition qvalue_max :: qvalue where "qvalue_max = \<lparr>qv_value = qvalue_maximum\<rparr>"

text \<open>
  The text of \<^verbatim>\<open>make_char_array\<close> up to its terminating zero.  A digit is the character code 48 plus
  the low byte of the quotient.
\<close>

definition qvalue_as_string :: "qvalue \<Rightarrow> string" where
  "qvalue_as_string q =
     (let v = qv_value q; d2 = v mod 100; d3 = d2 mod 10 in
      if qvalue_maximum = v then ''1.000''
      else [CHR ''0'', CHR ''.'', char_of_byte (48 + ucast (v div 100)),
            char_of_byte (48 + ucast (d2 div 10)), char_of_byte (48 + ucast d3)])"

section \<open>Character classes\<close>

definition in_range :: "nat \<Rightarrow> nat \<Rightarrow> char \<Rightarrow> bool" where
  "in_range lo hi ch \<longleftrightarrow> lo \<le> of_char ch \<and> of_char ch \<le> hi"

definition is_alpha :: "char \<Rightarrow> bool" where
  "is_alpha ch \<longleftrightarrow> in_range 0x41 0x5A ch \<or> in_range 0x61 0x7A ch"

definition is_alphanum :: "char \<Rightarrow> bool" where
  "is_alphanum ch \<longleftrightarrow> is_alpha ch \<or> is_digit ch"

definition is_vchar :: "char \<Rightarrow> bool" where
  "is_vchar ch \<longleftrightarrow> in_range 0x21 0x7E ch"

definition is_obs_text :: "char \<Rightarrow> bool" where
  "is_obs_text ch \<longleftrightarrow> in_range 0x80 0xFF ch"

definition is_qdtext :: "char \<Rightarrow> bool" where
  "is_qdtext ch \<longleftrightarrow> ch = SP \<or> ch = HTAB \<or> ch = CHR ''!'' \<or> in_range 0x23 0x5B ch \<or>
     in_range 0x5D 0x7E ch \<or> is_obs_text ch"

definition is_ctext :: "char \<Rightarrow> bool" where
  "is_ctext ch \<longleftrightarrow> ch = SP \<or> ch = HTAB \<or> in_range 0x21 0x27 ch \<or> in_range 0x2A 0x5B ch \<or>
     in_range 0x5D 0x7E ch \<or> is_obs_text ch"

definition is_token_char :: "char \<Rightarrow> bool" where
  "is_token_char ch \<longleftrightarrow> is_alpha ch \<or> is_digit ch \<or> ch \<in> set ''!#$%&'' \<or> ch = CHR 0x27 \<or>
     ch \<in> set ''*+-.^_'' \<or> ch = CHR 0x60 \<or> ch \<in> set ''|~''"

text \<open>The second character of a quoted pair.\<close>

definition is_quotable :: "char \<Rightarrow> bool" where
  "is_quotable ch \<longleftrightarrow> SP = ch \<or> HTAB = ch \<or> is_vchar ch \<or> is_obs_text ch"

definition alpha_symbol_p :: "char producer" where
  "alpha_symbol_p = symbol_producer_template is_alpha"

definition alphanum_symbol_p :: "char producer" where
  "alphanum_symbol_p = symbol_producer_template is_alphanum"

definition vchar_symbol_p :: "char producer" where
  "vchar_symbol_p = symbol_producer_template is_vchar"

definition ctext_symbol_p :: "char producer" where
  "ctext_symbol_p = symbol_producer_template is_ctext"

definition token_symbol_p :: "char producer" where
  "token_symbol_p = symbol_producer_template is_token_char"

section \<open>Spaces, tokens and quoted strings\<close>

function ows_loop :: "source \<Rightarrow> nat \<Rightarrow> nat \<times> source" where
  "ows_loop s extracted_spaces =
     (case getch s of
        (None, s') \<Rightarrow> (extracted_spaces, s')
      | (Some ch, s') \<Rightarrow>
          (if is_space ch then ows_loop s' (extracted_spaces + 1) else (extracted_spaces, putback s')))"
  by pat_completeness auto
termination
  by (relation "measure (\<lambda>(s, _). length (src_data s) - src_index s)") (auto simp: getch_def split: if_splits)

declare ows_loop.simps [simp del]

definition ows_p :: "char option producer" where
  "ows_p s =
     (case ows_loop s 0 of (extracted_spaces, s') \<Rightarrow>
        (Inr (if 0 < extracted_spaces then Some CHR '' '' else None), s'))"

definition ows :: "'t clause" where
  "ows = skip_p ows_p"

function token_loop :: "source \<Rightarrow> string \<Rightarrow> error_reason \<times> string \<times> source" where
  "token_loop s accumulator =
     (case getch s of
        (None, s') \<Rightarrow> (unexpected_eof, accumulator, s')
      | (Some ch, s') \<Rightarrow>
          (if \<not> is_token_char ch then (unexpected_character, accumulator, putback s')
           else token_loop s' (accumulator @ [ch])))"
  by pat_completeness auto
termination
  by (relation "measure (\<lambda>(s, _). length (src_data s) - src_index s)") (auto simp: getch_def split: if_splits)

declare token_loop.simps [simp del]

definition token_p :: "string producer" where
  "token_p s =
     (case token_loop s [] of (reason, value, s') \<Rightarrow>
        (if value = [] then (Inl (parse_error_at (src_index s') reason), s') else (Inr value, s')))"

text \<open>
  The loop of \<^verbatim>\<open>quoted_string_producer_t::try_parse_value\<close>, after the opening quote: the error, if the
  closing quote was not found, the text and the stream.
\<close>

function quoted_loop :: "source \<Rightarrow> string \<Rightarrow> error_reason option \<times> string \<times> source" where
  "quoted_loop s accumulator =
     (case getch s of
        (None, s') \<Rightarrow> (Some unexpected_eof, accumulator, s')
      | (Some ch, s') \<Rightarrow>
          (if CHR 0x22 = ch then (None, accumulator, s')
           else if CHR 0x5C = ch then
             (case getch s' of
                (None, s'') \<Rightarrow> (Some unexpected_eof, accumulator, s'')
              | (Some nxt, s'') \<Rightarrow>
                  (if is_quotable nxt then quoted_loop s'' (accumulator @ [nxt])
                   else (Some unexpected_character, accumulator, putback s'')))
           else if is_qdtext ch then quoted_loop s' (accumulator @ [ch])
           else (Some unexpected_character, accumulator, putback s')))"
  by pat_completeness auto
termination
  by (relation "measure (\<lambda>(s, _). length (src_data s) - src_index s)") (auto simp: getch_def split: if_splits)

declare quoted_loop.simps [simp del]

definition quoted_string_p :: "string producer" where
  "quoted_string_p s =
     (case getch s of
        (None, s') \<Rightarrow> (Inl (parse_error_at (src_index s) unexpected_eof), backto (src_index s) s')
      | (Some ch, s') \<Rightarrow>
          (if CHR 0x22 = ch then
             (case quoted_loop s' [] of
                (None, value, s'') \<Rightarrow> (Inr value, s'')
              | (Some reason, value, s'') \<Rightarrow>
                  (Inl (parse_error_at (src_index s'') reason), backto (src_index s) s''))
           else (Inl (parse_error_at (src_index s) unexpected_character), backto (src_index s) s')))"

definition quoted_pair_p :: "char producer" where
  "quoted_pair_p s =
     (case getch s of
        (None, s') \<Rightarrow> (Inl (parse_error_at (src_index s') unexpected_eof), backto (src_index s) s')
      | (Some ch, s') \<Rightarrow>
          (if CHR 0x5C = ch then
             (case getch s' of
                (None, s'') \<Rightarrow> (Inl (parse_error_at (src_index s'') unexpected_eof), backto (src_index s) s'')
              | (Some nxt, s'') \<Rightarrow>
                  (if is_quotable nxt then (Inr nxt, s'')
                   else (Inl (parse_error_at (src_index s'') unexpected_character), backto (src_index s) s'')))
           else (Inl (parse_error_at (src_index s') unexpected_character), backto (src_index s) s')))"

text \<open>The factories that take a token at run time throw for an empty one (\<^term>\<open>None\<close>).\<close>

definition expected_token_p :: "string \<Rightarrow> bool producer option" where
  "expected_token_p token =
     map_option
       (\<lambda>p. produce False [consume_value_clause p as_result, not_clause False [skip_p token_symbol_p]])
       (exact_fragment_producer token)"

definition expected_caseless_token_p :: "string \<Rightarrow> bool producer option" where
  "expected_caseless_token_p token =
     map_option
       (\<lambda>p. produce False [consume_value_clause p as_result, not_clause False [skip_p token_symbol_p]])
       (caseless_exact_fragment_producer token)"

text \<open>
  Comments nest.  The recursion of \<^verbatim>\<open>comment_producer_t::try_parse\<close> is bounded by the number of
  characters left, each level having consumed its opening parenthesis; \<open>comment_grammar\<close> below shows that
  the bound is never reached.
\<close>

primrec comment_level :: "nat \<Rightarrow> string producer" where
  "comment_level 0 = (\<lambda>s. (Inl (parse_error_at (src_index s) pattern_not_found), s))"
| "comment_level (Suc n) =
     produce []
       [sequence_clause
          [symbol CHR ''('',
           repeat_clause 0 N_max
             [alternatives
                [consume_value_clause ctext_symbol_p to_container,
                 consume_value_clause quoted_pair_p to_container,
                 consume_value_clause (comment_level n) (\<lambda>dest what. dest @ what)]],
           symbol CHR '')'']]"

definition comment_p :: "string producer" where
  "comment_p s = comment_level (Suc (length (src_data s) - src_index s)) s"

section \<open>Quality values and weights\<close>

definition digit_consumer :: "u16 \<Rightarrow> (u16, char) consumer" where
  "digit_consumer multiplier dest ch = dest + multiplier * word_of_nat (of_char ch - of_char CHR ''0'')"

definition qvalue_p :: "qvalue producer" where
  "qvalue_p s =
     (case produce 0
        [alternatives
           [sequence_clause
              [symbol CHR ''0'',
               maybe
                 [symbol CHR ''.'',
                  maybe
                    [consume_value_clause digit_p (digit_consumer 100),
                     maybe
                       [consume_value_clause digit_p (digit_consumer 10),
                        maybe [consume_value_clause digit_p (digit_consumer 1)]]]]],
            sequence_clause
              [consume_value_clause (symbol_p CHR ''1'') (digit_consumer 1000),
               maybe
                 [symbol CHR ''.'',
                  maybe [symbol CHR ''0'', maybe [symbol CHR ''0'', maybe [symbol CHR ''0'']]]]]]] s of
        (Inr v, s') \<Rightarrow> (Inr \<lparr>qv_value = v\<rparr>, s')
      | (Inl e, s') \<Rightarrow> (Inl e, s'))"

definition weight_p :: "qvalue producer" where
  "weight_p =
     produce qvalue_zero
       [ows, symbol CHR '';'', ows, caseless_symbol CHR ''q'', symbol CHR ''='',
        consume_value_clause qvalue_p as_result]"

section \<open>Lists and parameters\<close>

definition clause_result :: "'t \<Rightarrow> 't clause \<Rightarrow> 't producer" where
  "clause_result blank c s =
     (case c s blank of
        (None, s', tmp_value) \<Rightarrow> (Inr tmp_value, s')
      | (Some e, s', tmp_value) \<Rightarrow> (Inl e, s'))"

definition non_empty_comma_separated_list_p :: "'a producer \<Rightarrow> 'a list producer" where
  "non_empty_comma_separated_list_p element =
     clause_result []
       (sequence_clause
          [repeat_clause 0 N_max [symbol CHR '','', ows],
           consume_value_clause element to_container,
           repeat_clause 0 N_max
             [ows, symbol CHR '','', maybe [ows, consume_value_clause element to_container]]])"

definition maybe_empty_comma_separated_list_p :: "'a producer \<Rightarrow> 'a list producer" where
  "maybe_empty_comma_separated_list_p element =
     clause_result []
       (maybe
          [alternatives [symbol CHR '','', consume_value_clause element to_container],
           repeat_clause 0 N_max
             [ows, symbol CHR '','', maybe [ows, consume_value_clause element to_container]]])"

type_synonym parameter_with_mandatory_value = "string \<times> string"
type_synonym parameter_with_optional_value = "string \<times> string option"

definition set_first :: "('a \<times> 'b, 'a) consumer" where "set_first t v = (v, snd t)"
definition set_second :: "('a \<times> 'b, 'b) consumer" where "set_second t v = (fst t, v)"
definition set_second_some :: "('a \<times> 'b option, 'b) consumer" where "set_second_some t v = (fst t, Some v)"

definition find_first :: "parameter_with_mandatory_value list \<Rightarrow> string \<Rightarrow> string option" where
  "find_first items what = map_option snd (List.find (\<lambda>p. is_equal_caseless (fst p) what) items)"

definition find_first_optional :: "parameter_with_optional_value list \<Rightarrow> string \<Rightarrow> string option option" where
  "find_first_optional items what = map_option snd (List.find (\<lambda>p. is_equal_caseless (fst p) what) items)"

definition params_with_value_p :: "parameter_with_mandatory_value list producer" where
  "params_with_value_p =
     produce []
       [repeat_clause 0 N_max
          [consume_value_clause
             (produce ([], [])
                [ows, symbol CHR '';'', ows,
                 consume_value_clause (to_lower token_p) set_first,
                 symbol CHR ''='',
                 alternatives
                   [consume_value_clause token_p set_second, consume_value_clause quoted_string_p set_second]])
             to_container]]"

definition params_with_opt_value_p :: "parameter_with_optional_value list producer" where
  "params_with_opt_value_p =
     produce []
       [repeat_clause 0 N_max
          [consume_value_clause
             (produce ([], None)
                [ows, symbol CHR '';'', ows,
                 consume_value_clause (to_lower token_p) set_first,
                 maybe
                   [symbol CHR ''='',
                    alternatives
                      [consume_value_clause token_p set_second_some,
                       consume_value_clause quoted_string_p set_second_some]]])
             to_container]]"

text \<open>\<^verbatim>\<open>details/pct_encoded_symbols.hpp\<close>: the array of three characters is the list of them.\<close>

definition pct_encoded_symbols_p :: "string producer" where
  "pct_encoded_symbols_p =
     produce []
       [consume_value_clause (symbol_p CHR ''%'') to_container,
        consume_value_clause hexdigit_p to_container,
        consume_value_clause hexdigit_p to_container]"

definition pct_encoded_symbols_consumer :: "(string, string) consumer" where
  "pct_encoded_symbols_consumer dest src = dest @ src"

section \<open>The grammars of the hand-written producers\<close>

definition peg_ows :: "char option value_grammar" where
  "peg_ows r = Value (dropWhile is_space r) (if takeWhile is_space r = [] then None else Some CHR '' '')"

definition peg_token :: "string value_grammar" where
  "peg_token r =
     (if takeWhile is_token_char r = [] then NoValue False
      else Value (dropWhile is_token_char r) (takeWhile is_token_char r))"

fun peg_quoted :: "string \<Rightarrow> (string \<times> string) option" where
  "peg_quoted [] = None"
| "peg_quoted (c # r) =
     (if c = CHR 0x22 then Some (r, [])
      else if c = CHR 0x5C then
        (case r of
           [] \<Rightarrow> None
         | d # r' \<Rightarrow> if is_quotable d then map_option (apsnd ((#) d)) (peg_quoted r') else None)
      else if is_qdtext c then map_option (apsnd ((#) c)) (peg_quoted r)
      else None)"

definition peg_quoted_string :: "string value_grammar" where
  "peg_quoted_string r =
     (case r of
        [] \<Rightarrow> NoValue False
      | c # r' \<Rightarrow>
          if c = CHR 0x22 then (case peg_quoted r' of Some (r'', v) \<Rightarrow> Value r'' v | None \<Rightarrow> NoValue False)
          else NoValue False)"

definition peg_quoted_pair :: "char value_grammar" where
  "peg_quoted_pair r =
     (case r of
        c # d # r' \<Rightarrow> if c = CHR 0x5C \<and> is_quotable d then Value r' d else NoValue False
      | _ \<Rightarrow> NoValue False)"

text \<open>One character taken from the stream.\<close>

lemma getch_Cons:
  assumes "src_ok s" and "c # r = rest s"
  shows "getch s = (Some c, advanced s r)" "putback (advanced s r) = s" "rest (advanced s r) = r"
    "advanced s (c # r) = s" "suffix r (rest s)"
proof -
  show sr: "suffix r (rest s)" by (simp add: assms(2)[symmetric] suffix_Cons)
  show "getch s = (Some c, advanced s r)" by (simp add: getch_rest[OF assms(1)] flip: assms(2))
  show "putback (advanced s r) = s" by (rule putback_advanced[OF assms(1) assms(2)[symmetric]])
  show "rest (advanced s r) = r" by (rule rest_advanced[OF sr])
  show "advanced s (c # r) = s" by (simp add: assms(2) advanced_rest[OF assms(1)])
qed

lemma getch_Nil:
  assumes "src_ok s" and "[] = rest s"
  shows "getch s = (None, s)" "advanced s [] = s"
  using advanced_rest[OF assms(1)] by (simp_all add: getch_rest[OF assms(1)] flip: assms(2))

lemma ows_loop_rest:
  "src_ok s \<Longrightarrow> ows_loop s n = (n + length (takeWhile is_space (rest s)), advanced s (dropWhile is_space (rest s)))"
proof (induction "rest s" arbitrary: s n)
  case Nil
  then show ?case by (subst ows_loop.simps) (simp add: getch_Nil flip: Nil(1))
next
  case (Cons c r)
  note g = getch_Cons[OF Cons.prems Cons.hyps(2)]
  show ?case
    using Cons.hyps(1)[of "advanced s r" "n + 1"]
    by (subst ows_loop.simps) (simp add: g(1-4) flip: Cons.hyps(2))
qed

lemma token_loop_rest:
  "src_ok s \<Longrightarrow> \<exists>reason. reason \<noteq> force_only_this_alternative_failed \<and>
     token_loop s a = (reason, a @ takeWhile is_token_char (rest s), advanced s (dropWhile is_token_char (rest s)))"
proof (induction "rest s" arbitrary: s a)
  case Nil
  then show ?case by (subst token_loop.simps) (simp add: getch_Nil flip: Nil(1))
next
  case (Cons c r)
  note g = getch_Cons[OF Cons.prems Cons.hyps(2)]
  show ?case
    using Cons.hyps(1)[of "advanced s r" "a @ [c]"]
    by (subst token_loop.simps) (simp add: g(1-4) flip: Cons.hyps(2))
qed

lemma quoted_loop_rest:
  "src_ok s \<Longrightarrow> (case peg_quoted (rest s) of
      Some (r, v) \<Rightarrow> suffix r (rest s) \<and> quoted_loop s a = (None, a @ v, advanced s r)
    | None \<Rightarrow> \<exists>reason v s'. reason \<noteq> force_only_this_alternative_failed \<and>
        quoted_loop s a = (Some reason, v, s') \<and> same_input s s')"
proof (induction "rest s" arbitrary: s a rule: peg_quoted.induct)
  case 1
  then show ?case by (subst (1 2) quoted_loop.simps) (simp add: getch_Nil same_input_refl flip: 1(1))
next
  case (2 c r)
  note g = getch_Cons[OF 2(4) 2(3)]
  have g2: "getch (advanced s r) = (case r of [] \<Rightarrow> (None, advanced s r) | d # r' \<Rightarrow> (Some d, advanced s r'))"
    by (simp add: getch_rest g(3) split: list.splits)
  have ql: "quoted_loop s a =
     (if c = CHR 0x22 then (None, a, advanced s r)
      else if c = CHR 0x5C then
        (case r of
           [] \<Rightarrow> (Some unexpected_eof, a, advanced s r)
         | d # r' \<Rightarrow> if is_quotable d then quoted_loop (advanced s r') (a @ [d])
                    else (Some unexpected_character, a, putback (advanced s r')))
      else if is_qdtext c then quoted_loop (advanced s r) (a @ [c])
      else (Some unexpected_character, a, s))"
    by (subst quoted_loop.simps) (simp add: g g2 split: list.splits)
  have si: "same_input s x" if "same_input (advanced s y) x" for x y
    using same_input_trans[OF same_input_advanced that] .
  have ok: "same_input s (putback (advanced s y))" for y
    by (auto simp: same_input_def putback_def src_ok_def advanced_def)
  note sr = 2(3)[symmetric]
  consider "c = CHR 0x22" | "c = CHR 0x5C" "r = []" | d r' where "c = CHR 0x5C" "r = d # r'"
    | "c \<noteq> CHR 0x22" "c \<noteq> CHR 0x5C" "is_qdtext c" | "c \<noteq> CHR 0x22" "c \<noteq> CHR 0x5C" "\<not> is_qdtext c"
    by (cases r) blast+
  then show ?case
  proof cases
    case 1
    then show ?thesis by (simp add: sr ql suffix_Cons)
  next
    case 2
    then show ?thesis by (auto simp: sr ql same_input_advanced)
  next
    case (3 d r')
    have r': "rest (advanced s r') = r'"
      by (rule rest_advanced) (simp add: 3 sr suffix_Cons)
    have "c \<noteq> CHR 0x22" using 3 by simp
    with 2(1)[OF _ 3(1), of d "advanced s r'" "a @ [d]"] 3 show ?thesis
      by (cases "is_quotable d") (auto simp: sr ql r' suffix_Cons ok split: option.splits intro: si)
  next
    case 4
    with 2(2)[of "advanced s r" "a @ [c]"] show ?thesis
      by (auto simp: sr ql g(3) suffix_Cons split: option.splits intro: si)
  next
    case 5
    then show ?thesis by (auto simp: sr ql intro: same_input_refl[OF 2(4)])
  qed
qed

lemma ows_produces: "produces ows_p peg_ows"
  by (auto simp: produces_def ows_p_def peg_ows_def ows_loop_rest suffix_dropWhile)

lemma token_produces: "produces token_p peg_token"
  unfolding produces_def
proof (intro allI impI)
  fix s assume s: "src_ok s"
  obtain reason where "reason \<noteq> force_only_this_alternative_failed"
    and "token_loop s [] = (reason, takeWhile is_token_char (rest s), advanced s (dropWhile is_token_char (rest s)))"
    using token_loop_rest[OF s, of "[]"] by auto
  then show "value_outcome_at s (peg_token (rest s)) (token_p s)"
    by (auto simp: token_p_def peg_token_def suffix_dropWhile same_input_advanced)
qed

lemma quoted_string_produces: "produces quoted_string_p peg_quoted_string"
  unfolding produces_def
proof (intro allI impI)
  fix s assume s: "src_ok s"
  show "value_outcome_at s (peg_quoted_string (rest s)) (quoted_string_p s)"
  proof (cases "rest s")
    case Nil
    with getch_Nil(1)[OF s] show ?thesis
      by (simp add: quoted_string_p_def peg_quoted_string_def backto_same_input[OF same_input_refl[OF s] s] same_input_refl[OF s])
  next
    case (Cons c r)
    note g = getch_Cons[OF s Cons[symmetric]]
    have si: "backto (src_index s) x = s" if "same_input (advanced s r) x" for x
      by (rule backto_same_input[OF same_input_trans[OF same_input_advanced that] s])
    have "suffix x (c # r)" if "suffix x r" for x using that by (simp add: suffix_Cons)
    with quoted_loop_rest[of "advanced s r" "[]"] Cons show ?thesis
      by (auto simp: quoted_string_p_def peg_quoted_string_def g s si same_input_refl[OF s] split: option.splits)
  qed
qed

lemma quoted_pair_produces: "produces quoted_pair_p peg_quoted_pair"
  unfolding produces_def
proof (intro allI impI)
  fix s assume s: "src_ok s"
  note b = backto_same_input[OF same_input_refl[OF s] s]
  show "value_outcome_at s (peg_quoted_pair (rest s)) (quoted_pair_p s)"
  proof (cases "rest s")
    case Nil
    with getch_Nil(1)[OF s] show ?thesis
      by (simp add: quoted_pair_p_def peg_quoted_pair_def b same_input_refl[OF s])
  next
    case (Cons c r)
    note g = getch_Cons[OF s Cons[symmetric]]
    have "getch (advanced s r) = (case r of [] \<Rightarrow> (None, advanced s r) | d # r' \<Rightarrow> (Some d, advanced s r'))"
      by (simp add: getch_rest g(3) split: list.splits)
    with Cons show ?thesis
      by (cases r) (auto simp: quoted_pair_p_def peg_quoted_pair_def g s suffix_Cons same_input_refl[OF s])
  qed
qed

definition peg_clause_result :: "'t \<Rightarrow> 't grammar \<Rightarrow> 't value_grammar" where
  "peg_clause_result d g r = (case g r d of Match r' t \<Rightarrow> Value r' t | Miss b _ \<Rightarrow> NoValue b)"

lemma clause_result_produces: "refines c g \<Longrightarrow> produces (clause_result d c) (peg_clause_result d g)"
  unfolding produces_def
proof (intro allI impI)
  fix s assume "refines c g" and s: "src_ok s"
  from refinesD[OF this, of d] show "value_outcome_at s (peg_clause_result d g (rest s)) (clause_result d c s)"
    by (cases "g (rest s) d") (auto simp: peg_clause_result_def clause_result_def)
qed

lemma peg_basics [peg]:
  "regular_p ows_p" "regular_p token_p" "regular_p quoted_string_p" "regular_p quoted_pair_p"
  "producer_grammar ows_p = peg_ows" "producer_grammar token_p = peg_token"
  "producer_grammar quoted_string_p = peg_quoted_string" "producer_grammar quoted_pair_p = peg_quoted_pair"
  using ows_produces token_produces quoted_string_produces quoted_pair_produces
  by (blast intro: produces_regular producer_grammar_unique)+

lemma peg_clause_results [peg]:
  assumes "regular c"
  shows "regular_p (clause_result d c)"
    and "producer_grammar (clause_result d c) = peg_clause_result d (clause_grammar c)"
  using clause_result_produces[OF assms[unfolded regular_def], of d]
  by (auto intro: produces_regular producer_grammar_unique)

lemmas basic_factory_defs [peg] = alpha_symbol_p_def alphanum_symbol_p_def vchar_symbol_p_def
  ctext_symbol_p_def token_symbol_p_def ows_def

lemma qvalue_p_transformed:
  "qvalue_p = transformed_value_producer
     (produce 0
        [alternatives
           [sequence_clause
              [symbol CHR ''0'',
               maybe
                 [symbol CHR ''.'',
                  maybe
                    [consume_value_clause digit_p (digit_consumer 100),
                     maybe
                       [consume_value_clause digit_p (digit_consumer 10),
                        maybe [consume_value_clause digit_p (digit_consumer 1)]]]]],
            sequence_clause
              [consume_value_clause (symbol_p CHR ''1'') (digit_consumer 1000),
               maybe
                 [symbol CHR ''.'',
                  maybe [symbol CHR ''0'', maybe [symbol CHR ''0'', maybe [symbol CHR ''0'']]]]]]])
     (\<lambda>v. \<lparr>qv_value = v\<rparr>)"
  by (rule ext) (simp add: qvalue_p_def transformed_value_producer_def)

lemma regular_qvalue [peg]: "regular_p qvalue_p" "regular_p weight_p"
  by (simp_all add: qvalue_p_transformed weight_p_def peg)

lemma regular_lists [peg]:
  assumes "regular_p p"
  shows "regular_p (non_empty_comma_separated_list_p p)" "regular_p (maybe_empty_comma_separated_list_p p)"
  using assms by (simp_all add: non_empty_comma_separated_list_p_def maybe_empty_comma_separated_list_p_def peg)

lemma regular_params [peg]:
  "regular_p params_with_value_p" "regular_p params_with_opt_value_p" "regular_p pct_encoded_symbols_p"
  by (simp_all add: params_with_value_p_def params_with_opt_value_p_def pct_encoded_symbols_p_def peg)

section \<open>What the basic parsers accept\<close>

subsection \<open>Tokens and quoted strings\<close>

definition is_token :: "string \<Rightarrow> bool" where
  "is_token w \<longleftrightarrow> w \<noteq> [] \<and> list_all is_token_char w"

definition stops :: "(char \<Rightarrow> bool) \<Rightarrow> string \<Rightarrow> bool" where
  "stops P r \<longleftrightarrow> r = [] \<or> \<not> P (hd r)"

lemma takeWhile_stops: "list_all P w \<Longrightarrow> stops P r \<Longrightarrow> takeWhile P (w @ r) = w \<and> dropWhile P (w @ r) = r"
  by (induction w) (cases r; auto simp: stops_def)+

lemma peg_token_append: "is_token w \<Longrightarrow> stops is_token_char r \<Longrightarrow> peg_token (w @ r) = Value r w"
  by (simp add: is_token_def peg_token_def takeWhile_stops)

text \<open>A quoted string as a sender writes it: quotes and backslashes are escaped.\<close>

definition quote_char :: "char \<Rightarrow> string" where
  "quote_char c = (if c = CHR 0x22 \<or> c = CHR 0x5C then [CHR 0x5C, c] else [c])"

definition quoted :: "string \<Rightarrow> string" where
  "quoted w = CHR 0x22 # concat (map quote_char w) @ [CHR 0x22]"

lemma char_code_eq: "c = d \<longleftrightarrow> (of_char c :: nat) = of_char d"
  by (metis char_of_char)

lemmas char_classes = is_alpha_def is_digit_def is_vchar_def is_obs_text_def is_qdtext_def is_ctext_def
  is_token_char_def is_quotable_def is_alphanum_def in_range_def SP_def HTAB_def is_space_def

lemma quotable_cases: "is_quotable c \<Longrightarrow> c \<noteq> CHR 0x22 \<Longrightarrow> c \<noteq> CHR 0x5C \<Longrightarrow> is_qdtext c"
  by (simp add: char_classes char_code_eq) arith

lemma peg_quoted_append:
  "list_all is_quotable w \<Longrightarrow> peg_quoted (concat (map quote_char w) @ CHR 0x22 # r) = Some (r, w)"
  by (induction w) (auto simp: quote_char_def quotable_cases)

lemma peg_quoted_string_append: "list_all is_quotable w \<Longrightarrow> peg_quoted_string (quoted w @ r) = Value r w"
  by (simp add: peg_quoted_string_def quoted_def peg_quoted_append)

text \<open>The quoted string does not depend on how its sender escaped it: every accepted text denotes quotable characters.\<close>

lemma peg_quoted_sound: "peg_quoted r = Some (r', w) \<Longrightarrow> list_all is_quotable w"
proof (induction r arbitrary: r' w rule: peg_quoted.induct)
  case (2 c r)
  have "is_quotable c" if "is_qdtext c"
    using that by (simp add: char_classes char_code_eq) arith
  with 2 show ?case by (auto split: if_splits list.splits)
qed simp

subsection \<open>Quality values\<close>

lemmas peg_ops = peg_sequence_def peg_option_def peg_not_def peg_and_def peg_forced_def peg_repeat_def
  peg_consume_def peg_produce_def peg_map_def peg_char_def peg_clause_result_def
  any_symbol_predicate_def particular_symbol_predicate_def caseless_particular_symbol_predicate_def
  any_value_skipper_def as_result_def to_container_def

lemma qvalue_grammar_fraction:
  assumes "is_digit a" "is_digit b" "is_digit c"
  shows "producer_grammar qvalue_p (CHR ''0'' # CHR ''.'' # a # b # c # r) =
    Value r \<lparr>qv_value = digit_consumer 1 (digit_consumer 10 (digit_consumer 100 0 a) b) c\<rparr>"
  using assms by (simp add: qvalue_p_transformed peg peg_ops)

lemma qvalue_grammar_one: "producer_grammar qvalue_p (''1.000'' @ r) = Value r qvalue_max"
  by (simp add: qvalue_p_transformed peg peg_ops digit_consumer_def qvalue_max_def qvalue_maximum_def)

lemma digit_of_byte:
  assumes "unat (d :: u16) < 10"
  shows "is_digit (char_of_byte (48 + ucast d))"
    and "digit_consumer m t (char_of_byte (48 + ucast d)) = t + m * d"
proof -
  have u: "unat (48 + ucast d :: u8) = 48 + unat d"
    using assms by (simp add: unat_word_ariths unsigned_ucast_eq take_bit_eq_mod)
  have c: "of_char (char_of_byte (48 + ucast d)) = 48 + unat d"
    using unat_byte_of_char[of "char_of_byte (48 + ucast d)"] by (simp add: u)
  show "is_digit (char_of_byte (48 + ucast d))"
    using assms by (simp add: is_digit_def c)
  show "digit_consumer m t (char_of_byte (48 + ucast d)) = t + m * d"
    by (simp add: digit_consumer_def c)
qed

lemma qvalue_grammar_text:
  assumes "qv_value q \<le> 1000"
  shows "producer_grammar qvalue_p (qvalue_as_string q @ r) = Value r q"
proof (cases "qv_value q = 1000")
  case True
  then show ?thesis
    using qvalue_grammar_one[of r] by (cases q) (simp add: qvalue_as_string_def qvalue_max_def qvalue_maximum_def)
next
  case False
  let ?v = "qv_value q"
  have lt: "unat ?v < 1000"
    using assms False by (simp add: word_le_nat_alt word_unat_eq_iff)
  have d1: "unat (?v div 100) < 10" and d2: "unat (?v mod 100 div 10) < 10" and d3: "unat (?v mod 100 mod 10) < 10"
    using lt by (simp_all add: unat_div_distrib unat_mod_distrib)
  have "?v = 100 * (?v div 100) + (10 * (?v mod 100 div 10) + ?v mod 100 mod 10)"
    by (simp only: mult_div_mod_eq)
  then have "100 * (?v div 100) + 10 * (?v mod 100 div 10) + ?v mod 100 mod 10 = ?v"
    by (simp add: add.assoc)
  then show ?thesis
    using False qvalue_grammar_fraction[OF digit_of_byte(1)[OF d1] digit_of_byte(1)[OF d2] digit_of_byte(1)[OF d3], of r]
    unfolding digit_of_byte(2)[OF d1] digit_of_byte(2)[OF d2] digit_of_byte(2)[OF d3]
    by (simp add: qvalue_as_string_def Let_def qvalue_maximum_def)
qed

lemma digit_consumer_bound:
  assumes "is_digit c"
  shows "unat (digit_consumer m t c) \<le> unat t + unat m * 9"
proof -
  let ?d = "of_char c - 48 :: nat"
  have d: "?d \<le> 9" using assms by (auto simp: is_digit_def)
  have "unat (digit_consumer m t c) = (unat t + unat m * ?d) mod 65536"
    using d by (simp add: digit_consumer_def unat_word_ariths unat_of_nat mod_simps)
  also have "\<dots> \<le> unat t + unat m * ?d" by (rule mod_less_eq_dividend)
  also have "\<dots> \<le> unat t + unat m * 9" using d by (intro add_left_mono mult_le_mono2)
  finally show ?thesis .
qed

lemma qvalue_grammar_bound:
  assumes "producer_grammar qvalue_p r = Value r' q"
  shows "unat (qv_value q) \<le> 1000"
proof -
  have b1: "unat (digit_consumer 100 0 a) \<le> 900" if "is_digit a" for a
    using digit_consumer_bound[OF that, of 100 0] by simp
  have b2: "unat (digit_consumer 10 (digit_consumer 100 0 a) b) \<le> 990" if "is_digit a" "is_digit b" for a b
    using digit_consumer_bound[OF that(2), of 10 "digit_consumer 100 0 a"] b1[OF that(1)] by simp
  have b3: "unat (digit_consumer 1 (digit_consumer 10 (digit_consumer 100 0 a) b) c) \<le> 999"
    if "is_digit a" "is_digit b" "is_digit c" for a b c
    using digit_consumer_bound[OF that(3), of 1 "digit_consumer 10 (digit_consumer 100 0 a) b"] b2[OF that(1,2)] by simp
  have "unat (digit_consumer 1000 0 CHR ''1'') = 1000" by (simp add: digit_consumer_def)
  with assms show ?thesis
    by (auto simp: qvalue_p_transformed peg peg_ops dest: b1 b2 b3
        split: list.splits if_splits outcome.splits value_outcome.splits)
qed

lemma weight_grammar_text:
  assumes "qv_value q \<le> 1000"
  shows "producer_grammar weight_p ('';q='' @ qvalue_as_string q @ r) = Value r q"
proof -
  have "to_lower_case CHR ''q'' = CHR ''q''" by (simp add: to_lower_case_name)
  then show ?thesis
    using qvalue_grammar_text[OF assms, of r]
    by (simp add: weight_p_def peg peg_ops peg_ows_def is_space_def SP_def HTAB_def)
qed

text \<open>
  Quality values: the text that \<^verbatim>\<open>qvalue_t::as_string\<close> writes for any value up to 1.000 is read back
  as that value, and no text at all is read as a value above 1000 thousandths, so the unchecked
  construction from \<^verbatim>\<open>trusted\<close> is justified.
\<close>

theorem qvalue_roundtrip_and_bound:
  "(qv_value q \<le> 1000 \<longrightarrow> try_parse (qvalue_as_string q) qvalue_p = Inr q) \<and>
   (\<forall>w q'. try_parse w qvalue_p = Inr q' \<longrightarrow> qvalue_untrusted (qv_value q') = Some q')"
proof (intro conjI allI impI)
  assume q: "qv_value q \<le> 1000"
  have "\<not> is_space (char_of_byte (48 + ucast d))" if "unat (d :: u16) < 10" for d
    using digit_of_byte(1)[OF that] by (auto simp: is_space_def SP_def HTAB_def is_digit_def)
  moreover have "unat (qv_value q mod 100 mod 10) < 10" by (simp add: unat_mod_distrib)
  ultimately have "remove_trailing_spaces (qvalue_as_string q) = qvalue_as_string q"
    by (intro remove_trailing_spaces_id) (simp add: qvalue_as_string_def Let_def is_space_def SP_def HTAB_def)
  then show "try_parse (qvalue_as_string q) qvalue_p = Inr q"
    using qvalue_grammar_text[OF q, of "[]"] by (simp add: try_parse_ok_iff peg)
next
  fix w q' assume "try_parse w qvalue_p = Inr q'"
  then have "unat (qv_value q') \<le> 1000"
    using qvalue_grammar_bound by (auto simp: try_parse_ok_iff peg)
  then show "qvalue_untrusted (qv_value q') = Some q'"
    by (cases q') (simp add: qvalue_untrusted_def qvalue_maximum_def word_less_nat_alt)
qed

theorem qvalue_roundtrip_and_bound_witness:
  "try_parse (qvalue_as_string \<lparr>qv_value = 725\<rparr>) qvalue_p = Inr \<lparr>qv_value = 725\<rparr>"
  using qvalue_roundtrip_and_bound[of "\<lparr>qv_value = 725\<rparr>"] by simp

subsection \<open>Comma-separated lists\<close>

text \<open>
  What may follow an element: the end of the text, or white space and a comma.  The text of a list is its
  first element and then, for every further one, the white space before its comma and after it.
\<close>

definition list_stop :: "string \<Rightarrow> bool" where
  "list_stop r \<longleftrightarrow> r = [] \<or> (\<exists>sp r'. r = sp @ CHR '','' # r' \<and> list_all is_space sp)"

definition list_tail :: "('x \<Rightarrow> string) \<Rightarrow> (string \<times> string \<times> 'x) list \<Rightarrow> string" where
  "list_tail elem gs = concat (map (\<lambda>(pre, post, x). pre @ CHR '','' # post @ elem x) gs)"

definition gaps_ok :: "('x \<Rightarrow> bool) \<Rightarrow> (string \<times> string \<times> 'x) list \<Rightarrow> bool" where
  "gaps_ok ok gs \<longleftrightarrow> list_all (\<lambda>(pre, post, x). list_all is_space pre \<and> list_all is_space post \<and> ok x) gs"

lemma list_tail_Cons: "list_tail elem ((pre, post, x) # gs) = pre @ CHR '','' # post @ elem x @ list_tail elem gs"
  by (simp add: list_tail_def)

lemma gaps_ok_Cons:
  "gaps_ok ok ((pre, post, x) # gs) \<longleftrightarrow> list_all is_space pre \<and> list_all is_space post \<and> ok x \<and> gaps_ok ok gs"
  by (simp add: gaps_ok_def)

lemma list_tail_stop:
  assumes "gaps_ok ok gs"
  shows "list_stop (list_tail elem gs)"
proof (cases gs)
  case Nil
  then show ?thesis by (simp add: list_tail_def list_stop_def)
next
  case (Cons gap gs')
  obtain pre post x where "gap = (pre, post, x)" by (cases gap)
  with assms Cons show ?thesis
    unfolding list_stop_def by (auto simp: list_tail_Cons gaps_ok_Cons simp del: append_assoc)
qed

lemma dropWhile_space: "list_all is_space sp \<Longrightarrow> r = [] \<or> \<not> is_space (hd r) \<Longrightarrow> dropWhile is_space (sp @ r) = r"
  using takeWhile_stops[of is_space sp r] by (simp add: stops_def)

definition comma_item :: "'a value_grammar \<Rightarrow> 'a list grammar list" where
  "comma_item g =
     [peg_consume peg_ows any_value_skipper,
      peg_consume (peg_char (particular_symbol_predicate CHR '','')) any_value_skipper,
      peg_option [peg_consume peg_ows any_value_skipper, peg_consume g to_container]]"

lemma comma_item_end: "peg_all (comma_item g) [] t = Miss False t"
  by (simp add: comma_item_def peg_ops peg_ows_def)

lemma comma_item_step:
  assumes "list_all is_space pre" "list_all is_space post" "w \<noteq> []" "\<not> is_space (hd w)" "g (w @ r) = Value r v"
  shows "peg_all (comma_item g) (pre @ CHR '','' # post @ w @ r) t = Match r (t @ [v])"
proof -
  have "dropWhile is_space (pre @ CHR '','' # post @ w @ r) = CHR '','' # post @ w @ r"
    by (rule dropWhile_space[OF assms(1)]) (simp add: is_space_def SP_def HTAB_def)
  moreover have "dropWhile is_space (post @ w @ r) = w @ r"
    by (rule dropWhile_space[OF assms(2)]) (use assms in simp)
  ultimately show ?thesis
    using assms(5) by (simp add: comma_item_def peg_ops peg_ows_def)
qed

text \<open>The interface a list needs of its elements: texts \<open>elem x\<close>, read as \<open>val x\<close>, in front of whatever ends an element.\<close>

locale list_element =
  fixes p :: "'a producer" and elem :: "'x \<Rightarrow> string" and val :: "'x \<Rightarrow> 'a" and ok :: "'x \<Rightarrow> bool"
  assumes regular: "regular_p p"
    and parses: "ok x \<Longrightarrow> list_stop r \<Longrightarrow> producer_grammar p (elem x @ r) = Value r (val x)"
    and visible: "ok x \<Longrightarrow> elem x \<noteq> [] \<and> \<not> is_space (hd (elem x)) \<and> hd (elem x) \<noteq> CHR '','' \<and> \<not> is_space (last (elem x))"
begin

lemma tail_loop:
  assumes "gaps_ok ok gs" and "length gs \<le> n"
  shows "peg_loop (comma_item (producer_grammar p)) n (list_tail elem gs) t =
    (length gs, [], t @ map (\<lambda>(pre, post, x). val x) gs)"
  using assms
proof (induction gs arbitrary: n t)
  case Nil
  then show ?case by (cases n) (simp_all add: list_tail_def comma_item_end)
next
  case (Cons gap gs)
  obtain pre post x where gap: "gap = (pre, post, x)" by (cases gap)
  obtain m where n: "n = Suc m" and m: "length gs \<le> m" using Cons.prems(2) by (cases n) auto
  from Cons.prems(1) have prems: "list_all is_space pre" "list_all is_space post" "ok x" "gaps_ok ok gs"
    by (simp_all add: gap gaps_ok_Cons)
  have "peg_all (comma_item (producer_grammar p)) (list_tail elem (gap # gs)) t =
      Match (list_tail elem gs) (t @ [val x])"
    unfolding gap list_tail_Cons
    using prems visible[OF prems(3)] parses[OF prems(3) list_tail_stop[OF prems(4)]]
    by (intro comma_item_step) auto
  with Cons.IH[OF prems(4) m, of "t @ [val x]"] show ?case by (simp add: n gap)
qed

lemma no_leading_commas:
  assumes "ok x"
  shows "peg_loop
     [peg_consume (peg_char (particular_symbol_predicate CHR '','')) any_value_skipper,
      peg_consume peg_ows any_value_skipper] n (elem x @ r) t = (0, elem x @ r, t)"
  using visible[OF assms] by (cases n; cases "elem x") (auto simp: peg_ops)

lemma list_grammars:
  assumes "ok x" and "gaps_ok ok gs" and "length gs \<le> N_max"
  shows "producer_grammar (non_empty_comma_separated_list_p p) (elem x @ list_tail elem gs) =
      Value [] (val x # map (\<lambda>(pre, post, x). val x) gs)"
    and "producer_grammar (maybe_empty_comma_separated_list_p p) (elem x @ list_tail elem gs) =
      Value [] (val x # map (\<lambda>(pre, post, x). val x) gs)"
proof -
  note first = parses[OF assms(1) list_tail_stop[OF assms(2)]]
  show "producer_grammar (non_empty_comma_separated_list_p p) (elem x @ list_tail elem gs) =
      Value [] (val x # map (\<lambda>(pre, post, x). val x) gs)"
    using tail_loop[OF assms(2,3)]
    by (simp add: non_empty_comma_separated_list_p_def peg regular no_leading_commas[OF assms(1)]
        comma_item_def first peg_clause_result_def peg_sequence_def peg_repeat_def
        peg_consume_def[of "producer_grammar p"] to_container_def)
  obtain c w where "elem x = c # w" "c \<noteq> CHR '',''" using visible[OF assms(1)] by (cases "elem x") auto
  then have "peg_consume (peg_char (particular_symbol_predicate CHR '','')) any_value_skipper
      (elem x @ list_tail elem gs) ([] :: 'a list) = Miss False []"
    by (simp add: peg_ops)
  then show "producer_grammar (maybe_empty_comma_separated_list_p p) (elem x @ list_tail elem gs) =
      Value [] (val x # map (\<lambda>(pre, post, x). val x) gs)"
    using tail_loop[OF assms(2,3)]
    by (simp add: maybe_empty_comma_separated_list_p_def peg regular comma_item_def first
        peg_clause_result_def peg_option_def[of "[peg_choice _, peg_repeat _ _ _]"] peg_repeat_def
        peg_consume_def[of "producer_grammar p"] to_container_def)
qed

lemma list_text_trimmed:
  assumes "ok x" and "gaps_ok ok gs"
  shows "remove_trailing_spaces (elem x @ list_tail elem gs) = elem x @ list_tail elem gs"
proof (rule remove_trailing_spaces_id, cases gs rule: rev_cases)
  case Nil
  then show "elem x @ list_tail elem gs = [] \<or> \<not> is_space (last (elem x @ list_tail elem gs))"
    using visible[OF assms(1)] by (simp add: list_tail_def)
next
  case (snoc gs' gap)
  obtain pre post y where "gap = (pre, post, y)" by (cases gap)
  with snoc assms(2) have "ok y" and "list_tail elem gs = list_tail elem gs' @ pre @ CHR '','' # post @ elem y"
    by (auto simp: gaps_ok_def list_tail_def)
  then show "elem x @ list_tail elem gs = [] \<or> \<not> is_space (last (elem x @ list_tail elem gs))"
    using visible[of y] by simp
qed

lemma lists_parsed:
  assumes "ok x" and "gaps_ok ok gs" and "length gs \<le> N_max"
  shows "try_parse (elem x @ list_tail elem gs) (non_empty_comma_separated_list_p p) =
      Inr (val x # map (\<lambda>(pre, post, x). val x) gs)"
    and "try_parse (elem x @ list_tail elem gs) (maybe_empty_comma_separated_list_p p) =
      Inr (val x # map (\<lambda>(pre, post, x). val x) gs)"
  using list_grammars[OF assms]
  by (simp_all add: try_parse_ok_iff peg regular list_text_trimmed[OF assms(1,2)])

end

text \<open>Tokens in any letter case.\<close>

lemma token_char_visible: "is_token_char c \<Longrightarrow> \<not> is_space c \<and> c \<noteq> CHR '',''"
  by (auto simp: char_classes char_code_eq)

lemma list_stop_token:
  assumes "list_stop r"
  shows "stops is_token_char r"
proof (cases "r = []")
  case False
  then obtain sp r' where "r = sp @ CHR '','' # r'" "list_all is_space sp" using assms by (auto simp: list_stop_def)
  then have "is_space (hd r) \<or> hd r = CHR '',''" by (cases sp) auto
  then show ?thesis using token_char_visible unfolding stops_def by blast
qed (simp add: stops_def)

lemma token_visible: "is_token w \<Longrightarrow> w \<noteq> [] \<and> \<not> is_space (hd w) \<and> hd w \<noteq> CHR '','' \<and> \<not> is_space (last w)"
proof -
  assume w: "is_token w"
  then have "is_token_char (hd w)" "is_token_char (last w)" "w \<noteq> []" by (auto simp: is_token_def list_all_iff)
  with token_char_visible show ?thesis by blast
qed

interpretation lower_tokens: list_element "to_lower token_p" "\<lambda>w. w" "map to_lower_case" is_token
proof unfold_locales
  show "regular_p (to_lower token_p)" by (simp add: peg)
next
  fix w r assume "is_token w" "list_stop r"
  then show "producer_grammar (to_lower token_p) (w @ r) = Value r (map to_lower_case w)"
    by (simp add: peg peg_map_def peg_token_append list_stop_token)
qed (use token_visible in blast)

subsection \<open>Parameters\<close>

text \<open>The value of a parameter as it is written, and what it denotes.\<close>

datatype written_value = As_token string | As_quoted string

fun value_text :: "written_value \<Rightarrow> string" where
  "value_text (As_token w) = w"
| "value_text (As_quoted w) = quoted w"

fun value_of :: "written_value \<Rightarrow> string" where
  "value_of (As_token w) = w"
| "value_of (As_quoted w) = w"

fun value_ok :: "written_value \<Rightarrow> bool" where
  "value_ok (As_token w) \<longleftrightarrow> is_token w"
| "value_ok (As_quoted w) \<longleftrightarrow> list_all is_quotable w"

lemma not_token_chars [simp]:
  "\<not> is_token_char CHR 0x22" "\<not> is_token_char CHR '';''" "\<not> is_token_char CHR ''=''"
  "\<not> is_token_char CHR '' ''" "\<not> is_token_char CHR '',''" "\<not> is_token_char CHR ''/''"
  by (simp_all add: char_classes)

lemma not_space_chars [simp]:
  "\<not> is_space CHR 0x22" "\<not> is_space CHR '';''" "\<not> is_space CHR ''=''" "is_space CHR '' ''" "\<not> is_space CHR '',''"
  by (simp_all add: char_classes)

lemma written_value_grammar:
  assumes "value_ok v" and "stops is_token_char r"
  shows "peg_choice [peg_consume peg_token f, peg_consume peg_quoted_string f] (value_text v @ r) t =
    Match r (f t (value_of v))"
proof (cases v)
  case (As_token w)
  with assms show ?thesis by (simp add: peg_consume_def peg_token_append)
next
  case (As_quoted w)
  have "peg_token (quoted w @ r) = NoValue False" by (simp add: peg_token_def quoted_def)
  with As_quoted assms show ?thesis by (simp add: peg_consume_def peg_quoted_string_append)
qed

record written_param =
  wp_before :: string
  wp_after :: string
  wp_name :: string

definition param_head :: "written_param \<Rightarrow> string" where
  "param_head w = wp_before w @ CHR '';'' # wp_after w @ wp_name w"

definition head_ok :: "written_param \<Rightarrow> bool" where
  "head_ok w \<longleftrightarrow> list_all is_space (wp_before w) \<and> list_all is_space (wp_after w) \<and> is_token (wp_name w)"

text \<open>What may follow a list of parameters.\<close>

definition params_stop :: "string \<Rightarrow> bool" where
  "params_stop r \<longleftrightarrow> stops is_token_char r \<and> stops (\<lambda>c. c = CHR '';'') (dropWhile is_space r)"

lemma list_stop_params:
  assumes "list_stop r"
  shows "params_stop r"
proof (cases "r = []")
  case False
  then obtain sp r' where "r = sp @ CHR '','' # r'" "list_all is_space sp" using assms by (auto simp: list_stop_def)
  then have "dropWhile is_space r = CHR '','' # r'"
    by (simp add: dropWhile_space)
  then show ?thesis using list_stop_token[OF assms] by (simp add: params_stop_def stops_def)
qed (simp add: params_stop_def stops_def)

lemma head_stops: "head_ok w \<Longrightarrow> stops is_token_char (param_head w @ r)"
  using token_char_visible
  by (cases "wp_before w") (auto simp: stops_def param_head_def head_ok_def)

lemma param_head_grammar:
  assumes "head_ok w" and "stops is_token_char r"
  shows "peg_all
     (peg_consume peg_ows any_value_skipper #
      peg_consume (peg_char (particular_symbol_predicate CHR '';'')) any_value_skipper #
      peg_consume peg_ows any_value_skipper #
      peg_consume (peg_map peg_token (map to_lower_case)) set_first # gs) (param_head w @ r) t =
    peg_all gs r (map to_lower_case (wp_name w), snd t)"
proof -
  have "dropWhile is_space (param_head w @ r) = CHR '';'' # wp_after w @ wp_name w @ r"
    using assms(1) dropWhile_space[of "wp_before w" "CHR '';'' # wp_after w @ wp_name w @ r"]
    by (simp add: head_ok_def param_head_def)
  moreover have "dropWhile is_space (wp_after w @ wp_name w @ r) = wp_name w @ r"
    using assms(1) token_visible[of "wp_name w"] by (intro dropWhile_space) (auto simp: head_ok_def)
  ultimately show ?thesis
    using assms by (simp add: peg_ops peg_ows_def head_ok_def peg_token_append set_first_def)
qed

lemma params_end:
  assumes "params_stop r"
  shows "peg_all
     (peg_consume peg_ows any_value_skipper #
      peg_consume (peg_char (particular_symbol_predicate CHR '';'')) any_value_skipper # gs) r t = Miss False t"
proof (cases "dropWhile is_space r")
  case Nil
  then show ?thesis by (simp add: peg_consume_def peg_ows_def peg_char_def any_value_skipper_def del: dropWhile_eq_Nil_conv)
next
  case (Cons c r')
  with assms have "c \<noteq> CHR '';''" by (simp add: params_stop_def stops_def)
  with Cons show ?thesis
    by (simp add: peg_consume_def peg_ows_def peg_char_def any_value_skipper_def particular_symbol_predicate_def)
qed

text \<open>A repetition that collects values.\<close>

lemma peg_loop_items:
  assumes item: "\<And>x r'. ok x \<Longrightarrow> follow r' \<Longrightarrow> g (elem x @ r') = Value r' (val x)"
    and start: "\<And>x r'. ok x \<Longrightarrow> follow (elem x @ r')"
    and "follow r" and "g r = NoValue b" and "list_all ok xs" and "length xs \<le> n"
  shows "peg_loop [peg_consume g to_container] n (concat (map elem xs) @ r) t = (length xs, r, t @ map val xs)"
  using assms(5,6)
proof (induction xs arbitrary: n t)
  case Nil
  then show ?case using assms(4) by (cases n) (simp_all add: peg_consume_def)
next
  case (Cons x xs)
  obtain m where n: "n = Suc m" and m: "length xs \<le> m" using Cons.prems(2) by (cases n) auto
  have "follow (concat (map elem xs) @ r)"
    using Cons.prems(1) assms(3) start by (cases xs) auto
  then have "g (elem x @ concat (map elem xs) @ r) = Value (concat (map elem xs) @ r) (val x)"
    using Cons.prems(1) by (intro item) auto
  then show ?case
    using Cons.IH[OF _ m, of "t @ [val x]"] Cons.prems(1) by (simp add: n peg_consume_def to_container_def)
qed

definition param_text :: "written_param \<times> written_value \<Rightarrow> string" where
  "param_text wv = param_head (fst wv) @ CHR ''='' # value_text (snd wv)"

definition param_of :: "written_param \<times> written_value \<Rightarrow> parameter_with_mandatory_value" where
  "param_of wv = (map to_lower_case (wp_name (fst wv)), value_of (snd wv))"

definition param_ok :: "written_param \<times> written_value \<Rightarrow> bool" where
  "param_ok wv \<longleftrightarrow> head_ok (fst wv) \<and> value_ok (snd wv)"

lemma params_grammar:
  assumes "list_all param_ok ps" and "length ps \<le> N_max" and "params_stop r"
  shows "producer_grammar params_with_value_p (concat (map param_text ps) @ r) = Value r (map param_of ps)"
proof -
  define g where "g = producer_grammar (produce ([], [])
                [ows, symbol CHR '';'', ows,
                 consume_value_clause (to_lower token_p) set_first,
                 symbol CHR ''='',
                 alternatives
                   [consume_value_clause token_p set_second, consume_value_clause quoted_string_p set_second]])"
  have item: "g (param_text x @ r') = Value r' (param_of x)" if "param_ok x" "stops is_token_char r'" for x r'
  proof -
    have "stops is_token_char (CHR ''='' # value_text (snd x) @ r')" by (simp add: stops_def)
    with that show ?thesis
      by (simp add: g_def peg peg_produce_def param_text_def param_ok_def param_head_grammar del: peg_all.simps)
         (simp add: peg_consume_def[of "peg_char _"] peg_char_def particular_symbol_predicate_def
           any_value_skipper_def written_value_grammar param_of_def set_second_def del: peg_choice.simps)
  qed
  have start: "stops is_token_char (param_text x @ r')" if "param_ok x" for x r'
    using that by (simp add: param_text_def param_ok_def head_stops)
  have stop: "g r = NoValue False"
    by (simp add: g_def peg peg_produce_def params_end[OF assms(3)] del: peg_all.simps)
  have "peg_loop [peg_consume g to_container] N_max (concat (map param_text ps) @ r) [] =
      (length ps, r, [] @ map param_of ps)"
    using assms
    by (intro peg_loop_items[where ok = param_ok and follow = "stops is_token_char" and b = False])
       (auto simp: stop item start params_stop_def)
  then show ?thesis
    by (simp add: params_with_value_p_def peg peg_produce_def[of "[]"] peg_repeat_def g_def)
qed

text \<open>Parameters whose value is optional.\<close>

fun opt_param_text :: "written_param \<times> written_value option \<Rightarrow> string" where
  "opt_param_text (w, None) = param_head w"
| "opt_param_text (w, Some v) = param_head w @ CHR ''='' # value_text v"

definition opt_param_of :: "written_param \<times> written_value option \<Rightarrow> parameter_with_optional_value" where
  "opt_param_of wv = (map to_lower_case (wp_name (fst wv)), map_option value_of (snd wv))"

definition opt_param_ok :: "written_param \<times> written_value option \<Rightarrow> bool" where
  "opt_param_ok wv \<longleftrightarrow> head_ok (fst wv) \<and> pred_option value_ok (snd wv)"

definition optional_value_grammar :: "('a \<times> string option) grammar" where
  "optional_value_grammar =
     peg_option
       [peg_consume (peg_char (particular_symbol_predicate CHR ''='')) any_value_skipper,
        peg_choice [peg_consume peg_token set_second_some, peg_consume peg_quoted_string set_second_some]]"

lemma optional_value_none:
  "r = [] \<or> hd r \<noteq> CHR ''='' \<Longrightarrow> optional_value_grammar r t = Match r t"
  by (cases r)
     (auto simp: optional_value_grammar_def peg_option_def peg_consume_def[of "peg_char _"] peg_char_def
        particular_symbol_predicate_def)

lemma optional_value_some:
  "value_ok v \<Longrightarrow> stops is_token_char r \<Longrightarrow>
   optional_value_grammar (CHR ''='' # value_text v @ r) t = Match r (fst t, Some (value_of v))"
  by (simp add: optional_value_grammar_def peg_option_def peg_consume_def[of "peg_char _"] peg_char_def
      particular_symbol_predicate_def any_value_skipper_def written_value_grammar set_second_some_def
      del: peg_choice.simps)

definition opt_params_stop :: "string \<Rightarrow> bool" where
  "opt_params_stop r \<longleftrightarrow> params_stop r \<and> stops (\<lambda>c. c = CHR ''='') r"

lemma opt_params_grammar:
  assumes "list_all opt_param_ok ps" and "length ps \<le> N_max" and "opt_params_stop r"
  shows "producer_grammar params_with_opt_value_p (concat (map opt_param_text ps) @ r) = Value r (map opt_param_of ps)"
proof -
  let ?follow = "\<lambda>r. stops is_token_char r \<and> stops (\<lambda>c. c = CHR ''='') r"
  define g where "g = peg_produce ([], None)
     [peg_consume peg_ows any_value_skipper,
      peg_consume (peg_char (particular_symbol_predicate CHR '';'')) any_value_skipper,
      peg_consume peg_ows any_value_skipper,
      peg_consume (peg_map peg_token (map to_lower_case)) set_first, optional_value_grammar]"
  have item: "g (opt_param_text x @ r') = Value r' (opt_param_of x)" if "opt_param_ok x" "?follow r'" for x r'
  proof (cases x)
    case (Pair w ov)
    have eq: "stops is_token_char (CHR ''='' # u)" for u by (simp add: stops_def)
    from Pair that eq show ?thesis
      by (cases ov)
         (simp add: g_def peg_produce_def opt_param_ok_def param_head_grammar del: peg_all.simps,
          simp add: optional_value_none optional_value_some opt_param_of_def stops_def)+
  qed
  have start: "?follow (opt_param_text x @ r')" if "opt_param_ok x" for x r'
  proof (cases x)
    case (Pair w ov)
    have "stops (\<lambda>c. c = CHR ''='') (param_head w @ u)" if "head_ok w" for u
      using that by (cases "wp_before w") (auto simp: stops_def param_head_def head_ok_def)
    with Pair that show ?thesis by (cases ov) (auto simp: opt_param_ok_def head_stops)
  qed
  have stop: "g r = NoValue False"
    using assms(3) by (simp add: g_def peg_produce_def params_end opt_params_stop_def del: peg_all.simps)
  have "peg_loop [peg_consume g to_container] N_max (concat (map opt_param_text ps) @ r) [] =
      (length ps, r, [] @ map opt_param_of ps)"
    using assms(3)
    by (intro peg_loop_items[where ok = opt_param_ok and follow = ?follow and b = False])
       (auto simp: opt_params_stop_def params_stop_def stop item start assms(1,2))
  then show ?thesis
    by (simp add: params_with_opt_value_p_def peg peg_produce_def[of "[]"] peg_repeat_def g_def optional_value_grammar_def)
qed

subsection \<open>Comments\<close>

text \<open>One level of a comment, given the grammar of the comments inside it.\<close>

definition comment_body :: "string value_grammar \<Rightarrow> string grammar list" where
  "comment_body g =
     [peg_choice
        [peg_consume (peg_char is_ctext) to_container, peg_consume peg_quoted_pair to_container,
         peg_consume g (\<lambda>dest what. dest @ what)]]"

definition comment_of :: "string value_grammar \<Rightarrow> string value_grammar" where
  "comment_of g =
     peg_produce []
       [peg_sequence
          [peg_consume (peg_char (particular_symbol_predicate CHR ''('')) any_value_skipper,
           peg_repeat 0 N_max (comment_body g),
           peg_consume (peg_char (particular_symbol_predicate CHR '')'')) any_value_skipper]]"

lemma regular_comment_level: "regular_p (comment_level n)"
proof (induction n)
  case 0
  then show ?case
    by (rule produces_regular[where g = "\<lambda>_. NoValue False"]) (auto simp: produces_def same_input_refl)
qed (simp add: peg)

lemma comment_level_grammar: "producer_grammar (comment_level (Suc n)) = comment_of (producer_grammar (comment_level n))"
  by (simp add: peg regular_comment_level comment_of_def comment_body_def)

lemma comment_body_suffix:
  assumes "peg_all (comment_body (producer_grammar (comment_level n))) r t = Match r' t'"
  shows "suffix r' r"
  using assms regular_p_suffix[OF regular_comment_level, of n r]
  by (auto simp: comment_body_def peg_consume_def peg_char_def peg_quoted_pair_def suffix_Cons
      split: value_outcome.splits list.splits if_splits)

lemma comment_body_cong: "g r = g' r \<Longrightarrow> peg_all (comment_body g) r t = peg_all (comment_body g') r t"
  by (simp add: comment_body_def peg_consume_def split: outcome.splits value_outcome.splits)

lemma comment_loop_cong:
  assumes "\<And>x. suffix x r \<Longrightarrow> producer_grammar (comment_level m) x = producer_grammar (comment_level n) x"
  shows "peg_loop (comment_body (producer_grammar (comment_level m))) k r t =
    peg_loop (comment_body (producer_grammar (comment_level n))) k r t"
  using assms
proof (induction k arbitrary: r t)
  case (Suc k)
  have "peg_all (comment_body (producer_grammar (comment_level m))) r t =
      peg_all (comment_body (producer_grammar (comment_level n))) r t"
    by (rule comment_body_cong) (simp add: Suc.prems)
  moreover have "peg_loop (comment_body (producer_grammar (comment_level m))) k r' t' =
      peg_loop (comment_body (producer_grammar (comment_level n))) k r' t'"
    if "peg_all (comment_body (producer_grammar (comment_level n))) r t = Match r' t'" for r' t'
    using Suc.prems comment_body_suffix[OF that] by (intro Suc.IH) (auto intro: suffix_order.order_trans)
  ultimately show ?case by (simp split: outcome.splits)
qed simp

lemma comment_level_enough:
  "length r < m \<Longrightarrow> length r < n \<Longrightarrow> producer_grammar (comment_level m) r = producer_grammar (comment_level n) r"
proof (induction "length r" arbitrary: r m n rule: less_induct)
  case less
  obtain m' n' where mn: "m = Suc m'" "n = Suc n'" using less.prems by (cases m; cases n) auto
  show ?case
  proof (cases r)
    case Nil
    then show ?thesis unfolding mn comment_level_grammar
      by (simp add: comment_of_def peg_produce_def peg_sequence_def peg_consume_def peg_char_def)
  next
    case (Cons c r')
    have "peg_loop (comment_body (producer_grammar (comment_level m'))) k r' t =
        peg_loop (comment_body (producer_grammar (comment_level n'))) k r' t" for k t
    proof (rule comment_loop_cong)
      fix x assume "suffix x r'"
      then have "length x \<le> length r'" by (rule suffix_length_le)
      then show "producer_grammar (comment_level m') x = producer_grammar (comment_level n') x"
        using less.prems Cons mn by (intro less.hyps) auto
    qed
    then show ?thesis unfolding mn comment_level_grammar Cons
      by (simp add: comment_of_def peg_produce_def peg_sequence_def peg_consume_def[of "peg_char _"] peg_char_def
          peg_repeat_def)
  qed
qed

lemma comment_produces: "produces comment_p (\<lambda>r. producer_grammar (comment_level (Suc (length r))) r)"
  unfolding produces_def
proof (intro allI impI)
  fix s assume s: "src_ok s"
  have l: "length (src_data s) - src_index s = length (rest s)" by (simp add: rest_def)
  show "value_outcome_at s (producer_grammar (comment_level (Suc (length (rest s)))) (rest s)) (comment_p s)"
    unfolding comment_p_def l by (rule producesD[OF regular_comment_level[unfolded regular_p_def] s])
qed

lemma regular_comment [peg]: "regular_p comment_p"
  by (rule produces_regular[OF comment_produces])

text \<open>
  Comments nest to any depth: the bound on the recursion never shows, and the parser of comments is the
  one its source writes down, an opening parenthesis, any number of comment characters, quoted pairs and
  comments of the same grammar, and a closing parenthesis.
\<close>

theorem comment_grammar: "producer_grammar comment_p = comment_of (producer_grammar comment_p)"
proof
  fix r
  have eq: "producer_grammar comment_p x = producer_grammar (comment_level n) x" if "length x < n" for x n
    using comment_level_enough[of x "Suc (length x)" n] that
    by (simp add: producer_grammar_unique[OF comment_produces])
  show "producer_grammar comment_p r = comment_of (producer_grammar comment_p) r"
  proof (cases r)
    case Nil
    then show ?thesis
      using eq[of r "Suc (length r)"] unfolding comment_level_grammar
      by (simp add: comment_of_def peg_produce_def peg_sequence_def peg_consume_def peg_char_def)
  next
    case (Cons c r')
    have body: "peg_all (comment_body (producer_grammar comment_p)) x t =
        peg_all (comment_body (producer_grammar (comment_level (length r)))) x t" if "suffix x r'" for x t
      by (rule comment_body_cong, rule eq) (use suffix_length_le[OF that] Cons in simp)
    have "peg_loop (comment_body (producer_grammar comment_p)) k x t =
        peg_loop (comment_body (producer_grammar (comment_level (length r)))) k x t" if "suffix x r'" for k x t
      using that
    proof (induction k arbitrary: x t)
      case (Suc k)
      have "suffix y r'" if "peg_all (comment_body (producer_grammar (comment_level (length r)))) x t = Match y t'" for y t'
        using comment_body_suffix[OF that] Suc.prems by (rule suffix_order.order_trans)
      with Suc.IH body[OF Suc.prems] show ?case by (simp split: outcome.splits)
    qed simp
    then show ?thesis
      using eq[of r "Suc (length r)"] unfolding comment_level_grammar Cons
      by (simp add: comment_of_def peg_produce_def peg_sequence_def peg_consume_def[of "peg_char _"] peg_char_def
          peg_repeat_def)
  qed
qed
end
