(* ===== verification/Bitops.thy ===== *)
theory Bitops
  imports Prelude
begin

text \<open>
  \<^verbatim>\<open>restinio/utils/impl/bitops.hpp\<close>: extraction of a group of bits, used by base64, by the
  websocket frame codec and by the unmasker. The template parameters \<^verbatim>\<open>Shift\<close> and
  \<^verbatim>\<open>Bits_To_Extract\<close> are arguments, the result type \<^verbatim>\<open>T\<close> is the width of the result word.
\<close>

fun bits_mask :: "nat \<Rightarrow> 'a::len word" where
  "bits_mask bits_to_extract =
     (if bits_to_extract \<le> 1 then 1 else push_bit 1 (bits_mask (bits_to_extract - 1)) OR 1)"

declare bits_mask.simps [simp del]

definition n_bits_from :: "nat \<Rightarrow> nat \<Rightarrow> 'f::len word \<Rightarrow> 't::len word" where
  "n_bits_from shift bits_to_extract value =
     ucast (drop_bit shift value) AND bits_mask bits_to_extract"

text \<open>The recursively built mask is the usual one.\<close>

lemma bits_mask_eq: "0 < n \<Longrightarrow> bits_mask n = (mask n :: 'a::len word)"
proof (induction n)
  case (Suc n)
  show ?case
  proof (cases "n = 0")
    case True
    then show ?thesis by (simp add: bits_mask.simps mask_eq_exp_minus_1)
  next
    case False
    then have "bits_mask (Suc n) = push_bit 1 (mask n) OR (1 :: 'a word)"
      using Suc by (subst bits_mask.simps) simp
    also have "\<dots> = mask (Suc n)"
      by (simp add: mask_Suc_double or.commute mult.commute)
    finally show ?thesis .
  qed
qed simp

lemma unat_n_bits_from:
  fixes v :: "'f::len word"
  assumes "0 < bits" and "bits \<le> LENGTH('t)"
  shows "unat (n_bits_from shift bits v :: 't::len word) = unat v div 2 ^ shift mod 2 ^ bits"
proof -
  have "unat (ucast (drop_bit shift v) :: 't word) = unat v div 2 ^ shift mod 2 ^ LENGTH('t)"
    by (simp only: unsigned_ucast_eq unat_drop_bit_eq) (simp only: take_bit_eq_mod drop_bit_eq_div)
  moreover have "x mod 2 ^ LENGTH('t) mod 2 ^ bits = x mod 2 ^ bits" for x :: nat
    using assms(2) by (simp add: mod_mod_cancel le_imp_power_dvd)
  ultimately show ?thesis
    unfolding n_bits_from_def bits_mask_eq [OF assms(1)] unat_and_mask by simp
qed

lemma unat_byte_from: "unat (n_bits_from shift 8 v :: u8) = unat v div 2 ^ shift mod 256"
  using unat_n_bits_from [of 8 shift v, where 't = 8] by simp

end
