(* ===== verification/Base64.thy ===== *)
theory Base64
  imports Bitops
begin

text \<open>
  \<^verbatim>\<open>restinio/utils/base64.hpp\<close> with the tables of \<^verbatim>\<open>base64_lut.ipp\<close> (used by the basic
  authentication field parser and by the websocket upgrade handshake).

  \<^verbatim>\<open>uint_type_t\<close> is \<^verbatim>\<open>std::uint_fast32_t\<close>, modelled at its minimal width. The decoding loop
  reads four characters per turn without a check against the end of the string: a turn that
  starts with fewer than four characters left reads past the end, which is the error value
  \<open>Read_past_end\<close> of the model.
\<close>

subsection \<open>Tables\<close>

definition is_base64_char_lut :: "u8 list" where
  "is_base64_char_lut =
     [0, 0, 0, 0, 0, 0, 0, 0, 0, 0, 0, 0, 0, 0, 0, 0,
      0, 0, 0, 0, 0, 0, 0, 0, 0, 0, 0, 0, 0, 0, 0, 0,
      0, 0, 0, 0, 0, 0, 0, 0, 0, 0, 0, 1, 0, 0, 0, 1,
      1, 1, 1, 1, 1, 1, 1, 1, 1, 1, 0, 0, 0, 1, 0, 0,
      0, 1, 1, 1, 1, 1, 1, 1, 1, 1, 1, 1, 1, 1, 1, 1,
      1, 1, 1, 1, 1, 1, 1, 1, 1, 1, 1, 0, 0, 0, 0, 0,
      0, 1, 1, 1, 1, 1, 1, 1, 1, 1, 1, 1, 1, 1, 1, 1,
      1, 1, 1, 1, 1, 1, 1, 1, 1, 1, 1, 0, 0, 0, 0, 0,
      0, 0, 0, 0, 0, 0, 0, 0, 0, 0, 0, 0, 0, 0, 0, 0,
      0, 0, 0, 0, 0, 0, 0, 0, 0, 0, 0, 0, 0, 0, 0, 0,
      0, 0, 0, 0, 0, 0, 0, 0, 0, 0, 0, 0, 0, 0, 0, 0,
      0, 0, 0, 0, 0, 0, 0, 0, 0, 0, 0, 0, 0, 0, 0, 0,
      0, 0, 0, 0, 0, 0, 0, 0, 0, 0, 0, 0, 0, 0, 0, 0,
      0, 0, 0, 0, 0, 0, 0, 0, 0, 0, 0, 0, 0, 0, 0, 0,
      0, 0, 0, 0, 0, 0, 0, 0, 0, 0, 0, 0, 0, 0, 0, 0,
      0, 0, 0, 0, 0, 0, 0, 0, 0, 0, 0, 0, 0, 0, 0, 0]"

definition base64_alphabet :: "u8 list" where
  "base64_alphabet =
     [65, 66, 67, 68, 69, 70, 71, 72, 73, 74, 75, 76, 77, 78, 79, 80,
      81, 82, 83, 84, 85, 86, 87, 88, 89, 90, 97, 98, 99, 100, 101, 102,
      103, 104, 105, 106, 107, 108, 109, 110, 111, 112, 113, 114, 115, 116, 117, 118,
      119, 120, 121, 122, 48, 49, 50, 51, 52, 53, 54, 55, 56, 57, 43, 47]"

definition base64_decode_lut :: "u8 list" where
  "base64_decode_lut =
     [0, 0, 0, 0, 0, 0, 0, 0, 0, 0, 0, 0, 0, 0, 0, 0,
      0, 0, 0, 0, 0, 0, 0, 0, 0, 0, 0, 0, 0, 0, 0, 0,
      0, 0, 0, 0, 0, 0, 0, 0, 0, 0, 0, 62, 0, 0, 0, 63,
      52, 53, 54, 55, 56, 57, 58, 59, 60, 61, 0, 0, 0, 0, 0, 0,
      0, 0, 1, 2, 3, 4, 5, 6, 7, 8, 9, 10, 11, 12, 13, 14,
      15, 16, 17, 18, 19, 20, 21, 22, 23, 24, 25, 0, 0, 0, 0, 0,
      0, 26, 27, 28, 29, 30, 31, 32, 33, 34, 35, 36, 37, 38, 39, 40,
      41, 42, 43, 44, 45, 46, 47, 48, 49, 50, 51, 0, 0, 0, 0, 0,
      0, 0, 0, 0, 0, 0, 0, 0, 0, 0, 0, 0, 0, 0, 0, 0,
      0, 0, 0, 0, 0, 0, 0, 0, 0, 0, 0, 0, 0, 0, 0, 0,
      0, 0, 0, 0, 0, 0, 0, 0, 0, 0, 0, 0, 0, 0, 0, 0,
      0, 0, 0, 0, 0, 0, 0, 0, 0, 0, 0, 0, 0, 0, 0, 0,
      0, 0, 0, 0, 0, 0, 0, 0, 0, 0, 0, 0, 0, 0, 0, 0,
      0, 0, 0, 0, 0, 0, 0, 0, 0, 0, 0, 0, 0, 0, 0, 0,
      0, 0, 0, 0, 0, 0, 0, 0, 0, 0, 0, 0, 0, 0, 0, 0,
      0, 0, 0, 0, 0, 0, 0, 0, 0, 0, 0, 0, 0, 0, 0, 0]"

subsection \<open>Validation, encoding and decoding\<close>

definition is_base64_char :: "char \<Rightarrow> bool" where
  "is_base64_char c \<longleftrightarrow> is_base64_char_lut ! unat (byte_of_char c) = 1"

datatype expected_type = B64ch | B64ch_or_padding | Padding

fun is_valid_base64_loop :: "expected_type \<Rightarrow> nat \<Rightarrow> nat \<Rightarrow> string \<Rightarrow> bool" where
  "is_valid_base64_loop expects b64chars_found paddings_found [] = True"
| "is_valid_base64_loop B64ch b64chars_found paddings_found (ch # str) =
     (if ch = CHR ''='' then False
      else if is_base64_char ch then
        is_valid_base64_loop (if 2 \<le> Suc b64chars_found then B64ch_or_padding else B64ch)
          (Suc b64chars_found) paddings_found str
      else False)"
| "is_valid_base64_loop B64ch_or_padding b64chars_found paddings_found (ch # str) =
     (if ch = CHR ''='' then is_valid_base64_loop Padding b64chars_found (Suc paddings_found) str
      else if is_base64_char ch then is_valid_base64_loop B64ch_or_padding b64chars_found paddings_found str
      else False)"
| "is_valid_base64_loop Padding b64chars_found paddings_found (ch # str) =
     (if ch = CHR ''='' then
        (if 2 < Suc paddings_found then False
         else is_valid_base64_loop Padding b64chars_found (Suc paddings_found) str)
      else False)"

definition is_valid_base64_string :: "string \<Rightarrow> bool" where
  "is_valid_base64_string str \<longleftrightarrow> (if length str < 4 then False else is_valid_base64_loop B64ch 0 0 str)"

definition uch :: "char \<Rightarrow> u32" where
  "uch ch = ucast (byte_of_char ch)"

definition sixbits_char :: "nat \<Rightarrow> u32 \<Rightarrow> u8" where
  "sixbits_char shift bs = n_bits_from shift 6 bs"

definition alphabet_char :: "u8 \<Rightarrow> char" where
  "alphabet_char ch = char_of_byte (base64_alphabet ! unat ch)"

fun base64_encode :: "string \<Rightarrow> string" where
  "base64_encode (c0 # c1 # c2 # str) =
     (let bs = push_bit 16 (uch c0) OR push_bit 8 (uch c1) OR uch c2
      in alphabet_char (sixbits_char 18 bs) # alphabet_char (sixbits_char 12 bs)
         # alphabet_char (sixbits_char 6 bs) # alphabet_char (sixbits_char 0 bs) # base64_encode str)"
| "base64_encode [c0, c1] =
     (let bs = push_bit 16 (uch c0) OR push_bit 8 (uch c1)
      in [alphabet_char (sixbits_char 18 bs), alphabet_char (sixbits_char 12 bs),
          alphabet_char (sixbits_char 6 bs), CHR ''=''])"
| "base64_encode [c0] =
     (let bs = push_bit 16 (uch c0)
      in [alphabet_char (sixbits_char 18 bs), alphabet_char (sixbits_char 12 bs), CHR ''='', CHR ''=''])"
| "base64_encode [] = []"

datatype decoding_error = Invalid_base64_sequence | Read_past_end

definition decode_lut :: "char \<Rightarrow> u32" where
  "decode_lut ch = ucast (base64_decode_lut ! unat (byte_of_char ch))"

text \<open>One turn of the decoding loop on the four characters at the current position.\<close>

definition decode_group :: "char \<Rightarrow> char \<Rightarrow> char \<Rightarrow> char \<Rightarrow> string" where
  "decode_group c0 c1 c2 c3 =
     (let bs = 0 OR decode_lut c0;
          bs = push_bit 6 bs OR decode_lut c1;
          bs = push_bit 6 bs;
          (bs, paddings_found) = (if c2 = CHR ''='' then (bs, 1) else (bs OR decode_lut c2, 0));
          bs = push_bit 6 bs;
          (bs, paddings_found) =
            (if c3 = CHR ''='' then (bs, paddings_found + 1) else (bs OR decode_lut c3, paddings_found))
      in [char_of_byte (n_bits_from 16 8 bs)]
         @ (if paddings_found < (2 :: nat) then [char_of_byte (n_bits_from 8 8 bs)] else [])
         @ (if paddings_found < (1 :: nat) then [char_of_byte (n_bits_from 0 8 bs)] else []))"

fun try_decode_loop :: "string \<Rightarrow> decoding_error + string" where
  "try_decode_loop [] = Inr []"
| "try_decode_loop (c0 # c1 # c2 # c3 # str) =
     (case try_decode_loop str of
        Inl e \<Rightarrow> Inl e
      | Inr result \<Rightarrow> Inr (decode_group c0 c1 c2 c3 @ result))"
| "try_decode_loop _ = Inl Read_past_end"

definition try_decode :: "string \<Rightarrow> decoding_error + string" where
  "try_decode str =
     (if \<not> is_valid_base64_string str then Inl Invalid_base64_sequence else try_decode_loop str)"

text \<open>The exception of \<^verbatim>\<open>decode\<close> shows at most the first 32 characters of the string.\<close>

datatype base64_exception =
    Invalid_string_that_starts_with string
  | Invalid_string string
  | Past_end

definition throw_exception_on_invalid_base64_string :: "string \<Rightarrow> base64_exception" where
  "throw_exception_on_invalid_base64_string str =
     (let max_allowed_len = 32
      in if max_allowed_len < length str then Invalid_string_that_starts_with (take max_allowed_len str)
         else Invalid_string str)"

definition base64_decode :: "string \<Rightarrow> base64_exception + string" where
  "base64_decode str =
     (case try_decode str of
        Inl Invalid_base64_sequence \<Rightarrow> Inl (throw_exception_on_invalid_base64_string str)
      | Inl Read_past_end \<Rightarrow> Inl Past_end
      | Inr result \<Rightarrow> Inr result)"

subsection \<open>The tables\<close>

lemma length_tables [simp]:
  "length is_base64_char_lut = 256" "length base64_alphabet = 64" "length base64_decode_lut = 256"
  by (simp_all add: is_base64_char_lut_def base64_alphabet_def base64_decode_lut_def)

text \<open>The decoding table inverts the alphabet, whose characters are valid and no padding.\<close>

lemma alphabet_lut:
  assumes "k < 64"
  shows "unat (base64_decode_lut ! unat (base64_alphabet ! k)) = k"
    and "is_base64_char_lut ! unat (base64_alphabet ! k) = 1"
    and "base64_alphabet ! k \<noteq> 0x3D"
proof -
  have "list_all (\<lambda>k. unat (base64_decode_lut ! unat (base64_alphabet ! k)) = k \<and>
      is_base64_char_lut ! unat (base64_alphabet ! k) = 1 \<and> base64_alphabet ! k \<noteq> 0x3D) [0..<64]"
    by code_simp
  then show "unat (base64_decode_lut ! unat (base64_alphabet ! k)) = k"
    and "is_base64_char_lut ! unat (base64_alphabet ! k) = 1"
    and "base64_alphabet ! k \<noteq> 0x3D"
    using assms by (auto simp: list_all_iff)
qed

lemma alphabet_char:
  assumes "unat v < 64"
  shows "unat (decode_lut (alphabet_char v)) = unat v" and "is_base64_char (alphabet_char v)"
    and "alphabet_char v \<noteq> CHR ''=''"
proof -
  have "byte_of_char CHR ''='' = 0x3D" by (simp add: byte_of_char_def)
  then show "unat (decode_lut (alphabet_char v)) = unat v" "is_base64_char (alphabet_char v)"
    "alphabet_char v \<noteq> CHR ''=''"
    using alphabet_lut [OF assms]
    by (simp_all add: decode_lut_def alphabet_char_def is_base64_char_def char_of_byte_eq_iff)
qed

lemma unat_sixbits_char: "unat (sixbits_char shift bs) = unat bs div 2 ^ shift mod 64"
  unfolding sixbits_char_def using unat_n_bits_from [of 6 shift bs, where 't = 8] by simp

lemma sixbits_char_less [simp]: "unat (sixbits_char shift bs) < 64"
  by (simp add: unat_sixbits_char)

subsection \<open>Round trip\<close>

lemma unat_uch [simp]: "unat (uch c) = of_char c"
  by (simp add: uch_def unat_byte_of_char)

text \<open>The value of a group of three characters as one 24-bit number.\<close>

lemma group_value:
  "unat (push_bit 16 (uch c0) OR push_bit 8 (uch c1) OR uch c2) =
     of_char c0 * 65536 + of_char c1 * 256 + of_char c2"
proof -
  have lt: "of_char c0 < (256 :: nat)" "of_char c1 < (256 :: nat)" "of_char c2 < (256 :: nat)" by simp_all
  have lo: "unat (push_bit 8 (uch c1) OR uch c2) = of_char c1 * 2 ^ 8 + of_char c2"
    by (rule append_bits [OF unat_uch unat_uch]) (use lt in simp, use lt in \<open>simp; linarith\<close>)
  have "unat (push_bit 16 (uch c0) OR push_bit 8 (uch c1) OR uch c2) =
      of_char c0 * 2 ^ 16 + (of_char c1 * 2 ^ 8 + of_char c2)"
    unfolding or.assoc
    by (rule append_bits [OF unat_uch lo]) (use lt in \<open>simp; linarith\<close>, use lt in \<open>simp; linarith\<close>)
  then show ?thesis by simp
qed

lemma group_value_2:
  "unat (push_bit 16 (uch c0) OR push_bit 8 (uch c1)) = of_char c0 * 65536 + of_char c1 * 256"
  using group_value [of c0 c1 "CHR 0x00"] by (simp add: uch_def byte_of_char_def)

lemma group_value_1: "unat (push_bit 16 (uch c0)) = of_char c0 * 65536"
  using group_value_2 [of c0 "CHR 0x00"] by (simp add: uch_def byte_of_char_def)

lemma six_bits_recombined:
  fixes s0 s1 s2 s3 :: u32
  assumes "unat s0 < 64" "unat s1 < 64" "unat s2 < 64" "unat s3 < 64"
  shows "unat (push_bit 6 (push_bit 6 (push_bit 6 s0 OR s1) OR s2) OR s3) =
    ((unat s0 * 64 + unat s1) * 64 + unat s2) * 64 + unat s3"
proof -
  have a: "unat (push_bit 6 s0 OR s1) = unat s0 * 2 ^ 6 + unat s1"
    by (rule append_bits [OF refl refl]) (use assms in simp_all)
  have b: "unat (push_bit 6 (push_bit 6 s0 OR s1) OR s2) = (unat s0 * 2 ^ 6 + unat s1) * 2 ^ 6 + unat s2"
    by (rule append_bits [OF a refl]) (use assms in simp_all)
  have "unat (push_bit 6 (push_bit 6 (push_bit 6 s0 OR s1) OR s2) OR s3) =
      ((unat s0 * 2 ^ 6 + unat s1) * 2 ^ 6 + unat s2) * 2 ^ 6 + unat s3"
    by (rule append_bits [OF b refl]) (use assms in simp_all)
  then show ?thesis by simp
qed

lemma sextets_of_24_bits:
  fixes n :: nat
  assumes "n < 2 ^ 24"
  shows "((n div 2 ^ 18 mod 64 * 64 + n div 2 ^ 12 mod 64) * 64 + n div 2 ^ 6 mod 64) * 64 + n div 2 ^ 0 mod 64 = n"
proof -
  have a: "n div 2 ^ 12 = n div 2 ^ 6 div 64" and b: "n div 2 ^ 18 = n div 2 ^ 6 div 64 div 64"
    by (simp_all add: div_mult2_eq [symmetric])
  have "n div 2 ^ 6 div 64 div 64 < 64" using assms by (simp add: div_mult2_eq [symmetric] less_mult_imp_div_less)
  then show ?thesis
    unfolding a b by simp
qed

text \<open>Decoding four characters of the alphabet gives back the 24 bits they were made of.\<close>

definition bytes_24 :: "nat \<Rightarrow> string" where
  "bytes_24 n = [char_of (n div 65536 mod 256), char_of (n div 256 mod 256), char_of (n mod 256)]"

lemma decode_group_value:
  assumes "unat (decode_lut c0) < 64" "unat (decode_lut c1) < 64"
    and "c2 \<noteq> CHR ''='' \<Longrightarrow> unat (decode_lut c2) < 64" "c3 \<noteq> CHR ''='' \<Longrightarrow> unat (decode_lut c3) < 64"
    and "c2 = CHR ''='' \<Longrightarrow> c3 = CHR ''=''"
  defines "v c \<equiv> (if c = CHR ''='' then 0 else unat (decode_lut c))"
  shows "decode_group c0 c1 c2 c3 =
    take (if c2 = CHR ''='' then 1 else if c3 = CHR ''='' then 2 else 3)
      (bytes_24 (((unat (decode_lut c0) * 64 + unat (decode_lut c1)) * 64 + v c2) * 64 + v c3))"
proof -
  define w where "w c = (if c = CHR ''='' then 0 else decode_lut c)" for c
  define bs where "bs = push_bit 6 (push_bit 6 (push_bit 6 (decode_lut c0) OR decode_lut c1) OR w c2) OR w c3"
  have v: "unat (w c) = v c" for c by (simp add: w_def v_def)
  have "unat bs = ((unat (decode_lut c0) * 64 + unat (decode_lut c1)) * 64 + v c2) * 64 + v c3"
    unfolding bs_def v [symmetric] by (rule six_bits_recombined) (use assms(1-4) in \<open>auto simp: w_def\<close>)
  moreover have "decode_group c0 c1 c2 c3 =
      take (if c2 = CHR ''='' then 1 else if c3 = CHR ''='' then 2 else 3)
       [char_of_byte (n_bits_from 16 8 bs), char_of_byte (n_bits_from 8 8 bs), char_of_byte (n_bits_from 0 8 bs)]"
    using assms(5) unfolding decode_group_def bs_def w_def by (simp add: Let_def)
  ultimately show ?thesis
    by (simp add: bytes_24_def char_of_byte_def unat_byte_from)
qed

lemma bytes_24_group:
  "bytes_24 (of_char c0 * 65536 + of_char c1 * 256 + of_char c2) = [c0, c1, c2]"
proof -
  have lt: "of_char c0 < (256 :: nat)" "of_char c1 < (256 :: nat)" "of_char c2 < (256 :: nat)" by simp_all
  have "of_char c1 * 256 + of_char c2 < (65536 :: nat)" using lt by linarith
  define n where "n = of_char c0 * 65536 + of_char c1 * 256 + (of_char c2 :: nat)"
  have "n div 65536 = of_char c0" "n div 256 = of_char c0 * 256 + of_char c1" "n mod 256 = of_char c2"
    using lt \<open>of_char c1 * 256 + of_char c2 < 65536\<close> unfolding n_def by (auto intro!: div_nat_eqI mod_nat_eqI)
  then show ?thesis unfolding n_def [symmetric] by (simp add: bytes_24_def)
qed

lemma sextets_zero:
  fixes a b :: nat
  shows "(a * 65536 + b * 256) mod 64 = 0" and "a * 65536 div 64 mod 64 = 0" and "a * 65536 mod 64 = 0"
proof -
  have "a * 65536 + b * 256 = 64 * (a * 1024 + b * 4)" "a * 65536 = 64 * (a * 1024)" by simp_all
  moreover have "a * 1024 = 64 * (a * 16)" by simp
  ultimately show "(a * 65536 + b * 256) mod 64 = 0" "a * 65536 div 64 mod 64 = 0" "a * 65536 mod 64 = 0"
    by (metis mod_mult_self1_is_0, metis mod_mult_self1_is_0 nonzero_mult_div_cancel_left zero_neq_numeral,
        metis mod_mult_self1_is_0)
qed

lemmas sextet_simps = alphabet_char unat_sixbits_char group_value group_value_1 group_value_2

lemma group_less: "of_char c0 * 65536 + of_char c1 * 256 + of_char c2 < (16777216 :: nat)"
proof -
  have "of_char c0 < (256 :: nat)" "of_char c1 < (256 :: nat)" "of_char c2 < (256 :: nat)" by simp_all
  then show ?thesis by linarith
qed

lemma decode_group_3:
  fixes c0 c1 c2
  defines "bs \<equiv> push_bit 16 (uch c0) OR push_bit 8 (uch c1) OR uch c2"
  shows "decode_group (alphabet_char (sixbits_char 18 bs)) (alphabet_char (sixbits_char 12 bs))
    (alphabet_char (sixbits_char 6 bs)) (alphabet_char (sixbits_char 0 bs)) = [c0, c1, c2]"
proof -
  have v: "unat bs = of_char c0 * 65536 + of_char c1 * 256 + of_char c2"
    unfolding bs_def by (rule group_value)
  then have lt: "unat bs < 2 ^ 24" using group_less [of c0 c1 c2] by simp
  show ?thesis
    by (subst decode_group_value)
      (simp_all add: alphabet_char unat_sixbits_char sextets_of_24_bits [OF lt, simplified], simp add: v bytes_24_group)
qed

lemma decode_group_2:
  fixes c0 c1
  defines "bs \<equiv> push_bit 16 (uch c0) OR push_bit 8 (uch c1)"
  shows "decode_group (alphabet_char (sixbits_char 18 bs)) (alphabet_char (sixbits_char 12 bs))
    (alphabet_char (sixbits_char 6 bs)) CHR ''='' = [c0, c1]"
proof -
  have v: "unat bs = of_char c0 * 65536 + of_char c1 * 256"
    unfolding bs_def by (rule group_value_2)
  then have lt: "unat bs < 2 ^ 24" and z: "unat bs mod 64 = 0"
    using group_less [of c0 c1 "CHR 0x00"] sextets_zero(1) by simp_all
  have s: "((unat bs div 2 ^ 18 mod 64 * 64 + unat bs div 2 ^ 12 mod 64) * 64 + unat bs div 2 ^ 6 mod 64) * 64 = unat bs"
    using sextets_of_24_bits [OF lt] z by (simp only: power_0 div_by_1 add_0_right)
  have "bytes_24 (unat bs) = [c0, c1, CHR 0x00]"
    unfolding v using bytes_24_group [of c0 c1 "CHR 0x00"] by simp
  then show ?thesis
    by (subst decode_group_value) (simp_all add: alphabet_char unat_sixbits_char s [simplified])
qed

lemma decode_group_1:
  fixes c0
  defines "bs \<equiv> push_bit 16 (uch c0)"
  shows "decode_group (alphabet_char (sixbits_char 18 bs)) (alphabet_char (sixbits_char 12 bs))
    CHR ''='' CHR ''='' = [c0]"
proof -
  have v: "unat bs = of_char c0 * 65536"
    unfolding bs_def by (rule group_value_1)
  then have lt: "unat bs < 2 ^ 24" and z: "unat bs mod 64 = 0" "unat bs div 64 mod 64 = 0"
    using group_less [of c0 "CHR 0x00" "CHR 0x00"] sextets_zero(2,3) by simp_all
  have "unat bs div 2 ^ 6 mod 64 = 0" using z(2) by simp
  then have s: "((unat bs div 2 ^ 18 mod 64 * 64 + unat bs div 2 ^ 12 mod 64) * 64) * 64 = unat bs"
    using sextets_of_24_bits [OF lt] z(1) by (simp only: power_0 div_by_1 add_0_right)
  have "bytes_24 (unat bs) = [c0, CHR 0x00, CHR 0x00]"
    unfolding v using bytes_24_group [of c0 "CHR 0x00" "CHR 0x00"] by simp
  then show ?thesis
    by (subst decode_group_value) (simp_all add: alphabet_char unat_sixbits_char s [simplified])
qed

lemma try_decode_loop_encode: "try_decode_loop (base64_encode s) = Inr s"
  by (induction s rule: base64_encode.induct)
    (simp_all add: Let_def decode_group_3 decode_group_2 decode_group_1)

subsection \<open>Validation\<close>

lemma is_valid_base64_loop_encode: "is_valid_base64_loop B64ch_or_padding n 0 (base64_encode s)"
  by (induction s rule: base64_encode.induct) (simp_all add: Let_def alphabet_char)

lemma encode_is_valid: "s \<noteq> [] \<Longrightarrow> is_valid_base64_string (base64_encode s)"
  by (cases s rule: base64_encode.cases)
    (simp_all add: is_valid_base64_string_def Let_def alphabet_char is_valid_base64_loop_encode)

lemma length_base64_encode: "length (base64_encode s) = 4 * ((length s + 2) div 3)"
proof (induction s rule: base64_encode.induct)
  case (1 c0 c1 c2 str)
  have "(length (c0 # c1 # c2 # str) + 2) div 3 = Suc ((length str + 2) div 3)"
    using div_add_self2 [of 3 "length str + 2"] by (simp del: div_add_self1 div_add_self2)
  with 1 show ?case by (simp add: Let_def)
qed (simp_all add: Let_def)

lemma try_decode_loop_Read_past_end:
  "try_decode_loop str = Inl e \<longleftrightarrow> e = Read_past_end \<and> length str mod 4 \<noteq> 0"
  by (induction str rule: try_decode_loop.induct) (auto split: sum.splits)

subsection \<open>Properties\<close>

text \<open>
  C26: base64 round trip. Decoding the encoding of any non-empty string gives the string back: the
  encoder's output passes the validator, the decoder never reads past its end, and every group of
  three, two or one characters is recovered.
\<close>

theorem base64_roundtrip: "s \<noteq> [] \<Longrightarrow> try_decode (base64_encode s) = Inr s"
  by (simp add: try_decode_def encode_is_valid try_decode_loop_encode)

theorem base64_roundtrip_witness:
  "''restinio'' \<noteq> [] \<and> try_decode (base64_encode ''restinio'') = Inr ''restinio''"
  using base64_roundtrip [of "''restinio''"] by simp

text \<open>
  The validator does not check that the length is a multiple of four, so for a string it
  accepts the decoder reads past the end of the string exactly when the length is not one.
\<close>

theorem try_decode_reads_past_end:
  "is_valid_base64_string str \<Longrightarrow> try_decode str = Inl Read_past_end \<longleftrightarrow> length str mod 4 \<noteq> 0"
  by (simp add: try_decode_def try_decode_loop_Read_past_end)

theorem try_decode_reads_past_end_witness:
  "is_valid_base64_string ''QUJDR'' \<and> try_decode ''QUJDR'' = Inl Read_past_end"
proof -
  have "is_valid_base64_string ''QUJDR''" by code_simp
  then show ?thesis using try_decode_reads_past_end [of "''QUJDR''"] by simp
qed

end
