(* ===== verification/Field_Parsers.thy ===== *)
theory Field_Parsers
  imports Field_Basics Http_Headers Base64
begin

text \<open>
  The parsers of HTTP fields under \<^verbatim>\<open>restinio/helpers/http_field_parsers\<close>: the structures
  they fill, their \<^verbatim>\<open>make_parser\<close> and \<^verbatim>\<open>try_parse\<close>, the extraction of the
  parameters of basic and bearer authentification, and \<^verbatim>\<open>try_parse_field\<close>.  The theorems read fields
  as senders write them back into the values that were meant.
\<close>

abbreviation consuming :: "'a producer \<Rightarrow> ('t, 'a) consumer \<Rightarrow> 't clause" where
  "consuming \<equiv> consume_value_clause"

section \<open>Weighted lists\<close>

record weighted_item =
  wi_name :: string
  wi_weight :: qvalue

definition weighted_item_blank :: weighted_item where
  "weighted_item_blank = \<lparr>wi_name = [], wi_weight = qvalue_max\<rparr>"

definition weighted_token_p :: "weighted_item producer" where
  "weighted_token_p =
     produce weighted_item_blank
       [consuming (to_lower token_p) (\<lambda>t v. t\<lparr>wi_name := v\<rparr>),
        maybe [consuming weight_p (\<lambda>t v. t\<lparr>wi_weight := v\<rparr>)]]"

definition accept_charset_parser :: "weighted_item list producer" where
  "accept_charset_parser = produce [] [consuming (non_empty_comma_separated_list_p weighted_token_p) as_result]"

definition accept_charset_try_parse :: "string \<Rightarrow> parse_error + weighted_item list" where
  "accept_charset_try_parse what = try_parse what accept_charset_parser"

definition accept_encoding_parser :: "weighted_item list producer" where
  "accept_encoding_parser = produce [] [consuming (maybe_empty_comma_separated_list_p weighted_token_p) as_result]"

definition accept_encoding_try_parse :: "string \<Rightarrow> parse_error + weighted_item list" where
  "accept_encoding_try_parse what = try_parse what accept_encoding_parser"

definition make_language_tag_p :: "string producer" where
  "make_language_tag_p =
     produce []
       [repeat_clause 1 8 [consuming alpha_symbol_p to_container],
        repeat_clause 0 N_max
          [consuming (symbol_p CHR ''-'') to_container,
           repeat_clause 1 8 [consuming alphanum_symbol_p to_container]]]"

definition make_language_range_p :: "string producer" where
  "make_language_range_p =
     produce []
       [alternatives [consuming (symbol_p CHR ''*'') to_container, consuming make_language_tag_p as_result]]"

definition accept_language_parser :: "weighted_item list producer" where
  "accept_language_parser =
     produce []
       [consuming
          (non_empty_comma_separated_list_p
             (produce weighted_item_blank
                [consuming make_language_range_p (\<lambda>t v. t\<lparr>wi_name := v\<rparr>),
                 maybe [consuming weight_p (\<lambda>t v. t\<lparr>wi_weight := v\<rparr>)]]))
          as_result]"

definition accept_language_try_parse :: "string \<Rightarrow> parse_error + weighted_item list" where
  "accept_language_try_parse what = try_parse what accept_language_parser"

section \<open>Lists of tokens and directives\<close>

definition connection_parser :: "string list producer" where
  "connection_parser = produce [] [consuming (non_empty_comma_separated_list_p (to_lower token_p)) as_result]"

definition connection_try_parse :: "string \<Rightarrow> parse_error + string list" where
  "connection_try_parse what = try_parse what connection_parser"

definition content_encoding_parser :: "string list producer" where
  "content_encoding_parser = produce [] [consuming (non_empty_comma_separated_list_p (to_lower token_p)) as_result]"

definition content_encoding_try_parse :: "string \<Rightarrow> parse_error + string list" where
  "content_encoding_try_parse what = try_parse what content_encoding_parser"

definition directive_p :: "parameter_with_optional_value producer" where
  "directive_p =
     produce ([], None)
       [consuming (to_lower token_p) set_first,
        maybe
          [symbol CHR ''='',
           alternatives [consuming token_p set_second_some, consuming quoted_string_p set_second_some]]]"

definition cache_control_parser :: "parameter_with_optional_value list producer" where
  "cache_control_parser = produce [] [consuming (non_empty_comma_separated_list_p directive_p) as_result]"

definition cache_control_try_parse :: "string \<Rightarrow> parse_error + parameter_with_optional_value list" where
  "cache_control_try_parse what = try_parse what cache_control_parser"

section \<open>Media types\<close>

record media_type_value =
  mt_type :: string
  mt_subtype :: string
  mt_parameters :: "parameter_with_mandatory_value list"

definition media_type_blank :: media_type_value where
  "media_type_blank = \<lparr>mt_type = [], mt_subtype = [], mt_parameters = []\<rparr>"

definition make_default_parser :: "media_type_value producer" where
  "make_default_parser =
     produce media_type_blank
       [consuming (to_lower token_p) (\<lambda>t v. t\<lparr>mt_type := v\<rparr>),
        symbol CHR ''/'',
        consuming (to_lower token_p) (\<lambda>t v. t\<lparr>mt_subtype := v\<rparr>),
        consuming params_with_value_p (\<lambda>t v. t\<lparr>mt_parameters := v\<rparr>)]"

definition make_weight_aware_parser :: "media_type_value producer" where
  "make_weight_aware_parser =
     produce media_type_blank
       [consuming (to_lower token_p) (\<lambda>t v. t\<lparr>mt_type := v\<rparr>),
        symbol CHR ''/'',
        consuming (to_lower token_p) (\<lambda>t v. t\<lparr>mt_subtype := v\<rparr>),
        consuming
          (produce []
             [repeat_clause 0 N_max
                [consuming
                   (produce ([], [])
                      [not_clause ([], []) [skip_p weight_p],
                       ows, symbol CHR '';'', ows,
                       consuming (to_lower token_p) set_first,
                       symbol CHR ''='',
                       alternatives [consuming token_p set_second, consuming quoted_string_p set_second]])
                   to_container]])
          (\<lambda>t v. t\<lparr>mt_parameters := v\<rparr>)]"

definition media_type_try_parse :: "string \<Rightarrow> parse_error + media_type_value" where
  "media_type_try_parse what = try_parse what make_default_parser"

definition content_type_parser :: "media_type_value producer" where
  "content_type_parser = produce media_type_blank [consuming make_default_parser as_result]"

definition content_type_try_parse :: "string \<Rightarrow> parse_error + media_type_value" where
  "content_type_try_parse what = try_parse what content_type_parser"

record accept_item =
  ai_media_type :: media_type_value
  ai_weight :: "qvalue option"
  ai_accept_params :: "parameter_with_optional_value list"

definition accept_item_blank :: accept_item where
  "accept_item_blank = \<lparr>ai_media_type = media_type_blank, ai_weight = None, ai_accept_params = []\<rparr>"

definition accept_parser :: "accept_item list producer" where
  "accept_parser =
     produce []
       [consuming
          (maybe_empty_comma_separated_list_p
             (produce accept_item_blank
                [consuming make_weight_aware_parser (\<lambda>t v. t\<lparr>ai_media_type := v\<rparr>),
                 maybe
                   [consuming weight_p (\<lambda>t v. t\<lparr>ai_weight := Some v\<rparr>),
                    consuming params_with_opt_value_p (\<lambda>t v. t\<lparr>ai_accept_params := v\<rparr>)]]))
          as_result]"

definition accept_try_parse :: "string \<Rightarrow> parse_error + accept_item list" where
  "accept_try_parse what = try_parse what accept_parser"

section \<open>Transfer codings and user agents\<close>

datatype known_transfer_coding = chunked | compress | deflate | gzip

record transfer_extension =
  te_token :: string
  te_parameters :: "parameter_with_mandatory_value list"

datatype transfer_value = Known_coding known_transfer_coding | Extension transfer_extension

definition transfer_extension_p :: "transfer_extension producer" where
  "transfer_extension_p =
     produce \<lparr>te_token = [], te_parameters = []\<rparr>
       [consuming (to_lower token_p) (\<lambda>t v. t\<lparr>te_token := v\<rparr>),
        consuming params_with_value_p (\<lambda>t v. t\<lparr>te_parameters := v\<rparr>)]"

text \<open>The factories of the known codings throw for an empty name only.\<close>

definition known_coding_clause :: "string \<Rightarrow> known_transfer_coding \<Rightarrow> transfer_value clause" where
  "known_coding_clause name coding =
     consuming (the (expected_caseless_token_p name)) (just_result (Known_coding coding))"

definition transfer_value_p :: "transfer_value producer" where
  "transfer_value_p =
     produce (Known_coding chunked)
       [alternatives
          [known_coding_clause ''chunked'' chunked, known_coding_clause ''compress'' compress,
           known_coding_clause ''deflate'' deflate, known_coding_clause ''gzip'' gzip,
           known_coding_clause ''x-gzip'' gzip,
           consuming transfer_extension_p (\<lambda>t v. Extension v)]]"

definition transfer_encoding_parser :: "transfer_value list producer" where
  "transfer_encoding_parser = produce [] [consuming (non_empty_comma_separated_list_p transfer_value_p) as_result]"

definition transfer_encoding_try_parse :: "string \<Rightarrow> parse_error + transfer_value list" where
  "transfer_encoding_try_parse what = try_parse what transfer_encoding_parser"

record product =
  pr_product :: string
  pr_product_version :: "string option"

datatype tail_item = Product product | Comment string

record user_agent_value =
  ua_product :: product
  ua_tail :: "tail_item list"

definition product_blank :: product where
  "product_blank = \<lparr>pr_product = [], pr_product_version = None\<rparr>"

definition product_producer :: "product producer" where
  "product_producer =
     produce product_blank
       [consuming token_p (\<lambda>t v. t\<lparr>pr_product := v\<rparr>),
        maybe [symbol CHR ''/'', consuming token_p (\<lambda>t v. t\<lparr>pr_product_version := Some v\<rparr>)]]"

definition user_agent_parser :: "user_agent_value producer" where
  "user_agent_parser =
     produce \<lparr>ua_product = product_blank, ua_tail = []\<rparr>
       [consuming product_producer (\<lambda>t v. t\<lparr>ua_product := v\<rparr>),
        consuming
          (produce []
             [repeat_clause 0 N_max
                [space, ows,
                 alternatives
                   [consuming product_producer (\<lambda>t v. t @ [Product v]),
                    consuming comment_p (\<lambda>t v. t @ [Comment v])]]])
          (\<lambda>t v. t\<lparr>ua_tail := v\<rparr>)]"

definition user_agent_try_parse :: "string \<Rightarrow> parse_error + user_agent_value" where
  "user_agent_try_parse what = try_parse what user_agent_parser"

section \<open>Ranges\<close>

text \<open>The number type \<^verbatim>\<open>T\<close> of \<^verbatim>\<open>range_value_t\<close> is an unsigned word.\<close>

datatype 'n byte_range_spec = Double_ended 'n 'n | Open_ended 'n | Suffix_length 'n

datatype 'n range_value = Byte_ranges "'n byte_range_spec list" | Other_ranges string string

abbreviation range_number :: "('w :: len) word producer" where
  "range_number \<equiv> non_negative_decimal_number_p False from_one_to_max"

definition make_byte_range_spec_parser :: "('w :: len) word byte_range_spec producer" where
  "make_byte_range_spec_parser =
     produce (Double_ended 0 0)
       [alternatives
          [consuming
             (produce (0, 0)
                [consuming range_number set_first, symbol CHR ''-'', consuming range_number set_second])
             (\<lambda>t v. Double_ended (fst v) (snd v)),
           consuming (produce 0 [consuming range_number as_result, symbol CHR ''-'']) (\<lambda>t v. Open_ended v),
           consuming (produce 0 [symbol CHR ''-'', consuming range_number as_result]) (\<lambda>t v. Suffix_length v)]]"

definition make_bytes_prefix_parser :: "'t clause" where
  "make_bytes_prefix_parser = sequence_clause [exact ''bytes'', symbol CHR ''='']"

definition make_byte_ranges_specifier_parser :: "('w :: len) word byte_range_spec list producer" where
  "make_byte_ranges_specifier_parser =
     produce []
       [make_bytes_prefix_parser,
        force_only_this_alternative
          [consuming (non_empty_comma_separated_list_p make_byte_range_spec_parser) as_result]]"

definition make_other_ranges_specifier_parser :: "(string \<times> string) producer" where
  "make_other_ranges_specifier_parser =
     produce ([], [])
       [consuming token_p set_first,
        symbol CHR ''='',
        force_only_this_alternative
          [consuming (produce [] [repeat_clause 1 N_max [consuming vchar_symbol_p to_container]]) set_second]]"

definition range_parser :: "('w :: len) word range_value producer" where
  "range_parser =
     produce (Byte_ranges [])
       [alternatives
          [consuming make_byte_ranges_specifier_parser (\<lambda>t v. Byte_ranges v),
           consuming make_other_ranges_specifier_parser (\<lambda>t v. Other_ranges (fst v) (snd v))]]"

definition range_try_parse :: "string \<Rightarrow> parse_error + ('w :: len) word range_value" where
  "range_try_parse what = try_parse what range_parser"

section \<open>Hosts\<close>

definition unreserved_predicate :: "char \<Rightarrow> bool" where
  "unreserved_predicate actual \<longleftrightarrow> is_alpha actual \<or> is_digit actual \<or> actual \<in> set ''-._~''"

definition sub_delims_predicate :: "char \<Rightarrow> bool" where
  "sub_delims_predicate actual \<longleftrightarrow> actual \<in> set ''!$&'' \<or> actual = CHR 0x27 \<or> actual \<in> set ''()*+,;=''"

definition unreserved_symbol_p :: "char producer" where
  "unreserved_symbol_p = symbol_producer_template unreserved_predicate"

definition sub_delims_symbol_p :: "char producer" where
  "sub_delims_symbol_p = symbol_producer_template sub_delims_predicate"

definition dec_octet :: "string producer" where
  "dec_octet =
     produce []
       [alternatives
          [sequence_clause
             [consuming (symbol_p CHR ''2'') to_container, consuming (symbol_p CHR ''5'') to_container,
              consuming (symbol_from_range_p CHR ''0'' CHR ''5'') to_container],
           sequence_clause
             [consuming (symbol_p CHR ''2'') to_container,
              consuming (symbol_from_range_p CHR ''0'' CHR ''4'') to_container,
              consuming digit_p to_container],
           sequence_clause
             [consuming (symbol_p CHR ''1'') to_container, consuming digit_p to_container,
              consuming digit_p to_container],
           sequence_clause
             [consuming (symbol_from_range_p CHR ''1'' CHR ''9'') to_container,
              consuming digit_p to_container],
           consuming digit_p to_container]]"

definition ipv4_address_p :: "string producer" where
  "ipv4_address_p =
     produce []
       [consuming dec_octet to_container_string, consuming (symbol_p CHR ''.'') to_container,
        consuming dec_octet to_container_string, consuming (symbol_p CHR ''.'') to_container,
        consuming dec_octet to_container_string, consuming (symbol_p CHR ''.'') to_container,
        consuming dec_octet to_container_string]"

definition h16 :: "string producer" where
  "h16 = produce [] [repeat_clause 1 4 [consuming hexdigit_p to_container]]"

definition h16_with_colon :: "string clause" where
  "h16_with_colon =
     sequence_clause
       [consuming h16 to_container_string, consuming (symbol_p CHR '':'') to_container,
        not_clause [] [symbol CHR '':'']]"

definition ls32 :: "string producer" where
  "ls32 =
     produce []
       [alternatives
          [sequence_clause
             [consuming h16 to_container_string, consuming (symbol_p CHR '':'') to_container,
              consuming h16 to_container_string],
           consuming ipv4_address_p as_result]]"

definition double_colon :: "string clause" where
  "double_colon = consuming (just (exact_p ''::'') ''::'') to_container_string"

definition ipv6_address_p :: "string producer" where
  "ipv6_address_p =
     produce []
       [alternatives
          [sequence_clause [repeat_clause 6 6 [h16_with_colon], consuming ls32 to_container_string],
           sequence_clause
             [double_colon, repeat_clause 5 5 [h16_with_colon], consuming ls32 to_container_string],
           sequence_clause
             [maybe [consuming h16 to_container_string],
              double_colon, repeat_clause 4 4 [h16_with_colon], consuming ls32 to_container_string],
           sequence_clause
             [maybe [repeat_clause 0 1 [h16_with_colon], consuming h16 to_container_string],
              double_colon, repeat_clause 3 3 [h16_with_colon], consuming ls32 to_container_string],
           sequence_clause
             [maybe [repeat_clause 0 2 [h16_with_colon], consuming h16 to_container_string],
              double_colon, repeat_clause 2 2 [h16_with_colon], consuming ls32 to_container_string],
           sequence_clause
             [maybe [repeat_clause 0 3 [h16_with_colon], consuming h16 to_container_string],
              double_colon, h16_with_colon, consuming ls32 to_container_string],
           sequence_clause
             [maybe [repeat_clause 0 4 [h16_with_colon], consuming h16 to_container_string],
              double_colon, consuming ls32 to_container_string],
           sequence_clause
             [maybe [repeat_clause 0 5 [h16_with_colon], consuming h16 to_container_string],
              double_colon, consuming h16 to_container_string],
           sequence_clause
             [maybe [repeat_clause 0 6 [h16_with_colon], consuming h16 to_container_string],
              double_colon]]]"

definition reg_name_p :: "string producer" where
  "reg_name_p =
     produce []
       [repeat_clause 1 N_max
          [alternatives
             [consuming unreserved_symbol_p to_container,
              consuming pct_encoded_symbols_p pct_encoded_symbols_consumer,
              consuming sub_delims_symbol_p to_container]]]"

datatype host_value = Reg_name string | Ipv4_address string | Ipv6_address string

record raw_host_value =
  rh_host :: host_value
  rh_port :: "u16 option"

definition host_value_p :: "host_value producer" where
  "host_value_p =
     produce (Reg_name [])
       [alternatives
          [consuming
             (produce (Ipv6_address [])
                [symbol CHR ''['',
                 consuming (transformed_value_producer (to_lower ipv6_address_p) Ipv6_address) as_result,
                 symbol CHR '']''])
             as_result,
           consuming
             (produce (Ipv4_address []) [consuming (transformed_value_producer ipv4_address_p Ipv4_address) as_result])
             as_result,
           consuming
             (produce (Reg_name [])
                [consuming (transformed_value_producer (to_lower reg_name_p) Reg_name) as_result])
             as_result]]"

definition raw_host_parser :: "raw_host_value producer" where
  "raw_host_parser =
     produce \<lparr>rh_host = Reg_name [], rh_port = None\<rparr>
       [consuming host_value_p (\<lambda>t v. t\<lparr>rh_host := v\<rparr>),
        maybe
          [symbol CHR '':'',
           consuming (non_negative_decimal_number_p False from_one_to_max) (\<lambda>t v. t\<lparr>rh_port := Some v\<rparr>)]]"

definition raw_host_try_parse :: "string \<Rightarrow> parse_error + raw_host_value" where
  "raw_host_try_parse what = try_parse what raw_host_parser"

section \<open>Content disposition\<close>

definition regular_token_p :: "string producer" where
  "regular_token_p s =
     (case token_p s of
        (Inr value, s') \<Rightarrow>
          (if last value = CHR ''*''
           then (Inl (parse_error_at (src_index s + length value - 1) unexpected_character), backto (src_index s) s')
           else (Inr value, s'))
      | (Inl e, s') \<Rightarrow> (Inl e, backto (src_index s) s'))"

definition ext_token_p :: "string producer" where
  "ext_token_p s =
     (case token_p s of
        (Inr value, s') \<Rightarrow>
          (if last value \<noteq> CHR ''*''
           then (Inl (parse_error_at (src_index s) pattern_not_found), backto (src_index s) s')
           else (Inr value, s'))
      | (Inl e, s') \<Rightarrow> (Inl e, backto (src_index s) s'))"

definition mime_charsetc_predicate :: "char \<Rightarrow> bool" where
  "mime_charsetc_predicate actual \<longleftrightarrow>
     is_alpha actual \<or> is_digit actual \<or> actual \<in> set ''!#$%&+-^_'' \<or> actual = CHR 0x60 \<or> actual \<in> set ''{}~''"

definition language_predicate :: "char \<Rightarrow> bool" where
  "language_predicate actual \<longleftrightarrow> is_alpha actual \<or> is_digit actual \<or> actual = CHR ''-''"

definition attr_char_predicate :: "char \<Rightarrow> bool" where
  "attr_char_predicate actual \<longleftrightarrow>
     is_alpha actual \<or> is_digit actual \<or> actual \<in> set ''!#$&+-.^_'' \<or> actual = CHR 0x60 \<or> actual \<in> set ''|~''"

definition ext_parameter_value_p :: "string producer" where
  "ext_parameter_value_p =
     produce []
       [repeat_clause 1 N_max [consuming (symbol_producer_template mime_charsetc_predicate) to_container],
        consuming (symbol_p CHR 0x27) to_container,
        repeat_clause 0 N_max [consuming (symbol_producer_template language_predicate) to_container],
        consuming (symbol_p CHR 0x27) to_container,
        repeat_clause 0 N_max
          [alternatives
             [consuming (symbol_producer_template attr_char_predicate) to_container,
              consuming pct_encoded_symbols_p pct_encoded_symbols_consumer]]]"

record content_disposition_value =
  cd_value :: string
  cd_parameters :: "parameter_with_mandatory_value list"

definition content_disposition_parser :: "content_disposition_value producer" where
  "content_disposition_parser =
     produce \<lparr>cd_value = [], cd_parameters = []\<rparr>
       [consuming (to_lower token_p) (\<lambda>t v. t\<lparr>cd_value := v\<rparr>),
        consuming
          (produce []
             [repeat_clause 0 N_max
                [consuming
                   (produce ([], [])
                      [ows, symbol CHR '';'', ows,
                       alternatives
                         [sequence_clause
                            [consuming (to_lower regular_token_p) set_first,
                             symbol CHR ''='',
                             alternatives [consuming token_p set_second, consuming quoted_string_p set_second]],
                          sequence_clause
                            [consuming (to_lower ext_token_p) set_first,
                             symbol CHR ''='',
                             consuming ext_parameter_value_p set_second]]])
                   to_container]])
          (\<lambda>t v. t\<lparr>cd_parameters := v\<rparr>)]"

definition content_disposition_try_parse :: "string \<Rightarrow> parse_error + content_disposition_value" where
  "content_disposition_try_parse what = try_parse what content_disposition_parser"

section \<open>Authorization\<close>

definition is_token68_char :: "char \<Rightarrow> bool" where
  "is_token68_char actual \<longleftrightarrow> is_alphanum actual \<or> actual \<in> set ''-._~+/''"

definition token68_p :: "string producer" where
  "token68_p =
     produce []
       [consuming
          (produce []
             [repeat_clause 1 N_max [consuming (symbol_producer_template is_token68_char) to_container],
              repeat_clause 0 N_max [consuming (symbol_p CHR ''='') to_container]])
          as_result]"

datatype value_form = token_form | quoted_string_form

record auth_param =
  ap_name :: string
  ap_value :: string
  ap_form :: value_form

datatype auth_params = Token68 string | Param_container "auth_param list"

record authorization_value =
  av_auth_scheme :: string
  av_auth_param :: auth_params

definition auth_param_p :: "auth_param producer" where
  "auth_param_p =
     produce \<lparr>ap_name = [], ap_value = [], ap_form = token_form\<rparr>
       [consuming (to_lower token_p) (\<lambda>t v. t\<lparr>ap_name := v\<rparr>),
        ows, symbol CHR ''='', ows,
        consuming
          (produce ([], token_form)
             [alternatives
                [consuming (transformed_value_producer token_p (\<lambda>v. (v, token_form))) as_result,
                 consuming (transformed_value_producer quoted_string_p (\<lambda>v. (v, quoted_string_form))) as_result]])
          (\<lambda>t v. t\<lparr>ap_value := fst v, ap_form := snd v\<rparr>)]"

definition auth_params_p :: "auth_params producer" where
  "auth_params_p =
     produce (Token68 [])
       [alternatives
          [sequence_clause
             [consuming token68_p (\<lambda>t v. Token68 v),
              not_clause (Token68 []) [skip_p any_symbol_p]],
           consuming (maybe_empty_comma_separated_list_p auth_param_p) (\<lambda>t v. Param_container v)]]"

definition authorization_parser :: "authorization_value producer" where
  "authorization_parser =
     produce \<lparr>av_auth_scheme = [], av_auth_param = Token68 []\<rparr>
       [consuming (to_lower token_p) (\<lambda>t v. t\<lparr>av_auth_scheme := v\<rparr>),
        maybe
          [repeat_clause 1 N_max [space],
           consuming auth_params_p (\<lambda>t v. t\<lparr>av_auth_param := v\<rparr>)]]"

definition authorization_try_parse :: "string \<Rightarrow> parse_error + authorization_value" where
  "authorization_try_parse what = try_parse what authorization_parser"

subsection \<open>Basic and bearer authentification\<close>

datatype extraction_error =
    no_auth_http_field
  | illegal_http_field_value
  | not_basic_auth_scheme
  | invalid_basic_auth_param
  | token68_decode_error
  | invalid_username_password_pair
  | empty_username

datatype bearer_extraction_error =
    bearer_no_auth_http_field
  | bearer_illegal_http_field_value
  | not_bearer_auth_scheme
  | invalid_bearer_auth_param

record basic_auth_params =
  ba_username :: string
  ba_password :: string

text \<open>
  A decoder that reads past the end of its input gives no defined result: \<^term>\<open>None\<close>.
\<close>

definition basic_try_extract_params :: "authorization_value \<Rightarrow> (extraction_error + basic_auth_params) option" where
  "basic_try_extract_params field =
     (case av_auth_param field of
        Param_container _ \<Rightarrow> Some (Inl invalid_basic_auth_param)
      | Token68 value \<Rightarrow>
          (case try_decode value of
             Inl Read_past_end \<Rightarrow> None
           | Inl _ \<Rightarrow> Some (Inl token68_decode_error)
           | Inr username_password \<Rightarrow>
               (if CHR '':'' \<notin> set username_password then Some (Inl invalid_username_password_pair)
                else let first_colon = length (takeWhile (\<lambda>c. c \<noteq> CHR '':'') username_password) in
                  if first_colon = 0 then Some (Inl empty_username)
                  else Some (Inr \<lparr>ba_username = take first_colon username_password,
                                  ba_password = drop (first_colon + 1) username_password\<rparr>))))"

definition basic_perform_extraction_attempt :: "string option \<Rightarrow> (extraction_error + basic_auth_params) option" where
  "basic_perform_extraction_attempt opt_field_value =
     (case opt_field_value of
        None \<Rightarrow> Some (Inl no_auth_http_field)
      | Some v \<Rightarrow>
          (case authorization_try_parse v of
             Inl _ \<Rightarrow> Some (Inl illegal_http_field_value)
           | Inr parsed_value \<Rightarrow>
               (if ''basic'' \<noteq> av_auth_scheme parsed_value then Some (Inl not_basic_auth_scheme)
                else basic_try_extract_params parsed_value)))"

definition basic_params_by_name :: "http_header_fields_t \<Rightarrow> string \<Rightarrow> (extraction_error + basic_auth_params) option" where
  "basic_params_by_name hdr_fields auth_field_name =
     basic_perform_extraction_attempt (opt_value_of_name auth_field_name hdr_fields)"

definition basic_params_by_id :: "http_header_fields_t \<Rightarrow> http_field_t \<Rightarrow> (extraction_error + basic_auth_params) option" where
  "basic_params_by_id hdr_fields auth_field_id =
     basic_perform_extraction_attempt (opt_value_of_id auth_field_id hdr_fields)"

definition bearer_try_extract_params :: "authorization_value \<Rightarrow> bearer_extraction_error + string" where
  "bearer_try_extract_params field =
     (case av_auth_param field of
        Param_container _ \<Rightarrow> Inl invalid_bearer_auth_param
      | Token68 value \<Rightarrow> Inr value)"

definition bearer_perform_extraction_attempt :: "string option \<Rightarrow> bearer_extraction_error + string" where
  "bearer_perform_extraction_attempt opt_field_value =
     (case opt_field_value of
        None \<Rightarrow> Inl bearer_no_auth_http_field
      | Some v \<Rightarrow>
          (case authorization_try_parse v of
             Inl _ \<Rightarrow> Inl bearer_illegal_http_field_value
           | Inr parsed_value \<Rightarrow>
               (if ''bearer'' \<noteq> av_auth_scheme parsed_value then Inl not_bearer_auth_scheme
                else bearer_try_extract_params parsed_value)))"

definition bearer_params_by_name :: "http_header_fields_t \<Rightarrow> string \<Rightarrow> bearer_extraction_error + string" where
  "bearer_params_by_name hdr_fields auth_field_name =
     bearer_perform_extraction_attempt (opt_value_of_name auth_field_name hdr_fields)"

definition bearer_params_by_id :: "http_header_fields_t \<Rightarrow> http_field_t \<Rightarrow> bearer_extraction_error + string" where
  "bearer_params_by_id hdr_fields auth_field_id =
     bearer_perform_extraction_attempt (opt_value_of_id auth_field_id hdr_fields)"

section \<open>Fields of a request\<close>

datatype 'a field_result = Parsed 'a | Field_not_found | Field_error parse_error

definition try_extract_field_value_from ::
    "(string \<Rightarrow> parse_error + 'a) \<Rightarrow> string option \<Rightarrow> string \<Rightarrow> 'a field_result" where
  "try_extract_field_value_from parse opt_value default_value =
     (if opt_value = None \<and> default_value = [] then Field_not_found
      else case parse (case opt_value of Some v \<Rightarrow> v | None \<Rightarrow> default_value) of
             Inr v \<Rightarrow> Parsed v
           | Inl e \<Rightarrow> Field_error e)"

definition try_parse_field_by_name ::
    "(string \<Rightarrow> parse_error + 'a) \<Rightarrow> http_header_fields_t \<Rightarrow> string \<Rightarrow> string \<Rightarrow> 'a field_result" where
  "try_parse_field_by_name parse hdr_fields field_name default_value =
     try_extract_field_value_from parse (opt_value_of_name field_name hdr_fields) default_value"

definition try_parse_field_by_id ::
    "(string \<Rightarrow> parse_error + 'a) \<Rightarrow> http_header_fields_t \<Rightarrow> http_field_t \<Rightarrow> string \<Rightarrow> 'a field_result" where
  "try_parse_field_by_id parse hdr_fields field_id default_value =
     try_extract_field_value_from parse (opt_value_of_id field_id hdr_fields) default_value"

section \<open>The parsers are regular\<close>

definition peg_check :: "'a value_grammar \<Rightarrow> ('a \<Rightarrow> bool) \<Rightarrow> 'a value_grammar" where
  "peg_check g P r = (case g r of Value r' v \<Rightarrow> if P v then Value r' v else NoValue False | NoValue b \<Rightarrow> NoValue b)"

lemma special_tokens_produce:
  "produces regular_token_p (peg_check peg_token (\<lambda>v. last v \<noteq> CHR ''*''))"
  "produces ext_token_p (peg_check peg_token (\<lambda>v. last v = CHR ''*''))"
proof -
  have "value_outcome_at s (peg_check peg_token (\<lambda>v. last v \<noteq> CHR ''*'') (rest s)) (regular_token_p s)"
    "value_outcome_at s (peg_check peg_token (\<lambda>v. last v = CHR ''*'') (rest s)) (ext_token_p s)" if s: "src_ok s" for s
    using producesD[OF token_produces s]
    by (cases "peg_token (rest s)";
        auto simp: peg_check_def regular_token_p_def ext_token_p_def s backto_same_input[OF _ s] same_input_refl[OF s])+
  then show "produces regular_token_p (peg_check peg_token (\<lambda>v. last v \<noteq> CHR ''*''))"
    "produces ext_token_p (peg_check peg_token (\<lambda>v. last v = CHR ''*''))"
    by (simp_all add: produces_def)
qed

lemma peg_special_tokens [peg]:
  "regular_p regular_token_p" "regular_p ext_token_p"
  "producer_grammar regular_token_p = peg_check peg_token (\<lambda>v. last v \<noteq> CHR ''*'')"
  "producer_grammar ext_token_p = peg_check peg_token (\<lambda>v. last v = CHR ''*'')"
  using special_tokens_produce by (auto intro: produces_regular producer_grammar_unique)

lemmas parser_defs = weighted_token_p_def accept_charset_parser_def accept_encoding_parser_def
  make_language_tag_p_def make_language_range_p_def accept_language_parser_def connection_parser_def
  content_encoding_parser_def directive_p_def cache_control_parser_def make_default_parser_def
  make_weight_aware_parser_def content_type_parser_def accept_parser_def transfer_extension_p_def
  product_producer_def user_agent_parser_def make_byte_range_spec_parser_def
  make_bytes_prefix_parser_def make_byte_ranges_specifier_parser_def make_other_ranges_specifier_parser_def
  range_parser_def unreserved_symbol_p_def sub_delims_symbol_p_def dec_octet_def ipv4_address_p_def h16_def
  h16_with_colon_def ls32_def double_colon_def ipv6_address_p_def reg_name_p_def host_value_p_def
  raw_host_parser_def ext_parameter_value_p_def content_disposition_parser_def token68_p_def
  auth_param_p_def auth_params_p_def authorization_parser_def

lemma known_coding_regular [peg]:
  "name \<noteq> [] \<Longrightarrow> regular (known_coding_clause name coding)"
  by (simp add: known_coding_clause_def expected_caseless_token_p_def caseless_exact_fragment_producer_def peg)

text \<open>Every field parser depends on the rest of the input only.\<close>

lemma field_parsers_regular [peg]:
  "regular_p weighted_token_p" "regular_p directive_p" "regular_p make_default_parser"
  "regular_p accept_charset_parser" "regular_p accept_encoding_parser" "regular_p accept_language_parser"
  "regular_p connection_parser" "regular_p content_encoding_parser" "regular_p cache_control_parser"
  "regular_p make_weight_aware_parser" "regular_p content_type_parser" "regular_p accept_parser"
  "regular_p transfer_value_p" "regular_p transfer_encoding_parser" "regular_p product_producer"
  "regular_p user_agent_parser" "regular_p make_byte_range_spec_parser"
  "regular_p make_byte_ranges_specifier_parser" "regular_p make_other_ranges_specifier_parser"
  "regular_p range_parser" "regular_p ipv4_address_p" "regular_p ipv6_address_p" "regular_p reg_name_p"
  "regular_p host_value_p" "regular_p raw_host_parser" "regular_p content_disposition_parser"
  "regular_p token68_p" "regular_p auth_param_p" "regular_p auth_params_p" "regular_p authorization_parser"
  by (simp_all add: parser_defs transfer_value_p_def transfer_encoding_parser_def peg)

text \<open>A structure with a single field is filled by the producer of that field.\<close>

lemma producer_grammar_as_result:
  "regular_p p \<Longrightarrow> producer_grammar (produce d [consuming p as_result]) = producer_grammar p"
  by (rule ext) (simp add: peg peg_produce_def peg_consume_def as_result_def split: value_outcome.split)

lemma try_parse_as_result:
  assumes "regular_p p"
  shows "try_parse d (produce e [consuming p as_result]) = Inr v \<longleftrightarrow> try_parse d p = Inr v"
proof -
  have "regular_p (produce e [consuming p as_result])" using assms by (simp add: peg)
  then show ?thesis using assms by (simp add: try_parse_ok_iff producer_grammar_as_result)
qed

section \<open>Lists of weighted tokens and of directives\<close>

text \<open>A token with an optional weight, as it is written.\<close>

fun weighted_text :: "string \<times> qvalue option \<Rightarrow> string" where
  "weighted_text (w, None) = w"
| "weighted_text (w, Some q) = w @ '';q='' @ qvalue_as_string q"

definition weighted_of :: "string \<times> qvalue option \<Rightarrow> weighted_item" where
  "weighted_of x = \<lparr>wi_name = map to_lower_case (fst x), wi_weight = (case snd x of Some q \<Rightarrow> q | None \<Rightarrow> qvalue_max)\<rparr>"

definition weighted_ok :: "string \<times> qvalue option \<Rightarrow> bool" where
  "weighted_ok x \<longleftrightarrow> is_token (fst x) \<and> pred_option (\<lambda>q. qv_value q \<le> 1000) (snd x)"

lemma weight_absent:
  assumes "list_stop r"
  shows "producer_grammar weight_p r = NoValue False"
  using params_end[OF list_stop_params[OF assms]]
  by (simp add: weight_p_def peg peg_produce_def params_end[OF list_stop_params[OF assms]] del: peg_all.simps)

lemma semicolon_stops: "stops is_token_char (CHR '';'' # r)"
  by (simp add: stops_def)

lemma qvalue_text_last: "qv_value q \<le> 1000 \<Longrightarrow> \<not> is_space (last (qvalue_as_string q)) \<and> qvalue_as_string q \<noteq> []"
proof -
  assume q: "qv_value q \<le> 1000"
  have "\<not> is_space (char_of_byte (48 + ucast d))" if "unat (d :: u16) < 10" for d
    using digit_of_byte(1)[OF that] by (auto simp: is_space_def SP_def HTAB_def is_digit_def)
  moreover have "unat (qv_value q mod 100 mod 10) < 10" by (simp add: unat_mod_distrib)
  ultimately show ?thesis
    by (simp add: qvalue_as_string_def Let_def is_space_def SP_def HTAB_def)
qed

interpretation weighted_tokens: list_element weighted_token_p weighted_text weighted_of weighted_ok
proof unfold_locales
  show "regular_p weighted_token_p" by (simp add: peg)
next
  fix x r assume "weighted_ok x" "list_stop r"
  then show "producer_grammar weighted_token_p (weighted_text x @ r) = Value r (weighted_of x)"
    using weight_grammar_text[of _ r]
    by (cases x; cases "snd x")
       (auto simp: weighted_token_p_def peg peg_produce_def peg_consume_def peg_map_def peg_token_append
          list_stop_token peg_option_def weight_absent semicolon_stops weighted_of_def weighted_ok_def
          weighted_item_blank_def)
next
  fix x assume "weighted_ok x"
  then show "weighted_text x \<noteq> [] \<and> \<not> is_space (hd (weighted_text x)) \<and> hd (weighted_text x) \<noteq> CHR '','' \<and>
      \<not> is_space (last (weighted_text x))"
    using token_visible[of "fst x"] qvalue_text_last
    by (cases x; cases "snd x") (auto simp: weighted_ok_def)
qed

text \<open>A directive of \<^verbatim>\<open>Cache-Control\<close>: a token with an optional value.\<close>

fun directive_text :: "string \<times> written_value option \<Rightarrow> string" where
  "directive_text (w, None) = w"
| "directive_text (w, Some v) = w @ CHR ''='' # value_text v"

definition directive_of :: "string \<times> written_value option \<Rightarrow> parameter_with_optional_value" where
  "directive_of x = (map to_lower_case (fst x), map_option value_of (snd x))"

definition directive_ok :: "string \<times> written_value option \<Rightarrow> bool" where
  "directive_ok x \<longleftrightarrow> is_token (fst x) \<and> pred_option value_ok (snd x)"

lemma list_stop_eq:
  assumes "list_stop r"
  shows "r = [] \<or> hd r \<noteq> CHR ''=''"
proof (cases "r = []")
  case False
  then obtain sp r' where "r = sp @ CHR '','' # r'" "list_all is_space sp" using assms by (auto simp: list_stop_def)
  then show ?thesis by (cases sp) auto
qed simp

lemma value_text_last: "value_ok v \<Longrightarrow> value_text v \<noteq> [] \<and> \<not> is_space (last (value_text v))"
  by (cases v) (auto simp: quoted_def dest: token_visible)

interpretation directives: list_element directive_p directive_text directive_of directive_ok
proof unfold_locales
  show "regular_p directive_p" by (simp add: peg)
next
  fix x r assume x: "directive_ok x" and r: "list_stop r"
  obtain w ov where xw: "x = (w, ov)" by (cases x)
  have g: "producer_grammar directive_p =
      peg_produce ([], None) [peg_consume (peg_map peg_token (map to_lower_case)) set_first, optional_value_grammar]"
    by (simp add: directive_p_def peg optional_value_grammar_def)
  have eq: "stops is_token_char (CHR ''='' # u)" for u by (simp add: stops_def)
  show "producer_grammar directive_p (directive_text x @ r) = Value r (directive_of x)"
    using x r unfolding xw g
    by (cases ov)
       (auto simp: peg_produce_def peg_consume_def peg_map_def peg_token_append list_stop_token eq
          optional_value_none[OF list_stop_eq] optional_value_some set_first_def directive_of_def directive_ok_def)
next
  fix x assume "directive_ok x"
  then show "directive_text x \<noteq> [] \<and> \<not> is_space (hd (directive_text x)) \<and> hd (directive_text x) \<noteq> CHR '','' \<and>
      \<not> is_space (last (directive_text x))"
    using token_visible[of "fst x"] value_text_last
    by (cases x; cases "snd x") (auto simp: directive_ok_def)
qed

text \<open>
  C20: Comma-separated fields are read as their elements, whatever the letter case of the tokens and the
  white space around the commas: \<^verbatim>\<open>Connection\<close> and \<^verbatim>\<open>Content-Encoding\<close> give the tokens in
  lower case, \<^verbatim>\<open>Accept-Charset\<close> and \<^verbatim>\<open>Accept-Encoding\<close> the tokens with their weights, written as \<^verbatim>\<open>;q=d.ddd\<close>, 1.000
  where none is written, and \<^verbatim>\<open>Cache-Control\<close> the directives with their values, of which
  quoted ones lose their quotes and escapes.
\<close>

theorem comma_separated_fields:
  assumes "length ts \<le> N_max" and "length ws \<le> N_max" and "length ds \<le> N_max"
    and "is_token t" and "gaps_ok is_token ts"
    and "weighted_ok w" and "gaps_ok weighted_ok ws"
    and "directive_ok d" and "gaps_ok directive_ok ds"
  shows "connection_try_parse (t @ list_tail (\<lambda>w. w) ts) =
      Inr (map to_lower_case t # map (\<lambda>(pre, post, x). map to_lower_case x) ts) \<and>
    content_encoding_try_parse (t @ list_tail (\<lambda>w. w) ts) =
      Inr (map to_lower_case t # map (\<lambda>(pre, post, x). map to_lower_case x) ts) \<and>
    accept_charset_try_parse (weighted_text w @ list_tail weighted_text ws) =
      Inr (weighted_of w # map (\<lambda>(pre, post, x). weighted_of x) ws) \<and>
    accept_encoding_try_parse (weighted_text w @ list_tail weighted_text ws) =
      Inr (weighted_of w # map (\<lambda>(pre, post, x). weighted_of x) ws) \<and>
    cache_control_try_parse (directive_text d @ list_tail directive_text ds) =
      Inr (directive_of d # map (\<lambda>(pre, post, x). directive_of x) ds)"
proof -
  have r: "regular_p (to_lower token_p)" by (simp add: peg)
  show ?thesis
    using lower_tokens.lists_parsed(1)[OF assms(4,5,1)] weighted_tokens.lists_parsed[OF assms(6,7,2)]
      directives.lists_parsed(1)[OF assms(8,9,3)]
    by (simp add: connection_try_parse_def content_encoding_try_parse_def accept_charset_try_parse_def
        accept_encoding_try_parse_def cache_control_try_parse_def connection_parser_def
        content_encoding_parser_def accept_charset_parser_def accept_encoding_parser_def
        cache_control_parser_def try_parse_as_result r field_parsers_regular regular_lists)
qed

theorem comma_separated_fields_witness:
  "accept_encoding_try_parse ''GZIP;q=0.500 , br'' =
     Inr [\<lparr>wi_name = ''gzip'', wi_weight = \<lparr>qv_value = 500\<rparr>\<rparr>, \<lparr>wi_name = ''br'', wi_weight = \<lparr>qv_value = 1000\<rparr>\<rparr>]"
proof -
  have v: "length [('' '', '' '', (''br'', None :: qvalue option))] \<le> N_max" "length [('' '', [], ''b'')] \<le> N_max"
    "length [([], [], (''b'', None :: written_value option))] \<le> N_max" by (simp_all add: N_max_def)
  have t: "is_token ''a''" "is_token ''b''" "is_token ''br''" "is_token ''GZIP''" by code_simp+
  have q: "qvalue_as_string \<lparr>qv_value = 500\<rparr> = ''0.500''" by code_simp
  have "to_lower_case CHR ''G'' = CHR ''g''" "to_lower_case CHR ''Z'' = CHR ''z''" "to_lower_case CHR ''I'' = CHR ''i''"
    "to_lower_case CHR ''P'' = CHR ''p''" "to_lower_case CHR ''b'' = CHR ''b''" "to_lower_case CHR ''r'' = CHR ''r''"
    by (simp_all add: to_lower_case_name)
  then show ?thesis
    using comma_separated_fields[of "[('' '', [], ''b'')]" "[('' '', '' '', (''br'', None))]" "[([], [], (''b'', None))]"
        "''a''" "(''GZIP'', Some \<lparr>qv_value = 500\<rparr>)" "(''a'', None)", OF v(2) v(1) v(3)] t q
    by (simp add: gaps_ok_def weighted_ok_def directive_ok_def list_tail_def weighted_of_def qvalue_max_def qvalue_maximum_def)
qed

section \<open>Content types\<close>

record written_media_type =
  wm_type :: string
  wm_subtype :: string
  wm_parameters :: "(written_param \<times> written_value) list"

definition media_type_text :: "written_media_type \<Rightarrow> string" where
  "media_type_text m = wm_type m @ CHR ''/'' # wm_subtype m @ concat (map param_text (wm_parameters m))"

definition media_type_of :: "written_media_type \<Rightarrow> media_type_value" where
  "media_type_of m = \<lparr>mt_type = map to_lower_case (wm_type m), mt_subtype = map to_lower_case (wm_subtype m),
     mt_parameters = map param_of (wm_parameters m)\<rparr>"

definition media_type_ok :: "written_media_type \<Rightarrow> bool" where
  "media_type_ok m \<longleftrightarrow> is_token (wm_type m) \<and> is_token (wm_subtype m) \<and> list_all param_ok (wm_parameters m) \<and>
     length (wm_parameters m) \<le> N_max"

lemma params_start: "list_all param_ok ps \<Longrightarrow> stops is_token_char r \<Longrightarrow> stops is_token_char (concat (map param_text ps) @ r)"
  by (cases ps) (simp_all add: param_text_def param_ok_def head_stops)

lemma media_type_grammar:
  assumes "media_type_ok m" and "params_stop r"
  shows "producer_grammar make_default_parser (media_type_text m @ r) = Value r (media_type_of m)"
proof -
  have slash: "stops is_token_char (CHR ''/'' # u)" for u by (simp add: stops_def)
  have ps: "stops is_token_char (concat (map param_text (wm_parameters m)) @ r)"
    using assms by (intro params_start) (auto simp: media_type_ok_def params_stop_def)
  show ?thesis
    using assms slash ps params_grammar[of "wm_parameters m" r]
    by (simp add: make_default_parser_def peg media_type_text_def media_type_ok_def media_type_of_def peg_produce_def
        peg_consume_def peg_map_def peg_token_append peg_char_def particular_symbol_predicate_def
        any_value_skipper_def media_type_blank_def)
qed

lemma media_type_trimmed:
  assumes "media_type_ok m"
  shows "remove_trailing_spaces (media_type_text m) = media_type_text m"
proof (rule remove_trailing_spaces_id, cases "wm_parameters m" rule: rev_cases)
  case Nil
  then show "media_type_text m = [] \<or> \<not> is_space (last (media_type_text m))"
    using assms token_visible[of "wm_subtype m"] by (simp add: media_type_text_def media_type_ok_def)
next
  case (snoc ps p)
  then show "media_type_text m = [] \<or> \<not> is_space (last (media_type_text m))"
    using assms value_text_last[of "snd p"]
    by (simp add: media_type_text_def media_type_ok_def param_text_def param_ok_def)
qed

text \<open>
  C21: A \<^verbatim>\<open>Content-Type\<close> is read as written: the type, the subtype and the names of the parameters in
  lower case, the values of the parameters unchanged, be they tokens or quoted strings with escapes, and
  with any white space around the semicolons.
\<close>

theorem content_type_parsed:
  assumes "media_type_ok m"
  shows "content_type_try_parse (media_type_text m) = Inr (media_type_of m)"
  using media_type_grammar[OF assms, of "[]"] media_type_trimmed[OF assms]
  by (simp add: content_type_try_parse_def content_type_parser_def try_parse_as_result field_parsers_regular
      try_parse_ok_iff params_stop_def stops_def)

theorem content_type_parsed_witness:
  "content_type_try_parse (''Text/plain ;a='' @ quoted [CHR 0x22]) =
     Inr \<lparr>mt_type = ''text'', mt_subtype = ''plain'', mt_parameters = [(''a'', [CHR 0x22])]\<rparr>"
proof -
  let ?m = "\<lparr>wm_type = ''Text'', wm_subtype = ''plain'',
    wm_parameters = [(\<lparr>wp_before = '' '', wp_after = [], wp_name = ''a''\<rparr>, As_quoted [CHR 0x22])]\<rparr>"
  have t: "is_token ''Text''" "is_token ''plain''" "is_token ''a''" "is_quotable CHR 0x22" by code_simp+
  have "media_type_ok ?m"
    by (simp add: media_type_ok_def t param_ok_def head_ok_def N_max_def)
  from content_type_parsed[OF this] show ?thesis
    by (simp add: media_type_text_def media_type_of_def param_text_def param_head_def param_of_def to_lower_case_name)
qed

section \<open>Authentification\<close>

lemma alphabet_token68:
  assumes "unat v < 64"
  shows "is_token68_char (alphabet_char v)"
proof -
  have "of_char (char_of_byte b) = unat b" for b using unat_byte_of_char[of "char_of_byte b"] by simp
  then have "list_all (\<lambda>b. is_token68_char (char_of_byte b)) base64_alphabet"
    by (simp add: base64_alphabet_def is_token68_char_def is_alphanum_def is_alpha_def is_digit_def in_range_def
        char_code_eq)
  moreover have "length base64_alphabet = 64" by simp
  ultimately show ?thesis using assms by (simp add: alphabet_char_def list_all_length)
qed

lemma base64_shape:
  "\<exists>cs pad. base64_encode w = cs @ pad \<and> list_all is_token68_char cs \<and> list_all (\<lambda>c. c = CHR ''='') pad \<and>
     (w \<noteq> [] \<longrightarrow> cs \<noteq> [])"
proof (induction w rule: base64_encode.induct)
  case (1 c0 c1 c2 w)
  then obtain cs pad where IH: "base64_encode w = cs @ pad" "list_all is_token68_char cs" "list_all (\<lambda>c. c = CHR ''='') pad"
    by blast
  let ?a = "\<lambda>i. alphabet_char (sixbits_char i (push_bit 16 (uch c0) OR push_bit 8 (uch c1) OR uch c2))"
  have "base64_encode (c0 # c1 # c2 # w) = (?a 18 # ?a 12 # ?a 6 # ?a 0 # cs) @ pad" by (simp add: IH(1) Let_def)
  moreover have "list_all is_token68_char (?a 18 # ?a 12 # ?a 6 # ?a 0 # cs)"
    using IH(2) by (simp add: alphabet_token68)
  ultimately show ?case using IH(3) by blast
next
  case (2 c0 c1)
  let ?a = "\<lambda>i. alphabet_char (sixbits_char i (push_bit 16 (uch c0) OR push_bit 8 (uch c1)))"
  have "base64_encode [c0, c1] = [?a 18, ?a 12, ?a 6] @ [CHR ''='']" by (simp add: Let_def)
  moreover have "list_all is_token68_char [?a 18, ?a 12, ?a 6]" by (simp add: alphabet_token68)
  ultimately show ?case by (intro exI[of _ "[?a 18, ?a 12, ?a 6]"] exI[of _ "[CHR ''='']"]) simp
next
  case (3 c0)
  let ?a = "\<lambda>i. alphabet_char (sixbits_char i (push_bit 16 (uch c0)))"
  have "base64_encode [c0] = [?a 18, ?a 12] @ ''==''" by (simp add: Let_def)
  moreover have "list_all is_token68_char [?a 18, ?a 12]" by (simp add: alphabet_token68)
  ultimately show ?case by (intro exI[of _ "[?a 18, ?a 12]"] exI[of _ "''==''"]) simp
qed simp

lemma peg_loop_skipped_chars:
  assumes "length r \<le> n"
  shows "peg_loop [peg_consume (peg_char P) any_value_skipper] n r t = (length (takeWhile P r), dropWhile P r, t)"
  using assms
proof (induction n arbitrary: r)
  case (Suc n)
  then show ?case by (cases r) (auto simp: peg_consume_def peg_char_def any_value_skipper_def)
qed simp

definition is_token68 :: "string \<Rightarrow> bool" where
  "is_token68 w \<longleftrightarrow> (\<exists>cs pad. w = cs @ pad \<and> cs \<noteq> [] \<and> list_all is_token68_char cs \<and> list_all (\<lambda>c. c = CHR ''='') pad)"

lemma token68_grammar:
  assumes "is_token68 w" and "length w \<le> N_max"
  shows "producer_grammar token68_p w = Value [] w"
proof -
  obtain cs pad where w: "w = cs @ pad" "cs \<noteq> []" "list_all is_token68_char cs" "list_all (\<lambda>c. c = CHR ''='') pad"
    using assms(1) by (auto simp: is_token68_def)
  have "\<not> is_token68_char CHR ''=''" by (simp add: is_token68_char_def char_classes)
  then have s: "stops is_token68_char pad" using w(4) by (cases pad) (auto simp: stops_def)
  have p: "takeWhile ((=) CHR ''='') pad = pad" "dropWhile ((=) CHR ''='') pad = []"
    using w(4) by (auto simp: list_all_iff takeWhile_eq_all_conv)
  have "length pad \<le> N_max" using assms(2) w(1) by simp
  with assms(2) w s p takeWhile_stops[OF w(3) s] show ?thesis
    by (simp add: token68_p_def peg peg_produce_def peg_repeat_def peg_loop_all_chars to_container_def
        peg_consume_def[of "peg_produce _ _"] as_result_def particular_symbol_predicate_def[abs_def] Suc_le_eq)
qed

lemma is_token68_last:
  assumes "is_token68 w"
  shows "is_token68_char (last w) \<or> last w = CHR ''=''"
proof -
  obtain cs pad where w: "w = cs @ pad" "cs \<noteq> []" "list_all is_token68_char cs" "list_all (\<lambda>c. c = CHR ''='') pad"
    using assms by (auto simp: is_token68_def)
  show ?thesis
  proof (cases pad rule: rev_cases)
    case Nil
    with w show ?thesis by (simp add: list_all_iff)
  next
    case (snoc p c)
    with w show ?thesis by simp
  qed
qed

lemma token68_visible: "is_space c \<Longrightarrow> \<not> is_token68_char c"
proof -
  have "\<not> is_token68_char CHR '' ''" "\<not> is_token68_char CHR 0x09" by code_simp+
  then show "is_space c \<Longrightarrow> \<not> is_token68_char c" by (auto simp: is_space_def SP_def HTAB_def)
qed

lemma authorization_parsed:
  assumes "is_token scheme" and "sp \<noteq> []" "list_all is_space sp" "is_token68 w" "length (sp @ w) \<le> N_max"
  shows "authorization_try_parse (scheme @ sp @ w) =
    Inr \<lparr>av_auth_scheme = map to_lower_case scheme, av_auth_param = Token68 w\<rparr>"
proof -
  obtain c w' where w: "w = c # w'" and c: "is_token68_char c" using assms(4) by (auto simp: is_token68_def neq_Nil_conv)
  have vis: "\<not> is_space x" if "is_token68_char x" for x using that token68_visible by blast
  have "is_token68_char (last w) \<or> last w = CHR ''=''"
    using is_token68_last[OF assms(4)] .
  then have trim: "remove_trailing_spaces (scheme @ sp @ w) = scheme @ sp @ w"
    using vis by (intro remove_trailing_spaces_id) (auto simp: w)
  have st: "stops is_token_char (sp @ w)" using assms(2,3) token_char_visible by (cases sp) (auto simp: stops_def)
  have "stops is_space w" using vis[OF c] by (simp add: stops_def w)
  then have tw: "takeWhile is_space (sp @ w) = sp" "dropWhile is_space (sp @ w) = w"
    using takeWhile_stops[OF assms(3)] by auto
  have t68: "producer_grammar token68_p w = Value [] w" by (rule token68_grammar) (use assms in simp_all)
  then have ap: "producer_grammar auth_params_p w = Value [] (Token68 w)"
    by (simp add: auth_params_p_def peg peg_produce_def peg_sequence_def peg_consume_def peg_not_def peg_char_def)
  have "producer_grammar authorization_parser (scheme @ sp @ w) =
      Value [] \<lparr>av_auth_scheme = map to_lower_case scheme, av_auth_param = Token68 w\<rparr>"
    using assms st tw ap
    by (simp add: authorization_parser_def peg peg_produce_def peg_option_def peg_consume_def[of "peg_map _ _"]
        peg_consume_def[of "producer_grammar auth_params_p"] peg_map_def peg_token_append peg_repeat_def
        peg_loop_skipped_chars Suc_le_eq)
  with trim show ?thesis
    by (simp add: authorization_try_parse_def try_parse_ok_iff field_parsers_regular)
qed

text \<open>
  C19: Credentials reach the handler unchanged: when the request carries a field with the scheme
  \<^verbatim>\<open>Basic\<close> in any letter case and the Base64 text of a user name and a password, the extraction returns
  exactly that name, which may be anything without a colon but the empty string, and that password; and
  the token of the scheme \<^verbatim>\<open>Bearer\<close> is returned as sent.
\<close>

theorem credentials_extracted:
  assumes "opt_value_of_name name basic_fields = Some (basic @ sp @ base64_encode (user @ CHR '':'' # password))"
    and "map to_lower_case basic = ''basic''" and "is_token basic" and "user \<noteq> []" and "CHR '':'' \<notin> set user"
    and "length (sp @ base64_encode (user @ CHR '':'' # password)) \<le> N_max"
    and "opt_value_of_name name bearer_fields = Some (bearer @ sp @ token)"
    and "map to_lower_case bearer = ''bearer''" and "is_token bearer" and "is_token68 token" and "length (sp @ token) \<le> N_max"
    and "sp \<noteq> []" and "list_all is_space sp"
  shows "basic_params_by_name basic_fields name = Some (Inr \<lparr>ba_username = user, ba_password = password\<rparr>) \<and>
    bearer_params_by_name bearer_fields name = Inr token"
proof -
  let ?w = "user @ CHR '':'' # password"
  have tok: "is_token68 (base64_encode ?w)" using base64_shape[of ?w] by (auto simp: is_token68_def)
  have dec: "try_decode (base64_encode ?w) = Inr ?w"
    by (simp add: try_decode_def encode_is_valid try_decode_loop_encode)
  have colon: "takeWhile (\<lambda>c. c \<noteq> CHR '':'') ?w = user"
    using assms(5) by (subst takeWhile_append2) auto
  show ?thesis
    using authorization_parsed[OF assms(3,12,13) tok assms(6)] authorization_parsed[OF assms(9,12,13,10,11)]
      assms dec colon
    by (simp add: basic_params_by_name_def basic_perform_extraction_attempt_def basic_try_extract_params_def
        bearer_params_by_name_def bearer_perform_extraction_attempt_def bearer_try_extract_params_def Let_def)
qed

theorem credentials_extracted_witness:
  "basic_params_by_name [http_header_field_name ''Authorization'' ''BASIC dTpw''] ''authorization'' =
     Some (Inr \<lparr>ba_username = ''u'', ba_password = ''p''\<rparr>)"
proof -
  let ?f = "\<lambda>v. [http_header_field_name ''Authorization'' v]"
  have e: "base64_encode (''u'' @ CHR '':'' # ''p'') = ''dTpw''" by code_simp
  have v: "opt_value_of_name ''authorization'' (?f (''BASIC'' @ '' '' @ ''dTpw'')) = Some (''BASIC'' @ '' '' @ ''dTpw'')"
    "opt_value_of_name ''authorization'' (?f (''bearer'' @ '' '' @ ''tok'')) = Some (''bearer'' @ '' '' @ ''tok'')"
    by code_simp+
  have l: "map to_lower_case ''BASIC'' = ''basic''" "map to_lower_case ''bearer'' = ''bearer''" by code_simp+
  have t: "is_token ''BASIC''" "is_token ''bearer''" "list_all is_token68_char ''tok''" "list_all is_space '' ''" by code_simp+
  have "is_token68 ''tok''"
    unfolding is_token68_def by (intro exI[of _ "''tok''"] exI[of _ "[]"]) (use t in simp)
  moreover have "length ('' '' @ ''dTpw'') \<le> N_max" "length ('' '' @ ''tok'') \<le> N_max" by (simp_all add: N_max_def)
  ultimately show ?thesis
    using credentials_extracted[where name = "''authorization''" and user = "''u''" and password = "''p''"
        and sp = "'' ''" and basic = "''BASIC''" and bearer = "''bearer''" and token = "''tok''"
        and basic_fields = "?f (''BASIC'' @ '' '' @ ''dTpw'')" and bearer_fields = "?f (''bearer'' @ '' '' @ ''tok'')",
        unfolded e, OF v(1) l(1) t(1)] v(2) l(2) t
    by simp
qed

text \<open>
  The extraction of basic credentials passes the token of the client to the Base64 decoder, which reads
  past the end of a valid text whose length is not a multiple of four: a request with the field
  \<^verbatim>\<open>Authorization: Basic QUJDR\<close> makes the server do that.
\<close>

theorem basic_credentials_read_past_end:
  "basic_params_by_name [http_header_field_name ''Authorization'' ''Basic QUJDR''] ''Authorization'' = None"
proof -
  have t: "is_token ''Basic''" "list_all is_token68_char ''QUJDR''" "list_all is_space '' ''" by code_simp+
  then have t68: "is_token68 ''QUJDR''"
    unfolding is_token68_def by (intro exI[of _ "''QUJDR''"] exI[of _ "[]"]) simp
  have "authorization_try_parse ''Basic QUJDR'' =
      Inr \<lparr>av_auth_scheme = map to_lower_case ''Basic'', av_auth_param = Token68 ''QUJDR''\<rparr>"
    using authorization_parsed[OF t(1) _ t(3) t68] by (simp add: N_max_def)
  moreover have "opt_value_of_name ''Authorization'' [http_header_field_name ''Authorization'' ''Basic QUJDR''] =
      Some ''Basic QUJDR''" by code_simp
  moreover have "map to_lower_case ''Basic'' = ''basic''" "try_decode ''QUJDR'' = Inl Read_past_end" by code_simp+
  ultimately show ?thesis
    by (simp add: basic_params_by_name_def basic_perform_extraction_attempt_def basic_try_extract_params_def)
qed
end
