(* ===== verification/Hosts_And_Ranges.thy ===== *)
theory Hosts_And_Ranges
  imports Field_Parsers
begin

text \<open>
  What the parsers of \<^verbatim>\<open>Host\<close> and \<^verbatim>\<open>Range\<close> accept (\<^verbatim>\<open>host.hpp\<close>, \<^verbatim>\<open>range.hpp\<close> and
  \<^verbatim>\<open>accept-language.hpp\<close>, modelled in \<open>Field_Parsers\<close>), and where they differ from what was meant.
\<close>

section \<open>Hosts\<close>

lemma of_char_eq_digit: "d < 10 \<Longrightarrow> c = digit_char d \<longleftrightarrow> of_char c = 48 + d"
  by (auto simp: char_code_eq of_char_digit_char)

lemma is_digit_digit_char [simp]: "d < 10 \<Longrightarrow> is_digit (digit_char d)"
  by (simp add: is_digit_def of_char_digit_char)

lemmas octet_simps = dec_octet_def peg peg_produce_def peg_sequence_def peg_consume_def peg_char_def
  particular_symbol_predicate_def symbol_from_range_predicate_def to_container_def of_char_digit_char of_char_eq_digit

lemma stops_digit_cases:
  assumes "stops is_digit r"
  obtains "r = []" | c r' where "r = c # r'" "of_char c < (48 :: nat) \<or> 57 < (of_char c :: nat)" "\<not> is_digit c" "CHR ''5'' \<noteq> c"
proof (cases r)
  case (Cons c r')
  then have "\<not> is_digit c" using assms by (simp add: stops_def)
  moreover from this have "of_char c < (48 :: nat) \<or> 57 < (of_char c :: nat)" "CHR ''5'' \<noteq> c"
    by (auto simp: is_digit_def)
  ultimately show ?thesis using that(2)[OF Cons] by blast
qed (rule that(1))

lemma dec_octet_1:
  assumes "d < 10" and "stops is_digit r"
  shows "producer_grammar dec_octet (digit_char d # r) = Value r [digit_char d]"
  using assms(2)
proof (cases rule: stops_digit_cases)
  case 1
  with assms(1) show ?thesis by (simp add: octet_simps)
next
  case (2 c r')
  from 2(2) show ?thesis using assms(1) 2(1,3,4) by (elim disjE) (simp_all add: octet_simps)
qed

lemma dec_octet_2:
  assumes "d < 10" "0 < d" "e < 10" and "stops is_digit r"
  shows "producer_grammar dec_octet (digit_char d # digit_char e # r) = Value r [digit_char d, digit_char e]"
  using assms(4)
proof (cases rule: stops_digit_cases)
  case 1
  with assms(1-3) show ?thesis by (simp add: octet_simps)
next
  case (2 c r')
  from 2(2) show ?thesis using assms(1-3) 2(1,3,4) by (elim disjE) (simp_all add: octet_simps)
qed

lemma dec_octet_3:
  assumes "d = 1 \<or> d = 2 \<and> e < 5 \<or> d = 2 \<and> e = 5 \<and> f \<le> 5" "e < 10" "f < 10"
  shows "producer_grammar dec_octet (digit_char d # digit_char e # digit_char f # r) =
    Value r [digit_char d, digit_char e, digit_char f]"
  using assms by (elim disjE conjE) (simp_all add: octet_simps)

lemma dec_octet_grammar:
  assumes "n \<le> 255" and "stops is_digit r"
  shows "producer_grammar dec_octet (decimal n @ r) = Value r (decimal n)"
proof -
  consider "n < 10" | "10 \<le> n" "n < 100" | "100 \<le> n" by linarith
  then show ?thesis
  proof cases
    case 1
    then have "decimal n = [digit_char n]" by (subst decimal.simps) simp
    with dec_octet_1[OF 1 assms(2)] show ?thesis by simp
  next
    case 2
    then have lt: "n div 10 < 10" "0 < n div 10" "n mod 10 < 10" by auto
    have "decimal n = [digit_char (n div 10), digit_char (n mod 10)]"
      using 2 lt(1) by (simp add: decimal.simps[of n] decimal.simps[of "n div 10"])
    with dec_octet_2[OF lt assms(2)] show ?thesis by simp
  next
    case 3
    have d: "decimal n = [digit_char (n div 10 div 10), digit_char (n div 10 mod 10), digit_char (n mod 10)]"
    proof -
      have "n div 10 div 10 < 10" "\<not> n div 10 < 10" using 3 assms(1) by linarith+
      then show ?thesis
        using 3 by (simp add: decimal.simps[of n] decimal.simps[of "n div 10"] decimal.simps[of "n div 10 div 10"])
    qed
    have "n div 10 div 10 = 1 \<or> n div 10 div 10 = 2 \<and> n div 10 mod 10 < 5 \<or>
        n div 10 div 10 = 2 \<and> n div 10 mod 10 = 5 \<and> n mod 10 \<le> 5"
    proof -
      have hund: "n div 10 div 10 = n div 100" by (simp flip: div_mult2_eq)
      consider "n < 200" | "200 \<le> n" "n < 250" | "250 \<le> n" by linarith
      then show ?thesis
      proof cases
        case 1
        with 3 have "n div 100 = 1" by (intro div_nat_eqI) auto
        with hund show ?thesis by simp
      next
        case 2
        then have "n div 100 = 2" by (intro div_nat_eqI) auto
        moreover have "m mod 10 < 5" if "20 \<le> m" "m < 25" for m :: nat using that by presburger
        moreover have "20 \<le> n div 10" "n div 10 < 25" using 2 by linarith+
        ultimately show ?thesis using hund by simp
      next
        case 3
        have "n div 100 = 2" using 3 assms(1) by (intro div_nat_eqI) auto
        moreover have "n div 10 = 25" using 3 assms(1) by (intro div_nat_eqI) auto
        moreover have "10 * (n div 10) + n mod 10 = n" by simp
        ultimately show ?thesis using hund assms(1) by simp
      qed
    qed
    with dec_octet_3[of "n div 10 div 10" "n div 10 mod 10" "n mod 10" r] d show ?thesis by simp
  qed
qed

text \<open>The text of an IPv4 address.\<close>

fun ipv4_text :: "nat \<times> nat \<times> nat \<times> nat \<Rightarrow> string" where
  "ipv4_text (a, b, c, d) = decimal a @ CHR ''.'' # decimal b @ CHR ''.'' # decimal c @ CHR ''.'' # decimal d"

fun ipv4_ok :: "nat \<times> nat \<times> nat \<times> nat \<Rightarrow> bool" where
  "ipv4_ok (a, b, c, d) \<longleftrightarrow> a \<le> 255 \<and> b \<le> 255 \<and> c \<le> 255 \<and> d \<le> 255"

lemma dec_octet_regular [peg]: "regular_p dec_octet"
  by (simp add: dec_octet_def peg)

lemma ipv4_grammar:
  assumes "ipv4_ok a" and "stops is_digit r"
  shows "producer_grammar ipv4_address_p (ipv4_text a @ r) = Value r (ipv4_text a)"
proof -
  obtain a1 a2 a3 a4 where a: "a = (a1, a2, a3, a4)" by (cases a)
  have dot: "stops is_digit (CHR ''.'' # u)" for u by (simp add: stops_def is_digit_def)
  show ?thesis
    using assms dot
    by (simp add: a ipv4_address_p_def peg peg_produce_def peg_consume_def peg_char_def particular_symbol_predicate_def
        dec_octet_grammar to_container_string_def to_container_def)
qed

text \<open>Whatever the parser takes as an octet or an address is the text of one.\<close>

lemma digit_charE:
  assumes "48 \<le> (of_char c :: nat)" and "(of_char c :: nat) \<le> 57"
  obtains k where "c = digit_char k" and "k < 10" and "of_char c = 48 + k"
proof -
  let ?k = "(of_char c :: nat) - 48"
  have "of_char c = 48 + ?k" "?k < 10" using assms by auto
  then show ?thesis using that[of ?k] of_char_eq_digit[of ?k c] by blast
qed

fun octet_text :: "string \<Rightarrow> bool" where
  "octet_text [c] \<longleftrightarrow> is_digit c"
| "octet_text [c, d] \<longleftrightarrow> is_digit c \<and> c \<noteq> CHR ''0'' \<and> is_digit d"
| "octet_text [c, d, e] \<longleftrightarrow> is_digit d \<and> is_digit e \<and>
     (c = CHR ''1'' \<or> c = CHR ''2'' \<and> (of_char d < (53 :: nat) \<or> d = CHR ''5'' \<and> of_char e < (54 :: nat)))"
| "octet_text _ \<longleftrightarrow> False"

lemma decimal_snoc: "0 < k \<Longrightarrow> m < 10 \<Longrightarrow> decimal (10 * k + m) = decimal k @ [digit_char m]"
  by (simp add: decimal.simps[of "10 * k + m"])

lemma octet_text_decimal:
  assumes "octet_text w"
  shows "\<exists>n \<le> 255. w = decimal n"
  using assms
proof (cases w rule: octet_text.cases)
  case (1 c)
  with assms obtain k where "c = digit_char k" "k < 10" by (auto simp: is_digit_def elim: digit_charE)
  with 1 show ?thesis by (intro exI[of _ k]) (simp add: decimal.simps[of k])
next
  case (2 c d)
  with assms obtain k l where k: "c = digit_char k" "k < 10" "of_char c = 48 + k" and l: "d = digit_char l" "l < 10"
    by (auto simp: is_digit_def elim!: digit_charE)
  have "CHR ''0'' = digit_char 0" by code_simp
  with 2 assms k(1) have "k \<noteq> 0" by (intro notI) simp
  with 2 k l show ?thesis
    by (intro exI[of _ "10 * k + l"]) (simp add: decimal_snoc decimal.simps[of k])
next
  case (3 c d e)
  with assms obtain l m where l: "d = digit_char l" "l < 10" "of_char d = 48 + l"
    and m: "e = digit_char m" "m < 10" "of_char e = 48 + m"
    by (auto simp: is_digit_def elim!: digit_charE)
  have one: "CHR ''1'' = digit_char 1" "CHR ''2'' = digit_char 2" by code_simp+
  have five: "of_char d = (53 :: nat)" if "d = CHR ''5''" using that by simp
  from 3 assms obtain k where k: "c = digit_char k" "k = 1 \<or> k = 2 \<and> (l < 5 \<or> l = 5 \<and> m < 6)"
    using l m one five by auto
  have "k \<le> 2" "0 < k" "10 * (10 * k + l) + m \<le> 255" using k(2) l m by auto
  then show ?thesis
    using 3 k l m
    by (intro exI[of _ "10 * (10 * k + l) + m"] conjI)
       (simp_all only: decimal_snoc add_pos_nonneg decimal.simps[of k], auto)
qed simp_all

lemma dec_octet_takes:
  assumes "producer_grammar dec_octet u = Value r v"
  shows "u = v @ r \<and> octet_text v"
  using assms by (auto simp: octet_simps is_digit_def split: list.splits if_splits)

lemma peg_choice_not_forced: "peg_choice gs r t = Miss b t' \<Longrightarrow> \<not> b"
  by (induction gs arbitrary: r t) (auto split: outcome.splits if_splits)

lemma dec_octet_not_forced: "producer_grammar dec_octet u = NoValue b \<Longrightarrow> \<not> b"
  by (auto simp: dec_octet_def peg peg_produce_def simp del: peg_choice.simps dest: peg_choice_not_forced
      split: outcome.splits)

definition ipv4_prefix :: "string \<Rightarrow> bool" where
  "ipv4_prefix w \<longleftrightarrow> (\<exists>a. ipv4_ok a \<and> prefix (ipv4_text a) w)"

lemma ipv4_dots: "ipv4_prefix w \<Longrightarrow> 3 \<le> count_list w CHR ''.''"
  unfolding ipv4_prefix_def by (auto simp: prefix_def)

text \<open>A grammar that takes a text of a given form, appending it to the target, or misses.\<close>

definition reads :: "(string \<Rightarrow> bool) \<Rightarrow> string grammar \<Rightarrow> bool" where
  "reads P g \<longleftrightarrow>
     (\<forall>u t. (\<exists>t'. g u t = Miss False t') \<or> (\<exists>w r. P w \<and> u = w @ r \<and> g u t = Match r (t @ w)))"

lemma readsE:
  assumes "reads P g"
  obtains t' where "g u t = Miss False t'" | w r where "P w" "u = w @ r" "g u t = Match r (t @ w)"
  using assms unfolding reads_def by blast

lemma peg_all_reads:
  "list_all2 reads Ps gs \<Longrightarrow> reads (\<lambda>w. \<exists>ws. w = concat ws \<and> list_all2 (\<lambda>P. P) Ps ws) (peg_all gs)"
proof (induction rule: list_all2_induct)
  case Nil
  then show ?case by (auto simp: reads_def)
next
  case (Cons P Ps g gs)
  show ?case
    unfolding reads_def
  proof (intro allI)
    fix u t
    let ?R = "\<lambda>w. \<exists>ws. w = concat ws \<and> list_all2 (\<lambda>P. P) (P # Ps) ws"
    show "(\<exists>t'. peg_all (g # gs) u t = Miss False t') \<or>
        (\<exists>w r. ?R w \<and> u = w @ r \<and> peg_all (g # gs) u t = Match r (t @ w))"
    proof (cases rule: readsE[OF Cons(1), of u t])
      case (2 w r)
      show ?thesis
      proof (cases rule: readsE[OF Cons(3), of r "t @ w"])
        case (2 w' r')
        then obtain ws where "w' = concat ws" "list_all2 (\<lambda>P. P) Ps ws" by auto
        then have "?R (w @ w')" using \<open>P w\<close> by (intro exI[of _ "w # ws"]) simp
        with 2 \<open>u = w @ r\<close> \<open>g u t = Match r (t @ w)\<close> show ?thesis by auto
      qed (use 2 in simp)
    qed simp
  qed
qed

lemma dec_octet_reads: "reads (\<lambda>w. \<exists>n \<le> 255. w = decimal n) (peg_consume (producer_grammar dec_octet) to_container_string)"
  unfolding reads_def
proof (intro allI)
  fix u t
  show "(\<exists>t'. peg_consume (producer_grammar dec_octet) to_container_string u t = Miss False t') \<or>
      (\<exists>w r. (\<exists>n \<le> 255. w = decimal n) \<and> u = w @ r \<and>
        peg_consume (producer_grammar dec_octet) to_container_string u t = Match r (t @ w))"
    using dec_octet_takes[of u] dec_octet_not_forced[of u] octet_text_decimal
    by (cases "producer_grammar dec_octet u") (auto simp: peg_consume_def to_container_string_def)
qed

lemma symbol_reads: "reads (\<lambda>w. w = [c]) (peg_consume (peg_char (particular_symbol_predicate c)) to_container)"
  unfolding reads_def
  by (auto simp: peg_consume_def peg_char_def particular_symbol_predicate_def to_container_def split: list.splits)

lemma ipv4_absent:
  assumes "\<not> ipv4_prefix u"
  shows "producer_grammar ipv4_address_p u = NoValue False"
proof -
  let ?O = "peg_consume (producer_grammar dec_octet) to_container_string"
  let ?D = "peg_consume (peg_char (particular_symbol_predicate CHR ''.'')) to_container"
  let ?o = "\<lambda>w. \<exists>n \<le> 255. w = decimal n" and ?d = "\<lambda>w. w = ''.''"
  have "list_all2 reads [?o, ?d, ?o, ?d, ?o, ?d, ?o] [?O, ?D, ?O, ?D, ?O, ?D, ?O]"
    by (simp add: dec_octet_reads symbol_reads)
  note R = peg_all_reads[OF this]
  show ?thesis
  proof (cases rule: readsE[OF R, of u "[]"])
    case 1
    then show ?thesis
      by (simp add: ipv4_address_p_def peg peg_produce_def del: peg_all.simps)
  next
    case (2 w r)
    then obtain a b c d where "a \<le> 255" "b \<le> 255" "c \<le> 255" "d \<le> 255" "w = ipv4_text (a, b, c, d)"
      by (auto simp: list_all2_Cons1)
    with 2(2) have "ipv4_prefix u" unfolding ipv4_prefix_def by (intro exI[of _ "(a, b, c, d)"]) simp
    with assms show ?thesis by contradiction
  qed
qed

text \<open>
  A registered name is a list of unreserved characters, delimiters and percent-encoded octets.  The parser
  tries an IPv4 address first, and a name that begins with the text of one is not read as a name.
\<close>

datatype name_piece = Plain char | Pct_encoded char char

definition name_char :: "char \<Rightarrow> bool" where
  "name_char c \<longleftrightarrow> unreserved_predicate c \<or> sub_delims_predicate c"

fun piece_text :: "name_piece \<Rightarrow> string" where
  "piece_text (Plain c) = [c]"
| "piece_text (Pct_encoded h l) = [CHR ''%'', h, l]"

fun piece_ok :: "name_piece \<Rightarrow> bool" where
  "piece_ok (Plain c) \<longleftrightarrow> name_char c"
| "piece_ok (Pct_encoded h l) \<longleftrightarrow> is_hexdigit h \<and> is_hexdigit l"

definition name_text :: "name_piece list \<Rightarrow> string" where
  "name_text ps = concat (map piece_text ps)"

definition name_ok :: "name_piece list \<Rightarrow> bool" where
  "name_ok ps \<longleftrightarrow> ps \<noteq> [] \<and> list_all piece_ok ps \<and> length ps \<le> N_max \<and> \<not> ipv4_prefix (name_text ps)"

lemma name_text_simps [simp]: "name_text [] = []" "name_text (p # ps) = piece_text p @ name_text ps"
  by (simp_all add: name_text_def)

definition name_body :: "string grammar list" where
  "name_body = map clause_grammar
     [alternatives
             [consuming unreserved_symbol_p to_container,
              consuming pct_encoded_symbols_p pct_encoded_symbols_consumer,
              consuming sub_delims_symbol_p to_container]]"

lemma pct_encoded_absent: "c \<noteq> CHR ''%'' \<Longrightarrow> producer_grammar pct_encoded_symbols_p (c # r) = NoValue False"
  "producer_grammar pct_encoded_symbols_p [] = NoValue False"
  by (auto simp: pct_encoded_symbols_p_def peg peg_produce_def peg_consume_def peg_char_def particular_symbol_predicate_def)

lemma pct_encoded_read:
  "is_hexdigit h \<Longrightarrow> is_hexdigit l \<Longrightarrow>
   producer_grammar pct_encoded_symbols_p (CHR ''%'' # h # l # r) = Value r [CHR ''%'', h, l]"
  by (simp add: pct_encoded_symbols_p_def peg peg_produce_def peg_consume_def peg_char_def
      particular_symbol_predicate_def to_container_def)

lemma name_char_cases: "name_char c \<Longrightarrow> c \<noteq> CHR ''%'' \<and> c \<noteq> CHR '':'' \<and> c \<noteq> CHR ''['' \<and> \<not> is_space c"
proof -
  have "\<not> name_char CHR ''%''" "\<not> name_char CHR '':''" "\<not> name_char CHR ''[''" "\<not> name_char SP" "\<not> name_char HTAB"
    by code_simp+
  then show "name_char c \<Longrightarrow> c \<noteq> CHR ''%'' \<and> c \<noteq> CHR '':'' \<and> c \<noteq> CHR ''['' \<and> \<not> is_space c"
    by (auto simp: is_space_def)
qed

lemma name_body_piece:
  assumes "piece_ok p"
  shows "peg_all name_body (piece_text p @ r) t = Match r (t @ piece_text p)"
proof (cases p)
  case (Plain c)
  with assms name_char_cases[of c] show ?thesis
    by (auto simp: name_body_def peg peg_consume_def peg_char_def unreserved_symbol_p_def sub_delims_symbol_p_def
        to_container_def pct_encoded_absent name_char_def)
next
  case (Pct_encoded h l)
  have "\<not> unreserved_predicate CHR ''%''" by code_simp
  with assms Pct_encoded show ?thesis
    by (simp add: name_body_def peg peg_consume_def peg_char_def unreserved_symbol_p_def sub_delims_symbol_p_def
        pct_encoded_read pct_encoded_symbols_consumer_def)
qed

lemma name_body_stop: "r = [] \<or> \<not> name_char (hd r) \<and> hd r \<noteq> CHR ''%'' \<Longrightarrow> peg_all name_body r t = Miss False t"
  by (cases r) (auto simp: name_body_def peg peg_consume_def peg_char_def unreserved_symbol_p_def sub_delims_symbol_p_def
      to_container_def pct_encoded_absent name_char_def)

lemma name_loop:
  assumes "list_all piece_ok ps" and "r = [] \<or> \<not> name_char (hd r) \<and> hd r \<noteq> CHR ''%''" and "length ps \<le> n"
  shows "peg_loop name_body n (name_text ps @ r) t = (length ps, r, t @ name_text ps)"
  using assms(1,3)
proof (induction ps arbitrary: n t)
  case Nil
  then show ?case using name_body_stop[OF assms(2)] by (cases n) simp_all
next
  case (Cons p ps)
  then obtain m where "n = Suc m" by (cases n) auto
  with Cons show ?case by (simp add: name_body_piece)
qed

lemma reg_name_grammar:
  assumes "name_ok ps" and "r = [] \<or> hd r = CHR '':''"
  shows "producer_grammar reg_name_p (name_text ps @ r) = Value r (name_text ps)"
proof -
  have "r = [] \<or> \<not> name_char (hd r) \<and> hd r \<noteq> CHR ''%''" using assms(2) name_char_cases by auto
  from name_loop[OF _ this, of ps N_max "[]"] assms(1) show ?thesis
    by (simp add: reg_name_p_def peg peg_produce_def peg_repeat_def name_body_def name_ok_def Suc_le_eq
        unreserved_symbol_p_def sub_delims_symbol_p_def)
qed

lemma ipv4_prefix_append:
  assumes "r = [] \<or> hd r = CHR '':''" and "ipv4_prefix (w @ r)"
  shows "ipv4_prefix w"
proof -
  obtain a where a: "ipv4_ok a" "prefix (ipv4_text a) (w @ r)" using assms(2) by (auto simp: ipv4_prefix_def)
  have "CHR '':'' \<notin> set (decimal n)" for n
    using decimal_digits[of n] by (auto simp: list_all_iff decimal_digit_char_def)
  then have "CHR '':'' \<notin> set (ipv4_text a)" by (cases a) auto
  with a assms(1) have "prefix (ipv4_text a) w"
    by (cases r) (auto simp: prefix_append prefix_Cons)
  with a(1) show ?thesis unfolding ipv4_prefix_def by blast
qed

datatype written_host = Name "name_piece list" | Ipv4 "nat \<times> nat \<times> nat \<times> nat"

fun host_text :: "written_host \<Rightarrow> string" where
  "host_text (Name ps) = name_text ps"
| "host_text (Ipv4 a) = ipv4_text a"

fun host_of :: "written_host \<Rightarrow> host_value" where
  "host_of (Name ps) = Reg_name (map to_lower_case (name_text ps))"
| "host_of (Ipv4 a) = Ipv4_address (ipv4_text a)"

fun host_ok :: "written_host \<Rightarrow> bool" where
  "host_ok (Name ps) \<longleftrightarrow> name_ok ps"
| "host_ok (Ipv4 a) \<longleftrightarrow> ipv4_ok a"

fun port_text :: "u16 option \<Rightarrow> string" where
  "port_text None = []"
| "port_text (Some p) = CHR '':'' # decimal (unat p)"

lemma bracket_absent: "u = [] \<or> hd u \<noteq> CHR ''['' \<Longrightarrow>
  peg_consume (peg_char (particular_symbol_predicate CHR ''['')) any_value_skipper u t = Miss False t"
  by (cases u) (auto simp: peg_consume_def peg_char_def particular_symbol_predicate_def)

lemma no_bracket:
  assumes "host_ok h"
  shows "hd (host_text h @ r) \<noteq> CHR ''[''"
proof (cases h)
  case (Name w)
  with assms obtain p qs where "w = p # qs" "piece_ok p" by (cases w) (auto simp: name_ok_def)
  with Name name_char_cases show ?thesis by (cases p) auto
next
  case (Ipv4 a)
  obtain a1 a2 a3 a4 where a: "a = (a1, a2, a3, a4)" by (cases a)
  obtain c w where d: "decimal a1 = c # w" by (cases "decimal a1") auto
  then have "decimal_digit_char c" using decimal_digits[of a1] by simp
  then have "c \<noteq> CHR ''[''" by (auto simp: decimal_digit_char_def)
  with Ipv4 a d show ?thesis by simp
qed

lemma host_value_grammar:
  assumes "host_ok h" and "r = [] \<or> hd r = CHR '':''"
  shows "producer_grammar host_value_p (host_text h @ r) = Value r (host_of h)"
proof -
  have st: "stops is_digit r" using assms(2) by (auto simp: stops_def is_digit_def)
  note br = bracket_absent[OF disjI2[OF no_bracket[OF assms(1)]]]
  note simps = host_value_p_def peg peg_produce_def peg_consume_def[of "peg_produce _ _"] br peg_map_def
    peg_consume_def[of "peg_map _ _"] as_result_def
  show ?thesis
  proof (cases h)
    case (Name w)
    with assms have "\<not> ipv4_prefix (name_text w @ r)" by (auto simp: name_ok_def dest: ipv4_prefix_append[OF assms(2)])
    with Name assms br[of r "Ipv6_address []"] show ?thesis
      by (simp add: simps ipv4_absent reg_name_grammar)
  next
    case (Ipv4 a)
    with assms st br[of r "Ipv6_address []"] show ?thesis
      by (simp add: simps ipv4_grammar)
  qed
qed

lemma hexdigit_not_space: "is_hexdigit c \<Longrightarrow> \<not> is_space c"
proof -
  have "\<not> is_hexdigit SP" "\<not> is_hexdigit HTAB" by code_simp+
  then show "is_hexdigit c \<Longrightarrow> \<not> is_space c" by (auto simp: is_space_def)
qed

lemma host_text_last:
  assumes "host_ok h"
  shows "host_text h \<noteq> [] \<and> \<not> is_space (last (host_text h))"
proof (cases h)
  case (Name ps)
  with assms obtain qs p where ps: "ps = qs @ [p]" "piece_ok p" by (cases ps rule: rev_cases) (auto simp: name_ok_def)
  then have "last (piece_text p) = last (host_text h)" "piece_text p \<noteq> []"
    using Name by (cases p; simp add: name_text_def)+
  with ps Name name_char_cases hexdigit_not_space show ?thesis by (cases p) (auto simp: name_text_def)
next
  case (Ipv4 a)
  with decimal_no_space show ?thesis by (cases a) simp
qed

text \<open>
  C22: A \<^verbatim>\<open>Host\<close> field is read as the host and the port that were written.  The host is an IPv4
  address of four octets, kept as written, or a registered name of unreserved characters, delimiters and
  percent-encoded octets, kept with its letters in lower case (those of the percent-encoding included);
  the name may start with a digit but not with the text of an IPv4 address, which the parser would take
  instead.  The port is any number of 16 bits or is absent.
\<close>

theorem host_parsed:
  assumes "host_ok h"
  shows "raw_host_try_parse (host_text h @ port_text port) = Inr \<lparr>rh_host = host_of h, rh_port = port\<rparr>"
proof -
  have trim: "remove_trailing_spaces (host_text h @ port_text port) = host_text h @ port_text port"
    using decimal_no_space host_text_last[OF assms] by (intro remove_trailing_spaces_id) (cases port; simp)
  have num: "peg_number decimal_digit (next_digit False 10 (positive_extremum False)) from_one_to_max (decimal (unat p)) =
      Value [] p" for p :: u16
    using peg_number_decimal[where ds = "decimal (unat p)" and r = "[]" and is_signed = False and ext = "positive_extremum False :: u16"]
      decimal_digits[of "unat p"] decimal_length_word[of "unat p"] unsigned_less[of p, where 'a = nat]
    by simp
  have "producer_grammar raw_host_parser (host_text h @ port_text port) = Value [] \<lparr>rh_host = host_of h, rh_port = port\<rparr>"
    using host_value_grammar[OF assms, of "port_text port"] num
    by (cases port)
       (simp_all add: raw_host_parser_def peg peg_produce_def peg_consume_def peg_option_def peg_char_def
         particular_symbol_predicate_def any_value_skipper_def)
  with trim show ?thesis
    by (simp add: raw_host_try_parse_def try_parse_ok_iff field_parsers_regular)
qed

theorem host_parsed_witness:
  "raw_host_try_parse (host_text (Ipv4 (192, 168, 0, 255)) @ port_text (Some 8080)) =
     Inr \<lparr>rh_host = Ipv4_address ''192.168.0.255'', rh_port = Some 8080\<rparr> \<and>
   raw_host_try_parse (host_text (Name (map Plain ''3Com.dk'' @ [Pct_encoded CHR ''2'' CHR ''D''])) @ port_text None) =
     Inr \<lparr>rh_host = Reg_name ''3com.dk%2d'', rh_port = None\<rparr>"
proof -
  let ?h = "Name (map Plain ''3Com.dk'' @ [Pct_encoded CHR ''2'' CHR ''D''])"
  have ip: "ipv4_text (192, 168, 0, 255) = ''192.168.0.255''" by code_simp
  have "list_all piece_ok (map Plain ''3Com.dk'' @ [Pct_encoded CHR ''2'' CHR ''D''])"
    and of: "host_of ?h = Reg_name ''3com.dk%2d''" by code_simp+
  then have "host_ok ?h" by (auto simp: name_ok_def N_max_def dest: ipv4_dots)
  then have "raw_host_try_parse (host_text ?h @ port_text None) = Inr \<lparr>rh_host = Reg_name ''3com.dk%2d'', rh_port = None\<rparr>"
    unfolding of[symmetric] by (rule host_parsed)
  moreover have "raw_host_try_parse (host_text (Ipv4 (192, 168, 0, 255)) @ port_text (Some 8080)) =
      Inr \<lparr>rh_host = Ipv4_address (ipv4_text (192, 168, 0, 255)), rh_port = Some 8080\<rparr>"
    using host_parsed[of "Ipv4 (192, 168, 0, 255)" "Some 8080"] by simp
  ultimately show ?thesis unfolding ip by blast
qed

text \<open>
  Two hosts the parser gets wrong.  An address in front of a longer name is committed to before the name
  is tried, so the valid name \<^verbatim>\<open>1.2.3.4.nip.io\<close> is refused; and a port that does not fit its 16 bits can
  pass the overflow check, so \<^verbatim>\<open>a:99999\<close> is accepted with port 34463.
\<close>

theorem host_misread:
  "raw_host_try_parse ''1.2.3.4.nip.io'' = Inl (parse_error_at 7 unconsumed_input) \<and>
   raw_host_try_parse ''a:99999'' = Inr \<lparr>rh_host = Reg_name ''a'', rh_port = Some 34463\<rparr>"
proof
  have ip: "ipv4_text (1, 2, 3, 4) = ''1.2.3.4''" by code_simp
  have st: "stops is_digit ''.nip.io''" by (simp add: stops_def is_digit_def)
  have b: "peg_consume (peg_char (particular_symbol_predicate CHR ''['')) any_value_skipper (''1.2.3.4.nip.io'') t = Miss False t"
    for t :: host_value by (rule bracket_absent) simp
  have "producer_grammar host_value_p ''1.2.3.4.nip.io'' = Value ''.nip.io'' (Ipv4_address ''1.2.3.4'')"
    using ipv4_grammar[OF _ st, of "(1, 2, 3, 4)", unfolded ip] b
    by (simp add: host_value_p_def peg peg_produce_def peg_consume_def[of "peg_produce _ _"] peg_map_def
        peg_consume_def[of "peg_map _ _"] as_result_def)
  then have "producer_grammar raw_host_parser ''1.2.3.4.nip.io'' =
      Value ''.nip.io'' \<lparr>rh_host = Ipv4_address ''1.2.3.4'', rh_port = None\<rparr>"
    by (simp add: raw_host_parser_def peg peg_produce_def peg_consume_def peg_option_def peg_char_def
        particular_symbol_predicate_def)
  moreover have "remove_trailing_spaces ''1.2.3.4.nip.io'' = ''1.2.3.4.nip.io''" "dropWhile is_space ''.nip.io'' = ''.nip.io''"
    by code_simp+
  ultimately show "raw_host_try_parse ''1.2.3.4.nip.io'' = Inl (parse_error_at 7 unconsumed_input)"
    using try_parse_grammar[of raw_host_parser "''1.2.3.4.nip.io''"]
    by (simp add: raw_host_try_parse_def field_parsers_regular eval_nat_numeral)
next
  have "name_char CHR ''a''" by code_simp
  then have "name_ok [Plain CHR ''a'']" by (auto simp: name_ok_def N_max_def dest: ipv4_dots)
  then have "producer_grammar host_value_p (host_text (Name [Plain CHR ''a'']) @ '':99999'') =
      Value '':99999'' (host_of (Name [Plain CHR ''a'']))"
    by (intro host_value_grammar) simp_all
  moreover have "peg_number decimal_digit (next_digit False 10 (positive_extremum False)) from_one_to_max ''99999'' =
      Value [] (34463 :: u16)" by code_simp
  moreover have "remove_trailing_spaces ''a:99999'' = ''a:99999''" by code_simp
  ultimately show "raw_host_try_parse ''a:99999'' = Inr \<lparr>rh_host = Reg_name ''a'', rh_port = Some 34463\<rparr>"
    by (simp add: raw_host_try_parse_def try_parse_ok_iff field_parsers_regular to_lower_case_name)
       (simp add: raw_host_parser_def peg peg_produce_def peg_consume_def peg_option_def peg_char_def
         particular_symbol_predicate_def any_value_skipper_def)
qed

section \<open>Ranges\<close>

fun range_spec_text :: "('w :: len) word byte_range_spec \<Rightarrow> string" where
  "range_spec_text (Double_ended a b) = decimal (unat a) @ CHR ''-'' # decimal (unat b)"
| "range_spec_text (Open_ended a) = decimal (unat a) @ ''-''"
| "range_spec_text (Suffix_length n) = CHR ''-'' # decimal (unat n)"

lemma range_number_grammar:
  fixes n :: "('w :: len) word"
  assumes "4 \<le> LENGTH('w)" "LENGTH('w) \<le> 64" "stops is_digit r"
  shows "peg_number decimal_digit (next_digit False 10 (positive_extremum False)) from_one_to_max (decimal (unat n) @ r) =
    Value r n"
proof -
  have "(2 :: nat) ^ LENGTH('w) \<le> 2 ^ 64" using assms(2) by (intro power_increasing) auto
  then have "unat n < 2 ^ 64" by (rule order.strict_trans2[OF unsigned_less])
  then show ?thesis
    using peg_number_decimal[where ds = "decimal (unat n)" and r = r and is_signed = False and ext = "positive_extremum False :: 'w word"]
      assms decimal_digits[of "unat n"] decimal_length_word[of "unat n"] unsigned_less[of n, where 'a = nat]
    by (auto simp: stops_def)
qed

lemma number_absent:
  "u = [] \<or> \<not> is_digit (hd u) \<Longrightarrow>
   peg_number decimal_digit (next_digit False 10 (positive_extremum False)) from_one_to_max u = NoValue False"
  by (cases u) (auto simp: peg_number_def from_one_to_max_def decimal_digit_def)

lemma list_stop_digit:
  assumes "list_stop r"
  shows "stops is_digit r"
proof (cases "r = []")
  case False
  then obtain sp r' where "r = sp @ CHR '','' # r'" "list_all is_space sp" using assms by (auto simp: list_stop_def)
  then show ?thesis by (cases sp) (auto simp: stops_def is_digit_def is_space_def SP_def HTAB_def)
qed (simp add: stops_def)

lemma range_spec_grammar:
  fixes x :: "('w :: len) word byte_range_spec"
  assumes "4 \<le> LENGTH('w)" "LENGTH('w) \<le> 64" "stops is_digit r"
  shows "producer_grammar make_byte_range_spec_parser (range_spec_text x @ r) = Value r x"
proof -
  have dash: "stops is_digit (CHR ''-'' # u)" for u by (simp add: stops_def is_digit_def)
  note simps = make_byte_range_spec_parser_def peg peg_produce_def peg_consume_def peg_char_def
    particular_symbol_predicate_def any_value_skipper_def range_number_grammar[OF assms(1,2)] dash assms(3)
    set_first_def set_second_def as_result_def number_absent
  show ?thesis
  proof (cases x)
    case (Double_ended a b)
    then show ?thesis by (simp add: simps)
  next
    case (Open_ended a)
    have "peg_number decimal_digit (next_digit False 10 (positive_extremum False)) from_one_to_max r =
        (NoValue False :: 'w word value_outcome)"
      by (rule number_absent) (use assms(3) in \<open>simp add: stops_def\<close>)
    with Open_ended show ?thesis by (simp add: simps)
  next
    case (Suffix_length n)
    have "peg_number decimal_digit (next_digit False 10 (positive_extremum False)) from_one_to_max (CHR ''-'' # u) =
        (NoValue False :: 'w word value_outcome)" for u
      by (rule number_absent) (simp add: is_digit_def)
    with Suffix_length show ?thesis by (simp add: simps)
  qed
qed

lemma range_spec_visible:
  "range_spec_text x \<noteq> [] \<and> \<not> is_space (hd (range_spec_text x)) \<and> hd (range_spec_text x) \<noteq> CHR '','' \<and>
   \<not> is_space (last (range_spec_text x))"
proof -
  have "\<not> is_space (hd (decimal n)) \<and> hd (decimal n) \<noteq> CHR '',''" for n
  proof -
    have "decimal_digit_char (hd (decimal n))" using decimal_digits[of n] by (cases "decimal n") auto
    then show ?thesis by (auto simp: decimal_digit_char_def is_space_def SP_def HTAB_def)
  qed
  moreover have "\<not> is_space CHR ''-''" by (simp add: is_space_def SP_def HTAB_def)
  ultimately show ?thesis
    using decimal_no_space by (cases x) (auto simp: hd_append)
qed

interpretation ranges_64: list_element "make_byte_range_spec_parser :: u64 byte_range_spec producer"
  range_spec_text "\<lambda>x. x" "\<lambda>_. True"
  by unfold_locales (simp_all add: field_parsers_regular range_spec_grammar list_stop_digit range_spec_visible)

text \<open>
  A \<^verbatim>\<open>Range\<close> field over byte positions of 64 bits is read as the ranges that were written, and a value
  that begins with \<^verbatim>\<open>bytes=\<close> is never taken for a range of another unit: the forced alternative
  reports the error instead.
\<close>

theorem byte_ranges_parsed:
  "(gaps_ok (\<lambda>_. True) xs \<and> length xs \<le> N_max \<longrightarrow>
     range_try_parse (''bytes='' @ range_spec_text x @ list_tail range_spec_text xs) =
       Inr (Byte_ranges ((x :: u64 byte_range_spec) # map (\<lambda>(pre, post, y). y) xs))) \<and>
   range_try_parse (''bytes='' @ w) \<noteq> Inr (Other_ranges un st :: u64 range_value)"
proof (intro conjI impI)
  assume xs: "gaps_ok (\<lambda>_. True) xs \<and> length xs \<le> N_max"
  let ?l = "range_spec_text x @ list_tail range_spec_text xs"
  have "remove_trailing_spaces (''bytes='' @ ?l) = ''bytes='' @ ?l"
  proof (rule remove_trailing_spaces_id)
    have "\<not> is_space (last ?l)"
      using ranges_64.list_text_trimmed[where x = x and gs = xs] xs remove_trailing_spaces_suffix[of "[last ?l]" ?l] range_spec_visible[of x]
      by (cases ?l rule: rev_cases) (auto simp: suffix_def)
    then show "''bytes='' @ ?l = [] \<or> \<not> is_space (last (''bytes='' @ ?l))" using range_spec_visible[of x] by simp
  qed
  then show "range_try_parse (''bytes='' @ ?l) = Inr (Byte_ranges (x # map (\<lambda>(pre, post, y). y) xs))"
    using ranges_64.list_grammars(1)[where x = x and gs = xs] xs
    by (simp add: range_try_parse_def try_parse_ok_iff field_parsers_regular)
       (simp add: range_parser_def make_byte_ranges_specifier_parser_def make_bytes_prefix_parser_def peg
         field_parsers_regular peg_produce_def peg_consume_def peg_sequence_def peg_forced_def peg_char_def
         particular_symbol_predicate_def any_value_skipper_def as_result_def)
next
  have "remove_trailing_spaces (''bytes='' @ w) = ''bytes='' @ remove_trailing_spaces w"
    by (simp add: remove_trailing_spaces_spec dropWhile_append is_space_def SP_def HTAB_def)
  then show "range_try_parse (''bytes='' @ w) \<noteq> Inr (Other_ranges un st :: u64 range_value)"
    by (simp add: range_try_parse_def try_parse_ok_iff field_parsers_regular)
       (auto simp: range_parser_def make_byte_ranges_specifier_parser_def make_bytes_prefix_parser_def peg
         field_parsers_regular peg_produce_def peg_consume_def peg_sequence_def peg_forced_def peg_char_def
         particular_symbol_predicate_def any_value_skipper_def as_result_def split: value_outcome.splits outcome.splits)
qed

theorem byte_ranges_parsed_witness:
  "range_try_parse (''bytes='' @ range_spec_text (Double_ended 0 (99 :: u64)) @
     list_tail range_spec_text [([], '' '', Suffix_length (5 :: u64))]) =
     Inr (Byte_ranges [Double_ended 0 99, Suffix_length (5 :: u64)])"
  using byte_ranges_parsed[of "[([], '' '', Suffix_length 5)]" "Double_ended 0 99" "[]" "[]" "[]"]
  by (simp add: gaps_ok_def N_max_def)

section \<open>Language tags\<close>

text \<open>
  A round of a repetition that fails leaves in the target what its first clauses put there, although
  the input is given back: the language tag read from \<^verbatim>\<open>en-\<close> contains the hyphen that is still unread.
\<close>

theorem failed_round_leaves_its_trace:
  "producer_grammar make_language_tag_p ''en-'' = Value ''-'' ''en-''"
proof -
  obtain m where m: "N_max = Suc m" by (cases N_max) (auto simp: N_max_def)
  have "is_alpha CHR ''e''" "is_alpha CHR ''n''" "\<not> is_alpha CHR ''-''" by code_simp+
  then show ?thesis
    by (simp add: make_language_tag_p_def peg peg_produce_def peg_repeat_def m peg_loop_chars to_container_def eval_nat_numeral)
       (simp add: peg_consume_def peg_char_def particular_symbol_predicate_def to_container_def peg_repeat_def)
qed
end
