(* ===== verification/Sendfile_Runner.thy ===== *)
theory Sendfile_Runner
  imports Buffers "HOL-Library.Sublist"
begin

text \<open>
  \<^verbatim>\<open>restinio/impl/sendfile_operation.hpp\<close> and \<^verbatim>\<open>restinio/impl/sendfile_operation_posix.ipp\<close>: sending a range of
  a file, by the system call of Linux on a plain socket and by reading and writing chunks on every other one.

  The operating system and the socket answer as they like: the answers are arguments, one list for
  every time the runner starts to write, together with the outcome of the asynchronous operation it
  then waits for. Every call that moved data is recorded with its offset, the
  number of bytes asked for and the number of bytes moved, so that the documented behaviour of the
  calls can be stated on the record. A list of answers that ends too early leaves the runner in the middle of
  its loop (\<open>In_loop\<close>).

  Shown: the bytes that went out are always a prefix of the range, none twice and none left out; the callback is
  called at most once, and with success only after the whole range; the number it is told is that of the bytes on Linux, and
  leaves out at most one partly written chunk otherwise; on Linux a file that became shorter is never reported.
\<close>

section \<open>Definitions\<close>

record sendfile_runner_t =
  sr_next_write_offset :: u64
  sr_remained_size :: u64
  sr_transfered_size :: u64
  sr_chunk_size :: u64
  sr_moved :: "(u64 \<times> u64 \<times> u64) list"

definition sendfile_operation_runner :: "sendfile_t \<Rightarrow> sendfile_runner_t" where
  "sendfile_operation_runner sf =
     \<lparr>sr_next_write_offset = m_offset sf, sr_remained_size = m_size sf, sr_transfered_size = 0,
      sr_chunk_size = m_chunk_size sf, sr_moved = []\<rparr>"

datatype runner_status =
    In_loop
  | Waiting
  | Writing u64
  | Called_back write_status u64

datatype system_answer = Moved u64 | Try_again | Interrupted | System_error int

subsection \<open>Linux\<close>

datatype wait_answer = Ready | Wait_error int | Wait_not_started

definition async_write_call_failed :: int where
  "async_write_call_failed = 102"

text \<open>Waiting for the socket to become writable; what happens afterwards is \<open>write_ready\<close>.\<close>

definition try_initiate_waiting_for_write_readiness :: "wait_answer \<Rightarrow> sendfile_runner_t \<Rightarrow> runner_status" where
  "try_initiate_waiting_for_write_readiness wait r =
     (if wait = Wait_not_started then Called_back (Write_failed async_write_call_failed) (sr_transfered_size r) else Waiting)"

definition call_native_sendfile :: "u64 \<Rightarrow> sendfile_runner_t \<Rightarrow> sendfile_runner_t" where
  "call_native_sendfile n r =
     r\<lparr>sr_next_write_offset := sr_next_write_offset r + n,
       sr_moved := sr_moved r @ [(sr_next_write_offset r, min (sr_remained_size r) (sr_chunk_size r), n)]\<rparr>"

fun linux_loop :: "system_answer list \<Rightarrow> wait_answer \<Rightarrow> sendfile_runner_t \<Rightarrow> runner_status \<times> sendfile_runner_t" where
  "linux_loop answers wait r =
     (if 0 = sr_remained_size r then (try_initiate_waiting_for_write_readiness wait r, r)
      else case answers of
        [] \<Rightarrow> (In_loop, r)
      | Moved n # answers \<Rightarrow>
          (let r = call_native_sendfile n r
           in if 0 = n then (try_initiate_waiting_for_write_readiness wait r, r)
              else linux_loop answers wait
                     (r\<lparr>sr_remained_size := sr_remained_size r - n, sr_transfered_size := sr_transfered_size r + n\<rparr>))
      | Try_again # answers \<Rightarrow> (try_initiate_waiting_for_write_readiness wait r, r)
      | Interrupted # answers \<Rightarrow> (try_initiate_waiting_for_write_readiness wait r, r)
      | System_error e # answers \<Rightarrow> (Called_back (Write_failed e) (sr_transfered_size r), r))"

declare linux_loop.simps [simp del]

text \<open>Turning the socket to the non-blocking mode may fail.\<close>

definition linux_init_next_write ::
    "int option \<Rightarrow> system_answer list \<Rightarrow> wait_answer \<Rightarrow> sendfile_runner_t \<Rightarrow> runner_status \<times> sendfile_runner_t" where
  "linux_init_next_write non_blocking_error answers wait r =
     (case non_blocking_error of
        Some e \<Rightarrow> (Called_back (Write_failed e) (sr_transfered_size r), r)
      | None \<Rightarrow> linux_loop answers wait r)"

record linux_round =
  lr_non_blocking_error :: "int option"
  lr_answers :: "system_answer list"
  lr_wait :: wait_answer

text \<open>
  The life of the runner: it starts to write, and whenever the wait it began ends, the completion handler calls the
  callback or starts to write again.
\<close>

fun linux_run :: "linux_round list \<Rightarrow> sendfile_runner_t \<Rightarrow> runner_status \<times> sendfile_runner_t" where
  "linux_run [] r = (In_loop, r)"
| "linux_run (round # rounds) r =
     (let (status, r) = linux_init_next_write (lr_non_blocking_error round) (lr_answers round) (lr_wait round) r
      in if status \<noteq> Waiting then (status, r)
         else case lr_wait round of
             Wait_error e \<Rightarrow> (Called_back (Write_failed e) (sr_transfered_size r), r)
           | _ \<Rightarrow> (if 0 = sr_remained_size r then (Called_back Write_ok (sr_transfered_size r), r)
                   else linux_run rounds r))"

subsection \<open>Any other socket\<close>

text \<open>The error codes of Linux and of Asio that the runner meets.\<close>

definition EAGAIN :: int where
  "EAGAIN = 11"

definition asio_eof :: int where
  "asio_eof = 2"

text \<open>A write that fails reports the number of bytes it wrote before.\<close>

datatype write_answer = Written | Write_error int u64 | Write_not_started

fun generic_loop :: "system_answer list \<Rightarrow> write_answer \<Rightarrow> sendfile_runner_t \<Rightarrow> runner_status" where
  "generic_loop [] w r = In_loop"
| "generic_loop (Moved n # answers) w r =
     (if 0 = n then Called_back (Write_failed asio_eof) (sr_transfered_size r)
      else if w = Write_not_started then Called_back (Write_failed async_write_call_failed) (sr_transfered_size r)
      else Writing n)"
| "generic_loop (Interrupted # answers) w r = generic_loop answers w r"
| "generic_loop (Try_again # answers) w r = Called_back (Write_failed EAGAIN) (sr_transfered_size r)"
| "generic_loop (System_error e # answers) w r = Called_back (Write_failed e) (sr_transfered_size r)"

record generic_round =
  gr_answers :: "system_answer list"
  gr_write :: write_answer

text \<open>
  When a write has succeeded, it has written the whole buffer; when it has failed, it may have written the beginning of the
  buffer, which the completion handler does not count. The file is read at its own position, which is
  \<open>sr_next_write_offset\<close> here; a read is recorded when its bytes have been written.
\<close>

definition chunk_written :: "u64 \<Rightarrow> sendfile_runner_t \<Rightarrow> sendfile_runner_t" where
  "chunk_written n r =
     r\<lparr>sr_next_write_offset := sr_next_write_offset r + n,
       sr_moved := sr_moved r @ [(sr_next_write_offset r, min (sr_remained_size r) (sr_chunk_size r), n)],
       sr_remained_size := sr_remained_size r - n, sr_transfered_size := sr_transfered_size r + n\<rparr>"

definition chunk_failed :: "u64 \<Rightarrow> u64 \<Rightarrow> sendfile_runner_t \<Rightarrow> sendfile_runner_t" where
  "chunk_failed n written r =
     r\<lparr>sr_next_write_offset := sr_next_write_offset r + n,
       sr_moved := sr_moved r @ [(sr_next_write_offset r, min (sr_remained_size r) (sr_chunk_size r), min written n)]\<rparr>"

fun generic_run :: "generic_round list \<Rightarrow> sendfile_runner_t \<Rightarrow> runner_status \<times> sendfile_runner_t" where
  "generic_run [] r = (In_loop, r)"
| "generic_run (round # rounds) r =
     (case (generic_loop (gr_answers round) (gr_write round) r, gr_write round) of
        (Writing n, Written) \<Rightarrow>
          (let r = chunk_written n r
           in if 0 = sr_remained_size r then (Called_back Write_ok (sr_transfered_size r), r)
              else generic_run rounds r)
      | (Writing n, Write_error e written) \<Rightarrow> (Called_back (Write_failed e) (sr_transfered_size r), chunk_failed n written r)
      | (status, _) \<Rightarrow> (status, r))"

text \<open>\<^verbatim>\<open>start\<close>: the seek may fail.\<close>

definition generic_start :: "int option \<Rightarrow> generic_round list \<Rightarrow> sendfile_runner_t \<Rightarrow> runner_status \<times> sendfile_runner_t" where
  "generic_start seek_error rounds r =
     (case seek_error of
        Some e \<Rightarrow> (Called_back (Write_failed e) (sr_transfered_size r), r)
      | None \<Rightarrow> generic_run rounds r)"

subsection \<open>What the calls are documented to do\<close>

text \<open>A call moves at most as many bytes as it was asked for, and only bytes of the file.\<close>

definition calls_ok :: "nat \<Rightarrow> sendfile_runner_t \<Rightarrow> bool" where
  "calls_ok file_length r \<longleftrightarrow>
     list_all (\<lambda>(offset, count, n). n \<le> count \<and> (n \<noteq> 0 \<longrightarrow> unat offset + unat n \<le> file_length)) (sr_moved r)"

text \<open>The bytes that the recorded calls moved.\<close>

definition moved_bytes :: "string \<Rightarrow> sendfile_runner_t \<Rightarrow> string" where
  "moved_bytes file r = concat (map (\<lambda>(offset, count, n). take (unat n) (drop (unat offset) file)) (sr_moved r))"

section \<open>The bytes of a range\<close>

text \<open>The part of the invariant on the sizes, and the one on the bytes.\<close>

definition runner_ok :: "string \<Rightarrow> u64 \<Rightarrow> u64 \<Rightarrow> sendfile_runner_t \<Rightarrow> bool" where
  "runner_ok file offset amount r \<longleftrightarrow>
     unat (sr_transfered_size r) + unat (sr_remained_size r) = unat amount \<and>
     unat (sr_next_write_offset r) = unat offset + unat (sr_transfered_size r) \<and>
     moved_bytes file r = take (unat (sr_transfered_size r)) (drop (unat offset) file) \<and>
     unat (sr_transfered_size r) \<le> length file - unat offset"

lemma runner_ok_length: "runner_ok file offset amount r \<Longrightarrow> length (moved_bytes file r) = unat (sr_transfered_size r)"
  by (simp add: runner_ok_def min_absorb2)

lemma calls_ok_snoc:
  "calls_ok l (r\<lparr>sr_moved := sr_moved r @ [c]\<rparr>) \<longleftrightarrow> calls_ok l r \<and> (case c of (offset, count, n) \<Rightarrow> n \<le> count \<and> (n \<noteq> 0 \<longrightarrow> unat offset + unat n \<le> l))"
  by (auto simp: calls_ok_def)

lemma unat_minus_le: "n \<le> m \<Longrightarrow> unat (m - n) = unat m - unat n" for m n :: u64
  by (rule unat_sub)

lemma unat_plus_small: "unat a + unat b < 2 ^ 64 \<Longrightarrow> unat (a + b) = unat a + unat b" for a b :: u64
  by (simp add: unat_word_ariths)

text \<open>One call that moves \<open>n\<close> bytes keeps the invariant.\<close>

lemma move_ok:
  assumes ok: "runner_ok file offset amount r" and n: "n \<le> min (sr_remained_size r) (sr_chunk_size r)"
    and range: "n \<noteq> 0 \<Longrightarrow> unat (sr_next_write_offset r) + unat n \<le> length file"
    and small: "unat offset + unat amount < 2 ^ 64"
  shows "runner_ok file offset amount
     (r\<lparr>sr_next_write_offset := sr_next_write_offset r + n,
        sr_moved := sr_moved r @ [(sr_next_write_offset r, c, n)],
        sr_remained_size := sr_remained_size r - n, sr_transfered_size := sr_transfered_size r + n\<rparr>)"
proof -
  have le: "n \<le> sr_remained_size r" using n by simp
  then have nle: "unat n \<le> unat (sr_remained_size r)" by (simp add: word_le_nat_alt)
  have rem: "unat (sr_remained_size r - n) = unat (sr_remained_size r) - unat n" by (rule unat_minus_le [OF le])
  have tr: "unat (sr_transfered_size r + n) = unat (sr_transfered_size r) + unat n"
    using ok nle small by (intro unat_plus_small) (auto simp: runner_ok_def)
  have off: "unat (sr_next_write_offset r + n) = unat (sr_next_write_offset r) + unat n"
    using ok nle small by (intro unat_plus_small) (auto simp: runner_ok_def)
  have "take (unat (sr_transfered_size r) + unat n) (drop (unat offset) file) =
      take (unat (sr_transfered_size r)) (drop (unat offset) file) @
      take (unat n) (drop (unat offset + unat (sr_transfered_size r)) file)"
    by (subst take_add) (simp add: add.commute)
  moreover have "unat (sr_transfered_size r) + unat n \<le> length file - unat offset"
    using range ok by (cases "n = 0") (auto simp: runner_ok_def)
  ultimately show ?thesis using ok nle rem tr off by (simp add: runner_ok_def moved_bytes_def)
qed

lemma call_native_move:
  "(call_native_sendfile n r)\<lparr>sr_remained_size := sr_remained_size r - n, sr_transfered_size := sr_transfered_size r + n\<rparr> =
     r\<lparr>sr_next_write_offset := sr_next_write_offset r + n,
       sr_moved := sr_moved r @ [(sr_next_write_offset r, min (sr_remained_size r) (sr_chunk_size r), n)],
       sr_remained_size := sr_remained_size r - n, sr_transfered_size := sr_transfered_size r + n\<rparr>"
  by (simp add: call_native_sendfile_def)

lemma runner_ok_call_zero: "runner_ok file offset amount (call_native_sendfile 0 r) = runner_ok file offset amount r"
  by (simp add: runner_ok_def call_native_sendfile_def moved_bytes_def)

lemma calls_ok_call:
  "calls_ok l (call_native_sendfile n r) \<longleftrightarrow>
     calls_ok l r \<and> n \<le> min (sr_remained_size r) (sr_chunk_size r) \<and> (n \<noteq> 0 \<longrightarrow> unat (sr_next_write_offset r) + unat n \<le> l)"
  by (auto simp: calls_ok_def call_native_sendfile_def)

lemma calls_ok_sizes [simp]:
  "calls_ok l (r\<lparr>sr_remained_size := a, sr_transfered_size := b\<rparr>) = calls_ok l r"
  by (simp add: calls_ok_def)

text \<open>The record only grows, so a run that is documented at its end was documented all along.\<close>

lemma linux_loop_moved: "linux_loop answers wait r = (status, r') \<Longrightarrow> calls_ok l r' \<Longrightarrow> calls_ok l r"
proof (induction answers arbitrary: r)
  case Nil
  then show ?case by (auto simp: linux_loop.simps split: if_splits)
next
  case (Cons a answers)
  have "calls_ok l r" if "calls_ok l (call_native_sendfile n r)" for n using that by (simp add: calls_ok_call)
  with Cons.prems Cons.IH [of "(call_native_sendfile n r)\<lparr>sr_remained_size := b, sr_transfered_size := c\<rparr>" for n b c]
  show ?case by (cases a) (auto simp: linux_loop.simps [of "_ # _"] Let_def split: if_splits)
qed

lemma linux_loop_ok:
  assumes "linux_loop answers wait r = (status, r')" "runner_ok file offset amount r" "calls_ok (length file) r'"
    and "unat offset + unat amount < 2 ^ 64"
  shows "runner_ok file offset amount r' \<and> (\<forall>n. status \<noteq> Called_back Write_ok n)"
  using assms(1-3)
proof (induction answers arbitrary: r)
  case Nil
  then show ?case
    by (auto simp: linux_loop.simps try_initiate_waiting_for_write_readiness_def split: if_splits)
next
  case (Cons a answers)
  show ?case
  proof (cases "sr_remained_size r \<noteq> 0 \<and> (\<exists>n. a = Moved n \<and> n \<noteq> 0)")
    case False
    with Cons.prems show ?thesis
      by (cases a) (auto simp: linux_loop.simps [of "_ # _"] Let_def runner_ok_call_zero
          try_initiate_waiting_for_write_readiness_def split: if_splits)
  next
    case True
    then obtain n where n: "a = Moved n" "n \<noteq> 0" "sr_remained_size r \<noteq> 0" by blast
    let ?r = "(call_native_sendfile n r)\<lparr>sr_remained_size := sr_remained_size r - n, sr_transfered_size := sr_transfered_size r + n\<rparr>"
    have "linux_loop answers wait ?r = (status, r')"
      using Cons.prems(1) n by (simp add: linux_loop.simps [of "_ # _"] Let_def call_native_sendfile_def)
    moreover from linux_loop_moved [OF this Cons.prems(3)] have "calls_ok (length file) (call_native_sendfile n r)"
      by simp
    then have "n \<le> min (sr_remained_size r) (sr_chunk_size r)" "unat (sr_next_write_offset r) + unat n \<le> length file"
      using n(2) by (simp_all add: calls_ok_call)
    with move_ok [OF Cons.prems(2) _ _ assms(4)] have "runner_ok file offset amount ?r"
      unfolding call_native_move by simp
    ultimately show ?thesis using Cons.IH Cons.prems(3) by blast
  qed
qed

text \<open>What was sent, and what the callback was told; \<open>slack\<close> is the greatest number of sent bytes that it may not have been told of.\<close>

definition sent_range :: "nat \<Rightarrow> string \<Rightarrow> sendfile_t \<Rightarrow> runner_status \<times> sendfile_runner_t \<Rightarrow> bool" where
  "sent_range slack file sf result \<longleftrightarrow>
     (let (status, r) = result;
          range = take (unat (m_size sf)) (drop (unat (m_offset sf)) file)
      in prefix (moved_bytes file r) range \<and>
         (case status of
            Called_back ec n \<Rightarrow>
              unat n \<le> length (moved_bytes file r) \<and> length (moved_bytes file r) \<le> unat n + slack \<and>
              (ec = Write_ok \<longrightarrow> n = m_size sf \<and> moved_bytes file r = range)
          | _ \<Rightarrow> True))"

lemma sent_rangeI:
  assumes "runner_ok file (m_offset sf) (m_size sf) r"
    and "\<And>ec n. status = Called_back ec n \<Longrightarrow> n = sr_transfered_size r \<and> (ec = Write_ok \<longrightarrow> sr_remained_size r = 0)"
  shows "sent_range slack file sf (status, r)"
proof -
  have le: "unat (sr_transfered_size r) \<le> unat (m_size sf)" using assms(1) by (simp add: runner_ok_def)
  have moved: "moved_bytes file r = take (unat (sr_transfered_size r)) (take (unat (m_size sf)) (drop (unat (m_offset sf)) file))"
    using assms(1) le by (simp add: runner_ok_def min.absorb1)
  have "prefix (moved_bytes file r) (take (unat (m_size sf)) (drop (unat (m_offset sf)) file))"
    unfolding moved by (rule take_is_prefix)
  moreover have "n = m_size sf \<and> moved_bytes file r = take (unat (m_size sf)) (drop (unat (m_offset sf)) file)"
    if "status = Called_back Write_ok n" for n
    using assms that moved by (auto simp: runner_ok_def word_unat_eq_iff)
  moreover have "length (moved_bytes file r) = unat (sr_transfered_size r)" using assms(1) by (rule runner_ok_length)
  ultimately show ?thesis using assms(2) by (auto simp: sent_range_def Let_def split: runner_status.split)
qed

text \<open>A chunk of which only the beginning was written.\<close>

lemma sent_range_failed:
  assumes ok: "runner_ok file (m_offset sf) (m_size sf) r" and calls: "calls_ok (length file) (chunk_failed n written r)"
  shows "sent_range (unat (sr_chunk_size r)) file sf (Called_back (Write_failed e) (sr_transfered_size r), chunk_failed n written r)"
proof -
  let ?k = "unat (min written n)" and ?t = "unat (sr_transfered_size r)" and ?o = "unat (m_offset sf)"
  have "min written n \<le> min (sr_remained_size r) (sr_chunk_size r)" using calls by (simp add: calls_ok_def chunk_failed_def)
  then have "min written n \<le> sr_remained_size r" "min written n \<le> sr_chunk_size r" by (auto simp: min_def split: if_splits)
  then have k: "?k \<le> unat (sr_remained_size r)" "?k \<le> unat (sr_chunk_size r)" by (simp_all add: word_le_nat_alt)
  have "moved_bytes file (chunk_failed n written r) = moved_bytes file r @ take ?k (drop (unat (sr_next_write_offset r)) file)"
    by (simp add: moved_bytes_def chunk_failed_def)
  also have "\<dots> = take (?t + ?k) (drop ?o file)"
    using ok by (simp add: runner_ok_def take_add add.commute)
  also have "\<dots> = take (?t + ?k) (take (unat (m_size sf)) (drop ?o file))"
    using ok k(1) by (simp add: runner_ok_def min.absorb1)
  finally have moved: "prefix (moved_bytes file (chunk_failed n written r)) (take (unat (m_size sf)) (drop ?o file))"
    by (simp only: take_is_prefix)
  have "length (moved_bytes file (chunk_failed n written r)) \<le> ?t + unat (sr_chunk_size r)"
    "?t \<le> length (moved_bytes file (chunk_failed n written r))"
    using runner_ok_length [OF ok] k(2) by (simp_all add: moved_bytes_def chunk_failed_def)
  with moved show ?thesis by (simp add: sent_range_def)
qed

lemma runner_ok_fresh: "runner_ok file (m_offset sf) (m_size sf) (sendfile_operation_runner sf)"
  by (simp add: runner_ok_def sendfile_operation_runner_def moved_bytes_def)

lemma linux_loop_status:
  "linux_loop answers wait r = (Called_back ec n, r') \<Longrightarrow> n = sr_transfered_size r' \<and> ec \<noteq> Write_ok"
proof (induction answers arbitrary: r)
  case Nil
  then show ?case by (auto simp: linux_loop.simps try_initiate_waiting_for_write_readiness_def split: if_splits)
next
  case (Cons a answers)
  then show ?case
    by (cases a) (auto simp: linux_loop.simps [of "_ # _"] try_initiate_waiting_for_write_readiness_def Let_def split: if_splits)
qed

lemma linux_run_moved: "linux_run rounds r = (status, r') \<Longrightarrow> calls_ok l r' \<Longrightarrow> calls_ok l r"
proof (induction rounds arbitrary: r)
  case (Cons round rounds)
  obtain st r1 where init: "linux_init_next_write (lr_non_blocking_error round) (lr_answers round) (lr_wait round) r = (st, r1)"
    by fastforce
  have "calls_ok l r1" using Cons init by (auto split: if_splits wait_answer.splits)
  with init linux_loop_moved show ?case by (auto simp: linux_init_next_write_def split: option.splits)
qed simp

lemma linux_run_sent:
  assumes "linux_run rounds r = (status, r')" "runner_ok file (m_offset sf) (m_size sf) r" "calls_ok (length file) r'"
    and "unat (m_offset sf) + unat (m_size sf) < 2 ^ 64"
  shows "sent_range 0 file sf (status, r')"
  using assms(1-3)
proof (induction rounds arbitrary: r)
  case Nil
  then show ?case by (auto intro!: sent_rangeI)
next
  case (Cons round rounds)
  obtain st r1 where init: "linux_init_next_write (lr_non_blocking_error round) (lr_answers round) (lr_wait round) r = (st, r1)"
    by fastforce
  from Cons.prems init linux_run_moved have "calls_ok (length file) r1"
    by (auto split: if_splits wait_answer.splits)
  with init Cons.prems(2) linux_loop_ok [OF _ _ _ assms(4)] have ok: "runner_ok file (m_offset sf) (m_size sf) r1"
    by (auto simp: linux_init_next_write_def split: option.splits)
  have st: "n = sr_transfered_size r1 \<and> ec \<noteq> Write_ok" if "st = Called_back ec n" for ec n
    using init linux_loop_status that by (auto simp: linux_init_next_write_def split: option.splits)
  from Cons.prems(1,3) init ok st Cons.IH show ?case
    by (auto intro!: sent_rangeI split: if_splits wait_answer.splits)
qed

lemma generic_run_moved: "generic_run rounds r = (status, r') \<Longrightarrow> calls_ok l r' \<Longrightarrow> calls_ok l r"
proof (induction rounds arbitrary: r)
  case (Cons round rounds)
  have "calls_ok l r" if "calls_ok l (chunk_written n r) \<or> calls_ok l (chunk_failed n k r)" for n k
    using that by (auto simp: chunk_written_def chunk_failed_def calls_ok_def)
  with Cons show ?case by (auto simp: Let_def split: if_splits runner_status.splits write_answer.splits)
qed simp

lemma generic_loop_status:
  "generic_loop answers w r = Called_back ec n \<Longrightarrow> n = sr_transfered_size r \<and> ec \<noteq> Write_ok"
  by (induction answers w r rule: generic_loop.induct) (auto split: if_splits)

lemma chunk_written_ok:
  assumes "runner_ok file offset amount r" "calls_ok (length file) (chunk_written n r)" "unat offset + unat amount < 2 ^ 64"
  shows "runner_ok file offset amount (chunk_written n r)"
proof -
  from assms(2) have "n \<le> min (sr_remained_size r) (sr_chunk_size r)"
    "n \<noteq> 0 \<Longrightarrow> unat (sr_next_write_offset r) + unat n \<le> length file"
    by (auto simp: calls_ok_def chunk_written_def)
  from move_ok [OF assms(1) this assms(3)] show ?thesis by (simp add: chunk_written_def)
qed

lemma generic_run_sent:
  assumes "generic_run rounds r = (status, r')" "runner_ok file (m_offset sf) (m_size sf) r" "calls_ok (length file) r'"
    and "unat (m_offset sf) + unat (m_size sf) < 2 ^ 64"
  shows "sent_range (unat (sr_chunk_size r)) file sf (status, r')"
  using assms(1-3)
proof (induction rounds arbitrary: r)
  case Nil
  then show ?case by (auto intro!: sent_rangeI)
next
  case (Cons round rounds)
  let ?st = "generic_loop (gr_answers round) (gr_write round) r"
  consider n where "?st = Writing n" "gr_write round = Written"
    | n e k where "?st = Writing n" "gr_write round = Write_error e k"
    | "\<nexists>n. ?st = Writing n" | "gr_write round = Write_not_started"
    by (cases "gr_write round") auto
  then show ?case
  proof cases
    case (1 n)
    show ?thesis
    proof (cases "sr_remained_size (chunk_written n r) = 0")
      case True
      with Cons.prems 1 chunk_written_ok [OF Cons.prems(2) _ assms(4)] show ?thesis by (auto simp: Let_def intro!: sent_rangeI)
    next
      case False
      then have run: "generic_run rounds (chunk_written n r) = (status, r')" using Cons.prems(1) 1 by (simp add: Let_def)
      moreover have "runner_ok file (m_offset sf) (m_size sf) (chunk_written n r)"
        using generic_run_moved [OF run Cons.prems(3)] by (rule chunk_written_ok [OF Cons.prems(2) _ assms(4)])
      moreover have "sr_chunk_size (chunk_written n r) = sr_chunk_size r" by (simp add: chunk_written_def)
      ultimately show ?thesis using Cons.IH Cons.prems(3) by metis
    qed
  next
    case (2 n e k)
    with Cons.prems sent_range_failed [OF Cons.prems(2)] show ?thesis by auto
  next
    case 3
    with Cons.prems(1,2) generic_loop_status [of "gr_answers round" "gr_write round" r] show ?thesis
      by (auto intro!: sent_rangeI split: runner_status.splits)
  next
    case 4
    have "\<not> (\<exists>n. generic_loop answers Write_not_started r = Writing n)" for answers
      by (induction answers Write_not_started r rule: generic_loop.induct) auto
    with 4 Cons.prems(1,2) generic_loop_status [of "gr_answers round" "gr_write round" r] show ?thesis
      by (auto intro!: sent_rangeI split: runner_status.splits)
  qed
qed

text \<open>
  C15: Sending a range of a file, with the system call of Linux or by reading and writing chunks. Whatever the system and
  the socket answer, and however often the runner has to start again, the bytes that went out are a prefix of the
  range, and the runner reports success only after the whole range. The number it reports is their number on Linux; the runner that writes
  chunks does not count the bytes of a chunk whose write failed, so that the number may be too small, by at most one chunk.
\<close>

theorem sendfile_sends_range:
  assumes "unat (m_offset sf) + unat (m_size sf) < 2 ^ 64"
  shows "(calls_ok (length file) (snd (linux_run rounds (sendfile_operation_runner sf))) \<longrightarrow>
            sent_range 0 file sf (linux_run rounds (sendfile_operation_runner sf))) \<and>
         (calls_ok (length file) (snd (generic_start seek_error rounds' (sendfile_operation_runner sf))) \<longrightarrow>
            sent_range (unat (m_chunk_size sf)) file sf (generic_start seek_error rounds' (sendfile_operation_runner sf)))"
proof -
  let ?r = "sendfile_operation_runner sf"
  have fresh: "runner_ok file (m_offset sf) (m_size sf) ?r" by (rule runner_ok_fresh)
  have chunk: "sr_chunk_size ?r = m_chunk_size sf" by (simp add: sendfile_operation_runner_def)
  have "sent_range 0 file sf (linux_run rounds ?r)" if "calls_ok (length file) (snd (linux_run rounds ?r))"
    using linux_run_sent [OF _ fresh _ assms] that by (metis prod.collapse)
  moreover have "sent_range (unat (m_chunk_size sf)) file sf (generic_run rounds' ?r)"
    if "calls_ok (length file) (snd (generic_run rounds' ?r))"
    using generic_run_sent [OF _ fresh _ assms] that unfolding chunk by (metis prod.collapse)
  moreover have "sent_range (unat (m_chunk_size sf)) file sf (Called_back (Write_failed e) (sr_transfered_size ?r), ?r)" for e
    using fresh by (auto intro!: sent_rangeI)
  ultimately show ?thesis by (simp add: generic_start_def split: option.split)
qed

definition small_transfer :: sendfile_t where
  "small_transfer =
     \<lparr>m_file_descriptor = 3, m_meta = \<lparr>m_file_total_size = 5, m_last_modified_at = 0\<rparr>, m_offset = 1, m_size = 3,
      m_chunk_size = 2, m_timelimit = 0\<rparr>"

definition small_rounds :: "linux_round list" where
  "small_rounds =
     [\<lparr>lr_non_blocking_error = None, lr_answers = [Moved 2, Try_again], lr_wait = Ready\<rparr>,
      \<lparr>lr_non_blocking_error = None, lr_answers = [Moved 1], lr_wait = Ready\<rparr>]"

text \<open>Both runners on the bytes 1 to 3 of a file; the second write of the chunk runner fails after one byte.\<close>

definition small_chunks :: "generic_round list" where
  "small_chunks =
     [\<lparr>gr_answers = [Moved 2], gr_write = Written\<rparr>, \<lparr>gr_answers = [Interrupted, Moved 1], gr_write = Write_error 104 1\<rparr>]"

theorem sendfile_sends_range_witness:
  "fst (linux_run small_rounds (sendfile_operation_runner small_transfer)) = Called_back Write_ok 3 \<and>
   moved_bytes ''abcde'' (snd (linux_run small_rounds (sendfile_operation_runner small_transfer))) = ''bcd'' \<and>
   fst (generic_start None small_chunks (sendfile_operation_runner small_transfer)) = Called_back (Write_failed 104) 2 \<and>
   prefix (moved_bytes ''abcde'' (snd (generic_start None small_chunks (sendfile_operation_runner small_transfer)))) ''bcd'' \<and>
   length (moved_bytes ''abcde'' (snd (generic_start None small_chunks (sendfile_operation_runner small_transfer)))) \<le> 4"
proof -
  let ?r = "sendfile_operation_runner small_transfer"
  have run: "linux_run small_rounds ?r =
      (Called_back Write_ok 3, \<lparr>sr_next_write_offset = 4, sr_remained_size = 0, sr_transfered_size = 3, sr_chunk_size = 2,
         sr_moved = [(1, 2, 2), (3, 1, 1)]\<rparr>)"
    by code_simp
  have chunks: "generic_start None small_chunks ?r =
      (Called_back (Write_failed 104) 2, \<lparr>sr_next_write_offset = 4, sr_remained_size = 1, sr_transfered_size = 2, sr_chunk_size = 2,
         sr_moved = [(1, 2, 2), (3, 1, 1)]\<rparr>)"
    by code_simp
  have "calls_ok (length ''abcde'') (snd (linux_run small_rounds ?r))" "calls_ok (length ''abcde'') (snd (generic_start None small_chunks ?r))"
    unfolding run chunks by (simp_all add: calls_ok_def)
  moreover have "unat (m_offset small_transfer) + unat (m_size small_transfer) < 2 ^ 64"
    by (simp add: small_transfer_def)
  ultimately have "sent_range 0 ''abcde'' small_transfer (linux_run small_rounds ?r)"
    "sent_range 2 ''abcde'' small_transfer (generic_start None small_chunks ?r)"
    using sendfile_sends_range [of small_transfer "''abcde''" small_rounds None small_chunks] by (simp_all add: small_transfer_def)
  then show ?thesis unfolding run chunks by (simp add: sent_range_def small_transfer_def Let_def)
qed

text \<open>
  C39: A file that has become shorter than the range. The runner that reads and writes chunks reports the end of the file.
  The one for Linux takes the empty answer of the system call as a reason to wait for the socket and then asks again: however
  often the socket becomes writable, the callback is not called.
\<close>

theorem short_file:
  assumes "sr_remained_size r \<noteq> 0"
  shows "fst (linux_run (replicate k \<lparr>lr_non_blocking_error = None, lr_answers = [Moved 0], lr_wait = Ready\<rparr>) r) = In_loop \<and>
         fst (generic_run [\<lparr>gr_answers = [Moved 0], gr_write = w\<rparr>] r) = Called_back (Write_failed asio_eof) (sr_transfered_size r)"
proof -
  let ?round = "\<lparr>lr_non_blocking_error = None, lr_answers = [Moved 0], lr_wait = Ready\<rparr>"
  have "fst (linux_run (replicate k ?round) r) = In_loop" using assms
  proof (induction k arbitrary: r)
    case (Suc k)
    let ?r = "call_native_sendfile 0 r"
    have "sr_remained_size ?r = sr_remained_size r" by (simp add: call_native_sendfile_def)
    with Suc show ?case
      by (simp add: linux_init_next_write_def linux_loop.simps try_initiate_waiting_for_write_readiness_def Let_def)
  qed simp
  then show ?thesis by simp
qed

theorem short_file_witness:
  "fst (linux_run (replicate 2 \<lparr>lr_non_blocking_error = None, lr_answers = [Moved 0], lr_wait = Ready\<rparr>)
     (sendfile_operation_runner small_transfer)) = In_loop"
  using short_file [of "sendfile_operation_runner small_transfer" 2 Written]
  by (simp add: sendfile_operation_runner_def small_transfer_def)

end
