(* ===== verification/Http_Parser_Ctx.thy ===== *)
theory Http_Parser_Ctx
  imports Http_Headers
begin

text \<open>
  How an incoming request is put together: the callbacks of \<^verbatim>\<open>restinio/impl/parser_callbacks.ipp\<close> on the
  context \<^verbatim>\<open>http_parser_ctx_t\<close> of \<^verbatim>\<open>restinio/impl/connection.hpp\<close>, the limits of
  \<^verbatim>\<open>restinio/incoming_http_msg_limits.hpp\<close> and the description of chunks of
  \<^verbatim>\<open>restinio/chunked_input_info.hpp\<close>.

  The HTTP parser that calls them is not part of the sources.  What a callback reads from the parser
  (content length, method, flags) is part of the event; a callback returns the new context, or none when it returns
  a non-zero code, after which the parser stops with an error.  Appending to the last
  field of an empty container is undefined, and is a failure here as well.
\<close>

section \<open>Definitions\<close>

record incoming_http_msg_limits_t =
  lim_max_url_size :: u64
  lim_max_field_name_size :: u64
  lim_max_field_value_size :: u64
  lim_max_field_count :: u64
  lim_max_body_size :: u64

definition incoming_http_msg_limits :: incoming_http_msg_limits_t where
  "incoming_http_msg_limits =
     \<lparr>lim_max_url_size = - 1, lim_max_field_name_size = - 1, lim_max_field_value_size = - 1,
      lim_max_field_count = - 1, lim_max_body_size = - 1\<rparr>"

record chunk_info_t =
  ci_started_at :: nat
  ci_size :: nat

definition make_string_view_nonchecked :: "string \<Rightarrow> chunk_info_t \<Rightarrow> string" where
  "make_string_view_nonchecked full_body c = take (ci_size c) (drop (ci_started_at c) full_body)"

definition make_string_view :: "string \<Rightarrow> chunk_info_t \<Rightarrow> (nat \<times> nat \<times> nat) + string" where
  "make_string_view full_body c =
     (if length full_body \<le> ci_started_at c \<or> length full_body < (ci_started_at c + ci_size c) mod 2 ^ 64
      then Inl (ci_started_at c, ci_size c, length full_body)
      else Inr (make_string_view_nonchecked full_body c))"

record chunked_input_info_block_t =
  cb_chunks :: "chunk_info_t list"
  cb_trailing_fields :: http_header_fields_t

definition chunked_input_info_block :: chunked_input_info_block_t where
  "chunked_input_info_block = \<lparr>cb_chunks = [], cb_trailing_fields = []\<rparr>"

definition chunk_count :: "chunked_input_info_block_t \<Rightarrow> nat" where
  "chunk_count info = length (cb_chunks info)"

definition chunk_at :: "nat \<Rightarrow> chunked_input_info_block_t \<Rightarrow> chunk_info_t option" where
  "chunk_at index info = (if index < length (cb_chunks info) then Some (cb_chunks info ! index) else None)"

record http_parser_ctx_t =
  px_header :: http_request_header_t
  px_body :: string
  px_current_field_name :: string
  px_last_value_total_size :: nat
  px_last_was_value :: bool
  px_leading_headers_completed :: bool
  px_chunked_info_block :: chunked_input_info_block_t
  px_message_complete :: bool
  px_total_field_count :: nat
  px_limits :: incoming_http_msg_limits_t

definition http_parser_ctx :: "(string \<Rightarrow> int) \<Rightarrow> incoming_http_msg_limits_t \<Rightarrow> http_parser_ctx_t" where
  "http_parser_ctx nodejs_code limits =
     \<lparr>px_header = http_request_header_default nodejs_code, px_body = [], px_current_field_name = [],
      px_last_value_total_size = 0, px_last_was_value = True, px_leading_headers_completed = False,
      px_chunked_info_block = chunked_input_info_block, px_message_complete = False, px_total_field_count = 0,
      px_limits = limits\<rparr>"

text \<open>The block of chunks is not among the members that are reset.\<close>

definition ctx_reset :: "(string \<Rightarrow> int) \<Rightarrow> http_parser_ctx_t \<Rightarrow> http_parser_ctx_t" where
  "ctx_reset nodejs_code ctx =
     ctx\<lparr>px_header := http_request_header_default nodejs_code, px_body := [], px_current_field_name := [],
         px_last_value_total_size := 0, px_last_was_value := True, px_leading_headers_completed := False,
         px_message_complete := False, px_total_field_count := 0\<rparr>"

definition make_chunked_input_info_if_necessary ::
    "http_parser_ctx_t \<Rightarrow> chunked_input_info_block_t option \<times> http_parser_ctx_t" where
  "make_chunked_input_info_if_necessary ctx =
     (let b = px_chunked_info_block ctx
      in if cb_chunks b \<noteq> [] \<or> 0 \<noteq> fields_count (cb_trailing_fields b)
         then (Some b, ctx\<lparr>px_chunked_info_block := chunked_input_info_block\<rparr>)
         else (None, ctx))"

datatype parser_event =
    On_url string
  | On_header_field string
  | On_header_value string
  | On_headers_complete u64 bool
  | On_body string
  | On_chunk_header u64
  | On_chunk_complete
  | On_message_complete int bool bool

definition restinio_url_cb :: "string \<Rightarrow> http_parser_ctx_t \<Rightarrow> http_parser_ctx_t option" where
  "restinio_url_cb at ctx =
     (let ctx = ctx\<lparr>px_header := append_request_target at (px_header ctx)\<rparr>
      in if unat (lim_max_url_size (px_limits ctx)) < length (m_request_target (px_header ctx)) then None else Some ctx)"

definition restinio_header_field_cb :: "string \<Rightarrow> http_parser_ctx_t \<Rightarrow> http_parser_ctx_t option" where
  "restinio_header_field_cb at ctx =
     (if px_last_was_value ctx \<and> px_total_field_count ctx = unat (lim_max_field_count (px_limits ctx)) then None
      else
        (let ctx = (if px_last_was_value ctx then ctx\<lparr>px_current_field_name := at, px_last_was_value := False\<rparr>
                    else ctx\<lparr>px_current_field_name := px_current_field_name ctx @ at\<rparr>)
         in if unat (lim_max_field_name_size (px_limits ctx)) < length (px_current_field_name ctx) then None else Some ctx))"

text \<open>The container the fields go to, and its update.\<close>

definition current_fields :: "http_parser_ctx_t \<Rightarrow> http_header_fields_t" where
  "current_fields ctx =
     (if px_leading_headers_completed ctx then cb_trailing_fields (px_chunked_info_block ctx) else m_fields (px_header ctx))"

definition set_current_fields :: "http_header_fields_t \<Rightarrow> http_parser_ctx_t \<Rightarrow> http_parser_ctx_t" where
  "set_current_fields fs ctx =
     (if px_leading_headers_completed ctx
      then ctx\<lparr>px_chunked_info_block := (px_chunked_info_block ctx)\<lparr>cb_trailing_fields := fs\<rparr>\<rparr>
      else ctx\<lparr>px_header := (px_header ctx)\<lparr>m_fields := fs\<rparr>\<rparr>)"

definition restinio_header_value_cb :: "string \<Rightarrow> http_parser_ctx_t \<Rightarrow> http_parser_ctx_t option" where
  "restinio_header_value_cb at ctx =
     (case (if \<not> px_last_was_value ctx
            then Some ((set_current_fields (add_field_name (px_current_field_name ctx) at (current_fields ctx)) ctx)
                   \<lparr>px_current_field_name := [], px_last_value_total_size := length at, px_last_was_value := True,
                    px_total_field_count := px_total_field_count ctx + 1\<rparr>)
            else map_option (\<lambda>fs. (set_current_fields fs ctx)
                   \<lparr>px_last_value_total_size := px_last_value_total_size ctx + length at\<rparr>)
                   (append_last_field at (current_fields ctx))) of
        None \<Rightarrow> None
      | Some ctx \<Rightarrow>
          (if unat (lim_max_field_value_size (px_limits ctx)) \<le> px_last_value_total_size ctx then None else Some ctx))"

text \<open>Whether the memory for the body could be reserved is part of the event.\<close>

definition restinio_headers_complete_cb :: "u64 \<Rightarrow> bool \<Rightarrow> http_parser_ctx_t \<Rightarrow> http_parser_ctx_t option" where
  "restinio_headers_complete_cb content_length reserved ctx =
     (let ctx = ctx\<lparr>px_leading_headers_completed := True\<rparr>
      in if content_length \<noteq> - 1 \<and> 0 < content_length
         then (if lim_max_body_size (px_limits ctx) < content_length then None
               else if \<not> reserved then None
               else Some ctx)
         else Some ctx)"

definition restinio_body_cb :: "string \<Rightarrow> http_parser_ctx_t \<Rightarrow> http_parser_ctx_t option" where
  "restinio_body_cb at ctx =
     (if unat (lim_max_body_size (px_limits ctx)) < length (px_body ctx) + length at then None
      else Some (ctx\<lparr>px_body := px_body ctx @ at\<rparr>))"

definition restinio_chunk_header_cb :: "u64 \<Rightarrow> http_parser_ctx_t \<Rightarrow> http_parser_ctx_t option" where
  "restinio_chunk_header_cb content_length ctx =
     (if 0 \<noteq> content_length
      then (let b = px_chunked_info_block ctx
            in Some (ctx\<lparr>px_chunked_info_block :=
                 b\<lparr>cb_chunks := cb_chunks b @ [\<lparr>ci_started_at = length (px_body ctx), ci_size = unat content_length\<rparr>]\<rparr>\<rparr>))
      else Some ctx)"

definition restinio_chunk_complete_cb :: "http_parser_ctx_t \<Rightarrow> http_parser_ctx_t option" where
  "restinio_chunk_complete_cb ctx = Some ctx"

text \<open>Pausing the parser is the parser's part.\<close>

definition restinio_message_complete_cb ::
    "(string \<Rightarrow> int) \<Rightarrow> int \<Rightarrow> bool \<Rightarrow> bool \<Rightarrow> http_parser_ctx_t \<Rightarrow> http_parser_ctx_t option" where
  "restinio_message_complete_cb nodejs_code meth upgrade keep_alive ctx =
     (let ctx = (if \<not> px_last_was_value ctx \<and> px_current_field_name ctx \<noteq> []
                 then (let b = px_chunked_info_block ctx
                       in ctx\<lparr>px_chunked_info_block :=
                                b\<lparr>cb_trailing_fields := add_field_name (px_current_field_name ctx) [] (cb_trailing_fields b)\<rparr>,
                              px_current_field_name := []\<rparr>)
                 else ctx);
          header = (px_header ctx)\<lparr>m_method := from_nodejs nodejs_code meth\<rparr>;
          header = (if \<not> upgrade then set_should_keep_alive keep_alive header else set_connection Upgrade header)
      in Some (ctx\<lparr>px_message_complete := True, px_header := header\<rparr>))"

text \<open>\<^verbatim>\<open>create_parser_settings\<close>: which callback an event goes to, and a run of the parser.\<close>

fun parser_callback :: "(string \<Rightarrow> int) \<Rightarrow> parser_event \<Rightarrow> http_parser_ctx_t \<Rightarrow> http_parser_ctx_t option" where
  "parser_callback nodejs_code (On_url at) = restinio_url_cb at"
| "parser_callback nodejs_code (On_header_field at) = restinio_header_field_cb at"
| "parser_callback nodejs_code (On_header_value at) = restinio_header_value_cb at"
| "parser_callback nodejs_code (On_headers_complete n reserved) = restinio_headers_complete_cb n reserved"
| "parser_callback nodejs_code (On_body at) = restinio_body_cb at"
| "parser_callback nodejs_code (On_chunk_header n) = restinio_chunk_header_cb n"
| "parser_callback nodejs_code On_chunk_complete = restinio_chunk_complete_cb"
| "parser_callback nodejs_code (On_message_complete meth upgrade keep_alive) =
     restinio_message_complete_cb nodejs_code meth upgrade keep_alive"

fun run_callbacks :: "(string \<Rightarrow> int) \<Rightarrow> parser_event list \<Rightarrow> http_parser_ctx_t \<Rightarrow> http_parser_ctx_t option" where
  "run_callbacks nodejs_code [] ctx = Some ctx"
| "run_callbacks nodejs_code (e # es) ctx =
     (case parser_callback nodejs_code e ctx of None \<Rightarrow> None | Some ctx \<Rightarrow> run_callbacks nodejs_code es ctx)"

text \<open>Joining neighbouring pieces of the same part of a message.\<close>

fun join_two :: "parser_event \<Rightarrow> parser_event \<Rightarrow> parser_event option" where
  "join_two (On_url a) (On_url b) = Some (On_url (a @ b))"
| "join_two (On_header_field a) (On_header_field b) = Some (On_header_field (a @ b))"
| "join_two (On_header_value a) (On_header_value b) = Some (On_header_value (a @ b))"
| "join_two (On_body a) (On_body b) = Some (On_body (a @ b))"
| "join_two e e' = None"

fun join_events :: "parser_event list \<Rightarrow> parser_event list" where
  "join_events [] = []"
| "join_events (e # es) =
     (case join_events es of
        [] \<Rightarrow> [e]
      | e' # es' \<Rightarrow> (case join_two e e' of Some e'' \<Rightarrow> e'' # es' | None \<Rightarrow> e # e' # es'))"

text \<open>The events of a chunked body: for every chunk its header, its pieces and its end.\<close>

definition chunk_events :: "string list \<Rightarrow> parser_event list" where
  "chunk_events ps = On_chunk_header (of_nat (length (concat ps))) # map On_body ps @ [On_chunk_complete]"

definition all_fields :: "http_parser_ctx_t \<Rightarrow> http_header_fields_t" where
  "all_fields ctx = m_fields (px_header ctx) @ cb_trailing_fields (px_chunked_info_block ctx)"

definition within_limits :: "http_parser_ctx_t \<Rightarrow> bool" where
  "within_limits ctx \<longleftrightarrow>
     (let lim = px_limits ctx
      in length (m_request_target (px_header ctx)) \<le> unat (lim_max_url_size lim) \<and>
         length (all_fields ctx) \<le> unat (lim_max_field_count lim) \<and>
         list_all (\<lambda>f. length (m_name f) \<le> unat (lim_max_field_name_size lim)) (all_fields ctx) \<and>
         list_all (\<lambda>f. m_value f = [] \<or> length (m_value f) < unat (lim_max_field_value_size lim)) (all_fields ctx) \<and>
         length (px_body ctx) \<le> unat (lim_max_body_size lim))"

section \<open>Messages in pieces\<close>

lemma m_request_target_append [simp]: "m_request_target (append_request_target at h) = m_request_target h @ at"
  by (simp add: append_request_target_def Let_def)

lemma m_fields_append_target [simp]: "m_fields (append_request_target at h) = m_fields h"
  by (simp add: append_request_target_def Let_def)

lemma append_request_target_twice:
  assumes "target_ok h"
  shows "append_request_target b (append_request_target a h) = append_request_target (a @ b) h"
proof -
  have "append_request_target a h = request_target (m_request_target h @ a) h"
    by (rule append_request_target_eq [OF assms])
  then show ?thesis
    by (simp add: append_request_target_eq assms target_ok_request_target m_request_target_request_target
        request_target_twice)
qed

lemma append_last_add_field [simp]:
  "append_last_field b (add_field_name n a fs) = Some (add_field_name n (a @ b) fs)"
  by (simp add: append_last_field_def add_field_name_def append_value_def http_header_field_name_def)

lemma append_last_twice:
  "append_last_field a fs = Some fs' \<Longrightarrow> append_last_field b fs' = append_last_field (a @ b) fs"
  by (auto simp: append_last_field_def append_value_def split: if_splits)

lemma append_last_none: "append_last_field a fs = None \<longleftrightarrow> fs = []"
  by (simp add: append_last_field_def)

lemma current_fields_set [simp]: "current_fields (set_current_fields fs ctx) = fs"
  by (simp add: current_fields_def set_current_fields_def)

lemma set_current_fields_twice [simp]: "set_current_fields gs (set_current_fields fs ctx) = set_current_fields gs ctx"
  by (simp add: set_current_fields_def)

lemma set_current_fields_frame [simp]:
  "px_limits (set_current_fields fs ctx) = px_limits ctx"
  "px_body (set_current_fields fs ctx) = px_body ctx"
  "px_last_was_value (set_current_fields fs ctx) = px_last_was_value ctx"
  "px_last_value_total_size (set_current_fields fs ctx) = px_last_value_total_size ctx"
  "px_total_field_count (set_current_fields fs ctx) = px_total_field_count ctx"
  "px_current_field_name (set_current_fields fs ctx) = px_current_field_name ctx"
  "px_leading_headers_completed (set_current_fields fs ctx) = px_leading_headers_completed ctx"
  "m_request_target (px_header (set_current_fields fs ctx)) = m_request_target (px_header ctx)"
  "target_ok (px_header (set_current_fields fs ctx)) = target_ok (px_header ctx)"
  by (simp_all add: set_current_fields_def target_ok_def)

lemma url_twice:
  assumes "target_ok (px_header ctx)"
  shows "Option.bind (restinio_url_cb a ctx) (restinio_url_cb b) = restinio_url_cb (a @ b) ctx"
  using append_request_target_twice [OF assms] by (simp add: restinio_url_cb_def Let_def)

lemma header_field_twice:
  "Option.bind (restinio_header_field_cb a ctx) (restinio_header_field_cb b) = restinio_header_field_cb (a @ b) ctx"
  by (simp add: restinio_header_field_cb_def Let_def)

lemma fields_update_frame [simp]:
  "current_fields (ctx\<lparr>px_current_field_name := n\<rparr>) = current_fields ctx"
  "current_fields (ctx\<lparr>px_last_value_total_size := k\<rparr>) = current_fields ctx"
  "current_fields (ctx\<lparr>px_last_was_value := l\<rparr>) = current_fields ctx"
  "current_fields (ctx\<lparr>px_total_field_count := k\<rparr>) = current_fields ctx"
  "set_current_fields fs (ctx\<lparr>px_current_field_name := n\<rparr>) = (set_current_fields fs ctx)\<lparr>px_current_field_name := n\<rparr>"
  "set_current_fields fs (ctx\<lparr>px_last_value_total_size := k\<rparr>) =
     (set_current_fields fs ctx)\<lparr>px_last_value_total_size := k\<rparr>"
  "set_current_fields fs (ctx\<lparr>px_last_was_value := l\<rparr>) = (set_current_fields fs ctx)\<lparr>px_last_was_value := l\<rparr>"
  "set_current_fields fs (ctx\<lparr>px_total_field_count := k\<rparr>) = (set_current_fields fs ctx)\<lparr>px_total_field_count := k\<rparr>"
  by (simp_all add: current_fields_def set_current_fields_def)

lemma header_value_first:
  assumes "\<not> px_last_was_value ctx"
  shows "restinio_header_value_cb at ctx =
     (if unat (lim_max_field_value_size (px_limits ctx)) \<le> length at then None
      else Some ((set_current_fields (add_field_name (px_current_field_name ctx) at (current_fields ctx)) ctx)
                   \<lparr>px_current_field_name := [], px_last_value_total_size := length at, px_last_was_value := True,
                    px_total_field_count := px_total_field_count ctx + 1\<rparr>))"
  using assms by (simp add: restinio_header_value_cb_def)

lemma header_value_next:
  assumes "px_last_was_value ctx"
  shows "restinio_header_value_cb at ctx =
     (if unat (lim_max_field_value_size (px_limits ctx)) \<le> px_last_value_total_size ctx + length at then None
      else map_option (\<lambda>fs. (set_current_fields fs ctx)\<lparr>px_last_value_total_size := px_last_value_total_size ctx + length at\<rparr>)
             (append_last_field at (current_fields ctx)))"
  using assms by (simp add: restinio_header_value_cb_def split: option.split)

lemma header_value_twice:
  "Option.bind (restinio_header_value_cb a ctx) (restinio_header_value_cb b) = restinio_header_value_cb (a @ b) ctx"
proof (cases "px_last_was_value ctx")
  case False
  then show ?thesis by (simp add: header_value_first header_value_next)
next
  case last: True
  show ?thesis
  proof (cases "append_last_field a (current_fields ctx)")
    case None
    with last show ?thesis by (simp add: header_value_next append_last_none) (simp add: append_last_field_def)
  next
    case (Some fs)
    with last append_last_twice [OF Some, of b] show ?thesis
      by (simp add: header_value_next add.assoc cong: option.map_cong)
  qed
qed

lemma body_twice: "Option.bind (restinio_body_cb a ctx) (restinio_body_cb b) = restinio_body_cb (a @ b) ctx"
  by (simp add: restinio_body_cb_def)

lemma target_ok_more [simp]:
  "target_ok (h\<lparr>m_method := mt\<rparr>) = target_ok h"
  "target_ok (h\<lparr>m_fields := fs\<rparr>) = target_ok h"
  "target_ok (set_connection c h) = target_ok h"
  "target_ok (set_should_keep_alive k h) = target_ok h"
  by (simp_all add: target_ok_def set_connection_def set_should_keep_alive_def)

lemmas callback_defs =
  restinio_url_cb_def restinio_header_field_cb_def restinio_headers_complete_cb_def restinio_body_cb_def
  restinio_chunk_header_cb_def restinio_chunk_complete_cb_def restinio_message_complete_cb_def

lemma header_value_cases:
  assumes "restinio_header_value_cb at ctx = Some ctx'"
  obtains (first) "\<not> px_last_was_value ctx" "length at < unat (lim_max_field_value_size (px_limits ctx))"
      "ctx' = (set_current_fields (add_field_name (px_current_field_name ctx) at (current_fields ctx)) ctx)
                \<lparr>px_current_field_name := [], px_last_value_total_size := length at, px_last_was_value := True,
                 px_total_field_count := px_total_field_count ctx + 1\<rparr>"
  | (next_piece) fs where "px_last_was_value ctx" "append_last_field at (current_fields ctx) = Some fs"
      "px_last_value_total_size ctx + length at < unat (lim_max_field_value_size (px_limits ctx))"
      "ctx' = (set_current_fields fs ctx)\<lparr>px_last_value_total_size := px_last_value_total_size ctx + length at\<rparr>"
  using assms by (cases "px_last_was_value ctx") (auto simp: header_value_first header_value_next split: if_splits)

lemma callback_target_ok:
  assumes "parser_callback nodejs_code e ctx = Some ctx'" "target_ok (px_header ctx)"
  shows "target_ok (px_header ctx')"
proof (cases e)
  case (On_url at)
  with assms show ?thesis
    by (auto simp: restinio_url_cb_def Let_def append_request_target_eq target_ok_request_target split: if_splits)
next
  case (On_header_value at)
  with assms show ?thesis by (auto elim!: header_value_cases)
qed (use assms in \<open>auto simp: callback_defs Let_def split: if_splits\<close>)

lemma run_callbacks_twice:
  assumes "Option.bind (parser_callback nodejs_code e ctx) (parser_callback nodejs_code e') = parser_callback nodejs_code e'' ctx"
  shows "run_callbacks nodejs_code (e # e' # es) ctx = run_callbacks nodejs_code (e'' # es) ctx"
  using assms by (auto split: option.split)

lemma join_two_callback:
  assumes "join_two e e' = Some e''" "target_ok (px_header ctx)"
  shows "Option.bind (parser_callback nodejs_code e ctx) (parser_callback nodejs_code e') = parser_callback nodejs_code e'' ctx"
  using assms
  by (cases "(e, e')" rule: join_two.cases)
    (auto simp: header_field_twice header_value_twice body_twice url_twice)

lemma run_join_events:
  "target_ok (px_header ctx) \<Longrightarrow> run_callbacks nodejs_code es ctx = run_callbacks nodejs_code (join_events es) ctx"
proof (induction es arbitrary: ctx)
  case (Cons e es)
  have step: "run_callbacks nodejs_code (e # es) ctx = run_callbacks nodejs_code (e # join_events es) ctx"
    using Cons.IH callback_target_ok [OF _ Cons.prems] by (auto split: option.split)
  show ?case
  proof (cases "join_events es")
    case Nil
    with step show ?thesis by simp
  next
    case (Cons e' es')
    show ?thesis
    proof (cases "join_two e e'")
      case None
      with step Cons show ?thesis by simp
    next
      case (Some e'')
      from step Cons run_callbacks_twice [OF join_two_callback [OF Some Cons.prems]] Some show ?thesis by simp
    qed
  qed
qed simp

lemma target_ok_fresh: "target_ok (px_header (http_parser_ctx nodejs_code limits))"
  by (simp add: http_parser_ctx_def target_ok_def http_request_header_default_def http_header_common_t.defs
      http_request_header_t.defs http_header_common_default_def)

text \<open>
  C12: It does not matter into which pieces the parser cuts the request target, the names and values of the fields
  and the body: a sequence of callbacks ends with the same context, or fails alike, as the sequence with
  neighbouring pieces joined.
\<close>

theorem message_in_pieces:
  "run_callbacks nodejs_code es (http_parser_ctx nodejs_code limits) =
   run_callbacks nodejs_code (join_events es) (http_parser_ctx nodejs_code limits)"
  by (rule run_join_events [OF target_ok_fresh])

section \<open>Limits of a message\<close>

definition field_within :: "incoming_http_msg_limits_t \<Rightarrow> http_header_field_t \<Rightarrow> bool" where
  "field_within lim f \<longleftrightarrow>
     length (m_name f) \<le> unat (lim_max_field_name_size lim) \<and>
     (m_value f = [] \<or> length (m_value f) < unat (lim_max_field_value_size lim))"

text \<open>What holds between the callbacks of one message, before it is complete.\<close>

definition ctx_ok :: "http_parser_ctx_t \<Rightarrow> bool" where
  "ctx_ok ctx \<longleftrightarrow>
     length (m_request_target (px_header ctx)) \<le> unat (lim_max_url_size (px_limits ctx)) \<and>
     length (px_body ctx) \<le> unat (lim_max_body_size (px_limits ctx)) \<and>
     length (all_fields ctx) = px_total_field_count ctx \<and>
     px_total_field_count ctx \<le> unat (lim_max_field_count (px_limits ctx)) \<and>
     list_all (field_within (px_limits ctx)) (all_fields ctx) \<and>
     (\<not> px_last_was_value ctx \<longrightarrow>
        px_total_field_count ctx < unat (lim_max_field_count (px_limits ctx)) \<and>
        length (px_current_field_name ctx) \<le> unat (lim_max_field_name_size (px_limits ctx))) \<and>
     (px_last_was_value ctx \<and> current_fields ctx \<noteq> [] \<longrightarrow>
        length (m_value (last (current_fields ctx))) = px_last_value_total_size ctx) \<and>
     (\<not> px_leading_headers_completed ctx \<longrightarrow> cb_trailing_fields (px_chunked_info_block ctx) = [])"

lemma ctx_ok_fresh: "ctx_ok (http_parser_ctx nodejs_code limits)"
  by (simp add: ctx_ok_def http_parser_ctx_def all_fields_def http_request_header_default_def http_header_common_t.defs
      http_request_header_t.defs http_header_common_default_def chunked_input_info_block_def current_fields_def)

lemma within_limits_alt:
  "within_limits ctx \<longleftrightarrow>
     length (m_request_target (px_header ctx)) \<le> unat (lim_max_url_size (px_limits ctx)) \<and>
     length (all_fields ctx) \<le> unat (lim_max_field_count (px_limits ctx)) \<and>
     list_all (field_within (px_limits ctx)) (all_fields ctx) \<and>
     length (px_body ctx) \<le> unat (lim_max_body_size (px_limits ctx))"
  by (auto simp: within_limits_def Let_def field_within_def list_all_iff)

lemma ctx_ok_within: "ctx_ok ctx \<Longrightarrow> within_limits ctx"
  by (simp add: ctx_ok_def within_limits_alt)

lemma all_fields_set_current:
  assumes "px_leading_headers_completed ctx \<or> cb_trailing_fields (px_chunked_info_block ctx) = []"
  shows "all_fields ctx = (if px_leading_headers_completed ctx then m_fields (px_header ctx) else []) @ current_fields ctx"
    and "all_fields (set_current_fields fs ctx) =
      (if px_leading_headers_completed ctx then m_fields (px_header ctx) else []) @ fs"
  using assms by (auto simp: all_fields_def current_fields_def set_current_fields_def)

lemma trailing_set_current:
  "\<not> px_leading_headers_completed ctx \<Longrightarrow>
   cb_trailing_fields (px_chunked_info_block (set_current_fields fs ctx)) = cb_trailing_fields (px_chunked_info_block ctx)"
  by (simp add: set_current_fields_def)

lemma all_fields_frame [simp]:
  "all_fields (ctx\<lparr>px_current_field_name := n\<rparr>) = all_fields ctx"
  "all_fields (ctx\<lparr>px_last_value_total_size := k\<rparr>) = all_fields ctx"
  "all_fields (ctx\<lparr>px_last_was_value := l\<rparr>) = all_fields ctx"
  "all_fields (ctx\<lparr>px_total_field_count := k\<rparr>) = all_fields ctx"
  "all_fields (ctx\<lparr>px_body := b\<rparr>) = all_fields ctx"
  "all_fields (ctx\<lparr>px_leading_headers_completed := l\<rparr>) = all_fields ctx"
  by (simp_all add: all_fields_def)

lemma header_value_ok:
  assumes "restinio_header_value_cb at ctx = Some ctx'" "ctx_ok ctx"
  shows "ctx_ok ctx' \<and> px_limits ctx' = px_limits ctx"
  using assms(1)
proof (cases rule: header_value_cases)
  case first
  from assms(2) have "px_leading_headers_completed ctx \<or> cb_trailing_fields (px_chunked_info_block ctx) = []"
    by (auto simp: ctx_ok_def)
  with first assms(2) show ?thesis
    by (simp add: ctx_ok_def all_fields_set_current trailing_set_current add_field_name_def http_header_field_name_def
        field_within_def)
next
  case (next_piece fs)
  from assms(2) have "px_leading_headers_completed ctx \<or> cb_trailing_fields (px_chunked_info_block ctx) = []"
    by (auto simp: ctx_ok_def)
  moreover from next_piece(2) have "current_fields ctx \<noteq> []" "fs = butlast (current_fields ctx) @ [append_value at (last (current_fields ctx))]"
    by (auto simp: append_last_field_def split: if_splits)
  moreover from this(1) obtain gs g where "current_fields ctx = gs @ [g]" by (cases "current_fields ctx" rule: rev_cases) auto
  ultimately show ?thesis using next_piece assms(2)
    by (simp add: ctx_ok_def all_fields_set_current trailing_set_current append_value_def field_within_def)
qed

lemma callback_ok:
  assumes "parser_callback nodejs_code e ctx = Some ctx'" "ctx_ok ctx" "\<And>m u k. e \<noteq> On_message_complete m u k"
  shows "ctx_ok ctx' \<and> px_limits ctx' = px_limits ctx"
proof (cases e)
  case (On_url at)
  with assms(1) have "ctx' = ctx\<lparr>px_header := append_request_target at (px_header ctx)\<rparr>"
    and "length (m_request_target (px_header ctx')) \<le> unat (lim_max_url_size (px_limits ctx))"
    by (auto simp: restinio_url_cb_def Let_def split: if_splits)
  with assms(2) show ?thesis
    by (cases "px_leading_headers_completed ctx") (clarsimp simp: ctx_ok_def all_fields_def current_fields_def)+
next
  case (On_header_field at)
  show ?thesis
  proof (cases "px_last_was_value ctx")
    case True
    with assms(1) On_header_field have "ctx' = ctx\<lparr>px_current_field_name := at, px_last_was_value := False\<rparr>"
      "length at \<le> unat (lim_max_field_name_size (px_limits ctx))"
      "px_total_field_count ctx \<noteq> unat (lim_max_field_count (px_limits ctx))"
      by (auto simp: restinio_header_field_cb_def Let_def split: if_splits)
    with assms(2) show ?thesis by (simp add: ctx_ok_def)
  next
    case False
    with assms(1) On_header_field have "ctx' = ctx\<lparr>px_current_field_name := px_current_field_name ctx @ at\<rparr>"
      "length (px_current_field_name ctx @ at) \<le> unat (lim_max_field_name_size (px_limits ctx))"
      by (auto simp: restinio_header_field_cb_def Let_def split: if_splits)
    with assms(2) False show ?thesis by (simp add: ctx_ok_def)
  qed
next
  case (On_header_value at)
  with assms show ?thesis by (auto dest: header_value_ok)
next
  case (On_headers_complete n r)
  with assms have "ctx' = ctx\<lparr>px_leading_headers_completed := True\<rparr>"
    by (auto simp: restinio_headers_complete_cb_def Let_def split: if_splits)
  with assms(2) show ?thesis
    by (cases "px_leading_headers_completed ctx") (clarsimp simp: ctx_ok_def all_fields_def current_fields_def)+
next
  case (On_body at)
  with assms(1) have "ctx' = ctx\<lparr>px_body := px_body ctx @ at\<rparr>"
    and "length (px_body ctx') \<le> unat (lim_max_body_size (px_limits ctx))"
    by (auto simp: restinio_body_cb_def split: if_splits)
  with assms(2) show ?thesis
    by (cases "px_leading_headers_completed ctx") (clarsimp simp: ctx_ok_def current_fields_def)+
next
  case (On_chunk_header n)
  show ?thesis
  proof (cases "n = 0")
    case True
    with assms On_chunk_header show ?thesis by (simp add: restinio_chunk_header_cb_def)
  next
    case False
    with assms(1) On_chunk_header obtain cs where
      "ctx' = ctx\<lparr>px_chunked_info_block := (px_chunked_info_block ctx)\<lparr>cb_chunks := cs\<rparr>\<rparr>"
      by (auto simp: restinio_chunk_header_cb_def Let_def)
    with assms(2) show ?thesis
      by (cases "px_leading_headers_completed ctx") (clarsimp simp: ctx_ok_def all_fields_def current_fields_def)+
  qed
qed (use assms in \<open>auto simp: restinio_chunk_complete_cb_def\<close>)

lemma run_ok:
  "\<lbrakk>run_callbacks nodejs_code es ctx = Some ctx'; ctx_ok ctx; \<And>m u k. On_message_complete m u k \<notin> set es\<rbrakk> \<Longrightarrow>
     ctx_ok ctx' \<and> px_limits ctx' = px_limits ctx"
proof (induction es arbitrary: ctx)
  case (Cons e es)
  then obtain ctx1 where "parser_callback nodejs_code e ctx = Some ctx1" and "run_callbacks nodejs_code es ctx1 = Some ctx'"
    by (auto split: option.splits)
  moreover have "e \<noteq> On_message_complete m u k" "On_message_complete m u k \<notin> set es" for m u k
    using Cons.prems(3) [of m u k] by auto
  ultimately show ?case using callback_ok [of nodejs_code e ctx ctx1] Cons.IH [of ctx1] Cons.prems(2) by simp
qed simp

lemma header_updates [simp]:
  "m_fields (set_should_keep_alive k h) = m_fields h" "m_fields (set_connection c h) = m_fields h"
  "m_request_target (set_should_keep_alive k h) = m_request_target h"
  "m_request_target (set_connection c h) = m_request_target h"
  for h :: http_request_header_t
  by (simp_all add: set_should_keep_alive_def set_connection_def)

lemma message_complete_within:
  assumes "restinio_message_complete_cb nodejs_code m u k ctx = Some ctx'" "ctx_ok ctx"
  shows "within_limits ctx' \<and> px_limits ctx' = px_limits ctx"
  using assms
  by (auto simp: restinio_message_complete_cb_def Let_def ctx_ok_def within_limits_alt all_fields_def field_within_def
      add_field_name_def http_header_field_name_def split: if_splits)

lemma run_callbacks_append:
  "run_callbacks nodejs_code (es @ es') ctx =
   (case run_callbacks nodejs_code es ctx of None \<Rightarrow> None | Some c \<Rightarrow> run_callbacks nodejs_code es' c)"
  by (induction es arbitrary: ctx) (auto split: option.split)

text \<open>
  C13: A message that the callbacks accepted is within the limits of the connection: the request target, the number of
  leading and trailing fields together, every name, every value and the body. A value is even shorter than the
  limit, or empty.
\<close>

theorem message_within_limits:
  assumes "run_callbacks nodejs_code (es @ [On_message_complete meth upgrade keep_alive])
             (http_parser_ctx nodejs_code limits) = Some ctx"
    and "\<And>m u k. On_message_complete m u k \<notin> set es"
  shows "within_limits ctx \<and> px_limits ctx = limits \<and> px_message_complete ctx"
proof -
  from assms(1) obtain c where run: "run_callbacks nodejs_code es (http_parser_ctx nodejs_code limits) = Some c"
    and fin: "restinio_message_complete_cb nodejs_code meth upgrade keep_alive c = Some ctx"
    by (auto simp: run_callbacks_append split: option.splits)
  from run_ok [OF run ctx_ok_fresh assms(2)] have c: "ctx_ok c" and "px_limits c = limits"
    by (simp_all add: http_parser_ctx_def)
  moreover from fin have "px_message_complete ctx"
    by (auto simp: restinio_message_complete_cb_def Let_def)
  ultimately show ?thesis using message_complete_within [OF fin c] by simp
qed

text \<open>
  Witness: a chunked request with a trailing field, under limits it just meets.
\<close>

definition small_limits :: incoming_http_msg_limits_t where
  "small_limits = \<lparr>lim_max_url_size = 2, lim_max_field_name_size = 3, lim_max_field_value_size = 4,
     lim_max_field_count = 2, lim_max_body_size = 3\<rparr>"

definition small_events :: "parser_event list" where
  "small_events = [On_url ''/'', On_url ''a'', On_header_field ''abc'', On_header_value ''x'', On_header_value ''yz'',
     On_headers_complete (- 1) True, On_chunk_header 3, On_body ''ab'', On_body ''c'', On_chunk_complete,
     On_chunk_header 0, On_header_field ''t'']"

lemma small_events_accepted:
  "run_callbacks (\<lambda>_. 0) (small_events @ [On_message_complete 0 False True]) (http_parser_ctx (\<lambda>_. 0) small_limits) \<noteq> None"
  by (simp add: small_events_def small_limits_def http_parser_ctx_def callback_defs restinio_header_value_cb_def Let_def
      current_fields_def set_current_fields_def append_request_target_def append_last_field_def add_field_name_def
      http_request_header_default_def http_header_common_t.defs http_request_header_t.defs http_header_common_default_def)

theorem message_within_limits_witness:
  "within_limits (the (run_callbacks (\<lambda>_. 0) (small_events @ [On_message_complete 0 False True])
     (http_parser_ctx (\<lambda>_. 0) small_limits)))"
proof -
  have "On_message_complete m u k \<notin> set small_events" for m u k by (simp add: small_events_def)
  moreover obtain ctx where "run_callbacks (\<lambda>_. 0) (small_events @ [On_message_complete 0 False True])
     (http_parser_ctx (\<lambda>_. 0) small_limits) = Some ctx"
    using small_events_accepted by blast
  ultimately show ?thesis using message_within_limits [of "\<lambda>_. 0" small_events 0 False True small_limits ctx] by simp
qed

section \<open>Chunks\<close>

lemma run_bodies:
  "run_callbacks nodejs_code (map On_body ps) ctx = Some ctx' \<Longrightarrow> ctx' = ctx\<lparr>px_body := px_body ctx @ concat ps\<rparr>"
proof (induction ps arbitrary: ctx)
  case (Cons a ps)
  then have "run_callbacks nodejs_code (map On_body ps) (ctx\<lparr>px_body := px_body ctx @ a\<rparr>) = Some ctx'"
    by (auto simp: restinio_body_cb_def split: if_splits)
  from Cons.IH [OF this] show ?case by simp
qed simp

lemma run_chunk:
  assumes "run_callbacks nodejs_code (chunk_events ps) ctx = Some ctx'"
    and "concat ps \<noteq> []" "length (concat ps) < 2 ^ 64"
  shows "px_body ctx' = px_body ctx @ concat ps \<and>
    cb_chunks (px_chunked_info_block ctx') =
      cb_chunks (px_chunked_info_block ctx) @ [\<lparr>ci_started_at = length (px_body ctx), ci_size = length (concat ps)\<rparr>]"
proof -
  let ?n = "of_nat (length (concat ps)) :: u64"
  have n: "unat ?n = length (concat ps)" using assms(3) by (simp add: unat_of_nat take_bit_nat_eq_self)
  then have "?n \<noteq> 0" using assms(2) by (metis length_0_conv unat_0)
  then show ?thesis using assms(1) n
    by (auto simp: chunk_events_def run_callbacks_append restinio_chunk_header_cb_def restinio_chunk_complete_cb_def Let_def
        split: option.splits dest!: run_bodies)
qed

lemma run_chunks:
  assumes "run_callbacks nodejs_code (concat (map chunk_events cs)) ctx = Some ctx'"
    and "\<forall>ps\<in>set cs. concat ps \<noteq> []" "length (px_body ctx) + length (concat (map concat cs)) < 2 ^ 64"
  shows "px_body ctx' = px_body ctx @ concat (map concat cs) \<and>
    (\<exists>new. cb_chunks (px_chunked_info_block ctx') = cb_chunks (px_chunked_info_block ctx) @ new \<and>
           map (make_string_view (px_body ctx')) new = map (Inr \<circ> concat) cs)"
  using assms
proof (induction cs arbitrary: ctx)
  case (Cons ps cs)
  then obtain ctx1 where 1: "run_callbacks nodejs_code (chunk_events ps) ctx = Some ctx1"
    and 2: "run_callbacks nodejs_code (concat (map chunk_events cs)) ctx1 = Some ctx'"
    by (auto simp: run_callbacks_append split: option.splits)
  let ?c = "\<lparr>ci_started_at = length (px_body ctx), ci_size = length (concat ps)\<rparr>"
  have small: "length (px_body ctx) + length (concat ps) < 2 ^ 64"
    and rest: "length (px_body ctx) + length (concat ps) + length (concat (map concat cs)) < 2 ^ 64"
    using Cons.prems(3) by simp_all
  from run_chunk [OF 1] Cons.prems(2) small have body1: "px_body ctx1 = px_body ctx @ concat ps"
    and chunks1: "cb_chunks (px_chunked_info_block ctx1) = cb_chunks (px_chunked_info_block ctx) @ [?c]" by simp_all
  from Cons.IH [OF 2] Cons.prems(2) rest body1 obtain new where body': "px_body ctx' = px_body ctx1 @ concat (map concat cs)"
    and new: "cb_chunks (px_chunked_info_block ctx') = cb_chunks (px_chunked_info_block ctx1) @ new"
      "map (make_string_view (px_body ctx')) new = map (Inr \<circ> concat) cs" by auto
  have "0 < length (concat ps)" using Cons.prems(2) by simp
  then have "make_string_view (px_body ctx') ?c = Inr (concat ps)"
    using small unfolding body' body1 make_string_view_def make_string_view_nonchecked_def by simp
  with new chunks1 body' body1 show ?case by simp
qed simp

lemma callback_no_body:
  assumes "parser_callback nodejs_code e ctx = Some ctx'" "\<And>b. e \<noteq> On_body b" "\<And>n. e \<noteq> On_chunk_header n"
  shows "px_body ctx' = px_body ctx \<and> cb_chunks (px_chunked_info_block ctx') = cb_chunks (px_chunked_info_block ctx)"
proof (cases e)
  case (On_header_value at)
  with assms show ?thesis by (auto elim!: header_value_cases simp: set_current_fields_def)
qed (use assms in \<open>auto simp: callback_defs Let_def split: if_splits\<close>)

lemma run_no_body:
  assumes "run_callbacks nodejs_code es ctx = Some ctx'"
    and "\<And>b. On_body b \<notin> set es" "\<And>n. On_chunk_header n \<notin> set es"
  shows "px_body ctx' = px_body ctx \<and> cb_chunks (px_chunked_info_block ctx') = cb_chunks (px_chunked_info_block ctx)"
  using assms
proof (induction es arbitrary: ctx)
  case (Cons e es)
  then obtain ctx1 where "parser_callback nodejs_code e ctx = Some ctx1" "run_callbacks nodejs_code es ctx1 = Some ctx'"
    by (auto split: option.splits)
  moreover have "e \<noteq> On_body b" "On_body b \<notin> set es" "e \<noteq> On_chunk_header n" "On_chunk_header n \<notin> set es" for b n
    using Cons.prems(2) [of b] Cons.prems(3) [of n] by auto
  ultimately show ?case using callback_no_body [of nodejs_code e ctx ctx1] Cons.IH [of ctx1] by simp
qed simp

text \<open>
  C34: After a chunked body has been received, the description of the chunks cuts the body exactly where the chunks of
  the sender were: the view of every chunk is in bounds and is what the sender put into that chunk.
\<close>

theorem chunks_of_the_sender:
  assumes "run_callbacks nodejs_code (es @ concat (map chunk_events cs)) (http_parser_ctx nodejs_code limits) = Some ctx"
    and "\<And>b. On_body b \<notin> set es" "\<And>n. On_chunk_header n \<notin> set es"
    and "\<forall>ps\<in>set cs. concat ps \<noteq> []" "length (concat (map concat cs)) < 2 ^ 64"
  shows "px_body ctx = concat (map concat cs) \<and>
    map (make_string_view (px_body ctx)) (cb_chunks (px_chunked_info_block ctx)) = map (Inr \<circ> concat) cs"
proof -
  from assms(1) obtain c where head: "run_callbacks nodejs_code es (http_parser_ctx nodejs_code limits) = Some c"
    and tail: "run_callbacks nodejs_code (concat (map chunk_events cs)) c = Some ctx"
    by (auto simp: run_callbacks_append split: option.splits)
  from run_no_body [OF head assms(2,3)] have "px_body c = []" "cb_chunks (px_chunked_info_block c) = []"
    by (simp_all add: http_parser_ctx_def chunked_input_info_block_def)
  with run_chunks [OF tail assms(4)] assms(5) show ?thesis by auto
qed

theorem chunks_of_the_sender_witness:
  "px_body (the (run_callbacks (\<lambda>_. 0) ([On_url ''/'', On_headers_complete (- 1) True] @
       concat (map chunk_events [[''a'', ''b''], [''c'']])) (http_parser_ctx (\<lambda>_. 0) small_limits))) = ''abc''"
proof -
  have "run_callbacks (\<lambda>_. 0) ([On_url ''/'', On_headers_complete (- 1) True] @
       concat (map chunk_events [[''a'', ''b''], [''c'']])) (http_parser_ctx (\<lambda>_. 0) small_limits) \<noteq> None"
    by (simp add: small_limits_def http_parser_ctx_def callback_defs Let_def chunk_events_def append_request_target_def
        http_request_header_default_def http_header_common_t.defs http_request_header_t.defs http_header_common_default_def)
  then obtain ctx where run: "run_callbacks (\<lambda>_. 0) ([On_url ''/'', On_headers_complete (- 1) True] @
       concat (map chunk_events [[''a'', ''b''], [''c'']])) (http_parser_ctx (\<lambda>_. 0) small_limits) = Some ctx"
    by blast
  from chunks_of_the_sender [OF run] show ?thesis unfolding run by simp
qed

end
