(* ===== verification/Write_Output.thy ===== *)
theory Write_Output
  imports Buffers
begin

text \<open>
  \<^verbatim>\<open>restinio/impl/write_group_output_ctx.hpp\<close>: how a write group is cut into write operations on the socket.

  Buffers handed to the socket are the bytes they show. A callback after writing is user code and may
  throw: the argument \<open>throws\<close> says for which call it does. Calls that need a current
  group are undefined without one, and have no result then.

  Shown: the operations taken from a group carry exactly the items of the group, each once and in order; an operation
  on buffers has between 1 and 64 of them; and a group owes its callback exactly one call, made
  with the status of the write, whether it ends well or not and whether or not the callback throws.
\<close>

section \<open>Definitions\<close>

record write_group_output_ctx_t =
  m_current_wg :: "write_group_t option"
  m_next_writable_item_index :: nat
  m_asio_bufs :: "string list"
  m_sendfile_operation :: "sendfile_t option"

text \<open>The number of buffers the system takes at once is at least 64 on every platform of Asio with gather writes.\<close>

definition max_iov_len :: "nat \<Rightarrow> nat" where
  "max_iov_len asio_max_iov_len = min asio_max_iov_len 64"

definition write_group_output_ctx :: write_group_output_ctx_t where
  "write_group_output_ctx =
     \<lparr>m_current_wg = None, m_next_writable_item_index = 0, m_asio_bufs = [], m_sendfile_operation = None\<rparr>"

datatype solid_write_operation_variant_t =
    None_write_operation
  | Trivial_buffers "string list" nat
  | File_operation sendfile_t

datatype output_error = After_write_callback_failed

definition transmitting :: "write_group_output_ctx_t \<Rightarrow> bool" where
  "transmitting ctx \<longleftrightarrow> m_current_wg ctx \<noteq> None"

text \<open>A group that is replaced is destroyed.\<close>

definition start_next_write_group ::
    "write_group_t option \<Rightarrow> write_group_output_ctx_t \<Rightarrow> notification list \<times> write_group_output_ctx_t" where
  "start_next_write_group next_wg ctx =
     (case m_current_wg ctx of None \<Rightarrow> [] | Some wg \<Rightarrow> destroy_write_group wg, ctx\<lparr>m_current_wg := next_wg\<rparr>)"

text \<open>The loop over the items, on the items that are left.\<close>

fun trivial_loop :: "nat \<Rightarrow> writable_item_t list \<Rightarrow> nat \<Rightarrow> string list \<Rightarrow> nat \<Rightarrow> (nat \<times> string list \<times> nat) option" where
  "trivial_loop max_len [] index bufs total_size = Some (index, bufs, total_size)"
| "trivial_loop max_len (item # items) index bufs total_size =
     (if Trivial_write_operation = write_type item \<and> length bufs < max_len
      then (case item_buf item of
              None \<Rightarrow> None
            | Some b \<Rightarrow> trivial_loop max_len items (index + 1) (bufs @ [b]) (total_size + item_size item))
      else Some (index, bufs, total_size))"

definition prepare_trivial_buffers_wo ::
    "nat \<Rightarrow> write_group_t \<Rightarrow> write_group_output_ctx_t \<Rightarrow>
       (solid_write_operation_variant_t \<times> write_group_output_ctx_t) option" where
  "prepare_trivial_buffers_wo max_len wg ctx =
     (case trivial_loop max_len (drop (m_next_writable_item_index ctx) (m_items wg)) (m_next_writable_item_index ctx) [] 0 of
        None \<Rightarrow> None
      | Some (index, bufs, total_size) \<Rightarrow>
          Some (Trivial_buffers bufs total_size, ctx\<lparr>m_asio_bufs := bufs, m_next_writable_item_index := index\<rparr>))"

definition prepare_sendfile_wo ::
    "write_group_t \<Rightarrow> write_group_output_ctx_t \<Rightarrow> (solid_write_operation_variant_t \<times> write_group_output_ctx_t) option" where
  "prepare_sendfile_wo wg ctx =
     (case m_items wg ! m_next_writable_item_index ctx of
        Sendfile_write_operation sf \<Rightarrow>
          Some (File_operation sf, ctx\<lparr>m_next_writable_item_index := m_next_writable_item_index ctx + 1\<rparr>)
      | _ \<Rightarrow> None)"

definition extract_next_write_operation ::
    "nat \<Rightarrow> write_group_output_ctx_t \<Rightarrow> (solid_write_operation_variant_t \<times> write_group_output_ctx_t) option" where
  "extract_next_write_operation max_len ctx =
     (case m_current_wg ctx of
        None \<Rightarrow> None
      | Some wg \<Rightarrow>
          (if m_next_writable_item_index ctx < length (m_items wg) then
             (let next_wi_type = write_type (m_items wg ! m_next_writable_item_index ctx)
              in if Trivial_write_operation = next_wi_type then prepare_trivial_buffers_wo max_len wg ctx
                 else prepare_sendfile_wo wg ctx)
           else Some (None_write_operation, ctx)))"

definition reset_write_group :: "write_group_output_ctx_t \<Rightarrow> notification list \<times> write_group_output_ctx_t" where
  "reset_write_group ctx =
     (case m_current_wg ctx of None \<Rightarrow> [] | Some wg \<Rightarrow> destroy_write_group wg,
      ctx\<lparr>m_current_wg := None, m_next_writable_item_index := 0\<rparr>)"

definition invoke_after_write_notificator_if_necessary ::
    "(notification \<Rightarrow> bool) \<Rightarrow> write_status \<Rightarrow> write_group_output_ctx_t \<Rightarrow>
       (notification list \<times> output_error option \<times> write_group_output_ctx_t) option" where
  "invoke_after_write_notificator_if_necessary throws ec ctx =
     (case m_current_wg ctx of
        None \<Rightarrow> None
      | Some wg \<Rightarrow>
          (let (called, wg) = invoke_after_write_notificator_if_exists ec wg;
               ctx = ctx\<lparr>m_current_wg := Some wg\<rparr>
           in if list_ex throws called
              then (let (more, ctx) = reset_write_group ctx
                    in Some (called @ more, Some After_write_callback_failed, ctx))
              else Some (called, None, ctx)))"

definition fail_write_group ::
    "(notification \<Rightarrow> bool) \<Rightarrow> write_status \<Rightarrow> write_group_output_ctx_t \<Rightarrow>
       (notification list \<times> output_error option \<times> write_group_output_ctx_t) option" where
  "fail_write_group throws ec ctx =
     (case invoke_after_write_notificator_if_necessary throws ec ctx of
        None \<Rightarrow> None
      | Some (called, Some e, ctx) \<Rightarrow> Some (called, Some e, ctx)
      | Some (called, None, ctx) \<Rightarrow>
          Some (called @ (case m_current_wg ctx of None \<Rightarrow> [] | Some wg \<Rightarrow> destroy_write_group wg), None,
                ctx\<lparr>m_current_wg := None, m_sendfile_operation := None\<rparr>))"

definition finish_write_group ::
    "(notification \<Rightarrow> bool) \<Rightarrow> write_group_output_ctx_t \<Rightarrow>
       (notification list \<times> output_error option \<times> write_group_output_ctx_t) option" where
  "finish_write_group throws ctx =
     (case invoke_after_write_notificator_if_necessary throws Write_ok ctx of
        None \<Rightarrow> None
      | Some (called, Some e, ctx) \<Rightarrow> Some (called, Some e, ctx)
      | Some (called, None, ctx) \<Rightarrow> (let (more, ctx) = reset_write_group ctx in Some (called @ more, None, ctx)))"

datatype start_sendfile_error = Invalid_file_descriptor_in_operation

definition start_sendfile_operation ::
    "sendfile_t \<Rightarrow> write_group_output_ctx_t \<Rightarrow> start_sendfile_error + write_group_output_ctx_t" where
  "start_sendfile_operation sf ctx =
     (if \<not> sendfile_is_valid sf then Inl Invalid_file_descriptor_in_operation
      else Inr (ctx\<lparr>m_sendfile_operation := Some sf\<rparr>))"

definition file_write_operation_reset :: "write_group_output_ctx_t \<Rightarrow> write_group_output_ctx_t" where
  "file_write_operation_reset ctx = ctx\<lparr>m_sendfile_operation := None\<rparr>"

text \<open>
  What an item and an operation put on the wire: bytes, or a range of a file. The loop of the usage
  scenario in the comment on the class takes the operations of a group until there are none; at most as
  many rounds are needed as there are items, and one more.
\<close>

datatype piece = Bytes string | File_range sendfile_t

fun item_piece :: "writable_item_t \<Rightarrow> piece" where
  "item_piece Empty_buf = Bytes []"
| "item_piece (Const_buf s) = Bytes s"
| "item_piece (Datasizeable_buf s) = Bytes s"
| "item_piece (Shared_datasizeable_buf s) = Bytes s"
| "item_piece (Sendfile_write_operation sf) = File_range sf"

fun operation_pieces :: "solid_write_operation_variant_t \<Rightarrow> piece list" where
  "operation_pieces None_write_operation = []"
| "operation_pieces (Trivial_buffers bufs total_size) = map Bytes bufs"
| "operation_pieces (File_operation sf) = [File_range sf]"

fun write_operations ::
    "nat \<Rightarrow> nat \<Rightarrow> write_group_output_ctx_t \<Rightarrow> (solid_write_operation_variant_t list \<times> write_group_output_ctx_t) option" where
  "write_operations max_len 0 ctx = None"
| "write_operations max_len (Suc rounds) ctx =
     (case extract_next_write_operation max_len ctx of
        None \<Rightarrow> None
      | Some (None_write_operation, ctx) \<Rightarrow> Some ([], ctx)
      | Some (wo, ctx) \<Rightarrow> map_option (\<lambda>(wos, ctx). (wo # wos, ctx)) (write_operations max_len rounds ctx))"

section \<open>The operations of a group\<close>

lemma item_buf_trivial: "write_type item = Trivial_write_operation \<longleftrightarrow> (\<exists>b. item_buf item = Some b)"
  by (cases item) (simp_all add: write_type_def item_buf_def)

lemma item_buf_piece: "item_buf item = Some b \<Longrightarrow> item_piece item = Bytes b \<and> item_size item = length b"
  by (cases item) (simp_all add: item_buf_def item_size_def)

lemma trivial_loop_takes:
  assumes "length bufs \<le> max_len"
  shows "\<exists>bs. trivial_loop max_len items index bufs total_size =
           Some (index + length bs, bufs @ bs, total_size + length (concat bs)) \<and>
         length bs \<le> length items \<and> map Bytes bs = map item_piece (take (length bs) items) \<and>
         length bufs + length bs \<le> max_len \<and>
         (items \<noteq> [] \<and> write_type (hd items) = Trivial_write_operation \<and> length bufs < max_len \<longrightarrow> bs \<noteq> [])"
  using assms
proof (induction items arbitrary: index bufs total_size)
  case (Cons item items)
  show ?case
  proof (cases "Trivial_write_operation = write_type item \<and> length bufs < max_len")
    case True
    then obtain b where b: "item_buf item = Some b" using item_buf_trivial by metis
    have "length (bufs @ [b]) \<le> max_len" using True by simp
    from Cons.IH [OF this, of "index + 1" "total_size + item_size item"] obtain bs where bs:
      "trivial_loop max_len items (index + 1) (bufs @ [b]) (total_size + item_size item) =
         Some (index + 1 + length bs, (bufs @ [b]) @ bs, total_size + item_size item + length (concat bs))"
      "length bs \<le> length items" "map Bytes bs = map item_piece (take (length bs) items)"
      "length (bufs @ [b]) + length bs \<le> max_len" by blast
    with True b item_buf_piece [OF b] show ?thesis by (intro exI [of _ "b # bs"]) simp
  next
    case False
    with Cons.prems show ?thesis by (intro exI [of _ "[]"]) auto
  qed
qed simp

text \<open>What is still to be written.\<close>

definition rest_pieces :: "write_group_output_ctx_t \<Rightarrow> piece list" where
  "rest_pieces ctx =
     (case m_current_wg ctx of None \<Rightarrow> [] | Some wg \<Rightarrow> map item_piece (drop (m_next_writable_item_index ctx) (m_items wg)))"

definition operation_ok :: "nat \<Rightarrow> solid_write_operation_variant_t \<Rightarrow> bool" where
  "operation_ok max_len wo =
     (case wo of
        Trivial_buffers bufs total_size \<Rightarrow> bufs \<noteq> [] \<and> length bufs \<le> max_len \<and> total_size = length (concat bufs)
      | _ \<Rightarrow> True)"

lemma extract_takes:
  assumes "m_current_wg ctx = Some wg" "0 < max_len"
  obtains wo ctx' where "extract_next_write_operation max_len ctx = Some (wo, ctx')"
    and "rest_pieces ctx = operation_pieces wo @ rest_pieces ctx'"
    and "m_current_wg ctx' = Some wg" "operation_ok max_len wo"
    and "wo = None_write_operation \<longleftrightarrow> rest_pieces ctx = []"
    and "wo \<noteq> None_write_operation \<Longrightarrow> length (rest_pieces ctx') < length (rest_pieces ctx)"
proof (cases "m_next_writable_item_index ctx < length (m_items wg)")
  case False
  with assms that [of None_write_operation ctx] show ?thesis
    by (simp add: extract_next_write_operation_def rest_pieces_def operation_ok_def)
next
  case index: True
  let ?i = "m_next_writable_item_index ctx" and ?items = "drop (m_next_writable_item_index ctx) (m_items wg)"
  have items: "?items \<noteq> []" "hd ?items = m_items wg ! ?i" "?items = m_items wg ! ?i # drop (Suc ?i) (m_items wg)"
    using index by (simp_all add: hd_drop_conv_nth Cons_nth_drop_Suc)
  show ?thesis
  proof (cases "write_type (m_items wg ! ?i) = Trivial_write_operation")
    case True
    from trivial_loop_takes [of "[]" max_len ?items ?i 0] items True assms(2) obtain bs where bs:
      "trivial_loop max_len ?items ?i [] 0 = Some (?i + length bs, bs, length (concat bs))"
      "length bs \<le> length ?items" "map Bytes bs = map item_piece (take (length bs) ?items)"
      "length bs \<le> max_len" "bs \<noteq> []" by auto
    let ?ctx' = "ctx\<lparr>m_asio_bufs := bs, m_next_writable_item_index := ?i + length bs\<rparr>"
    have "extract_next_write_operation max_len ctx = Some (Trivial_buffers bs (length (concat bs)), ?ctx')"
      using assms True index bs(1) by (simp add: extract_next_write_operation_def prepare_trivial_buffers_wo_def)
    moreover have "map item_piece ?items = map Bytes bs @ map item_piece (drop (length bs) ?items)"
      unfolding bs(3) by (metis append_take_drop_id map_append)
    moreover have "0 < length bs" using bs(5) by simp
    ultimately show ?thesis using assms(1) bs index
      by (intro that [of "Trivial_buffers bs (length (concat bs))" ?ctx'])
        (auto simp: rest_pieces_def operation_ok_def add.commute simp del: length_greater_0_conv)
  next
    case False
    then obtain sf where sf: "m_items wg ! ?i = Sendfile_write_operation sf"
      by (cases "m_items wg ! ?i") (auto simp: write_type_def)
    let ?ctx' = "ctx\<lparr>m_next_writable_item_index := ?i + 1\<rparr>"
    have "extract_next_write_operation max_len ctx = Some (File_operation sf, ?ctx')"
      using assms False index sf by (auto simp: extract_next_write_operation_def prepare_sendfile_wo_def)
    then show ?thesis using assms(1) items(3) sf index
      by (intro that [of "File_operation sf" ?ctx']) (auto simp: rest_pieces_def operation_ok_def)
  qed
qed

lemma write_operations_take:
  assumes "m_current_wg ctx = Some wg" "0 < max_len" "length (rest_pieces ctx) < rounds"
  shows "\<exists>wos ctx'. write_operations max_len rounds ctx = Some (wos, ctx') \<and> m_current_wg ctx' = Some wg \<and>
    concat (map operation_pieces wos) = rest_pieces ctx \<and> list_all (operation_ok max_len) wos"
  using assms
proof (induction rounds arbitrary: ctx)
  case (Suc rounds)
  obtain wo ctx1 where step: "extract_next_write_operation max_len ctx = Some (wo, ctx1)"
    and pieces: "rest_pieces ctx = operation_pieces wo @ rest_pieces ctx1"
    and wg: "m_current_wg ctx1 = Some wg" and ok: "operation_ok max_len wo"
    and none: "wo = None_write_operation \<longleftrightarrow> rest_pieces ctx = []"
    and less: "wo \<noteq> None_write_operation \<Longrightarrow> length (rest_pieces ctx1) < length (rest_pieces ctx)"
    using extract_takes [OF Suc.prems(1,2)] by metis
  show ?case
  proof (cases "wo = None_write_operation")
    case True
    with step wg none show ?thesis by simp
  next
    case False
    with less Suc.prems(3) have "length (rest_pieces ctx1) < rounds" by simp
    from Suc.IH [OF wg Suc.prems(2) this] obtain wos ctx' where
      "write_operations max_len rounds ctx1 = Some (wos, ctx')" "m_current_wg ctx' = Some wg"
      "concat (map operation_pieces wos) = rest_pieces ctx1" "list_all (operation_ok max_len) wos" by blast
    with False step pieces ok show ?thesis
      by (intro exI [of _ "wo # wos"] exI [of _ ctx']) (cases wo; simp)
  qed
qed simp

text \<open>
  C14: Taking write operations from a group until there are none ends, and the operations together carry exactly
  the items of the group, each once and in their order. An operation on buffers has at least one and at
  most 64 buffers, and its size is the number of their bytes.
\<close>

theorem operations_cover_group:
  assumes "\<not> transmitting ctx" "m_next_writable_item_index ctx = 0" "0 < asio_max_iov_len"
  shows "\<exists>wos ctx'. write_operations (max_iov_len asio_max_iov_len) (length (m_items wg) + 1)
             (snd (start_next_write_group (Some wg) ctx)) = Some (wos, ctx') \<and>
           concat (map operation_pieces wos) = map item_piece (m_items wg) \<and>
           list_all (operation_ok (max_iov_len asio_max_iov_len)) wos \<and> max_iov_len asio_max_iov_len \<le> 64 \<and>
           m_current_wg ctx' = Some wg"
proof -
  let ?ctx = "snd (start_next_write_group (Some wg) ctx)"
  have "m_current_wg ?ctx = Some wg" "rest_pieces ?ctx = map item_piece (m_items wg)"
    using assms(2) by (simp_all add: start_next_write_group_def rest_pieces_def)
  moreover have "0 < max_iov_len asio_max_iov_len" "max_iov_len asio_max_iov_len \<le> 64"
    using assms(3) by (simp_all add: max_iov_len_def)
  ultimately show ?thesis using write_operations_take [of ?ctx wg "max_iov_len asio_max_iov_len" "length (m_items wg) + 1"]
    by auto
qed

theorem operations_cover_group_witness:
  "\<exists>wos ctx'. write_operations (max_iov_len 16) 3
     (snd (start_next_write_group (Some (write_group [Const_buf ''ab'', Empty_buf])) write_group_output_ctx)) = Some (wos, ctx')"
proof -
  have "\<not> transmitting write_group_output_ctx" "m_next_writable_item_index write_group_output_ctx = 0"
    "length (m_items (write_group [Const_buf ''ab'', Empty_buf])) + 1 = 3"
    by (simp_all add: transmitting_def write_group_output_ctx_def write_group_def)
  with operations_cover_group [of write_group_output_ctx 16 "write_group [Const_buf ''ab'', Empty_buf]"]
  show ?thesis by (metis zero_less_numeral)
qed

section \<open>The callback of a group\<close>

lemma destroy_invoked: "destroy_write_group (snd (invoke_after_write_notificator_if_exists ec wg)) = []"
  by (simp add: destroyed_pending invoke_after_write_notificator_if_exists_def pending_def split: option.split)

lemma invoke_outcome:
  assumes "m_current_wg ctx = Some wg"
  shows "\<exists>err ctx'. invoke_after_write_notificator_if_necessary throws ec ctx = Some (map (\<lambda>cb. (cb, ec)) (pending wg), err, ctx') \<and>
    (err \<noteq> None \<longleftrightarrow> list_ex throws (map (\<lambda>cb. (cb, ec)) (pending wg))) \<and>
    (err \<noteq> None \<longrightarrow> m_current_wg ctx' = None \<and> m_next_writable_item_index ctx' = 0) \<and>
    (err = None \<longrightarrow> m_current_wg ctx' = Some (snd (invoke_after_write_notificator_if_exists ec wg)))"
  using assms invoked_pending [of ec wg] destroy_invoked [of ec wg]
  by (cases "invoke_after_write_notificator_if_exists ec wg")
    (auto simp: invoke_after_write_notificator_if_necessary_def reset_write_group_def Let_def)

lemma fail_outcome:
  assumes "m_current_wg ctx = Some wg"
  shows "\<exists>ctx'. fail_write_group throws ec ctx =
           Some (map (\<lambda>cb. (cb, ec)) (pending wg),
                 (if list_ex throws (map (\<lambda>cb. (cb, ec)) (pending wg)) then Some After_write_callback_failed else None), ctx') \<and>
           \<not> transmitting ctx'"
proof -
  have "e = After_write_callback_failed" for e by (cases e) simp
  then show ?thesis
    using invoke_outcome [OF assms, of throws ec] destroy_invoked [of ec wg]
    by (auto simp: fail_write_group_def transmitting_def split: option.splits)
qed

lemma finish_outcome:
  assumes "m_current_wg ctx = Some wg"
  shows "\<exists>ctx'. finish_write_group throws ctx =
           Some (map (\<lambda>cb. (cb, Write_ok)) (pending wg),
                 (if list_ex throws (map (\<lambda>cb. (cb, Write_ok)) (pending wg)) then Some After_write_callback_failed else None), ctx') \<and>
           \<not> transmitting ctx' \<and> m_next_writable_item_index ctx' = 0"
proof -
  have "e = After_write_callback_failed" for e by (cases e) simp
  then show ?thesis
    using invoke_outcome [OF assms, of throws Write_ok] destroy_invoked [of Write_ok wg]
    by (auto simp: finish_write_group_def reset_write_group_def transmitting_def split: option.splits)
qed

text \<open>
  Finishing a group or giving it up calls the callback of the group, if it has one, exactly once and with the
  status of the write, whether the callback throws or not; the error is reported exactly when it throws,
  and in every case the context no longer transmits.
\<close>

theorem group_ends_with_one_call:
  assumes "m_current_wg ctx = Some wg"
  shows "(\<exists>ctx'. fail_write_group throws ec ctx =
             Some (map (\<lambda>cb. (cb, ec)) (pending wg),
                   (if list_ex throws (map (\<lambda>cb. (cb, ec)) (pending wg)) then Some After_write_callback_failed else None), ctx') \<and>
             \<not> transmitting ctx') \<and>
         (\<exists>ctx'. finish_write_group throws ctx =
             Some (map (\<lambda>cb. (cb, Write_ok)) (pending wg),
                   (if list_ex throws (map (\<lambda>cb. (cb, Write_ok)) (pending wg)) then Some After_write_callback_failed else None), ctx') \<and>
             \<not> transmitting ctx' \<and> m_next_writable_item_index ctx' = 0)"
  using fail_outcome [OF assms] finish_outcome [OF assms] by blast

theorem group_ends_with_one_call_witness:
  "\<exists>ctx'. finish_write_group (\<lambda>_. True)
     (snd (start_next_write_group (Some (set_after_write_notificator 7 (write_group []))) write_group_output_ctx)) =
       Some ([(7, Write_ok)], Some After_write_callback_failed, ctx') \<and> \<not> transmitting ctx'"
proof -
  let ?wg = "set_after_write_notificator 7 (write_group [])"
  let ?ctx = "snd (start_next_write_group (Some ?wg) write_group_output_ctx)"
  have "m_current_wg ?ctx = Some ?wg" by (simp add: start_next_write_group_def)
  moreover have "pending ?wg = [7]" by (simp add: pending_def set_after_write_notificator_def)
  ultimately show ?thesis using group_ends_with_one_call [of ?ctx ?wg "\<lambda>_. True" Write_ok] by auto
qed

end
