(* ===== verification/Connection.thy ===== *)
theory Connection
  imports Http_Parser_Ctx Write_Output Response_Builder "HOL-Library.Multiset"
begin

text \<open>
  One HTTP connection: \<^verbatim>\<open>connection_t\<close> of \<^verbatim>\<open>restinio/impl/connection.hpp\<close> with the input buffer of
  \<^verbatim>\<open>restinio/impl/fixed_buffer.hpp\<close>.

  The state of a connection is a record with the members of the class. What the connection asks the socket, the
  request handler, the callbacks and the state listener to do is recorded in \<open>c_trace\<close>, and every operation of the
  response coordinator in \<open>c_history\<close>; these two, the clock, and what says whether a write is running and is a file,
  exist only in the model.

  The methods of the class call each other in a cycle: a request that is already in the buffer is
  handled inside the call that finished the response before it. Every method is a definition that takes the methods it calls
  in the cycle as the argument \<open>call\<close>; \<open>exec\<close> ties the knot with a bound on
  the depth of the calls. An exception is the result \<open>Raised\<close>, with the state at the point where it was thrown.

  Not in the sources, so arguments of the model (the record \<open>env\<close>): the HTTP parser, the request handler, the time
  limits, whether a callback throws. A request handler is given by what it does during its call
  (send parts of a response, take the socket for another protocol) and what it returns; which it does may depend on the number of
  calls before. Messages to the logger are left out, and assertions too, as in a release build.
\<close>

section \<open>Definitions\<close>

subsection \<open>The input buffer\<close>

record fixed_buffer_t =
  fb_buf :: string
  fb_ready_pos :: nat
  fb_ready_length :: nat

definition fixed_buffer :: "nat \<Rightarrow> fixed_buffer_t" where
  "fixed_buffer n = \<lparr>fb_buf = replicate n (CHR 0x00), fb_ready_pos = 0, fb_ready_length = 0\<rparr>"

text \<open>A read operation puts bytes at the start of the buffer, at most as many as fit.\<close>

definition fill_buffer :: "string \<Rightarrow> fixed_buffer_t \<Rightarrow> fixed_buffer_t" where
  "fill_buffer data b =
     b\<lparr>fb_buf := take (length (fb_buf b)) data @ drop (length data) (fb_buf b)\<rparr>"

definition obtained_bytes :: "nat \<Rightarrow> fixed_buffer_t \<Rightarrow> fixed_buffer_t" where
  "obtained_bytes n b = b\<lparr>fb_ready_length := n, fb_ready_pos := 0\<rparr>"

definition consumed_bytes :: "nat \<Rightarrow> fixed_buffer_t \<Rightarrow> fixed_buffer_t" where
  "consumed_bytes n b = b\<lparr>fb_ready_length := fb_ready_length b - n, fb_ready_pos := fb_ready_pos b + n\<rparr>"

definition buffer_bytes :: "fixed_buffer_t \<Rightarrow> string" where
  "buffer_bytes b = take (fb_ready_length b) (drop (fb_ready_pos b) (fb_buf b))"

subsection \<open>The environment of a connection\<close>

datatype parser_errno = HPE_OK | HPE_PAUSED | HPE_error int

record conn_request_t =
  rq_id :: u32
  rq_header :: http_request_header_t
  rq_body :: string
  rq_chunked_input_info :: "chunked_input_info_block_t option"

datatype handling_status = Accepted | Rejected | Not_handled | Handler_throws

datatype handler_action =
    Send_parts u32 response_output_flags_t write_group_t
  | Take_socket

record 'p env =
  e_parser_init :: 'p
  e_execute :: "'p \<Rightarrow> http_parser_ctx_t \<Rightarrow> string \<Rightarrow> 'p \<times> http_parser_ctx_t \<times> nat \<times> parser_errno"
  e_upgrade :: "'p \<Rightarrow> bool"
  e_nread :: "'p \<Rightarrow> nat"
  e_nodejs_code :: "string \<Rightarrow> int"
  e_handler :: "nat \<Rightarrow> conn_request_t \<Rightarrow> handler_action list \<times> handling_status"
  e_throws :: "notification \<Rightarrow> bool"
  e_max_iov_len :: nat
  e_read_next_http_message_timelimit :: int
  e_write_http_response_timelimit :: int
  e_handle_request_timeout :: int

subsection \<open>The state of a connection\<close>

datatype connection_upgrade_stage_t = No_upgrade | Pending_upgrade_handling | Wait_for_upgrade_handling_result_or_nothing

datatype timeout_cb = Read_timeout | Request_handling_timeout | Write_response_timeout | Sendfile_timeout

datatype action =
    Start_read
  | Read_done
  | Start_write "string list"
  | Start_sendfile sendfile_t
  | Write_done
  | Socket_cancel
  | Socket_close
  | Handler_called conn_request_t
  | Parts_submitted write_group_t
  | Called notification
  | Notice_accepted
  | Notice_closed

record 'p conn_t =
  c_socket_open :: bool
  c_parser :: 'p
  c_parser_ctx :: http_parser_ctx_t
  c_buf :: fixed_buffer_t
  c_upgrade_stage :: connection_upgrade_stage_t
  c_read_operation_is_running :: bool
  c_write_output_ctx :: write_group_output_ctx_t
  c_init_read_after_this_write :: bool
  c_response_coordinator :: response_coordinator_t
  c_current_timeout_cb :: "timeout_cb option"
  c_current_timeout_after :: int
  c_timer_scheduled :: bool
  c_now :: int
  c_handler_calls :: nat
  c_write_running :: bool
  c_file_running :: bool
  c_trace :: "action list"
  c_history :: "coord_event list"

definition connection ::
    "'p env \<Rightarrow> nat \<Rightarrow> incoming_http_msg_limits_t \<Rightarrow> nat \<Rightarrow> int \<Rightarrow> 'p conn_t" where
  "connection env buffer_size limits max_pipelined_requests now =
     \<lparr>c_socket_open = True, c_parser = e_parser_init env,
      c_parser_ctx = http_parser_ctx (e_nodejs_code env) limits, c_buf = fixed_buffer buffer_size,
      c_upgrade_stage = No_upgrade, c_read_operation_is_running = False,
      c_write_output_ctx = write_group_output_ctx, c_init_read_after_this_write = False,
      c_response_coordinator = response_coordinator max_pipelined_requests,
      c_current_timeout_cb = None, c_current_timeout_after = 0, c_timer_scheduled = False, c_now = now,
      c_handler_calls = 0, c_write_running = False, c_file_running = False, c_trace = [], c_history = []\<rparr>"

datatype conn_exn =
    Coordinator_exn coordinator_error
  | Output_exn output_error
  | Sendfile_exn start_sendfile_error
  | Handler_exn

datatype 'p result = Done "'p conn_t" | Raised conn_exn "'p conn_t" | Undefined | Out_of_fuel

definition and_then :: "'p result \<Rightarrow> ('p conn_t \<Rightarrow> 'p result) \<Rightarrow> 'p result" where
  "and_then r f = (case r of Done c \<Rightarrow> f c | _ \<Rightarrow> r)"

definition catching :: "('p conn_t \<Rightarrow> 'p conn_t) \<Rightarrow> 'p result \<Rightarrow> 'p result" where
  "catching f r = (case r of Raised e c \<Rightarrow> Done (f c) | _ \<Rightarrow> r)"

definition act :: "action \<Rightarrow> 'p conn_t \<Rightarrow> 'p conn_t" where
  "act a c = c\<lparr>c_trace := c_trace c @ [a]\<rparr>"

definition notify :: "notification list \<Rightarrow> 'p conn_t \<Rightarrow> 'p conn_t" where
  "notify ns c = c\<lparr>c_trace := c_trace c @ map Called ns\<rparr>"

subsection \<open>Timeouts\<close>

definition schedule_operation_timeout_callback :: "int \<Rightarrow> timeout_cb \<Rightarrow> 'p conn_t \<Rightarrow> 'p conn_t" where
  "schedule_operation_timeout_callback timeout cb c =
     c\<lparr>c_current_timeout_after := c_now c + timeout, c_current_timeout_cb := Some cb\<rparr>"

definition init_next_timeout_checking :: "'p conn_t \<Rightarrow> 'p conn_t" where
  "init_next_timeout_checking c = c\<lparr>c_timer_scheduled := True\<rparr>"

definition cancel_timeout_checking :: "'p conn_t \<Rightarrow> 'p conn_t" where
  "cancel_timeout_checking c = c\<lparr>c_current_timeout_cb := None, c_timer_scheduled := False\<rparr>"

definition guard_read_operation :: "'p env \<Rightarrow> 'p conn_t \<Rightarrow> 'p conn_t" where
  "guard_read_operation env c =
     (if table_empty (m_context_table (c_response_coordinator c))
      then schedule_operation_timeout_callback (e_read_next_http_message_timelimit env) Read_timeout c else c)"

definition guard_request_handling_operation :: "'p env \<Rightarrow> 'p conn_t \<Rightarrow> 'p conn_t" where
  "guard_request_handling_operation env c =
     (if \<not> transmitting (c_write_output_ctx c)
      then schedule_operation_timeout_callback (e_handle_request_timeout env) Request_handling_timeout c else c)"

definition guard_write_operation :: "'p env \<Rightarrow> 'p conn_t \<Rightarrow> 'p conn_t" where
  "guard_write_operation env c =
     schedule_operation_timeout_callback (e_write_http_response_timelimit env) Write_response_timeout c"

definition guard_sendfile_operation :: "'p env \<Rightarrow> int \<Rightarrow> 'p conn_t \<Rightarrow> 'p conn_t" where
  "guard_sendfile_operation env timelimit c =
     schedule_operation_timeout_callback
       (if 0 = timelimit then e_write_http_response_timelimit env else timelimit) Sendfile_timeout c"

subsection \<open>Closing\<close>

definition close_connection :: "'p conn_t \<Rightarrow> 'p conn_t" where
  "close_connection c =
     (let c = act Socket_close (c\<lparr>c_socket_open := False\<rparr>);
          c = cancel_timeout_checking c;
          (called, coordinator) = coordinator_reset (c_response_coordinator c);
          c = notify called (c\<lparr>c_response_coordinator := coordinator\<rparr>)
      in act Notice_closed c)"

definition trigger_error_and_close :: "'p conn_t \<Rightarrow> 'p conn_t" where
  "trigger_error_and_close c = close_connection c"

definition handle_xxx_timeout :: "'p conn_t \<Rightarrow> 'p conn_t" where
  "handle_xxx_timeout c = close_connection c"

definition check_timeout_impl :: "'p conn_t \<Rightarrow> 'p conn_t" where
  "check_timeout_impl c =
     (if c_current_timeout_after c < c_now c
      then (case c_current_timeout_cb c of Some cb \<Rightarrow> handle_xxx_timeout c | None \<Rightarrow> c)
      else init_next_timeout_checking c)"

subsection \<open>The methods in the cycle\<close>

datatype call =
    Wait_for_http_message
  | Write_response_parts u32 response_output_flags_t write_group_t
  | Handle_current_write_ctx
  | Handle_upgrade_request

definition reset_parser :: "'p env \<Rightarrow> 'p conn_t \<Rightarrow> 'p conn_t" where
  "reset_parser env c =
     c\<lparr>c_parser := e_parser_init env, c_parser_ctx := ctx_reset (e_nodejs_code env) (c_parser_ctx c)\<rparr>"

definition consume_message :: "'p conn_t \<Rightarrow> 'p conn_t" where
  "consume_message c =
     (if \<not> c_read_operation_is_running c then act Start_read (c\<lparr>c_read_operation_is_running := True\<rparr>) else c)"

text \<open>What is left of a header and a body that were moved from, and the request that takes them.\<close>

definition moved_header :: "http_request_header_t \<Rightarrow> http_request_header_t" where
  "moved_header h = h\<lparr>m_fields := [], m_request_target := []\<rparr>"

definition make_request :: "u32 \<Rightarrow> 'p conn_t \<Rightarrow> conn_request_t \<times> 'p conn_t" where
  "make_request request_id c =
     (let ctx = c_parser_ctx c;
          (info, ctx') = make_chunked_input_info_if_necessary ctx
      in (\<lparr>rq_id = request_id, rq_header = px_header ctx, rq_body = px_body ctx, rq_chunked_input_info = info\<rparr>,
          c\<lparr>c_parser_ctx := ctx'\<lparr>px_header := moved_header (px_header ctx), px_body := []\<rparr>\<rparr>))"

fun run_actions :: "(call \<Rightarrow> 'p conn_t \<Rightarrow> 'p result) \<Rightarrow> handler_action list \<Rightarrow> 'p conn_t \<Rightarrow> 'p result" where
  "run_actions call [] c = Done c"
| "run_actions call (Send_parts request_id flags wg # actions) c =
     and_then (call (Write_response_parts request_id flags wg) c) (run_actions call actions)"
| "run_actions call (Take_socket # actions) c = run_actions call actions (c\<lparr>c_socket_open := False\<rparr>)"

text \<open>The call of the request handler, with what the switch on its result goes on with.\<close>

definition call_request_handler ::
    "'p env \<Rightarrow> (call \<Rightarrow> 'p conn_t \<Rightarrow> 'p result) \<Rightarrow> u32 \<Rightarrow> (handling_status \<Rightarrow> 'p conn_t \<Rightarrow> 'p result) \<Rightarrow> 'p conn_t \<Rightarrow> 'p result" where
  "call_request_handler env call request_id switch c =
     (let (request, c) = make_request request_id c;
          (actions, status) = e_handler env (c_handler_calls c) request;
          c = act (Handler_called request) (c\<lparr>c_handler_calls := c_handler_calls c + 1\<rparr>)
      in and_then (run_actions call actions c)
           (\<lambda>c. if status = Handler_throws then Raised Handler_exn c else switch status c))"

definition register_request :: "(u32 \<Rightarrow> 'p conn_t \<Rightarrow> 'p result) \<Rightarrow> 'p conn_t \<Rightarrow> 'p result" where
  "register_request f c =
     (case register_new_request (c_response_coordinator c) of
        Inl e \<Rightarrow> Raised (Coordinator_exn e) c
      | Inr (request_id, coordinator) \<Rightarrow>
          f request_id (c\<lparr>c_response_coordinator := coordinator, c_history := c_history c @ [Registered request_id]\<rparr>))"

definition not_implemented_flags :: response_output_flags_t where
  "not_implemented_flags = \<lparr>m_response_parts = Final_parts, m_response_connection = Connection_close\<rparr>"

definition handle_nothing_to_write :: "'p env \<Rightarrow> 'p conn_t \<Rightarrow> 'p conn_t" where
  "handle_nothing_to_write env c =
     (if closed (c_response_coordinator c) then close_connection c
      else if table_empty (m_context_table (c_response_coordinator c)) then guard_read_operation env c
      else guard_request_handling_operation env c)"

definition init_write :: "'p env \<Rightarrow> (call \<Rightarrow> 'p conn_t \<Rightarrow> 'p result) \<Rightarrow> 'p conn_t \<Rightarrow> 'p result" where
  "init_write env call c =
     (let response_coordinator_full_before = table_is_full (m_context_table (c_response_coordinator c))
      in case pop_ready_buffers (c_response_coordinator c) of
           Inl e \<Rightarrow> Raised (Coordinator_exn e) c
         | Inr (Some (wg, request_id), coordinator) \<Rightarrow>
             (let c = c\<lparr>c_response_coordinator := coordinator, c_history := c_history c @ [Popped request_id wg]\<rparr>;
                  response_coordinator_full_after = table_is_full (m_context_table coordinator);
                  c = c\<lparr>c_init_read_after_this_write := response_coordinator_full_before \<and> \<not> response_coordinator_full_after\<rparr>;
                  (called, output_ctx) = start_next_write_group (Some wg) (c_write_output_ctx c);
                  c = notify called (c\<lparr>c_write_output_ctx := output_ctx\<rparr>)
              in call Handle_current_write_ctx c)
         | Inr (None, coordinator) \<Rightarrow> Done (handle_nothing_to_write env (c\<lparr>c_response_coordinator := coordinator\<rparr>)))"

definition init_write_if_necessary :: "'p env \<Rightarrow> (call \<Rightarrow> 'p conn_t \<Rightarrow> 'p result) \<Rightarrow> 'p conn_t \<Rightarrow> 'p result" where
  "init_write_if_necessary env call c =
     (if \<not> transmitting (c_write_output_ctx c) then init_write env call c else Done c)"

definition write_response_parts_impl ::
    "'p env \<Rightarrow> (call \<Rightarrow> 'p conn_t \<Rightarrow> 'p result) \<Rightarrow> u32 \<Rightarrow> response_output_flags_t \<Rightarrow> write_group_t \<Rightarrow> 'p conn_t \<Rightarrow> 'p result" where
  "write_response_parts_impl env call request_id flags wg c =
     (let invoke_after_write_cb_with_error =
            (\<lambda>c. notify (fst (invoke_after_write_notificator_if_exists Write_was_not_executed wg)) (act (Parts_submitted wg) c))
      in if c_socket_open c then
           (case (if Wait_for_upgrade_handling_result_or_nothing = c_upgrade_stage c \<and>
                     \<not> table_is_full (m_context_table (c_response_coordinator c))
                  then call Wait_for_http_message c else Done c) of
              Done c \<Rightarrow>
                (if \<not> closed (c_response_coordinator c) then
                   (case append_response request_id flags wg (c_response_coordinator c) of
                      (Inl e, called) \<Rightarrow> Raised (Coordinator_exn e) (notify called (act (Parts_submitted wg) c))
                    | (Inr coordinator, called) \<Rightarrow>
                        init_write_if_necessary env call
                          (notify called (act (Parts_submitted wg)
                             (c\<lparr>c_response_coordinator := coordinator,
                                c_history := c_history c @ [Appended request_id flags wg]\<rparr>))))
                 else Done (invoke_after_write_cb_with_error c))
            | Raised e c \<Rightarrow> Raised e (notify (destroy_write_group wg) (act (Parts_submitted wg) c))
            | r \<Rightarrow> r)
         else Done (invoke_after_write_cb_with_error c))"

definition write_response_parts ::
    "'p env \<Rightarrow> (call \<Rightarrow> 'p conn_t \<Rightarrow> 'p result) \<Rightarrow> u32 \<Rightarrow> response_output_flags_t \<Rightarrow> write_group_t \<Rightarrow> 'p conn_t \<Rightarrow> 'p result" where
  "write_response_parts env call request_id flags wg c =
     catching trigger_error_and_close (write_response_parts_impl env call request_id flags wg c)"

text \<open>The refusal of a request by its handler: the parts of the response go the same way, without the catch.\<close>

definition refuse_request :: "'p env \<Rightarrow> (call \<Rightarrow> 'p conn_t \<Rightarrow> 'p result) \<Rightarrow> u32 \<Rightarrow> 'p conn_t \<Rightarrow> 'p result" where
  "refuse_request env call request_id c =
     write_response_parts_impl env call request_id not_implemented_flags (write_group create_not_implemented_resp) c"

definition handle_upgrade_request :: "'p env \<Rightarrow> (call \<Rightarrow> 'p conn_t \<Rightarrow> 'p result) \<Rightarrow> 'p conn_t \<Rightarrow> 'p result" where
  "handle_upgrade_request env call c =
     register_request (\<lambda>request_id c.
       let c = cancel_timeout_checking c;
           c = c\<lparr>c_upgrade_stage := Wait_for_upgrade_handling_result_or_nothing\<rparr>
       in call_request_handler env call request_id
            (\<lambda>status c.
               if status = Not_handled \<or> status = Rejected
               then (if c_socket_open c then refuse_request env call request_id c else Done c)
               else Done c) c) c"

definition on_request_message_complete :: "'p env \<Rightarrow> (call \<Rightarrow> 'p conn_t \<Rightarrow> 'p result) \<Rightarrow> 'p conn_t \<Rightarrow> 'p result" where
  "on_request_message_complete env call c =
     catching trigger_error_and_close
       (let c = (if e_upgrade env (c_parser c) then c\<lparr>c_upgrade_stage := Pending_upgrade_handling\<rparr> else c)
        in if No_upgrade = c_upgrade_stage c then
             register_request (\<lambda>request_id c.
               let c = guard_request_handling_operation env c
               in call_request_handler env call request_id
                    (\<lambda>status c.
                       if status = Not_handled \<or> status = Rejected then refuse_request env call request_id c
                       else if is_able_to_get_more_messages (c_response_coordinator c) then call Wait_for_http_message c
                       else Done c) c) c
           else if table_empty (m_context_table (c_response_coordinator c)) then call Handle_upgrade_request c
           else Done c)"

definition consume_data :: "'p env \<Rightarrow> (call \<Rightarrow> 'p conn_t \<Rightarrow> 'p result) \<Rightarrow> 'p conn_t \<Rightarrow> 'p result" where
  "consume_data env call c =
     (let (parser, parser_ctx, nparsed, http_errno) = e_execute env (c_parser c) (c_parser_ctx c) (buffer_bytes (c_buf c));
          c = c\<lparr>c_parser := parser, c_parser_ctx := parser_ctx, c_buf := consumed_bytes nparsed (c_buf c)\<rparr>
      in if HPE_OK \<noteq> http_errno \<and> HPE_PAUSED \<noteq> http_errno then Done (trigger_error_and_close c)
         else if px_message_complete (c_parser_ctx c) then on_request_message_complete env call c
         else Done (consume_message c))"

definition wait_for_http_message :: "'p env \<Rightarrow> (call \<Rightarrow> 'p conn_t \<Rightarrow> 'p result) \<Rightarrow> 'p conn_t \<Rightarrow> 'p result" where
  "wait_for_http_message env call c =
     (let c = reset_parser env c;
          c = guard_read_operation env c
      in if 0 \<noteq> fb_ready_length (c_buf c) then consume_data env call c else Done (consume_message c))"

definition cancel_reading :: "'p conn_t \<Rightarrow> 'p conn_t" where
  "cancel_reading c = (if closed (c_response_coordinator c) then act Socket_cancel c else c)"

definition handle_trivial_write_operation :: "'p env \<Rightarrow> string list \<Rightarrow> 'p conn_t \<Rightarrow> 'p conn_t" where
  "handle_trivial_write_operation env bufs c =
     guard_write_operation env (act (Start_write bufs) ((cancel_reading c)\<lparr>c_write_running := True, c_file_running := False\<rparr>))"

definition handle_file_write_operation :: "'p env \<Rightarrow> sendfile_t \<Rightarrow> 'p conn_t \<Rightarrow> 'p result" where
  "handle_file_write_operation env sf c =
     (let c = guard_sendfile_operation env (m_timelimit sf) (cancel_reading c)
      in case start_sendfile_operation sf (c_write_output_ctx c) of
           Inl e \<Rightarrow> Raised (Sendfile_exn e) c
         | Inr output_ctx \<Rightarrow> Done (act (Start_sendfile sf) (c\<lparr>c_write_output_ctx := output_ctx, c_write_running := True, c_file_running := True\<rparr>)))"

definition finish_handling_current_write_ctx :: "'p env \<Rightarrow> (call \<Rightarrow> 'p conn_t \<Rightarrow> 'p result) \<Rightarrow> 'p conn_t \<Rightarrow> 'p result" where
  "finish_handling_current_write_ctx env call c =
     (case finish_write_group (e_throws env) (c_write_output_ctx c) of
        None \<Rightarrow> Undefined
      | Some (called, Some e, output_ctx) \<Rightarrow> Raised (Output_exn e) (notify called (c\<lparr>c_write_output_ctx := output_ctx\<rparr>))
      | Some (called, None, output_ctx) \<Rightarrow>
          (let c = notify called (c\<lparr>c_write_output_ctx := output_ctx\<rparr>)
           in if \<not> closed (c_response_coordinator c) then
                (if No_upgrade = c_upgrade_stage c
                 then and_then (if c_init_read_after_this_write c then call Wait_for_http_message c else Done c)
                        (init_write_if_necessary env call)
                 else if table_empty (m_context_table (c_response_coordinator c)) then call Handle_upgrade_request c
                 else init_write_if_necessary env call c)
              else Done (close_connection c)))"

definition handle_current_write_ctx :: "'p env \<Rightarrow> (call \<Rightarrow> 'p conn_t \<Rightarrow> 'p result) \<Rightarrow> 'p conn_t \<Rightarrow> 'p result" where
  "handle_current_write_ctx env call c =
     catching trigger_error_and_close
       (case extract_next_write_operation (max_iov_len (e_max_iov_len env)) (c_write_output_ctx c) of
          None \<Rightarrow> Undefined
        | Some (wo, output_ctx) \<Rightarrow>
            (let c = c\<lparr>c_write_output_ctx := output_ctx\<rparr>
             in case wo of
                  Trivial_buffers bufs total_size \<Rightarrow> Done (handle_trivial_write_operation env bufs c)
                | File_operation sf \<Rightarrow> handle_file_write_operation env sf c
                | None_write_operation \<Rightarrow> finish_handling_current_write_ctx env call c))"

subsection \<open>Tying the knot\<close>

fun exec :: "'p env \<Rightarrow> nat \<Rightarrow> call \<Rightarrow> 'p conn_t \<Rightarrow> 'p result" where
  "exec env 0 m c = Out_of_fuel"
| "exec env (Suc n) Wait_for_http_message c = wait_for_http_message env (exec env n) c"
| "exec env (Suc n) (Write_response_parts request_id flags wg) c = write_response_parts env (exec env n) request_id flags wg c"
| "exec env (Suc n) Handle_current_write_ctx c = handle_current_write_ctx env (exec env n) c"
| "exec env (Suc n) Handle_upgrade_request c = handle_upgrade_request env (exec env n) c"

subsection \<open>Events\<close>

datatype io_error = Operation_aborted | Eof | Other_error int

text \<open>The number of an error that a callback is told.\<close>

fun error_number :: "io_error \<Rightarrow> int" where
  "error_number Operation_aborted = 125"
| "error_number Eof = 2"
| "error_number (Other_error e) = e"

definition after_read :: "'p env \<Rightarrow> nat \<Rightarrow> io_error + string \<Rightarrow> 'p conn_t \<Rightarrow> 'p result" where
  "after_read env fuel outcome c =
     (let c = act Read_done (c\<lparr>c_read_operation_is_running := False\<rparr>)
      in case outcome of
           Inr data \<Rightarrow>
             catching trigger_error_and_close
               (consume_data env (exec env fuel)
                  (c\<lparr>c_buf := obtained_bytes (min (length data) (length (fb_buf (c_buf c)))) (fill_buffer data (c_buf c))\<rparr>))
         | Inl ec \<Rightarrow>
             Done (if ec \<noteq> Operation_aborted
                   then (if ec \<noteq> Eof \<or> 0 \<noteq> e_nread env (c_parser c) then trigger_error_and_close c
                         else close_connection c)
                   else c))"

definition after_write :: "'p env \<Rightarrow> nat \<Rightarrow> io_error option \<Rightarrow> 'p conn_t \<Rightarrow> 'p result" where
  "after_write env fuel outcome c =
     (case outcome of
        None \<Rightarrow> handle_current_write_ctx env (exec env fuel) c
      | Some ec \<Rightarrow>
          (let c = (if ec \<noteq> Operation_aborted then trigger_error_and_close c else c)
           in case fail_write_group (e_throws env) (Write_failed (error_number ec)) (c_write_output_ctx c) of
                None \<Rightarrow> Undefined
              | Some (called, err, output_ctx) \<Rightarrow> Done (notify called (c\<lparr>c_write_output_ctx := output_ctx\<rparr>))))"

text \<open>When a file operation is over, its context is reset after all other work of the completion handler.\<close>

definition write_completed :: "'p env \<Rightarrow> nat \<Rightarrow> io_error option \<Rightarrow> 'p conn_t \<Rightarrow> 'p result" where
  "write_completed env fuel outcome c =
     and_then (after_write env fuel outcome (act Write_done (c\<lparr>c_write_running := False\<rparr>)))
       (\<lambda>c'. Done (if c_file_running c
                   then c'\<lparr>c_write_output_ctx := file_write_operation_reset (c_write_output_ctx c')\<rparr> else c'))"

datatype event =
    Init
  | Read_completed "io_error + string"
  | Write_completed "io_error option"
  | Parts_sent u32 response_output_flags_t write_group_t
  | Timer

definition conn_init :: "'p env \<Rightarrow> nat \<Rightarrow> 'p conn_t \<Rightarrow> 'p result" where
  "conn_init env fuel c =
     wait_for_http_message env (exec env fuel) (init_next_timeout_checking (act Notice_accepted c))"

fun handle_event :: "'p env \<Rightarrow> nat \<Rightarrow> event \<Rightarrow> 'p conn_t \<Rightarrow> 'p result" where
  "handle_event env fuel Init c = conn_init env fuel c"
| "handle_event env fuel (Read_completed outcome) c = after_read env fuel outcome c"
| "handle_event env fuel (Write_completed outcome) c = write_completed env fuel outcome c"
| "handle_event env fuel (Parts_sent request_id flags wg) c = write_response_parts env (exec env fuel) request_id flags wg c"
| "handle_event env fuel Timer c = Done (check_timeout_impl (c\<lparr>c_timer_scheduled := False\<rparr>))"

text \<open>
  When an event can happen: an operation ends only if it is running, and a running write is aborted only after
  the socket was closed, since cancelling happens only when no write is running.
\<close>

fun event_possible :: "event \<Rightarrow> 'p conn_t \<Rightarrow> bool" where
  "event_possible (Read_completed outcome) c \<longleftrightarrow> c_read_operation_is_running c"
| "event_possible (Write_completed outcome) c \<longleftrightarrow>
     c_write_running c \<and> (outcome = Some Operation_aborted \<longrightarrow> \<not> c_socket_open c)"
| "event_possible e c \<longleftrightarrow> True"

inductive conn_reach :: "'p env \<Rightarrow> nat \<Rightarrow> 'p conn_t \<Rightarrow> bool" for env max_requests where
  started: "handle_event env fuel Init (connection env buffer_size limits max_requests now) = Done c \<Longrightarrow>
     conn_reach env max_requests c"
| event: "\<lbrakk>conn_reach env max_requests c; c_now c \<le> now; e \<noteq> Init; event_possible e (c\<lparr>c_now := now\<rparr>);
     handle_event env fuel e (c\<lparr>c_now := now\<rparr>) = Done c'\<rbrakk> \<Longrightarrow> conn_reach env max_requests c'"

subsection \<open>Reading the trace\<close>

fun read_step :: "bool option \<Rightarrow> action \<Rightarrow> bool option" where
  "read_step b Start_read = (if b = Some False then Some True else None)"
| "read_step b Read_done = (if b = Some True then Some False else None)"
| "read_step b a = b"

fun write_step :: "bool option \<Rightarrow> action \<Rightarrow> bool option" where
  "write_step b (Start_write bufs) = (if b = Some False then Some True else None)"
| "write_step b (Start_sendfile sf) = (if b = Some False then Some True else None)"
| "write_step b Write_done = (if b = Some True then Some False else None)"
| "write_step b a = b"

text \<open>Whether an operation is running after a trace, or none if two ran at once or one ended that did not run.\<close>

definition reading :: "action list \<Rightarrow> bool option" where
  "reading tr = foldl read_step (Some False) tr"

definition writing :: "action list \<Rightarrow> bool option" where
  "writing tr = foldl write_step (Some False) tr"

fun action_pieces :: "action \<Rightarrow> piece list" where
  "action_pieces (Start_write bufs) = map Bytes bufs"
| "action_pieces (Start_sendfile sf) = [File_range sf]"
| "action_pieces a = []"

definition wire :: "action list \<Rightarrow> piece list" where
  "wire tr = concat (map action_pieces tr)"

fun action_submitted :: "action \<Rightarrow> nat list" where
  "action_submitted (Parts_submitted wg) = pending wg"
| "action_submitted a = []"

fun action_called :: "action \<Rightarrow> nat list" where
  "action_called (Called n) = [fst n]"
| "action_called a = []"

definition submitted :: "action list \<Rightarrow> nat list" where
  "submitted tr = concat (map action_submitted tr)"

definition called_back :: "action list \<Rightarrow> nat list" where
  "called_back tr = concat (map action_called tr)"

text \<open>The groups that were taken from the coordinator, as pieces.\<close>

fun event_pieces :: "coord_event \<Rightarrow> piece list" where
  "event_pieces (Popped request_id wg) = map item_piece (m_items wg)"
| "event_pieces e = []"

definition history_pieces :: "coord_event list \<Rightarrow> piece list" where
  "history_pieces h = concat (map event_pieces h)"

definition pending_in_ctx :: "write_group_output_ctx_t \<Rightarrow> nat list" where
  "pending_in_ctx w = (case m_current_wg w of None \<Rightarrow> [] | Some wg \<Rightarrow> pending wg)"

definition pending_in_table :: "response_coordinator_t \<Rightarrow> nat list" where
  "pending_in_table co = concat (map (queued_in pending) (contexts_of (m_context_table co)))"

section \<open>The invariant of a connection\<close>

definition io_inv :: "'p conn_t \<Rightarrow> bool" where
  "io_inv c \<longleftrightarrow>
     reading (c_trace c) = Some (c_read_operation_is_running c) \<and>
     writing (c_trace c) = Some (c_write_running c) \<and>
     (c_write_running c \<longrightarrow> transmitting (c_write_output_ctx c))"

text \<open>As long as the request ids have not wrapped around.\<close>

definition few_requests :: "coord_event list \<Rightarrow> bool" where
  "few_requests h \<longleftrightarrow> requests h < 2 ^ 32"

definition order_inv :: "'p conn_t \<Rightarrow> bool" where
  "order_inv c \<longleftrightarrow>
     (few_requests (c_history c) \<and> c_socket_open c \<longrightarrow> data_inv m_items (c_history c) (c_response_coordinator c)) \<and>
     (c_socket_open c \<longrightarrow>
        wire (c_trace c) @ rest_pieces (c_write_output_ctx c) = history_pieces (c_history c) \<and>
        (\<not> transmitting (c_write_output_ctx c) \<longrightarrow> m_next_writable_item_index (c_write_output_ctx c) = 0))"

definition account_inv :: "'p conn_t \<Rightarrow> bool" where
  "account_inv c \<longleftrightarrow>
     (few_requests (c_history c) \<longrightarrow>
        coord_inv (c_history c) (c_response_coordinator c) \<and>
        mset (submitted (c_trace c)) =
          mset (called_back (c_trace c)) + mset (pending_in_ctx (c_write_output_ctx c)) +
          mset (pending_in_table (c_response_coordinator c)))"

definition timer_inv :: "'p conn_t \<Rightarrow> bool" where
  "timer_inv c \<longleftrightarrow>
     (c_socket_open c \<and> c_upgrade_stage c = No_upgrade \<longrightarrow> c_timer_scheduled c \<and> c_current_timeout_cb c \<noteq> None)"

definition conn_inv :: "'p conn_t \<Rightarrow> bool" where
  "conn_inv c \<longleftrightarrow> io_inv c \<and> order_inv c \<and> account_inv c \<and> timer_inv c"

lemmas conn_inv_defs = conn_inv_def io_inv_def order_inv_def account_inv_def timer_inv_def

lemma trace_append [simp]:
  "reading (tr @ tr') = foldl read_step (reading tr) tr'" "writing (tr @ tr') = foldl write_step (writing tr) tr'"
  "wire (tr @ tr') = wire tr @ wire tr'" "submitted (tr @ tr') = submitted tr @ submitted tr'"
  "called_back (tr @ tr') = called_back tr @ called_back tr'"
  by (simp_all add: reading_def writing_def wire_def submitted_def called_back_def)

lemma trace_Cons [simp]:
  "wire (a # tr) = action_pieces a @ wire tr" "submitted (a # tr) = action_submitted a @ submitted tr"
  "called_back (a # tr) = action_called a @ called_back tr" "wire [] = []" "submitted [] = []" "called_back [] = []"
  by (simp_all add: wire_def submitted_def called_back_def)

lemma trace_Called [simp]:
  "foldl read_step b (map (\<lambda>x. Called (f x)) ns) = b" "foldl write_step b (map (\<lambda>x. Called (f x)) ns) = b"
  "wire (map (\<lambda>x. Called (f x)) ns) = []" "submitted (map (\<lambda>x. Called (f x)) ns) = []"
  "called_back (map (\<lambda>x. Called (f x)) ns) = map (\<lambda>x. fst (f x)) ns"
  "foldl read_step b (map Called ms) = b" "foldl write_step b (map Called ms) = b"
  "wire (map Called ms) = []" "submitted (map Called ms) = []" "called_back (map Called ms) = map fst ms"
  by (induction ns; simp)+ (induction ms; simp)+

lemma history_pieces_snoc [simp]: "history_pieces (h @ [e]) = history_pieces h @ event_pieces e"
  by (simp add: history_pieces_def)

lemma few_requests_prefix: "few_requests (h @ h') \<Longrightarrow> few_requests h"
  by (simp add: few_requests_def)

text \<open>Closing the socket keeps the invariant, whatever it was closed for.\<close>

lemma conn_inv_socket_closed: "conn_inv c \<Longrightarrow> conn_inv (c\<lparr>c_socket_open := False\<rparr>)"
  by (simp add: conn_inv_defs)

lemma reset_pending:
  assumes "table_inv (m_context_table co)"
  shows "\<exists>t. coordinator_reset co = (map (\<lambda>cb. (cb, Write_was_not_executed)) (pending_in_table co), co\<lparr>m_context_table := t\<rparr>) \<and>
    table_inv t \<and> contexts_of t = []"
  using reset_table_eq [OF assms] by (auto simp: coordinator_reset_def pending_in_table_def)

lemma coord_inv_reset:
  assumes "coord_inv h co" "table_inv t" "contexts_of t = []"
  shows "coord_inv h (co\<lparr>m_context_table := t\<rparr>)"
  using assms by (fastforce simp: coord_inv_def rq.consecutive_def)

lemma close_connection_inv:
  assumes "conn_inv (c\<lparr>c_socket_open := False\<rparr>)"
  shows "conn_inv (close_connection c)" and "\<not> c_socket_open (close_connection c)"
    and "c_write_output_ctx (close_connection c) = c_write_output_ctx c"
    and "c_write_running (close_connection c) = c_write_running c"
proof -
  obtain called co where reset: "coordinator_reset (c_response_coordinator c) = (called, co)" by fastforce
  show "conn_inv (close_connection c)"
  proof (cases "few_requests (c_history c)")
    case True
    with assms have "coord_inv (c_history c) (c_response_coordinator c)" by (simp add: conn_inv_defs)
    then have "table_inv (m_context_table (c_response_coordinator c))" by (simp add: coord_inv_def)
    from reset_pending [OF this] obtain t where
      reset: "coordinator_reset (c_response_coordinator c) =
        (map (\<lambda>cb. (cb, Write_was_not_executed)) (pending_in_table (c_response_coordinator c)),
         (c_response_coordinator c)\<lparr>m_context_table := t\<rparr>)"
      and t: "table_inv t" "contexts_of t = []" by blast
    from coord_inv_reset [OF \<open>coord_inv (c_history c) (c_response_coordinator c)\<close> t]
    have inv: "coord_inv (c_history c) ((c_response_coordinator c)\<lparr>m_context_table := t\<rparr>)" .
    from t(2) have "pending_in_table ((c_response_coordinator c)\<lparr>m_context_table := t\<rparr>) = []"
      by (simp add: pending_in_table_def)
    with reset inv True assms show ?thesis
      by (simp add: close_connection_def conn_inv_defs act_def notify_def cancel_timeout_checking_def Let_def comp_def)
  next
    case False
    with assms reset show ?thesis
      by (simp add: close_connection_def conn_inv_defs act_def notify_def cancel_timeout_checking_def Let_def)
  qed
qed (simp_all add: close_connection_def act_def notify_def cancel_timeout_checking_def Let_def case_prod_beta)

lemmas close_inv = close_connection_inv(1) [OF conn_inv_socket_closed]

section \<open>Every method keeps the invariant\<close>

text \<open>
  What a method may end with. After an exception only the part of the invariant is left that holds for
  a closed socket; whoever catches the exception closes the connection.
\<close>

definition ends :: "'p result \<Rightarrow> bool" where
  "ends r = (case r of Done c \<Rightarrow> conn_inv c | Raised e c \<Rightarrow> conn_inv (c\<lparr>c_socket_open := False\<rparr>) | Undefined \<Rightarrow> False
     | Out_of_fuel \<Rightarrow> True)"

definition good_call :: "(call \<Rightarrow> 'p conn_t \<Rightarrow> 'p result) \<Rightarrow> bool" where
  "good_call call \<longleftrightarrow>
     (\<forall>m c. conn_inv c \<and>
        (m = Handle_current_write_ctx \<longrightarrow> transmitting (c_write_output_ctx c) \<and> \<not> c_write_running c) \<longrightarrow> ends (call m c))"

lemma ends_simps [simp]:
  "ends (Done c) = conn_inv c" "ends (Raised e c) = conn_inv (c\<lparr>c_socket_open := False\<rparr>)" "\<not> ends Undefined" "ends Out_of_fuel"
  by (simp_all add: ends_def)

lemma ends_catching: "ends r \<Longrightarrow> ends (catching trigger_error_and_close r)"
  by (cases r) (simp_all add: catching_def trigger_error_and_close_def close_connection_inv)

lemma ends_and_then: "ends r \<Longrightarrow> (\<And>c. conn_inv c \<Longrightarrow> ends (f c)) \<Longrightarrow> ends (and_then r f)"
  by (cases r) (simp_all add: and_then_def)

lemma good_callD:
  "good_call call \<Longrightarrow> conn_inv c \<Longrightarrow> m \<noteq> Handle_current_write_ctx \<Longrightarrow> ends (call m c)"
  "good_call call \<Longrightarrow> conn_inv c \<Longrightarrow> transmitting (c_write_output_ctx c) \<Longrightarrow> \<not> c_write_running c \<Longrightarrow>
     ends (call Handle_current_write_ctx c)"
  by (auto simp: good_call_def)

lemma trace_socket [simp]:
  "(notify ns c)\<lparr>c_socket_open := b\<rparr> = notify ns (c\<lparr>c_socket_open := b\<rparr>)"
  "(act a c)\<lparr>c_socket_open := b\<rparr> = act a (c\<lparr>c_socket_open := b\<rparr>)"
  by (simp_all add: notify_def act_def)

text \<open>Members that the invariant does not mention.\<close>

lemma conn_inv_frame [simp]:
  "conn_inv (c\<lparr>c_parser := p\<rparr>) = conn_inv c" "conn_inv (c\<lparr>c_parser_ctx := x\<rparr>) = conn_inv c"
  "conn_inv (c\<lparr>c_buf := b\<rparr>) = conn_inv c" "conn_inv (c\<lparr>c_now := t\<rparr>) = conn_inv c"
  "conn_inv (c\<lparr>c_handler_calls := n\<rparr>) = conn_inv c" "conn_inv (c\<lparr>c_init_read_after_this_write := r\<rparr>) = conn_inv c"
  "conn_inv (c\<lparr>c_file_running := r\<rparr>) = conn_inv c" "conn_inv (act (Handler_called q) c) = conn_inv c"
  "conn_inv (c\<lparr>c_current_timeout_after := t\<rparr>) = conn_inv c" "conn_inv (act Socket_cancel c) = conn_inv c"
  by (simp_all add: conn_inv_defs act_def)

lemma schedule_inv: "conn_inv c \<Longrightarrow> conn_inv (schedule_operation_timeout_callback t cb c)"
  by (simp add: schedule_operation_timeout_callback_def conn_inv_defs)

lemma guards_inv:
  "conn_inv c \<Longrightarrow> conn_inv (guard_read_operation env c)"
  "conn_inv c \<Longrightarrow> conn_inv (guard_request_handling_operation env c)"
  "conn_inv c \<Longrightarrow> conn_inv (guard_write_operation env c)"
  "conn_inv c \<Longrightarrow> conn_inv (guard_sendfile_operation env t c)"
  by (simp_all add: guard_read_operation_def guard_request_handling_operation_def guard_write_operation_def
      guard_sendfile_operation_def schedule_inv)

lemma reset_parser_inv: "conn_inv (reset_parser env c) = conn_inv c"
  by (simp add: reset_parser_def)

lemma consume_message_inv: "conn_inv c \<Longrightarrow> conn_inv (consume_message c)"
  by (simp add: consume_message_def act_def conn_inv_defs)

lemma stage_inv: "conn_inv c \<Longrightarrow> st \<noteq> No_upgrade \<Longrightarrow> conn_inv (c\<lparr>c_upgrade_stage := st\<rparr>)"
  by (simp add: conn_inv_defs)

lemma handle_nothing_inv: "conn_inv c \<Longrightarrow> conn_inv (handle_nothing_to_write env c)"
  by (simp add: handle_nothing_to_write_def close_connection_inv conn_inv_socket_closed guards_inv)

subsection \<open>The coordinator\<close>

lemma register_inv:
  assumes "conn_inv c" "register_new_request (c_response_coordinator c) = Inr (request_id, co)"
  shows "conn_inv (c\<lparr>c_response_coordinator := co, c_history := c_history c @ [Registered request_id]\<rparr>)"
proof (cases "few_requests (c_history c @ [Registered request_id])")
  case True
  then have few: "few_requests (c_history c)" by (rule few_requests_prefix)
  with assms(1) have inv: "coord_inv (c_history c) (c_response_coordinator c)" by (simp add: conn_inv_defs)
  have "coord_inv (c_history c @ [Registered request_id]) co"
    using coord_inv_register [OF inv assms(2)] True by (simp add: few_requests_def)
  moreover have "pending_in_table co = pending_in_table (c_response_coordinator c)"
    using register_new_request_Inr [OF _ assms(2)] inv
    by (auto simp: pending_in_table_def coord_inv_def fresh_context_def reinit_def response_context_def queued_in_def)
  moreover have "data_inv m_items (c_history c @ [Registered request_id]) co" if "c_socket_open c"
    using data_inv_register [OF inv assms(2)] assms(1) few that by (auto simp: conn_inv_defs)
  ultimately show ?thesis using assms(1) few by (simp add: conn_inv_defs)
next
  case False
  with assms(1) show ?thesis by (simp add: conn_inv_defs)
qed

lemma concat_map_update:
  "k < length xs \<Longrightarrow> mset (concat (map f (xs[k := y]))) + mset (f (xs ! k)) = mset (concat (map f xs)) + mset (f y)"
proof (induction xs arbitrary: k)
  case (Cons x xs)
  then show ?case by (cases k) (simp_all add: add.assoc)
qed simp

lemma append_inv:
  assumes "conn_inv c" "append_response request_id flags wg (c_response_coordinator c) = (Inr co, called)"
  shows "conn_inv (notify called (act (Parts_submitted wg)
    (c\<lparr>c_response_coordinator := co, c_history := c_history c @ [Appended request_id flags wg]\<rparr>)))"
proof (cases "few_requests (c_history c)")
  case True
  with assms(1) have inv: "coord_inv (c_history c) (c_response_coordinator c)" by (simp add: conn_inv_defs)
  then have "table_inv (m_context_table (c_response_coordinator c))"
    "rq.consecutive (requests (c_history c)) (m_context_table (c_response_coordinator c))"
    by (simp_all add: coord_inv_def)
  from append_response_Inr [OF this assms(2)] obtain k where k:
    "k < length (contexts_of (m_context_table (c_response_coordinator c)))"
    "contexts_of (m_context_table co) = (contexts_of (m_context_table (c_response_coordinator c)))
       [k := enqueue_group wg ((contexts_of (m_context_table (c_response_coordinator c)) ! k)\<lparr>m_response_output_flags := flags\<rparr>)]"
    by blast
  have "mset (pending_in_table co) = mset (pending_in_table (c_response_coordinator c)) + mset (pending wg)"
    using concat_map_update [OF k(1), of "queued_in pending"
        "enqueue_group wg ((contexts_of (m_context_table (c_response_coordinator c)) ! k)\<lparr>m_response_output_flags := flags\<rparr>)"]
    unfolding pending_in_table_def k(2)
    by (simp add: queued_in_enqueue mergeable_pending) (simp add: queued_in_def)
  moreover have "called = []" using assms(2) by (auto simp: append_response_def Let_def split: if_splits option.splits)
  moreover note run_append(1) [OF inv assms(2)] run_append(2) [OF inv assms(2) _ mergeable_items]
  ultimately show ?thesis using assms(1) True by (auto simp: conn_inv_defs act_def notify_def few_requests_def)
next
  case False
  with assms(1) show ?thesis by (simp add: conn_inv_defs act_def notify_def few_requests_def)
qed

text \<open>A group that does not get into the coordinator has its callback called.\<close>

lemma refused_inv:
  assumes "conn_inv c"
  shows "conn_inv (notify (map (\<lambda>cb. (cb, ec)) (pending wg)) (act (Parts_submitted wg) c))"
  using assms by (simp add: conn_inv_defs act_def notify_def comp_def)

lemma append_refused:
  "append_response request_id flags wg co = (Inl e, called) \<Longrightarrow>
   called = map (\<lambda>cb. (cb, Write_group_destroyed_passively)) (pending wg)"
  by (auto simp: append_response_def destroyed_pending Let_def split: if_splits option.splits)

lemma pop_pending:
  assumes "table_inv (m_context_table co)" "pop_ready_buffers co = Inr (Some (wg, request_id), co')"
  shows "pending_in_table co = pending wg @ pending_in_table co'"
  using pop_ready_buffers_Inr [OF assms] by (auto simp: pending_in_table_def queued_in_def)

lemma pop_inv:
  assumes "conn_inv c" "\<not> transmitting (c_write_output_ctx c)"
    and "pop_ready_buffers (c_response_coordinator c) = Inr (Some (wg, request_id), co)"
  shows "conn_inv (c\<lparr>c_response_coordinator := co, c_history := c_history c @ [Popped request_id wg],
    c_init_read_after_this_write := b, c_write_output_ctx := (c_write_output_ctx c)\<lparr>m_current_wg := Some wg\<rparr>\<rparr>)"
proof -
  have none: "m_current_wg (c_write_output_ctx c) = None" using assms(2) by (simp add: transmitting_def)
  have few: "few_requests (c_history c @ [Popped request_id wg]) = few_requests (c_history c)" by (simp add: few_requests_def)
  have inv: "coord_inv (c_history c) (c_response_coordinator c)" if "few_requests (c_history c)"
    using assms(1) that by (simp add: conn_inv_defs)
  note run_pop(1) [OF inv assms(3)] run_pop(2) [OF inv assms(3), of m_items]
  moreover have "pending_in_table (c_response_coordinator c) = pending wg @ pending_in_table co" if "few_requests (c_history c)"
    using pop_pending [OF _ assms(3)] inv [OF that] by (simp add: coord_inv_def)
  ultimately show ?thesis using assms(1,2) none few
    by (auto simp: conn_inv_defs rest_pieces_def pending_in_ctx_def transmitting_def)
qed

lemma init_write_ends:
  assumes "good_call call" "conn_inv c" "\<not> transmitting (c_write_output_ctx c)"
  shows "ends (init_write env call c)"
proof (cases "pop_ready_buffers (c_response_coordinator c)")
  case (Inl e)
  with assms(2) show ?thesis by (simp add: init_write_def Let_def conn_inv_socket_closed)
next
  case (Inr r)
  obtain g co where r: "r = (g, co)" by fastforce
  show ?thesis
  proof (cases g)
    case None
    with Inr r pop_none_same [of "c_response_coordinator c" co] assms(2) show ?thesis
      by (simp add: init_write_def Let_def handle_nothing_inv)
  next
    case (Some p)
    obtain wg request_id where p: "p = (wg, request_id)" by fastforce
    have "conn_inv (c\<lparr>c_response_coordinator := co, c_history := c_history c @ [Popped request_id wg],
        c_init_read_after_this_write := b, c_write_output_ctx := (c_write_output_ctx c)\<lparr>m_current_wg := Some wg\<rparr>\<rparr>)" for b
      using pop_inv [OF assms(2,3)] Inr r Some p by simp
    moreover have "m_current_wg (c_write_output_ctx c) = None" "\<not> c_write_running c"
      using assms(2,3) by (auto simp: transmitting_def conn_inv_defs)
    ultimately show ?thesis using Inr r Some p
      by (auto simp: init_write_def Let_def start_next_write_group_def notify_def transmitting_def
          intro!: good_callD(2) [OF assms(1)])
  qed
qed

lemma init_write_if_necessary_ends:
  "good_call call \<Longrightarrow> conn_inv c \<Longrightarrow> ends (init_write_if_necessary env call c)"
  by (simp add: init_write_if_necessary_def init_write_ends)

lemma write_response_parts_impl_ends:
  assumes "good_call call" "conn_inv c"
  shows "ends (write_response_parts_impl env call request_id flags wg c)"
proof -
  have refused: "conn_inv (notify (fst (invoke_after_write_notificator_if_exists Write_was_not_executed wg))
      (act (Parts_submitted wg) c))" if "conn_inv c" for c
    using refused_inv [OF that] by (simp add: invoked_pending)
  define r where "r = (if Wait_for_upgrade_handling_result_or_nothing = c_upgrade_stage c \<and>
      \<not> table_is_full (m_context_table (c_response_coordinator c)) then call Wait_for_http_message c else Done c)"
  have "ends r" using assms good_callD(1) [OF assms] by (simp add: r_def)
  show ?thesis
  proof (cases "c_socket_open c")
    case False
    with assms refused show ?thesis by (simp add: write_response_parts_impl_def)
  next
    case is_open: True
    show ?thesis
    proof (cases r)
      case (Done c1)
      with \<open>ends r\<close> have inv: "conn_inv c1" by simp
      obtain res called where app: "append_response request_id flags wg (c_response_coordinator c1) = (res, called)" by fastforce
      have "ends (init_write_if_necessary env call (notify called (act (Parts_submitted wg)
          (c1\<lparr>c_response_coordinator := co, c_history := c_history c1 @ [Appended request_id flags wg]\<rparr>))))" if "res = Inr co" for co
        using init_write_if_necessary_ends [OF assms(1) append_inv [OF inv]] app that by simp
      moreover have "conn_inv ((notify called (act (Parts_submitted wg) c1))\<lparr>c_socket_open := False\<rparr>)" if "res = Inl e" for e
        using append_refused [of request_id flags wg "c_response_coordinator c1" e called] app that
          conn_inv_socket_closed [OF refused_inv [OF inv]] by simp
      ultimately show ?thesis using is_open Done app refused [OF inv]
        by (cases res) (simp_all add: write_response_parts_impl_def Let_def flip: r_def)
    next
      case (Raised e c1)
      with \<open>ends r\<close> have "conn_inv (c1\<lparr>c_socket_open := False\<rparr>)" by simp
      from refused_inv [OF this, of Write_group_destroyed_passively wg] show ?thesis using is_open Raised
        by (simp add: write_response_parts_impl_def Let_def destroyed_pending flip: r_def)
    qed (use is_open \<open>ends r\<close> in \<open>simp_all add: write_response_parts_impl_def Let_def flip: r_def\<close>)
  qed
qed

subsection \<open>Requests\<close>

lemma make_request_inv: "conn_inv (snd (make_request request_id c)) = conn_inv c"
  by (simp add: make_request_def case_prod_beta Let_def)

lemma run_actions_ends:
  assumes "good_call call"
  shows "conn_inv c \<Longrightarrow> ends (run_actions call actions c)"
proof (induction actions arbitrary: c)
  case (Cons a actions)
  then show ?case
    by (cases a) (auto intro!: ends_and_then good_callD(1) [OF assms] simp: conn_inv_socket_closed)
qed simp

lemma call_request_handler_ends:
  assumes "good_call call" "conn_inv c" "\<And>status c. conn_inv c \<Longrightarrow> ends (switch status c)"
  shows "ends (call_request_handler env call request_id switch c)"
proof -
  obtain request c1 where req: "make_request request_id c = (request, c1)" by fastforce
  then have inv: "conn_inv c1" using make_request_inv [of request_id c] assms(2) by simp
  then show ?thesis using assms(3)
    by (auto simp: call_request_handler_def req Let_def case_prod_beta conn_inv_socket_closed
        intro!: ends_and_then run_actions_ends [OF assms(1)])
qed

lemma register_request_ends:
  assumes "conn_inv c" "\<And>request_id c. conn_inv c \<Longrightarrow> ends (f request_id c)"
  shows "ends (register_request f c)"
proof (cases "register_new_request (c_response_coordinator c)")
  case (Inr r)
  then show ?thesis using register_inv [OF assms(1)] assms(2)
    by (cases r) (simp add: register_request_def)
qed (use assms(1) in \<open>simp add: register_request_def conn_inv_socket_closed\<close>)

lemma refuse_request_ends: "good_call call \<Longrightarrow> conn_inv c \<Longrightarrow> ends (refuse_request env call request_id c)"
  by (simp add: refuse_request_def write_response_parts_impl_ends)

lemma upgrade_stage_inv:
  "conn_inv c \<Longrightarrow> conn_inv ((cancel_timeout_checking c)\<lparr>c_upgrade_stage := Wait_for_upgrade_handling_result_or_nothing\<rparr>)"
  by (simp add: cancel_timeout_checking_def conn_inv_defs)

lemma handle_upgrade_request_ends:
  assumes "good_call call" "conn_inv c"
  shows "ends (handle_upgrade_request env call c)"
  unfolding handle_upgrade_request_def Let_def
  using assms
  by (auto intro!: register_request_ends call_request_handler_ends refuse_request_ends upgrade_stage_inv)

lemma on_request_message_complete_ends:
  assumes "good_call call" "conn_inv c"
  shows "ends (on_request_message_complete env call c)"
  unfolding on_request_message_complete_def Let_def
  using assms
  by (auto intro!: ends_catching register_request_ends call_request_handler_ends refuse_request_ends stage_inv guards_inv
      good_callD(1) [OF assms(1)])

lemma consume_data_ends:
  assumes "good_call call" "conn_inv c"
  shows "ends (consume_data env call c)"
proof -
  obtain p x n e where "e_execute env (c_parser c) (c_parser_ctx c) (buffer_bytes (c_buf c)) = (p, x, n, e)"
    using prod_cases4 by blast
  then show ?thesis using assms
    by (auto simp: consume_data_def trigger_error_and_close_def Let_def conn_inv_socket_closed
        intro!: on_request_message_complete_ends consume_message_inv close_connection_inv)
qed

lemma wait_for_http_message_ends:
  assumes "good_call call" "conn_inv (guard_read_operation env (reset_parser env c))"
  shows "ends (wait_for_http_message env call c)"
  using assms by (simp add: wait_for_http_message_def Let_def consume_data_ends consume_message_inv)

subsection \<open>Writing\<close>

text \<open>Starting a write of what was taken from the current group.\<close>

lemma start_write_inv:
  assumes "conn_inv c" "\<not> c_write_running c" "m_current_wg (c_write_output_ctx c) = Some wg"
    and "m_current_wg w = Some wg" "rest_pieces (c_write_output_ctx c) = action_pieces a @ rest_pieces w"
    and "write_step (Some False) a = Some True" "\<And>b. read_step b a = b" "action_submitted a = []" "action_called a = []"
  shows "conn_inv (act a (c\<lparr>c_write_output_ctx := w, c_write_running := True\<rparr>))"
  using assms by (simp add: conn_inv_defs act_def transmitting_def pending_in_ctx_def)

lemma trivial_write_inv:
  assumes "conn_inv c" "\<not> c_write_running c" "m_current_wg (c_write_output_ctx c) = Some wg"
    and "m_current_wg w = Some wg" "rest_pieces (c_write_output_ctx c) = map Bytes bufs @ rest_pieces w"
  shows "conn_inv (handle_trivial_write_operation env bufs (c\<lparr>c_write_output_ctx := w\<rparr>))"
proof -
  let ?c = "(c\<lparr>c_write_output_ctx := w\<rparr>)"
  have "conn_inv (act (Start_write bufs) ((cancel_reading c)\<lparr>c_write_output_ctx := w, c_write_running := True\<rparr>))"
    using assms by (intro start_write_inv [of _ wg]) (simp_all add: cancel_reading_def act_def conn_inv_defs)
  moreover have "act (Start_write bufs) ((cancel_reading ?c)\<lparr>c_write_running := True, c_file_running := False\<rparr>) =
      (act (Start_write bufs) ((cancel_reading c)\<lparr>c_write_output_ctx := w, c_write_running := True\<rparr>))\<lparr>c_file_running := False\<rparr>"
    by (simp add: cancel_reading_def act_def)
  ultimately show ?thesis
    unfolding handle_trivial_write_operation_def by (intro guards_inv) simp
qed

lemma file_write_ends:
  assumes "conn_inv c" "\<not> c_write_running c" "m_current_wg (c_write_output_ctx c) = Some wg"
    and "m_current_wg w = Some wg" "rest_pieces (c_write_output_ctx c) = File_range sf # rest_pieces w"
  shows "ends (handle_file_write_operation env sf (c\<lparr>c_write_output_ctx := w\<rparr>))"
proof (cases "sendfile_is_valid sf")
  case True
  let ?t = "if 0 = m_timelimit sf then e_write_http_response_timelimit env else m_timelimit sf"
  let ?c = "schedule_operation_timeout_callback ?t Sendfile_timeout (cancel_reading c)"
  have "conn_inv (act (Start_sendfile sf) (?c\<lparr>c_write_output_ctx := w\<lparr>m_sendfile_operation := Some sf\<rparr>, c_write_running := True\<rparr>))"
    using assms
    by (intro start_write_inv [of _ wg] schedule_inv)
      (simp_all add: cancel_reading_def act_def conn_inv_defs rest_pieces_def schedule_operation_timeout_callback_def)
  moreover have "handle_file_write_operation env sf (c\<lparr>c_write_output_ctx := w\<rparr>) =
      Done ((act (Start_sendfile sf) (?c\<lparr>c_write_output_ctx := w\<lparr>m_sendfile_operation := Some sf\<rparr>, c_write_running := True\<rparr>))
        \<lparr>c_file_running := True\<rparr>)"
    using True
    by (simp add: handle_file_write_operation_def start_sendfile_operation_def cancel_reading_def act_def Let_def
        guard_sendfile_operation_def schedule_operation_timeout_callback_def)
  ultimately show ?thesis by simp
next
  case False
  with assms show ?thesis
    by (simp add: handle_file_write_operation_def start_sendfile_operation_def cancel_reading_def act_def Let_def
        guard_sendfile_operation_def schedule_operation_timeout_callback_def conn_inv_defs transmitting_def pending_in_ctx_def)
qed

lemma finish_group_inv:
  assumes "conn_inv c" "\<not> c_write_running c" "m_current_wg (c_write_output_ctx c) = Some wg"
    and "rest_pieces (c_write_output_ctx c) = []"
    and "finish_write_group throws (c_write_output_ctx c) = Some (called, err, w)"
  shows "conn_inv (notify called (c\<lparr>c_write_output_ctx := w\<rparr>))"
proof -
  from finish_outcome [OF assms(3), of throws] assms(5) have "called = map (\<lambda>cb. (cb, Write_ok)) (pending wg)"
    "\<not> transmitting w" "m_next_writable_item_index w = 0" by auto
  with assms(1-4) show ?thesis
    by (auto simp: conn_inv_defs notify_def transmitting_def pending_in_ctx_def rest_pieces_def comp_def)
qed

lemma finish_ends:
  assumes "good_call call" "conn_inv c" "\<not> c_write_running c" "m_current_wg (c_write_output_ctx c) = Some wg"
    and "rest_pieces (c_write_output_ctx c) = []"
  shows "ends (finish_handling_current_write_ctx env call c)"
proof -
  from finish_outcome [OF assms(4), of "e_throws env"] obtain called err w where
    fin: "finish_write_group (e_throws env) (c_write_output_ctx c) = Some (called, err, w)" by blast
  note inv = finish_group_inv [OF assms(2-5) fin]
  let ?c = "notify called (c\<lparr>c_write_output_ctx := w\<rparr>)"
  have "ends (and_then (if b then call Wait_for_http_message ?c else Done ?c) (init_write_if_necessary env call))" for b
    using inv good_callD(1) [OF assms(1) inv] by (intro ends_and_then init_write_if_necessary_ends [OF assms(1)]) auto
  then show ?thesis
    using inv conn_inv_socket_closed [OF inv] init_write_if_necessary_ends [OF assms(1) inv] good_callD(1) [OF assms(1) inv]
    by (cases err)
      (simp_all add: finish_handling_current_write_ctx_def fin Let_def close_connection_inv del: trace_socket)
qed

lemma handle_current_write_ctx_ends:
  assumes "good_call call" "conn_inv c" "transmitting (c_write_output_ctx c)" "\<not> c_write_running c" "0 < e_max_iov_len env"
  shows "ends (handle_current_write_ctx env call c)"
proof -
  from assms(3) obtain wg where wg: "m_current_wg (c_write_output_ctx c) = Some wg" by (auto simp: transmitting_def)
  have "0 < max_iov_len (e_max_iov_len env)" using assms(5) by (simp add: max_iov_len_def)
  from extract_takes [OF wg this] obtain wo w where
    ex: "extract_next_write_operation (max_iov_len (e_max_iov_len env)) (c_write_output_ctx c) = Some (wo, w)"
    and pieces: "rest_pieces (c_write_output_ctx c) = operation_pieces wo @ rest_pieces w"
    and w: "m_current_wg w = Some wg" and none: "wo = None_write_operation \<longleftrightarrow> rest_pieces (c_write_output_ctx c) = []"
    by metis
  show ?thesis
  proof (cases wo)
    case None_write_operation
    have "conn_inv (c\<lparr>c_write_output_ctx := w\<rparr>)"
      using assms(2) pieces w wg None_write_operation
      by (simp add: conn_inv_defs transmitting_def pending_in_ctx_def)
    then show ?thesis using ex w None_write_operation none pieces assms(1,4)
      by (auto simp: handle_current_write_ctx_def intro!: ends_catching finish_ends)
  next
    case (Trivial_buffers bufs n)
    with pieces trivial_write_inv [OF assms(2,4) wg w, of bufs env] show ?thesis
      by (auto simp: handle_current_write_ctx_def ex intro!: ends_catching)
  next
    case (File_operation sf)
    with pieces file_write_ends [OF assms(2,4) wg w, of sf env] show ?thesis
      by (auto simp: handle_current_write_ctx_def ex intro!: ends_catching)
  qed
qed

lemma exec_good:
  assumes "0 < e_max_iov_len env"
  shows "good_call (exec env n)"
proof (induction n)
  case 0
  then show ?case by (simp add: good_call_def)
next
  case (Suc n)
  have "ends (exec env (Suc n) m c)"
    if "conn_inv c" "m = Handle_current_write_ctx \<Longrightarrow> transmitting (c_write_output_ctx c) \<and> \<not> c_write_running c" for m c
    using that assms Suc
    by (cases m) (auto simp: write_response_parts_def reset_parser_inv
        intro!: wait_for_http_message_ends guards_inv ends_catching write_response_parts_impl_ends
          handle_current_write_ctx_ends handle_upgrade_request_ends)
  then show ?case by (simp add: good_call_def)
qed

subsection \<open>Events\<close>

lemma fresh_inv:
  "conn_inv (guard_read_operation env (reset_parser env
     (init_next_timeout_checking (act Notice_accepted (connection env buffer_size limits max_requests now)))))"
proof -
  have "coord_inv [] (response_coordinator max_requests) \<and> data_inv m_items [] (response_coordinator max_requests)"
    using coord_run_inv [OF coord_run.created _ mergeable_items] by simp
  moreover have "table_empty (response_context_table max_requests)"
    by (simp add: table_empty_def response_context_table_def)
  moreover have "pending_in_table (response_coordinator max_requests) = []"
    by (simp add: pending_in_table_def response_coordinator_def table_inv_new)
  ultimately show ?thesis
    by (simp add: connection_def guard_read_operation_def reset_parser_def init_next_timeout_checking_def act_def
        schedule_operation_timeout_callback_def conn_inv_defs reading_def writing_def wire_def rest_pieces_def history_pieces_def
        write_group_output_ctx_def submitted_def called_back_def pending_in_ctx_def response_coordinator_def)
qed

lemma fail_group_inv:
  assumes "conn_inv c" "\<not> c_socket_open c" "\<not> c_write_running c" "m_current_wg (c_write_output_ctx c) = Some wg"
    and "fail_write_group throws ec (c_write_output_ctx c) = Some (called, err, w)"
  shows "conn_inv (notify called (c\<lparr>c_write_output_ctx := w\<rparr>))"
proof -
  from fail_outcome [OF assms(4), of throws ec] assms(5) have "called = map (\<lambda>cb. (cb, ec)) (pending wg)" "\<not> transmitting w"
    by auto
  with assms(1-4) show ?thesis
    by (auto simp: conn_inv_defs notify_def transmitting_def pending_in_ctx_def comp_def)
qed

lemma after_write_ends:
  assumes "0 < e_max_iov_len env" "conn_inv c" "\<not> c_write_running c" "transmitting (c_write_output_ctx c)"
    and "outcome = Some Operation_aborted \<Longrightarrow> \<not> c_socket_open c"
  shows "ends (after_write env fuel outcome c)"
proof (cases outcome)
  case None
  with assms show ?thesis by (simp add: after_write_def handle_current_write_ctx_ends exec_good)
next
  case (Some ec)
  define c1 where "c1 = (if ec \<noteq> Operation_aborted then trigger_error_and_close c else c)"
  have c1: "conn_inv c1" "\<not> c_socket_open c1" "\<not> c_write_running c1" "c_write_output_ctx c1 = c_write_output_ctx c"
    using assms Some close_connection_inv [OF conn_inv_socket_closed [OF assms(2)]]
    by (auto simp: c1_def trigger_error_and_close_def)
  from assms(4) obtain wg where wg: "m_current_wg (c_write_output_ctx c1) = Some wg" using c1(4) by (auto simp: transmitting_def)
  from fail_outcome [OF wg] obtain called err w where
    fail: "fail_write_group (e_throws env) (Write_failed (error_number ec)) (c_write_output_ctx c1) = Some (called, err, w)"
    by blast
  from fail_group_inv [OF c1(1-3) wg fail] fail show ?thesis by (simp add: after_write_def Some Let_def flip: c1_def)
qed

lemma file_reset_frame [simp]:
  "transmitting (file_write_operation_reset w) = transmitting w" "rest_pieces (file_write_operation_reset w) = rest_pieces w"
  "pending_in_ctx (file_write_operation_reset w) = pending_in_ctx w"
  "m_next_writable_item_index (file_write_operation_reset w) = m_next_writable_item_index w"
  by (simp_all add: file_write_operation_reset_def transmitting_def rest_pieces_def pending_in_ctx_def split: option.split)

lemma handle_event_ends:
  assumes "0 < e_max_iov_len env" "conn_inv c" "e \<noteq> Init" "event_possible e c"
  shows "ends (handle_event env fuel e c)"
proof (cases e)
  case (Read_completed outcome)
  let ?c = "act Read_done (c\<lparr>c_read_operation_is_running := False\<rparr>)"
  have "conn_inv ?c" using assms Read_completed by (simp add: conn_inv_defs act_def)
  then show ?thesis using Read_completed assms(1)
    by (auto simp: after_read_def trigger_error_and_close_def Let_def close_inv exec_good
        intro!: ends_catching consume_data_ends split: sum.split)
next
  case (Write_completed outcome)
  let ?c = "act Write_done (c\<lparr>c_write_running := False\<rparr>)"
  from assms Write_completed have run: "c_write_running c" "transmitting (c_write_output_ctx c)" by (simp_all add: conn_inv_defs)
  then have "conn_inv ?c" using assms(2) by (simp add: conn_inv_defs act_def)
  then have "ends (after_write env fuel outcome ?c)"
    using run assms Write_completed by (intro after_write_ends) (auto simp: act_def)
  moreover have "conn_inv (c'\<lparr>c_write_output_ctx := file_write_operation_reset (c_write_output_ctx c')\<rparr>)" if "conn_inv c'" for c' :: "'a conn_t"
    using that by (simp add: conn_inv_defs)
  ultimately show ?thesis using Write_completed by (simp add: write_completed_def ends_and_then)
next
  case (Parts_sent request_id flags wg)
  with assms show ?thesis by (simp add: write_response_parts_def ends_catching write_response_parts_impl_ends exec_good)
next
  case Timer
  have "conn_inv (c\<lparr>c_timer_scheduled := False, c_socket_open := False\<rparr>)" "conn_inv (c\<lparr>c_timer_scheduled := True\<rparr>)"
    using assms(2) by (auto simp: conn_inv_defs)
  moreover have "conn_inv (c\<lparr>c_timer_scheduled := False\<rparr>)" if "c_current_timeout_cb c = None"
    using assms(2) that by (auto simp: conn_inv_defs)
  ultimately show ?thesis using Timer
    by (auto simp: check_timeout_impl_def handle_xxx_timeout_def init_next_timeout_checking_def close_connection_inv
        split: option.split)
qed (use assms in simp)

lemma conn_reach_inv:
  assumes "conn_reach env max_requests c" "0 < e_max_iov_len env"
  shows "conn_inv c"
  using assms
proof (induction rule: conn_reach.induct)
  case (started fuel buffer_size limits now c)
  then have "ends (Done c)"
    using wait_for_http_message_ends [OF exec_good fresh_inv] by (metis handle_event.simps(1) conn_init_def)
  then show ?case by simp
next
  case (event c now e fuel c')
  then have "ends (Done c')" using handle_event_ends [of env "c\<lparr>c_now := now\<rparr>" e fuel] by simp
  then show ?case by simp
qed

lemma catching_not_Raised: "catching f r \<noteq> Raised e c"
  by (cases r) (simp_all add: catching_def)

lemma consume_data_not_Raised: "consume_data env call c \<noteq> Raised e c'"
  by (simp add: consume_data_def on_request_message_complete_def catching_not_Raised case_prod_beta Let_def)

lemma handle_event_not_Raised: "handle_event env fuel e c \<noteq> Raised x c'"
proof (cases e)
  case (Write_completed outcome)
  have "after_write env fuel outcome c \<noteq> Raised x c'" for c
    by (simp add: after_write_def handle_current_write_ctx_def catching_not_Raised Let_def split: option.split)
  then show ?thesis using Write_completed
    by (auto simp: write_completed_def and_then_def split: result.split)
qed (simp_all add: conn_init_def wait_for_http_message_def after_read_def write_response_parts_def catching_not_Raised
    consume_data_not_Raised Let_def split: sum.split)

section \<open>Properties\<close>

subsection \<open>Operations on the socket and failures\<close>

text \<open>
  C2: On a connection at most one read and at most one write are ever running, whatever the parser, the handlers, the
  callbacks and the socket do; a write is running only for the current group. Handling
  an event never throws, and never asks for a current group when there is none.
\<close>

theorem one_operation_at_a_time:
  assumes "conn_reach env max_requests c" "0 < e_max_iov_len env"
  shows "reading (c_trace c) = Some (c_read_operation_is_running c) \<and>
    writing (c_trace c) = Some (c_write_running c) \<and>
    (c_write_running c \<longrightarrow> transmitting (c_write_output_ctx c)) \<and>
    (e \<noteq> Init \<and> event_possible e c \<longrightarrow>
      (\<exists>c'. handle_event env fuel e c = Done c') \<or> handle_event env fuel e c = Out_of_fuel)"
proof -
  have inv: "conn_inv c" using conn_reach_inv [OF assms] .
  have "(\<exists>c'. handle_event env fuel e c = Done c') \<or> handle_event env fuel e c = Out_of_fuel"
    if "e \<noteq> Init" "event_possible e c"
    using handle_event_ends [OF assms(2) inv that, of fuel] handle_event_not_Raised [of env fuel e c]
    by (cases "handle_event env fuel e c") auto
  with inv show ?thesis by (simp add: conn_inv_def io_inv_def)
qed

subsection \<open>Order on the wire\<close>

text \<open>The pairs of a request id and a group that were taken from the coordinator.\<close>

fun popped_groups :: "coord_event list \<Rightarrow> (u32 \<times> write_group_t) list" where
  "popped_groups [] = []"
| "popped_groups (Popped request_id wg # h) = (request_id, wg) # popped_groups h"
| "popped_groups (_ # h) = popped_groups h"

lemma popped_groups_views:
  "popped_ids h = map fst (popped_groups h)"
  "history_pieces h = concat (map (\<lambda>p. map item_piece (m_items (snd p))) (popped_groups h))"
  "popped f i h = concat (map (\<lambda>p. f (snd p)) (filter (\<lambda>p. fst p = i) (popped_groups h)))"
  by (induction h rule: popped_groups.induct) (simp_all add: history_pieces_def)

lemma group_by_key:
  fixes key :: "'a \<Rightarrow> nat"
  assumes "sorted (map key xs)" "\<forall>x\<in>set xs. key x < n"
  shows "concat (map f xs) = concat (map (\<lambda>i. concat (map f (filter (\<lambda>x. key x = i) xs))) [0..<n])"
  using assms
proof (induction n arbitrary: xs)
  case (Suc n)
  define lo hi where "lo = takeWhile (\<lambda>x. key x < n) xs" and "hi = dropWhile (\<lambda>x. key x < n) xs"
  have xs: "xs = lo @ hi" by (simp add: lo_def hi_def)
  have "sorted (map key (lo @ hi))" using Suc.prems(1) xs by simp
  then have sorted: "sorted (map key lo)" "sorted (map key hi)" by (simp_all add: sorted_append)
  have lo: "\<forall>x\<in>set lo. key x < n" by (auto simp: lo_def dest: set_takeWhileD)
  have "key x = n" if "x \<in> set hi" for x
  proof -
    have "n \<le> key x" if hi: "x \<in> set hi"
    proof -
      from hi obtain y ys where y: "hi = y # ys" by (cases hi) auto
      then have "\<not> key y < n" using hd_dropWhile [of "\<lambda>x. key x < n" xs] by (metis hi_def list.distinct(1) list.sel(1))
      then show ?thesis using sorted(2) hi y by auto
    qed
    moreover have "key x < Suc n" using Suc.prems(2) that xs by auto
    ultimately show ?thesis using that by simp
  qed
  then have "filter (\<lambda>x. key x = n) hi = hi" "\<And>i. i < n \<Longrightarrow> filter (\<lambda>x. key x = i) hi = []"
    by (auto simp: filter_empty_conv filter_id_conv)
  moreover have "filter (\<lambda>x. key x = n) lo = []" using lo by (auto simp: filter_empty_conv)
  ultimately have last: "filter (\<lambda>x. key x = n) xs = hi"
    and eq: "map (\<lambda>i. concat (map f (filter (\<lambda>x. key x = i) xs))) [0..<n] =
      map (\<lambda>i. concat (map f (filter (\<lambda>x. key x = i) lo))) [0..<n]"
    by (simp_all add: xs)
  have "concat (map (\<lambda>i. concat (map f (filter (\<lambda>x. key x = i) xs))) [0..<Suc n]) =
      concat (map (\<lambda>i. concat (map f (filter (\<lambda>x. key x = i) xs))) [0..<n]) @ concat (map f hi)"
    by (simp add: last)
  also have "\<dots> = concat (map (\<lambda>i. concat (map f (filter (\<lambda>x. key x = i) lo))) [0..<n]) @ concat (map f hi)"
    by (simp only: eq)
  finally show ?case using Suc.IH [OF sorted(1) lo] xs by (metis concat_append map_append)
qed simp

text \<open>What the client should receive: all of the response to the first request, then the second, and so on.\<close>

definition responses_wanted :: "coord_event list \<Rightarrow> piece list" where
  "responses_wanted h = concat (map (\<lambda>i. map item_piece (appended m_items (of_nat i) h)) [0..<requests h])"

lemma prefix_concat_map:
  assumes "\<And>i. i < k \<Longrightarrow> f i = g i" "prefix (f k) (g k)" "\<And>i. k < i \<Longrightarrow> i < n \<Longrightarrow> f i = []" "k < n"
  shows "prefix (concat (map f [0..<n])) (concat (map g [0..<n]))"
proof -
  have split: "[0..<n] = [0..<k] @ k # [Suc k..<n]"
    using assms(4) by (metis upt_conv_Cons upt_add_eq_append zero_le less_imp_le le_add_diff_inverse)
  have "map f [0..<k] = map g [0..<k]" using assms(1) by simp
  then have "concat (map f [0..<k]) = concat (map g [0..<k])" by (rule arg_cong)
  moreover have "concat (map f [Suc k..<n]) = []" using assms(3) by simp
  ultimately have "concat (map f [0..<n]) = concat (map g [0..<k]) @ f k" unfolding split by simp
  moreover from assms(2) obtain zs where "g k = f k @ zs" by (auto simp: prefix_def)
  then have "concat (map g [0..<n]) = (concat (map g [0..<k]) @ f k) @ zs @ concat (map g [Suc k..<n])"
    unfolding split by simp
  ultimately show ?thesis by (simp add: prefix_def)
qed

lemma sorted_le_last: "sorted xs \<Longrightarrow> x \<in> set xs \<Longrightarrow> x \<le> last xs" for xs :: "nat list"
  by (cases xs rule: rev_cases) (auto simp: sorted_append)

lemma popped_in_order:
  assumes "coord_inv h co" "data_inv m_items h co" "requests h < 2 ^ 32"
  shows "prefix (history_pieces h) (responses_wanted h)"
proof (cases "popped_groups h = []")
  case True
  then show ?thesis by (simp add: popped_groups_views)
next
  case False
  let ?f = "\<lambda>i. map item_piece (popped m_items (of_nat i) h)"
  let ?g = "\<lambda>i. map item_piece (appended m_items (of_nat i) h)"
  let ?ids = "map unat (popped_ids h)"
  define k where "k = last ?ids"
  have ids: "?ids = map (unat \<circ> fst) (popped_groups h)" by (simp add: popped_groups_views)
  have "?ids \<noteq> []" using False by (simp add: popped_groups_views)
  then have "k \<in> set ?ids" unfolding k_def by (rule last_in_set)
  then have k: "k < requests h" "k \<le> requests h - length (contexts_of (m_context_table co))"
    using assms(1) by (auto simp: coord_inv_def)
  have sorted: "sorted ?ids" and less: "\<forall>i\<in>set ?ids. i < requests h" using assms(1) by (auto simp: coord_inv_def)
  have max: "i \<le> k" if "i \<in> set ?ids" for i
    unfolding k_def using sorted that by (rule sorted_le_last)
  have small: "unat (of_nat i :: u32) = i" if "i < requests h" for i
    using that assms(3) by (simp add: unat_of_nat take_bit_nat_eq_self)
  have eq: "?g i = ?f i @ map item_piece (queued m_items (of_nat i) (contexts_of (m_context_table co)))" for i
    using assms(2) by (simp add: data_inv_def flip: map_append)
  have "history_pieces h = concat (map ?f [0..<requests h])"
  proof -
    have "history_pieces h = concat (map (\<lambda>i. concat (map (\<lambda>p. map item_piece (m_items (snd p)))
        (filter (\<lambda>p. (unat \<circ> fst) p = i) (popped_groups h)))) [0..<requests h])"
      unfolding popped_groups_views(2) using sorted less by (intro group_by_key) (auto simp: ids comp_def)
    moreover have "filter (\<lambda>p. (unat \<circ> fst) p = i) (popped_groups h) = filter (\<lambda>p. fst p = of_nat i) (popped_groups h)"
      if "i < requests h" for i
      using small [OF that] by (intro filter_cong) (auto simp: word_unat_eq_iff)
    then have "map (\<lambda>i. concat (map (\<lambda>p. map item_piece (m_items (snd p)))
        (filter (\<lambda>p. (unat \<circ> fst) p = i) (popped_groups h)))) [0..<requests h] = map ?f [0..<requests h]"
      by (intro map_cong) (simp_all add: popped_groups_views(3) map_concat comp_def)
    ultimately show ?thesis by (simp only:)
  qed
  also have "prefix \<dots> (concat (map ?g [0..<requests h]))"
  proof (rule prefix_concat_map [of k])
    fix i assume "i < k"
    then have "i < requests h" "i < requests h - length (contexts_of (m_context_table co))" using k by auto
    with small [of i] retired_queued [OF assms(1), of "of_nat i"] show "?f i = ?g i" using eq [of i] by simp
  next
    show "prefix (?f k) (?g k)" unfolding eq by simp
  next
    fix i assume i: "k < i" "i < requests h"
    then have "i \<notin> set ?ids" using max by fastforce
    then have "filter (\<lambda>p. fst p = of_nat i) (popped_groups h) = []"
      using small [OF i(2)] by (auto simp: filter_empty_conv ids image_iff)
    then show "?f i = []" by (simp add: popped_groups_views(3))
  qed (rule k(1))
  finally show ?thesis by (simp add: responses_wanted_def)
qed

text \<open>
  C1: What the client receives on a connection with fewer than \<open>2 ^ 32\<close> requests, as long as the socket is open: what was
  written is a prefix of the response to the first request, followed by the response to the second request, and so on, each
  response being all the parts that were sent for it in the order in which they were sent. This holds for
  pipelined requests too, whatever the order in which the handlers answer them.
\<close>

theorem responses_on_the_wire:
  assumes "conn_reach env max_requests c" "0 < e_max_iov_len env" "requests (c_history c) < 2 ^ 32" "c_socket_open c"
  shows "prefix (wire (c_trace c)) (responses_wanted (c_history c))"
proof -
  have inv: "conn_inv c" using conn_reach_inv [OF assms(1,2)] .
  with assms(3,4) have "prefix (history_pieces (c_history c)) (responses_wanted (c_history c))"
    by (intro popped_in_order [of _ "c_response_coordinator c"]) (simp_all add: conn_inv_defs few_requests_def)
  moreover have "prefix (wire (c_trace c)) (history_pieces (c_history c))"
    using inv assms(4) by (simp add: conn_inv_defs prefix_def) metis
  ultimately show ?thesis by (rule prefix_order.trans [rotated])
qed

subsection \<open>Callbacks\<close>

text \<open>
  C3: On a connection with fewer than \<open>2 ^ 32\<close> requests, every callback that came with a part of a response is called exactly once or still waits: the callbacks of all
  parts that were sent to the connection are those that have been called, the one of the current group and those of the groups
  in the coordinator, and none of them twice. So when the coordinator is empty and nothing is being
  written, as after the connection was closed, every callback has been called.
\<close>

theorem callbacks_accounted:
  assumes "conn_reach env max_requests c" "0 < e_max_iov_len env" "requests (c_history c) < 2 ^ 32"
  shows "mset (submitted (c_trace c)) =
      mset (called_back (c_trace c)) + mset (pending_in_ctx (c_write_output_ctx c)) +
      mset (pending_in_table (c_response_coordinator c)) \<and>
    (\<not> transmitting (c_write_output_ctx c) \<and> table_empty (m_context_table (c_response_coordinator c)) \<longrightarrow>
      mset (submitted (c_trace c)) = mset (called_back (c_trace c)))"
proof -
  have inv: "coord_inv (c_history c) (c_response_coordinator c)"
    and sum: "mset (submitted (c_trace c)) = mset (called_back (c_trace c)) + mset (pending_in_ctx (c_write_output_ctx c)) +
      mset (pending_in_table (c_response_coordinator c))"
    using conn_reach_inv [OF assms(1,2)] assms(3) by (simp_all add: conn_inv_defs few_requests_def)
  have "pending_in_table (c_response_coordinator c) = []" if "table_empty (m_context_table (c_response_coordinator c))"
    using that rq.is_empty_iff [of "m_context_table (c_response_coordinator c)"] inv
    by (simp add: coord_inv_def pending_in_table_def)
  with sum show ?thesis by (auto simp: transmitting_def pending_in_ctx_def)
qed

subsection \<open>Timeouts\<close>

text \<open>
  C11: A connection that never saw an upgrade request is always guarded while its socket is open: the next check of the
  timeouts is scheduled, and an operation to be guarded is set. A check after the limit of that operation closes the
  connection, and every other check schedules the next one.
\<close>

theorem open_connection_is_guarded:
  assumes "conn_reach env max_requests c" "0 < e_max_iov_len env" "c_socket_open c" "c_upgrade_stage c = No_upgrade"
  shows "c_timer_scheduled c \<and> c_current_timeout_cb c \<noteq> None \<and>
    (\<exists>c'. handle_event env fuel Timer (c\<lparr>c_now := now\<rparr>) = Done c' \<and>
      (if c_current_timeout_after c < now then \<not> c_socket_open c' \<and> Notice_closed \<in> set (c_trace c')
       else c_socket_open c' \<and> c_timer_scheduled c'))"
proof -
  have "c_timer_scheduled c" "c_current_timeout_cb c \<noteq> None"
    using conn_reach_inv [OF assms(1,2)] assms(3,4) by (auto simp: conn_inv_defs)
  then show ?thesis using assms(3)
    by (auto simp: check_timeout_impl_def handle_xxx_timeout_def close_connection_def init_next_timeout_checking_def
        act_def notify_def cancel_timeout_checking_def Let_def split: prod.splits)
qed

subsection \<open>A sample connection\<close>

text \<open>
  A parser for which every byte is a request, and a handler that answers at once, with a callback numbered after the
  request. Two requests arrive together; the response to the first one is written, then the one to the second.
\<close>

definition sample_conn_env :: "unit env" where
  "sample_conn_env =
     \<lparr>e_parser_init = (), e_execute = (\<lambda>p ctx s. ((), ctx\<lparr>px_message_complete := True\<rparr>, 1, HPE_PAUSED)),
      e_upgrade = (\<lambda>_. False), e_nread = (\<lambda>_. 0), e_nodejs_code = (\<lambda>_. 0),
      e_handler = (\<lambda>n rq. ([Send_parts (rq_id rq) \<lparr>m_response_parts = Final_parts, m_response_connection = Connection_keepalive\<rparr>
         (set_after_write_notificator n (write_group [Const_buf (if n = 0 then ''one'' else ''two'')]))], Accepted)),
      e_throws = (\<lambda>_. False), e_max_iov_len = 16, e_read_next_http_message_timelimit = 60,
      e_write_http_response_timelimit = 5, e_handle_request_timeout = 10\<rparr>"

definition done_or :: "'p conn_t \<Rightarrow> 'p result \<Rightarrow> 'p conn_t" where
  "done_or c r = (case r of Done c' \<Rightarrow> c' | _ \<Rightarrow> c)"

definition sample_start :: "unit conn_t" where
  "sample_start = connection sample_conn_env 4 small_limits 3 0"

definition sample_waiting :: "unit conn_t" where
  "sample_waiting = done_or sample_start (handle_event sample_conn_env 8 Init sample_start)"

definition sample_answered :: "unit conn_t" where
  "sample_answered = done_or sample_start (handle_event sample_conn_env 8 (Read_completed (Inr ''ab'')) sample_waiting)"

definition sample_written :: "unit conn_t" where
  "sample_written = done_or sample_start (handle_event sample_conn_env 8 (Write_completed None) sample_answered)"

definition is_done :: "'p result \<Rightarrow> bool" where
  "is_done r = (case r of Done c \<Rightarrow> True | _ \<Rightarrow> False)"

lemma is_done_iff: "is_done r \<Longrightarrow> r = Done (done_or c r)"
  by (cases r) (simp_all add: is_done_def done_or_def)

lemma now_same: "c\<lparr>c_now := c_now c\<rparr> = c" for c :: "'p conn_t"
  by simp

lemma sample_reach:
  "conn_reach sample_conn_env 3 sample_waiting" "conn_reach sample_conn_env 3 sample_answered" "conn_reach sample_conn_env 3 sample_written"
proof -
  have "is_done (handle_event sample_conn_env 8 Init sample_start)" by code_simp
  then have "handle_event sample_conn_env 8 Init sample_start = Done sample_waiting"
    unfolding sample_waiting_def by (rule is_done_iff)
  then show 1: "conn_reach sample_conn_env 3 sample_waiting" unfolding sample_start_def by (rule conn_reach.started)
  have "is_done (handle_event sample_conn_env 8 (Read_completed (Inr ''ab'')) sample_waiting)" by code_simp
  then have "handle_event sample_conn_env 8 (Read_completed (Inr ''ab'')) sample_waiting = Done sample_answered"
    unfolding sample_answered_def by (rule is_done_iff)
  moreover have "event_possible (Read_completed (Inr ''ab'')) sample_waiting" by code_simp
  ultimately show 2: "conn_reach sample_conn_env 3 sample_answered"
    using conn_reach.event [OF 1, of "c_now sample_waiting" "Read_completed (Inr ''ab'')" 8 sample_answered] by simp
  have "is_done (handle_event sample_conn_env 8 (Write_completed None) sample_answered)" by code_simp
  then have "handle_event sample_conn_env 8 (Write_completed None) sample_answered = Done sample_written"
    unfolding sample_written_def by (rule is_done_iff)
  moreover have "event_possible (Write_completed None) sample_answered" by code_simp
  ultimately show "conn_reach sample_conn_env 3 sample_written"
    using conn_reach.event [OF 2, of "c_now sample_answered" "Write_completed None" 8 sample_written] by simp
qed

lemma sample_iov: "0 < e_max_iov_len sample_conn_env"
  by (simp add: sample_conn_env_def)

theorem one_operation_at_a_time_witness:
  "reading (c_trace sample_answered) = Some (c_read_operation_is_running sample_answered) \<and> writing (c_trace sample_answered) = Some True"
proof -
  have "c_write_running sample_answered" by code_simp
  with one_operation_at_a_time [OF sample_reach(2) sample_iov] show ?thesis by simp
qed

theorem responses_on_the_wire_witness:
  "prefix (wire (c_trace sample_written)) (responses_wanted (c_history sample_written)) \<and>
   wire (c_trace sample_written) = [Bytes ''one'', Bytes ''two'']"
proof -
  have "requests (c_history sample_written) = 2" "c_socket_open sample_written"
    "wire (c_trace sample_written) = [Bytes ''one'', Bytes ''two'']"
    by code_simp+
  with responses_on_the_wire [OF sample_reach(3) sample_iov] show ?thesis by simp
qed

theorem callbacks_accounted_witness:
  "mset (submitted (c_trace sample_written)) =
     mset (called_back (c_trace sample_written)) + mset (pending_in_ctx (c_write_output_ctx sample_written)) +
     mset (pending_in_table (c_response_coordinator sample_written)) \<and> called_back (c_trace sample_written) = [0]"
proof -
  have "requests (c_history sample_written) = 2" "called_back (c_trace sample_written) = [0]" by code_simp+
  with callbacks_accounted [OF sample_reach(3) sample_iov] show ?thesis by simp
qed

theorem open_connection_is_guarded_witness: "c_timer_scheduled sample_written \<and> c_current_timeout_cb sample_written \<noteq> None"
proof -
  have "c_socket_open sample_written" "c_upgrade_stage sample_written = No_upgrade" by code_simp+
  with open_connection_is_guarded [OF sample_reach(3) sample_iov] show ?thesis by simp
qed

end
