(* ===== verification/Connection_Runs.thy ===== *)
theory Connection_Runs
  imports Connection
begin

text \<open>
  Runs of a connection. The bound of \<open>exec\<close> on the depth of the calls is no restriction: with a
  parser that consumes at least one byte of every message, and with answers to upgrade requests that have something to write, every event is handled to its end by some depth, and by every
  greater one alike. Then what happens after an upgrade request that is answered
  like any other request, and after a read and a write that fail at the same time.
\<close>

section \<open>Every event is handled to its end\<close>

text \<open>The value that a computation has for every large enough depth.\<close>

definition settles :: "(nat \<Rightarrow> 'r) \<Rightarrow> 'r \<Rightarrow> bool" where
  "settles f r \<longleftrightarrow> (\<exists>N. \<forall>n\<ge>N. f n = r)"

lemma settles_const: "settles (\<lambda>_. r) r"
  by (auto simp: settles_def)

lemma settles_comp: "settles f r \<Longrightarrow> settles (\<lambda>n. g (f n)) (g r)"
  by (auto simp: settles_def)

lemma settles_then:
  assumes "settles f r" "settles (\<lambda>n. g n r) r'"
  shows "settles (\<lambda>n. g n (f n)) r'"
proof -
  from assms obtain N M where "\<forall>n\<ge>N. f n = r" "\<forall>n\<ge>M. g n r = r'" by (auto simp: settles_def)
  then show ?thesis unfolding settles_def by (intro exI [of _ "max N M"]) auto
qed

lemma settles_Suc: "settles (\<lambda>n. f (Suc n)) r \<Longrightarrow> settles f r"
proof -
  assume "settles (\<lambda>n. f (Suc n)) r"
  then obtain N where "\<forall>n\<ge>N. f (Suc n) = r" by (auto simp: settles_def)
  then have "f n = r" if "Suc N \<le> n" for n using that by (cases n) auto
  then show ?thesis by (auto simp: settles_def)
qed

subsection \<open>What bounds the depth\<close>

text \<open>
  The bytes that wait in the buffer, and the write groups in all cells of the table, whether they are in use
  or not. For the second number only the bounds of the indices matter, not the ids, so it also works
  after ids have wrapped around. A group with an item starts a write, which ends the work on the event, so while the
  socket is open only the groups without an item are counted. When it is closed nothing is added to the table, and all groups are counted.
\<close>

definition bytes_left :: "'p conn_t \<Rightarrow> nat" where
  "bytes_left c = fb_ready_length (c_buf c)"

definition slots_ok :: "response_context_table_t \<Rightarrow> bool" where
  "slots_ok t \<longleftrightarrow> m_elements_exists t \<le> length (m_contexts t) \<and> (m_first_element_index t < length (m_contexts t) \<or> m_contexts t = [])"

definition counted :: "bool \<Rightarrow> write_group_t \<Rightarrow> bool" where
  "counted over wg \<longleftrightarrow> over \<or> m_items wg = []"

definition group_count :: "bool \<Rightarrow> response_context_t \<Rightarrow> nat" where
  "group_count over ctx = length (filter (counted over) (m_write_groups ctx))"

definition slot_groups :: "bool \<Rightarrow> response_context_table_t \<Rightarrow> nat" where
  "slot_groups over t = sum_list (map (group_count over) (m_contexts t))"

definition groups_left :: "bool \<Rightarrow> 'p conn_t \<Rightarrow> nat" where
  "groups_left over c = slot_groups over (m_context_table (c_response_coordinator c))"

text \<open>
  The parts of the responses of the handler have items. This is relied on only when there are upgrades: an upgrade request that
  is answered is handed to the handler again once the answer is written, so answers without anything to write would follow each
  other without end.
\<close>

fun has_items :: "handler_action \<Rightarrow> bool" where
  "has_items (Send_parts request_id flags wg) \<longleftrightarrow> m_items wg \<noteq> []"
| "has_items Take_socket \<longleftrightarrow> True"

definition parts_have_items :: "'p env \<Rightarrow> bool" where
  "parts_have_items env \<longleftrightarrow> (\<forall>k request. list_all has_items (fst (e_handler env k request)))"

definition upgrades_are_answered :: "'p env \<Rightarrow> bool" where
  "upgrades_are_answered env \<longleftrightarrow> (\<forall>p. e_upgrade env p \<longrightarrow> parts_have_items env)"

text \<open>
  A write that failed leaves the index of the next item behind, and the socket closed. The flag \<open>over\<close> says which of the two holds: the socket is closed
  for good, or a group that is started next is written from its first item.
\<close>

definition stale :: "write_group_output_ctx_t \<Rightarrow> bool" where
  "stale ctx \<longleftrightarrow> m_current_wg ctx = None \<and> m_next_writable_item_index ctx \<noteq> 0"

definition plain :: "'p env \<Rightarrow> bool \<Rightarrow> 'p conn_t \<Rightarrow> bool" where
  "plain env over c \<longleftrightarrow>
     (c_upgrade_stage c \<noteq> No_upgrade \<longrightarrow> parts_have_items env) \<and> slots_ok (m_context_table (c_response_coordinator c)) \<and>
     (if over then \<not> c_socket_open c else \<not> stale (c_write_output_ctx c))"

lemma sum_list_update_at:
  fixes f :: "'a \<Rightarrow> nat"
  shows "i < length xs \<Longrightarrow> sum_list (map f (xs[i := x])) + f (xs ! i) = sum_list (map f xs) + f x"
proof (induction xs arbitrary: i)
  case (Cons y ys)
  then show ?case by (cases i) simp_all
qed simp

lemma slot_groups_update:
  "i < length (m_contexts t) \<Longrightarrow>
   slot_groups over (put_context i ctx t) + group_count over (m_contexts t ! i) = slot_groups over t + group_count over ctx"
  using sum_list_update_at [of i "m_contexts t" "group_count over" ctx] by (simp add: slot_groups_def put_context_def)

lemma put_context_slots [simp]: "slots_ok (put_context i ctx t) = slots_ok t"
  by (simp add: slots_ok_def put_context_def)

lemma register_slots:
  assumes "register_new_request co = Inr (request_id, co')" "slots_ok (m_context_table co)"
  shows "slots_ok (m_context_table co') \<and> slot_groups over (m_context_table co') = slot_groups over (m_context_table co)"
proof -
  let ?t = "m_context_table co"
  let ?i = "(m_first_element_index ?t + m_elements_exists ?t) mod length (m_contexts ?t)"
  let ?t' = "put_context ?i (reinit (m_request_id_counter co) (m_contexts ?t ! ?i)) ?t"
  have full: "\<not> table_is_full ?t" and t': "m_context_table co' = ?t'\<lparr>m_elements_exists := m_elements_exists ?t' + 1\<rparr>"
    using assms(1) by (auto simp: register_new_request_def push_response_context_def Let_def split: sum.splits if_splits)
  have "?i < length (m_contexts ?t)"
    using full assms(2) by (auto simp: table_is_full_def slots_ok_def intro!: mod_less_divisor)
  from slot_groups_update [OF this, of over "reinit (m_request_id_counter co) (m_contexts ?t ! ?i)"]
  have "slot_groups over ?t' = slot_groups over ?t" by (simp add: group_count_def reinit_def)
  with full t' assms(2) show ?thesis
    by (auto simp: slots_ok_def slot_groups_def table_is_full_def put_context_def)
qed

lemma enqueue_count: "group_count over (enqueue_group wg ctx) \<le> group_count over ctx + (if counted over wg then 1 else 0)"
  by (cases "m_write_groups ctx" rule: rev_cases) (auto simp: enqueue_group_def group_count_def counted_def merge_groups_def)

lemma append_slots:
  assumes "append_response request_id flags wg co = (Inr co', called)" "slots_ok (m_context_table co)"
  shows "slots_ok (m_context_table co') \<and>
    slot_groups over (m_context_table co') \<le> slot_groups over (m_context_table co) + (if counted over wg then 1 else 0)"
proof -
  let ?t = "m_context_table co"
  obtain i where i: "get_by_req_id request_id ?t = Some i"
    and t': "m_context_table co' = put_context i (enqueue_group wg ((m_contexts ?t ! i)\<lparr>m_response_output_flags := flags\<rparr>)) ?t"
    using assms(1) by (auto simp: append_response_def Let_def split: if_splits option.splits)
  have "i < length (m_contexts ?t)"
    using i assms(2) by (auto simp: get_by_req_id_def get_real_index_def table_empty_def slots_ok_def Let_def split: if_splits
        intro!: mod_less_divisor)
  from slot_groups_update [OF this, of over "enqueue_group wg ((m_contexts ?t ! i)\<lparr>m_response_output_flags := flags\<rparr>)"]
    enqueue_count [of over wg "(m_contexts ?t ! i)\<lparr>m_response_output_flags := flags\<rparr>"]
  show ?thesis using t' assms(2) by (simp add: group_count_def split: if_splits)
qed

lemma pop_slots:
  assumes "pop_ready_buffers co = Inr (Some (wg, request_id), co')" "slots_ok (m_context_table co)"
  shows "slots_ok (m_context_table co') \<and>
    slot_groups over (m_context_table co') + (if counted over wg then 1 else 0) = slot_groups over (m_context_table co)"
proof -
  let ?t = "m_context_table co" and ?i = "m_first_element_index (m_context_table co)"
  have ne: "\<not> table_empty ?t" "\<not> context_empty (table_front ?t)"
    using assms(1) by (auto simp: pop_ready_buffers_def split: if_splits)
  with assms(2) have i: "?i < length (m_contexts ?t)" "0 < m_elements_exists ?t" by (auto simp: slots_ok_def table_empty_def)
  let ?ctx = "snd (dequeue_group (table_front ?t))"
  let ?t1 = "put_context ?i ?ctx ?t"
  have wg: "wg = hd (m_write_groups (m_contexts ?t ! ?i))"
    using assms(1) ne by (auto simp: pop_ready_buffers_def dequeue_group_def table_front_def Let_def split: if_splits sum.splits)
  then have "group_count over ?ctx + (if counted over wg then 1 else 0) = group_count over (m_contexts ?t ! ?i)"
    using ne(2) by (cases "m_write_groups (m_contexts ?t ! ?i)")
      (simp_all add: dequeue_group_def table_front_def context_empty_def group_count_def)
  with slot_groups_update [OF i(1), of over ?ctx]
  have less: "slot_groups over ?t1 + (if counted over wg then 1 else 0) = slot_groups over ?t" by simp
  have ok1: "slots_ok ?t1" using assms(2) by simp
  have pop: "slots_ok t' \<and> slot_groups over t' = slot_groups over ?t1" if "pop_response_context ?t1 = Inr t'" for t'
    using that ok1 i
    by (auto simp: pop_response_context_def pop_response_context_nonchecked_def slots_ok_def slot_groups_def put_context_def Let_def
        split: if_splits)
  have "m_context_table co' = ?t1 \<or> pop_response_context ?t1 = Inr (m_context_table co')"
    using assms(1) ne by (auto simp: pop_ready_buffers_def Let_def case_prod_beta split: if_splits sum.splits)
  with pop less ok1 show ?thesis by auto
qed

lemma reset_slots:
  "slots_ok t \<Longrightarrow> slots_ok (snd (reset_table t)) \<and> slot_groups over (snd (reset_table t)) \<le> slot_groups over t"
proof (induction t rule: reset_table.induct)
  case (1 t)
  show ?case
  proof (cases "table_empty t")
    case True
    with 1(2) show ?thesis by (simp add: reset_table.simps)
  next
    case False
    let ?i = "m_first_element_index t" and ?ctx = "snd (drain_context (table_front t))"
    let ?t = "pop_response_context_nonchecked (put_context ?i ?ctx t)"
    from False 1(2) have i: "?i < length (m_contexts t)" "0 < m_elements_exists t" by (auto simp: slots_ok_def table_empty_def)
    have "group_count over ?ctx = 0" by (simp add: drain_context_eq group_count_def)
    with slot_groups_update [OF i(1), of over ?ctx] have le: "slot_groups over (put_context ?i ?ctx t) \<le> slot_groups over t" by simp
    have "slots_ok ?t" "slot_groups over ?t = slot_groups over (put_context ?i ?ctx t)"
      using 1(2) i by (auto simp: pop_response_context_nonchecked_def slots_ok_def slot_groups_def put_context_def Let_def)
    with 1(1) [OF False prod.collapse refl] le False show ?thesis
      by (subst (1 2) reset_table.simps) (simp add: case_prod_beta Let_def)
  qed
qed

text \<open>How the context of the output goes through its methods.\<close>

lemma extract_keeps:
  assumes "extract_next_write_operation k ctx = Some (wo, out)"
  shows "m_current_wg out = m_current_wg ctx \<and> m_current_wg ctx \<noteq> None \<and>
    (wo = None_write_operation \<longleftrightarrow> (\<exists>wg. m_current_wg ctx = Some wg \<and> length (m_items wg) \<le> m_next_writable_item_index ctx))"
  using assms
  by (auto simp: extract_next_write_operation_def prepare_trivial_buffers_wo_def prepare_sendfile_wo_def Let_def
      split: option.splits if_splits writable_item_t.splits)

lemma finish_not_stale: "finish_write_group throws ctx = Some (called, err, out) \<Longrightarrow> \<not> stale out"
  by (auto simp: finish_write_group_def invoke_after_write_notificator_if_necessary_def reset_write_group_def stale_def Let_def
      case_prod_beta split: option.splits if_splits)

subsection \<open>More depth does not change a result\<close>

type_synonym 'p caller = "call \<Rightarrow> 'p conn_t \<Rightarrow> 'p result"

definition below :: "'p caller \<Rightarrow> 'p caller \<Rightarrow> bool" where
  "below call call' \<longleftrightarrow> (\<forall>m c. call m c \<noteq> Out_of_fuel \<longrightarrow> call' m c = call m c)"

lemma belowD: "below call call' \<Longrightarrow> call m c \<noteq> Out_of_fuel \<Longrightarrow> call' m c = call m c"
  by (simp add: below_def)

lemma and_then_below:
  assumes "and_then r f \<noteq> Out_of_fuel" "r \<noteq> Out_of_fuel \<Longrightarrow> r' = r" "\<And>c. f c \<noteq> Out_of_fuel \<Longrightarrow> f' c = f c"
  shows "and_then r' f' = and_then r f"
  using assms by (cases r) (auto simp: and_then_def)

lemma catching_below: "catching f r \<noteq> Out_of_fuel \<longleftrightarrow> r \<noteq> Out_of_fuel"
  by (cases r) (auto simp: catching_def)

lemma run_actions_below:
  assumes "below call call'" "run_actions call actions c \<noteq> Out_of_fuel"
  shows "run_actions call' actions c = run_actions call actions c"
  using assms(2)
proof (induction actions arbitrary: c)
  case (Cons a actions)
  then show ?case by (cases a) (auto intro!: and_then_below belowD [OF assms(1)])
qed simp

lemma call_request_handler_below:
  assumes "below call call'" "call_request_handler env call request_id switch c \<noteq> Out_of_fuel"
    "\<And>status c. switch status c \<noteq> Out_of_fuel \<Longrightarrow> switch' status c = switch status c"
  shows "call_request_handler env call' request_id switch' c = call_request_handler env call request_id switch c"
  using assms(2,3) unfolding call_request_handler_def Let_def case_prod_beta
  by (intro and_then_below run_actions_below [OF assms(1)]) auto

lemma init_write_below:
  assumes "below call call'" "init_write env call c \<noteq> Out_of_fuel"
  shows "init_write env call' c = init_write env call c"
  using assms(2) belowD [OF assms(1)] by (auto simp: init_write_def Let_def case_prod_beta split: sum.splits option.splits)

lemma init_write_if_necessary_below:
  assumes "below call call'" "init_write_if_necessary env call c \<noteq> Out_of_fuel"
  shows "init_write_if_necessary env call' c = init_write_if_necessary env call c"
  using assms(2) init_write_below [OF assms(1)] by (auto simp: init_write_if_necessary_def split: if_splits)

lemma write_response_parts_impl_below:
  assumes "below call call'" "write_response_parts_impl env call request_id flags wg c \<noteq> Out_of_fuel"
  shows "write_response_parts_impl env call' request_id flags wg c = write_response_parts_impl env call request_id flags wg c"
proof -
  let ?asks = "Wait_for_upgrade_handling_result_or_nothing = c_upgrade_stage c \<and> \<not> table_is_full (m_context_table (c_response_coordinator c))"
  have "(if ?asks then call' Wait_for_http_message c else Done c) = (if ?asks then call Wait_for_http_message c else Done c)"
    if "c_socket_open c"
    using assms(2) that belowD [OF assms(1), of Wait_for_http_message c]
    by (cases "call Wait_for_http_message c = Out_of_fuel") (auto simp: write_response_parts_impl_def Let_def)
  then show ?thesis
    using assms(2)
    by (auto simp: write_response_parts_impl_def Let_def split: result.splits sum.splits prod.splits if_splits
        intro!: init_write_if_necessary_below [OF assms(1)])
qed

lemma write_response_parts_below:
  assumes "below call call'" "write_response_parts env call request_id flags wg c \<noteq> Out_of_fuel"
  shows "write_response_parts env call' request_id flags wg c = write_response_parts env call request_id flags wg c"
  using assms(2) write_response_parts_impl_below [OF assms(1)] by (simp add: write_response_parts_def catching_below)

lemma register_request_below:
  assumes "register_request f c \<noteq> Out_of_fuel" "\<And>request_id c. f request_id c \<noteq> Out_of_fuel \<Longrightarrow> f' request_id c = f request_id c"
  shows "register_request f' c = register_request f c"
  using assms by (auto simp: register_request_def split: sum.splits)

lemma handle_upgrade_request_below:
  assumes "below call call'" "handle_upgrade_request env call c \<noteq> Out_of_fuel"
  shows "handle_upgrade_request env call' c = handle_upgrade_request env call c"
  using assms(2) unfolding handle_upgrade_request_def Let_def refuse_request_def
  by (intro register_request_below call_request_handler_below [OF assms(1)])
    (auto intro: write_response_parts_impl_below [OF assms(1)] split: if_splits)

lemma on_request_message_complete_below:
  assumes "below call call'" "on_request_message_complete env call c \<noteq> Out_of_fuel"
  shows "on_request_message_complete env call' c = on_request_message_complete env call c"
proof -
  let ?f = "\<lambda>call request_id c. call_request_handler env call request_id
      (\<lambda>status c. if status = Not_handled \<or> status = Rejected then refuse_request env call request_id c
         else if is_able_to_get_more_messages (c_response_coordinator c) then call Wait_for_http_message c else Done c)
      (guard_request_handling_operation env c)"
  have "?f call' request_id d = ?f call request_id d" if "?f call request_id d \<noteq> Out_of_fuel" for request_id d
    using that by (intro call_request_handler_below [OF assms(1)])
      (auto simp: refuse_request_def intro: write_response_parts_impl_below [OF assms(1)] belowD [OF assms(1)] split: if_splits)
  then have "register_request (?f call') d = register_request (?f call) d" if "register_request (?f call) d \<noteq> Out_of_fuel" for d
    using that by (rule register_request_below [rotated])
  then show ?thesis
    using assms(2) belowD [OF assms(1)] by (auto simp: on_request_message_complete_def Let_def catching_below split: if_splits)
qed

lemma consume_data_below:
  assumes "below call call'" "consume_data env call c \<noteq> Out_of_fuel"
  shows "consume_data env call' c = consume_data env call c"
  using assms(2) on_request_message_complete_below [OF assms(1)]
  by (auto simp: consume_data_def Let_def case_prod_beta split: if_splits)

lemma wait_for_http_message_below:
  assumes "below call call'" "wait_for_http_message env call c \<noteq> Out_of_fuel"
  shows "wait_for_http_message env call' c = wait_for_http_message env call c"
  using assms(2) consume_data_below [OF assms(1)] by (auto simp: wait_for_http_message_def Let_def split: if_splits)

lemma handle_current_write_ctx_below:
  assumes "below call call'" "handle_current_write_ctx env call c \<noteq> Out_of_fuel"
  shows "handle_current_write_ctx env call' c = handle_current_write_ctx env call c"
proof -
  have "finish_handling_current_write_ctx env call' d = finish_handling_current_write_ctx env call d"
    if "finish_handling_current_write_ctx env call d \<noteq> Out_of_fuel" for d
    using that
    by (auto simp: finish_handling_current_write_ctx_def Let_def split: option.splits if_splits
        intro!: and_then_below belowD [OF assms(1)] init_write_if_necessary_below [OF assms(1)])
  then show ?thesis
    using assms(2)
    by (auto simp: handle_current_write_ctx_def Let_def catching_below split: option.splits solid_write_operation_variant_t.splits)
qed

lemma exec_below: "below (exec env n) (exec env (Suc n))"
proof (induction n)
  case (Suc n)
  show ?case unfolding below_def
  proof (intro allI impI)
    fix m c
    assume "exec env (Suc n) m c \<noteq> Out_of_fuel"
    then show "exec env (Suc (Suc n)) m c = exec env (Suc n) m c"
      by (cases m) (simp_all del: exec.simps(1) add: wait_for_http_message_below [OF Suc] write_response_parts_below [OF Suc]
          handle_current_write_ctx_below [OF Suc] handle_upgrade_request_below [OF Suc])
  qed
qed (simp add: below_def)

lemma handle_event_more:
  assumes "handle_event env n e c \<noteq> Out_of_fuel" "n \<le> k"
  shows "handle_event env k e c = handle_event env n e c"
proof -
  have step: "handle_event env (Suc j) e c = handle_event env j e c" if "handle_event env j e c \<noteq> Out_of_fuel" for j
  proof (cases e)
    case (Read_completed outcome)
    with that show ?thesis using consume_data_below [OF exec_below [of env j]]
      by (cases outcome) (simp_all add: after_read_def Let_def catching_below)
  next
    case (Write_completed outcome)
    with that show ?thesis using handle_current_write_ctx_below [OF exec_below [of env j]]
      by (cases outcome) (auto simp: write_completed_def after_write_def intro!: and_then_below)
  qed (use that wait_for_http_message_below [OF exec_below [of env j]] write_response_parts_below [OF exec_below [of env j]] in
      \<open>simp_all add: conn_init_def\<close>)
  from assms(2) show ?thesis
    by (induction rule: dec_induct) (use step assms(1) in simp_all)
qed

subsection \<open>Enough depth gives a result\<close>

text \<open>
  What is relied on in the parser: a message that was not complete before is complete only after at least one byte of it was consumed.
\<close>

definition parser_progress :: "'p env \<Rightarrow> bool" where
  "parser_progress env \<longleftrightarrow>
     (\<forall>p ctx bytes. \<not> px_message_complete ctx \<and> px_message_complete (fst (snd (e_execute env p ctx bytes))) \<longrightarrow>
        0 < fst (snd (snd (e_execute env p ctx bytes))))"

definition runs :: "(nat \<Rightarrow> 'p result) \<Rightarrow> ('p result \<Rightarrow> bool) \<Rightarrow> bool" where
  "runs f Q \<longleftrightarrow> (\<exists>r. settles f r \<and> Q r)"

text \<open>A result whose states, normal or exceptional, satisfy a predicate.\<close>

fun with_state :: "('p conn_t \<Rightarrow> bool) \<Rightarrow> 'p result \<Rightarrow> bool" where
  "with_state P (Done c) = P c"
| "with_state P (Raised e c) = P c"
| "with_state P Undefined = True"
| "with_state P Out_of_fuel = False"

lemma with_state_mono: "with_state P r \<Longrightarrow> (\<And>c. P c \<Longrightarrow> P' c) \<Longrightarrow> with_state P' r"
  by (cases r) auto

lemma runs_const: "Q r \<Longrightarrow> runs (\<lambda>_. r) Q"
  unfolding runs_def by (rule exI [of _ r]) (simp add: settles_const)

lemma runs_mono: "runs f (with_state P) \<Longrightarrow> (\<And>c. P c \<Longrightarrow> P' c) \<Longrightarrow> runs f (with_state P')"
  unfolding runs_def by (blast intro: with_state_mono)

lemma runs_Suc: "runs (\<lambda>n. f (Suc n)) Q \<Longrightarrow> runs f Q"
  unfolding runs_def by (elim exE conjE) (intro exI conjI, erule settles_Suc)

lemma runs_if: "(b \<Longrightarrow> runs f Q) \<Longrightarrow> (\<not> b \<Longrightarrow> runs g Q) \<Longrightarrow> runs (\<lambda>n. if b then f n else g n) Q"
  by (cases b) simp_all

lemma runs_and_then:
  assumes "runs f (with_state P)" "\<And>c. P c \<Longrightarrow> runs (\<lambda>n. g n c) (with_state P')" "\<And>c. P c \<Longrightarrow> P' c"
  shows "runs (\<lambda>n. and_then (f n) (g n)) (with_state P')"
proof -
  from assms(1) obtain r where r: "settles f r" "with_state P r" by (auto simp: runs_def)
  have "runs (\<lambda>n. and_then r (g n)) (with_state P')"
    using r(2) assms(2,3) by (cases r) (auto simp: and_then_def intro: runs_const)
  with settles_then [OF r(1), of "\<lambda>n r. and_then r (g n)"] show ?thesis by (auto simp: runs_def)
qed

lemma runs_catching:
  assumes "runs f (with_state P)" "\<And>c. P c \<Longrightarrow> P' c" "\<And>c. P c \<Longrightarrow> P' (h c)"
  shows "runs (\<lambda>n. catching h (f n)) (with_state P')"
proof -
  from assms(1) obtain r where r: "settles f r" "with_state P r" by (auto simp: runs_def)
  then have "with_state P' (catching h r)" using assms(2,3) by (cases r) (auto simp: catching_def)
  with settles_comp [OF r(1), of "catching h"] show ?thesis by (auto simp: runs_def)
qed

text \<open>The states below a bound on the bytes, and those that are also below a bound on the groups, which is strict in the last one.\<close>

definition at_most :: "'p env \<Rightarrow> bool \<Rightarrow> nat \<Rightarrow> 'p conn_t \<Rightarrow> bool" where
  "at_most env over b c \<longleftrightarrow> plain env over c \<and> bytes_left c \<le> b"

definition at_most2 :: "'p env \<Rightarrow> bool \<Rightarrow> nat \<Rightarrow> nat \<Rightarrow> 'p conn_t \<Rightarrow> bool" where
  "at_most2 env over b g c \<longleftrightarrow> plain env over c \<and> (bytes_left c < b \<or> bytes_left c = b \<and> groups_left over c \<le> g)"

definition less_than2 :: "'p env \<Rightarrow> bool \<Rightarrow> nat \<Rightarrow> nat \<Rightarrow> 'p conn_t \<Rightarrow> bool" where
  "less_than2 env over b g c \<longleftrightarrow> plain env over c \<and> (bytes_left c < b \<or> bytes_left c = b \<and> groups_left over c < g)"

lemmas measure_defs = at_most_def at_most2_def less_than2_def plain_def bytes_left_def groups_left_def

lemmas small_steps = act_def notify_def consume_message_def schedule_operation_timeout_callback_def guard_read_operation_def
  guard_request_handling_operation_def guard_write_operation_def guard_sendfile_operation_def cancel_reading_def
  reset_parser_def handle_trivial_write_operation_def init_next_timeout_checking_def cancel_timeout_checking_def

lemma at_most_iff: "at_most env over b c \<longleftrightarrow> (\<exists>g. at_most2 env over b g c)"
  by (auto simp: at_most_def at_most2_def)

lemma at_most2_at_most: "at_most2 env over b g c \<Longrightarrow> at_most env over b c"
  by (auto simp: at_most_iff)

lemma at_most2_mono: "at_most2 env over b g c \<Longrightarrow> b \<le> b' \<Longrightarrow> g \<le> g' \<Longrightarrow> at_most2 env over b' g' c"
  by (auto simp: at_most2_def)

lemma close_connection_measures:
  assumes "plain env over c"
  shows "plain env over (close_connection c)" "bytes_left (close_connection c) = bytes_left c"
    "groups_left over (close_connection c) \<le> groups_left over c" "\<not> c_socket_open (close_connection c)"
  using assms reset_slots [of "m_context_table (c_response_coordinator c)" over]
  by (auto simp: close_connection_def cancel_timeout_checking_def coordinator_reset_def Let_def case_prod_beta act_def notify_def
      plain_def bytes_left_def groups_left_def)

lemma close_at_most:
  "at_most env over b c \<Longrightarrow> at_most env over b (close_connection c)"
  "at_most2 env over b g c \<Longrightarrow> at_most2 env over b g (close_connection c)"
  using close_connection_measures [of env over c] by (auto simp: at_most_def at_most2_def)

text \<open>A predicate that looks only at what the measures look at.\<close>

definition stable :: "('p conn_t \<Rightarrow> bool) \<Rightarrow> bool" where
  "stable P \<longleftrightarrow>
     (\<forall>c c'. P c \<longrightarrow> c_upgrade_stage c' = c_upgrade_stage c \<longrightarrow> c_response_coordinator c' = c_response_coordinator c \<longrightarrow>
        c_buf c' = c_buf c \<longrightarrow> c_write_output_ctx c' = c_write_output_ctx c \<longrightarrow> (c_socket_open c' \<longrightarrow> c_socket_open c) \<longrightarrow> P c')"

lemma stableD:
  "stable P \<Longrightarrow> P c \<Longrightarrow> c_upgrade_stage c' = c_upgrade_stage c \<Longrightarrow> c_response_coordinator c' = c_response_coordinator c \<Longrightarrow>
   c_buf c' = c_buf c \<Longrightarrow> c_write_output_ctx c' = c_write_output_ctx c \<Longrightarrow> (c_socket_open c' \<Longrightarrow> c_socket_open c) \<Longrightarrow> P c'"
  unfolding stable_def by blast

lemma stable_measures: "stable (at_most env over b)" "stable (at_most2 env over b g)"
  by (auto simp: stable_def measure_defs split: if_splits)

lemma small_step_plain [simp]:
  "at_most env over b (act a c) = at_most env over b c" "at_most env over b (notify ns c) = at_most env over b c"
  "at_most2 env over b g (act a c) = at_most2 env over b g c" "at_most2 env over b g (notify ns c) = at_most2 env over b g c"
  by (simp_all add: measure_defs act_def notify_def)

text \<open>One method after the other, for states below the bounds.\<close>

definition handled :: "'p env \<Rightarrow> call \<Rightarrow> ('p conn_t \<Rightarrow> bool) \<Rightarrow> ('p conn_t \<Rightarrow> bool) \<Rightarrow> bool" where
  "handled env m P Q \<longleftrightarrow> (\<forall>c. P c \<longrightarrow> runs (\<lambda>n. exec env n m c) (with_state Q))"

lemma handledI: "(\<And>c. P c \<Longrightarrow> runs (\<lambda>n. exec env n m c) (with_state Q)) \<Longrightarrow> handled env m P Q"
  by (simp add: handled_def)

lemma handledD: "handled env m P Q \<Longrightarrow> P c \<Longrightarrow> runs (\<lambda>n. exec env n m c) (with_state Q)"
  by (simp add: handled_def)

lemma handle_nothing_to_write_at_most2: "at_most2 env over b g c \<Longrightarrow> at_most2 env over b g (handle_nothing_to_write env c)"
  using close_at_most(2) [of env over b g c] by (auto simp: handle_nothing_to_write_def) (auto simp: measure_defs small_steps)

text \<open>A group that has items is not finished by starting it.\<close>

lemma fresh_group_runs:
  assumes "m_current_wg (c_write_output_ctx c) = Some wg" "m_items wg \<noteq> []" "m_next_writable_item_index (c_write_output_ctx c) = 0"
    and "at_most2 env over b g c"
  shows "runs (\<lambda>n. exec env n Handle_current_write_ctx c) (with_state (at_most2 env over b g))"
proof (rule runs_Suc)
  show "runs (\<lambda>n. exec env (Suc n) Handle_current_write_ctx c) (with_state (at_most2 env over b g))"
  proof (cases "extract_next_write_operation (max_iov_len (e_max_iov_len env)) (c_write_output_ctx c)")
    case None
    then show ?thesis by (simp add: handle_current_write_ctx_def catching_def runs_const)
  next
    case (Some op)
    obtain wo out where op: "op = (wo, out)" by fastforce
    have out: "m_current_wg out \<noteq> None" "wo \<noteq> None_write_operation"
      using extract_keeps [OF Some [unfolded op]] assms(1-3) by auto
    let ?c = "c\<lparr>c_write_output_ctx := out\<rparr>"
    have c': "at_most2 env over b g ?c" using assms(4) out(1) by (auto simp: measure_defs stale_def split: if_splits)
    show ?thesis
    proof (cases wo)
      case (Trivial_buffers bufs total_size)
      have "at_most2 env over b g (handle_trivial_write_operation env bufs ?c)"
        using c' by (auto simp: measure_defs small_steps stale_def split: if_splits)
      with Some op Trivial_buffers show ?thesis
        by (simp add: handle_current_write_ctx_def Let_def catching_def runs_const)
    next
      case (File_operation sf)
      let ?d = "guard_sendfile_operation env (m_timelimit sf) (cancel_reading ?c)"
      have d: "at_most2 env over b g ?d" using c' by (auto simp: measure_defs small_steps stale_def split: if_splits)
      have "at_most2 env over b g (act (Start_sendfile sf) (?d\<lparr>c_write_output_ctx := out', c_write_running := True, c_file_running := True\<rparr>))"
        if "start_sendfile_operation sf (c_write_output_ctx ?d) = Inr out'" for out'
        using d that by (auto simp: measure_defs start_sendfile_operation_def act_def stale_def split: if_splits)
      with Some op File_operation close_at_most(2) [OF d] show ?thesis
        by (auto simp: handle_current_write_ctx_def Let_def catching_def handle_file_write_operation_def trigger_error_and_close_def
            split: sum.splits intro!: runs_const)
    qed (use out in simp)
  qed
qed

text \<open>What a step may rely on: a smaller state is handled to its end by the writing of the next group.\<close>

definition writes_below :: "'p env \<Rightarrow> bool \<Rightarrow> nat \<Rightarrow> nat \<Rightarrow> bool" where
  "writes_below env over b g \<longleftrightarrow> handled env Handle_current_write_ctx (less_than2 env over b g) (at_most2 env over b g)"

lemma init_write_runs:
  assumes "at_most2 env over b g c" "\<not> transmitting (c_write_output_ctx c)" "writes_below env over b g"
  shows "runs (\<lambda>n. init_write env (exec env n) c) (with_state (at_most2 env over b g))"
proof (cases "pop_ready_buffers (c_response_coordinator c)")
  case (Inl e)
  with assms(1) show ?thesis by (simp add: init_write_def runs_const)
next
  case (Inr popped)
  obtain taken co where popped: "popped = (taken, co)" by fastforce
  show ?thesis
  proof (cases taken)
    case None
    with Inr popped have "co = c_response_coordinator c"
      by (auto simp: pop_ready_buffers_def Let_def case_prod_beta split: if_splits sum.splits)
    with Inr popped None assms(1) show ?thesis
      by (simp add: init_write_def runs_const handle_nothing_to_write_at_most2)
  next
    case (Some taken')
    then obtain wg request_id where "taken = Some (wg, request_id)" by (cases taken') auto
    with Inr popped have pop: "pop_ready_buffers (c_response_coordinator c) = Inr (Some (wg, request_id), co)" by simp
    have slots: "slots_ok (m_context_table (c_response_coordinator c))" using assms(1) by (simp add: measure_defs)
    let ?start = "\<lambda>c1 :: 'a conn_t. notify (fst (start_next_write_group (Some wg) (c_write_output_ctx c1)))
      (c1\<lparr>c_write_output_ctx := snd (start_next_write_group (Some wg) (c_write_output_ctx c1))\<rparr>)"
    have "runs (\<lambda>n. exec env n Handle_current_write_ctx (?start (c\<lparr>c_response_coordinator := co, c_history := h,
      c_init_read_after_this_write := x\<rparr>))) (with_state (at_most2 env over b g))" for h x
    proof (cases "counted over wg")
      case True
      with pop_slots [OF pop slots, of over] assms(1)
      have "less_than2 env over b g (?start (c\<lparr>c_response_coordinator := co, c_history := h, c_init_read_after_this_write := x\<rparr>))"
        by (auto simp: measure_defs notify_def start_next_write_group_def stale_def)
      with assms(3) show ?thesis unfolding writes_below_def by (rule handledD)
    next
      case False
      with pop_slots [OF pop slots, of over] assms(1,2)
      show ?thesis
        by (intro fresh_group_runs [where wg = wg])
          (auto simp: measure_defs notify_def start_next_write_group_def stale_def counted_def transmitting_def split: if_splits)
    qed
    then show ?thesis by (simp add: init_write_def pop Let_def case_prod_beta)
  qed
qed

lemma init_write_if_necessary_runs:
  assumes "at_most2 env over b g c" "writes_below env over b g"
  shows "runs (\<lambda>n. init_write_if_necessary env (exec env n) c) (with_state (at_most2 env over b g))"
proof (cases "transmitting (c_write_output_ctx c)")
  case True
  with assms(1) show ?thesis by (simp add: init_write_if_necessary_def runs_const)
next
  case False
  with init_write_runs [OF assms(1) _ assms(2)] show ?thesis by (simp add: init_write_if_necessary_def)
qed

definition waits :: "'p env \<Rightarrow> bool \<Rightarrow> nat \<Rightarrow> nat \<Rightarrow> bool" where
  "waits env over b g \<longleftrightarrow> handled env Wait_for_http_message (at_most2 env over b g) (at_most2 env over b g)"

text \<open>Parts that are sent are counted when they have no items; when the socket is closed they go nowhere.\<close>

lemma write_response_parts_impl_runs:
  assumes "at_most2 env over b g c" "waits env over b g" "writes_below env over b g'"
    and "g \<le> g'" "\<not> over \<Longrightarrow> m_items wg = [] \<Longrightarrow> g < g'"
  shows "runs (\<lambda>n. write_response_parts_impl env (exec env n) request_id flags wg c) (with_state (at_most2 env over b g'))"
proof (cases "c_socket_open c")
  case False
  have "at_most2 env over b g' c" using assms(1,4) by (rule at_most2_mono [OF _ order_refl])
  with False show ?thesis by (simp add: write_response_parts_impl_def runs_const)
next
  case True
  then have "\<not> over" using assms(1) by (auto simp: measure_defs)
  let ?asks = "Wait_for_upgrade_handling_result_or_nothing = c_upgrade_stage c \<and> \<not> table_is_full (m_context_table (c_response_coordinator c))"
  let ?first = "\<lambda>n. if ?asks then exec env n Wait_for_http_message c else Done c"
  have "runs ?first (with_state (at_most2 env over b g))"
    using assms(1,2) by (intro runs_if runs_const) (auto simp: waits_def intro: handledD)
  then obtain r where r: "settles ?first r" "with_state (at_most2 env over b g) r" by (auto simp: runs_def)
  let ?rest = "\<lambda>n r. case r of
      Done c \<Rightarrow>
        (if \<not> closed (c_response_coordinator c) then
           (case append_response request_id flags wg (c_response_coordinator c) of
              (Inl e, called) \<Rightarrow> Raised (Coordinator_exn e) (notify called (act (Parts_submitted wg) c))
            | (Inr coordinator, called) \<Rightarrow>
                init_write_if_necessary env (exec env n)
                  (notify called (act (Parts_submitted wg)
                     (c\<lparr>c_response_coordinator := coordinator, c_history := c_history c @ [Appended request_id flags wg]\<rparr>))))
         else Done (notify (fst (invoke_after_write_notificator_if_exists Write_was_not_executed wg)) (act (Parts_submitted wg) c)))
    | Raised e c \<Rightarrow> Raised e (notify (destroy_write_group wg) (act (Parts_submitted wg) c))
    | r \<Rightarrow> r"
  have "runs (\<lambda>n. ?rest n r) (with_state (at_most2 env over b g'))"
  proof (cases r)
    case (Done d)
    with r(2) have d: "at_most2 env over b g d" by simp
    then have d': "at_most2 env over b g' d" using assms(4) by (rule at_most2_mono [OF _ order_refl])
    show ?thesis
    proof (cases "append_response request_id flags wg (c_response_coordinator d)")
      case (Pair outcome called)
      show ?thesis
      proof (cases outcome)
        case (Inl e)
        with Done Pair d' show ?thesis by (cases "closed (c_response_coordinator d)") (simp_all add: runs_const)
      next
        case (Inr co)
        let ?d = "notify called (act (Parts_submitted wg)
          (d\<lparr>c_response_coordinator := co, c_history := c_history d @ [Appended request_id flags wg]\<rparr>))"
        have "slots_ok (m_context_table (c_response_coordinator d))" using d by (simp add: measure_defs)
        from append_slots [OF Pair [unfolded Inr] this, of over] d \<open>\<not> over\<close> assms(4,5)
        have "at_most2 env over b g' ?d" by (auto simp: measure_defs act_def notify_def counted_def split: if_splits)
        from init_write_if_necessary_runs [OF this assms(3)] Done Pair Inr d' show ?thesis
          by (cases "closed (c_response_coordinator d)") (simp_all add: runs_const)
      qed
    qed
  next
    case (Raised e d)
    with r(2) have "at_most2 env over b g' d" by (auto intro: at_most2_mono [OF _ order_refl assms(4)])
    with Raised show ?thesis by (simp add: runs_const)
  qed (use r in \<open>simp_all add: runs_const\<close>)
  with settles_then [OF r(1), of ?rest] have "runs (\<lambda>n. ?rest n (?first n)) (with_state (at_most2 env over b g'))"
    by (auto simp: runs_def)
  with True show ?thesis by (simp add: write_response_parts_impl_def Let_def)
qed

lemma write_response_parts_runs:
  assumes "at_most2 env over b g c" "waits env over b g" "writes_below env over b g'"
    and "g \<le> g'" "\<not> over \<Longrightarrow> m_items wg = [] \<Longrightarrow> g < g'"
  shows "runs (\<lambda>n. exec env n (Write_response_parts request_id flags wg) c) (with_state (at_most2 env over b g'))"
proof (rule runs_Suc)
  have "runs (\<lambda>n. write_response_parts env (exec env n) request_id flags wg c) (with_state (at_most2 env over b g'))"
    unfolding write_response_parts_def
    by (rule runs_catching [OF write_response_parts_impl_runs [OF assms]]) (simp_all add: trigger_error_and_close_def close_at_most)
  then show "runs (\<lambda>n. exec env (Suc n) (Write_response_parts request_id flags wg) c) (with_state (at_most2 env over b g'))" by simp
qed

subsubsection \<open>The handler\<close>

lemma run_actions_runs:
  assumes "stable P" "P c"
    and "\<And>request_id flags wg. Send_parts request_id flags wg \<in> set actions \<Longrightarrow> handled env (Write_response_parts request_id flags wg) P P"
  shows "runs (\<lambda>n. run_actions (exec env n) actions c) (with_state P)"
  using assms(2,3)
proof (induction actions arbitrary: c)
  case (Cons a actions)
  show ?case
  proof (cases a)
    case (Send_parts request_id flags wg)
    have "runs (\<lambda>n. exec env n (Write_response_parts request_id flags wg) c) (with_state P)"
      using Cons.prems Send_parts by (intro handledD [where P = P]) simp_all
    with Send_parts Cons.IH Cons.prems show ?thesis by (auto intro: runs_and_then)
  next
    case Take_socket
    have "P (c\<lparr>c_socket_open := False\<rparr>)" using Cons.prems(1) by (rule stableD [OF assms(1)]) simp_all
    with Take_socket Cons.IH Cons.prems(2) show ?thesis by simp
  qed
qed (simp add: runs_const)

lemma call_request_handler_runs:
  assumes "stable P" "P c"
    and "\<And>k request request_id flags wg. Send_parts request_id flags wg \<in> set (fst (e_handler env k request)) \<Longrightarrow>
      handled env (Write_response_parts request_id flags wg) P P"
    and "\<And>status c. P c \<Longrightarrow> runs (\<lambda>n. switch n status c) (with_state P)"
  shows "runs (\<lambda>n. call_request_handler env (exec env n) request_id (switch n) c) (with_state P)"
proof -
  have c': "P (act a ((snd (make_request request_id c))\<lparr>c_handler_calls := k\<rparr>))" for a k
    using assms(2) by (rule stableD [OF assms(1)]) (simp_all add: make_request_def Let_def case_prod_beta act_def)
  show ?thesis
    unfolding call_request_handler_def Let_def case_prod_beta
    by (rule runs_and_then [OF run_actions_runs [OF assms(1) c']]) (auto intro!: runs_if runs_const assms(4) intro: assms(3))
qed

lemma register_request_runs:
  assumes "at_most2 env over b g c" "\<And>c. at_most2 env over b g c \<Longrightarrow> at_most2 env over b g c \<Longrightarrow> P c"
    and "\<And>request_id c'. at_most2 env over b g c' \<Longrightarrow> c_upgrade_stage c' = c_upgrade_stage c \<Longrightarrow>
      runs (\<lambda>n. f n request_id c') (with_state P)"
  shows "runs (\<lambda>n. register_request (f n) c) (with_state P)"
proof (cases "register_new_request (c_response_coordinator c)")
  case (Inl e)
  with assms(1,2) show ?thesis by (simp add: register_request_def runs_const)
next
  case (Inr registered)
  obtain request_id co where r: "registered = (request_id, co)" by fastforce
  let ?c = "c\<lparr>c_response_coordinator := co, c_history := c_history c @ [Registered request_id]\<rparr>"
  have "slots_ok (m_context_table (c_response_coordinator c))" using assms(1) by (simp add: measure_defs)
  from register_slots [OF Inr [unfolded r] this, of over] assms(1) have "at_most2 env over b g ?c"
    by (auto simp: measure_defs split: if_splits)
  from assms(3) [OF this] Inr r show ?thesis by (simp add: register_request_def)
qed

text \<open>The handling of an upgrade request needs no byte, but what the handler sends then is not counted.\<close>

lemma handle_upgrade_request_runs:
  assumes "at_most2 env over b g c" "c_upgrade_stage c \<noteq> No_upgrade" "waits env over b g" "writes_below env over b g"
  shows "runs (\<lambda>n. exec env n Handle_upgrade_request c) (with_state (at_most2 env over b g))"
proof (rule runs_Suc)
  have items: "parts_have_items env" using assms(1,2) by (simp add: measure_defs)
  have refused: "runs (\<lambda>n. refuse_request env (exec env n) request_id c') (with_state (at_most2 env over b g))"
    if "at_most2 env over b g c'" for request_id c'
    unfolding refuse_request_def
    by (rule write_response_parts_impl_runs [OF that assms(3,4)]) (simp_all add: write_group_def create_not_implemented_resp_def)
  have sent: "handled env (Write_response_parts request_id flags wg) (at_most2 env over b g) (at_most2 env over b g)"
    if "Send_parts request_id flags wg \<in> set (fst (e_handler env k request))" for k request request_id flags wg
  proof (rule handledI)
    fix c' assume c': "at_most2 env over b g c'"
    have "has_items (Send_parts request_id flags wg)" using that items unfolding parts_have_items_def list_all_iff by blast
    then show "runs (\<lambda>n. exec env n (Write_response_parts request_id flags wg) c') (with_state (at_most2 env over b g))"
      using write_response_parts_runs [OF c' assms(3,4)] by simp
  qed
  have "runs (\<lambda>n. handle_upgrade_request env (exec env n) c) (with_state (at_most2 env over b g))"
    unfolding handle_upgrade_request_def Let_def
  proof (rule register_request_runs [OF assms(1)])
    fix request_id and c' :: "'a conn_t"
    assume "at_most2 env over b g c'"
    then have "at_most2 env over b g ((cancel_timeout_checking c')\<lparr>c_upgrade_stage := Wait_for_upgrade_handling_result_or_nothing\<rparr>)"
      using items by (auto simp: measure_defs small_steps split: if_splits)
    then show "runs (\<lambda>n. call_request_handler env (exec env n) request_id
        (\<lambda>status c. if status = Not_handled \<or> status = Rejected
           then (if c_socket_open c then refuse_request env (exec env n) request_id c else Done c) else Done c)
        ((cancel_timeout_checking c')\<lparr>c_upgrade_stage := Wait_for_upgrade_handling_result_or_nothing\<rparr>))
      (with_state (at_most2 env over b g))"
      by (rule call_request_handler_runs [OF stable_measures(2) _ sent]) (auto intro!: runs_if runs_const refused)
  qed simp
  then show "runs (\<lambda>n. exec env (Suc n) Handle_upgrade_request c) (with_state (at_most2 env over b g))" by simp
qed

text \<open>All methods return when at most \<open>b\<close> bytes wait.\<close>

definition all_handled :: "'p env \<Rightarrow> bool \<Rightarrow> nat \<Rightarrow> bool" where
  "all_handled env over b \<longleftrightarrow>
     (\<forall>g. waits env over b g \<and> handled env Handle_current_write_ctx (at_most2 env over b g) (at_most2 env over b g))"

lemma all_handledD:
  assumes "all_handled env over b"
  shows "waits env over b g" "handled env Handle_current_write_ctx (at_most2 env over b g) (at_most2 env over b g)" "writes_below env over b g"
proof -
  show hw: "waits env over b g" "handled env Handle_current_write_ctx (at_most2 env over b g) (at_most2 env over b g)"
    using assms by (simp_all add: all_handled_def)
  then show "writes_below env over b g"
    unfolding writes_below_def by (auto simp: handled_def at_most2_def less_than2_def)
qed

lemma parts_at_most:
  assumes "all_handled env over b" "at_most env over b c"
  shows "runs (\<lambda>n. write_response_parts_impl env (exec env n) request_id flags wg c) (with_state (at_most env over b))"
    "runs (\<lambda>n. exec env n (Write_response_parts request_id flags wg) c) (with_state (at_most env over b))"
proof -
  obtain g where g: "at_most2 env over b g c" using assms(2) by (auto simp: at_most_iff)
  note all = all_handledD [OF assms(1)]
  show "runs (\<lambda>n. write_response_parts_impl env (exec env n) request_id flags wg c) (with_state (at_most env over b))"
    by (rule runs_mono [OF write_response_parts_impl_runs [OF g all(1) all(3) [of "Suc g"]]]) (auto intro: at_most2_at_most)
  show "runs (\<lambda>n. exec env n (Write_response_parts request_id flags wg) c) (with_state (at_most env over b))"
    by (rule runs_mono [OF write_response_parts_runs [OF g all(1) all(3) [of "Suc g"]]]) (auto intro: at_most2_at_most)
qed

lemma upgrade_at_most:
  assumes "all_handled env over b" "at_most env over b c" "c_upgrade_stage c \<noteq> No_upgrade"
  shows "runs (\<lambda>n. exec env n Handle_upgrade_request c) (with_state (at_most env over b))"
proof -
  obtain g where "at_most2 env over b g c" using assms(2) by (auto simp: at_most_iff)
  from handle_upgrade_request_runs [OF this assms(3) all_handledD(1,3) [OF assms(1)]] show ?thesis
    by (rule runs_mono) (rule at_most2_at_most)
qed

lemma wait_at_most:
  assumes "all_handled env over b" "at_most env over b c"
  shows "runs (\<lambda>n. exec env n Wait_for_http_message c) (with_state (at_most env over b))"
proof -
  obtain g where "at_most2 env over b g c" using assms(2) by (auto simp: at_most_iff)
  from handledD [OF all_handledD(1) [OF assms(1), unfolded waits_def] this] show ?thesis
    by (rule runs_mono) (rule at_most2_at_most)
qed

lemma on_request_message_complete_runs:
  assumes "upgrades_are_answered env" "all_handled env over b" "at_most env over b c"
  shows "runs (\<lambda>n. on_request_message_complete env (exec env n) c) (with_state (at_most env over b))"
proof -
  let ?c = "if e_upgrade env (c_parser c) then c\<lparr>c_upgrade_stage := Pending_upgrade_handling\<rparr> else c"
  have c': "at_most env over b ?c" using assms(1,3) by (auto simp: upgrades_are_answered_def measure_defs split: if_splits)
  then obtain g where g: "at_most2 env over b g ?c" by (auto simp: at_most_iff)
  have "runs (\<lambda>n. register_request (\<lambda>request_id c.
      call_request_handler env (exec env n) request_id
        (\<lambda>status c. if status = Not_handled \<or> status = Rejected then refuse_request env (exec env n) request_id c
           else if is_able_to_get_more_messages (c_response_coordinator c) then exec env n Wait_for_http_message c else Done c)
        (guard_request_handling_operation env c)) ?c) (with_state (at_most env over b))"
  proof (rule register_request_runs [OF g])
    fix request_id and d :: "'a conn_t"
    assume "at_most2 env over b g d"
    then have "at_most env over b d" by (rule at_most2_at_most)
    then have "at_most env over b (guard_request_handling_operation env d)"
      by (rule stableD [OF stable_measures(1)]) (simp_all add: small_steps split: if_splits)
    then show "runs (\<lambda>n. call_request_handler env (exec env n) request_id
        (\<lambda>status c. if status = Not_handled \<or> status = Rejected then refuse_request env (exec env n) request_id c
           else if is_able_to_get_more_messages (c_response_coordinator c) then exec env n Wait_for_http_message c else Done c)
        (guard_request_handling_operation env d)) (with_state (at_most env over b))"
      by (rule call_request_handler_runs [OF stable_measures(1)])
        (auto simp: refuse_request_def intro!: handledI runs_if runs_const parts_at_most wait_at_most assms(2))
  qed (rule at_most2_at_most)
  moreover have "runs (\<lambda>n. if table_empty (m_context_table (c_response_coordinator ?c)) then exec env n Handle_upgrade_request ?c else Done ?c)
    (with_state (at_most env over b))" if "No_upgrade \<noteq> c_upgrade_stage ?c"
    using upgrade_at_most [OF assms(2) c'] that c' by (intro runs_if runs_const) auto
  ultimately have "runs (\<lambda>n. if No_upgrade = c_upgrade_stage ?c then register_request (\<lambda>request_id c.
      call_request_handler env (exec env n) request_id
        (\<lambda>status c. if status = Not_handled \<or> status = Rejected then refuse_request env (exec env n) request_id c
           else if is_able_to_get_more_messages (c_response_coordinator c) then exec env n Wait_for_http_message c else Done c)
        (guard_request_handling_operation env c)) ?c
      else if table_empty (m_context_table (c_response_coordinator ?c)) then exec env n Handle_upgrade_request ?c else Done ?c)
    (with_state (at_most env over b))" by (rule runs_if)
  then show ?thesis
    unfolding on_request_message_complete_def Let_def
    by (rule runs_catching) (simp_all add: trigger_error_and_close_def close_at_most)
qed

subsubsection \<open>The parser\<close>

text \<open>The connection after a call of the parser.\<close>

definition parsed :: "'p env \<Rightarrow> 'p conn_t \<Rightarrow> 'p conn_t" where
  "parsed env c =
     (let (parser, parser_ctx, nparsed, http_errno) = e_execute env (c_parser c) (c_parser_ctx c) (buffer_bytes (c_buf c))
      in c\<lparr>c_parser := parser, c_parser_ctx := parser_ctx, c_buf := consumed_bytes nparsed (c_buf c)\<rparr>)"

lemma parsed_at_most2:
  assumes "plain env over c"
  shows "at_most2 env over (bytes_left c) (groups_left over c) (parsed env c)"
proof -
  have "bytes_left (parsed env c) \<le> bytes_left c" "groups_left over (parsed env c) = groups_left over c" "plain env over (parsed env c)"
    using assms by (simp_all add: parsed_def Let_def case_prod_beta measure_defs consumed_bytes_def)
  then show ?thesis by (auto simp: at_most2_def)
qed

lemma parsed_progress:
  assumes "parser_progress env" "\<not> px_message_complete (c_parser_ctx c)" "px_message_complete (c_parser_ctx (parsed env c))" "0 < bytes_left c"
  shows "bytes_left (parsed env c) < bytes_left c"
  using assms by (auto simp: parsed_def parser_progress_def Let_def case_prod_beta bytes_left_def consumed_bytes_def)

lemma consume_data_runs:
  assumes "Q (close_connection (parsed env c))" "Q (consume_message (parsed env c))"
    and "px_message_complete (c_parser_ctx (parsed env c)) \<Longrightarrow>
      runs (\<lambda>n. on_request_message_complete env (exec env n) (parsed env c)) (with_state Q)"
  shows "runs (\<lambda>n. consume_data env (exec env n) c) (with_state Q)"
  using assms
  unfolding consume_data_def parsed_def Let_def case_prod_beta trigger_error_and_close_def
  by (auto intro!: runs_if intro: runs_const)

lemma consume_message_measures [simp]:
  "plain env over (consume_message c) = plain env over c" "bytes_left (consume_message c) = bytes_left c"
  "groups_left over (consume_message c) = groups_left over c"
  by (simp_all add: measure_defs consume_message_def act_def)

lemma consume_data_returns:
  assumes "upgrades_are_answered env" "plain env over c" "\<And>b. all_handled env over b"
  shows "runs (\<lambda>n. consume_data env (exec env n) c) (with_state (at_most env over (bytes_left c)))"
proof (rule consume_data_runs)
  have p: "at_most env over (bytes_left c) (parsed env c)"
    by (rule at_most2_at_most [OF parsed_at_most2 [OF assms(2)]])
  then show "at_most env over (bytes_left c) (consume_message (parsed env c))"
    "at_most env over (bytes_left c) (close_connection (parsed env c))"
    by (simp_all add: close_at_most) (simp add: at_most_def)
  show "runs (\<lambda>n. on_request_message_complete env (exec env n) (parsed env c)) (with_state (at_most env over (bytes_left c)))"
    using on_request_message_complete_runs [OF assms(1,3) p] .
qed

lemma consume_data_progresses:
  assumes "parser_progress env" "upgrades_are_answered env" "plain env over c" "\<not> px_message_complete (c_parser_ctx c)" "0 < bytes_left c"
    and "\<And>b. b < bytes_left c \<Longrightarrow> all_handled env over b"
  shows "runs (\<lambda>n. consume_data env (exec env n) c) (with_state (at_most2 env over (bytes_left c) (groups_left over c)))"
proof (rule consume_data_runs)
  note p = parsed_at_most2 [OF assms(3)]
  then show "at_most2 env over (bytes_left c) (groups_left over c) (consume_message (parsed env c))"
    "at_most2 env over (bytes_left c) (groups_left over c) (close_connection (parsed env c))"
    by (simp_all add: close_at_most) (simp add: at_most2_def)
  assume "px_message_complete (c_parser_ctx (parsed env c))"
  from parsed_progress [OF assms(1,4) this assms(5)] have less: "bytes_left (parsed env c) < bytes_left c" .
  have "at_most env over (bytes_left (parsed env c)) (parsed env c)" using p by (simp add: at_most_def at_most2_def)
  from on_request_message_complete_runs [OF assms(2) assms(6) [OF less] this]
  show "runs (\<lambda>n. on_request_message_complete env (exec env n) (parsed env c))
    (with_state (at_most2 env over (bytes_left c) (groups_left over c)))"
    by (rule runs_mono) (use less in \<open>auto simp: at_most_def at_most2_def\<close>)
qed

lemma wait_for_http_message_runs:
  assumes "parser_progress env" "upgrades_are_answered env" "plain env over c" "\<And>b. b < bytes_left c \<Longrightarrow> all_handled env over b"
  shows "runs (\<lambda>n. wait_for_http_message env (exec env n) c) (with_state (at_most2 env over (bytes_left c) (groups_left over c)))"
proof -
  let ?c = "guard_read_operation env (reset_parser env c)"
  have c': "plain env over ?c" "bytes_left ?c = bytes_left c" "groups_left over ?c = groups_left over c" "\<not> px_message_complete (c_parser_ctx ?c)"
    using assms(3) by (simp_all add: measure_defs small_steps ctx_reset_def)
  have "runs (\<lambda>n. consume_data env (exec env n) ?c) (with_state (at_most2 env over (bytes_left c) (groups_left over c)))"
    if "0 \<noteq> fb_ready_length (c_buf ?c)"
    using consume_data_progresses [OF assms(1,2) c'(1,4)] that assms(4) c'(2,3) by (simp add: bytes_left_def)
  moreover have "at_most2 env over (bytes_left c) (groups_left over c) (consume_message ?c)" using c' by (simp add: at_most2_def)
  ultimately show ?thesis
    unfolding wait_for_http_message_def Let_def by (intro runs_if) (auto intro: runs_const)
qed

lemma waits_if:
  assumes "parser_progress env" "upgrades_are_answered env" "\<And>b'. b' < b \<Longrightarrow> all_handled env over b'"
  shows "waits env over b g"
  unfolding waits_def
proof (rule handledI)
  fix c assume c: "at_most2 env over b g c"
  have "runs (\<lambda>n. exec env (Suc n) Wait_for_http_message c) (with_state (at_most2 env over (bytes_left c) (groups_left over c)))"
    using wait_for_http_message_runs [OF assms(1,2), of over c] assms(3) c by (auto simp: at_most2_def)
  from runs_Suc [where f = "\<lambda>n. exec env n Wait_for_http_message c", OF this]
  show "runs (\<lambda>n. exec env n Wait_for_http_message c) (with_state (at_most2 env over b g))"
    by (rule runs_mono) (use c in \<open>auto simp: at_most2_def\<close>)
qed

subsubsection \<open>The end of a group\<close>

lemma finish_handling_current_write_ctx_runs:
  assumes "at_most2 env over b g d" "waits env over b g" "writes_below env over b g"
  shows "runs (\<lambda>n. finish_handling_current_write_ctx env (exec env n) d) (with_state (at_most2 env over b g))"
proof (cases "finish_write_group (e_throws env) (c_write_output_ctx d)")
  case None
  then show ?thesis by (simp add: finish_handling_current_write_ctx_def runs_const)
next
  case (Some res)
  obtain called err out where res: "res = (called, err, out)" by (cases res) auto
  let ?d = "notify called (d\<lparr>c_write_output_ctx := out\<rparr>)"
  have d': "at_most2 env over b g ?d"
    using assms(1) finish_not_stale [OF Some [unfolded res]] by (auto simp: measure_defs notify_def split: if_splits)
  note start = init_write_if_necessary_runs [OF _ assms(3)]
  have "runs (\<lambda>n. if c_init_read_after_this_write ?d then exec env n Wait_for_http_message ?d else Done ?d)
    (with_state (at_most2 env over b g))"
    using d' assms(2) by (intro runs_if runs_const) (auto simp: waits_def intro: handledD)
  then have plain: "runs (\<lambda>n. and_then (if c_init_read_after_this_write ?d then exec env n Wait_for_http_message ?d else Done ?d)
    (init_write_if_necessary env (exec env n))) (with_state (at_most2 env over b g))"
    by (rule runs_and_then) (auto intro: start)
  have "runs (\<lambda>n. if No_upgrade = c_upgrade_stage ?d
      then and_then (if c_init_read_after_this_write ?d then exec env n Wait_for_http_message ?d else Done ?d)
        (init_write_if_necessary env (exec env n))
      else if table_empty (m_context_table (c_response_coordinator ?d)) then exec env n Handle_upgrade_request ?d
      else init_write_if_necessary env (exec env n) ?d) (with_state (at_most2 env over b g))"
    using plain handle_upgrade_request_runs [OF d' _ assms(2,3)] start [OF d'] by (intro runs_if) simp_all
  then have "runs (\<lambda>n. if \<not> closed (c_response_coordinator ?d) then (if No_upgrade = c_upgrade_stage ?d
      then and_then (if c_init_read_after_this_write ?d then exec env n Wait_for_http_message ?d else Done ?d)
        (init_write_if_necessary env (exec env n))
      else if table_empty (m_context_table (c_response_coordinator ?d)) then exec env n Handle_upgrade_request ?d
      else init_write_if_necessary env (exec env n) ?d) else Done (close_connection ?d)) (with_state (at_most2 env over b g))"
    using close_at_most(2) [OF d'] by (intro runs_if) (simp_all add: runs_const)
  with Some res d' show ?thesis
    by (cases err) (simp_all add: finish_handling_current_write_ctx_def Let_def runs_const)
qed

lemma handle_current_write_ctx_runs:
  assumes "at_most2 env over b g c" "waits env over b g" "writes_below env over b g"
  shows "runs (\<lambda>n. handle_current_write_ctx env (exec env n) c) (with_state (at_most2 env over b g))"
  unfolding handle_current_write_ctx_def Let_def
proof (rule runs_catching [where P = "at_most2 env over b g"])
  show "runs (\<lambda>n. case extract_next_write_operation (max_iov_len (e_max_iov_len env)) (c_write_output_ctx c) of
      None \<Rightarrow> Undefined
    | Some (wo, output_ctx) \<Rightarrow>
        (case wo of
           Trivial_buffers bufs total_size \<Rightarrow> Done (handle_trivial_write_operation env bufs (c\<lparr>c_write_output_ctx := output_ctx\<rparr>))
         | File_operation sf \<Rightarrow> handle_file_write_operation env sf (c\<lparr>c_write_output_ctx := output_ctx\<rparr>)
         | None_write_operation \<Rightarrow> finish_handling_current_write_ctx env (exec env n) (c\<lparr>c_write_output_ctx := output_ctx\<rparr>)))
    (with_state (at_most2 env over b g))"
  proof (cases "extract_next_write_operation (max_iov_len (e_max_iov_len env)) (c_write_output_ctx c)")
    case (Some op)
    obtain wo out where op: "op = (wo, out)" by fastforce
    let ?c = "c\<lparr>c_write_output_ctx := out\<rparr>"
    have c': "at_most2 env over b g ?c"
      using assms(1) extract_keeps [OF Some [unfolded op]] by (auto simp: measure_defs stale_def split: if_splits)
    from finish_handling_current_write_ctx_runs [OF this assms(2,3)] Some op c' show ?thesis
      by (cases wo) (auto simp: handle_file_write_operation_def start_sendfile_operation_def small_steps measure_defs stale_def Let_def
          split: sum.splits if_splits intro!: runs_const)
  qed (simp add: runs_const)
qed (simp_all add: trigger_error_and_close_def close_at_most)

lemma handle_current_write_ctx_handled:
  assumes "\<And>b'. b' < b \<Longrightarrow> all_handled env over b'" "\<And>g. waits env over b g"
  shows "handled env Handle_current_write_ctx (at_most2 env over b g) (at_most2 env over b g)"
proof (induction g rule: less_induct)
  case (less g)
  have below: "writes_below env over b g"
    unfolding writes_below_def
  proof (rule handledI)
    fix c assume c: "less_than2 env over b g c"
    show "runs (\<lambda>n. exec env n Handle_current_write_ctx c) (with_state (at_most2 env over b g))"
    proof (cases "bytes_left c < b")
      case True
      from c have "at_most2 env over (bytes_left c) (groups_left over c) c" by (simp add: at_most2_def less_than2_def)
      from handledD [OF all_handledD(2) [OF assms(1) [OF True]] this] show ?thesis
        by (rule runs_mono) (use True in \<open>auto simp: at_most2_def\<close>)
    next
      case False
      with c have "groups_left over c < g" "at_most2 env over b (groups_left over c) c" by (auto simp: at_most2_def less_than2_def)
      from handledD [OF less.IH [OF this(1)] this(2)] show ?thesis
        by (rule runs_mono) (use \<open>groups_left over c < g\<close> in \<open>auto simp: at_most2_def\<close>)
    qed
  qed
  show ?case
  proof (rule handledI)
    fix c assume "at_most2 env over b g c"
    from handle_current_write_ctx_runs [OF this assms(2) below]
    have "runs (\<lambda>n. exec env (Suc n) Handle_current_write_ctx c) (with_state (at_most2 env over b g))" by simp
    then show "runs (\<lambda>n. exec env n Handle_current_write_ctx c) (with_state (at_most2 env over b g))" by (rule runs_Suc)
  qed
qed

lemma all_handled_always:
  assumes "parser_progress env" "upgrades_are_answered env"
  shows "all_handled env over b"
proof (induction b rule: less_induct)
  case (less b)
  note w = waits_if [OF assms less.IH]
  from handle_current_write_ctx_handled [OF less.IH w] w show ?case by (simp add: all_handled_def)
qed

subsection \<open>Events\<close>

text \<open>The states between events, for one of the two values of the flag.\<close>

definition sound :: "'p env \<Rightarrow> 'p conn_t \<Rightarrow> bool" where
  "sound env c \<longleftrightarrow> (\<exists>over. plain env over c)"

lemma plain_sound: "plain env over c \<Longrightarrow> sound env c"
  by (auto simp: sound_def)

lemma at_most_sound: "at_most env over b c \<Longrightarrow> sound env c" "at_most2 env over b g c \<Longrightarrow> sound env c"
  by (auto simp: sound_def at_most_def at_most2_def)

lemma write_completed_runs:
  assumes "parser_progress env" "upgrades_are_answered env" "plain env over c"
    and "outcome = Some Operation_aborted \<Longrightarrow> \<not> c_socket_open c"
  shows "runs (\<lambda>n. write_completed env n outcome c) (with_state (sound env))"
proof -
  let ?c = "act Write_done (c\<lparr>c_write_running := False\<rparr>)"
  have c': "at_most2 env over (bytes_left c) (groups_left over c) ?c" using assms(3) by (simp add: measure_defs act_def)
  have "runs (\<lambda>n. after_write env n outcome ?c) (with_state (sound env))"
  proof (cases outcome)
    case None
    note all = all_handledD(1,3) [OF all_handled_always [OF assms(1,2)]]
    from handle_current_write_ctx_runs [OF c' all] show ?thesis
      unfolding None after_write_def by simp (erule runs_mono, rule at_most_sound(2))
  next
    case (Some ec)
    let ?d = "if ec \<noteq> Operation_aborted then trigger_error_and_close ?c else ?c"
    have "plain env over ?d" "\<not> c_socket_open ?d"
      using c' Some assms(4) close_connection_measures(1,4) [of env over ?c]
      by (cases "ec = Operation_aborted"; auto simp: trigger_error_and_close_def at_most2_def act_def)+
    then have "plain env True ?d" by (simp add: plain_def)
    then have "sound env (notify called (?d\<lparr>c_write_output_ctx := out\<rparr>))" for called out
      by (intro plain_sound [where over = True]) (simp add: plain_def notify_def)
    then show ?thesis unfolding Some after_write_def Let_def option.case
      by (cases "fail_write_group (e_throws env) (Write_failed (error_number ec)) (c_write_output_ctx ?d)")
        (auto intro!: runs_const)
  qed
  then show ?thesis unfolding write_completed_def
    by (rule runs_and_then)
      (auto intro!: runs_const simp: sound_def plain_def stale_def file_write_operation_reset_def split: if_splits)
qed

lemma handle_event_runs:
  assumes "parser_progress env" "upgrades_are_answered env" "sound env c" "event_possible e c"
  shows "runs (\<lambda>n. handle_event env n e c) (with_state (sound env))"
proof -
  obtain over where c: "plain env over c" using assms(3) by (auto simp: sound_def)
  note all = all_handled_always [OF assms(1,2)]
  show ?thesis
  proof (cases e)
    case Init
    let ?c = "init_next_timeout_checking (act Notice_accepted c)"
    have "plain env over ?c" using c by (simp add: plain_def small_steps)
    from wait_for_http_message_runs [OF assms(1,2) this all] Init show ?thesis
      by (simp add: conn_init_def) (erule runs_mono, rule at_most_sound(2))
  next
    case (Read_completed outcome)
    show ?thesis
    proof (cases outcome)
      case (Inl ec)
      have "plain env over (act Read_done (c\<lparr>c_read_operation_is_running := False\<rparr>))" using c by (simp add: plain_def act_def)
      with Read_completed Inl plain_sound [OF close_connection_measures(1) [OF this]] show ?thesis
        by (simp add: after_read_def Let_def trigger_error_and_close_def runs_const plain_sound)
    next
      case (Inr data)
      let ?c = "(act Read_done (c\<lparr>c_read_operation_is_running := False\<rparr>))
        \<lparr>c_buf := obtained_bytes (min (length data) (length (fb_buf (c_buf c)))) (fill_buffer data (c_buf c))\<rparr>"
      have "plain env over ?c" using c by (simp add: plain_def act_def)
      from consume_data_returns [OF assms(2) this all]
      have "runs (\<lambda>n. catching trigger_error_and_close (consume_data env (exec env n) ?c)) (with_state (sound env))"
        by (rule runs_catching) (auto simp: trigger_error_and_close_def intro: at_most_sound(1) dest: close_at_most(1))
      with Read_completed Inr show ?thesis by (simp add: after_read_def Let_def act_def)
    qed
  next
    case (Write_completed outcome)
    with write_completed_runs [OF assms(1,2) c] assms(4) show ?thesis by simp
  next
    case (Parts_sent request_id flags wg)
    have "at_most env over (bytes_left c) c" using c by (simp add: at_most_def)
    from parts_at_most(1) [OF all this]
    have "runs (\<lambda>n. write_response_parts env (exec env n) request_id flags wg c) (with_state (sound env))"
      unfolding write_response_parts_def
      by (rule runs_catching) (auto simp: trigger_error_and_close_def intro: at_most_sound(1) dest: close_at_most(1))
    with Parts_sent show ?thesis by simp
  next
    case Timer
    have c': "plain env over (c\<lparr>c_timer_scheduled := False\<rparr>)" using c by (simp add: plain_def)
    have "plain env over (check_timeout_impl (c\<lparr>c_timer_scheduled := False\<rparr>))"
      using c' close_connection_measures(1) [OF c']
      by (auto simp: check_timeout_impl_def handle_xxx_timeout_def plain_def init_next_timeout_checking_def split: option.splits)
    with Timer show ?thesis by (simp add: runs_const plain_sound)
  qed
qed

lemma handle_event_sound:
  assumes "parser_progress env" "upgrades_are_answered env" "sound env c" "event_possible e c" "handle_event env fuel e c = Done c'"
  shows "sound env c'"
proof -
  from handle_event_runs [OF assms(1-4)] obtain r N
    where "\<forall>n\<ge>N. handle_event env n e c = r" "with_state (sound env) r" by (auto simp: runs_def settles_def)
  moreover have "handle_event env (max fuel N) e c = Done c'"
    using handle_event_more [of env fuel e c "max fuel N"] assms(5) by simp
  ultimately show ?thesis by (metis max.cobounded2 with_state.simps(1))
qed

lemma conn_reach_sound:
  assumes "conn_reach env max_requests c" "parser_progress env" "upgrades_are_answered env"
  shows "sound env c"
  using assms(1)
proof (induction rule: conn_reach.induct)
  case (started fuel buffer_size limits now c)
  have "plain env False (connection env buffer_size limits max_requests now)"
    by (auto simp: plain_def slots_ok_def stale_def connection_def response_coordinator_def response_context_table_def write_group_output_ctx_def)
  from handle_event_sound [OF assms(2,3) plain_sound [OF this] _ started] show ?case by simp
next
  case (event c now e fuel c')
  from event(6) obtain over where "plain env over c" by (auto simp: sound_def)
  then have "sound env (c\<lparr>c_now := now\<rparr>)" by (intro plain_sound [of env over]) (simp add: plain_def)
  from handle_event_sound [OF assms(2,3) this event(4,5)] show ?case .
qed

section \<open>An upgrade request that is answered like any other\<close>

text \<open>
  The stage of the upgrade is set when an upgrade request arrives and is never set back. Here every request is an upgrade request, and the
  handler answers it with a complete response on a connection that stays alive; one request at a time is allowed.
\<close>

definition upgrade_env :: "unit env" where
  "upgrade_env = sample_conn_env\<lparr>e_upgrade := \<lambda>_. True\<rparr>"

text \<open>No response waits, and nothing is being written, or the last item of a response is.\<close>

definition no_response_waits :: "response_coordinator_t \<Rightarrow> bool" where
  "no_response_waits co \<longleftrightarrow>
     \<not> closed co \<and> map m_write_groups (m_contexts (m_context_table co)) = [[]] \<and>
     m_first_element_index (m_context_table co) = 0 \<and> m_elements_exists (m_context_table co) = 0"

definition upgrade_idle :: "unit conn_t \<Rightarrow> bool" where
  "upgrade_idle c \<longleftrightarrow>
     c_socket_open c \<and> c_upgrade_stage c \<noteq> No_upgrade \<and> no_response_waits (c_response_coordinator c) \<and>
     m_current_wg (c_write_output_ctx c) = None \<and> m_next_writable_item_index (c_write_output_ctx c) = 0"

definition upgrade_answered :: "unit conn_t \<Rightarrow> bool" where
  "upgrade_answered c \<longleftrightarrow>
     c_socket_open c \<and> c_write_running c \<and> c_upgrade_stage c \<noteq> No_upgrade \<and> no_response_waits (c_response_coordinator c) \<and>
     (case m_current_wg (c_write_output_ctx c) of
        None \<Rightarrow> False | Some wg \<Rightarrow> m_next_writable_item_index (c_write_output_ctx c) = length (m_items wg))"

text \<open>The coordinator with one request from its registration to its complete response.\<close>

lemma one_request_coordinated:
  assumes "no_response_waits co" "m_response_parts flags = Final_parts" "m_response_connection flags = Connection_keepalive"
  obtains co1 co2 co3 where "register_new_request co = Inr (m_request_id_counter co, co1)" "table_is_full (m_context_table co1)"
    "\<not> closed co1" "append_response (m_request_id_counter co) flags wg co1 = (Inr co2, [])"
    "\<exists>request_id. pop_ready_buffers co2 = Inr (Some (wg, request_id), co3)" "no_response_waits co3"
proof -
  from assms(1) obtain ctx where co: "\<not> closed co" "m_write_groups ctx = []"
    "m_context_table co = \<lparr>m_contexts = [ctx], m_first_element_index = 0, m_elements_exists = 0\<rparr>"
    by (cases "m_context_table co") (auto simp: no_response_waits_def)
  define ctx1 where "ctx1 = reinit (m_request_id_counter co) ctx"
  define co1 where "co1 = co\<lparr>m_context_table := \<lparr>m_contexts = [ctx1], m_first_element_index = 0, m_elements_exists = 1\<rparr>,
    m_request_id_counter := m_request_id_counter co + 1\<rparr>"
  define ctx2 where "ctx2 = ctx1\<lparr>m_response_output_flags := flags, m_write_groups := [wg]\<rparr>"
  define co2 where "co2 = co1\<lparr>m_context_table := \<lparr>m_contexts = [ctx2], m_first_element_index = 0, m_elements_exists = 1\<rparr>\<rparr>"
  define ctx3 where "ctx3 = ctx2\<lparr>m_write_groups := []\<rparr>"
  define co3 where "co3 = co2\<lparr>m_connection_closed_response_occured := False,
    m_context_table := \<lparr>m_contexts = [ctx3], m_first_element_index = 0, m_elements_exists = 0\<rparr>\<rparr>"
  have "register_new_request co = Inr (m_request_id_counter co, co1)"
    by (simp add: co co1_def ctx1_def register_new_request_def push_response_context_def table_is_full_def put_context_def)
  moreover have "table_is_full (m_context_table co1)" "\<not> closed co1"
    using co(1) by (simp_all add: co1_def table_is_full_def closed_def)
  moreover have "append_response (m_request_id_counter co) flags wg co1 = (Inr co2, [])"
    using co(1,2) by (simp add: co2_def ctx2_def co1_def ctx1_def append_response_def get_by_req_id_def table_empty_def table_front_def
        table_back_def get_real_index_def reinit_def enqueue_group_def put_context_def closed_def Let_def)
  moreover have "pop_ready_buffers co2 = Inr (Some (wg, m_request_id ctx2), co3)"
    using co(1) assms(2,3) by (simp add: co3_def ctx3_def co2_def ctx2_def co1_def pop_ready_buffers_def table_empty_def table_front_def
        context_empty_def dequeue_group_def is_complete_def pop_response_context_def pop_response_context_nonchecked_def put_context_def
        closed_def Let_def)
  moreover have "no_response_waits co3"
    by (simp add: no_response_waits_def closed_def co3_def ctx3_def)
  ultimately show thesis by (blast intro: that)
qed

definition upgrade_group :: "nat \<Rightarrow> write_group_t" where
  "upgrade_group n = set_after_write_notificator n (write_group [Const_buf (if n = 0 then ''one'' else ''two'')])"

lemma upgrade_env_simps:
  "e_handler upgrade_env n rq =
     ([Send_parts (rq_id rq) \<lparr>m_response_parts = Final_parts, m_response_connection = Connection_keepalive\<rparr> (upgrade_group n)], Accepted)"
  "e_throws upgrade_env = (\<lambda>_. False)" "max_iov_len (e_max_iov_len upgrade_env) = 16"
  by (simp_all add: upgrade_env_def sample_conn_env_def upgrade_group_def max_iov_len_def)

lemma upgrade_group_written:
  assumes "m_current_wg w = Some (upgrade_group n)" "m_next_writable_item_index w = 0"
  shows "\<exists>bufs total_size w'. extract_next_write_operation 16 w = Some (Trivial_buffers bufs total_size, w') \<and>
    m_current_wg w' = Some (upgrade_group n) \<and> m_next_writable_item_index w' = length (m_items (upgrade_group n))"
  using assms
  by (simp add: extract_next_write_operation_def prepare_trivial_buffers_wo_def upgrade_group_def set_after_write_notificator_def
      write_group_def write_type_def item_buf_def)

lemma count_Called: "count_list (map Called ns) Read_done = 0"
  by (induction ns) simp_all

definition again :: "unit conn_t \<Rightarrow> unit result \<Rightarrow> bool" where
  "again c r = (case r of
     Done c' \<Rightarrow> upgrade_answered c' \<and> c_handler_calls c' = Suc (c_handler_calls c) \<and> \<not> c_timer_scheduled c' \<and> c_now c' = c_now c \<and>
       count_list (c_trace c') Read_done = count_list (c_trace c) Read_done
   | _ \<Rightarrow> False)"

lemma upgrade_group_started:
  assumes "m_current_wg (c_write_output_ctx d) = Some (upgrade_group n)" "m_next_writable_item_index (c_write_output_ctx d) = 0"
    and "c_socket_open d" "c_upgrade_stage d \<noteq> No_upgrade" "no_response_waits (c_response_coordinator d)"
    and "c_handler_calls d = Suc (c_handler_calls c)" "\<not> c_timer_scheduled d" "c_now d = c_now c"
    and "count_list (c_trace d) Read_done = count_list (c_trace c) Read_done"
  shows "again c (handle_current_write_ctx upgrade_env call d)"
  using upgrade_group_written [OF assms(1,2)] assms(3-)
  by (auto simp: handle_current_write_ctx_def upgrade_env_simps again_def catching_def upgrade_answered_def
      handle_trivial_write_operation_def guard_write_operation_def schedule_operation_timeout_callback_def act_def
      cancel_reading_def no_response_waits_def)

lemma again_catching: "again c r \<Longrightarrow> again c (catching f r)"
  by (cases r) (simp_all add: again_def catching_def)

lemma and_then_Done [simp]: "and_then r Done = r" "and_then (Done c) f = f c"
  by (cases r) (simp_all add: and_then_def)

lemma again_same:
  assumes "c_handler_calls d = c_handler_calls c" "c_now d = c_now c" "count_list (c_trace d) Read_done = count_list (c_trace c) Read_done"
  shows "again d r = again c r"
  using assms by (cases r) (simp_all add: again_def)

lemma run_actions_Nil: "run_actions call [] = Done"
  by (rule ext) simp

lemma upgrade_request_answered:
  assumes "upgrade_idle c"
  shows "again c (handle_upgrade_request upgrade_env (exec upgrade_env (Suc (Suc n))) c)"
proof -
  let ?flags = "\<lparr>m_response_parts = Final_parts, m_response_connection = Connection_keepalive\<rparr>"
  from assms have co: "no_response_waits (c_response_coordinator c)" by (simp add: upgrade_idle_def)
  obtain co1 co2 co3 request_id where
    steps: "register_new_request (c_response_coordinator c) = Inr (m_request_id_counter (c_response_coordinator c), co1)"
      "table_is_full (m_context_table co1)" "\<not> closed co1"
      "append_response (m_request_id_counter (c_response_coordinator c)) ?flags (upgrade_group (c_handler_calls c)) co1 = (Inr co2, [])"
      "pop_ready_buffers co2 = Inr (Some (upgrade_group (c_handler_calls c), request_id), co3)" "no_response_waits co3"
    by (rule one_request_coordinated [OF co, of ?flags "upgrade_group (c_handler_calls c)"]) auto
  from assms steps show ?thesis
    unfolding upgrade_idle_def
    by (simp add: upgrade_env_simps handle_upgrade_request_def register_request_def cancel_timeout_checking_def call_request_handler_def
        make_request_def Let_def case_prod_beta write_response_parts_def write_response_parts_impl_def init_write_if_necessary_def
        init_write_def act_def notify_def transmitting_def start_next_write_group_def run_actions_Nil)
      (intro again_catching upgrade_group_started; simp)
qed

lemma upgrade_handled_once_more:
  assumes "upgrade_answered c"
  shows "again c (handle_event upgrade_env (Suc (Suc (Suc n))) (Write_completed None) c)"
proof -
  from assms obtain wg where wg: "m_current_wg (c_write_output_ctx c) = Some wg"
    "m_next_writable_item_index (c_write_output_ctx c) = length (m_items wg)" by (auto simp: upgrade_answered_def split: option.splits)
  obtain called w where fin: "finish_write_group (\<lambda>_. False) (c_write_output_ctx c) = Some (called, None, w)"
    "m_current_wg w = None" "m_next_writable_item_index w = 0"
    by (simp add: wg finish_write_group_def invoke_after_write_notificator_if_necessary_def reset_write_group_def case_prod_beta Let_def
        list_ex_iff)
  let ?c = "notify called (act Write_done (c\<lparr>c_write_running := False\<rparr>)\<lparr>c_write_output_ctx := w\<rparr>)"
  have co: "table_empty (m_context_table (c_response_coordinator c))" "\<not> closed (c_response_coordinator c)"
    using assms by (auto simp: upgrade_answered_def no_response_waits_def table_empty_def)
  have "upgrade_idle ?c" "c_handler_calls ?c = c_handler_calls c" "c_now ?c = c_now c"
    "count_list (c_trace ?c) Read_done = count_list (c_trace c) Read_done"
    using assms fin(2,3) by (simp_all add: upgrade_idle_def upgrade_answered_def notify_def act_def count_Called)
  then have "again c (exec upgrade_env (Suc (Suc (Suc n))) Handle_upgrade_request ?c)"
    using upgrade_request_answered [of ?c n] again_same [of ?c c] by simp
  then have "again c (handle_current_write_ctx upgrade_env (exec upgrade_env (Suc (Suc (Suc n)))) (act Write_done (c\<lparr>c_write_running := False\<rparr>)))"
    using assms co fin wg
    by (auto simp: handle_current_write_ctx_def extract_next_write_operation_def finish_handling_current_write_ctx_def upgrade_env_simps
        upgrade_answered_def act_def notify_def Let_def simp del: exec.simps intro!: again_catching)
  then show ?thesis
    by (auto simp: write_completed_def after_write_def again_def and_then_def upgrade_answered_def file_write_operation_reset_def
        simp del: exec.simps split: result.splits option.splits)
qed

definition upgrade_start :: "unit conn_t" where
  "upgrade_start = connection upgrade_env 4 small_limits 1 0"

definition upgrade_waiting :: "unit conn_t" where
  "upgrade_waiting = done_or upgrade_start (handle_event upgrade_env 8 Init upgrade_start)"

definition upgrade_first :: "unit conn_t" where
  "upgrade_first = done_or upgrade_start (handle_event upgrade_env 8 (Read_completed (Inr ''a'')) upgrade_waiting)"

lemma upgrade_first_reached:
  "conn_reach upgrade_env 1 upgrade_first" "upgrade_answered upgrade_first" "c_handler_calls upgrade_first = 1"
  "\<not> c_timer_scheduled upgrade_first" "count_list (c_trace upgrade_first) Read_done = 1"
proof -
  have "is_done (handle_event upgrade_env 8 Init upgrade_start)" by code_simp
  then have "handle_event upgrade_env 8 Init upgrade_start = Done upgrade_waiting"
    unfolding upgrade_waiting_def by (rule is_done_iff)
  then have 1: "conn_reach upgrade_env 1 upgrade_waiting" unfolding upgrade_start_def by (rule conn_reach.started)
  have "is_done (handle_event upgrade_env 8 (Read_completed (Inr ''a'')) upgrade_waiting)" by code_simp
  then have "handle_event upgrade_env 8 (Read_completed (Inr ''a'')) upgrade_waiting = Done upgrade_first"
    unfolding upgrade_first_def by (rule is_done_iff)
  moreover have "event_possible (Read_completed (Inr ''a'')) upgrade_waiting" by code_simp
  ultimately show "conn_reach upgrade_env 1 upgrade_first"
    using conn_reach.event [OF 1, of "c_now upgrade_waiting" "Read_completed (Inr ''a'')" 8 upgrade_first] by simp
  show "upgrade_answered upgrade_first" "c_handler_calls upgrade_first = 1"
    "\<not> c_timer_scheduled upgrade_first" "count_list (c_trace upgrade_first) Read_done = 1" by code_simp+
qed

text \<open>
  When the handler of an upgrade request answers it with an ordinary response and keeps the connection alive, the stage of the upgrade
  stays: whenever the response has been written, the same request is handed to the handler again, without its header and
  body. From a single read on, a client that reads the responses is answered any number of times, and meanwhile no check of the timeouts
  is scheduled, although the socket is open.
\<close>

theorem upgrade_request_handled_repeatedly:
  "\<exists>c. conn_reach upgrade_env 1 c \<and> c_socket_open c \<and> c_handler_calls c = Suc k \<and> count_list (c_trace c) Read_done = 1 \<and>
    \<not> c_timer_scheduled c"
proof -
  have "\<exists>c. conn_reach upgrade_env 1 c \<and> upgrade_answered c \<and> c_handler_calls c = Suc k \<and> count_list (c_trace c) Read_done = 1 \<and>
    \<not> c_timer_scheduled c"
  proof (induction k)
    case 0
    from upgrade_first_reached show ?case by (intro exI [of _ upgrade_first]) simp
  next
    case (Suc k)
    then obtain c where c: "conn_reach upgrade_env 1 c" "upgrade_answered c" "c_handler_calls c = Suc k" "count_list (c_trace c) Read_done = 1"
      by blast
    obtain c' where c': "handle_event upgrade_env (Suc (Suc (Suc 0))) (Write_completed None) c = Done c'" "again c (Done c')"
      using upgrade_handled_once_more [OF c(2), of 0] by (auto simp: again_def split: result.splits)
    have "event_possible (Write_completed None) c" using c(2) by (simp add: upgrade_answered_def)
    with conn_reach.event [OF c(1) order_refl, of "Write_completed None" _ c'] c'(1) have "conn_reach upgrade_env 1 c'" by auto
    with c' c show ?case by (intro exI [of _ c']) (simp add: again_def)
  qed
  then show ?thesis by (auto simp: upgrade_answered_def)
qed

section \<open>Every event ends\<close>

text \<open>
  C4: Every event that can happen on a connection is handled to its end: with enough depth the methods of the connection return normally, with
  the same state for every greater depth, and a smaller depth is either enough or visibly used up. So the recursion of the
  connection through pipelined requests, handlers that answer at once, responses that can be written at once and upgrade requests
  is finite. It relies on two conditions: the parser completes a message only after at least one byte of it was consumed, and, if it ever reports
  an upgrade, every part of a response that the handler sends has at least one buffer or file to write.
\<close>

theorem events_are_handled:
  assumes "conn_reach env max_requests c" "0 < e_max_iov_len env" "parser_progress env" "upgrades_are_answered env"
    and "e \<noteq> Init" "event_possible e c"
  shows "\<exists>depth c'. (\<forall>fuel\<ge>depth. handle_event env fuel e c = Done c') \<and>
    (\<forall>fuel. handle_event env fuel e c = Done c' \<or> handle_event env fuel e c = Out_of_fuel) \<and>
    conn_reach env max_requests c'"
proof -
  from handle_event_runs [OF assms(3,4) conn_reach_sound [OF assms(1,3,4)] assms(6)] obtain r depth
    where r: "\<forall>fuel\<ge>depth. handle_event env fuel e c = r" "with_state (sound env) r" by (auto simp: runs_def settles_def)
  then have "handle_event env depth e c = r" "r \<noteq> Out_of_fuel" by auto
  with handle_event_ends [OF assms(2) conn_reach_inv [OF assms(1,2)] assms(5,6), of depth] handle_event_not_Raised [of env depth e c]
  obtain c' where c': "r = Done c'" by (cases r) auto
  have "handle_event env fuel e c = Done c'" if "handle_event env fuel e c \<noteq> Out_of_fuel" for fuel
    using handle_event_more [OF that, of "max fuel depth"] r(1) c' by simp
  moreover have "conn_reach env max_requests c'"
    using conn_reach.event [OF assms(1) order_refl assms(5), of depth c'] assms(6) r(1) c' by simp
  ultimately show ?thesis using r(1) c' by blast
qed

theorem events_are_handled_witness:
  "\<exists>depth c'. (\<forall>fuel\<ge>depth. handle_event upgrade_env fuel (Write_completed None) upgrade_first = Done c') \<and>
    conn_reach upgrade_env 1 c'"
proof -
  have "parser_progress upgrade_env" by (simp add: parser_progress_def upgrade_env_def sample_conn_env_def)
  moreover have "upgrades_are_answered upgrade_env"
    by (simp add: upgrades_are_answered_def parts_have_items_def upgrade_env_simps upgrade_group_def set_after_write_notificator_def
        write_group_def)
  moreover have "event_possible (Write_completed None) upgrade_first" "0 < e_max_iov_len upgrade_env" by code_simp+
  ultimately show ?thesis
    using events_are_handled [OF upgrade_first_reached(1), of "Write_completed None"] by blast
qed

section \<open>A read and a write that fail together\<close>

text \<open>Both completions are already queued when the first of them closes the connection; the listener is told twice.\<close>

definition sample_reset :: "unit conn_t" where
  "sample_reset = done_or sample_start (handle_event sample_conn_env 8 (Read_completed (Inl (Other_error 104))) sample_answered)"

definition sample_reset_twice :: "unit conn_t" where
  "sample_reset_twice = done_or sample_start (handle_event sample_conn_env 8 (Write_completed (Some (Other_error 32))) sample_reset)"

lemma closed_twice: "conn_reach sample_conn_env 3 sample_reset_twice \<and> count_list (c_trace sample_reset_twice) Notice_closed = 2"
proof -
  have "is_done (handle_event sample_conn_env 8 (Read_completed (Inl (Other_error 104))) sample_answered)" by code_simp
  then have "handle_event sample_conn_env 8 (Read_completed (Inl (Other_error 104))) sample_answered = Done sample_reset"
    unfolding sample_reset_def by (rule is_done_iff)
  moreover have "event_possible (Read_completed (Inl (Other_error 104))) sample_answered" by code_simp
  ultimately have 1: "conn_reach sample_conn_env 3 sample_reset"
    using conn_reach.event [OF sample_reach(2) order_refl, of "Read_completed (Inl (Other_error 104))" 8 sample_reset] by simp
  have "is_done (handle_event sample_conn_env 8 (Write_completed (Some (Other_error 32))) sample_reset)" by code_simp
  then have "handle_event sample_conn_env 8 (Write_completed (Some (Other_error 32))) sample_reset = Done sample_reset_twice"
    unfolding sample_reset_twice_def by (rule is_done_iff)
  moreover have "event_possible (Write_completed (Some (Other_error 32))) sample_reset" by code_simp
  ultimately have "conn_reach sample_conn_env 3 sample_reset_twice"
    using conn_reach.event [OF 1 order_refl, of "Write_completed (Some (Other_error 32))" 8 sample_reset_twice] by simp
  moreover have "count_list (c_trace sample_reset_twice) Notice_closed = 2" by code_simp
  ultimately show ?thesis by simp
qed

end
