(* ===== verification/Ws_Parser.thy ===== *)
theory Ws_Parser
  imports Bitops
begin

text \<open>
  The websocket frame codec of \<^verbatim>\<open>restinio/websocket/impl/ws_parser.hpp\<close> and the opcodes and
  status codes of \<^verbatim>\<open>restinio/websocket/message.hpp\<close>.

  \<^verbatim>\<open>opcode_t\<close> and \<^verbatim>\<open>status_code_t\<close> are scoped enumerations with a fixed underlying type whose
  values come from casts of received bytes, so they are words of that type, with one name per
  enumerator. \<^verbatim>\<open>raw_data_t\<close> is a list of bytes, \<^verbatim>\<open>size_t\<close> payload lengths are 64-bit words. The
  exception of \<^verbatim>\<open>expected_data_t\<close> is an error value.
\<close>

subsection \<open>Opcodes and status codes\<close>

type_synonym opcode_t = u8
type_synonym status_code_t = u16
type_synonym raw_data_t = "u8 list"

abbreviation (input) continuation_frame :: opcode_t where "continuation_frame \<equiv> 0x00"
abbreviation (input) text_frame :: opcode_t where "text_frame \<equiv> 0x01"
abbreviation (input) binary_frame :: opcode_t where "binary_frame \<equiv> 0x02"
abbreviation (input) connection_close_frame :: opcode_t where "connection_close_frame \<equiv> 0x08"
abbreviation (input) ping_frame :: opcode_t where "ping_frame \<equiv> 0x09"
abbreviation (input) pong_frame :: opcode_t where "pong_frame \<equiv> 0x0A"
abbreviation (input) unknown_frame :: opcode_t where "unknown_frame \<equiv> 0x0F"

definition opcode_to_string :: "opcode_t \<Rightarrow> string" where
  "opcode_to_string opcode =
     (if opcode = continuation_frame then ''continuation_frame''
      else if opcode = text_frame then ''text_frame''
      else if opcode = binary_frame then ''binary_frame''
      else if opcode = connection_close_frame then ''connection_close_frame''
      else if opcode = ping_frame then ''ping_frame''
      else if opcode = pong_frame then ''pong_frame''
      else ''unknown_frame'')"

definition is_valid_opcode :: "opcode_t \<Rightarrow> bool" where
  "is_valid_opcode opcode =
     (if opcode = continuation_frame \<or> opcode = text_frame \<or> opcode = binary_frame
         \<or> opcode = connection_close_frame \<or> opcode = ping_frame \<or> opcode = pong_frame
      then True else False)"

definition status_code_to_bin :: "status_code_t \<Rightarrow> raw_data_t" where
  "status_code_to_bin code = [n_bits_from 8 8 code, n_bits_from 0 8 code]"

definition status_code_from_bin :: "raw_data_t \<Rightarrow> status_code_t" where
  "status_code_from_bin data =
     (if 2 \<le> length data then push_bit 8 (0 OR ucast (data ! 0)) OR ucast (data ! 1) else 0)"

subsection \<open>Message details\<close>

record message_details_t =
  m_final_flag :: bool
  m_rsv1_flag :: bool
  m_rsv2_flag :: bool
  m_rsv3_flag :: bool
  m_opcode :: opcode_t
  m_mask_flag :: bool
  m_payload_len :: u8
  m_ext_payload_len :: u64
  m_masking_key :: u32

definition message_details_default :: message_details_t where
  "message_details_default =
     \<lparr>m_final_flag = True, m_rsv1_flag = False, m_rsv2_flag = False, m_rsv3_flag = False,
      m_opcode = continuation_frame, m_mask_flag = False, m_payload_len = 0,
      m_ext_payload_len = 0, m_masking_key = 0\<rparr>"

definition init_payload_len :: "u64 \<Rightarrow> message_details_t \<Rightarrow> message_details_t" where
  "init_payload_len payload_len m =
     (if 125 < payload_len then
        m\<lparr>m_payload_len := (if 0xFFFF < payload_len then 127 else 126), m_ext_payload_len := payload_len\<rparr>
      else m\<lparr>m_payload_len := ucast payload_len\<rparr>)"

definition make_message_details :: "bool \<Rightarrow> opcode_t \<Rightarrow> u64 \<Rightarrow> message_details_t" where
  "make_message_details final_flag opcode payload_len =
     init_payload_len payload_len (message_details_default\<lparr>m_final_flag := final_flag, m_opcode := opcode\<rparr>)"

definition make_masked_message_details :: "bool \<Rightarrow> opcode_t \<Rightarrow> u64 \<Rightarrow> u32 \<Rightarrow> message_details_t" where
  "make_masked_message_details final_flag opcode payload_len masking_key =
     init_payload_len payload_len
       (message_details_default\<lparr>m_final_flag := final_flag, m_opcode := opcode,
          m_mask_flag := True, m_masking_key := masking_key\<rparr>)"

definition details_payload_len :: "message_details_t \<Rightarrow> u64" where
  "details_payload_len m = (if 125 < m_payload_len m then m_ext_payload_len m else ucast (m_payload_len m))"

definition set_masking_key :: "u32 \<Rightarrow> message_details_t \<Rightarrow> message_details_t" where
  "set_masking_key value m = m\<lparr>m_masking_key := value, m_mask_flag := True\<rparr>"

subsection \<open>Data of a known size and big endian numbers\<close>

datatype ws_error = Expected_data_is_full | Another_frame_is_processing | Current_state_is_empty

record expected_data_t =
  m_expected_size :: nat
  m_loaded_data :: raw_data_t

definition expected_data :: "nat \<Rightarrow> expected_data_t" where
  "expected_data expected_size = \<lparr>m_expected_size = expected_size, m_loaded_data = []\<rparr>"

definition all_bytes_loaded :: "expected_data_t \<Rightarrow> bool" where
  "all_bytes_loaded d \<longleftrightarrow> length (m_loaded_data d) = m_expected_size d"

definition add_byte_and_check_size :: "expected_data_t \<Rightarrow> u8 \<Rightarrow> ws_error + bool \<times> expected_data_t" where
  "add_byte_and_check_size d byte =
     (if length (m_loaded_data d) = m_expected_size d then Inl Expected_data_is_full
      else let d = d\<lparr>m_loaded_data := m_loaded_data d @ [byte]\<rparr> in Inr (all_bytes_loaded d, d))"

definition expected_data_reset :: "nat \<Rightarrow> expected_data_t \<Rightarrow> expected_data_t" where
  "expected_data_reset expected_size d = d\<lparr>m_expected_size := expected_size, m_loaded_data := []\<rparr>"

definition read_number_from_big_endian_bytes :: "raw_data_t \<Rightarrow> 'a::len word" where
  "read_number_from_big_endian_bytes data = foldl (\<lambda>number byte. push_bit 8 number OR ucast byte) 0 data"

definition write_number_to_big_endian_bytes :: "nat \<Rightarrow> u64 \<Rightarrow> raw_data_t \<Rightarrow> raw_data_t" where
  "write_number_to_big_endian_bytes bytes number data =
     data @ map (\<lambda>i. ucast (drop_bit ((bytes - i - 1) * 8) number AND 0xFF)) [0..<bytes]"

subsection \<open>The parser\<close>

datatype parser_state_t = Waiting_for_first_2_bytes | Waiting_for_ext_len | Waiting_for_mask_key | Header_parsed

record ws_parser_t =
  m_expected_data :: expected_data_t
  m_current_msg :: message_details_t
  m_current_state :: parser_state_t

definition ws_parser :: ws_parser_t where
  "ws_parser =
     \<lparr>m_expected_data = expected_data 2, m_current_msg = message_details_default,
      m_current_state = Waiting_for_first_2_bytes\<rparr>"

definition ws_parser_reset :: "ws_parser_t \<Rightarrow> ws_parser_t" where
  "ws_parser_reset p =
     p\<lparr>m_current_state := Waiting_for_first_2_bytes, m_current_msg := message_details_default,
       m_expected_data := expected_data_reset 2 (m_expected_data p)\<rparr>"

definition header_parsed :: "ws_parser_t \<Rightarrow> bool" where
  "header_parsed p \<longleftrightarrow> m_current_state p = Header_parsed"

definition parse_first_2_bytes :: "raw_data_t \<Rightarrow> message_details_t \<Rightarrow> message_details_t" where
  "parse_first_2_bytes data m =
     m\<lparr>m_final_flag := (data ! 0 AND 0x80 \<noteq> 0),
       m_rsv1_flag := (data ! 0 AND 0x40 \<noteq> 0),
       m_rsv2_flag := (data ! 0 AND 0x20 \<noteq> 0),
       m_rsv3_flag := (data ! 0 AND 0x10 \<noteq> 0),
       m_opcode := data ! 0 AND 0x0F,
       m_mask_flag := (data ! 1 AND 0x80 \<noteq> 0),
       m_payload_len := data ! 1 AND 0x7F\<rparr>"

definition parse_ext_payload_len :: "u8 \<Rightarrow> raw_data_t \<Rightarrow> message_details_t \<Rightarrow> message_details_t" where
  "parse_ext_payload_len payload_len data m =
     (if payload_len = 126 then m\<lparr>m_ext_payload_len := read_number_from_big_endian_bytes data\<rparr>
      else if payload_len = 127 then m\<lparr>m_ext_payload_len := read_number_from_big_endian_bytes data\<rparr>
      else m)"

definition parse_masking_key :: "bool \<Rightarrow> raw_data_t \<Rightarrow> message_details_t \<Rightarrow> message_details_t" where
  "parse_masking_key mask_flag data m =
     (if mask_flag then m\<lparr>m_masking_key := read_number_from_big_endian_bytes data\<rparr> else m)"

definition process_first_2_bytes :: "ws_parser_t \<Rightarrow> ws_parser_t" where
  "process_first_2_bytes p =
     (let p = p\<lparr>m_current_msg := parse_first_2_bytes (m_loaded_data (m_expected_data p)) (m_current_msg p)\<rparr>;
          payload_len = unat (m_payload_len (m_current_msg p))
      in if 125 < payload_len then
           p\<lparr>m_expected_data := expected_data_reset (if payload_len = 126 then 2 else 8) (m_expected_data p),
             m_current_state := Waiting_for_ext_len\<rparr>
         else if m_mask_flag (m_current_msg p) then
           p\<lparr>m_expected_data := expected_data_reset 4 (m_expected_data p),
             m_current_state := Waiting_for_mask_key\<rparr>
         else
           p\<lparr>m_expected_data := expected_data_reset payload_len (m_expected_data p),
             m_current_state := Header_parsed\<rparr>)"

definition process_extended_length :: "ws_parser_t \<Rightarrow> ws_parser_t" where
  "process_extended_length p =
     (let p = p\<lparr>m_current_msg := parse_ext_payload_len (m_payload_len (m_current_msg p))
                  (m_loaded_data (m_expected_data p)) (m_current_msg p)\<rparr>
      in if m_mask_flag (m_current_msg p) then
           p\<lparr>m_expected_data := expected_data_reset 4 (m_expected_data p),
             m_current_state := Waiting_for_mask_key\<rparr>
         else p\<lparr>m_current_state := Header_parsed\<rparr>)"

definition process_masking_key :: "ws_parser_t \<Rightarrow> ws_parser_t" where
  "process_masking_key p =
     p\<lparr>m_current_msg := parse_masking_key (m_mask_flag (m_current_msg p))
         (m_loaded_data (m_expected_data p)) (m_current_msg p),
       m_current_state := Header_parsed\<rparr>"

definition ws_process_byte :: "ws_parser_t \<Rightarrow> u8 \<Rightarrow> ws_error + ws_parser_t" where
  "ws_process_byte p byte =
     (case add_byte_and_check_size (m_expected_data p) byte of
        Inl e \<Rightarrow> Inl e
      | Inr (loaded, d) \<Rightarrow>
          (let p = p\<lparr>m_expected_data := d\<rparr>
           in Inr (if loaded then
                     (case m_current_state p of
                        Waiting_for_first_2_bytes \<Rightarrow> process_first_2_bytes p
                      | Waiting_for_ext_len \<Rightarrow> process_extended_length p
                      | Waiting_for_mask_key \<Rightarrow> process_masking_key p
                      | Header_parsed \<Rightarrow> p)
                   else p)))"

fun parser_execute :: "ws_parser_t \<Rightarrow> raw_data_t \<Rightarrow> ws_error + nat \<times> ws_parser_t" where
  "parser_execute p [] = Inr (0, p)"
| "parser_execute p (byte # data) =
     (if m_current_state p = Header_parsed then Inr (0, p)
      else case ws_process_byte p byte of
        Inl e \<Rightarrow> Inl e
      | Inr p \<Rightarrow>
          (case parser_execute p data of
             Inl e \<Rightarrow> Inl e
           | Inr (parsed_bytes, p) \<Rightarrow> Inr (Suc parsed_bytes, p)))"

subsection \<open>Masking\<close>

definition masking_bytes :: "u32 \<Rightarrow> u8 list" where
  "masking_bytes masking_key =
     [n_bits_from 24 8 masking_key, n_bits_from 16 8 masking_key,
      n_bits_from 8 8 masking_key, n_bits_from 0 8 masking_key]"

text \<open>
  The inner loop runs through the mask bytes and the payload together, until one of them ends;
  it gives the masked part and what is left for the next turn of the outer loop.
\<close>

fun mask_inner_loop :: "u8 list \<Rightarrow> raw_data_t \<Rightarrow> raw_data_t \<times> raw_data_t" where
  "mask_inner_loop (m # ms) (b # payload) =
     (let (masked, rest) = mask_inner_loop ms payload in ((b XOR m) # masked, rest))"
| "mask_inner_loop _ payload = ([], payload)"

lemma mask_inner_loop_length: "length (snd (mask_inner_loop ms payload)) = length payload - length ms"
  by (induction ms payload rule: mask_inner_loop.induct) (auto split: prod.splits)

function mask_unmask_payload :: "u32 \<Rightarrow> raw_data_t \<Rightarrow> raw_data_t" where
  "mask_unmask_payload masking_key payload =
     (if payload = [] then []
      else let (masked, rest) = mask_inner_loop (masking_bytes masking_key) payload
           in masked @ mask_unmask_payload masking_key rest)"
  by auto
termination
proof (relation "measure (\<lambda>(_, payload). length payload)", simp)
  fix masking_key payload x masked rest
  assume "payload \<noteq> []" "x = mask_inner_loop (masking_bytes masking_key) payload" "(masked, rest) = x"
  then show "((masking_key, rest), masking_key, payload) \<in> measure (\<lambda>(_, payload). length payload)"
    using mask_inner_loop_length [of "masking_bytes masking_key" payload]
    by (cases payload) (auto simp: masking_bytes_def dest: sym)
qed

declare mask_unmask_payload.simps [simp del]

subsection \<open>Serialisation\<close>

definition write_message_details :: "message_details_t \<Rightarrow> raw_data_t" where
  "write_message_details message =
     (let byte = 0;
          byte = (if m_final_flag message then byte OR 0x80 else byte);
          byte = (if m_rsv1_flag message then byte OR 0x40 else byte);
          byte = (if m_rsv2_flag message then byte OR 0x20 else byte);
          byte = (if m_rsv3_flag message then byte OR 0x10 else byte);
          byte = byte OR (m_opcode message AND 0x0F);
          result = [byte];
          byte = 0;
          byte = (if m_mask_flag message then byte OR 0x80 else byte);
          len = m_payload_len message;
          result =
            (if len < 126 then result @ [byte OR len]
             else if len = 126 then
               write_number_to_big_endian_bytes 2 (m_ext_payload_len message) (result @ [byte OR 126])
             else if len = 127 then
               write_number_to_big_endian_bytes 8 (m_ext_payload_len message) (result @ [byte OR 127])
             else result)
      in if m_mask_flag message then
           result @ [n_bits_from 24 8 (m_masking_key message), n_bits_from 16 8 (m_masking_key message),
                     n_bits_from 8 8 (m_masking_key message), n_bits_from 0 8 (m_masking_key message)]
         else result)"

subsection \<open>Numbers\<close>

lemma foldl_bytes_less: "foldl (\<lambda>v b. v * 256 + unat b) 0 (data :: raw_data_t) < 256 ^ length data"
proof (induction data rule: rev_induct)
  case (snoc b data)
  then show ?case using unat_byte_less [of b] by (simp del: unat_byte_less)
qed simp

lemma unat_read_number:
  fixes data :: raw_data_t
  assumes "8 * length data \<le> LENGTH('a::len)"
  shows "unat (read_number_from_big_endian_bytes data :: 'a word) = foldl (\<lambda>v b. v * 256 + unat b) 0 data"
  using assms
proof (induction data rule: rev_induct)
  case Nil
  show ?case by (simp add: read_number_from_big_endian_bytes_def)
next
  case (snoc b data)
  let ?v = "foldl (\<lambda>v b. v * 256 + unat b) 0 data"
  have v: "unat (read_number_from_big_endian_bytes data :: 'a word) = ?v"
    using snoc by simp
  have len: "8 \<le> LENGTH('a)" "8 * Suc (length data) \<le> LENGTH('a)" using snoc.prems by simp_all
  have "?v * 2 ^ 8 + unat b < 256 ^ Suc (length data)"
    using foldl_bytes_less [of "data @ [b]"] by simp
  also have "\<dots> = 2 ^ (8 * Suc (length data))" by (simp only: power_mult) simp
  also have "\<dots> \<le> 2 ^ LENGTH('a)" using len(2) by (intro power_increasing) auto
  finally have bound: "?v * 2 ^ 8 + unat b < 2 ^ LENGTH('a)" .
  then have "unat (ucast b :: 'a word) = unat b"
    unfolding unsigned_ucast_eq by (intro take_bit_nat_eq_self) linarith
  from append_bits [OF v this _ bound] show ?case
    by (simp add: read_number_from_big_endian_bytes_def)
qed

text \<open>The big endian digits of a number.\<close>

definition be_bytes :: "nat \<Rightarrow> nat \<Rightarrow> nat list" where
  "be_bytes n v = map (\<lambda>i. v div 256 ^ (n - i - 1) mod 256) [0..<n]"

lemma be_bytes_Suc: "be_bytes (Suc n) v = v div 256 ^ n mod 256 # be_bytes n v"
  unfolding be_bytes_def by (subst upt_conv_Cons, simp) (simp add: map_Suc_upt [symmetric] del: upt_Suc)

lemma foldl_be_bytes: "foldl (\<lambda>v b. v * 256 + b) a (be_bytes n v) = a * 256 ^ n + v mod 256 ^ n"
proof (induction n arbitrary: a)
  case 0
  then show ?case by (simp add: be_bytes_def)
next
  case (Suc n)
  have "v mod 256 ^ Suc n = 256 ^ n * (v div 256 ^ n mod 256) + v mod 256 ^ n"
    using mod_mult2_eq [of v "256 ^ n" 256] by (simp add: mult.commute)
  with Suc show ?case by (simp add: be_bytes_Suc algebra_simps)
qed

lemma unat_written_bytes:
  "map unat (write_number_to_big_endian_bytes n number []) = be_bytes n (unat number)"
proof -
  have "unat (ucast (drop_bit (k * 8) number AND 0xFF) :: u8) = unat number div 256 ^ k mod 256" for k
  proof -
    have "unat (drop_bit (k * 8) number AND 0xFF) = unat (drop_bit (k * 8) number) mod 256"
      using unat_and_mask [of "drop_bit (k * 8) number" 8] by (simp add: mask_eq_exp_minus_1)
    then have "unat (drop_bit (k * 8) number AND 0xFF) = unat number div 256 ^ k mod 256"
      by (simp only: unat_drop_bit_eq) (simp add: drop_bit_eq_div power_mult mult.commute [of k])
    then show ?thesis
      unfolding unsigned_ucast_eq by (simp add: take_bit_eq_mod)
  qed
  then show ?thesis by (simp add: write_number_to_big_endian_bytes_def be_bytes_def)
qed

lemma read_number_be_bytes:
  assumes "map unat data = be_bytes n v" and "8 * n \<le> LENGTH('a::len)"
  shows "unat (read_number_from_big_endian_bytes data :: 'a word) = v mod 256 ^ n"
proof -
  have "length data = n" using arg_cong [OF assms(1), of length] by (simp add: be_bytes_def)
  then have "unat (read_number_from_big_endian_bytes data :: 'a word) = foldl (\<lambda>v b. v * 256 + unat b) 0 data"
    using assms(2) by (intro unat_read_number) simp
  also have "\<dots> = foldl (\<lambda>v b. v * 256 + b) 0 (map unat data)" by (simp add: foldl_map)
  finally show ?thesis by (simp add: assms(1) foldl_be_bytes)
qed

lemma write_number_append:
  "write_number_to_big_endian_bytes n number data = data @ write_number_to_big_endian_bytes n number []"
  by (simp add: write_number_to_big_endian_bytes_def)

lemma length_write_number [simp]: "length (write_number_to_big_endian_bytes n number data) = length data + n"
  by (simp add: write_number_to_big_endian_bytes_def)

lemma read_write_number:
  assumes "unat number < 256 ^ n" "n \<le> 8"
  shows "read_number_from_big_endian_bytes (write_number_to_big_endian_bytes n number []) = (number :: u64)"
  using read_number_be_bytes [OF unat_written_bytes, of n number, where 'a = 64] assms
  by (simp add: word_unat_eq_iff)

lemma read_masking_bytes: "read_number_from_big_endian_bytes (masking_bytes key) = key"
proof -
  have "map unat (masking_bytes key) = be_bytes 4 (unat key)"
    by (simp add: masking_bytes_def unat_byte_from be_bytes_def upt_rec)
  then show ?thesis
    using read_number_be_bytes [of "masking_bytes key" 4 "unat key", where 'a = 32]
      unsigned_less [of key, where 'a = nat] by (simp add: word_unat_eq_iff)
qed

subsection \<open>The parser runs block by block\<close>

text \<open>What happens when the last byte of the expected block has arrived.\<close>

definition block_loaded :: "ws_parser_t \<Rightarrow> ws_parser_t" where
  "block_loaded p =
     (case m_current_state p of
        Waiting_for_first_2_bytes \<Rightarrow> process_first_2_bytes p
      | Waiting_for_ext_len \<Rightarrow> process_extended_length p
      | Waiting_for_mask_key \<Rightarrow> process_masking_key p
      | Header_parsed \<Rightarrow> p)"

lemma parser_execute_parsed [simp]: "m_current_state p = Header_parsed \<Longrightarrow> parser_execute p data = Inr (0, p)"
  by (cases data) auto

lemma parser_execute_append:
  "parser_execute p (xs @ ys) =
     sum_bind (parser_execute p xs) (\<lambda>(n, q). sum_bind (parser_execute q ys) (\<lambda>(m, r). Inr (n + m, r)))"
proof (induction xs arbitrary: p)
  case Nil
  show ?case by (cases "parser_execute p ys") auto
next
  case (Cons b xs)
  show ?case
  proof (cases "m_current_state p = Header_parsed")
    case False
    then show ?thesis
      by (cases "ws_process_byte p b")
        (simp_all add: Cons.IH, auto split: sum.splits prod.splits elim!: sum_bind.elims)
  qed simp
qed

lemma ws_process_byte_not_last:
  "Suc (length (m_loaded_data (m_expected_data p))) < m_expected_size (m_expected_data p) \<Longrightarrow>
   ws_process_byte p b =
     Inr (p\<lparr>m_expected_data := m_expected_data p\<lparr>m_loaded_data := m_loaded_data (m_expected_data p) @ [b]\<rparr>\<rparr>)"
  by (simp add: ws_process_byte_def add_byte_and_check_size_def all_bytes_loaded_def)

lemma ws_process_byte_last:
  "Suc (length (m_loaded_data (m_expected_data p))) = m_expected_size (m_expected_data p) \<Longrightarrow>
   ws_process_byte p b =
     Inr (block_loaded
       (p\<lparr>m_expected_data := m_expected_data p\<lparr>m_loaded_data := m_loaded_data (m_expected_data p) @ [b]\<rparr>\<rparr>))"
  by (simp add: ws_process_byte_def add_byte_and_check_size_def all_bytes_loaded_def block_loaded_def Let_def)

lemma parser_execute_block_from:
  assumes "m_current_state p \<noteq> Header_parsed" "blk \<noteq> []"
    and "m_expected_data p = \<lparr>m_expected_size = length loaded + length blk, m_loaded_data = loaded\<rparr>"
  shows "parser_execute p blk =
    Inr (length blk, block_loaded
      (p\<lparr>m_expected_data := \<lparr>m_expected_size = length loaded + length blk, m_loaded_data = loaded @ blk\<rparr>\<rparr>))"
  using assms
proof (induction blk arbitrary: p loaded)
  case (Cons b blk)
  show ?case
  proof (cases "blk = []")
    case True
    with Cons.prems show ?thesis by (simp add: ws_process_byte_last)
  next
    case False
    let ?q = "p\<lparr>m_expected_data := \<lparr>m_expected_size = length loaded + length (b # blk), m_loaded_data = loaded @ [b]\<rparr>\<rparr>"
    have "ws_process_byte p b = Inr ?q"
      using Cons.prems False by (simp add: ws_process_byte_not_last)
    moreover have "parser_execute ?q blk = Inr (length blk, block_loaded
        (?q\<lparr>m_expected_data := \<lparr>m_expected_size = length (loaded @ [b]) + length blk,
            m_loaded_data = (loaded @ [b]) @ blk\<rparr>\<rparr>))"
      using Cons.prems False by (intro Cons.IH) auto
    ultimately show ?thesis using Cons.prems(1) by simp
  qed
qed simp

lemma parser_execute_block:
  assumes "m_current_state p \<noteq> Header_parsed" "blk \<noteq> []" "m_expected_data p = expected_data (length blk)"
  shows "parser_execute p blk =
    Inr (length blk, block_loaded
      (p\<lparr>m_expected_data := \<lparr>m_expected_size = length blk, m_loaded_data = blk\<rparr>\<rparr>))"
  using parser_execute_block_from [of p blk "[]"] assms by (simp add: expected_data_def)

lemma expected_data_reset_eq [simp]: "expected_data_reset n d = expected_data n"
  by (simp add: expected_data_reset_def expected_data_def)

lemma ws_parser_reset_eq: "ws_parser_reset p = ws_parser"
  by (simp add: ws_parser_reset_def ws_parser_def)

subsection \<open>The parser never fails and needs at most fourteen bytes\<close>

definition parser_wf :: "ws_parser_t \<Rightarrow> bool" where
  "parser_wf p \<longleftrightarrow>
     m_current_state p \<noteq> Header_parsed \<longrightarrow>
       length (m_loaded_data (m_expected_data p)) < m_expected_size (m_expected_data p) \<and>
       m_expected_size (m_expected_data p) \<le>
         (case m_current_state p of Waiting_for_first_2_bytes \<Rightarrow> 2 | Waiting_for_ext_len \<Rightarrow> 8 | _ \<Rightarrow> 4)"

definition bytes_needed :: "ws_parser_t \<Rightarrow> nat" where
  "bytes_needed p =
     (case m_current_state p of Header_parsed \<Rightarrow> 0 | Waiting_for_mask_key \<Rightarrow> 0
      | Waiting_for_ext_len \<Rightarrow> 4 | Waiting_for_first_2_bytes \<Rightarrow> 12) +
     (if m_current_state p = Header_parsed then 0
      else m_expected_size (m_expected_data p) - length (m_loaded_data (m_expected_data p)))"

lemmas parser_step_defs = process_first_2_bytes_def process_extended_length_def process_masking_key_def
  block_loaded_def expected_data_def Let_def

lemma block_loaded_progress:
  assumes "m_current_state p \<noteq> Header_parsed"
  shows "parser_wf (block_loaded p)"
    and "bytes_needed (block_loaded p) \<le> bytes_needed (p\<lparr>m_expected_data := expected_data 0\<rparr>)"
  using assms
  by (cases "m_current_state p"; simp add: parser_step_defs parser_wf_def bytes_needed_def)+

lemma ws_process_byte_progress:
  assumes "parser_wf p" "m_current_state p \<noteq> Header_parsed"
  shows "\<exists>q. ws_process_byte p b = Inr q \<and> parser_wf q \<and> bytes_needed q < bytes_needed p"
proof (cases "Suc (length (m_loaded_data (m_expected_data p))) < m_expected_size (m_expected_data p)")
  case True
  with assms show ?thesis
    by (auto simp: ws_process_byte_not_last parser_wf_def bytes_needed_def split: parser_state_t.splits)
next
  case False
  with assms have "Suc (length (m_loaded_data (m_expected_data p))) = m_expected_size (m_expected_data p)"
    by (simp add: parser_wf_def)
  moreover from this have "bytes_needed (p\<lparr>m_expected_data := expected_data 0\<rparr>) < bytes_needed p"
    using assms(2) by (simp add: bytes_needed_def expected_data_def split: parser_state_t.splits)
  moreover define q where "q = p\<lparr>m_expected_data :=
      m_expected_data p\<lparr>m_loaded_data := m_loaded_data (m_expected_data p) @ [b]\<rparr>\<rparr>"
  moreover have "m_current_state q \<noteq> Header_parsed" "q\<lparr>m_expected_data := d\<rparr> = p\<lparr>m_expected_data := d\<rparr>" for d
    using assms(2) by (simp_all add: q_def)
  ultimately show ?thesis
    using block_loaded_progress [of q] by (simp add: ws_process_byte_last)
qed

lemma parser_execute_total:
  assumes "parser_wf p"
  shows "\<exists>n q. parser_execute p data = Inr (n, q) \<and> parser_wf q \<and> n + bytes_needed q \<le> bytes_needed p \<and>
    n \<le> length data \<and> (n < length data \<longrightarrow> m_current_state q = Header_parsed)"
  using assms
proof (induction data arbitrary: p)
  case (Cons b data)
  show ?case
  proof (cases "m_current_state p = Header_parsed")
    case False
    with Cons.prems obtain p' where p': "ws_process_byte p b = Inr p'" "parser_wf p'" "bytes_needed p' < bytes_needed p"
      using ws_process_byte_progress by blast
    with Cons.IH [of p'] obtain n q where "parser_execute p' data = Inr (n, q)" "parser_wf q"
        "n + bytes_needed q \<le> bytes_needed p'" "n \<le> length data" "n < length data \<longrightarrow> m_current_state q = Header_parsed"
      by blast
    with p' False show ?thesis by simp
  qed (use Cons.prems in simp)
qed simp

lemma bytes_needed_0: "parser_wf p \<Longrightarrow> bytes_needed p = 0 \<Longrightarrow> m_current_state p = Header_parsed"
  by (auto simp: bytes_needed_def parser_wf_def split: parser_state_t.splits if_splits)

lemma ws_parser_wf: "parser_wf ws_parser" "bytes_needed ws_parser = 14"
  by (simp_all add: ws_parser_def parser_wf_def bytes_needed_def expected_data_def)

subsection \<open>Parsing what was written\<close>

definition details_wf :: "message_details_t \<Rightarrow> bool" where
  "details_wf m \<longleftrightarrow>
     unat (m_opcode m) < 16 \<and> unat (m_payload_len m) < 128 \<and>
     (m_payload_len m = 126 \<longrightarrow> unat (m_ext_payload_len m) < 65536) \<and>
     (unat (m_payload_len m) < 126 \<longrightarrow> m_ext_payload_len m = 0) \<and>
     (\<not> m_mask_flag m \<longrightarrow> m_masking_key m = 0)"

definition first_byte :: "message_details_t \<Rightarrow> u8" where
  "first_byte m =
     ((((if m_final_flag m then 0x80 else 0) OR (if m_rsv1_flag m then 0x40 else 0)) OR
       (if m_rsv2_flag m then 0x20 else 0)) OR (if m_rsv3_flag m then 0x10 else 0)) OR (m_opcode m AND 0x0F)"

definition second_byte :: "message_details_t \<Rightarrow> u8" where
  "second_byte m = (if m_mask_flag m then 0x80 else 0) OR m_payload_len m"

definition ext_len_bytes :: "message_details_t \<Rightarrow> raw_data_t" where
  "ext_len_bytes m =
     (if m_payload_len m = 126 then write_number_to_big_endian_bytes 2 (m_ext_payload_len m) []
      else if m_payload_len m = 127 then write_number_to_big_endian_bytes 8 (m_ext_payload_len m) []
      else [])"

lemma small_byte_cases: "unat (l :: u8) < 128 \<Longrightarrow> l < 126 \<or> l = 126 \<or> l = 127"
  by (auto simp: word_less_nat_alt word_unat_eq_iff)

lemma write_message_details_blocks:
  assumes "details_wf m"
  shows "write_message_details m =
    [first_byte m, second_byte m] @ ext_len_bytes m @ (if m_mask_flag m then masking_bytes (m_masking_key m) else [])"
proof -
  have "m_payload_len m < 126 \<or> m_payload_len m = 126 \<or> m_payload_len m = 127"
    using assms by (intro small_byte_cases) (simp add: details_wf_def)
  moreover have "m_payload_len m < 126 \<Longrightarrow> m_payload_len m \<noteq> 126 \<and> m_payload_len m \<noteq> 127" by auto
  ultimately show ?thesis
    unfolding write_message_details_def Let_def first_byte_def second_byte_def ext_len_bytes_def masking_bytes_def
    by (auto simp: write_number_append [of _ _ "[_, _]"])
qed

lemmas and_or_simps = bit.conj_disj_distrib2 and.assoc

lemma first_byte_fields:
  assumes "unat (m_opcode m) < 16"
  shows "first_byte m AND 0x80 \<noteq> 0 \<longleftrightarrow> m_final_flag m" "first_byte m AND 0x40 \<noteq> 0 \<longleftrightarrow> m_rsv1_flag m"
    "first_byte m AND 0x20 \<noteq> 0 \<longleftrightarrow> m_rsv2_flag m" "first_byte m AND 0x10 \<noteq> 0 \<longleftrightarrow> m_rsv3_flag m"
    "first_byte m AND 0xF = m_opcode m"
proof -
  have op: "m_opcode m AND 0xF = m_opcode m"
    using assms by (simp add: word_unat_eq_iff mask_simps)
  show "first_byte m AND 0x80 \<noteq> 0 \<longleftrightarrow> m_final_flag m" "first_byte m AND 0x40 \<noteq> 0 \<longleftrightarrow> m_rsv1_flag m"
    "first_byte m AND 0x20 \<noteq> 0 \<longleftrightarrow> m_rsv2_flag m" "first_byte m AND 0x10 \<noteq> 0 \<longleftrightarrow> m_rsv3_flag m"
    by (simp_all add: first_byte_def and_or_simps)
  show "first_byte m AND 0xF = m_opcode m"
    by (simp add: first_byte_def and_or_simps op)
qed

lemma second_byte_fields:
  assumes "unat (m_payload_len m) < 128"
  shows "second_byte m AND 0x80 \<noteq> 0 \<longleftrightarrow> m_mask_flag m" "second_byte m AND 0x7F = m_payload_len m"
proof -
  have "m_payload_len m AND 0x80 = 0" using assms by (simp add: mask_simps)
  moreover have "m_payload_len m AND 0x7F = m_payload_len m"
    using assms unat_and_mask [of "m_payload_len m" 7] by (simp add: word_unat_eq_iff mask_eq_exp_minus_1)
  ultimately show "second_byte m AND 0x80 \<noteq> 0 \<longleftrightarrow> m_mask_flag m" "second_byte m AND 0x7F = m_payload_len m"
    by (simp_all add: second_byte_def and_or_simps)
qed

text \<open>The parser after the first two bytes, and after the extended length.\<close>

definition header_done :: "message_details_t \<Rightarrow> message_details_t" where
  "header_done m = m\<lparr>m_ext_payload_len := 0, m_masking_key := 0\<rparr>"

lemma parse_first_2_bytes_written:
  assumes "details_wf m"
  shows "parse_first_2_bytes [first_byte m, second_byte m] message_details_default = header_done m"
  using first_byte_fields [of m] second_byte_fields [of m] assms
  by (simp add: details_wf_def parse_first_2_bytes_def message_details_default_def header_done_def)

lemma parser_execute_first_2_bytes:
  assumes "details_wf m"
  shows "parser_execute ws_parser [first_byte m, second_byte m] =
    Inr (2, if 125 < unat (m_payload_len m) then
              \<lparr>m_expected_data = expected_data (length (ext_len_bytes m)), m_current_msg = header_done m,
               m_current_state = Waiting_for_ext_len\<rparr>
            else if m_mask_flag m then
              \<lparr>m_expected_data = expected_data 4, m_current_msg = header_done m, m_current_state = Waiting_for_mask_key\<rparr>
            else \<lparr>m_expected_data = expected_data (unat (m_payload_len m)), m_current_msg = header_done m,
                  m_current_state = Header_parsed\<rparr>)"
proof -
  have "unat (m_payload_len m) = 126 \<longleftrightarrow> m_payload_len m = 126" by (simp add: word_unat_eq_iff)
  moreover have "125 < unat (m_payload_len m) \<Longrightarrow> m_payload_len m = 126 \<or> m_payload_len m = 127"
    using small_byte_cases [of "m_payload_len m"] assms by (auto simp: details_wf_def word_less_nat_alt)
  ultimately show ?thesis
    by (subst parser_execute_block)
      (auto simp: ws_parser_def block_loaded_def process_first_2_bytes_def Let_def
        parse_first_2_bytes_written [OF assms] header_done_def ext_len_bytes_def numeral_2_eq_2)
qed

lemma parser_execute_ext_len:
  assumes wf: "details_wf m" and "125 < unat (m_payload_len m)" and msg: "m_current_msg p = header_done m"
    and "m_expected_data p = expected_data (length (ext_len_bytes m))" "m_current_state p = Waiting_for_ext_len"
  shows "\<exists>q. parser_execute p (ext_len_bytes m) = Inr (length (ext_len_bytes m), q) \<and>
    m_current_msg q = m\<lparr>m_masking_key := 0\<rparr> \<and>
    (if m_mask_flag m then m_expected_data q = expected_data 4 \<and> m_current_state q = Waiting_for_mask_key
     else m_current_state q = Header_parsed)"
proof -
  have len: "m_payload_len m = 126 \<or> m_payload_len m = 127"
    using small_byte_cases [of "m_payload_len m"] assms by (auto simp: details_wf_def word_less_nat_alt)
  then have "ext_len_bytes m \<noteq> []" by (auto simp: ext_len_bytes_def write_number_to_big_endian_bytes_def)
  moreover have "read_number_from_big_endian_bytes (ext_len_bytes m) = m_ext_payload_len m"
    using len wf unsigned_less [of "m_ext_payload_len m", where 'a = nat]
    by (auto simp: ext_len_bytes_def details_wf_def intro!: read_write_number)
  then have "parse_ext_payload_len (m_payload_len m) (ext_len_bytes m) (header_done m) = m\<lparr>m_masking_key := 0\<rparr>"
    using len by (auto simp: parse_ext_payload_len_def header_done_def)
  moreover have "m_payload_len (header_done m) = m_payload_len m" by (simp add: header_done_def)
  ultimately show ?thesis
    using assms by (subst parser_execute_block) (auto simp: block_loaded_def process_extended_length_def Let_def)
qed

lemma parser_execute_mask:
  assumes "m_mask_flag m" "m_current_msg p = m\<lparr>m_masking_key := 0\<rparr>" "m_expected_data p = expected_data 4"
    "m_current_state p = Waiting_for_mask_key"
  shows "\<exists>q. parser_execute p (masking_bytes (m_masking_key m)) = Inr (4, q) \<and> m_current_state q = Header_parsed
    \<and> m_current_msg q = m"
proof -
  have "length (masking_bytes (m_masking_key m)) = 4" "masking_bytes (m_masking_key m) \<noteq> []"
    by (simp_all add: masking_bytes_def)
  then show ?thesis
    using assms by (subst parser_execute_block)
      (auto simp: block_loaded_def process_masking_key_def parse_masking_key_def read_masking_bytes)
qed

lemma parser_execute_written:
  assumes wf: "details_wf m"
  shows "\<exists>q. parser_execute ws_parser (write_message_details m) = Inr (length (write_message_details m), q) \<and>
    header_parsed q \<and> m_current_msg q = m"
proof -
  have no_ext: "ext_len_bytes m = []" "header_done m = m\<lparr>m_masking_key := 0\<rparr>" if "\<not> 125 < unat (m_payload_len m)"
    using that wf by (auto simp: ext_len_bytes_def details_wf_def header_done_def)
  have no_key: "m\<lparr>m_masking_key := 0\<rparr> = m" if "\<not> m_mask_flag m" using that wf by (simp add: details_wf_def)
  let ?mask = "if m_mask_flag m then masking_bytes (m_masking_key m) else []"
  have "\<exists>p. parser_execute ws_parser ([first_byte m, second_byte m] @ ext_len_bytes m) =
      Inr (2 + length (ext_len_bytes m), p) \<and> m_current_msg p = m\<lparr>m_masking_key := 0\<rparr> \<and>
      (if m_mask_flag m then m_expected_data p = expected_data 4 \<and> m_current_state p = Waiting_for_mask_key
       else m_current_state p = Header_parsed)"
  proof (cases "125 < unat (m_payload_len m)")
    case True
    from parser_execute_ext_len [OF wf this, of "\<lparr>m_expected_data = expected_data (length (ext_len_bytes m)),
        m_current_msg = header_done m, m_current_state = Waiting_for_ext_len\<rparr>"] True show ?thesis
      unfolding parser_execute_append parser_execute_first_2_bytes [OF wf] by auto
  next
    case False
    then show ?thesis
      unfolding parser_execute_append parser_execute_first_2_bytes [OF wf] using no_ext by simp
  qed
  then obtain p where p: "parser_execute ws_parser ([first_byte m, second_byte m] @ ext_len_bytes m) =
      Inr (2 + length (ext_len_bytes m), p)" "m_current_msg p = m\<lparr>m_masking_key := 0\<rparr>"
      "if m_mask_flag m then m_expected_data p = expected_data 4 \<and> m_current_state p = Waiting_for_mask_key
       else m_current_state p = Header_parsed" by blast
  have "length (masking_bytes (m_masking_key m)) = 4" by (simp add: masking_bytes_def)
  moreover have "\<exists>q. parser_execute p ?mask = Inr (length ?mask, q) \<and> m_current_state q = Header_parsed \<and> m_current_msg q = m"
    using p(2,3) no_key parser_execute_mask [of m p] calculation by (auto split: if_splits)
  ultimately show ?thesis
    unfolding write_message_details_blocks [OF wf] append_assoc [symmetric] parser_execute_append [of _ "_ @ _" ?mask]
    using p(1) by (auto simp: header_parsed_def)
qed

subsection \<open>Masking\<close>

lemma mask_inner_loop_masked:
  "mask_inner_loop ms payload = (map2 (XOR) (take (length ms) payload) ms, drop (length ms) payload)"
  by (induction ms payload rule: mask_inner_loop.induct) (auto split: prod.splits)

lemma mask_unmask_payload_unfold:
  "mask_unmask_payload key payload =
     (if payload = [] then []
      else map2 (XOR) (take 4 payload) (masking_bytes key) @ mask_unmask_payload key (drop 4 payload))"
proof -
  have "length (masking_bytes key) = 4" by (simp add: masking_bytes_def)
  then show ?thesis
    by (subst mask_unmask_payload.simps) (simp add: mask_inner_loop_masked)
qed

lemma mask_unmask_payload_induct [case_names Nil turn]:
  assumes "P []" and "\<And>payload. payload \<noteq> [] \<Longrightarrow> P (drop 4 payload) \<Longrightarrow> P payload"
  shows "P (payload :: raw_data_t)"
proof (induction "length payload" arbitrary: payload rule: less_induct)
  case less
  show ?case
  proof (cases "payload = []")
    case False
    then have "length (drop 4 payload) < length payload" by simp
    with False less show ?thesis by (auto intro: assms(2) [OF False])
  qed (use assms(1) in simp)
qed

lemma length_mask_unmask [simp]: "length (mask_unmask_payload key payload) = length payload"
proof (induction payload rule: mask_unmask_payload_induct)
  case (turn payload)
  then show ?case
    by (subst mask_unmask_payload_unfold) (simp add: masking_bytes_def)
qed (simp add: mask_unmask_payload.simps)

lemma nth_mask_unmask:
  "i < length payload \<Longrightarrow> mask_unmask_payload key payload ! i = payload ! i XOR masking_bytes key ! (i mod 4)"
proof (induction payload arbitrary: i rule: mask_unmask_payload_induct)
  case (turn payload)
  have len: "length (masking_bytes key) = 4" by (simp add: masking_bytes_def)
  show ?case
  proof (cases "i < 4")
    case True
    with turn.prems show ?thesis
      by (subst mask_unmask_payload_unfold) (auto simp: nth_append len)
  next
    case False
    then have "mask_unmask_payload key (drop 4 payload) ! (i - 4) =
        payload ! i XOR masking_bytes key ! ((i - 4) mod 4)"
      using turn.prems turn.IH [of "i - 4"] by simp
    moreover have "(i - 4) mod 4 = i mod 4" using False by (metis le_mod_geq not_less)
    ultimately show ?thesis
      using False turn.prems by (subst mask_unmask_payload_unfold) (auto simp: nth_append len)
  qed
qed simp

subsection \<open>Properties\<close>

text \<open>
  C24: frame header round trip. Feeding a reset parser with a serialised header, followed by any
  further bytes, consumes exactly the header, ends in the state \<open>Header_parsed\<close> and gives back
  every field of the message details, for all three length encodings, masked or not.
\<close>

theorem ws_header_roundtrip:
  assumes "details_wf m"
  shows "\<exists>q. parser_execute (ws_parser_reset p) (write_message_details m @ rest) =
      Inr (length (write_message_details m), q) \<and> header_parsed q \<and> m_current_msg q = m"
  using parser_execute_written [OF assms]
  by (auto simp: ws_parser_reset_eq parser_execute_append header_parsed_def)

theorem ws_header_roundtrip_witness:
  "\<exists>q. parser_execute (ws_parser_reset ws_parser)
      (write_message_details (make_masked_message_details True text_frame 70000 0x11223344) @ [1, 2, 3]) =
      Inr (14, q) \<and> header_parsed q \<and> details_payload_len (m_current_msg q) = 70000"
proof -
  let ?m = "make_masked_message_details True text_frame 70000 0x11223344"
  have "details_wf ?m" "length (write_message_details ?m) = 14" "details_payload_len ?m = 70000"
    by (simp_all add: details_wf_def details_payload_len_def make_masked_message_details_def init_payload_len_def
      message_details_default_def write_message_details_def)
  with ws_header_roundtrip [of ?m ws_parser "[1, 2, 3]"] show ?thesis by auto
qed

text \<open>
  The constructors of message details. A masked frame built for a payload of any 64-bit length
  reports exactly that length, and its details are in the form that survives serialisation,
  whichever of the three length encodings is chosen.
\<close>

theorem make_masked_message_details_ok:
  assumes "unat opcode < 16"
  shows "details_payload_len (make_masked_message_details final_flag opcode payload_len key) = payload_len \<and>
    details_wf (make_masked_message_details final_flag opcode payload_len key)"
proof (cases "125 < payload_len")
  case True
  then show ?thesis
    using assms by (simp add: make_masked_message_details_def init_payload_len_def details_payload_len_def
      details_wf_def message_details_default_def word_less_nat_alt)
next
  case False
  then have len: "unat payload_len \<le> 125" by (simp add: word_less_nat_alt)
  then have "unat (ucast payload_len :: u8) = unat payload_len"
    unfolding unsigned_ucast_eq by (intro take_bit_nat_eq_self) simp
  moreover from this have "(ucast (ucast payload_len :: u8) :: u64) = payload_len"
    by (simp add: word_unat_eq_iff)
  ultimately show ?thesis
    using assms False len by (simp add: make_masked_message_details_def init_payload_len_def details_payload_len_def
      details_wf_def message_details_default_def word_less_nat_alt word_unat_eq_iff)
qed

theorem make_masked_message_details_ok_witness:
  "details_payload_len (make_masked_message_details True binary_frame 65535 7) = 65535"
  using make_masked_message_details_ok [of binary_frame True 65535 7] by simp

text \<open>
  The parser is total and incremental. On any input a reset parser raises no error, consumes
  at most fourteen bytes, and stops before the end of the input only with a complete header; and
  splitting the input into two pieces gives the same parser and the same number of bytes.
\<close>

theorem parser_execute_incremental:
  "(\<exists>n q. parser_execute (ws_parser_reset p) (xs @ ys) = Inr (n, q) \<and> n \<le> 14 \<and>
      (n < length (xs @ ys) \<longrightarrow> header_parsed q)) \<and>
   parser_execute (ws_parser_reset p) (xs @ ys) =
     sum_bind (parser_execute (ws_parser_reset p) xs)
       (\<lambda>(n, q). sum_bind (parser_execute q ys) (\<lambda>(m, r). Inr (n + m, r)))"
  using parser_execute_total [OF ws_parser_wf(1), of "xs @ ys"]
  by (auto simp: ws_parser_reset_eq parser_execute_append ws_parser_wf(2) header_parsed_def)

theorem parser_execute_incremental_witness:
  "\<exists>n q. parser_execute (ws_parser_reset ws_parser) ([0x81] @ [0x02]) = Inr (n, q) \<and> n \<le> 14"
  using parser_execute_incremental [of ws_parser "[0x81]" "[0x02]"] by blast

text \<open>
  Masking. The nested loops XOR the byte at position \<open>i\<close> with the byte \<open>i mod 4\<close> of the key
  in network order, keep the length, and applying them twice gives the payload back.
\<close>

theorem mask_unmask_payload_ok:
  "length (mask_unmask_payload key payload) = length payload \<and>
   mask_unmask_payload key payload =
     map (\<lambda>i. payload ! i XOR masking_bytes key ! (i mod 4)) [0..<length payload] \<and>
   mask_unmask_payload key (mask_unmask_payload key payload) = payload"
  by (auto intro!: nth_equalityI simp: nth_mask_unmask xor.assoc)

text \<open>
  Close status codes. The two bytes written for a status code read back as that code.
\<close>

theorem status_code_roundtrip: "status_code_from_bin (status_code_to_bin code) = code"
proof -
  have "unat code div 256 * 256 + unat code mod 256 < 2 ^ LENGTH(16)"
    using unsigned_less [of code, where 'a = nat] by simp
  moreover have "unat code div 256 mod 256 = unat code div 256"
    using unsigned_less [of code, where 'a = nat] by simp
  ultimately have "unat (push_bit 8 (ucast (n_bits_from 8 8 code :: u8)) OR ucast (n_bits_from 0 8 code :: u8) :: u16)
      = unat code div 256 * 2 ^ 8 + unat code mod 256"
    by (intro append_bits) (simp_all add: unat_byte_from)
  then show ?thesis
    by (simp add: status_code_from_bin_def status_code_to_bin_def word_unat_eq_iff)
qed

end
