(* ===== verification/Ws_Validator.thy ===== *)
theory Ws_Validator
  imports Ws_Parser Utf8
begin

text \<open>
  The websocket protocol validator of \<^verbatim>\<open>restinio/websocket/impl/ws_protocol_validator.hpp\<close>.

  The object is the record \<open>ws_protocol_validator_t\<close>; a member function takes the object and
  gives its result and the new object, or the exception. The byte loop of
  \<^verbatim>\<open>process_and_unmask_next_payload_part\<close> rewrites the buffer in place up to the byte that stops it;
  \<^verbatim>\<open>process_next_payload_part\<close> runs the same loop and leaves the buffer alone. The counter of the
  unmasker is only used modulo 4, which divides \<open>2 ^ 64\<close>, so it is a natural number. The mask
  array of a default-constructed unmasker is indeterminate, here the empty list, and is
  always assigned by \<^verbatim>\<open>process_new_frame\<close> before it is read.

  Shown here: the header verdict is the conjunction of the protocol's conditions; a text message,
  fragmented in any way over frames and over buffer pieces, is accepted exactly when its unmasked
  payload is well-formed UTF-8; close codes; the exceptions are exactly the documented misuses;
  and two behaviours that depart from the protocol or from the documentation.
\<close>

subsection \<open>Definitions\<close>

datatype validation_state_t =
    Initial_state
  | Frame_header_is_valid | Payload_part_is_valid | Frame_is_valid
  | Invalid_opcode | Empty_mask_from_client_side | Non_final_control_frame | Non_zero_rsv_flags
  | Payload_len_is_too_big
  | Continuation_frame_without_data_frame | New_data_frame_without_finishing_previous
  | Invalid_close_code | Incorrect_utf8_data

fun validation_state_str :: "validation_state_t \<Rightarrow> string" where
  "validation_state_str Initial_state = ''initial_state''"
| "validation_state_str Frame_header_is_valid = ''frame_header_is_valid''"
| "validation_state_str Payload_part_is_valid = ''payload_part_is_valid''"
| "validation_state_str Frame_is_valid = ''frame_is_valid''"
| "validation_state_str Invalid_opcode = ''invalid_opcode''"
| "validation_state_str Empty_mask_from_client_side = ''empty_mask_from_client_side''"
| "validation_state_str Non_final_control_frame = ''non_final_control_frame''"
| "validation_state_str Non_zero_rsv_flags = ''non_zero_rsv_flags''"
| "validation_state_str Payload_len_is_too_big = ''payload_len_is_too_big''"
| "validation_state_str Continuation_frame_without_data_frame = ''continuation_frame_without_data_frame''"
| "validation_state_str New_data_frame_without_finishing_previous = ''new_data_frame_without_finishing_previous''"
| "validation_state_str Invalid_close_code = ''invalid_close_code''"
| "validation_state_str Incorrect_utf8_data = ''incorrect_utf8_data''"

definition is_control_frame :: "opcode_t \<Rightarrow> bool" where
  "is_control_frame opcode \<longleftrightarrow>
     opcode = connection_close_frame \<or> opcode = ping_frame \<or> opcode = pong_frame"

definition is_data_frame :: "opcode_t \<Rightarrow> bool" where
  "is_data_frame opcode \<longleftrightarrow> opcode = text_frame \<or> opcode = binary_frame"

record unmasker_t =
  m_mask :: "u8 list"
  m_processed_bytes_count :: nat

definition unmasker_default :: unmasker_t where
  "unmasker_default = \<lparr>m_mask = [], m_processed_bytes_count = 0\<rparr>"

definition unmask_byte :: "unmasker_t \<Rightarrow> u8 \<Rightarrow> u8 \<times> unmasker_t" where
  "unmask_byte u masked_byte =
     (masked_byte XOR m_mask u ! (m_processed_bytes_count u mod 4),
      u\<lparr>m_processed_bytes_count := m_processed_bytes_count u + 1\<rparr>)"

definition unmasker_reset :: "u32 \<Rightarrow> unmasker_t \<Rightarrow> unmasker_t" where
  "unmasker_reset masking_key u =
     u\<lparr>m_processed_bytes_count := 0,
       m_mask := [n_bits_from 24 8 masking_key, n_bits_from 16 8 masking_key,
                  n_bits_from 8 8 masking_key, n_bits_from 0 8 masking_key]\<rparr>"

datatype working_state_t = Empty_state | Processing_frame
datatype previous_data_frame_t = No_data_frame | Text_frame | Binary_frame

record ws_protocol_validator_t =
  m_validation_state :: validation_state_t
  m_working_state :: working_state_t
  m_previous_data_frame :: previous_data_frame_t
  m_current_frame :: message_details_t
  m_expected_close_code :: expected_data_t
  m_utf8_checker :: utf8_checker
  m_unmask_flag :: bool
  m_unmasker :: unmasker_t

definition ws_protocol_validator :: "bool \<Rightarrow> ws_protocol_validator_t" where
  "ws_protocol_validator do_unmask =
     \<lparr>m_validation_state = Initial_state, m_working_state = Empty_state,
      m_previous_data_frame = No_data_frame, m_current_frame = message_details_default,
      m_expected_close_code = expected_data 0, m_utf8_checker = utf8_checker_init,
      m_unmask_flag = do_unmask, m_unmasker = unmasker_default\<rparr>"

definition is_state_still_valid :: "ws_protocol_validator_t \<Rightarrow> bool" where
  "is_state_still_valid v \<longleftrightarrow>
     m_validation_state v = Initial_state \<or> m_validation_state v = Frame_header_is_valid \<or>
     m_validation_state v = Payload_part_is_valid \<or> m_validation_state v = Frame_is_valid"

definition set_validation_state :: "validation_state_t \<Rightarrow> ws_protocol_validator_t \<Rightarrow> ws_protocol_validator_t" where
  "set_validation_state state v = v\<lparr>m_validation_state := state\<rparr>"

definition validate_close_code :: "u16 \<Rightarrow> ws_protocol_validator_t \<Rightarrow> ws_protocol_validator_t" where
  "validate_close_code close_code v =
     (if close_code < 1000 \<or> (1011 < close_code \<and> close_code < 3000) \<or> 4999 < close_code
      then set_validation_state Invalid_close_code v
      else if close_code = 1004 \<or> close_code = 1005 \<or> close_code = 1006
      then set_validation_state Invalid_close_code v
      else v)"

definition check_previous_frame_type ::
    "opcode_t \<Rightarrow> ws_protocol_validator_t \<Rightarrow> bool \<times> ws_protocol_validator_t" where
  "check_previous_frame_type opcode v =
     (if m_previous_data_frame v = No_data_frame \<and> opcode = continuation_frame then
        (False, set_validation_state Continuation_frame_without_data_frame v)
      else if m_previous_data_frame v \<noteq> No_data_frame \<and> is_data_frame opcode then
        (False, set_validation_state New_data_frame_without_finishing_previous v)
      else (True, v))"

definition validate_frame_header ::
    "message_details_t \<Rightarrow> ws_protocol_validator_t \<Rightarrow> bool \<times> ws_protocol_validator_t" where
  "validate_frame_header frame v =
     (let v = set_validation_state Frame_header_is_valid v;
          v = (if \<not> is_valid_opcode (m_opcode frame) then set_validation_state Invalid_opcode v
               else if is_control_frame (m_opcode frame) \<and> \<not> m_final_flag frame then
                 set_validation_state Non_final_control_frame v
               else if \<not> m_mask_flag frame then set_validation_state Empty_mask_from_client_side v
               else if m_rsv1_flag frame \<or> m_rsv2_flag frame \<or> m_rsv3_flag frame then
                 set_validation_state Non_zero_rsv_flags v
               else if is_control_frame (m_opcode frame) \<and> 125 < details_payload_len frame then
                 set_validation_state Payload_len_is_too_big v
               else v)
      in (m_validation_state v = Frame_header_is_valid, v))"

definition process_new_frame ::
    "message_details_t \<Rightarrow> ws_protocol_validator_t \<Rightarrow> ws_error + validation_state_t \<times> ws_protocol_validator_t" where
  "process_new_frame frame v =
     (if m_working_state v \<noteq> Empty_state then Inl Another_frame_is_processing
      else
        let (ok, v) = validate_frame_header frame v;
            (ok, v) = (if ok then check_previous_frame_type (m_opcode frame) v else (False, v));
            v = (if ok then
                   (let v = (if m_opcode frame = text_frame then
                               (if \<not> m_final_flag frame then v\<lparr>m_previous_data_frame := Text_frame\<rparr> else v)
                             else if m_opcode frame = binary_frame then
                               (if \<not> m_final_flag frame then v\<lparr>m_previous_data_frame := Binary_frame\<rparr> else v)
                             else if m_opcode frame = connection_close_frame then
                               v\<lparr>m_expected_close_code := expected_data_reset 2 (m_expected_close_code v)\<rparr>
                             else v);
                        v = v\<lparr>m_current_frame := frame, m_working_state := Processing_frame\<rparr>
                    in if m_unmask_flag v
                       then v\<lparr>m_unmasker := unmasker_reset (m_masking_key frame) (m_unmasker v)\<rparr> else v)
                 else v)
        in Inr (m_validation_state v, v))"

definition check_payload_utf8 :: "u8 \<Rightarrow> ws_protocol_validator_t \<Rightarrow> ws_protocol_validator_t" where
  "check_payload_utf8 byte v =
     (let (ok, c) = process_byte (m_utf8_checker v) byte;
          v = v\<lparr>m_utf8_checker := c\<rparr>
      in if \<not> ok then set_validation_state Incorrect_utf8_data v else v)"

definition process_payload_byte ::
    "u8 \<Rightarrow> ws_protocol_validator_t \<Rightarrow> ws_error + u8 \<times> ws_protocol_validator_t" where
  "process_payload_byte byte v =
     (let (byte, v) = (if m_unmask_flag v then
                         (let (byte, u) = unmask_byte (m_unmasker v) byte in (byte, v\<lparr>m_unmasker := u\<rparr>))
                       else (byte, v))
      in if m_opcode (m_current_frame v) = text_frame \<or>
            (m_opcode (m_current_frame v) = continuation_frame \<and> m_previous_data_frame v = Text_frame) then
           Inr (byte, check_payload_utf8 byte v)
         else if m_opcode (m_current_frame v) = connection_close_frame then
           (if \<not> all_bytes_loaded (m_expected_close_code v) then
              (case add_byte_and_check_size (m_expected_close_code v) byte of
                 Inl e \<Rightarrow> Inl e
               | Inr (loaded, d) \<Rightarrow>
                   (let v = v\<lparr>m_expected_close_code := d\<rparr>
                    in Inr (byte, if loaded
                                  then validate_close_code (read_number_from_big_endian_bytes (m_loaded_data d)) v
                                  else v)))
            else Inr (byte, check_payload_utf8 byte v))
         else Inr (byte, v))"

fun process_payload_bytes ::
    "raw_data_t \<Rightarrow> ws_protocol_validator_t \<Rightarrow> ws_error + raw_data_t \<times> ws_protocol_validator_t" where
  "process_payload_bytes [] v = Inr ([], v)"
| "process_payload_bytes (byte # data) v =
     (case process_payload_byte byte v of
        Inl e \<Rightarrow> Inl e
      | Inr (byte, v) \<Rightarrow>
          (if m_validation_state v \<noteq> Payload_part_is_valid then Inr (byte # data, v)
           else case process_payload_bytes data v of
             Inl e \<Rightarrow> Inl e
           | Inr (data, v) \<Rightarrow> Inr (byte # data, v)))"

definition process_and_unmask_next_payload_part ::
    "raw_data_t \<Rightarrow> ws_protocol_validator_t \<Rightarrow>
       ws_error + validation_state_t \<times> raw_data_t \<times> ws_protocol_validator_t" where
  "process_and_unmask_next_payload_part data v =
     (if m_working_state v = Empty_state then Inl Current_state_is_empty
      else if is_state_still_valid v then
        (case process_payload_bytes data (set_validation_state Payload_part_is_valid v) of
           Inl e \<Rightarrow> Inl e
         | Inr (data, v) \<Rightarrow> Inr (m_validation_state v, data, v))
      else Inr (m_validation_state v, data, v))"

definition process_next_payload_part ::
    "raw_data_t \<Rightarrow> ws_protocol_validator_t \<Rightarrow> ws_error + validation_state_t \<times> ws_protocol_validator_t" where
  "process_next_payload_part data v =
     (if m_working_state v = Empty_state then Inl Current_state_is_empty
      else if is_state_still_valid v then
        (case process_payload_bytes data (set_validation_state Payload_part_is_valid v) of
           Inl e \<Rightarrow> Inl e
         | Inr (_, v) \<Rightarrow> Inr (m_validation_state v, v))
      else Inr (m_validation_state v, v))"

definition finish_frame :: "ws_protocol_validator_t \<Rightarrow> validation_state_t \<times> ws_protocol_validator_t" where
  "finish_frame v =
     (let v = (if is_state_still_valid v then set_validation_state Frame_is_valid v else v);
          v = (if m_final_flag (m_current_frame v) then
                 (let v = (if \<not> finalized (m_utf8_checker v) then set_validation_state Incorrect_utf8_data v else v)
                  in v\<lparr>m_utf8_checker := utf8_reset (m_utf8_checker v)\<rparr>)
               else v);
          v = v\<lparr>m_working_state := Empty_state\<rparr>;
          v = (if m_previous_data_frame v \<noteq> No_data_frame \<and> \<not> is_control_frame (m_opcode (m_current_frame v))
                  \<and> m_final_flag (m_current_frame v)
               then v\<lparr>m_previous_data_frame := No_data_frame\<rparr> else v);
          this_frame_validation_state = m_validation_state v
      in (this_frame_validation_state, v\<lparr>m_validation_state := Initial_state\<rparr>))"

definition validator_reset :: "ws_protocol_validator_t \<Rightarrow> ws_protocol_validator_t" where
  "validator_reset v =
     v\<lparr>m_validation_state := Initial_state, m_working_state := Empty_state,
       m_previous_data_frame := No_data_frame, m_utf8_checker := utf8_reset (m_utf8_checker v)\<rparr>"

subsection \<open>Specification: whole frames and whole messages\<close>

text \<open>The conditions the protocol puts on a header and on its place among the other frames.\<close>

definition header_ok :: "message_details_t \<Rightarrow> bool" where
  "header_ok frame \<longleftrightarrow>
     m_opcode frame \<in> {continuation_frame, text_frame, binary_frame, connection_close_frame, ping_frame, pong_frame} \<and>
     m_mask_flag frame \<and> \<not> m_rsv1_flag frame \<and> \<not> m_rsv2_flag frame \<and> \<not> m_rsv3_flag frame \<and>
     (m_opcode frame \<in> {connection_close_frame, ping_frame, pong_frame} \<longrightarrow>
        m_final_flag frame \<and> details_payload_len frame \<le> 125)"

definition order_ok :: "previous_data_frame_t \<Rightarrow> opcode_t \<Rightarrow> bool" where
  "order_ok prev opcode \<longleftrightarrow>
     (if prev = No_data_frame then opcode \<noteq> continuation_frame else opcode \<noteq> text_frame \<and> opcode \<noteq> binary_frame)"

text \<open>
  The use of the validator on one frame: its header, its payload in pieces as they arrive, the end
  of the frame. The result is the verdict and the unmasked payload. On a message, the
  frames are processed until one is refused.
\<close>

fun process_parts :: "raw_data_t list \<Rightarrow> ws_protocol_validator_t \<Rightarrow> ws_error + raw_data_t \<times> ws_protocol_validator_t" where
  "process_parts [] v = Inr ([], v)"
| "process_parts (data # parts) v =
     sum_bind (process_and_unmask_next_payload_part data v) (\<lambda>(_, data, v).
     sum_bind (process_parts parts v) (\<lambda>(rest, v). Inr (data @ rest, v)))"

type_synonym frame_input = "message_details_t \<times> raw_data_t list"

definition process_frame ::
    "frame_input \<Rightarrow> ws_protocol_validator_t \<Rightarrow> ws_error + validation_state_t \<times> raw_data_t \<times> ws_protocol_validator_t" where
  "process_frame f v =
     sum_bind (process_new_frame (fst f) v) (\<lambda>(st, v).
       if st \<noteq> Frame_header_is_valid then Inr (st, [], v)
       else sum_bind (process_parts (snd f) v) (\<lambda>(data, v).
         let (st, v) = finish_frame v in Inr (st, data, v)))"

fun process_message ::
    "frame_input list \<Rightarrow> ws_protocol_validator_t \<Rightarrow> ws_error + validation_state_t \<times> raw_data_t \<times> ws_protocol_validator_t" where
  "process_message [] v = Inr (Frame_is_valid, [], v)"
| "process_message (f # fs) v =
     sum_bind (process_frame f v) (\<lambda>(st, data, v).
       if st \<noteq> Frame_is_valid then Inr (st, data, v)
       else sum_bind (process_message fs v) (\<lambda>(st, rest, v). Inr (st, data @ rest, v)))"

text \<open>The frames of one fragmented message whose first frame has the given opcode.\<close>

fun fragments :: "opcode_t \<Rightarrow> frame_input list \<Rightarrow> bool" where
  "fragments opcode [] = False"
| "fragments opcode [f] \<longleftrightarrow> header_ok (fst f) \<and> m_opcode (fst f) = opcode \<and> m_final_flag (fst f)"
| "fragments opcode (f # g # fs) \<longleftrightarrow>
     header_ok (fst f) \<and> m_opcode (fst f) = opcode \<and> \<not> m_final_flag (fst f) \<and> fragments continuation_frame (g # fs)"

definition frame_payload :: "bool \<Rightarrow> frame_input \<Rightarrow> raw_data_t" where
  "frame_payload do_unmask f =
     (if do_unmask then mask_unmask_payload (m_masking_key (fst f)) (concat (snd f)) else concat (snd f))"

definition idle :: "ws_protocol_validator_t \<Rightarrow> bool" where
  "idle v \<longleftrightarrow> m_working_state v = Empty_state"

text \<open>Between two messages: no unfinished message and no unfinished or refused symbol.\<close>

definition between_messages :: "ws_protocol_validator_t \<Rightarrow> bool" where
  "between_messages v \<longleftrightarrow>
     idle v \<and> m_previous_data_frame v = No_data_frame \<and> (\<exists>s. m_utf8_checker v = ready s)"

subsection \<open>Payload of text frames\<close>

fun unmask_from :: "u8 list \<Rightarrow> nat \<Rightarrow> raw_data_t \<Rightarrow> raw_data_t" where
  "unmask_from ms k [] = []"
| "unmask_from ms k (b # bs) = (b XOR ms ! (k mod 4)) # unmask_from ms (Suc k) bs"

lemma length_unmask_from [simp]: "length (unmask_from ms k bs) = length bs"
  by (induction ms k bs rule: unmask_from.induct) simp_all

lemma nth_unmask_from: "i < length bs \<Longrightarrow> unmask_from ms k bs ! i = bs ! i XOR ms ! ((k + i) mod 4)"
  by (induction ms k bs arbitrary: i rule: unmask_from.induct) (auto simp: nth_Cons split: nat.splits)

lemma unmask_from_append: "unmask_from ms k (xs @ ys) = unmask_from ms k xs @ unmask_from ms (k + length xs) ys"
  by (induction ms k xs rule: unmask_from.induct) simp_all

text \<open>The byte-wise unmasker agrees with the block-wise loop of the codec.\<close>

lemma unmask_from_mask_unmask: "unmask_from (masking_bytes key) 0 bs = mask_unmask_payload key bs"
  by (rule nth_equalityI) (auto simp: nth_unmask_from nth_mask_unmask)

definition view :: "ws_protocol_validator_t \<Rightarrow> raw_data_t \<Rightarrow> raw_data_t" where
  "view v data =
     (if m_unmask_flag v
      then unmask_from (m_mask (m_unmasker v)) (m_processed_bytes_count (m_unmasker v)) data else data)"

definition advance :: "nat \<Rightarrow> ws_protocol_validator_t \<Rightarrow> ws_protocol_validator_t" where
  "advance n v =
     (if m_unmask_flag v
      then v\<lparr>m_unmasker := m_unmasker v\<lparr>m_processed_bytes_count := m_processed_bytes_count (m_unmasker v) + n\<rparr>\<rparr>
      else v)"

definition text_mode :: "ws_protocol_validator_t \<Rightarrow> bool" where
  "text_mode v \<longleftrightarrow>
     m_opcode (m_current_frame v) = text_frame \<or>
     (m_opcode (m_current_frame v) = continuation_frame \<and> m_previous_data_frame v = Text_frame)"

text \<open>The bytes that go to the UTF-8 checker: text, and the reason of a close frame.\<close>

definition utf8_mode :: "ws_protocol_validator_t \<Rightarrow> bool" where
  "utf8_mode v \<longleftrightarrow>
     text_mode v \<or> (m_opcode (m_current_frame v) = connection_close_frame \<and> all_bytes_loaded (m_expected_close_code v))"

lemma view_Cons: "view v (b # bs) = hd (view v [b]) # view (advance 1 v) bs"
  by (simp add: view_def advance_def)

lemma view_append: "view v (xs @ ys) = view v xs @ view (advance (length xs) v) ys"
  by (simp add: view_def advance_def unmask_from_append)

lemma advance_advance [simp]: "advance m (advance n v) = advance (n + m) v"
  by (simp add: advance_def add.assoc)

lemma advance_0 [simp]: "advance 0 v = v"
  by (simp add: advance_def)

lemma advance_fields [simp]:
  "m_validation_state (advance n v) = m_validation_state v" "m_working_state (advance n v) = m_working_state v"
  "m_previous_data_frame (advance n v) = m_previous_data_frame v" "m_current_frame (advance n v) = m_current_frame v"
  "m_expected_close_code (advance n v) = m_expected_close_code v"
  "m_utf8_checker (advance n v) = m_utf8_checker v" "m_unmask_flag (advance n v) = m_unmask_flag v"
  by (simp_all add: advance_def)

lemma advance_update [simp]:
  "advance n (v\<lparr>m_utf8_checker := c\<rparr>) = (advance n v)\<lparr>m_utf8_checker := c\<rparr>"
  "advance n (v\<lparr>m_validation_state := st\<rparr>) = (advance n v)\<lparr>m_validation_state := st\<rparr>"
  by (simp_all add: advance_def)

lemma view_update [simp]:
  "view (v\<lparr>m_utf8_checker := c\<rparr>) = view v" "view (v\<lparr>m_validation_state := st\<rparr>) = view v"
  by (simp_all add: view_def fun_eq_iff)

lemma text_mode_update [simp]:
  "text_mode (v\<lparr>m_utf8_checker := c\<rparr>) = text_mode v" "text_mode (v\<lparr>m_validation_state := st\<rparr>) = text_mode v"
  "text_mode (advance n v) = text_mode v"
  by (simp_all add: text_mode_def)

lemma utf8_mode_update [simp]:
  "utf8_mode (v\<lparr>m_utf8_checker := c\<rparr>) = utf8_mode v" "utf8_mode (v\<lparr>m_validation_state := st\<rparr>) = utf8_mode v"
  "utf8_mode (advance n v) = utf8_mode v"
  by (simp_all add: utf8_mode_def)

lemma utf8_byte:
  assumes "utf8_mode v"
  shows "process_payload_byte b v = Inr (hd (view v [b]), check_payload_utf8 (hd (view v [b])) (advance 1 v))"
  using assms unfolding utf8_mode_def text_mode_def process_payload_byte_def
  by (auto simp: Let_def view_def advance_def unmask_byte_def)

lemma utf8_bytes:
  assumes "utf8_mode v" "m_validation_state v = Payload_part_is_valid"
  shows "case utf8_feed (m_utf8_checker v) (view v data) of
      Some c \<Rightarrow> process_payload_bytes data v = Inr (view v data, (advance (length data) v)\<lparr>m_utf8_checker := c\<rparr>)
    | None \<Rightarrow> \<exists>out w. process_payload_bytes data v = Inr (out, w) \<and> m_validation_state w = Incorrect_utf8_data \<and>
        m_working_state w = m_working_state v"
  using assms
proof (induction data arbitrary: v)
  case Nil
  then show ?case by (simp add: view_def)
next
  case (Cons b data)
  obtain ok c where pb: "process_byte (m_utf8_checker v) (hd (view v [b])) = (ok, c)" by force
  show ?case
  proof (cases ok)
    case True
    with Cons.prems pb Cons.IH [of "(advance 1 v)\<lparr>m_utf8_checker := c\<rparr>"] show ?thesis
      by (auto simp: view_Cons [of v b data] utf8_byte check_payload_utf8_def split: option.splits)
  next
    case False
    with Cons.prems pb show ?thesis
      by (simp add: view_Cons [of v b data] utf8_byte check_payload_utf8_def set_validation_state_def)
  qed
qed

lemma invalid_parts:
  assumes "m_working_state v \<noteq> Empty_state" "\<not> is_state_still_valid v"
  shows "process_parts parts v = Inr (concat parts, v)"
  using assms by (induction parts) (simp_all add: process_and_unmask_next_payload_part_def)

lemma utf8_part:
  assumes "utf8_mode v" "m_working_state v = Processing_frame" "is_state_still_valid v"
  shows "case utf8_feed (m_utf8_checker v) (view v data) of
      Some c \<Rightarrow> process_and_unmask_next_payload_part data v =
        Inr (Payload_part_is_valid, view v data,
          (advance (length data) v)\<lparr>m_utf8_checker := c, m_validation_state := Payload_part_is_valid\<rparr>)
    | None \<Rightarrow> \<exists>out w. process_and_unmask_next_payload_part data v = Inr (Incorrect_utf8_data, out, w) \<and>
        m_validation_state w = Incorrect_utf8_data \<and> m_working_state w = Processing_frame"
  using utf8_bytes [of "v\<lparr>m_validation_state := Payload_part_is_valid\<rparr>" data] assms
  by (auto simp: process_and_unmask_next_payload_part_def set_validation_state_def split: option.splits)

lemma utf8_parts:
  assumes "utf8_mode v" "m_working_state v = Processing_frame" "is_state_still_valid v"
  shows "case utf8_feed (m_utf8_checker v) (view v (concat parts)) of
      Some c \<Rightarrow> \<exists>st. process_parts parts v =
        Inr (view v (concat parts), (advance (length (concat parts)) v)\<lparr>m_utf8_checker := c, m_validation_state := st\<rparr>) \<and>
        is_state_still_valid (v\<lparr>m_validation_state := st\<rparr>)
    | None \<Rightarrow> \<exists>out w. process_parts parts v = Inr (out, w) \<and>
        m_validation_state w = Incorrect_utf8_data \<and> m_working_state w = Processing_frame"
  using assms
proof (induction parts arbitrary: v)
  case Nil
  then show ?case by (auto simp: view_def intro!: exI [of _ "m_validation_state v"])
next
  case (Cons data parts)
  show ?case
  proof (cases "utf8_feed (m_utf8_checker v) (view v data)")
    case None
    with utf8_part [OF Cons.prems, of data] obtain out w where
      "process_and_unmask_next_payload_part data v = Inr (Incorrect_utf8_data, out, w)"
      and w: "m_validation_state w = Incorrect_utf8_data" "m_working_state w = Processing_frame" by auto
    moreover have "process_parts parts w = Inr (concat parts, w)"
      using w by (intro invalid_parts) (simp_all add: is_state_still_valid_def)
    ultimately show ?thesis using None by (simp add: view_append utf8_feed_append)
  next
    case (Some c)
    let ?w = "(advance (length data) v)\<lparr>m_utf8_checker := c, m_validation_state := Payload_part_is_valid\<rparr>"
    from Some utf8_part [OF Cons.prems, of data]
    have "process_and_unmask_next_payload_part data v = Inr (Payload_part_is_valid, view v data, ?w)" by simp
    with Some Cons.prems Cons.IH [of ?w] show ?thesis
      by (auto simp: view_append utf8_feed_append is_state_still_valid_def split: option.splits)
  qed
qed

lemma is_valid_opcode_iff:
  "is_valid_opcode opcode \<longleftrightarrow>
     opcode \<in> {continuation_frame, text_frame, binary_frame, connection_close_frame, ping_frame, pong_frame}"
  by (simp add: is_valid_opcode_def)

lemma control_opcodes: "is_control_frame opcode \<longleftrightarrow> opcode \<in> {connection_close_frame, ping_frame, pong_frame}"
  by (simp add: is_control_frame_def)

lemma validate_frame_header_iff:
  "fst (validate_frame_header frame v) \<longleftrightarrow> header_ok frame"
  "header_ok frame \<Longrightarrow> snd (validate_frame_header frame v) = v\<lparr>m_validation_state := Frame_header_is_valid\<rparr>"
  "\<exists>st. snd (validate_frame_header frame v) = v\<lparr>m_validation_state := st\<rparr>"
  unfolding validate_frame_header_def header_ok_def is_valid_opcode_iff [symmetric] control_opcodes [symmetric]
    Let_def set_validation_state_def
  by auto

lemma check_previous_frame_type_iff:
  "fst (check_previous_frame_type opcode v) \<longleftrightarrow> order_ok (m_previous_data_frame v) opcode"
  "order_ok (m_previous_data_frame v) opcode \<Longrightarrow> snd (check_previous_frame_type opcode v) = v"
  "\<not> order_ok (m_previous_data_frame v) opcode \<Longrightarrow>
     m_validation_state (snd (check_previous_frame_type opcode v)) \<noteq> Frame_header_is_valid"
  unfolding check_previous_frame_type_def order_ok_def is_data_frame_def set_validation_state_def
  by (cases "m_previous_data_frame v"; auto; fail)+

lemma check_previous_frame_type_state:
  "\<exists>st. snd (check_previous_frame_type opcode v) = v\<lparr>m_validation_state := st\<rparr>"
  by (rule exI [of _ "m_validation_state (snd (check_previous_frame_type opcode v))"])
    (simp add: check_previous_frame_type_def set_validation_state_def)

text \<open>The object after an accepted header.\<close>

definition frame_started :: "message_details_t \<Rightarrow> ws_protocol_validator_t \<Rightarrow> ws_protocol_validator_t" where
  "frame_started frame v =
     v\<lparr>m_validation_state := Frame_header_is_valid, m_working_state := Processing_frame, m_current_frame := frame,
       m_previous_data_frame :=
         (if m_final_flag frame then m_previous_data_frame v
          else if m_opcode frame = text_frame then Text_frame
          else if m_opcode frame = binary_frame then Binary_frame else m_previous_data_frame v),
       m_expected_close_code :=
         (if m_opcode frame = connection_close_frame then expected_data 2 else m_expected_close_code v),
       m_unmasker :=
         (if m_unmask_flag v then \<lparr>m_mask = masking_bytes (m_masking_key frame), m_processed_bytes_count = 0\<rparr>
          else m_unmasker v)\<rparr>"

lemma unmasker_reset_eq: "unmasker_reset key u = \<lparr>m_mask = masking_bytes key, m_processed_bytes_count = 0\<rparr>"
  by (simp add: unmasker_reset_def masking_bytes_def)

lemma process_new_frame_accepts:
  assumes "idle v" "header_ok frame" "order_ok (m_previous_data_frame v) (m_opcode frame)"
  shows "process_new_frame frame v = Inr (Frame_header_is_valid, frame_started frame v)"
proof -
  obtain a where a: "validate_frame_header frame v = (True, v\<lparr>m_validation_state := Frame_header_is_valid\<rparr>)"
    using validate_frame_header_iff(1,2) [of frame v] assms(2) by (metis prod.collapse)
  have b: "check_previous_frame_type (m_opcode frame) (v\<lparr>m_validation_state := Frame_header_is_valid\<rparr>) =
      (True, v\<lparr>m_validation_state := Frame_header_is_valid\<rparr>)"
    using check_previous_frame_type_iff(1,2) [where v = "v\<lparr>m_validation_state := Frame_header_is_valid\<rparr>" and opcode = "m_opcode frame"] assms(3)
    by (simp add: prod_eq_iff)
  show ?thesis
    using assms(1) by (simp add: process_new_frame_def a b idle_def frame_started_def unmasker_reset_eq)
qed

lemma process_new_frame_refuses:
  assumes "idle v" "\<not> (header_ok frame \<and> order_ok (m_previous_data_frame v) (m_opcode frame))"
  shows "\<exists>st. process_new_frame frame v = Inr (st, v\<lparr>m_validation_state := st\<rparr>) \<and> st \<noteq> Frame_header_is_valid"
proof (cases "header_ok frame")
  case False
  obtain st where st: "snd (validate_frame_header frame v) = v\<lparr>m_validation_state := st\<rparr>"
    using validate_frame_header_iff(3) by blast
  have "fst (validate_frame_header frame v) = (m_validation_state (snd (validate_frame_header frame v)) = Frame_header_is_valid)"
    by (simp add: validate_frame_header_def Let_def)
  with st False have "validate_frame_header frame v = (False, v\<lparr>m_validation_state := st\<rparr>)" "st \<noteq> Frame_header_is_valid"
    by (simp_all add: prod_eq_iff validate_frame_header_iff(1))
  then show ?thesis using assms(1) by (simp add: process_new_frame_def idle_def)
next
  case True
  let ?v = "v\<lparr>m_validation_state := Frame_header_is_valid\<rparr>"
  have a: "validate_frame_header frame v = (True, ?v)"
    using validate_frame_header_iff(1,2) [of frame v] True by (simp add: prod_eq_iff)
  have ord: "\<not> order_ok (m_previous_data_frame ?v) (m_opcode frame)" using assms(2) True by simp
  obtain st where st: "snd (check_previous_frame_type (m_opcode frame) ?v) = ?v\<lparr>m_validation_state := st\<rparr>"
    using check_previous_frame_type_state by blast
  have "check_previous_frame_type (m_opcode frame) ?v = (False, v\<lparr>m_validation_state := st\<rparr>)" "st \<noteq> Frame_header_is_valid"
    using check_previous_frame_type_iff(1,3) [where v = ?v and opcode = "m_opcode frame"] ord st by (simp_all add: prod_eq_iff)
  then show ?thesis using assms(1) by (simp add: process_new_frame_def a idle_def)
qed

lemma finish_frame_text:
  assumes "is_state_still_valid v" "text_mode v" "m_previous_data_frame v \<noteq> Binary_frame"
    "m_previous_data_frame v = No_data_frame \<Longrightarrow> m_final_flag (m_current_frame v)"
  shows "\<exists>w. finish_frame v =
      (if m_final_flag (m_current_frame v) \<and> \<not> finalized (m_utf8_checker v) then Incorrect_utf8_data
       else Frame_is_valid, w) \<and> idle w \<and> m_unmask_flag w = m_unmask_flag v \<and>
      m_utf8_checker w = (if m_final_flag (m_current_frame v) then utf8_reset (m_utf8_checker v) else m_utf8_checker v) \<and>
      m_previous_data_frame w = (if m_final_flag (m_current_frame v) then No_data_frame else Text_frame)"
proof -
  have "\<not> is_control_frame (m_opcode (m_current_frame v))"
    using assms(2) by (auto simp: text_mode_def is_control_frame_def)
  then show ?thesis
    using assms by (cases "m_previous_data_frame v")
      (auto simp: finish_frame_def Let_def set_validation_state_def idle_def)
qed

lemma finish_frame_final:
  "m_final_flag (m_current_frame v) \<Longrightarrow>
   fst (finish_frame v) =
     (if \<not> finalized (m_utf8_checker v) then Incorrect_utf8_data
      else if is_state_still_valid v then Frame_is_valid else m_validation_state v)"
  by (simp add: finish_frame_def Let_def set_validation_state_def)

lemma finish_frame_refused:
  "m_validation_state v = Incorrect_utf8_data \<Longrightarrow> fst (finish_frame v) = Incorrect_utf8_data"
  by (simp add: finish_frame_def Let_def set_validation_state_def is_state_still_valid_def)

text \<open>One frame of a text message.\<close>

lemma process_frame_text:
  assumes "idle v" "header_ok (fst f)" "prev = m_previous_data_frame v"
    and "(m_opcode (fst f) = text_frame \<and> prev = No_data_frame) \<or>
      (m_opcode (fst f) = continuation_frame \<and> prev = Text_frame)"
  defines "data \<equiv> frame_payload (m_unmask_flag v) f"
  shows "case utf8_feed (m_utf8_checker v) data of
      Some c \<Rightarrow> \<exists>w. process_frame f v =
          Inr (if m_final_flag (fst f) \<and> \<not> finalized c then Incorrect_utf8_data else Frame_is_valid, data, w) \<and>
          idle w \<and> m_unmask_flag w = m_unmask_flag v \<and>
          m_utf8_checker w = (if m_final_flag (fst f) then utf8_reset c else c) \<and>
          m_previous_data_frame w = (if m_final_flag (fst f) then No_data_frame else Text_frame)
    | None \<Rightarrow> \<exists>out w. process_frame f v = Inr (Incorrect_utf8_data, out, w)"
proof -
  let ?w = "frame_started (fst f) v"
  have "order_ok (m_previous_data_frame v) (m_opcode (fst f))"
    using assms(3,4) by (auto simp: order_ok_def)
  with assms have start: "process_new_frame (fst f) v = Inr (Frame_header_is_valid, ?w)"
    by (intro process_new_frame_accepts) auto
  have w: "text_mode ?w" "utf8_mode ?w" "m_working_state ?w = Processing_frame" "is_state_still_valid ?w"
    "m_current_frame ?w = fst f" "m_utf8_checker ?w = m_utf8_checker v" "m_unmask_flag ?w = m_unmask_flag v"
    "m_previous_data_frame ?w \<noteq> Binary_frame"
    "m_previous_data_frame ?w = No_data_frame \<Longrightarrow> m_final_flag (fst f)"
    using assms(3,4) by (auto simp: utf8_mode_def text_mode_def frame_started_def is_state_still_valid_def split: if_splits)
  have "view ?w (concat (snd f)) = data"
    by (simp add: view_def frame_started_def data_def frame_payload_def unmask_from_mask_unmask)
  note parts = utf8_parts [OF w(2-4), of "snd f", unfolded this w(6)]
  show ?thesis
  proof (cases "utf8_feed (m_utf8_checker v) data")
    case None
    with parts obtain out u where "process_parts (snd f) ?w = Inr (out, u)" "m_validation_state u = Incorrect_utf8_data"
      by auto
    with None start finish_frame_refused [of u] show ?thesis
      by (cases "finish_frame u") (simp add: process_frame_def)
  next
    case (Some c)
    with parts obtain st where st: "is_state_still_valid (?w\<lparr>m_validation_state := st\<rparr>)" "process_parts (snd f) ?w =
        Inr (data, (advance (length (concat (snd f))) ?w)\<lparr>m_utf8_checker := c, m_validation_state := st\<rparr>)" by auto
    define u where "u = (advance (length (concat (snd f))) ?w)\<lparr>m_utf8_checker := c, m_validation_state := st\<rparr>"
    have "is_state_still_valid u" "text_mode u" "m_previous_data_frame u \<noteq> Binary_frame"
      "m_previous_data_frame u = No_data_frame \<Longrightarrow> m_final_flag (m_current_frame u)"
      and u: "m_current_frame u = fst f" "m_utf8_checker u = c" "m_unmask_flag u = m_unmask_flag v"
      using st(1) w by (simp_all add: u_def is_state_still_valid_def)
    from finish_frame_text [OF this(1-4), unfolded u] obtain x where x: "finish_frame u =
        (if m_final_flag (fst f) \<and> \<not> finalized c then Incorrect_utf8_data else Frame_is_valid, x)"
        "idle x" "m_unmask_flag x = m_unmask_flag v" "m_utf8_checker x = (if m_final_flag (fst f) then utf8_reset c else c)"
        "m_previous_data_frame x = (if m_final_flag (fst f) then No_data_frame else Text_frame)" by blast
    have "process_frame f v =
        Inr (if m_final_flag (fst f) \<and> \<not> finalized c then Incorrect_utf8_data else Frame_is_valid, data, x)"
      by (simp add: process_frame_def start st(2) u_def [symmetric] x(1))
    with Some x show ?thesis by simp
  qed
qed

text \<open>A fragmented text message, from its first frame or from the middle.\<close>

lemma process_message_text:
  assumes "fragments opcode fs" "idle v" "checker_ok (m_utf8_checker v)"
    and "(opcode = text_frame \<and> m_previous_data_frame v = No_data_frame) \<or>
      (opcode = continuation_frame \<and> m_previous_data_frame v = Text_frame)"
  defines "data \<equiv> concat (map (frame_payload (m_unmask_flag v)) fs)"
  shows "if check_utf8_loop (m_utf8_checker v) data
    then \<exists>w. process_message fs v = Inr (Frame_is_valid, data, w) \<and> between_messages w \<and>
        m_unmask_flag w = m_unmask_flag v
    else \<exists>out w. process_message fs v = Inr (Incorrect_utf8_data, out, w)"
  using assms(1-4) unfolding data_def
proof (induction opcode fs arbitrary: v rule: fragments.induct)
  case (2 opcode f)
  have "(m_opcode (fst f) = text_frame \<and> m_previous_data_frame v = No_data_frame) \<or>
      (m_opcode (fst f) = continuation_frame \<and> m_previous_data_frame v = Text_frame)" using 2 by simp
  note frame = process_frame_text [OF \<open>idle v\<close> _ refl this]
  show ?case
  proof (cases "utf8_feed (m_utf8_checker v) (frame_payload (m_unmask_flag v) f)")
    case None
    with frame "2.prems"(1) show ?thesis by (auto simp: check_utf8_loop_feed)
  next
    case (Some c)
    then have reset: "finalized c \<Longrightarrow> utf8_reset c = ready 0"
      using finalized_checker_ok utf8_feed_checker_ok "2.prems"(3) by blast
    from Some frame "2.prems"(1) obtain w where
      "process_frame f v = Inr (if \<not> finalized c then Incorrect_utf8_data else Frame_is_valid,
         frame_payload (m_unmask_flag v) f, w)"
      "idle w" "m_unmask_flag w = m_unmask_flag v" "m_utf8_checker w = utf8_reset c"
      "m_previous_data_frame w = No_data_frame" by auto
    with Some reset show ?thesis by (cases "finalized c") (auto simp: check_utf8_loop_feed between_messages_def)
  qed
next
  case (3 opcode f g fs)
  have "(m_opcode (fst f) = text_frame \<and> m_previous_data_frame v = No_data_frame) \<or>
      (m_opcode (fst f) = continuation_frame \<and> m_previous_data_frame v = Text_frame)" using 3 by simp
  note frame = process_frame_text [OF \<open>idle v\<close> _ refl this]
  show ?case
  proof (cases "utf8_feed (m_utf8_checker v) (frame_payload (m_unmask_flag v) f)")
    case None
    with frame "3.prems"(1) show ?thesis by (auto simp: check_utf8_loop_feed utf8_feed_append)
  next
    case (Some c)
    note ok = utf8_feed_checker_ok [OF Some "3.prems"(3)]
    from Some frame "3.prems"(1) obtain w where w: "process_frame f v = Inr (Frame_is_valid, frame_payload (m_unmask_flag v) f, w)"
        "idle w" "m_unmask_flag w = m_unmask_flag v" "m_utf8_checker w = c" "m_previous_data_frame w = Text_frame"
      by auto
    have "fragments continuation_frame (g # fs)" using "3.prems"(1) by simp
    from "3.IH" [OF this w(2)] ok w(4,5) have "if check_utf8_loop c (concat (map (frame_payload (m_unmask_flag v)) (g # fs)))
      then \<exists>u. process_message (g # fs) w = Inr (Frame_is_valid, concat (map (frame_payload (m_unmask_flag v)) (g # fs)), u)
        \<and> between_messages u \<and> m_unmask_flag u = m_unmask_flag v
      else \<exists>out u. process_message (g # fs) w = Inr (Incorrect_utf8_data, out, u)"
      by (simp only: w(3,4) simp_thms)
    moreover have "check_utf8_loop (m_utf8_checker v) (concat (map (frame_payload (m_unmask_flag v)) (f # g # fs))) =
        check_utf8_loop c (concat (map (frame_payload (m_unmask_flag v)) (g # fs)))"
      unfolding check_utf8_loop_feed list.map(2) [of _ f] concat.simps(2) [of "frame_payload _ f"] utf8_feed_append
      by (simp only: Some option.case)
    moreover have "process_message (f # g # fs) v = sum_bind (process_message (g # fs) w)
        (\<lambda>(st, rest, v'). Inr (st, frame_payload (m_unmask_flag v) f @ rest, v'))"
      by (simp add: w(1) del: process_message.simps(2) add: process_message.simps(2) [of f])
    ultimately show ?thesis
      by (cases "check_utf8_loop c (concat (map (frame_payload (m_unmask_flag v)) (g # fs)))") auto
  qed
qed simp

subsection \<open>Close frames\<close>

definition close_code_ok :: "u16 \<Rightarrow> bool" where
  "close_code_ok code \<longleftrightarrow>
     (1000 \<le> unat code \<and> unat code \<le> 1003) \<or> (1007 \<le> unat code \<and> unat code \<le> 1011) \<or>
     (3000 \<le> unat code \<and> unat code \<le> 4999)"

lemma close_codes:
  fixes n :: nat
  shows "n < 1000 \<or> (1011 < n \<and> n < 3000) \<or> 4999 < n \<or> n = 1004 \<or> n = 1005 \<or> n = 1006 \<longleftrightarrow>
    \<not> ((1000 \<le> n \<and> n \<le> 1003) \<or> (1007 \<le> n \<and> n \<le> 1011) \<or> (3000 \<le> n \<and> n \<le> 4999))"
  by presburger

lemma validate_close_code_eq:
  "validate_close_code code v = (if close_code_ok code then v else v\<lparr>m_validation_state := Invalid_close_code\<rparr>)"
proof -
  have "code < 1000 \<longleftrightarrow> unat code < 1000" "1011 < code \<longleftrightarrow> 1011 < unat code" "code < 3000 \<longleftrightarrow> unat code < 3000"
    "4999 < code \<longleftrightarrow> 4999 < unat code" "code = 1004 \<longleftrightarrow> unat code = 1004" "code = 1005 \<longleftrightarrow> unat code = 1005"
    "code = 1006 \<longleftrightarrow> unat code = 1006"
    by (simp_all add: word_less_nat_alt word_unat_eq_iff)
  then show ?thesis
    unfolding validate_close_code_def set_validation_state_def close_code_ok_def
    using close_codes [of "unat code"] by argo
qed

lemma close_first_byte:
  assumes "m_opcode (m_current_frame v) = connection_close_frame" "m_expected_close_code v = expected_data 2"
  shows "process_payload_byte b v = Inr (hd (view v [b]),
    (advance 1 v)\<lparr>m_expected_close_code := \<lparr>m_expected_size = 2, m_loaded_data = [hd (view v [b])]\<rparr>\<rparr>)"
  using assms
  by (simp add: process_payload_byte_def view_def advance_def unmask_byte_def add_byte_and_check_size_def
      all_bytes_loaded_def expected_data_def)

lemma close_second_byte:
  assumes "m_opcode (m_current_frame v) = connection_close_frame"
    "m_expected_close_code v = \<lparr>m_expected_size = 2, m_loaded_data = [b0]\<rparr>"
  shows "process_payload_byte b v = Inr (hd (view v [b]),
    validate_close_code (read_number_from_big_endian_bytes [b0, hd (view v [b])])
      ((advance 1 v)\<lparr>m_expected_close_code := \<lparr>m_expected_size = 2, m_loaded_data = [b0, hd (view v [b])]\<rparr>\<rparr>))"
  using assms
  by (simp add: process_payload_byte_def view_def advance_def unmask_byte_def add_byte_and_check_size_def
      all_bytes_loaded_def)

lemma all_loaded_after_code:
  "all_bytes_loaded \<lparr>m_expected_size = 2, m_loaded_data = [x, y]\<rparr>"
  by (simp add: all_bytes_loaded_def)

text \<open>
  A close frame with a code: the verdict on the code, then on the text of the reason.
\<close>

definition close_verdict :: "raw_data_t \<Rightarrow> validation_state_t" where
  "close_verdict payload =
     (if \<not> close_code_ok (read_number_from_big_endian_bytes (take 2 payload)) then Invalid_close_code
      else if utf8_text (map unat (drop 2 payload)) then Frame_is_valid
      else Incorrect_utf8_data)"

lemma close_part:
  assumes v: "m_opcode (m_current_frame v) = connection_close_frame" "m_expected_close_code v = expected_data 2"
      "m_validation_state v = Payload_part_is_valid" "m_utf8_checker v = ready s" "m_final_flag (m_current_frame v)"
  shows "\<exists>out u. process_payload_bytes (b0 # b1 # data) v = Inr (out, u) \<and>
    fst (finish_frame u) = close_verdict (view v (b0 # b1 # data))"
proof -
  define c0 where "c0 = hd (view v [b0])"
  define c1 where "c1 = hd (view (advance 1 v) [b1])"
  define w where "w = (advance 2 v)\<lparr>m_expected_close_code := \<lparr>m_expected_size = 2, m_loaded_data = [c0, c1]\<rparr>\<rparr>"
  let ?code = "read_number_from_big_endian_bytes [c0, c1] :: u16"
  have "view w data = view (advance 1 (advance 1 v)) data"
    by (simp add: w_def numeral_2_eq_2) (simp add: view_def)
  then have view: "view v (b0 # b1 # data) = c0 # c1 # view w data"
    unfolding c0_def c1_def using view_Cons [of v b0 "b1 # data"] view_Cons [of "advance 1 v" b1 data] by simp
  define u1 where "u1 = (advance 1 v)\<lparr>m_expected_close_code := \<lparr>m_expected_size = 2, m_loaded_data = [c0]\<rparr>\<rparr>"
  have first: "process_payload_byte b0 v = Inr (c0, u1)"
    using close_first_byte [OF v(1,2)] by (simp add: c0_def u1_def)
  have "view (x\<lparr>m_expected_close_code := d\<rparr>) = view x"
    "advance n (x\<lparr>m_expected_close_code := d\<rparr>) = (advance n x)\<lparr>m_expected_close_code := d\<rparr>" for x d n
    by (simp_all add: view_def advance_def fun_eq_iff)
  then have second: "process_payload_byte b1 u1 = Inr (c1, validate_close_code ?code w)"
    unfolding u1_def using v(1) by (subst close_second_byte) (simp_all add: c1_def w_def numeral_2_eq_2)
  have u1: "m_validation_state u1 = Payload_part_is_valid" using v(3) by (simp add: u1_def)
  show ?thesis
  proof (cases "close_code_ok ?code")
    case False
    then have "process_payload_bytes (b0 # b1 # data) v =
        Inr (c0 # c1 # data, w\<lparr>m_validation_state := Invalid_close_code\<rparr>)"
      by (simp add: first u1 second validate_close_code_eq)
    then show ?thesis
      using False v(4,5) by (simp add: view close_verdict_def finish_frame_final is_state_still_valid_def
          w_def finalized_def ready_def)
  next
    case True
    have w: "utf8_mode w" "m_validation_state w = Payload_part_is_valid" "m_utf8_checker w = ready s"
      "m_final_flag (m_current_frame w)"
      using v by (simp_all add: w_def utf8_mode_def all_loaded_after_code)
    have step: "process_payload_bytes (b0 # b1 # data) v =
        (case process_payload_bytes data w of Inl e \<Rightarrow> Inl e | Inr (out, u) \<Rightarrow> Inr (c0 # c1 # out, u))"
      using True w(2) by (simp add: first u1 second validate_close_code_eq split: sum.splits)
    have verdict: "close_verdict (view v (b0 # b1 # data)) =
        (if check_utf8_loop (ready s) (view w data) then Frame_is_valid else Incorrect_utf8_data)"
      using True by (simp add: close_verdict_def view loop_iff_utf8_text)
    show ?thesis
    proof (cases "utf8_feed (ready s) (view w data)")
      case None
      with utf8_bytes [OF w(1,2), of data] w(3) show ?thesis
        unfolding step verdict check_utf8_loop_feed by (auto simp: finish_frame_refused)
    next
      case (Some c)
      let ?u = "(advance (length data) w)\<lparr>m_utf8_checker := c\<rparr>"
      have "fst (finish_frame ?u) = (if finalized c then Frame_is_valid else Incorrect_utf8_data)"
        using w by (simp add: finish_frame_final is_state_still_valid_def)
      with Some utf8_bytes [OF w(1,2), of data] w(3) show ?thesis
        unfolding step verdict check_utf8_loop_feed by simp
    qed
  qed
qed

lemma close_frame_processed:
  assumes "idle v" "m_utf8_checker v = ready s" "header_ok frame" "m_opcode frame = connection_close_frame"
  shows "\<exists>out w. process_frame (frame, [b0 # b1 # data]) v =
    Inr (close_verdict (frame_payload (m_unmask_flag v) (frame, [b0 # b1 # data])), out, w)"
proof -
  let ?w = "frame_started frame v"
  let ?p = "?w\<lparr>m_validation_state := Payload_part_is_valid\<rparr>"
  have "order_ok (m_previous_data_frame v) (m_opcode frame)" using assms(4) by (simp add: order_ok_def)
  with assms have start: "process_new_frame frame v = Inr (Frame_header_is_valid, ?w)"
    by (intro process_new_frame_accepts) auto
  have "\<exists>out u. process_payload_bytes (b0 # b1 # data) ?p = Inr (out, u) \<and>
      fst (finish_frame u) = close_verdict (view ?p (b0 # b1 # data))"
    using assms by (intro close_part) (simp_all add: frame_started_def header_ok_def)
  moreover have "view ?p x = frame_payload (m_unmask_flag v) (frame, [x])" for x
    by (simp add: view_def frame_started_def frame_payload_def unmask_from_mask_unmask)
  ultimately obtain out u where u: "process_payload_bytes (b0 # b1 # data) ?p = Inr (out, u)"
      "fst (finish_frame u) = close_verdict (frame_payload (m_unmask_flag v) (frame, [b0 # b1 # data]))" by auto
  have "process_parts [b0 # b1 # data] ?w = Inr (out, u)"
    using u(1) by (simp add: process_and_unmask_next_payload_part_def set_validation_state_def
        is_state_still_valid_def frame_started_def)
  then show ?thesis
    using start u(2) by (cases "finish_frame u") (simp add: process_frame_def)
qed

subsection \<open>Exceptions\<close>

lemma process_payload_byte_total: "\<exists>out w. process_payload_byte b v = Inr (out, w) \<and> m_working_state w = m_working_state v"
proof -
  have "m_working_state (check_payload_utf8 x y) = m_working_state y" for x y
    by (simp add: check_payload_utf8_def set_validation_state_def Let_def split: prod.splits)
  then show ?thesis
    by (auto simp: process_payload_byte_def Let_def add_byte_and_check_size_def all_bytes_loaded_def unmask_byte_def
        validate_close_code_eq)
qed

lemma process_payload_bytes_total:
  "\<exists>out w. process_payload_bytes data v = Inr (out, w) \<and> m_working_state w = m_working_state v"
proof (induction data arbitrary: v)
  case (Cons b data)
  obtain x u where x: "process_payload_byte b v = Inr (x, u)" "m_working_state u = m_working_state v"
    using process_payload_byte_total by blast
  with Cons.IH [of u] show ?case by (auto simp: x)
qed simp

subsection \<open>The validator as a state machine\<close>

text \<open>The calls a client can make, whatever their order.\<close>

inductive validator_step :: "ws_protocol_validator_t \<Rightarrow> ws_protocol_validator_t \<Rightarrow> bool" where
  new_frame: "process_new_frame frame v = Inr (st, w) \<Longrightarrow> validator_step v w"
| next_part: "process_next_payload_part data v = Inr (st, w) \<Longrightarrow> validator_step v w"
| unmask_part: "process_and_unmask_next_payload_part data v = Inr (st, out, w) \<Longrightarrow> validator_step v w"
| finish: "finish_frame v = (st, w) \<Longrightarrow> validator_step v w"
| reset: "w = validator_reset v \<Longrightarrow> validator_step v w"

definition validator_inv :: "ws_protocol_validator_t \<Rightarrow> bool" where
  "validator_inv v \<longleftrightarrow>
     m_working_state v = Processing_frame \<longrightarrow>
       header_ok (m_current_frame v) \<and>
       (m_unmask_flag v \<longrightarrow> m_mask (m_unmasker v) = masking_bytes (m_masking_key (m_current_frame v))) \<and>
       (m_opcode (m_current_frame v) = continuation_frame \<longrightarrow> m_previous_data_frame v \<noteq> No_data_frame) \<and>
       (m_opcode (m_current_frame v) = text_frame \<longrightarrow>
          m_previous_data_frame v = (if m_final_flag (m_current_frame v) then No_data_frame else Text_frame)) \<and>
       (m_opcode (m_current_frame v) = binary_frame \<longrightarrow>
          m_previous_data_frame v = (if m_final_flag (m_current_frame v) then No_data_frame else Binary_frame))"

text \<open>The part of the object that the processing of payload does not touch.\<close>

definition frame_part where
  "frame_part v = (m_working_state v, m_current_frame v, m_unmask_flag v, m_mask (m_unmasker v), m_previous_data_frame v)"

lemma validator_inv_frame_part: "frame_part w = frame_part v \<Longrightarrow> validator_inv v \<Longrightarrow> validator_inv w"
  by (simp add: frame_part_def validator_inv_def)

lemma frame_part_update [simp]:
  "frame_part (v\<lparr>m_utf8_checker := c\<rparr>) = frame_part v" "frame_part (v\<lparr>m_validation_state := st\<rparr>) = frame_part v"
  "frame_part (v\<lparr>m_expected_close_code := d\<rparr>) = frame_part v"
  "frame_part (v\<lparr>m_unmasker := m_unmasker v\<lparr>m_processed_bytes_count := n\<rparr>\<rparr>) = frame_part v"
  by (simp_all add: frame_part_def)

lemma check_payload_utf8_frame_part [simp]: "frame_part (check_payload_utf8 b v) = frame_part v"
  by (simp add: check_payload_utf8_def set_validation_state_def Let_def split: prod.splits)

lemma process_payload_byte_frame_part: "process_payload_byte b v = Inr (x, w) \<Longrightarrow> frame_part w = frame_part v"
  by (auto simp: process_payload_byte_def Let_def unmask_byte_def add_byte_and_check_size_def validate_close_code_eq
      split: if_splits)

lemma process_payload_bytes_frame_part:
  "process_payload_bytes data v = Inr (out, w) \<Longrightarrow> frame_part w = frame_part v"
proof (induction data arbitrary: v out w)
  case (Cons b data)
  then show ?case
    by (fastforce dest: process_payload_byte_frame_part split: sum.splits if_splits prod.splits)
qed simp

lemma frame_started_inv:
  "header_ok frame \<Longrightarrow> order_ok (m_previous_data_frame v) (m_opcode frame) \<Longrightarrow> validator_inv (frame_started frame v)"
  by (auto simp: validator_inv_def frame_started_def order_ok_def split: if_splits)

lemma validator_inv_idle: "m_working_state v = Empty_state \<Longrightarrow> validator_inv v"
  by (simp add: validator_inv_def)

lemma validator_step_inv: "validator_step v w \<Longrightarrow> validator_inv v \<Longrightarrow> validator_inv w"
proof (induction rule: validator_step.induct)
  case (new_frame frame v st w)
  then have "idle v" by (auto simp: process_new_frame_def idle_def split: if_splits)
  show ?case
  proof (cases "header_ok frame \<and> order_ok (m_previous_data_frame v) (m_opcode frame)")
    case True
    with new_frame process_new_frame_accepts [OF \<open>idle v\<close>] frame_started_inv show ?thesis by auto
  next
    case False
    with new_frame process_new_frame_refuses [OF \<open>idle v\<close> False] \<open>idle v\<close> show ?thesis
      by (auto intro!: validator_inv_idle simp: idle_def)
  qed
next
  case (next_part data v st w)
  then show ?case
    by (auto simp: process_next_payload_part_def set_validation_state_def split: if_splits sum.splits
        dest!: process_payload_bytes_frame_part elim!: validator_inv_frame_part [rotated])
next
  case (unmask_part data v st out w)
  then show ?case
    by (auto simp: process_and_unmask_next_payload_part_def set_validation_state_def split: if_splits sum.splits
        dest!: process_payload_bytes_frame_part elim!: validator_inv_frame_part [rotated])
next
  case (finish v st w)
  then show ?case by (auto simp: finish_frame_def Let_def intro!: validator_inv_idle)
qed (simp add: validator_reset_def validator_inv_idle)

subsection \<open>Properties\<close>

text \<open>
  Header verdict. Offered a frame header while idle, the validator accepts it exactly when the
  header satisfies the protocol (known opcode, masked, no reserved flag, control frames final and
  at most 125 bytes) and fits the frames before it (a continuation only inside a message, a new
  data frame only outside); a refused header leaves the validator idle.
\<close>

theorem process_new_frame_verdict:
  assumes "m_working_state v = Empty_state"
  shows "\<exists>st w. process_new_frame frame v = Inr (st, w) \<and>
    (st = Frame_header_is_valid \<longleftrightarrow> header_ok frame \<and> order_ok (m_previous_data_frame v) (m_opcode frame)) \<and>
    (m_working_state w = Processing_frame \<longleftrightarrow> st = Frame_header_is_valid)"
proof (cases "header_ok frame \<and> order_ok (m_previous_data_frame v) (m_opcode frame)")
  case True
  with process_new_frame_accepts [of v frame] assms show ?thesis
    by (auto simp: idle_def frame_started_def)
next
  case False
  with process_new_frame_refuses [of v frame] assms show ?thesis
    by (auto simp: idle_def)
qed

theorem process_new_frame_verdict_witness:
  "\<exists>st w. process_new_frame (make_masked_message_details True continuation_frame 3 7) (ws_protocol_validator True) = Inr (st, w) \<and>
     st \<noteq> Frame_header_is_valid \<and> m_working_state w \<noteq> Processing_frame"
proof -
  have "m_working_state (ws_protocol_validator True) = Empty_state"
    "\<not> order_ok (m_previous_data_frame (ws_protocol_validator True))
      (m_opcode (make_masked_message_details True continuation_frame 3 7))"
    by (simp_all add: ws_protocol_validator_def order_ok_def make_masked_message_details_def init_payload_len_def)
  with process_new_frame_verdict [of "ws_protocol_validator True" "make_masked_message_details True continuation_frame 3 7"]
  show ?thesis by blast
qed

text \<open>
  C23: text messages. Between two messages, a text message fragmented over any number of
  frames, each arriving in any pieces, is processed without an exception; every frame is accepted exactly when the
  concatenation of the unmasked payloads is well-formed UTF-8 (a symbol may be cut by a frame or a
  piece boundary), the bytes handed on are that concatenation, and the validator is again between two messages.
  Otherwise the message is refused as incorrect UTF-8.
\<close>

theorem text_message_verdict:
  assumes "fragments text_frame fs" "between_messages v"
  defines "payload \<equiv> concat (map (frame_payload (m_unmask_flag v)) fs)"
  shows "if utf8_text (map unat payload)
    then \<exists>w. process_message fs v = Inr (Frame_is_valid, payload, w) \<and> between_messages w
    else \<exists>out w. process_message fs v = Inr (Incorrect_utf8_data, out, w)"
proof -
  from assms(2) obtain s where v: "idle v" "m_previous_data_frame v = No_data_frame" "m_utf8_checker v = ready s"
    by (auto simp: between_messages_def)
  with process_message_text [OF assms(1), of v] show ?thesis
    unfolding payload_def by (auto simp: checker_ok_ready loop_iff_utf8_text split: if_splits)
qed

theorem text_message_verdict_witness:
  "\<exists>w. process_message
      [(make_masked_message_details False text_frame 1 0, [[0xC3]]),
       (make_masked_message_details True continuation_frame 1 0, [[0xA9]])] (ws_protocol_validator False) =
    Inr (Frame_is_valid, [0xC3, 0xA9], w)"
proof -
  let ?fs = "[(make_masked_message_details False text_frame 1 0, [[0xC3]]),
       (make_masked_message_details True continuation_frame 1 0, [[0xA9]])] :: frame_input list"
  have "fragments text_frame ?fs"
    by (simp add: header_ok_def make_masked_message_details_def init_payload_len_def message_details_default_def)
  moreover have "between_messages (ws_protocol_validator False)" "\<not> m_unmask_flag (ws_protocol_validator False)"
    by (auto simp: between_messages_def idle_def ws_protocol_validator_def utf8_checker_init_eq)
  moreover have "utf8_text [0xC3, 0xA9]"
    unfolding utf8_text_def by (rule exI [of _ "[0xE9]"]) (simp add: unicode_scalar_def utf8_encode_def)
  ultimately show ?thesis
    using text_message_verdict [of ?fs "ws_protocol_validator False"] by (auto simp: frame_payload_def)
qed

text \<open>
  Close frames. A close frame whose payload has at least two bytes is judged by its status
  code, which must be in 1000-1003, 1007-1011 or 3000-4999, and then by the rest of the payload,
  which must be well-formed UTF-8.
\<close>

theorem close_frame_verdict:
  assumes "between_messages v" "header_ok frame" "m_opcode frame = connection_close_frame" "2 \<le> length data"
  defines "payload \<equiv> frame_payload (m_unmask_flag v) (frame, [data])"
  shows "\<exists>out w. process_frame (frame, [data]) v =
    Inr (if \<not> close_code_ok (read_number_from_big_endian_bytes (take 2 payload)) then Invalid_close_code
         else if utf8_text (map unat (drop 2 payload)) then Frame_is_valid else Incorrect_utf8_data, out, w)"
proof -
  obtain b0 b1 rest where "data = b0 # b1 # rest"
    using assms(4) by (auto simp: Suc_le_length_iff numeral_2_eq_2)
  with assms(1-3) close_frame_processed [of v _ frame b0 b1 rest] show ?thesis
    unfolding payload_def close_verdict_def by (auto simp: between_messages_def)
qed

theorem close_frame_verdict_witness:
  "\<exists>out w. process_frame (make_masked_message_details True connection_close_frame 2 0, [[0x03, 0xED]])
      (ws_protocol_validator False) = Inr (Invalid_close_code, out, w)"
proof -
  have "header_ok (make_masked_message_details True connection_close_frame 2 0)"
    "m_opcode (make_masked_message_details True connection_close_frame 2 0) = connection_close_frame"
    by (simp_all add: header_ok_def make_masked_message_details_def init_payload_len_def message_details_default_def
        details_payload_len_def)
  moreover have "between_messages (ws_protocol_validator False)" "\<not> m_unmask_flag (ws_protocol_validator False)"
    by (auto simp: between_messages_def idle_def ws_protocol_validator_def utf8_checker_init_eq)
  moreover have "\<not> close_code_ok (read_number_from_big_endian_bytes [0x03, 0xED])"
    by (simp add: read_number_from_big_endian_bytes_def close_code_ok_def)
  ultimately show ?thesis
    using close_frame_verdict [of "ws_protocol_validator False" "make_masked_message_details True connection_close_frame 2 0"
        "[0x03, 0xED]"]
    by (simp add: frame_payload_def)
qed

text \<open>
  The exceptions of the validator are exactly the two documented misuses: a new frame while
  another is being processed, and payload while no frame is. The internal buffer of
  the close code never overflows.
\<close>

theorem validator_exceptions:
  "(process_new_frame frame v = Inl e \<longleftrightarrow> e = Another_frame_is_processing \<and> m_working_state v = Processing_frame) \<and>
   (process_and_unmask_next_payload_part data v = Inl e \<longleftrightarrow>
      e = Current_state_is_empty \<and> m_working_state v = Empty_state) \<and>
   (process_next_payload_part data v = Inl e \<longleftrightarrow> e = Current_state_is_empty \<and> m_working_state v = Empty_state)"
proof -
  obtain out w where "process_payload_bytes data (set_validation_state Payload_part_is_valid v) = Inr (out, w)"
    using process_payload_bytes_total by blast
  then show ?thesis
    by (cases "m_working_state v")
      (auto simp: process_new_frame_def process_and_unmask_next_payload_part_def process_next_payload_part_def Let_def
        split: prod.splits)
qed

text \<open>
  C33: safety of the state machine. In every state that calls in any order can reach from a new validator, while a frame is
  being processed its header is valid, the unmasker holds the masking key of that very frame, and
  the remembered message type agrees with the frame.
\<close>

theorem validator_reachable_inv:
  assumes "validator_step\<^sup>*\<^sup>* (ws_protocol_validator do_unmask) v"
  shows "validator_inv v"
  using assms
proof (induction rule: rtranclp_induct)
  case base
  show ?case by (simp add: ws_protocol_validator_def validator_inv_def)
qed (rule validator_step_inv)

text \<open>Inside the second frame of a fragmented text message.\<close>

definition second_fragment :: ws_protocol_validator_t where
  "second_fragment =
     (let v = snd (projr (process_new_frame (make_masked_message_details False text_frame 2 0x01020304) (ws_protocol_validator True)));
          v = snd (snd (projr (process_and_unmask_next_payload_part [0x49, 0x6B] v)));
          v = snd (finish_frame v);
          v = snd (projr (process_new_frame (make_masked_message_details True continuation_frame 1 0x0A0B0C0D) v))
      in snd (snd (projr (process_and_unmask_next_payload_part [0x2B] v))))"

lemma second_fragment_reached: "validator_step\<^sup>*\<^sup>* (ws_protocol_validator True) second_fragment"
proof -
  define v1 where "v1 = snd (projr (process_new_frame (make_masked_message_details False text_frame 2 0x01020304) (ws_protocol_validator True)))"
  define v2 where "v2 = snd (snd (projr (process_and_unmask_next_payload_part [0x49, 0x6B] v1)))"
  define v3 where "v3 = snd (finish_frame v2)"
  define v4 where "v4 = snd (projr (process_new_frame (make_masked_message_details True continuation_frame 1 0x0A0B0C0D) v3))"
  define v5 where "v5 = snd (snd (projr (process_and_unmask_next_payload_part [0x2B] v4)))"
  note vs = v1_def v2_def v3_def v4_def v5_def
  have "process_new_frame (make_masked_message_details False text_frame 2 0x01020304) (ws_protocol_validator True) = Inr (Frame_header_is_valid, v1)"
    "process_and_unmask_next_payload_part [0x49, 0x6B] v1 = Inr (Payload_part_is_valid, [0x48, 0x69], v2)"
    "finish_frame v2 = (Frame_is_valid, v3)"
    "process_new_frame (make_masked_message_details True continuation_frame 1 0x0A0B0C0D) v3 = Inr (Frame_header_is_valid, v4)"
    "process_and_unmask_next_payload_part [0x2B] v4 = Inr (Payload_part_is_valid, [0x21], v5)"
    unfolding vs by code_simp+
  note steps = validator_step.new_frame [OF this(1)] validator_step.unmask_part [OF this(2)] validator_step.finish [OF this(3)]
    validator_step.new_frame [OF this(4)] validator_step.unmask_part [OF this(5)]
  have "second_fragment = v5" by (simp add: second_fragment_def vs Let_def)
  with steps show ?thesis by (meson converse_rtranclp_into_rtranclp rtranclp.rtrancl_refl)
qed

theorem validator_reachable_inv_witness:
  "m_working_state second_fragment = Processing_frame \<and> m_opcode (m_current_frame second_fragment) = continuation_frame \<and>
   header_ok (m_current_frame second_fragment) \<and>
   m_mask (m_unmasker second_fragment) = masking_bytes (m_masking_key (m_current_frame second_fragment)) \<and>
   m_previous_data_frame second_fragment \<noteq> No_data_frame"
proof -
  have "m_working_state second_fragment = Processing_frame" "m_opcode (m_current_frame second_fragment) = continuation_frame"
    "m_unmask_flag second_fragment" by code_simp+
  with validator_reachable_inv [OF second_fragment_reached] show ?thesis by (simp add: validator_inv_def)
qed

text \<open>
  A control frame inside a fragmented text message. When the fragments sent so far end in the
  middle of a symbol, a valid empty ping between them is refused as incorrect UTF-8 and the checker
  forgets the unfinished symbol, although the protocol allows control frames between fragments.
\<close>

theorem ping_inside_symbol_refused:
  assumes "m_working_state v = Empty_state" "\<not> finalized (m_utf8_checker v)" "header_ok frame" "m_opcode frame = ping_frame"
  shows "\<exists>w. process_frame (frame, []) v = Inr (Incorrect_utf8_data, [], w) \<and> finalized (m_utf8_checker w)"
proof -
  have "order_ok (m_previous_data_frame v) (m_opcode frame)" using assms(4) by (simp add: order_ok_def)
  then have start: "process_new_frame frame v = Inr (Frame_header_is_valid, frame_started frame v)"
    using assms by (intro process_new_frame_accepts) (auto simp: idle_def)
  have "m_final_flag frame" using assms(3,4) by (simp add: header_ok_def)
  then have "fst (finish_frame (frame_started frame v)) = Incorrect_utf8_data"
    "finalized (m_utf8_checker (snd (finish_frame (frame_started frame v))))"
    using assms(2) by (simp_all add: finish_frame_def Let_def set_validation_state_def frame_started_def
        finalized_def utf8_reset_def)
  with start show ?thesis
    by (cases "finish_frame (frame_started frame v)") (simp add: process_frame_def)
qed

theorem ping_inside_symbol_refused_witness:
  "\<exists>w. process_frame (make_masked_message_details True ping_frame 0 0, [])
      ((ws_protocol_validator True)\<lparr>m_previous_data_frame := Text_frame,
         m_utf8_checker := snd (process_byte utf8_checker_init 0xC3)\<rparr>) = Inr (Incorrect_utf8_data, [], w)"
proof -
  let ?v = "(ws_protocol_validator True)\<lparr>m_previous_data_frame := Text_frame,
         m_utf8_checker := snd (process_byte utf8_checker_init 0xC3)\<rparr>"
  have "\<not> finalized (snd (process_byte utf8_checker_init 0xC3))" by code_simp
  moreover have "header_ok (make_masked_message_details True ping_frame 0 0)"
    "m_opcode (make_masked_message_details True ping_frame 0 0) = ping_frame"
    by (simp_all add: header_ok_def make_masked_message_details_def init_payload_len_def message_details_default_def
        details_payload_len_def)
  ultimately show ?thesis
    using ping_inside_symbol_refused [of ?v "make_masked_message_details True ping_frame 0 0"]
    by (auto simp: ws_protocol_validator_def)
qed

text \<open>
  \<^verbatim>\<open>reset\<close> does not bring the validator back to its initial state. After a message refused for
  its UTF-8, a reset validator refuses a text frame that starts with an ASCII character, whereas a new validator
  accepts it when the rest is well formed.
\<close>

theorem validator_reset_keeps_refusal:
  assumes "m_state (m_utf8_checker v) = Invalid \<or> m_state (m_utf8_checker v) = Overlong"
    and "fragments text_frame [f]" "frame_payload (m_unmask_flag v) f = b # bs" "unat b < 0x80"
  shows "\<exists>out w. process_message [f] (validator_reset v) = Inr (Incorrect_utf8_data, out, w)"
proof -
  have "\<not> fst (process_byte (utf8_reset (m_utf8_checker v)) b)" using assms by (simp add: reset_refuses)
  then have "utf8_feed (utf8_reset (m_utf8_checker v)) (b # bs) = None" by (simp add: case_prod_beta)
  moreover have "m_unmask_flag (validator_reset v) = m_unmask_flag v" "m_previous_data_frame (validator_reset v) = No_data_frame"
    "m_utf8_checker (validator_reset v) = utf8_reset (m_utf8_checker v)" "idle (validator_reset v)"
    by (simp_all add: validator_reset_def idle_def)
  ultimately show ?thesis
    using process_frame_text [of "validator_reset v" f No_data_frame] assms(2,3) by (auto simp del: utf8_feed.simps)
qed

theorem validator_reset_keeps_refusal_witness:
  "\<exists>out w. process_message [(make_masked_message_details True text_frame 1 0, [[0x41]])]
      (validator_reset ((ws_protocol_validator False)\<lparr>m_utf8_checker := snd (process_byte utf8_checker_init 0xFF)\<rparr>)) =
      Inr (Incorrect_utf8_data, out, w)"
proof -
  let ?v = "(ws_protocol_validator False)\<lparr>m_utf8_checker := snd (process_byte utf8_checker_init 0xFF)\<rparr>"
  have "m_state (snd (process_byte utf8_checker_init 0xFF)) = Invalid" by code_simp
  moreover have "fragments text_frame [(make_masked_message_details True text_frame 1 0, [[0x41]])]"
    by (simp add: header_ok_def make_masked_message_details_def init_payload_len_def message_details_default_def)
  moreover have "\<not> m_unmask_flag ?v" by (simp add: ws_protocol_validator_def)
  ultimately show ?thesis
    using validator_reset_keeps_refusal [of ?v "(make_masked_message_details True text_frame 1 0, [[0x41]])" "0x41" "[]"]
    by (simp add: frame_payload_def)
qed

end
