(* ===== verification/Ws_Connection.thy ===== *)
theory Ws_Connection
  imports Connection Ws_Validator
begin

text \<open>
  The websocket connection, \<^verbatim>\<open>websocket/impl/ws_connection.hpp\<close>, and the handle of the user, \<^verbatim>\<open>websocket/websocket.hpp\<close>.
  The state of \<^verbatim>\<open>ws_connection_t\<close> is a record; its methods that call each other through the user's message handler are written with
  the calls as a parameter, which \<open>ws_exec\<close> ties together with a bound on their depth. An event is the completion of a read or
  a write, a call of the user or the timer. The message handler of the user is a parameter: what it does with its handle in the course of a
  call. Pointers into the payload are offsets.
\<close>

section \<open>Definitions\<close>

subsection \<open>State\<close>

definition websocket_header_max_size :: nat where
  "websocket_header_max_size = 14"

datatype write_state_t = Write_enabled | Write_disabled

datatype read_state_t = Read_any_frame | Read_only_close_frame | Read_nothing

record ws_message_t =
  wm_final_flag :: bool
  wm_opcode :: opcode_t
  wm_payload :: raw_data_t

datatype ws_user_call =
    Send_message bool opcode_t writable_item_t "nat option"
  | Shutdown
  | Kill
  | Release_handle

text \<open>The read that is running: of a header, or of the rest of a payload.\<close>

datatype ws_read = Reading_header | Reading_payload nat nat bool

datatype ws_action =
    Ws_start_read nat
  | Ws_read_done
  | Ws_start_write "string list"
  | Ws_write_done
  | Ws_socket_close
  | Ws_handler_called ws_message_t
  | Ws_called notification
  | Ws_accepted write_group_t bool

record ws_env =
  w_handler :: "nat \<Rightarrow> ws_message_t \<Rightarrow> ws_user_call list"
  w_throws :: "notification \<Rightarrow> bool"
  w_max_iov_len :: nat
  w_max_size :: nat
  w_write_http_response_timelimit :: int
  w_read_next_http_message_timelimit :: int

text \<open>
  The members of \<^verbatim>\<open>ws_connection_t\<close> and of its input. The three one-shot actions are the flags \<^verbatim>\<open>m_not_executed_yet\<close>. Beyond the members:
  the handle of the user (\<open>wc_connected\<close> as long as it refers to the connection; the weak handle is set by the activation and holds as long as the handle exists), the
  socket, the clock, the operations that are running and a trace.
\<close>

record ws_conn_t =
  wc_parser :: ws_parser_t
  wc_buf :: fixed_buffer_t
  wc_payload :: raw_data_t
  wc_protocol_validator :: ws_protocol_validator_t
  wc_write_output_ctx :: write_group_output_ctx_t
  wc_outgoing_data :: "write_group_t list"
  wc_write_state :: write_state_t
  wc_read_state :: read_state_t
  wc_close_frame_to_user :: bool
  wc_close_frame_to_peer :: bool
  wc_close_impl :: bool
  wc_write_operation_timeout_after :: int
  wc_close_frame_from_peer_timeout_after :: "int option"
  wc_timer_scheduled :: bool
  wc_now :: int
  wc_socket_open :: bool
  wc_connected :: bool
  wc_websocket_weak_handle :: bool
  wc_handler_calls :: nat
  wc_activated :: bool
  wc_reading :: "ws_read option"
  wc_write_running :: bool
  wc_trace :: "ws_action list"

definition ws_connection :: "int \<Rightarrow> ws_conn_t" where
  "ws_connection now =
     \<lparr>wc_parser = ws_parser, wc_buf = fixed_buffer websocket_header_max_size, wc_payload = [],
      wc_protocol_validator = ws_protocol_validator True, wc_write_output_ctx = write_group_output_ctx, wc_outgoing_data = [],
      wc_write_state = Write_enabled, wc_read_state = Read_nothing, wc_close_frame_to_user = True, wc_close_frame_to_peer = True,
      wc_close_impl = True, wc_write_operation_timeout_after = 0, wc_close_frame_from_peer_timeout_after = None,
      wc_timer_scheduled = False, wc_now = now, wc_socket_open = True, wc_connected = True, wc_websocket_weak_handle = False,
      wc_handler_calls = 0, wc_activated = False, wc_reading = None, wc_write_running = False, wc_trace = []\<rparr>"

datatype ws_exn =
    Parser_or_validator_exn ws_error
  | Ws_output_exn output_error
  | Sendfile_not_implemented
  | Payload_too_big

datatype ws_result = Ws_done ws_conn_t | Ws_raised ws_exn ws_conn_t | Ws_undefined | Ws_out_of_fuel

definition ws_then :: "ws_result \<Rightarrow> (ws_conn_t \<Rightarrow> ws_result) \<Rightarrow> ws_result" where
  "ws_then r f = (case r of Ws_done c \<Rightarrow> f c | _ \<Rightarrow> r)"

definition ws_catching :: "(ws_conn_t \<Rightarrow> ws_result) \<Rightarrow> ws_result \<Rightarrow> ws_result" where
  "ws_catching f r = (case r of Ws_raised e c \<Rightarrow> f c | _ \<Rightarrow> r)"

definition ws_act :: "ws_action \<Rightarrow> ws_conn_t \<Rightarrow> ws_conn_t" where
  "ws_act a c = c\<lparr>wc_trace := wc_trace c @ [a]\<rparr>"

definition ws_notify :: "notification list \<Rightarrow> ws_conn_t \<Rightarrow> ws_conn_t" where
  "ws_notify ns c = c\<lparr>wc_trace := wc_trace c @ map Ws_called ns\<rparr>"

datatype ws_call = Call_message_handler ws_message_t | Start_read_header | Handle_current_write

type_synonym ws_caller = "ws_call \<Rightarrow> ws_conn_t \<Rightarrow> ws_result"

subsection \<open>Timeouts and closing\<close>

definition ws_init_next_timeout_checking :: "ws_conn_t \<Rightarrow> ws_conn_t" where
  "ws_init_next_timeout_checking c = c\<lparr>wc_timer_scheduled := True\<rparr>"

definition ws_guard_write_operation :: "ws_env \<Rightarrow> ws_conn_t \<Rightarrow> ws_conn_t" where
  "ws_guard_write_operation env c = c\<lparr>wc_write_operation_timeout_after := wc_now c + w_write_http_response_timelimit env\<rparr>"

definition guard_close_frame_from_peer_operation :: "ws_env \<Rightarrow> ws_conn_t \<Rightarrow> ws_conn_t" where
  "guard_close_frame_from_peer_operation env c =
     c\<lparr>wc_close_frame_from_peer_timeout_after := Some (wc_now c + w_read_next_http_message_timelimit env)\<rparr>"

definition close_impl :: "ws_conn_t \<Rightarrow> ws_conn_t" where
  "close_impl c =
     (if wc_close_impl c then ws_act Ws_socket_close (c\<lparr>wc_close_impl := False, wc_socket_open := False\<rparr>) else c)"

definition start_waiting_close_frame_only :: "ws_env \<Rightarrow> ws_conn_t \<Rightarrow> ws_conn_t" where
  "start_waiting_close_frame_only env c = guard_close_frame_from_peer_operation env (c\<lparr>wc_read_state := Read_only_close_frame\<rparr>)"

subsection \<open>Writing\<close>

definition outgoing_append :: "write_group_t \<Rightarrow> bool \<Rightarrow> ws_conn_t \<Rightarrow> ws_conn_t" where
  "outgoing_append wg is_close_frame c =
     ws_act (Ws_accepted wg is_close_frame) (c\<lparr>wc_outgoing_data := wc_outgoing_data c @ [wg]\<rparr>)"

definition outgoing_pop_ready_buffers :: "ws_conn_t \<Rightarrow> write_group_t option \<times> ws_conn_t" where
  "outgoing_pop_ready_buffers c =
     (case wc_outgoing_data c of [] \<Rightarrow> (None, c) | wg # wgs \<Rightarrow> (Some wg, c\<lparr>wc_outgoing_data := wgs\<rparr>))"

definition ws_init_write :: "ws_caller \<Rightarrow> ws_conn_t \<Rightarrow> ws_result" where
  "ws_init_write call c =
     (case outgoing_pop_ready_buffers c of
        (None, c) \<Rightarrow> Ws_done c
      | (Some wg, c) \<Rightarrow>
          (let (called, output_ctx) = start_next_write_group (Some wg) (wc_write_output_ctx c)
           in call Handle_current_write (ws_notify called (c\<lparr>wc_write_output_ctx := output_ctx\<rparr>))))"

definition ws_init_write_if_necessary :: "ws_caller \<Rightarrow> ws_conn_t \<Rightarrow> ws_result" where
  "ws_init_write_if_necessary call c =
     (if \<not> transmitting (wc_write_output_ctx c) then ws_init_write call c else Ws_done c)"

definition close_frame_group :: "raw_data_t \<Rightarrow> write_group_t" where
  "close_frame_group payload =
     write_group
       [Datasizeable_buf (map char_of_byte (write_message_details
          (make_message_details True connection_close_frame (of_nat (length payload))))),
        Datasizeable_buf (map char_of_byte payload)]"

definition send_close_frame_to_peer :: "ws_caller \<Rightarrow> raw_data_t \<Rightarrow> ws_conn_t \<Rightarrow> ws_result" where
  "send_close_frame_to_peer call payload c =
     ws_then (ws_init_write_if_necessary call (outgoing_append (close_frame_group payload) True c))
       (\<lambda>c. Ws_done (c\<lparr>wc_write_state := Write_disabled\<rparr>))"

text \<open>The close frame of the connection itself: at most once.\<close>

definition close_frame_to_peer_if_first :: "ws_caller \<Rightarrow> raw_data_t \<Rightarrow> (ws_conn_t \<Rightarrow> ws_conn_t) \<Rightarrow> ws_conn_t \<Rightarrow> ws_result" where
  "close_frame_to_peer_if_first call payload after c =
     (if wc_close_frame_to_peer c
      then ws_then (send_close_frame_to_peer call payload (c\<lparr>wc_close_frame_to_peer := False\<rparr>)) (\<lambda>c. Ws_done (after c))
      else Ws_done c)"

abbreviation normal_closure :: status_code_t where "normal_closure \<equiv> 1000"
abbreviation protocol_error :: status_code_t where "protocol_error \<equiv> 1002"
abbreviation connection_lost :: status_code_t where "connection_lost \<equiv> 1006"
abbreviation invalid_message_data :: status_code_t where "invalid_message_data \<equiv> 1007"
abbreviation unexpected_condition :: status_code_t where "unexpected_condition \<equiv> 1011"

definition graceful_close :: "ws_env \<Rightarrow> ws_caller \<Rightarrow> ws_conn_t \<Rightarrow> ws_result" where
  "graceful_close env call c =
     close_frame_to_peer_if_first call (status_code_to_bin normal_closure) (start_waiting_close_frame_only env) c"

definition write_data_impl :: "ws_env \<Rightarrow> ws_caller \<Rightarrow> write_group_t \<Rightarrow> bool \<Rightarrow> ws_conn_t \<Rightarrow> ws_result" where
  "write_data_impl env call wg is_close_frame c =
     (if wc_socket_open c then
        (let c = (if is_close_frame
                  then start_waiting_close_frame_only env
                         (c\<lparr>wc_close_frame_to_peer := False, wc_close_frame_to_user := False, wc_write_state := Write_disabled\<rparr>)
                  else c)
         in ws_init_write_if_necessary call (outgoing_append wg is_close_frame c))
      else Ws_done (ws_notify (fst (invoke_after_write_notificator_if_exists Write_was_not_executed wg)) c))"

definition call_close_handler_if_necessary :: "ws_caller \<Rightarrow> status_code_t \<Rightarrow> ws_conn_t \<Rightarrow> ws_result" where
  "call_close_handler_if_necessary call code c =
     (if wc_close_frame_to_user c
      then call (Call_message_handler
             \<lparr>wm_final_flag = True, wm_opcode = connection_close_frame, wm_payload = status_code_to_bin code\<rparr>)
             (c\<lparr>wc_close_frame_to_user := False\<rparr>)
      else Ws_done c)"

definition ws_trigger_error_and_close :: "ws_caller \<Rightarrow> status_code_t \<Rightarrow> ws_conn_t \<Rightarrow> ws_result" where
  "ws_trigger_error_and_close call code c =
     ws_then (ws_catching Ws_done (call_close_handler_if_necessary call code c)) (\<lambda>c. Ws_done (close_impl c))"

text \<open>A refused group is destroyed, which tells its callback.\<close>

definition write_data :: "ws_env \<Rightarrow> ws_caller \<Rightarrow> write_group_t \<Rightarrow> bool \<Rightarrow> ws_conn_t \<Rightarrow> ws_result" where
  "write_data env call wg is_close_frame c =
     ws_catching (ws_trigger_error_and_close call unexpected_condition)
       (if wc_write_state c = Write_enabled then write_data_impl env call wg is_close_frame c
        else Ws_done (ws_notify (destroy_write_group wg) c))"

definition ws_handle_trivial_write_operation :: "ws_env \<Rightarrow> string list \<Rightarrow> ws_conn_t \<Rightarrow> ws_conn_t" where
  "ws_handle_trivial_write_operation env bufs c =
     ws_act (Ws_start_write bufs) ((ws_guard_write_operation env c)\<lparr>wc_write_running := True\<rparr>)"

definition ws_finish_handling_current_write_ctx :: "ws_env \<Rightarrow> ws_caller \<Rightarrow> ws_conn_t \<Rightarrow> ws_result" where
  "ws_finish_handling_current_write_ctx env call c =
     (case finish_write_group (w_throws env) (wc_write_output_ctx c) of
        None \<Rightarrow> Ws_undefined
      | Some (called, Some e, output_ctx) \<Rightarrow> Ws_raised (Ws_output_exn e) (ws_notify called (c\<lparr>wc_write_output_ctx := output_ctx\<rparr>))
      | Some (called, None, output_ctx) \<Rightarrow>
          ws_init_write_if_necessary call (ws_notify called (c\<lparr>wc_write_output_ctx := output_ctx\<rparr>)))"

definition ws_handle_current_write_ctx :: "ws_env \<Rightarrow> ws_caller \<Rightarrow> ws_conn_t \<Rightarrow> ws_result" where
  "ws_handle_current_write_ctx env call c =
     ws_catching (ws_trigger_error_and_close call unexpected_condition)
       (case extract_next_write_operation (max_iov_len (w_max_iov_len env)) (wc_write_output_ctx c) of
          None \<Rightarrow> Ws_undefined
        | Some (wo, output_ctx) \<Rightarrow>
            (let c = c\<lparr>wc_write_output_ctx := output_ctx\<rparr>
             in case wo of
                  Trivial_buffers bufs total_size \<Rightarrow> Ws_done (ws_handle_trivial_write_operation env bufs c)
                | None_write_operation \<Rightarrow> ws_finish_handling_current_write_ctx env call c
                | File_operation sf \<Rightarrow> Ws_raised Sendfile_not_implemented c))"

subsection \<open>The handle of the user and the message handler\<close>

definition message_group :: "bool \<Rightarrow> opcode_t \<Rightarrow> writable_item_t \<Rightarrow> nat option \<Rightarrow> write_group_t" where
  "message_group final_flag opcode payload wscb =
     (let wg = write_group
            [Datasizeable_buf (map char_of_byte (write_message_details
               (make_message_details final_flag opcode (of_nat (item_size payload))))), payload]
      in case wscb of None \<Rightarrow> wg | Some cb \<Rightarrow> set_after_write_notificator cb wg)"

text \<open>The exceptions of \<^verbatim>\<open>send_message\<close> go back to the user.\<close>

definition send_message ::
    "ws_env \<Rightarrow> ws_caller \<Rightarrow> bool \<Rightarrow> opcode_t \<Rightarrow> writable_item_t \<Rightarrow> nat option \<Rightarrow> ws_conn_t \<Rightarrow> ws_result" where
  "send_message env call final_flag opcode payload wscb c =
     (if wc_connected c \<and> write_type payload = Trivial_write_operation then
        (let is_close_frame = (connection_close_frame = opcode);
             c = (if is_close_frame then c\<lparr>wc_connected := False\<rparr> else c)
         in write_data env call (message_group final_flag opcode payload wscb) is_close_frame c)
      else Ws_done c)"

definition shutdown :: "ws_env \<Rightarrow> ws_caller \<Rightarrow> ws_conn_t \<Rightarrow> ws_result" where
  "shutdown env call c =
     (if wc_connected c
      then ws_catching Ws_done (graceful_close env call (c\<lparr>wc_connected := False, wc_close_frame_to_user := False\<rparr>))
      else Ws_done c)"

definition kill :: "ws_conn_t \<Rightarrow> ws_conn_t" where
  "kill c =
     (if wc_connected c
      then close_impl (c\<lparr>wc_connected := False, wc_close_frame_to_user := False, wc_close_frame_to_peer := False\<rparr>)
      else c)"

fun user_call :: "ws_env \<Rightarrow> ws_caller \<Rightarrow> ws_user_call \<Rightarrow> ws_conn_t \<Rightarrow> ws_result" where
  "user_call env call (Send_message final_flag opcode payload wscb) c = send_message env call final_flag opcode payload wscb c"
| "user_call env call Shutdown c = shutdown env call c"
| "user_call env call Kill c = Ws_done (kill c)"
| "user_call env call Release_handle c =
     ws_then (shutdown env call c) (\<lambda>c. Ws_done (c\<lparr>wc_websocket_weak_handle := False\<rparr>))"

fun user_calls :: "ws_env \<Rightarrow> ws_caller \<Rightarrow> ws_user_call list \<Rightarrow> ws_conn_t \<Rightarrow> ws_result" where
  "user_calls env call [] c = Ws_done c"
| "user_calls env call (u # us) c = ws_then (user_call env call u c) (user_calls env call us)"

definition call_message_handler :: "ws_env \<Rightarrow> ws_caller \<Rightarrow> ws_message_t \<Rightarrow> ws_conn_t \<Rightarrow> ws_result" where
  "call_message_handler env call message c =
     (if wc_websocket_weak_handle c
      then user_calls env call (w_handler env (wc_handler_calls c) message)
             (ws_act (Ws_handler_called message) (c\<lparr>wc_handler_calls := wc_handler_calls c + 1\<rparr>))
      else Ws_done c)"

subsection \<open>Reading\<close>

definition consume_header_from_socket :: "ws_conn_t \<Rightarrow> ws_conn_t" where
  "consume_header_from_socket c = ws_act (Ws_start_read (length (fb_buf (wc_buf c)))) (c\<lparr>wc_reading := Some Reading_header\<rparr>)"

definition start_read_payload :: "nat \<Rightarrow> nat \<Rightarrow> bool \<Rightarrow> ws_conn_t \<Rightarrow> ws_conn_t" where
  "start_read_payload payload_data length_remaining do_validate c =
     ws_act (Ws_start_read length_remaining) (c\<lparr>wc_reading := Some (Reading_payload payload_data length_remaining do_validate)\<rparr>)"

definition handle_invalid_payload :: "ws_env \<Rightarrow> ws_caller \<Rightarrow> validation_state_t \<Rightarrow> ws_conn_t \<Rightarrow> ws_result" where
  "handle_invalid_payload env call validation_result c =
     (if Invalid_close_code = validation_result then
        (if Read_any_frame = wc_read_state c then
           ws_then (close_frame_to_peer_if_first call (status_code_to_bin protocol_error) (\<lambda>c. c) c)
             (call_close_handler_if_necessary call protocol_error)
         else if Read_only_close_frame = wc_read_state c then Ws_done (close_impl c)
         else Ws_done c)
      else if Read_any_frame = wc_read_state c then
        ws_then (close_frame_to_peer_if_first call (status_code_to_bin invalid_message_data) (start_waiting_close_frame_only env) c)
          (call_close_handler_if_necessary call invalid_message_data)
      else Ws_done c)"

definition call_handler_on_current_message :: "ws_env \<Rightarrow> ws_caller \<Rightarrow> ws_conn_t \<Rightarrow> ws_result" where
  "call_handler_on_current_message env call c =
     (let md = m_current_msg (wc_parser c);
          (validation_result, validator) = finish_frame (wc_protocol_validator c);
          c = c\<lparr>wc_protocol_validator := validator\<rparr>
      in if Frame_is_valid = validation_result then
           (if Read_any_frame = wc_read_state c then
              ws_then
                (if connection_close_frame = m_opcode md
                 then ws_then (close_frame_to_peer_if_first call (wc_payload c) (\<lambda>c. c) (c\<lparr>wc_close_frame_to_user := False\<rparr>))
                        (\<lambda>c. Ws_done (c\<lparr>wc_read_state := Read_nothing\<rparr>))
                 else Ws_done c)
                (\<lambda>c. ws_then
                   (call (Call_message_handler
                      \<lparr>wm_final_flag = m_final_flag md, wm_opcode = m_opcode md, wm_payload = wc_payload c\<rparr>)
                      (c\<lparr>wc_payload := []\<rparr>))
                   (\<lambda>c. if Read_nothing \<noteq> wc_read_state c then call Start_read_header c else Ws_done c))
            else if Read_only_close_frame = wc_read_state c then
              (if connection_close_frame = m_opcode md then Ws_done (close_impl (c\<lparr>wc_timer_scheduled := False\<rparr>))
               else call Start_read_header c)
            else Ws_undefined)
         else handle_invalid_payload env call validation_result c)"

text \<open>The check of a part of the payload; the last argument is what follows when it is valid.\<close>

definition validate_payload_part ::
    "ws_env \<Rightarrow> ws_caller \<Rightarrow> nat \<Rightarrow> nat \<Rightarrow> nat \<Rightarrow> (ws_conn_t \<Rightarrow> ws_result) \<Rightarrow> ws_conn_t \<Rightarrow> ws_result" where
  "validate_payload_part env call payload_data len next_length_remaining valid c =
     (case process_and_unmask_next_payload_part (take len (drop payload_data (wc_payload c))) (wc_protocol_validator c) of
        Inl e \<Rightarrow> Ws_raised (Parser_or_validator_exn e) c
      | Inr (validation_result, part, validator) \<Rightarrow>
          (let c = c\<lparr>wc_payload := take payload_data (wc_payload c) @ part @ drop (payload_data + len) (wc_payload c),
                     wc_protocol_validator := validator\<rparr>
           in if Payload_part_is_valid \<noteq> validation_result then
                ws_then (handle_invalid_payload env call validation_result c)
                  (\<lambda>c. if Incorrect_utf8_data = validation_result then
                         (let c = c\<lparr>wc_protocol_validator := validator_reset (wc_protocol_validator c)\<rparr>
                          in if 0 = next_length_remaining then call Start_read_header c
                             else Ws_done (start_read_payload (payload_data + len) next_length_remaining False c))
                       else Ws_done c)
              else valid c))"

definition handle_parsed_and_valid_header :: "ws_env \<Rightarrow> ws_caller \<Rightarrow> message_details_t \<Rightarrow> ws_conn_t \<Rightarrow> ws_result" where
  "handle_parsed_and_valid_header env call md c =
     (let payload_length = unat (details_payload_len md)
      in if w_max_size env < payload_length then Ws_raised Payload_too_big c
         else
           (let c = c\<lparr>wc_payload := take payload_length (wc_payload c) @ replicate (payload_length - length (wc_payload c)) 0\<rparr>
            in if payload_length = 0 then call_handler_on_current_message env call c
               else
                 (let payload_part_size = min (fb_ready_length (wc_buf c)) payload_length;
                      part = map byte_of_char (take payload_part_size (buffer_bytes (wc_buf c)));
                      c = c\<lparr>wc_payload := part @ drop payload_part_size (wc_payload c),
                             wc_buf := consumed_bytes payload_part_size (wc_buf c)\<rparr>;
                      length_remaining = payload_length - payload_part_size
                  in validate_payload_part env call 0 payload_part_size length_remaining
                       (\<lambda>c. if 0 = length_remaining then call_handler_on_current_message env call c
                            else Ws_done (start_read_payload payload_part_size length_remaining True c)) c)))"

definition handle_parsed_header :: "ws_env \<Rightarrow> ws_caller \<Rightarrow> message_details_t \<Rightarrow> ws_conn_t \<Rightarrow> ws_result" where
  "handle_parsed_header env call md c =
     (case process_new_frame md (wc_protocol_validator c) of
        Inl e \<Rightarrow> Ws_raised (Parser_or_validator_exn e) c
      | Inr (validation_result, validator) \<Rightarrow>
          (let c = c\<lparr>wc_protocol_validator := validator\<rparr>
           in if Frame_header_is_valid \<noteq> validation_result then
                (if Read_any_frame = wc_read_state c then
                   ws_then (close_frame_to_peer_if_first call (status_code_to_bin protocol_error) (\<lambda>c. c) c)
                     (call_close_handler_if_necessary call protocol_error)
                 else if Read_only_close_frame = wc_read_state c then Ws_done (close_impl c)
                 else Ws_done c)
              else handle_parsed_and_valid_header env call md c))"

definition consume_header_from_buffer :: "ws_env \<Rightarrow> ws_caller \<Rightarrow> string \<Rightarrow> ws_conn_t \<Rightarrow> ws_result" where
  "consume_header_from_buffer env call data c =
     (case parser_execute (wc_parser c) (map byte_of_char data) of
        Inl e \<Rightarrow> Ws_raised (Parser_or_validator_exn e) c
      | Inr (nparsed, parser) \<Rightarrow>
          (let c = c\<lparr>wc_parser := parser, wc_buf := consumed_bytes nparsed (wc_buf c)\<rparr>
           in if header_parsed parser then handle_parsed_header env call (m_current_msg parser) c
              else if nparsed = length data then Ws_done (consume_header_from_socket c)
              else Ws_undefined))"

definition start_read_header :: "ws_env \<Rightarrow> ws_caller \<Rightarrow> ws_conn_t \<Rightarrow> ws_result" where
  "start_read_header env call c =
     (let c = c\<lparr>wc_parser := ws_parser_reset (wc_parser c), wc_payload := []\<rparr>
      in if 0 = fb_ready_length (wc_buf c) then Ws_done (consume_header_from_socket c)
         else consume_header_from_buffer env call (buffer_bytes (wc_buf c)) c)"

subsection \<open>Tying the knot\<close>

fun ws_exec :: "ws_env \<Rightarrow> nat \<Rightarrow> ws_call \<Rightarrow> ws_conn_t \<Rightarrow> ws_result" where
  "ws_exec env 0 m c = Ws_out_of_fuel"
| "ws_exec env (Suc n) (Call_message_handler message) c = call_message_handler env (ws_exec env n) message c"
| "ws_exec env (Suc n) Start_read_header c = start_read_header env (ws_exec env n) c"
| "ws_exec env (Suc n) Handle_current_write c = ws_handle_current_write_ctx env (ws_exec env n) c"

subsection \<open>Events\<close>

definition after_read_header :: "ws_env \<Rightarrow> ws_caller \<Rightarrow> io_error + string \<Rightarrow> ws_conn_t \<Rightarrow> ws_result" where
  "after_read_header env call outcome c =
     (case outcome of
        Inr data \<Rightarrow>
          (let c = c\<lparr>wc_buf := obtained_bytes (length data) (fill_buffer data (wc_buf c))\<rparr>
           in ws_catching (ws_trigger_error_and_close call unexpected_condition)
                (consume_header_from_buffer env call (buffer_bytes (wc_buf c)) c))
      | Inl ec \<Rightarrow> ws_trigger_error_and_close call connection_lost c)"

definition after_read_payload ::
    "ws_env \<Rightarrow> ws_caller \<Rightarrow> nat \<Rightarrow> nat \<Rightarrow> bool \<Rightarrow> io_error + string \<Rightarrow> ws_conn_t \<Rightarrow> ws_result" where
  "after_read_payload env call payload_data length_remaining do_validate outcome c =
     (case outcome of
        Inr data \<Rightarrow>
          (let len = length data;
               c = c\<lparr>wc_payload := take payload_data (wc_payload c) @ map byte_of_char data @ drop (payload_data + len) (wc_payload c)\<rparr>;
               next_length_remaining = length_remaining - len
           in ws_catching (ws_trigger_error_and_close call unexpected_condition)
                (if do_validate then
                   validate_payload_part env call payload_data len next_length_remaining
                     (\<lambda>c. if 0 = next_length_remaining then call_handler_on_current_message env call c
                          else Ws_done (start_read_payload (payload_data + len) next_length_remaining do_validate c)) c
                 else if 0 = next_length_remaining then start_read_header env call c
                 else Ws_done (start_read_payload (payload_data + len) next_length_remaining do_validate c)))
      | Inl ec \<Rightarrow> ws_trigger_error_and_close call connection_lost c)"

definition ws_after_write :: "ws_env \<Rightarrow> ws_caller \<Rightarrow> io_error option \<Rightarrow> ws_conn_t \<Rightarrow> ws_result" where
  "ws_after_write env call outcome c =
     (case outcome of
        None \<Rightarrow> ws_handle_current_write_ctx env call c
      | Some ec \<Rightarrow>
          ws_then (ws_trigger_error_and_close call connection_lost c)
            (\<lambda>c. case fail_write_group (w_throws env) (Write_failed (error_number ec)) (wc_write_output_ctx c) of
                    None \<Rightarrow> Ws_undefined
                  | Some (called, err, output_ctx) \<Rightarrow> Ws_done (ws_notify called (c\<lparr>wc_write_output_ctx := output_ctx\<rparr>))))"

definition ws_check_timeout_impl :: "ws_caller \<Rightarrow> ws_conn_t \<Rightarrow> ws_result" where
  "ws_check_timeout_impl call c =
     (if transmitting (wc_write_output_ctx c) \<and> wc_write_operation_timeout_after c < wc_now c then
        ws_then (call_close_handler_if_necessary call unexpected_condition (c\<lparr>wc_close_frame_to_peer := False\<rparr>))
          (\<lambda>c. Ws_done (close_impl c))
      else if (case wc_close_frame_from_peer_timeout_after c of None \<Rightarrow> False | Some t \<Rightarrow> t < wc_now c) then Ws_done (close_impl c)
      else Ws_done (ws_init_next_timeout_checking c))"

definition ws_check_timeout :: "ws_env \<Rightarrow> nat \<Rightarrow> ws_conn_t \<Rightarrow> ws_result" where
  "ws_check_timeout env fuel c =
     ws_catching (ws_trigger_error_and_close (ws_exec env fuel) unexpected_condition) (ws_check_timeout_impl (ws_exec env fuel) c)"

definition init_read :: "ws_env \<Rightarrow> ws_caller \<Rightarrow> ws_conn_t \<Rightarrow> ws_result" where
  "init_read env call c =
     ws_catching (ws_trigger_error_and_close call unexpected_condition)
       (start_read_header env call
          ((ws_init_next_timeout_checking c)\<lparr>wc_websocket_weak_handle := True, wc_read_state := Read_any_frame, wc_activated := True\<rparr>))"

datatype ws_event =
    Activate
  | Read_completed_ws "io_error + string"
  | Write_completed_ws "io_error option"
  | Raw_write write_group_t
  | User_call ws_user_call
  | Timer_ws

definition ws_read_completed :: "ws_env \<Rightarrow> ws_caller \<Rightarrow> io_error + string \<Rightarrow> ws_conn_t \<Rightarrow> ws_result" where
  "ws_read_completed env call outcome c =
     (let c' = ws_act Ws_read_done (c\<lparr>wc_reading := None\<rparr>)
      in case wc_reading c of
           None \<Rightarrow> Ws_undefined
         | Some Reading_header \<Rightarrow> after_read_header env call outcome c'
         | Some (Reading_payload payload_data length_remaining do_validate) \<Rightarrow>
             after_read_payload env call payload_data length_remaining do_validate outcome c')"

fun ws_handle_event :: "ws_env \<Rightarrow> nat \<Rightarrow> ws_event \<Rightarrow> ws_conn_t \<Rightarrow> ws_result" where
  "ws_handle_event env fuel Activate c = init_read env (ws_exec env fuel) c"
| "ws_handle_event env fuel (Read_completed_ws outcome) c = ws_read_completed env (ws_exec env fuel) outcome c"
| "ws_handle_event env fuel (Write_completed_ws outcome) c =
     ws_catching (ws_trigger_error_and_close (ws_exec env fuel) unexpected_condition)
       (ws_after_write env (ws_exec env fuel) outcome (ws_act Ws_write_done (c\<lparr>wc_write_running := False\<rparr>)))"
| "ws_handle_event env fuel (Raw_write wg) c = write_data env (ws_exec env fuel) wg False c"
| "ws_handle_event env fuel (User_call u) c = user_call env (ws_exec env fuel) u c"
| "ws_handle_event env fuel Timer_ws c = ws_check_timeout env fuel (c\<lparr>wc_timer_scheduled := False\<rparr>)"

text \<open>
  When an event can happen: a read gives at least one byte and at most as many as were asked for; the handle is activated once;
  data that is not a message is written only by \<^verbatim>\<open>upgrade\<close>, with buffers as its items.
\<close>

definition group_ok :: "write_group_t \<Rightarrow> bool" where
  "group_ok wg \<longleftrightarrow> m_items wg \<noteq> [] \<and> list_all (\<lambda>item. write_type item = Trivial_write_operation) (m_items wg)"

fun read_size :: "ws_conn_t \<Rightarrow> nat" where
  "read_size c = (case wc_reading c of
     None \<Rightarrow> 0 | Some Reading_header \<Rightarrow> length (fb_buf (wc_buf c)) | Some (Reading_payload _ length_remaining _) \<Rightarrow> length_remaining)"

fun ws_event_possible :: "ws_event \<Rightarrow> ws_conn_t \<Rightarrow> bool" where
  "ws_event_possible Activate c \<longleftrightarrow> \<not> wc_activated c \<and> wc_connected c"
| "ws_event_possible (Read_completed_ws (Inr data)) c \<longleftrightarrow> wc_reading c \<noteq> None \<and> data \<noteq> [] \<and> length data \<le> read_size c"
| "ws_event_possible (Read_completed_ws (Inl ec)) c \<longleftrightarrow> wc_reading c \<noteq> None"
| "ws_event_possible (Write_completed_ws outcome) c \<longleftrightarrow> wc_write_running c"
| "ws_event_possible (Raw_write wg) c \<longleftrightarrow> group_ok wg"
| "ws_event_possible _ c \<longleftrightarrow> True"

inductive ws_reach :: "ws_env \<Rightarrow> ws_conn_t \<Rightarrow> bool" for env where
  ws_started: "ws_reach env (ws_connection now)"
| ws_event: "\<lbrakk>ws_reach env c; wc_now c \<le> now; ws_event_possible e (c\<lparr>wc_now := now\<rparr>);
     websocket_header_max_size + 4 \<le> fuel; ws_handle_event env fuel e (c\<lparr>wc_now := now\<rparr>) = Ws_done c'\<rbrakk> \<Longrightarrow> ws_reach env c'"

subsection \<open>Reading the trace\<close>

fun ws_read_step :: "bool option \<Rightarrow> ws_action \<Rightarrow> bool option" where
  "ws_read_step b (Ws_start_read n) = (if b = Some False then Some True else None)"
| "ws_read_step b Ws_read_done = (if b = Some True then Some False else None)"
| "ws_read_step b a = b"

fun ws_write_step :: "bool option \<Rightarrow> ws_action \<Rightarrow> bool option" where
  "ws_write_step b (Ws_start_write bufs) = (if b = Some False then Some True else None)"
| "ws_write_step b Ws_write_done = (if b = Some True then Some False else None)"
| "ws_write_step b a = b"

definition ws_reads :: "ws_action list \<Rightarrow> bool option" where
  "ws_reads tr = foldl ws_read_step (Some False) tr"

definition ws_writes :: "ws_action list \<Rightarrow> bool option" where
  "ws_writes tr = foldl ws_write_step (Some False) tr"

fun ws_pieces :: "ws_action \<Rightarrow> piece list" where
  "ws_pieces (Ws_start_write bufs) = map Bytes bufs"
| "ws_pieces a = []"

definition ws_wire :: "ws_action list \<Rightarrow> piece list" where
  "ws_wire tr = concat (map ws_pieces tr)"

fun ws_group :: "ws_action \<Rightarrow> (write_group_t \<times> bool) list" where
  "ws_group (Ws_accepted wg is_close_frame) = [(wg, is_close_frame)]"
| "ws_group a = []"

text \<open>The groups that were accepted for writing, with the mark of close frames, and the messages the handler was called with.\<close>

definition accepted :: "ws_action list \<Rightarrow> (write_group_t \<times> bool) list" where
  "accepted tr = concat (map ws_group tr)"

fun ws_message :: "ws_action \<Rightarrow> ws_message_t list" where
  "ws_message (Ws_handler_called m) = [m]"
| "ws_message a = []"

definition delivered :: "ws_action list \<Rightarrow> ws_message_t list" where
  "delivered tr = concat (map ws_message tr)"

definition group_pieces :: "write_group_t \<Rightarrow> piece list" where
  "group_pieces wg = map item_piece (m_items wg)"

definition is_close :: "ws_message_t \<Rightarrow> bool" where
  "is_close m \<longleftrightarrow> wm_opcode m = connection_close_frame"

text \<open>No element but the last has the property.\<close>

definition only_last :: "('a \<Rightarrow> bool) \<Rightarrow> 'a list \<Rightarrow> bool" where
  "only_last P xs \<longleftrightarrow> list_all (\<lambda>x. \<not> P x) (butlast xs)"

section \<open>The invariant\<close>

definition told :: "ws_conn_t \<Rightarrow> bool" where
  "told c \<longleftrightarrow> list_ex is_close (delivered (wc_trace c))"

definition output_ok :: "write_group_output_ctx_t \<Rightarrow> bool" where
  "output_ok w \<longleftrightarrow> pred_option group_ok (m_current_wg w)"

definition write_inv :: "ws_conn_t \<Rightarrow> bool" where
  "write_inv c \<longleftrightarrow>
     ws_writes (wc_trace c) = Some (wc_write_running c) \<and>
     (wc_write_running c \<longrightarrow> transmitting (wc_write_output_ctx c)) \<and>
     list_all group_ok (wc_outgoing_data c) \<and>
     output_ok (wc_write_output_ctx c) \<and>
     (wc_socket_open c \<and> \<not> transmitting (wc_write_output_ctx c) \<longrightarrow> m_next_writable_item_index (wc_write_output_ctx c) = 0)"

definition ws_order_inv :: "ws_conn_t \<Rightarrow> bool" where
  "ws_order_inv c \<longleftrightarrow> (wc_socket_open c \<longrightarrow>
     ws_wire (wc_trace c) @ rest_pieces (wc_write_output_ctx c) @ concat (map group_pieces (wc_outgoing_data c)) =
       concat (map (group_pieces \<circ> fst) (accepted (wc_trace c))))"

definition close_inv :: "ws_conn_t \<Rightarrow> bool" where
  "close_inv c \<longleftrightarrow>
     only_last snd (accepted (wc_trace c)) \<and>
     (wc_write_state c = Write_enabled \<longrightarrow> list_all (\<lambda>a. \<not> snd a) (accepted (wc_trace c))) \<and>
     (wc_close_frame_to_peer c \<longrightarrow> wc_write_state c = Write_enabled) \<and>
     (wc_socket_open c \<and> wc_activated c \<and> wc_write_state c = Write_enabled \<longrightarrow> wc_read_state c \<noteq> Read_nothing) \<and>
     (wc_socket_open c \<longleftrightarrow> wc_close_impl c) \<and> (wc_close_frame_to_user c \<longrightarrow> wc_socket_open c) \<and>
     (wc_activated c \<and> wc_read_state c = Read_nothing \<longrightarrow> \<not> wc_close_frame_to_peer c)"

definition read_inv :: "ws_conn_t \<Rightarrow> bool" where
  "read_inv c \<longleftrightarrow>
     ws_reads (wc_trace c) = Some (wc_reading c \<noteq> None) \<and>
     (wc_reading c \<noteq> None \<longrightarrow> wc_activated c \<and> wc_read_state c \<noteq> Read_nothing) \<and>
     (wc_socket_open c \<longrightarrow> only_last is_close (delivered (wc_trace c)) \<and> (wc_close_frame_to_user c \<longrightarrow> \<not> told c))"

definition ws_inv0 :: "ws_conn_t \<Rightarrow> bool" where
  "ws_inv0 c \<longleftrightarrow> write_inv c \<and> ws_order_inv c \<and> close_inv c \<and> read_inv c"

definition guard_inv :: "ws_conn_t \<Rightarrow> bool" where
  "guard_inv c \<longleftrightarrow>
     (wc_read_state c = Read_only_close_frame \<or> wc_close_frame_from_peer_timeout_after c \<noteq> None \<longrightarrow> \<not> wc_close_frame_to_user c)"

lemmas ws_inv_defs = ws_inv0_def write_inv_def ws_order_inv_def close_inv_def read_inv_def told_def

lemma ws_trace_append [simp]:
  "ws_reads (tr @ tr') = foldl ws_read_step (ws_reads tr) tr'" "ws_writes (tr @ tr') = foldl ws_write_step (ws_writes tr) tr'"
  "ws_wire (tr @ tr') = ws_wire tr @ ws_wire tr'" "accepted (tr @ tr') = accepted tr @ accepted tr'"
  "delivered (tr @ tr') = delivered tr @ delivered tr'"
  by (simp_all add: ws_reads_def ws_writes_def ws_wire_def accepted_def delivered_def)

lemma ws_trace_Cons [simp]:
  "ws_wire (a # tr) = ws_pieces a @ ws_wire tr" "accepted (a # tr) = ws_group a @ accepted tr"
  "delivered (a # tr) = ws_message a @ delivered tr" "ws_wire [] = []" "accepted [] = []" "delivered [] = []"
  by (simp_all add: ws_wire_def accepted_def delivered_def)

lemma ws_trace_called [simp]:
  "foldl ws_read_step b (map Ws_called ns) = b" "foldl ws_write_step b (map Ws_called ns) = b"
  "ws_wire (map Ws_called ns) = []" "accepted (map Ws_called ns) = []" "delivered (map Ws_called ns) = []"
  by (induction ns; simp)+

lemma ws_notify_inv [simp]: "ws_inv0 (ws_notify ns c) = ws_inv0 c" "told (ws_notify ns c) = told c"
  by (simp_all add: ws_notify_def ws_inv_defs)

lemma only_last_append: "list_all (\<lambda>x. \<not> P x) xs \<Longrightarrow> only_last P (xs @ [x])"
  by (simp add: only_last_def)

section \<open>What the calls of the user keep\<close>

definition ws_ends :: "(ws_conn_t \<Rightarrow> bool) \<Rightarrow> ws_result \<Rightarrow> bool" where
  "ws_ends P r \<longleftrightarrow> (case r of Ws_done c \<Rightarrow> P c | _ \<Rightarrow> False)"

lemma ws_ends_simps [simp]: "ws_ends P (Ws_done c) = P c" "\<not> ws_ends P (Ws_raised e c)" "\<not> ws_ends P Ws_undefined" "\<not> ws_ends P Ws_out_of_fuel"
  by (simp_all add: ws_ends_def)

lemma ws_ends_then: "ws_ends P r \<Longrightarrow> (\<And>c. P c \<Longrightarrow> ws_ends Q (f c)) \<Longrightarrow> ws_ends Q (ws_then r f)"
  by (cases r) (simp_all add: ws_then_def)

lemma ws_ends_catching: "ws_ends P r \<Longrightarrow> ws_ends P (ws_catching f r)"
  by (cases r) (simp_all add: ws_catching_def)

lemma ws_ends_mono: "ws_ends P r \<Longrightarrow> (\<And>c. P c \<Longrightarrow> Q c) \<Longrightarrow> ws_ends Q r"
  by (cases r) simp_all

text \<open>The parts of the state that no call of the user touches.\<close>

definition same_read :: "ws_conn_t \<Rightarrow> ws_conn_t \<Rightarrow> bool" where
  "same_read c c' \<longleftrightarrow>
     wc_parser c' = wc_parser c \<and> wc_buf c' = wc_buf c \<and> wc_payload c' = wc_payload c \<and>
     wc_protocol_validator c' = wc_protocol_validator c \<and> wc_reading c' = wc_reading c \<and> wc_activated c' = wc_activated c \<and>
     delivered (wc_trace c') = delivered (wc_trace c) \<and> wc_now c' = wc_now c"

definition state_step :: "bool \<Rightarrow> read_state_t \<Rightarrow> read_state_t \<Rightarrow> bool" where
  "state_step activated s s' \<longleftrightarrow> s' = s \<or> s' = Read_only_close_frame \<and> (activated \<longrightarrow> s \<noteq> Read_nothing)"

lemma state_step_trans: "state_step b s s' \<Longrightarrow> state_step b s' s'' \<Longrightarrow> state_step b s s''"
  by (auto simp: state_step_def)

definition keeps :: "ws_conn_t \<Rightarrow> ws_conn_t \<Rightarrow> bool" where
  "keeps c c' \<longleftrightarrow>
     ws_inv0 c' \<and> same_read c c' \<and> (wc_socket_open c' \<longrightarrow> wc_socket_open c) \<and>
     (transmitting (wc_write_output_ctx c) \<longrightarrow> transmitting (wc_write_output_ctx c') \<and> wc_write_running c' = wc_write_running c) \<and>
     state_step (wc_activated c) (wc_read_state c) (wc_read_state c') \<and>
     (wc_close_frame_to_user c' \<longrightarrow> wc_close_frame_to_user c) \<and> (guard_inv c \<longrightarrow> guard_inv c') \<and>
     (wc_websocket_weak_handle c' \<longrightarrow> wc_websocket_weak_handle c) \<and>
     (wc_connected c' \<longrightarrow> wc_connected c \<and> (wc_activated c \<or> wc_read_state c' = wc_read_state c))"

lemma keeps_refl: "ws_inv0 c \<Longrightarrow> keeps c c"
  by (simp add: keeps_def same_read_def state_step_def)

lemma same_read_trans: "same_read c d \<Longrightarrow> same_read d e \<Longrightarrow> same_read c e"
  unfolding same_read_def by (elim conjE) (intro conjI; erule (1) trans)

lemma keeps_trans:
  assumes "keeps c d" "keeps d e"
  shows "keeps c e"
proof -
  note cd = assms(1) [unfolded keeps_def] and de = assms(2) [unfolded keeps_def]
  have act: "wc_activated d = wc_activated c" using cd by (simp add: same_read_def)
  then have "state_step (wc_activated c) (wc_read_state d) (wc_read_state e)" using de by simp
  then have step: "state_step (wc_activated c) (wc_read_state c) (wc_read_state e)" using cd state_step_trans by blast
  have same: "same_read c e" using cd de same_read_trans by blast
  have "wc_connected c \<and> (wc_activated c \<or> wc_read_state e = wc_read_state c)" if "wc_connected e"
  proof -
    from that de act have "wc_connected d" "wc_activated c \<or> wc_read_state e = wc_read_state d" by simp_all
    with cd show ?thesis by auto
  qed
  with step same cd de show ?thesis unfolding keeps_def by blast
qed

subsection \<open>Writing\<close>

text \<open>A step that only writes.\<close>

definition write_only :: "ws_conn_t \<Rightarrow> ws_conn_t \<Rightarrow> bool" where
  "write_only c c' \<longleftrightarrow>
     write_inv c' \<and> ws_order_inv c' \<and> (transmitting (wc_write_output_ctx c) \<longrightarrow> transmitting (wc_write_output_ctx c')) \<and>
     same_read c c' \<and> wc_read_state c' = wc_read_state c \<and> wc_socket_open c' = wc_socket_open c \<and>
     wc_close_frame_to_user c' = wc_close_frame_to_user c \<and> wc_close_frame_to_peer c' = wc_close_frame_to_peer c \<and>
     wc_close_impl c' = wc_close_impl c \<and> wc_write_state c' = wc_write_state c \<and> wc_connected c' = wc_connected c \<and>
     wc_close_frame_from_peer_timeout_after c' = wc_close_frame_from_peer_timeout_after c \<and>
     wc_websocket_weak_handle c' = wc_websocket_weak_handle c \<and>
     accepted (wc_trace c') = accepted (wc_trace c) \<and> ws_reads (wc_trace c') = ws_reads (wc_trace c)"

lemma write_only_inv:
  assumes "write_only c c'"
  shows "close_inv c' = close_inv c" "read_inv c' = read_inv c" "told c' = told c"
  using assms by (simp_all add: write_only_def same_read_def close_inv_def read_inv_def told_def)

text \<open>A write that is under way is left alone.\<close>

definition undisturbed :: "ws_conn_t \<Rightarrow> ws_conn_t \<Rightarrow> bool" where
  "undisturbed c c' \<longleftrightarrow> (transmitting (wc_write_output_ctx c) \<longrightarrow> wc_write_running c' = wc_write_running c)"

lemma write_only_keeps: "write_only c c' \<Longrightarrow> undisturbed c c' \<Longrightarrow> ws_inv0 c \<Longrightarrow> keeps c c'"
  using write_only_inv [of c c'] by (simp add: keeps_def ws_inv0_def write_only_def state_step_def guard_inv_def undisturbed_def)

lemma extract_trivial:
  assumes "m_current_wg w = Some wg" "group_ok wg" "0 < max_len" "rest_pieces w \<noteq> []"
  obtains bufs total_size w' where "extract_next_write_operation max_len w = Some (Trivial_buffers bufs total_size, w')"
    "rest_pieces w = map Bytes bufs @ rest_pieces w'" "m_current_wg w' = Some wg"
proof -
  obtain wo w' where wo: "extract_next_write_operation max_len w = Some (wo, w')" "rest_pieces w = operation_pieces wo @ rest_pieces w'"
    "m_current_wg w' = Some wg" "wo \<noteq> None_write_operation"
    using extract_takes [OF assms(1,3)] assms(4) by metis
  have "File_range sf \<notin> set (rest_pieces w)" for sf
  proof -
    have "item_piece item \<noteq> File_range sf" if "write_type item = Trivial_write_operation" for item
      using that by (cases item) (simp_all add: write_type_def)
    then show ?thesis using assms(1,2) by (fastforce simp: rest_pieces_def group_ok_def list_all_iff dest: in_set_dropD)
  qed
  with wo that show thesis by (cases wo) auto
qed

lemma max_iov_len_pos: "0 < n \<Longrightarrow> 0 < max_iov_len n"
  by (simp add: max_iov_len_def)

text \<open>A group is under way: its next operation starts.\<close>

lemma handle_current_starts:
  assumes "0 < w_max_iov_len env" "m_current_wg (wc_write_output_ctx c) = Some wg" "group_ok wg"
    "rest_pieces (wc_write_output_ctx c) \<noteq> []" "\<not> wc_write_running c" "write_inv c" "ws_order_inv c"
  shows "ws_ends (write_only c) (ws_handle_current_write_ctx env call c)"
proof -
  obtain bufs total_size w where ex: "extract_next_write_operation (max_iov_len (w_max_iov_len env)) (wc_write_output_ctx c) =
      Some (Trivial_buffers bufs total_size, w)" "rest_pieces (wc_write_output_ctx c) = map Bytes bufs @ rest_pieces w" "m_current_wg w = Some wg"
    using extract_trivial [OF assms(2,3) max_iov_len_pos [OF assms(1)] assms(4)] .
  show ?thesis unfolding ws_handle_current_write_ctx_def ex(1)
    using assms ex(2,3)
    by (simp add: ws_catching_def ws_handle_trivial_write_operation_def ws_guard_write_operation_def ws_act_def write_only_def same_read_def
        write_inv_def ws_order_inv_def output_ok_def transmitting_def)
qed

lemma write_only_refl: "write_inv c \<Longrightarrow> ws_order_inv c \<Longrightarrow> write_only c c"
  by (simp add: write_only_def same_read_def)

definition group_taken :: "ws_conn_t \<Rightarrow> write_group_t \<Rightarrow> write_group_t list \<Rightarrow> ws_conn_t" where
  "group_taken c wg wgs = c\<lparr>wc_outgoing_data := wgs, wc_write_output_ctx := (wc_write_output_ctx c)\<lparr>m_current_wg := Some wg\<rparr>\<rparr>"

lemma group_taken_inv:
  assumes "write_inv c" "ws_order_inv c" "\<not> transmitting (wc_write_output_ctx c)" "wc_outgoing_data c = wg # wgs"
  shows "write_inv (group_taken c wg wgs)" "ws_order_inv (group_taken c wg wgs)" "group_ok wg"
    "write_only (group_taken c wg wgs) c' \<Longrightarrow> write_only c c'"
proof -
  show "group_ok wg" "write_inv (group_taken c wg wgs)"
    using assms by (auto simp: group_taken_def write_inv_def output_ok_def transmitting_def)
  have "rest_pieces (wc_write_output_ctx c) = []" using assms(3) by (simp add: rest_pieces_def transmitting_def)
  moreover have "rest_pieces ((wc_write_output_ctx c)\<lparr>m_current_wg := Some wg\<rparr>) = group_pieces wg" if "wc_socket_open c"
    using assms(1,3) that by (simp add: rest_pieces_def group_pieces_def write_inv_def)
  ultimately show "ws_order_inv (group_taken c wg wgs)"
    using assms(2,4) by (simp add: group_taken_def ws_order_inv_def)
  show "write_only (group_taken c wg wgs) c' \<Longrightarrow> write_only c c'"
    using assms(3) by (simp add: write_only_def group_taken_def same_read_def transmitting_def)
qed

lemma init_write_taken:
  assumes "\<not> transmitting (wc_write_output_ctx c)" "wc_outgoing_data c = wg # wgs"
  shows "ws_init_write call c = call Handle_current_write (group_taken c wg wgs)"
  using assms by (simp add: ws_init_write_def outgoing_pop_ready_buffers_def start_next_write_group_def transmitting_def ws_notify_def group_taken_def)

lemma init_write_index_zero:
  assumes "0 < w_max_iov_len env" "write_inv c" "ws_order_inv c" "m_next_writable_item_index (wc_write_output_ctx c) = 0"
  shows "ws_ends (write_only c) (ws_init_write_if_necessary (ws_exec env (Suc n)) c)"
proof (cases "transmitting (wc_write_output_ctx c)")
  case True
  with write_only_refl [OF assms(2,3)] show ?thesis by (simp add: ws_init_write_if_necessary_def)
next
  case idle: False
  show ?thesis
  proof (cases "wc_outgoing_data c")
    case Nil
    with idle write_only_refl [OF assms(2,3)] show ?thesis
      by (simp add: ws_init_write_if_necessary_def ws_init_write_def outgoing_pop_ready_buffers_def)
  next
    case (Cons wg wgs)
    note taken = group_taken_inv [OF assms(2,3) idle Cons]
    have "rest_pieces (wc_write_output_ctx (group_taken c wg wgs)) \<noteq> []"
      using assms(4) taken(3) by (simp add: group_taken_def rest_pieces_def group_ok_def)
    moreover have "m_current_wg (wc_write_output_ctx (group_taken c wg wgs)) = Some wg" by (simp add: group_taken_def)
    moreover have "\<not> wc_write_running (group_taken c wg wgs)" using idle assms(2) by (auto simp: group_taken_def write_inv_def)
    ultimately have "ws_ends (write_only (group_taken c wg wgs)) (ws_handle_current_write_ctx env (ws_exec env n) (group_taken c wg wgs))"
      using handle_current_starts [OF assms(1) _ taken(3)] taken(1,2) by blast
    then have "ws_ends (write_only c) (ws_handle_current_write_ctx env (ws_exec env n) (group_taken c wg wgs))"
      by (rule ws_ends_mono) (rule taken(4))
    with idle show ?thesis by (simp add: ws_init_write_if_necessary_def init_write_taken [OF idle Cons])
  qed
qed

text \<open>Finishing a group.\<close>

lemma finish_write_group_ends:
  assumes "m_current_wg w = Some wg"
  obtains called err w' where "finish_write_group throws w = Some (called, err, w')" "m_current_wg w' = None" "m_next_writable_item_index w' = 0"
proof -
  obtain called wg' where inv: "invoke_after_write_notificator_if_exists Write_ok wg = (called, wg')" by fastforce
  show thesis
  proof (cases "list_ex throws called")
    case True
    then show ?thesis by - (rule that, simp add: assms inv finish_write_group_def invoke_after_write_notificator_if_necessary_def
          reset_write_group_def Let_def, simp, simp)
  next
    case False
    then show ?thesis by - (rule that, simp add: assms inv finish_write_group_def invoke_after_write_notificator_if_necessary_def
          reset_write_group_def Let_def, simp, simp)
  qed
qed

lemma init_write_only:
  assumes "0 < w_max_iov_len env" "write_inv c" "ws_order_inv c" "wc_socket_open c \<or> \<not> wc_close_frame_to_user c \<and> \<not> wc_close_impl c"
  shows "ws_ends (write_only c) (ws_init_write_if_necessary (ws_exec env (Suc (Suc n))) c)"
proof (cases "m_next_writable_item_index (wc_write_output_ctx c) = 0 \<or> transmitting (wc_write_output_ctx c) \<or> wc_outgoing_data c = []")
  case True
  then show ?thesis
    using init_write_index_zero [OF assms(1-3)] write_only_refl [OF assms(2,3)]
    by (auto simp: ws_init_write_if_necessary_def ws_init_write_def outgoing_pop_ready_buffers_def)
next
  case False
  then obtain wg wgs where idle: "\<not> transmitting (wc_write_output_ctx c)" and Cons: "wc_outgoing_data c = wg # wgs"
    by (cases "wc_outgoing_data c") auto
  note taken = group_taken_inv [OF assms(2,3) idle Cons]
  let ?d = "group_taken c wg wgs"
  have closed: "\<not> wc_socket_open c" using False assms(2) by (auto simp: write_inv_def)
  have cur: "m_current_wg (wc_write_output_ctx ?d) = Some wg" by (simp add: group_taken_def)
  have run: "\<not> wc_write_running ?d" using idle assms(2) by (auto simp: group_taken_def write_inv_def)
  have "ws_ends (write_only c) (ws_handle_current_write_ctx env (ws_exec env (Suc n)) ?d)"
  proof (cases "rest_pieces (wc_write_output_ctx ?d) = []")
    case False
    then have "ws_ends (write_only ?d) (ws_handle_current_write_ctx env (ws_exec env (Suc n)) ?d)"
      using handle_current_starts [OF assms(1) cur taken(3) _ run taken(1,2)] by blast
    then show ?thesis by (rule ws_ends_mono) (rule taken(4))
  next
    case True
    obtain called err w where fin: "finish_write_group (w_throws env) (wc_write_output_ctx ?d) = Some (called, err, w)"
      "m_current_wg w = None" "m_next_writable_item_index w = 0"
      using finish_write_group_ends [OF cur] by metis
    have ex: "extract_next_write_operation (max_iov_len (w_max_iov_len env)) (wc_write_output_ctx ?d) = Some (None_write_operation, wc_write_output_ctx ?d)"
      using True cur by (auto simp: extract_next_write_operation_def rest_pieces_def)
    let ?e = "ws_notify called (?d\<lparr>wc_write_output_ctx := w\<rparr>)"
    have e: "write_inv ?e" "ws_order_inv ?e" "m_next_writable_item_index (wc_write_output_ctx ?e) = 0"
      using taken(1) run closed fin(2,3)
      by (simp_all add: write_inv_def ws_order_inv_def output_ok_def ws_notify_def group_taken_def)
    have ce: "write_only c c'" if "write_only ?e c'" for c'
      using that idle by (simp add: write_only_def group_taken_def same_read_def ws_notify_def)
    show ?thesis
    proof (cases err)
      case None
      have "ws_ends (write_only c) (ws_init_write_if_necessary (ws_exec env (Suc n)) ?e)"
        by (rule ws_ends_mono [OF init_write_index_zero [OF assms(1) e]]) (rule ce)
      with None show ?thesis
        by (simp add: ws_handle_current_write_ctx_def ex ws_finish_handling_current_write_ctx_def fin ws_ends_catching del: ws_exec.simps)
    next
      case (Some x)
      have "\<not> wc_close_frame_to_user ?e" "\<not> wc_close_impl ?e" using closed assms(4) by (simp_all add: ws_notify_def group_taken_def)
      with ce [OF write_only_refl [OF e(1,2)]] Some show ?thesis
        by (simp add: ws_handle_current_write_ctx_def ex ws_finish_handling_current_write_ctx_def fin ws_catching_def
            ws_trigger_error_and_close_def call_close_handler_if_necessary_def ws_then_def close_impl_def)
    qed
  qed
  with idle show ?thesis by (simp add: ws_init_write_if_necessary_def init_write_taken [OF idle Cons])
qed

lemma init_write_if_necessary_ok:
  assumes "0 < w_max_iov_len env" "write_inv c" "ws_order_inv c" "wc_socket_open c \<or> \<not> wc_close_frame_to_user c \<and> \<not> wc_close_impl c"
  shows "ws_ends (\<lambda>d. write_only c d \<and> undisturbed c d) (ws_init_write_if_necessary (ws_exec env (Suc (Suc n))) c)"
proof (cases "transmitting (wc_write_output_ctx c)")
  case True
  with write_only_refl [OF assms(2,3)] show ?thesis by (simp add: ws_init_write_if_necessary_def undisturbed_def)
next
  case False
  show ?thesis by (rule ws_ends_mono [OF init_write_only [OF assms]]) (simp add: undisturbed_def False)
qed

subsection \<open>Close frames\<close>

lemma close_inv_open: "close_inv c \<Longrightarrow> wc_socket_open c \<or> \<not> wc_close_frame_to_user c \<and> \<not> wc_close_impl c"
  by (auto simp: close_inv_def)

lemma outgoing_append_inv:
  assumes "write_inv c" "ws_order_inv c" "group_ok wg"
  shows "write_inv (outgoing_append wg b c)" "ws_order_inv (outgoing_append wg b c)"
  using assms by (simp_all add: outgoing_append_def ws_act_def write_inv_def ws_order_inv_def)

lemma close_frame_group_ok: "group_ok (close_frame_group payload)"
  by (simp add: group_ok_def close_frame_group_def write_group_def write_type_def)

lemma send_close_ok:
  assumes "0 < w_max_iov_len env" "ws_inv0 c" "wc_close_frame_to_peer c"
  shows "ws_ends (\<lambda>c'. keeps c c' \<and> wc_read_state c' = wc_read_state c \<and> \<not> wc_close_frame_to_peer c' \<and>
      wc_close_frame_to_user c' = wc_close_frame_to_user c \<and> wc_connected c' = wc_connected c \<and>
      wc_close_frame_from_peer_timeout_after c' = wc_close_frame_from_peer_timeout_after c \<and> wc_socket_open c' = wc_socket_open c \<and>
      wc_write_state c' = Write_disabled)
    (send_close_frame_to_peer (ws_exec env (Suc (Suc n))) payload (c\<lparr>wc_close_frame_to_peer := False\<rparr>))"
proof -
  let ?c = "outgoing_append (close_frame_group payload) True (c\<lparr>wc_close_frame_to_peer := False\<rparr>)"
  have inv: "write_inv ?c" "ws_order_inv ?c"
    using assms(2) by (intro outgoing_append_inv close_frame_group_ok; simp add: ws_inv0_def write_inv_def ws_order_inv_def)+
  have "close_inv c" using assms(2) by (simp add: ws_inv0_def)
  then have "wc_socket_open ?c \<or> \<not> wc_close_frame_to_user ?c \<and> \<not> wc_close_impl ?c"
    using close_inv_open [of c] by (simp add: outgoing_append_def ws_act_def)
  from init_write_if_necessary_ok [OF assms(1) inv this, of n] show ?thesis
    unfolding send_close_frame_to_peer_def
  proof (rule ws_ends_then)
    fix d
    assume "write_only ?c d \<and> undisturbed ?c d"
    note d = this [unfolded write_only_def]
    let ?d = "d\<lparr>wc_write_state := Write_disabled\<rparr>"
    have acc: "accepted (wc_trace d) = accepted (wc_trace c) @ [(close_frame_group payload, True)]"
      and same: "same_read c d" and reads: "ws_reads (wc_trace d) = ws_reads (wc_trace c)"
      using d by (simp_all add: outgoing_append_def ws_act_def same_read_def)
    have flags: "wc_read_state d = wc_read_state c" "wc_socket_open d = wc_socket_open c" "wc_close_frame_to_user d = wc_close_frame_to_user c"
      "\<not> wc_close_frame_to_peer d" "wc_close_impl d = wc_close_impl c" "wc_connected d = wc_connected c"
      "wc_close_frame_from_peer_timeout_after d = wc_close_frame_from_peer_timeout_after c"
      "wc_websocket_weak_handle d = wc_websocket_weak_handle c"
      "transmitting (wc_write_output_ctx c) \<longrightarrow> transmitting (wc_write_output_ctx d) \<and> wc_write_running d = wc_write_running c"
      using d by (simp_all add: outgoing_append_def ws_act_def undisturbed_def)
    have "write_inv ?d" "ws_order_inv ?d" using d by (simp_all add: write_inv_def ws_order_inv_def)
    moreover have "close_inv ?d"
      using assms(2,3) acc flags same by (auto simp: ws_inv0_def close_inv_def only_last_append same_read_def)
    moreover have "read_inv ?d"
      using assms(2) flags same reads by (simp add: ws_inv0_def read_inv_def told_def same_read_def)
    ultimately show "ws_ends (\<lambda>c'. keeps c c' \<and> wc_read_state c' = wc_read_state c \<and> \<not> wc_close_frame_to_peer c' \<and>
      wc_close_frame_to_user c' = wc_close_frame_to_user c \<and> wc_connected c' = wc_connected c \<and>
      wc_close_frame_from_peer_timeout_after c' = wc_close_frame_from_peer_timeout_after c \<and> wc_socket_open c' = wc_socket_open c \<and>
      wc_write_state c' = Write_disabled)
      (Ws_done ?d)"
      using flags same by (simp add: keeps_def ws_inv0_def same_read_def state_step_def guard_inv_def)
  qed
qed

lemma start_waiting_keeps:
  assumes "ws_inv0 c" "wc_activated c \<longrightarrow> wc_read_state c \<noteq> Read_nothing" "wc_activated c \<or> \<not> wc_connected c"
  shows "keeps c ((start_waiting_close_frame_only env c)\<lparr>wc_close_frame_to_user := False\<rparr>)"
    "\<not> wc_close_frame_to_user c \<Longrightarrow> keeps c (start_waiting_close_frame_only env c)"
  using assms
  by (auto simp: keeps_def same_read_def state_step_def start_waiting_close_frame_only_def guard_close_frame_from_peer_operation_def
      ws_inv_defs output_ok_def guard_inv_def)

lemma close_frame_to_peer_ok:
  assumes "0 < w_max_iov_len env" "ws_inv0 c"
  shows "ws_ends (\<lambda>c'. keeps c c' \<and> wc_read_state c' = wc_read_state c \<and> \<not> wc_close_frame_to_peer c' \<and>
      wc_close_frame_to_user c' = wc_close_frame_to_user c \<and> wc_connected c' = wc_connected c \<and>
      wc_close_frame_from_peer_timeout_after c' = wc_close_frame_from_peer_timeout_after c \<and> wc_socket_open c' = wc_socket_open c \<and>
      (wc_close_frame_to_peer c \<longrightarrow> wc_write_state c' = Write_disabled))
    (close_frame_to_peer_if_first (ws_exec env (Suc (Suc n))) payload (\<lambda>c. c) c)"
proof (cases "wc_close_frame_to_peer c")
  case True
  have "ws_then r Ws_done = r" for r by (cases r) (simp_all add: ws_then_def)
  with True send_close_ok [OF assms True, of n payload] show ?thesis by (simp add: close_frame_to_peer_if_first_def)
next
  case False
  with keeps_refl [OF assms(2)] show ?thesis by (simp add: close_frame_to_peer_if_first_def)
qed

lemma close_frame_and_wait_ok:
  assumes "0 < w_max_iov_len env" "ws_inv0 c" "wc_activated c \<or> \<not> wc_connected c" "\<not> wc_close_frame_to_user c"
  shows "ws_ends (\<lambda>c'. keeps c c' \<and> (if wc_close_frame_to_peer c then wc_read_state c' = Read_only_close_frame else c' = c) \<and>
      wc_close_frame_to_user c' = wc_close_frame_to_user c \<and> wc_socket_open c' = wc_socket_open c)
    (close_frame_to_peer_if_first (ws_exec env (Suc (Suc n))) payload (start_waiting_close_frame_only env) c)"
proof (cases "wc_close_frame_to_peer c")
  case True
  with assms(2) have stage: "wc_activated c \<longrightarrow> wc_read_state c \<noteq> Read_nothing" by (auto simp: ws_inv0_def close_inv_def)
  have "ws_ends (\<lambda>c'. keeps c c' \<and> wc_read_state c' = Read_only_close_frame \<and>
      wc_close_frame_to_user c' = wc_close_frame_to_user c \<and> wc_socket_open c' = wc_socket_open c)
    (ws_then (send_close_frame_to_peer (ws_exec env (Suc (Suc n))) payload (c\<lparr>wc_close_frame_to_peer := False\<rparr>))
      (\<lambda>c. Ws_done (start_waiting_close_frame_only env c)))"
  proof (rule ws_ends_then [OF send_close_ok [OF assms(1,2) True]])
    fix d
    assume d: "keeps c d \<and> wc_read_state d = wc_read_state c \<and> \<not> wc_close_frame_to_peer d \<and>
      wc_close_frame_to_user d = wc_close_frame_to_user c \<and> wc_connected d = wc_connected c \<and>
      wc_close_frame_from_peer_timeout_after d = wc_close_frame_from_peer_timeout_after c \<and> wc_socket_open d = wc_socket_open c \<and>
      wc_write_state d = Write_disabled"
    then have act: "wc_activated d = wc_activated c" and inv: "ws_inv0 d" by (simp_all add: keeps_def same_read_def)
    have "wc_activated d \<longrightarrow> wc_read_state d \<noteq> Read_nothing" "wc_activated d \<or> \<not> wc_connected d"
      using d act stage assms(3) by simp_all
    with inv have "keeps d (start_waiting_close_frame_only env d)" by (rule start_waiting_keeps) (use d assms(4) in simp)
    with d keeps_trans have "keeps c (start_waiting_close_frame_only env d)" by blast
    with d show "ws_ends (\<lambda>c'. keeps c c' \<and> wc_read_state c' = Read_only_close_frame \<and>
      wc_close_frame_to_user c' = wc_close_frame_to_user c \<and> wc_socket_open c' = wc_socket_open c)
      (Ws_done (start_waiting_close_frame_only env d))"
      by (simp add: start_waiting_close_frame_only_def guard_close_frame_from_peer_operation_def)
  qed
  with True show ?thesis by (simp add: close_frame_to_peer_if_first_def)
next
  case False
  with keeps_refl [OF assms(2)] show ?thesis by (simp add: close_frame_to_peer_if_first_def)
qed

subsection \<open>Calls of the user\<close>

text \<open>The user's calls send a close frame only together with what follows it: reading only the answer, and no more calls.\<close>

definition ukeeps :: "ws_conn_t \<Rightarrow> ws_conn_t \<Rightarrow> bool" where
  "ukeeps c c' \<longleftrightarrow>
     keeps c c' \<and>
     (wc_socket_open c' \<and> (wc_read_state c' = Read_any_frame \<or> wc_connected c') \<and> wc_close_frame_to_peer c \<longrightarrow> wc_close_frame_to_peer c')"

lemma ukeeps_refl: "ws_inv0 c \<Longrightarrow> ukeeps c c"
  by (simp add: ukeeps_def keeps_refl)

lemma ukeeps_trans:
  assumes "ukeeps c d" "ukeeps d e"
  shows "ukeeps c e"
proof -
  have "keeps c e" using assms keeps_trans unfolding ukeeps_def by blast
  moreover have "wc_socket_open d" if "wc_socket_open e" using assms(2) that by (simp add: ukeeps_def keeps_def)
  moreover have "wc_read_state d = Read_any_frame" if "wc_read_state e = Read_any_frame"
    using assms(2) that by (auto simp: ukeeps_def keeps_def state_step_def)
  moreover have "wc_connected d" if "wc_connected e" using assms(2) that by (simp add: ukeeps_def keeps_def)
  ultimately show ?thesis using assms unfolding ukeeps_def by blast
qed

lemma write_only_ukeeps: "write_only c c' \<Longrightarrow> undisturbed c c' \<Longrightarrow> ws_inv0 c \<Longrightarrow> ukeeps c c'"
  using write_only_keeps [of c c'] by (simp add: ukeeps_def write_only_def)

lemma ukeeps_notify: "ws_inv0 c \<Longrightarrow> ukeeps c (ws_notify ns c)"
  by (simp add: ukeeps_def keeps_def same_read_def state_step_def) (simp add: ws_notify_def guard_inv_def)

lemma ukeeps_disconnected:
  assumes "ws_inv0 c"
  shows "ukeeps c (c\<lparr>wc_connected := False\<rparr>)" "ukeeps c (c\<lparr>wc_connected := False, wc_close_frame_to_user := False\<rparr>)"
    "ukeeps c (c\<lparr>wc_websocket_weak_handle := False\<rparr>)"
  using assms by (auto simp: ukeeps_def keeps_def same_read_def state_step_def ws_inv_defs guard_inv_def)

lemma append_keeps:
  assumes "ws_inv0 c" "group_ok wg" "wc_write_state c = Write_enabled" "wc_socket_open c" "b \<longrightarrow> \<not> wc_connected c"
  shows "ukeeps c (outgoing_append wg b (if b
    then start_waiting_close_frame_only env (c\<lparr>wc_close_frame_to_peer := False, wc_close_frame_to_user := False, wc_write_state := Write_disabled\<rparr>)
    else c))" (is "ukeeps c ?d")
proof -
  have stage: "wc_activated c \<longrightarrow> wc_read_state c \<noteq> Read_nothing" using assms(1,3,4) by (auto simp: ws_inv0_def close_inv_def)
  have "list_all (\<lambda>a. \<not> snd a) (accepted (wc_trace c))" using assms(1,3) by (simp add: ws_inv0_def close_inv_def)
  then have "close_inv ?d" using assms(1,3,4) stage
    by (auto simp: ws_inv0_def close_inv_def outgoing_append_def ws_act_def start_waiting_close_frame_only_def
        guard_close_frame_from_peer_operation_def only_last_append)
  moreover have "write_inv ?d" "ws_order_inv ?d"
    using assms(1,2) by (auto simp: ws_inv0_def outgoing_append_def ws_act_def write_inv_def ws_order_inv_def start_waiting_close_frame_only_def
        guard_close_frame_from_peer_operation_def)
  moreover have "read_inv ?d"
    using assms(1) by (auto simp: ws_inv0_def outgoing_append_def ws_act_def read_inv_def told_def start_waiting_close_frame_only_def
        guard_close_frame_from_peer_operation_def)
  moreover have "same_read c ?d" "state_step (wc_activated c) (wc_read_state c) (wc_read_state ?d)" "wc_socket_open ?d = wc_socket_open c"
    "wc_write_output_ctx ?d = wc_write_output_ctx c" "wc_write_running ?d = wc_write_running c" "wc_close_frame_to_user ?d \<longrightarrow> wc_close_frame_to_user c"
    "wc_connected ?d \<longrightarrow> wc_connected c \<and> (wc_activated c \<or> wc_read_state ?d = wc_read_state c)" "guard_inv c \<longrightarrow> guard_inv ?d"
    "wc_websocket_weak_handle ?d = wc_websocket_weak_handle c"
    "wc_socket_open ?d \<and> (wc_read_state ?d = Read_any_frame \<or> wc_connected ?d) \<and> wc_close_frame_to_peer c \<longrightarrow> wc_close_frame_to_peer ?d"
    using assms(5) stage
    by (cases b; simp add: same_read_def state_step_def outgoing_append_def ws_act_def start_waiting_close_frame_only_def
        guard_close_frame_from_peer_operation_def guard_inv_def)+
  ultimately show ?thesis unfolding ukeeps_def keeps_def ws_inv0_def by simp
qed

lemma write_data_ok:
  assumes "0 < w_max_iov_len env" "ws_inv0 c" "group_ok wg" "b \<longrightarrow> \<not> wc_connected c"
  shows "ws_ends (ukeeps c) (write_data env (ws_exec env (Suc (Suc n))) wg b c)"
proof (cases "wc_write_state c = Write_enabled \<and> wc_socket_open c")
  case True
  let ?d = "outgoing_append wg b (if b
    then start_waiting_close_frame_only env (c\<lparr>wc_close_frame_to_peer := False, wc_close_frame_to_user := False, wc_write_state := Write_disabled\<rparr>)
    else c)"
  have d: "ukeeps c ?d" using append_keeps [OF assms(2,3) _ _ assms(4)] True by blast
  then have inv: "ws_inv0 ?d" by (simp add: ukeeps_def keeps_def)
  then have "write_inv ?d" "ws_order_inv ?d" "close_inv ?d" by (simp_all add: ws_inv0_def)
  from init_write_if_necessary_ok [OF assms(1) this(1,2) close_inv_open [OF this(3)], of n]
  have "ws_ends (ukeeps c) (ws_init_write_if_necessary (ws_exec env (Suc (Suc n))) ?d)"
    by (rule ws_ends_mono) (use d inv write_only_ukeeps ukeeps_trans in blast)
  with True show ?thesis
    by (auto simp: write_data_def write_data_impl_def Let_def intro!: ws_ends_catching simp del: ws_exec.simps)
next
  case False
  with ukeeps_notify [OF assms(2)] show ?thesis
    by (auto simp: write_data_def write_data_impl_def intro!: ws_ends_catching simp del: ws_exec.simps)
qed

lemma close_impl_keeps:
  assumes "ws_inv0 c" "\<not> wc_close_frame_to_user c"
  shows "ukeeps c (close_impl c)" "\<not> wc_socket_open (close_impl c)"
  using assms by (auto simp: close_impl_def ws_act_def ukeeps_def keeps_def same_read_def state_step_def ws_inv_defs guard_inv_def)

lemma kill_keeps: "ws_inv0 c \<Longrightarrow> ukeeps c (kill c)"
  by (auto simp: kill_def close_impl_def ws_act_def ukeeps_def keeps_def same_read_def state_step_def ws_inv_defs guard_inv_def)

lemma shutdown_ok:
  assumes "0 < w_max_iov_len env" "ws_inv0 c"
  shows "ws_ends (ukeeps c) (shutdown env (ws_exec env (Suc (Suc n))) c)"
proof (cases "wc_connected c")
  case True
  let ?c = "c\<lparr>wc_connected := False, wc_close_frame_to_user := False\<rparr>"
  have c: "ukeeps c ?c" using ukeeps_disconnected(2) [OF assms(2)] .
  then have "ws_inv0 ?c" by (simp add: ukeeps_def keeps_def)
  from close_frame_and_wait_ok [OF assms(1) this, of n "status_code_to_bin normal_closure"]
  have "ws_ends (ukeeps c) (graceful_close env (ws_exec env (Suc (Suc n))) ?c)"
    unfolding graceful_close_def
  proof (rule ws_ends_mono)
    fix d
    assume d: "keeps ?c d \<and> (if wc_close_frame_to_peer ?c then wc_read_state d = Read_only_close_frame else d = ?c) \<and>
      wc_close_frame_to_user d = wc_close_frame_to_user ?c \<and> wc_socket_open d = wc_socket_open ?c"
    then have "\<not> wc_connected d" by (simp add: keeps_def)
    with d have "ukeeps ?c d" unfolding ukeeps_def by (cases "wc_close_frame_to_peer ?c") auto
    with c show "ukeeps c d" by (rule ukeeps_trans)
  qed simp_all
  with True show ?thesis by (simp add: shutdown_def ws_ends_catching del: ws_exec.simps)
next
  case False
  with ukeeps_refl [OF assms(2)] show ?thesis by (simp add: shutdown_def)
qed

lemma message_group_ok: "write_type payload = Trivial_write_operation \<Longrightarrow> group_ok (message_group final_flag opcode payload wscb)"
  by (cases wscb) (simp_all add: group_ok_def message_group_def write_group_def set_after_write_notificator_def write_type_def)

lemma user_call_ok:
  assumes "0 < w_max_iov_len env" "ws_inv0 c"
  shows "ws_ends (ukeeps c) (user_call env (ws_exec env (Suc (Suc n))) u c)"
proof (cases u)
  case (Send_message final_flag opcode payload wscb)
  let ?b = "connection_close_frame = opcode"
  let ?c = "if ?b then c\<lparr>wc_connected := False\<rparr> else c"
  have c: "ukeeps c ?c" using ukeeps_disconnected(1) [OF assms(2)] ukeeps_refl [OF assms(2)] by simp
  then have inv: "ws_inv0 ?c" by (simp add: ukeeps_def keeps_def)
  have "ws_ends (ukeeps c) (write_data env (ws_exec env (Suc (Suc n))) (message_group final_flag opcode payload wscb) ?b ?c)"
    if "write_type payload = Trivial_write_operation"
    by (rule ws_ends_mono [OF write_data_ok [OF assms(1) inv message_group_ok [OF that]]]) (simp_all, rule ukeeps_trans [OF c], simp)
  with Send_message ukeeps_refl [OF assms(2)] show ?thesis by (simp add: send_message_def Let_def del: ws_exec.simps)
next
  case Shutdown
  with shutdown_ok [OF assms] show ?thesis by (simp del: ws_exec.simps)
next
  case Kill
  with kill_keeps [OF assms(2)] show ?thesis by simp
next
  case Release_handle
  have "ws_ends (ukeeps c) (ws_then (shutdown env (ws_exec env (Suc (Suc n))) c) (\<lambda>c. Ws_done (c\<lparr>wc_websocket_weak_handle := False\<rparr>)))"
  proof (rule ws_ends_then [OF shutdown_ok [OF assms]])
    fix d
    assume d: "ukeeps c d"
    then have "ukeeps d (d\<lparr>wc_websocket_weak_handle := False\<rparr>)" by (intro ukeeps_disconnected(3)) (simp add: ukeeps_def keeps_def)
    with d show "ws_ends (ukeeps c) (Ws_done (d\<lparr>wc_websocket_weak_handle := False\<rparr>))" by (simp add: ukeeps_trans)
  qed
  with Release_handle show ?thesis by (simp del: ws_exec.simps)
qed

lemma user_calls_ok:
  assumes "0 < w_max_iov_len env" "ws_inv0 c"
  shows "ws_ends (ukeeps c) (user_calls env (ws_exec env (Suc (Suc n))) us c)"
  using assms(2)
proof (induction us arbitrary: c)
  case Nil
  then show ?case by (simp add: ukeeps_refl)
next
  case (Cons u us)
  show ?case unfolding user_calls.simps
  proof (rule ws_ends_then [OF user_call_ok [OF assms(1) Cons.prems]])
    fix d
    assume d: "ukeeps c d"
    then have "ws_inv0 d" by (simp add: ukeeps_def keeps_def)
    from Cons.IH [OF this] show "ws_ends (ukeeps c) (user_calls env (ws_exec env (Suc (Suc n))) us d)"
      by (rule ws_ends_mono) (rule ukeeps_trans [OF d])
  qed
qed

end
