(* ===== verification/Ws_Reading.thy ===== *)
theory Ws_Reading
  imports Ws_Connection
begin

text \<open>
  Reading on a websocket connection: the invariant is kept by every event, events are handled to their end, and what follows for the
  operations on the socket, the frames that are sent and the messages the user is given.
\<close>

section \<open>The message handler\<close>

definition after_message :: "ws_message_t \<Rightarrow> ws_conn_t \<Rightarrow> ws_conn_t" where
  "after_message m c = ws_act (Ws_handler_called m) (c\<lparr>wc_handler_calls := wc_handler_calls c + 1\<rparr>)"

text \<open>What a step keeps that may call the handler.\<close>

definition serves :: "ws_conn_t \<Rightarrow> ws_conn_t \<Rightarrow> bool" where
  "serves c c' \<longleftrightarrow>
     ws_inv0 c' \<and> wc_parser c' = wc_parser c \<and> wc_buf c' = wc_buf c \<and> wc_payload c' = wc_payload c \<and>
     wc_protocol_validator c' = wc_protocol_validator c \<and> wc_reading c' = wc_reading c \<and> wc_activated c' = wc_activated c \<and>
     (wc_socket_open c' \<longrightarrow> wc_socket_open c) \<and>
     (transmitting (wc_write_output_ctx c) \<longrightarrow> transmitting (wc_write_output_ctx c') \<and> wc_write_running c' = wc_write_running c) \<and>
     state_step (wc_activated c) (wc_read_state c) (wc_read_state c') \<and>
     (wc_close_frame_to_user c' \<longrightarrow> wc_close_frame_to_user c) \<and> (guard_inv c \<longrightarrow> guard_inv c') \<and>
     (wc_websocket_weak_handle c' \<longrightarrow> wc_websocket_weak_handle c) \<and>
     (wc_connected c' \<longrightarrow> wc_connected c \<and> (wc_activated c \<or> wc_read_state c' = wc_read_state c)) \<and>
     (wc_socket_open c' \<and> (wc_read_state c' = Read_any_frame \<or> wc_connected c') \<and> wc_close_frame_to_peer c \<longrightarrow> wc_close_frame_to_peer c')"

lemma ukeeps_serves: "ukeeps c c' \<Longrightarrow> serves c c' \<and> told c' = told c"
  unfolding ukeeps_def keeps_def same_read_def serves_def told_def by (elim conjE) simp

lemma serves_refl: "ws_inv0 c \<Longrightarrow> serves c c"
  by (simp add: serves_def state_step_def)

lemma serves_after_message: "serves (after_message m c) d = serves c d"
  by (simp add: serves_def after_message_def ws_act_def guard_inv_def)

lemma serves_after_telling: "serves (c\<lparr>wc_close_frame_to_user := False\<rparr>) d \<Longrightarrow> serves c d \<and> \<not> wc_close_frame_to_user d"
  unfolding serves_def guard_inv_def by simp

lemma told_after_message: "told (after_message m c) \<longleftrightarrow> told c \<or> is_close m"
  by (auto simp: told_def after_message_def ws_act_def)

lemma message_inv:
  assumes "ws_inv0 c" "wc_socket_open c \<longrightarrow> \<not> told c" "wc_socket_open c \<and> is_close m \<longrightarrow> \<not> wc_close_frame_to_user c"
  shows "ws_inv0 (after_message m c)"
proof -
  have "write_inv (after_message m c)" "ws_order_inv (after_message m c)" "close_inv (after_message m c)"
    using assms(1) by (auto simp: ws_inv0_def after_message_def ws_act_def write_inv_def ws_order_inv_def close_inv_def)
  moreover have "read_inv (after_message m c)"
    using assms
    by (auto simp: ws_inv0_def after_message_def ws_act_def read_inv_def told_def list_ex_iff list_all_iff intro!: only_last_append)
  ultimately show ?thesis by (simp add: ws_inv0_def)
qed

lemma handler_ok:
  assumes "0 < w_max_iov_len env" "ws_inv0 c" "wc_socket_open c \<longrightarrow> \<not> told c"
    "wc_socket_open c \<and> is_close m \<longrightarrow> \<not> wc_close_frame_to_user c"
  shows "ws_ends (\<lambda>c'. serves c c' \<and> (told c' \<longrightarrow> told c \<or> is_close m \<and> wc_websocket_weak_handle c))
    (ws_exec env (Suc (Suc (Suc n))) (Call_message_handler m) c)"
proof (cases "wc_websocket_weak_handle c")
  case True
  have "ws_ends (ukeeps (after_message m c)) (user_calls env (ws_exec env (Suc (Suc n))) (w_handler env (wc_handler_calls c) m) (after_message m c))"
    using user_calls_ok [OF assms(1) message_inv [OF assms(2-4)]] .
  then have "ws_ends (\<lambda>c'. serves c c' \<and> (told c' \<longrightarrow> told c \<or> is_close m))
    (user_calls env (ws_exec env (Suc (Suc n))) (w_handler env (wc_handler_calls c) m) (after_message m c))"
  proof (rule ws_ends_mono)
    fix d
    assume "ukeeps (after_message m c) d"
    from ukeeps_serves [OF this] show "serves c d \<and> (told d \<longrightarrow> told c \<or> is_close m)"
      by (simp add: serves_after_message told_after_message)
  qed
  with True show ?thesis by (simp add: call_message_handler_def after_message_def del: ws_exec.simps(1))
next
  case False
  with serves_refl [OF assms(2)] show ?thesis by (simp add: call_message_handler_def)
qed

lemma close_handler_ok:
  assumes "0 < w_max_iov_len env" "ws_inv0 c"
  shows "ws_ends (\<lambda>c'. serves c c' \<and> \<not> wc_close_frame_to_user c' \<and> (told c' \<longrightarrow> told c \<or> wc_websocket_weak_handle c))
    (call_close_handler_if_necessary (ws_exec env (Suc (Suc (Suc n)))) code c)"
proof (cases "wc_close_frame_to_user c")
  case True
  let ?c = "c\<lparr>wc_close_frame_to_user := False\<rparr>"
  let ?m = "\<lparr>wm_final_flag = True, wm_opcode = connection_close_frame, wm_payload = status_code_to_bin code\<rparr>"
  have inv: "ws_inv0 ?c" using assms(2) by (simp add: ws_inv_defs)
  have fresh: "wc_socket_open ?c \<longrightarrow> \<not> told ?c" using assms(2) True by (simp add: ws_inv0_def read_inv_def told_def)
  have "wc_socket_open ?c \<and> is_close ?m \<longrightarrow> \<not> wc_close_frame_to_user ?c" by simp
  from handler_ok [OF assms(1) inv fresh this, of n]
  have "ws_ends (\<lambda>c'. serves c c' \<and> \<not> wc_close_frame_to_user c' \<and> (told c' \<longrightarrow> told c \<or> wc_websocket_weak_handle c))
      (ws_exec env (Suc (Suc (Suc n))) (Call_message_handler ?m) ?c)"
    by (rule ws_ends_mono) (use serves_after_telling [of c] in \<open>auto simp: told_def\<close>)
  with True show ?thesis by (simp add: call_close_handler_if_necessary_def del: ws_exec.simps)
next
  case False
  with serves_refl [OF assms(2)] show ?thesis by (simp add: call_close_handler_if_necessary_def)
qed

lemma serves_trans:
  assumes "serves c d" "serves d e"
  shows "serves c e"
proof -
  note cd = assms(1) [unfolded serves_def] and de = assms(2) [unfolded serves_def]
  have act: "wc_activated d = wc_activated c" using cd by simp
  have "state_step (wc_activated c) (wc_read_state c) (wc_read_state d)" using cd by blast
  moreover have "state_step (wc_activated c) (wc_read_state d) (wc_read_state e)" using de act by simp
  ultimately have step: "state_step (wc_activated c) (wc_read_state c) (wc_read_state e)" by (rule state_step_trans)
  have any: "wc_read_state d = Read_any_frame" if "wc_read_state e = Read_any_frame"
    using \<open>state_step (wc_activated c) (wc_read_state d) (wc_read_state e)\<close> that by (simp add: state_step_def)
  have conn: "wc_connected c \<and> (wc_activated c \<or> wc_read_state e = wc_read_state c)" if "wc_connected e"
  proof -
    from that de act have "wc_connected d" "wc_activated c \<or> wc_read_state e = wc_read_state d" by simp_all
    with cd show ?thesis by auto
  qed
  have peer: "wc_close_frame_to_peer e"
    if "wc_socket_open e" "wc_read_state e = Read_any_frame \<or> wc_connected e" "wc_close_frame_to_peer c"
  proof -
    have "wc_socket_open d" using that(1) de by blast
    moreover have "wc_read_state d = Read_any_frame \<or> wc_connected d" using that(2) any de by blast
    ultimately have "wc_socket_open d" "wc_read_state d = Read_any_frame \<or> wc_connected d" .
    with that cd have "wc_close_frame_to_peer d" by blast
    with that de show ?thesis by blast
  qed
  show ?thesis unfolding serves_def
    by (intro conjI impI) (use cd de step conn peer in \<open>blast | simp\<close>)+
qed

lemma close_impl_serves:
  assumes "ws_inv0 c" "\<not> wc_close_frame_to_user c"
  shows "serves c (close_impl c)" "\<not> wc_socket_open (close_impl c)" "\<not> wc_close_frame_to_user (close_impl c)" "told (close_impl c) = told c"
  using close_impl_keeps [OF assms] ukeeps_serves [of c "close_impl c"] assms(2) by (auto simp: close_impl_def ws_act_def)

lemma trigger_ok:
  assumes "0 < w_max_iov_len env" "ws_inv0 c"
  shows "ws_ends (\<lambda>c'. serves c c' \<and> \<not> wc_socket_open c' \<and> (told c' \<longrightarrow> told c \<or> wc_websocket_weak_handle c))
    (ws_trigger_error_and_close (ws_exec env (Suc (Suc (Suc n)))) code c)"
  unfolding ws_trigger_error_and_close_def
proof (rule ws_ends_then [OF ws_ends_catching [OF close_handler_ok [OF assms]]])
  fix d
  assume d: "serves c d \<and> \<not> wc_close_frame_to_user d \<and> (told d \<longrightarrow> told c \<or> wc_websocket_weak_handle c)"
  then have "ws_inv0 d" by (simp add: serves_def)
  with d close_impl_serves [of d] serves_trans [of c d "close_impl d"]
  show "ws_ends (\<lambda>c'. serves c c' \<and> \<not> wc_socket_open c' \<and> (told c' \<longrightarrow> told c \<or> wc_websocket_weak_handle c)) (Ws_done (close_impl d))"
    by simp
qed

section \<open>Processing frames\<close>

text \<open>The state in which a frame is being processed: no read is running.\<close>

definition buffer_ok :: "fixed_buffer_t \<Rightarrow> bool" where
  "buffer_ok b \<longleftrightarrow> length (fb_buf b) = websocket_header_max_size \<and> fb_ready_length b \<le> websocket_header_max_size"

definition stopped :: "ws_conn_t \<Rightarrow> bool" where
  "stopped c \<longleftrightarrow>
     ws_inv0 c \<and> guard_inv c \<and> wc_reading c = None \<and> wc_activated c \<and> buffer_ok (wc_buf c)"

definition processing :: "ws_conn_t \<Rightarrow> bool" where
  "processing c \<longleftrightarrow>
     stopped c \<and> wc_read_state c \<noteq> Read_nothing \<and>
     (wc_socket_open c \<and> wc_read_state c = Read_any_frame \<longrightarrow> wc_close_frame_to_peer c \<and> \<not> told c)"

text \<open>The invariant between events.\<close>

definition ws_inv :: "ws_conn_t \<Rightarrow> bool" where
  "ws_inv c \<longleftrightarrow>
     ws_inv0 c \<and> guard_inv c \<and> buffer_ok (wc_buf c) \<and>
     (if wc_activated c
      then wc_reading c \<noteq> None \<and> wc_socket_open c \<and> wc_read_state c = Read_any_frame \<longrightarrow> wc_close_frame_to_peer c \<and> \<not> told c
      else wc_reading c = None \<and> \<not> told c \<and> \<not> wc_websocket_weak_handle c \<and>
        (wc_connected c \<longrightarrow> wc_read_state c = Read_nothing \<and> (wc_socket_open c \<longrightarrow> wc_close_frame_to_peer c)))"

text \<open>Processing ends between events, or with an exception that ends the connection.\<close>

fun processed :: "ws_result \<Rightarrow> bool" where
  "processed (Ws_done c) \<longleftrightarrow> ws_inv c \<and> wc_activated c"
| "processed (Ws_raised e c) \<longleftrightarrow> stopped c"
| "processed Ws_undefined \<longleftrightarrow> False"
| "processed Ws_out_of_fuel \<longleftrightarrow> False"

lemma processed_then: "ws_ends P r \<Longrightarrow> (\<And>c. P c \<Longrightarrow> processed (f c)) \<Longrightarrow> processed (ws_then r f)"
  by (cases r) (simp_all add: ws_then_def)

lemma stopped_serves: "stopped c \<Longrightarrow> serves c d \<Longrightarrow> stopped d"
  unfolding stopped_def serves_def by simp

lemma processing_serves:
  assumes "processing c" "serves c d" "wc_socket_open d \<and> wc_read_state d = Read_any_frame \<longrightarrow> \<not> told d"
  shows "processing d"
proof -
  note c = assms(1) [unfolded processing_def] and d = assms(2) [unfolded serves_def]
  have "state_step True (wc_read_state c) (wc_read_state d)" using c d by (simp add: stopped_def)
  with c have any: "wc_read_state d = Read_any_frame \<Longrightarrow> wc_read_state c = Read_any_frame" and on: "wc_read_state d \<noteq> Read_nothing"
    by (auto simp: state_step_def)
  have "wc_close_frame_to_peer d \<and> \<not> told d" if "wc_socket_open d" "wc_read_state d = Read_any_frame"
  proof -
    have "wc_close_frame_to_peer c" using c d that any by blast
    with d that assms(3) show ?thesis by blast
  qed
  moreover have "stopped d" using c assms(2) stopped_serves by blast
  ultimately show ?thesis using on by (simp add: processing_def)
qed

text \<open>Reading stops, or goes on with a read.\<close>

lemma stops: "stopped c \<Longrightarrow> processed (Ws_done c)"
  by (simp add: ws_inv_def stopped_def)

lemma goes_on:
  assumes "processing c"
  shows "processed (Ws_done (ws_act (Ws_start_read n) (c\<lparr>wc_reading := Some r\<rparr>)))"
proof -
  have "ws_inv0 (ws_act (Ws_start_read n) (c\<lparr>wc_reading := Some r\<rparr>))"
    using assms by (auto simp: processing_def stopped_def ws_inv_defs ws_act_def)
  with assms show ?thesis by (simp add: ws_inv_def processing_def stopped_def guard_inv_def told_def ws_act_def)
qed

lemma input_updates [simp]:
  "processing (c\<lparr>wc_parser := p\<rparr>) = processing c" "processing (c\<lparr>wc_payload := d\<rparr>) = processing c"
  "processing (c\<lparr>wc_protocol_validator := v\<rparr>) = processing c"
  by (simp_all add: processing_def stopped_def guard_inv_def ws_inv_defs)

lemma new_buffer: "processing c \<Longrightarrow> buffer_ok b \<Longrightarrow> processing (c\<lparr>wc_buf := b\<rparr>)"
  by (auto simp: processing_def stopped_def guard_inv_def ws_inv_defs)

lemma processing_consumed: "processing c \<Longrightarrow> processing (c\<lparr>wc_buf := consumed_bytes k (wc_buf c)\<rparr>)"
  by (rule new_buffer) (auto simp: processing_def stopped_def buffer_ok_def consumed_bytes_def)

subsection \<open>Violations of the protocol and invalid data\<close>

lemma protocol_violation_ok:
  assumes "0 < w_max_iov_len env" "stopped c"
  shows "ws_ends (\<lambda>d. stopped d \<and> wc_buf d = wc_buf c) (ws_then (close_frame_to_peer_if_first (ws_exec env (Suc (Suc (Suc n)))) payload (\<lambda>c. c) c)
    (call_close_handler_if_necessary (ws_exec env (Suc (Suc (Suc n)))) code))"
proof -
  have inv: "ws_inv0 c" using assms(2) by (simp add: stopped_def)
  show ?thesis
  proof (rule ws_ends_then [OF close_frame_to_peer_ok [OF assms(1) inv]])
    fix d
    assume "keeps c d \<and> wc_read_state d = wc_read_state c \<and> \<not> wc_close_frame_to_peer d \<and>
      wc_close_frame_to_user d = wc_close_frame_to_user c \<and> wc_connected d = wc_connected c \<and>
      wc_close_frame_from_peer_timeout_after d = wc_close_frame_from_peer_timeout_after c \<and> wc_socket_open d = wc_socket_open c \<and>
      (wc_close_frame_to_peer c \<longrightarrow> wc_write_state d = Write_disabled)"
    then have d: "stopped d" "wc_buf d = wc_buf c" using assms(2) by (simp_all add: stopped_def keeps_def same_read_def)
    then have "ws_inv0 d" by (simp add: stopped_def)
    from close_handler_ok [OF assms(1) this]
    show "ws_ends (\<lambda>d. stopped d \<and> wc_buf d = wc_buf c) (call_close_handler_if_necessary (ws_exec env (Suc (Suc (Suc n)))) code d)"
      by (rule ws_ends_mono) (use d stopped_serves [of d] in \<open>simp add: serves_def\<close>)
  qed
qed

lemma waiting_inv0: "ws_inv0 c \<Longrightarrow> ws_inv0 (start_waiting_close_frame_only env c)"
  by (auto simp: start_waiting_close_frame_only_def guard_close_frame_from_peer_operation_def ws_inv_defs)

lemma invalid_data_ok:
  assumes "0 < w_max_iov_len env" "processing c" "wc_read_state c = Read_any_frame"
  shows "ws_ends (\<lambda>d. processing d \<and> wc_buf d = wc_buf c) (ws_then
    (close_frame_to_peer_if_first (ws_exec env (Suc (Suc (Suc n)))) payload (start_waiting_close_frame_only env) c)
    (call_close_handler_if_necessary (ws_exec env (Suc (Suc (Suc n)))) code))"
proof -
  have st: "stopped c" using assms(2) by (simp add: processing_def)
  then have inv: "ws_inv0 c" by (simp add: stopped_def)
  show ?thesis
  proof (cases "wc_close_frame_to_peer c")
    case False
    then have closed: "\<not> wc_socket_open c" using assms(2,3) by (auto simp: processing_def)
    from close_handler_ok [OF assms(1) inv] have "ws_ends (\<lambda>d. processing d \<and> wc_buf d = wc_buf c) (call_close_handler_if_necessary (ws_exec env (Suc (Suc (Suc n)))) code c)"
    proof (rule ws_ends_mono)
      fix e
      assume e: "serves c e \<and> \<not> wc_close_frame_to_user e \<and> (told e \<longrightarrow> told c \<or> wc_websocket_weak_handle c)"
      then have "\<not> wc_socket_open e" using closed by (simp add: serves_def)
      with e processing_serves [OF assms(2), of e] show "processing e \<and> wc_buf e = wc_buf c" by (simp add: serves_def)
    qed
    with False show ?thesis by (simp add: close_frame_to_peer_if_first_def ws_then_def)
  next
    case True
    let ?P = "\<lambda>d. stopped (d\<lparr>wc_close_frame_to_user := False\<rparr>) \<and> ws_inv0 d \<and> wc_read_state d = Read_only_close_frame \<and> wc_buf d = wc_buf c"
    have "ws_ends ?P (ws_then (send_close_frame_to_peer (ws_exec env (Suc (Suc (Suc n)))) payload (c\<lparr>wc_close_frame_to_peer := False\<rparr>))
      (\<lambda>c. Ws_done (start_waiting_close_frame_only env c)))"
    proof (rule ws_ends_then [OF send_close_ok [OF assms(1) inv True]])
      fix d
      assume "keeps c d \<and> wc_read_state d = wc_read_state c \<and> \<not> wc_close_frame_to_peer d \<and>
        wc_close_frame_to_user d = wc_close_frame_to_user c \<and> wc_connected d = wc_connected c \<and>
        wc_close_frame_from_peer_timeout_after d = wc_close_frame_from_peer_timeout_after c \<and> wc_socket_open d = wc_socket_open c \<and>
        wc_write_state d = Write_disabled"
      then have d: "stopped d" "wc_read_state d = Read_any_frame" "wc_buf d = wc_buf c" using st assms(3) by (simp_all add: stopped_def keeps_def same_read_def)
      then have "keeps d ((start_waiting_close_frame_only env d)\<lparr>wc_close_frame_to_user := False\<rparr>)"
        by (intro start_waiting_keeps) (simp_all add: stopped_def)
      then have "stopped ((start_waiting_close_frame_only env d)\<lparr>wc_close_frame_to_user := False\<rparr>)"
        using d by (simp add: stopped_def keeps_def same_read_def)
      moreover have "ws_inv0 (start_waiting_close_frame_only env d)" using d by (intro waiting_inv0) (simp add: stopped_def)
      ultimately show "ws_ends ?P (Ws_done (start_waiting_close_frame_only env d))"
        using d(3) by (simp add: start_waiting_close_frame_only_def guard_close_frame_from_peer_operation_def)
    qed
    then have "ws_ends (\<lambda>d. processing d \<and> wc_buf d = wc_buf c) (ws_then (ws_then (send_close_frame_to_peer (ws_exec env (Suc (Suc (Suc n)))) payload (c\<lparr>wc_close_frame_to_peer := False\<rparr>))
      (\<lambda>c. Ws_done (start_waiting_close_frame_only env c))) (call_close_handler_if_necessary (ws_exec env (Suc (Suc (Suc n)))) code))"
    proof (rule ws_ends_then)
      fix d
      assume d: "?P d"
      from close_handler_ok [OF assms(1)] d
      have "ws_ends (\<lambda>c'. serves d c' \<and> \<not> wc_close_frame_to_user c' \<and> (told c' \<longrightarrow> told d \<or> wc_websocket_weak_handle d))
        (call_close_handler_if_necessary (ws_exec env (Suc (Suc (Suc n)))) code d)" by blast
      then show "ws_ends (\<lambda>d. processing d \<and> wc_buf d = wc_buf c) (call_close_handler_if_necessary (ws_exec env (Suc (Suc (Suc n)))) code d)"
      proof (rule ws_ends_mono)
        fix e
        assume e: "serves d e \<and> \<not> wc_close_frame_to_user e \<and> (told e \<longrightarrow> told d \<or> wc_websocket_weak_handle d)"
        have "buffer_ok (wc_buf c)" using st by (simp add: stopped_def)
        moreover have "wc_buf e = wc_buf c" "wc_reading e = None" "wc_activated e" "ws_inv0 e"
          using e d by (simp_all add: serves_def stopped_def)
        moreover have "state_step (wc_activated d) (wc_read_state d) (wc_read_state e)" using e by (simp add: serves_def)
        then have "wc_read_state e = Read_only_close_frame" using d by (auto simp: state_step_def)
        ultimately show "processing e \<and> wc_buf e = wc_buf c" using e by (simp add: processing_def stopped_def guard_inv_def)
      qed
    qed
    with True show ?thesis by (simp add: close_frame_to_peer_if_first_def)
  qed
qed

lemma handle_invalid_payload_ok:
  assumes "0 < w_max_iov_len env" "processing c"
  shows "ws_ends (\<lambda>d. (if validation_result = Invalid_close_code then stopped d else processing d) \<and> wc_buf d = wc_buf c)
    (handle_invalid_payload env (ws_exec env (Suc (Suc (Suc n)))) validation_result c)"
proof -
  have st: "stopped c" using assms(2) by (simp add: processing_def)
  have closes: "stopped (close_impl c) \<and> wc_buf (close_impl c) = wc_buf c" if "wc_read_state c = Read_only_close_frame"
  proof -
    have "ws_inv0 c" "\<not> wc_close_frame_to_user c" using st that by (simp_all add: stopped_def guard_inv_def)
    from close_impl_serves(1) [OF this] st stopped_serves show ?thesis by (simp add: close_impl_def ws_act_def)
  qed
  with assms st show ?thesis
    by (cases "wc_read_state c")
      (auto simp: handle_invalid_payload_def processing_def [of c] simp del: ws_exec.simps
        intro!: protocol_violation_ok invalid_data_ok)
qed

subsection \<open>Frames\<close>

text \<open>What is assumed of the next frame when \<open>b\<close> bytes at most are left in the buffer.\<close>

definition next_ok :: "ws_caller \<Rightarrow> nat \<Rightarrow> bool" where
  "next_ok call b \<longleftrightarrow> (\<forall>c. processing c \<and> fb_ready_length (wc_buf c) \<le> b \<longrightarrow> processed (call Start_read_header c))"

lemma next_okD: "next_ok call b \<Longrightarrow> processing c \<Longrightarrow> fb_ready_length (wc_buf c) \<le> b \<Longrightarrow> processed (call Start_read_header c)"
  by (simp add: next_ok_def)

lemma processed_ends: "ws_ends (\<lambda>c. ws_inv c \<and> wc_activated c) r \<Longrightarrow> processed r"
  by (cases r) simp_all

lemma stopped_processed: "ws_ends stopped r \<Longrightarrow> processed r"
  by (cases r) (auto dest: stops)

lemma processing_stopped: "processing c \<Longrightarrow> stopped c"
  by (simp add: processing_def)

text \<open>A close frame of the peer is answered and given to the user, and nothing more is read.\<close>

lemma peer_close_ok:
  assumes "0 < w_max_iov_len env" "processing c" "wc_read_state c = Read_any_frame" "is_close m"
  shows "processed (ws_then
    (ws_then (close_frame_to_peer_if_first (ws_exec env (Suc (Suc (Suc n)))) payload (\<lambda>c. c) (c\<lparr>wc_close_frame_to_user := False\<rparr>))
      (\<lambda>c. Ws_done (c\<lparr>wc_read_state := Read_nothing\<rparr>)))
    (\<lambda>c. ws_then (ws_exec env (Suc (Suc (Suc n))) (Call_message_handler (m\<lparr>wm_payload := wc_payload c\<rparr>)) (c\<lparr>wc_payload := []\<rparr>))
      (\<lambda>c. if Read_nothing \<noteq> wc_read_state c then ws_exec env (Suc (Suc (Suc n))) Start_read_header c else Ws_done c)))"
proof -
  let ?c = "c\<lparr>wc_close_frame_to_user := False\<rparr>"
  let ?P = "\<lambda>d. stopped d \<and> wc_read_state d = Read_nothing \<and> \<not> wc_close_frame_to_user d \<and> (wc_socket_open d \<longrightarrow> \<not> told d)"
  have c: "stopped ?c" using assms(2) by (auto simp: processing_def stopped_def ws_inv_defs guard_inv_def)
  then have "ws_inv0 ?c" by (simp add: stopped_def)
  from close_frame_to_peer_ok [OF assms(1) this, of "Suc n" payload]
  have "ws_ends ?P (ws_then (close_frame_to_peer_if_first (ws_exec env (Suc (Suc (Suc n)))) payload (\<lambda>c. c) ?c)
      (\<lambda>c. Ws_done (c\<lparr>wc_read_state := Read_nothing\<rparr>)))"
  proof (rule ws_ends_then)
    fix d
    assume d: "keeps ?c d \<and> wc_read_state d = wc_read_state ?c \<and> \<not> wc_close_frame_to_peer d \<and>
      wc_close_frame_to_user d = wc_close_frame_to_user ?c \<and> wc_connected d = wc_connected ?c \<and>
      wc_close_frame_from_peer_timeout_after d = wc_close_frame_from_peer_timeout_after ?c \<and> wc_socket_open d = wc_socket_open ?c \<and>
      (wc_close_frame_to_peer ?c \<longrightarrow> wc_write_state d = Write_disabled)"
    then have "stopped d" "told d = told c" using c by (simp_all add: stopped_def keeps_def same_read_def told_def)
    moreover have "wc_socket_open d \<longrightarrow> wc_write_state d = Write_disabled" using d assms(2,3) by (simp add: processing_def)
    with \<open>stopped d\<close> d have "stopped (d\<lparr>wc_read_state := Read_nothing\<rparr>)"
      by (auto simp: stopped_def ws_inv_defs guard_inv_def)
    ultimately show "ws_ends ?P (Ws_done (d\<lparr>wc_read_state := Read_nothing\<rparr>))"
      using d assms(2,3) by (auto simp: processing_def told_def)
  qed
  then show ?thesis
  proof (rule processed_then)
    fix d
    assume d: "?P d"
    let ?d = "d\<lparr>wc_payload := []\<rparr>" and ?m = "m\<lparr>wm_payload := wc_payload d\<rparr>"
    have st: "stopped ?d" using d by (auto simp: stopped_def ws_inv_defs guard_inv_def)
    then have "ws_inv0 ?d" by (simp add: stopped_def)
    moreover have "wc_socket_open ?d \<longrightarrow> \<not> told ?d" "wc_socket_open ?d \<and> is_close ?m \<longrightarrow> \<not> wc_close_frame_to_user ?d"
      using d by (simp_all add: told_def)
    ultimately show "processed (ws_then (ws_exec env (Suc (Suc (Suc n))) (Call_message_handler ?m) ?d)
      (\<lambda>c. if Read_nothing \<noteq> wc_read_state c then ws_exec env (Suc (Suc (Suc n))) Start_read_header c else Ws_done c))"
    proof (rule processed_then [OF handler_ok [OF assms(1)]])
      fix e
      assume "serves ?d e \<and> (told e \<longrightarrow> told ?d \<or> is_close ?m \<and> wc_websocket_weak_handle ?d)"
      then have "stopped e" "wc_read_state e = Read_nothing"
        using st d stopped_serves [of ?d e] by (auto simp: serves_def stopped_def state_step_def)
      then show "processed (if Read_nothing \<noteq> wc_read_state e then ws_exec env (Suc (Suc (Suc n))) Start_read_header e else Ws_done e)"
        using stops by simp
    qed
  qed
qed

lemma message_ok:
  assumes "0 < w_max_iov_len env" "processing c" "wc_read_state c = Read_any_frame" "\<not> is_close m"
    "next_ok (ws_exec env (Suc (Suc (Suc n)))) b" "fb_ready_length (wc_buf c) \<le> b"
  shows "processed (ws_then (ws_exec env (Suc (Suc (Suc n))) (Call_message_handler m) (c\<lparr>wc_payload := []\<rparr>))
      (\<lambda>c. if Read_nothing \<noteq> wc_read_state c then ws_exec env (Suc (Suc (Suc n))) Start_read_header c else Ws_done c))"
proof -
  let ?c = "c\<lparr>wc_payload := []\<rparr>"
  have c: "processing ?c" using assms(2) by simp
  then have "ws_inv0 ?c" "wc_socket_open ?c \<longrightarrow> \<not> told ?c" "wc_socket_open ?c \<and> is_close m \<longrightarrow> \<not> wc_close_frame_to_user ?c"
    using assms(3,4) by (auto simp: processing_def stopped_def)
  from handler_ok [OF assms(1) this] show ?thesis
  proof (rule processed_then)
    fix e
    assume e: "serves ?c e \<and> (told e \<longrightarrow> told ?c \<or> is_close m \<and> wc_websocket_weak_handle ?c)"
    then have "wc_socket_open e \<longrightarrow> \<not> told e" using \<open>wc_socket_open ?c \<longrightarrow> \<not> told ?c\<close> assms(4) by (auto simp: serves_def)
    with processing_serves [OF c] e have "processing e" by blast
    moreover have "fb_ready_length (wc_buf e) \<le> b" using e assms(6) by (simp add: serves_def)
    ultimately show "processed (if Read_nothing \<noteq> wc_read_state e then ws_exec env (Suc (Suc (Suc n))) Start_read_header e else Ws_done e)"
      using assms(5) next_okD by (auto simp: processing_def simp del: ws_exec.simps)
  qed
qed

lemma call_handler_on_current_message_ok:
  assumes "0 < w_max_iov_len env" "processing c" "next_ok (ws_exec env (Suc (Suc (Suc n)))) b" "fb_ready_length (wc_buf c) \<le> b"
  shows "processed (call_handler_on_current_message env (ws_exec env (Suc (Suc (Suc n)))) c)"
proof -
  obtain vr v where fin: "finish_frame (wc_protocol_validator c) = (vr, v)" by fastforce
  let ?c = "c\<lparr>wc_protocol_validator := v\<rparr>" and ?md = "m_current_msg (wc_parser c)"
  have c: "processing ?c" using assms(2) by simp
  show ?thesis
  proof (cases "Frame_is_valid = vr")
    case False
    have "ws_ends stopped (handle_invalid_payload env (ws_exec env (Suc (Suc (Suc n)))) vr ?c)"
      by (rule ws_ends_mono [OF handle_invalid_payload_ok [OF assms(1) c]]) (auto simp: processing_stopped split: if_splits)
    with False show ?thesis
      by (simp add: call_handler_on_current_message_def fin stopped_processed del: ws_exec.simps)
  next
    case valid: True
    show ?thesis
    proof (cases "wc_read_state c")
      case Read_any_frame
      show ?thesis
      proof (cases "connection_close_frame = m_opcode ?md")
        case True
        let ?m = "\<lparr>wm_final_flag = m_final_flag ?md, wm_opcode = m_opcode ?md, wm_payload = []\<rparr>"
        have "processed (ws_then
          (ws_then (close_frame_to_peer_if_first (ws_exec env (Suc (Suc (Suc n)))) (wc_payload c) (\<lambda>c. c) (?c\<lparr>wc_close_frame_to_user := False\<rparr>))
            (\<lambda>c. Ws_done (c\<lparr>wc_read_state := Read_nothing\<rparr>)))
          (\<lambda>c. ws_then (ws_exec env (Suc (Suc (Suc n))) (Call_message_handler (?m\<lparr>wm_payload := wc_payload c\<rparr>)) (c\<lparr>wc_payload := []\<rparr>))
            (\<lambda>c. if Read_nothing \<noteq> wc_read_state c then ws_exec env (Suc (Suc (Suc n))) Start_read_header c else Ws_done c)))"
          using Read_any_frame True by (intro peer_close_ok [OF assms(1) c]) (simp_all add: is_close_def)
        with valid Read_any_frame True show ?thesis
          by (simp add: call_handler_on_current_message_def fin del: ws_exec.simps)
      next
        case False
        then have "\<not> is_close \<lparr>wm_final_flag = m_final_flag ?md, wm_opcode = m_opcode ?md, wm_payload = wc_payload c\<rparr>"
          by (auto simp: is_close_def)
        from message_ok [OF assms(1) c _ this assms(3)] False valid Read_any_frame assms(4) show ?thesis
          by (simp add: call_handler_on_current_message_def fin Let_def ws_then_def [of "Ws_done _"] del: ws_exec.simps)
      qed
    next
      case Read_only_close_frame
      let ?d = "?c\<lparr>wc_timer_scheduled := False\<rparr>"
      have d: "stopped ?d" using c by (auto simp: processing_def stopped_def ws_inv_defs guard_inv_def)
      then have "ws_inv0 ?d" "\<not> wc_close_frame_to_user ?d" using Read_only_close_frame by (simp_all add: stopped_def guard_inv_def)
      from stopped_serves [OF d close_impl_serves(1) [OF this]] stops have "processed (Ws_done (close_impl ?d))" by blast
      with valid Read_only_close_frame next_okD [OF assms(3) c] assms(4) show ?thesis
        by (simp add: call_handler_on_current_message_def fin Let_def del: ws_exec.simps processed.simps)
    next
      case Read_nothing
      with assms(2) show ?thesis by (simp add: processing_def)
    qed
  qed
qed

lemma validate_payload_part_ok:
  assumes "0 < w_max_iov_len env" "processing c" "next_ok (ws_exec env (Suc (Suc (Suc n)))) b" "fb_ready_length (wc_buf c) \<le> b"
    and "\<And>d. processing d \<Longrightarrow> wc_buf d = wc_buf c \<Longrightarrow> processed (valid d)"
  shows "processed (validate_payload_part env (ws_exec env (Suc (Suc (Suc n)))) payload_data len next_length_remaining valid c)"
proof (cases "process_and_unmask_next_payload_part (take len (drop payload_data (wc_payload c))) (wc_protocol_validator c)")
  case (Inl e)
  with assms(2) show ?thesis by (simp add: validate_payload_part_def processing_stopped)
next
  case (Inr res)
  obtain vr part v where res: "res = (vr, part, v)" by (cases res) auto
  let ?c = "c\<lparr>wc_payload := take payload_data (wc_payload c) @ part @ drop (payload_data + len) (wc_payload c), wc_protocol_validator := v\<rparr>"
  let ?call = "ws_exec env (Suc (Suc (Suc n)))"
  have c: "processing ?c" using assms(2) by simp
  show ?thesis
  proof (cases "Payload_part_is_valid = vr")
    case True
    with Inr res assms(5) [OF c] show ?thesis by (simp add: validate_payload_part_def)
  next
    case False
    let ?go = "\<lambda>c. if Incorrect_utf8_data = vr then
        (let c = c\<lparr>wc_protocol_validator := validator_reset (wc_protocol_validator c)\<rparr>
         in if 0 = next_length_remaining then ?call Start_read_header c
            else Ws_done (start_read_payload (payload_data + len) next_length_remaining False c)) else Ws_done c"
    have "ws_ends (\<lambda>d. (if vr = Invalid_close_code then stopped d else processing d) \<and> fb_ready_length (wc_buf d) \<le> b)
      (handle_invalid_payload env ?call vr ?c)"
      by (rule ws_ends_mono [OF handle_invalid_payload_ok [OF assms(1) c]]) (use assms(4) in simp)
    then have "processed (ws_then (handle_invalid_payload env ?call vr ?c) ?go)"
    proof (rule processed_then)
      fix d
      assume d: "(if vr = Invalid_close_code then stopped d else processing d) \<and> fb_ready_length (wc_buf d) \<le> b"
      show "processed (?go d)"
      proof (cases "Incorrect_utf8_data = vr")
        case True
        with d have p: "processing (d\<lparr>wc_protocol_validator := validator_reset (wc_protocol_validator d)\<rparr>)" by auto
        with True d next_okD [OF assms(3) p] goes_on [OF p] show ?thesis
          by (simp add: Let_def start_read_payload_def del: ws_exec.simps processed.simps)
      next
        case False
        from d have "stopped d" by (auto split: if_splits dest: processing_stopped)
        with False show ?thesis using stops by simp
      qed
    qed
    with False Inr res show ?thesis by (simp add: validate_payload_part_def Let_def del: ws_exec.simps)
  qed
qed

lemma parser_reads:
  "parser_execute p data = Inr (n, q) \<Longrightarrow> \<not> header_parsed q \<Longrightarrow> n = length data"
  "parser_execute p data = Inr (n, q) \<Longrightarrow> header_parsed q \<Longrightarrow> \<not> header_parsed p \<Longrightarrow> 0 < n"
  by (induction p data arbitrary: n q rule: parser_execute.induct)
    (auto simp: header_parsed_def split: if_splits sum.splits)

lemma handle_parsed_and_valid_header_ok:
  assumes "0 < w_max_iov_len env" "processing c" "next_ok (ws_exec env (Suc (Suc (Suc n)))) b" "fb_ready_length (wc_buf c) \<le> b"
  shows "processed (handle_parsed_and_valid_header env (ws_exec env (Suc (Suc (Suc n)))) md c)"
proof -
  let ?call = "ws_exec env (Suc (Suc (Suc n)))" and ?len = "unat (details_payload_len md)"
  let ?c = "c\<lparr>wc_payload := take ?len (wc_payload c) @ replicate (?len - length (wc_payload c)) 0\<rparr>"
  have c: "processing ?c" using assms(2) by simp
  note message = call_handler_on_current_message_ok [OF assms(1) _ assms(3)]
  consider "w_max_size env < ?len" | "?len = 0" | "\<not> w_max_size env < ?len" "?len \<noteq> 0" by blast
  then show ?thesis
  proof cases
    case 1
    with assms(2) show ?thesis by (simp add: handle_parsed_and_valid_header_def processing_stopped)
  next
    case 2
    with message [OF c] assms(4) show ?thesis by (simp add: handle_parsed_and_valid_header_def del: ws_exec.simps)
  next
    case 3
    let ?size = "min (fb_ready_length (wc_buf c)) ?len"
    let ?d = "?c\<lparr>wc_payload := map byte_of_char (take ?size (buffer_bytes (wc_buf c))) @ drop ?size (wc_payload ?c),
      wc_buf := consumed_bytes ?size (wc_buf c)\<rparr>"
    let ?valid = "\<lambda>c. if 0 = ?len - ?size then call_handler_on_current_message env ?call c
      else Ws_done (start_read_payload ?size (?len - ?size) True c)"
    have d: "processing ?d" "fb_ready_length (wc_buf ?d) \<le> b"
      using processing_consumed [of "?c\<lparr>wc_payload := map byte_of_char (take ?size (buffer_bytes (wc_buf c))) @ drop ?size (wc_payload ?c)\<rparr>" ?size]
        c assms(4) by (simp_all add: consumed_bytes_def)
    have valid: "processed (?valid e)" if "processing e" "wc_buf e = wc_buf ?d" for e
    proof -
      have "fb_ready_length (wc_buf e) \<le> b" using that(2) d(2) by simp
      with message [OF that(1)] goes_on [OF that(1)] show ?thesis by (simp add: start_read_payload_def del: ws_exec.simps processed.simps)
    qed
    have "processed (validate_payload_part env ?call 0 ?size (?len - ?size) ?valid ?d)"
      by (rule validate_payload_part_ok [OF assms(1) d(1) assms(3) d(2)]) (rule valid)
    with 3 show ?thesis
      by (simp add: handle_parsed_and_valid_header_def Let_def cong: if_cong del: ws_exec.simps processed.simps)
  qed
qed

lemma closing_stopped:
  assumes "processing c" "wc_read_state c = Read_only_close_frame"
  shows "stopped (close_impl c)" "wc_buf (close_impl c) = wc_buf c"
proof -
  have "stopped c" using assms(1) by (rule processing_stopped)
  moreover from this assms(2) have "ws_inv0 c" "\<not> wc_close_frame_to_user c" by (simp_all add: stopped_def guard_inv_def)
  ultimately show "stopped (close_impl c)" using close_impl_serves(1) stopped_serves by blast
qed (simp add: close_impl_def ws_act_def)

lemma handle_parsed_header_ok:
  assumes "0 < w_max_iov_len env" "processing c" "next_ok (ws_exec env (Suc (Suc (Suc n)))) b" "fb_ready_length (wc_buf c) \<le> b"
  shows "processed (handle_parsed_header env (ws_exec env (Suc (Suc (Suc n)))) md c)"
proof (cases "process_new_frame md (wc_protocol_validator c)")
  case (Inl e)
  with assms(2) show ?thesis by (simp add: handle_parsed_header_def processing_stopped)
next
  case (Inr res)
  obtain vr v where res: "res = (vr, v)" by fastforce
  let ?c = "c\<lparr>wc_protocol_validator := v\<rparr>"
  have c: "processing ?c" using assms(2) by simp
  show ?thesis
  proof (cases "Frame_header_is_valid = vr")
    case True
    with Inr res handle_parsed_and_valid_header_ok [OF assms(1) c assms(3)] assms(4) show ?thesis
      by (simp add: handle_parsed_header_def del: ws_exec.simps)
  next
    case False
    have "ws_ends stopped (ws_then (close_frame_to_peer_if_first (ws_exec env (Suc (Suc (Suc n)))) (status_code_to_bin protocol_error) (\<lambda>c. c) ?c)
      (call_close_handler_if_necessary (ws_exec env (Suc (Suc (Suc n)))) protocol_error))"
      by (rule ws_ends_mono [OF protocol_violation_ok [OF assms(1) processing_stopped [OF c]]]) simp
    with False Inr res closing_stopped(1) [OF c] stops [of "close_impl ?c"] stops [OF processing_stopped [OF c]] show ?thesis
      by (simp add: handle_parsed_header_def stopped_processed Let_def del: ws_exec.simps processed.simps)
  qed
qed

lemma consume_header_from_buffer_ok:
  assumes "0 < w_max_iov_len env" "processing c" "next_ok (ws_exec env (Suc (Suc (Suc n)))) b"
    "fb_ready_length (wc_buf c) \<le> (if header_parsed (wc_parser c) then b else Suc b)"
  shows "processed (consume_header_from_buffer env (ws_exec env (Suc (Suc (Suc n)))) data c)"
proof (cases "parser_execute (wc_parser c) (map byte_of_char data)")
  case (Inl e)
  with assms(2) show ?thesis by (simp add: consume_header_from_buffer_def processing_stopped)
next
  case (Inr res)
  obtain k p where res: "res = (k, p)" by fastforce
  note reads = parser_reads [OF Inr [unfolded res]]
  let ?c = "c\<lparr>wc_parser := p, wc_buf := consumed_bytes k (wc_buf c)\<rparr>"
  have c: "processing ?c" using processing_consumed [of "c\<lparr>wc_parser := p\<rparr>" k] assms(2) by simp
  show ?thesis
  proof (cases "header_parsed p")
    case True
    have "fb_ready_length (wc_buf ?c) \<le> b" using assms(4) reads(2) [OF True] by (auto simp: consumed_bytes_def split: if_splits)
    from handle_parsed_header_ok [OF assms(1) c assms(3) this] True Inr res show ?thesis
      by (simp add: consume_header_from_buffer_def del: ws_exec.simps)
  next
    case False
    with goes_on [OF c] reads(1) Inr res show ?thesis
      by (simp add: consume_header_from_buffer_def consume_header_from_socket_def del: processed.simps)
  qed
qed

lemma not_parsed_after_reset: "\<not> header_parsed (ws_parser_reset p)"
  by (simp add: header_parsed_def ws_parser_reset_def)

lemma start_read_header_ok:
  assumes "0 < w_max_iov_len env" "processing c" "next_ok (ws_exec env (Suc (Suc (Suc n)))) b" "fb_ready_length (wc_buf c) \<le> Suc b"
  shows "processed (start_read_header env (ws_exec env (Suc (Suc (Suc n)))) c)"
proof -
  let ?c = "c\<lparr>wc_parser := ws_parser_reset (wc_parser c), wc_payload := []\<rparr>"
  have c: "processing ?c" using assms(2) by simp
  have "fb_ready_length (wc_buf ?c) \<le> (if header_parsed (wc_parser ?c) then b else Suc b)"
    using assms(4) by (simp add: not_parsed_after_reset)
  from goes_on [OF c] consume_header_from_buffer_ok [OF assms(1) c assms(3) this] show ?thesis
    by (simp add: start_read_header_def consume_header_from_socket_def Let_def del: ws_exec.simps processed.simps)
qed

lemma next_ok_exec:
  assumes "0 < w_max_iov_len env"
  shows "next_ok (ws_exec env (Suc (Suc (Suc (Suc (b + n)))))) b"
proof (induction b arbitrary: n)
  case 0
  show ?case unfolding next_ok_def
  proof (intro allI impI)
    fix c
    assume "processing c \<and> fb_ready_length (wc_buf c) \<le> 0"
    then show "processed (ws_exec env (Suc (Suc (Suc (Suc (0 + n))))) Start_read_header c)"
      using goes_on [of "c\<lparr>wc_parser := ws_parser_reset (wc_parser c), wc_payload := []\<rparr>"]
      by (simp add: start_read_header_def consume_header_from_socket_def del: processed.simps)
  qed
next
  case (Suc b)
  have "next_ok (ws_exec env (Suc (Suc (Suc (Suc (b + n)))))) b" by (rule Suc)
  from start_read_header_ok [OF assms _ this] show ?case by (simp add: next_ok_def)
qed

section \<open>Events\<close>

text \<open>The depth of calls that is enough for an event.\<close>

abbreviation enough :: "nat \<Rightarrow> nat" where
  "enough n \<equiv> Suc (Suc (Suc (Suc (websocket_header_max_size + n))))"

lemma serves_ws_inv:
  assumes "ws_inv c" "serves c d" "told d \<longrightarrow> told c \<or> \<not> wc_socket_open d \<and> wc_websocket_weak_handle c"
  shows "ws_inv d"
proof -
  note c = assms(1) [unfolded ws_inv_def] and d = assms(2) [unfolded serves_def]
  have act: "wc_activated d = wc_activated c" and buf: "wc_buf d = wc_buf c" and rd: "wc_reading d = wc_reading c" using d by simp_all
  have basic: "ws_inv0 d \<and> guard_inv d \<and> buffer_ok (wc_buf d)" using c d by simp
  show ?thesis
  proof (cases "wc_activated c")
    case True
    have "state_step True (wc_read_state c) (wc_read_state d)" using d True by simp
    then have any: "wc_read_state d = Read_any_frame \<Longrightarrow> wc_read_state c = Read_any_frame" by (auto simp: state_step_def)
    have "wc_close_frame_to_peer d \<and> \<not> told d" if "wc_reading d \<noteq> None" "wc_socket_open d" "wc_read_state d = Read_any_frame"
    proof -
      have "wc_socket_open c" using d that(2) by blast
      with c True rd any that have "wc_close_frame_to_peer c" "\<not> told c" by simp_all
      with d assms(3) that show ?thesis by blast
    qed
    with basic act True show ?thesis by (simp add: ws_inv_def)
  next
    case False
    with c have c': "wc_reading c = None" "\<not> told c" "\<not> wc_websocket_weak_handle c"
      "wc_connected c \<longrightarrow> wc_read_state c = Read_nothing \<and> (wc_socket_open c \<longrightarrow> wc_close_frame_to_peer c)" by simp_all
    have "wc_read_state d = Read_nothing \<and> (wc_socket_open d \<longrightarrow> wc_close_frame_to_peer d)" if "wc_connected d"
    proof -
      have "wc_connected c" "wc_read_state d = wc_read_state c" using d that False by blast+
      with c'(4) d that show ?thesis by auto
    qed
    moreover have "\<not> wc_websocket_weak_handle d" using d c'(3) by blast
    ultimately show ?thesis using basic act False rd c'(1,2,3) assms(3) by (simp add: ws_inv_def)
  qed
qed

lemma ukeeps_ws_inv: "ws_inv c \<Longrightarrow> ukeeps c d \<Longrightarrow> ws_inv d"
  using serves_ws_inv [of c d] ukeeps_serves [of c d] by simp

lemma stopped_ws_inv: "stopped c \<Longrightarrow> ws_inv c"
  by (simp add: ws_inv_def stopped_def)

lemma recovers:
  assumes "0 < w_max_iov_len env" "processed r"
  shows "ws_ends ws_inv (ws_catching (ws_trigger_error_and_close (ws_exec env (Suc (Suc (Suc n)))) code) r)"
proof (cases r)
  case (Ws_raised e c)
  with assms(2) have c: "stopped c" by simp
  then have "ws_inv0 c" by (simp add: stopped_def)
  from trigger_ok [OF assms(1) this]
  have "ws_ends ws_inv (ws_trigger_error_and_close (ws_exec env (Suc (Suc (Suc n)))) code c)"
    by (rule ws_ends_mono) (use c stopped_serves stopped_ws_inv in blast)
  with Ws_raised show ?thesis by (simp add: ws_catching_def del: ws_exec.simps)
qed (use assms(2) in \<open>simp_all add: ws_catching_def\<close>)

lemma now_ws_inv [simp]: "ws_inv (c\<lparr>wc_now := now\<rparr>) = ws_inv c"
  by (simp add: ws_inv_def ws_inv_defs guard_inv_def)

lemma timer_ws_inv [simp]: "ws_inv (c\<lparr>wc_timer_scheduled := b\<rparr>) = ws_inv c"
  by (simp add: ws_inv_def ws_inv_defs guard_inv_def)

lemma trigger_ws_inv:
  assumes "0 < w_max_iov_len env" "ws_inv c"
  shows "ws_ends ws_inv (ws_trigger_error_and_close (ws_exec env (Suc (Suc (Suc n)))) code c)"
proof -
  have "ws_inv0 c" using assms(2) by (simp add: ws_inv_def)
  from trigger_ok [OF assms(1) this] show ?thesis
    by (rule ws_ends_mono) (use serves_ws_inv [OF assms(2)] in blast)
qed

subsection \<open>Reads\<close>

lemma read_done_processing:
  assumes "ws_inv c" "wc_reading c = Some r"
  shows "processing (ws_act Ws_read_done (c\<lparr>wc_reading := None\<rparr>))"
proof -
  have act: "wc_activated c" "wc_read_state c \<noteq> Read_nothing" using assms by (auto simp: ws_inv_def ws_inv0_def read_inv_def)
  then have "ws_inv0 (ws_act Ws_read_done (c\<lparr>wc_reading := None\<rparr>))"
    using assms by (auto simp: ws_inv_def ws_inv_defs ws_act_def)
  with assms act show ?thesis by (simp add: processing_def stopped_def ws_inv_def guard_inv_def told_def ws_act_def)
qed

lemma after_read_header_ok:
  assumes "0 < w_max_iov_len env" "processing c"
    "case outcome of Inr data \<Rightarrow> length data \<le> websocket_header_max_size | Inl ec \<Rightarrow> True"
  shows "ws_ends ws_inv (after_read_header env (ws_exec env (enough n)) outcome c)"
proof (cases outcome)
  case (Inl ec)
  with trigger_ws_inv [OF assms(1) stopped_ws_inv [OF processing_stopped [OF assms(2)]]] show ?thesis
    by (simp add: after_read_header_def del: ws_exec.simps)
next
  case (Inr data)
  let ?c = "c\<lparr>wc_buf := obtained_bytes (length data) (fill_buffer data (wc_buf c))\<rparr>"
  have "length (fb_buf (wc_buf c)) = websocket_header_max_size" using assms(2) by (simp add: processing_def stopped_def buffer_ok_def)
  with Inr assms(3) have "buffer_ok (wc_buf ?c)" by (simp add: buffer_ok_def obtained_bytes_def fill_buffer_def)
  then have c: "processing ?c" and "fb_ready_length (wc_buf ?c) \<le> (if header_parsed (wc_parser ?c) then websocket_header_max_size else Suc websocket_header_max_size)"
    using new_buffer [OF assms(2)] by (simp_all add: buffer_ok_def)
  from recovers [OF assms(1) consume_header_from_buffer_ok [OF assms(1) c next_ok_exec [OF assms(1)] this(2)]] Inr show ?thesis
    by (simp add: after_read_header_def Let_def del: ws_exec.simps)
qed

lemma buffer_bound: "processing c \<Longrightarrow> fb_ready_length (wc_buf c) \<le> websocket_header_max_size"
  by (simp add: processing_def stopped_def buffer_ok_def)

lemma after_read_payload_ok:
  assumes "0 < w_max_iov_len env" "processing c"
  shows "ws_ends ws_inv (after_read_payload env (ws_exec env (enough n)) payload_data length_remaining do_validate outcome c)"
proof (cases outcome)
  case (Inl ec)
  with trigger_ws_inv [OF assms(1) stopped_ws_inv [OF processing_stopped [OF assms(2)]]] show ?thesis
    by (simp add: after_read_payload_def del: ws_exec.simps)
next
  case (Inr data)
  let ?call = "ws_exec env (enough n)" and ?len = "length data"
  let ?rest = "length_remaining - ?len"
  let ?c = "c\<lparr>wc_payload := take payload_data (wc_payload c) @ map byte_of_char data @ drop (payload_data + ?len) (wc_payload c)\<rparr>"
  let ?valid = "\<lambda>c. if 0 = ?rest then call_handler_on_current_message env ?call c
    else Ws_done (start_read_payload (payload_data + ?len) ?rest do_validate c)"
  have c: "processing ?c" using assms(2) by simp
  have nxt: "next_ok ?call websocket_header_max_size" by (rule next_ok_exec [OF assms(1)])
  have on: "processed (Ws_done (start_read_payload (payload_data + ?len) ?rest do_validate e))" if "processing e" for e
    using goes_on [OF that] by (simp add: start_read_payload_def)
  have valid: "processed (?valid e)" if "processing e" for e
    using call_handler_on_current_message_ok [OF assms(1) that nxt buffer_bound [OF that]] on [OF that] by (simp del: ws_exec.simps processed.simps)
  have "processed (validate_payload_part env ?call payload_data ?len ?rest ?valid ?c)"
    by (rule validate_payload_part_ok [OF assms(1) c nxt buffer_bound [OF c]]) (rule valid)
  moreover have "processed (start_read_header env ?call ?c)"
    using start_read_header_ok [OF assms(1) c nxt] buffer_bound [OF c] by simp
  ultimately have "processed (if do_validate then validate_payload_part env ?call payload_data ?len ?rest ?valid ?c
      else if 0 = ?rest then start_read_header env ?call ?c
      else Ws_done (start_read_payload (payload_data + ?len) ?rest do_validate ?c))"
    using on [OF c] by (auto simp del: ws_exec.simps processed.simps)
  from recovers [OF assms(1) this] Inr show ?thesis by (simp add: after_read_payload_def Let_def del: ws_exec.simps)
qed

lemma read_completed_ok:
  assumes "0 < w_max_iov_len env" "ws_inv c" "ws_event_possible (Read_completed_ws outcome) c"
  shows "ws_ends ws_inv (ws_read_completed env (ws_exec env (enough n)) outcome c)"
proof -
  obtain r where r: "wc_reading c = Some r" using assms(3) by (cases outcome) auto
  note p = read_done_processing [OF assms(2) r]
  show ?thesis
  proof (cases r)
    case Reading_header
    have "case outcome of Inr data \<Rightarrow> length data \<le> websocket_header_max_size | Inl ec \<Rightarrow> True"
      using assms(2,3) r Reading_header by (auto simp: ws_inv_def buffer_ok_def split: sum.split)
    from after_read_header_ok [OF assms(1) p this] r Reading_header show ?thesis
      by (simp add: ws_read_completed_def del: ws_exec.simps)
  next
    case (Reading_payload k l v)
    with after_read_payload_ok [OF assms(1) p] r show ?thesis by (simp add: ws_read_completed_def del: ws_exec.simps)
  qed
qed

subsection \<open>Writes\<close>

lemma write_only_ws_inv:
  assumes "ws_inv c" "write_only c d"
  shows "ws_inv d"
proof -
  have "ws_inv0 d" using assms write_only_inv [OF assms(2)] by (simp add: ws_inv_def ws_inv0_def write_only_def)
  moreover have "told d = told c" using write_only_inv [OF assms(2)] by simp
  ultimately show ?thesis using assms by (simp add: ws_inv_def write_only_def same_read_def guard_inv_def)
qed

lemma write_done_ws_inv:
  assumes "ws_inv c" "wc_write_running c"
  obtains wg where "ws_inv (ws_act Ws_write_done (c\<lparr>wc_write_running := False\<rparr>))"
    "m_current_wg (wc_write_output_ctx c) = Some wg" "group_ok wg"
proof -
  have "ws_inv0 c" using assms(1) by (simp add: ws_inv_def)
  then have "transmitting (wc_write_output_ctx c)" "output_ok (wc_write_output_ctx c)" using assms(2) by (simp_all add: ws_inv0_def write_inv_def)
  then obtain wg where wg: "m_current_wg (wc_write_output_ctx c) = Some wg" "group_ok wg" by (auto simp: transmitting_def output_ok_def)
  have "ws_inv0 (ws_act Ws_write_done (c\<lparr>wc_write_running := False\<rparr>))"
    using \<open>ws_inv0 c\<close> assms(2) by (auto simp: ws_inv_defs ws_act_def)
  with assms(1) have "ws_inv (ws_act Ws_write_done (c\<lparr>wc_write_running := False\<rparr>))"
    by (auto simp: ws_inv_def guard_inv_def told_def ws_act_def)
  with wg that show thesis by blast
qed

lemma group_done_ws_inv:
  assumes "ws_inv c" "\<not> wc_write_running c" "rest_pieces (wc_write_output_ctx c) = [] \<or> \<not> wc_socket_open c" "m_current_wg w = None"
    "m_next_writable_item_index w = 0 \<or> \<not> wc_socket_open c"
  shows "ws_inv (ws_notify called (c\<lparr>wc_write_output_ctx := w\<rparr>))"
proof -
  let ?d = "c\<lparr>wc_write_output_ctx := w\<rparr>"
  have inv: "write_inv c" "ws_order_inv c" "close_inv c" "read_inv c" using assms(1) by (simp_all add: ws_inv_def ws_inv0_def)
  have "rest_pieces w = []" using assms(4) by (simp add: rest_pieces_def)
  then have "ws_order_inv ?d" using inv(2) assms(3) by (auto simp: ws_order_inv_def)
  moreover have "write_inv ?d" using inv(1) assms(2,4,5) by (auto simp: write_inv_def output_ok_def)
  moreover have "close_inv ?d" "read_inv ?d" using inv(3,4) by (auto simp: close_inv_def read_inv_def told_def)
  ultimately have "ws_inv0 ?d" by (simp add: ws_inv0_def)
  then have "ws_inv0 (ws_notify called ?d)" by simp
  moreover have "told ?d = told c" by (simp add: told_def)
  ultimately show ?thesis using assms(1) by (simp add: ws_inv_def) (simp add: ws_notify_def guard_inv_def)
qed

lemma written_ok:
  assumes "0 < w_max_iov_len env" "ws_inv c" "\<not> wc_write_running c" "m_current_wg (wc_write_output_ctx c) = Some wg" "group_ok wg"
  shows "ws_ends ws_inv (ws_handle_current_write_ctx env (ws_exec env (Suc (Suc (Suc n)))) c)"
proof -
  have inv: "write_inv c" "ws_order_inv c" using assms(2) by (simp_all add: ws_inv_def ws_inv0_def)
  show ?thesis
  proof (cases "rest_pieces (wc_write_output_ctx c) = []")
    case False
    from handle_current_starts [OF assms(1,4,5) this assms(3) inv] show ?thesis
      by (rule ws_ends_mono) (rule write_only_ws_inv [OF assms(2)])
  next
    case True
    obtain called err w where fin: "finish_write_group (w_throws env) (wc_write_output_ctx c) = Some (called, err, w)"
      "m_current_wg w = None" "m_next_writable_item_index w = 0"
      using finish_write_group_ends [OF assms(4)] by metis
    have ex: "extract_next_write_operation (max_iov_len (w_max_iov_len env)) (wc_write_output_ctx c) = Some (None_write_operation, wc_write_output_ctx c)"
      using True assms(4) by (auto simp: extract_next_write_operation_def rest_pieces_def)
    let ?e = "ws_notify called (c\<lparr>wc_write_output_ctx := w\<rparr>)"
    have e: "ws_inv ?e" using group_done_ws_inv [OF assms(2,3)] True fin(2,3) by blast
    then have "write_inv ?e" "ws_order_inv ?e" by (simp_all add: ws_inv_def ws_inv0_def)
    moreover have "m_next_writable_item_index (wc_write_output_ctx ?e) = 0" using fin(3) by (simp add: ws_notify_def)
    ultimately have "ws_ends (write_only ?e) (ws_init_write_if_necessary (ws_exec env (Suc (Suc (Suc n)))) ?e)"
      by (rule init_write_index_zero [OF assms(1)])
    then have "ws_ends ws_inv (ws_init_write_if_necessary (ws_exec env (Suc (Suc (Suc n)))) ?e)"
      by (rule ws_ends_mono) (rule write_only_ws_inv [OF e])
    with trigger_ws_inv [OF assms(1) e] show ?thesis
      by (cases err) (simp_all add: ws_handle_current_write_ctx_def ex ws_finish_handling_current_write_ctx_def fin ws_ends_catching
          ws_catching_def [of _ "Ws_raised _ _"] del: ws_exec.simps)
  qed
qed

lemma write_completed_ok:
  assumes "0 < w_max_iov_len env" "ws_inv c" "wc_write_running c"
  shows "ws_ends ws_inv (ws_after_write env (ws_exec env (Suc (Suc (Suc n)))) outcome (ws_act Ws_write_done (c\<lparr>wc_write_running := False\<rparr>)))"
proof -
  let ?c = "ws_act Ws_write_done (c\<lparr>wc_write_running := False\<rparr>)"
  obtain wg where c: "ws_inv ?c" "m_current_wg (wc_write_output_ctx ?c) = Some wg" "group_ok wg"
    using write_done_ws_inv [OF assms(2,3)] by (metis (no_types, lifting) ws_act_def ws_conn_t.select_convs(5) ws_conn_t.surjective ws_conn_t.update_convs(22,23))
  have run: "\<not> wc_write_running ?c" by (simp add: ws_act_def)
  show ?thesis
  proof (cases outcome)
    case None
    with written_ok [OF assms(1) c(1) run c(2,3)] show ?thesis by (simp add: ws_after_write_def del: ws_exec.simps)
  next
    case (Some ec)
    have "ws_inv0 ?c" using c(1) by (simp add: ws_inv_def)
    from trigger_ok [OF assms(1) this, of n connection_lost] have
      "ws_ends ws_inv (ws_then (ws_trigger_error_and_close (ws_exec env (Suc (Suc (Suc n)))) connection_lost ?c)
        (\<lambda>c. case fail_write_group (w_throws env) (Write_failed (error_number ec)) (wc_write_output_ctx c) of
                None \<Rightarrow> Ws_undefined
              | Some (called, err, output_ctx) \<Rightarrow> Ws_done (ws_notify called (c\<lparr>wc_write_output_ctx := output_ctx\<rparr>))))"
    proof (rule ws_ends_then)
      fix d
      assume d: "serves ?c d \<and> \<not> wc_socket_open d \<and> (told d \<longrightarrow> told ?c \<or> wc_websocket_weak_handle ?c)"
      then have inv: "ws_inv d" using serves_ws_inv [OF c(1)] by blast
      have "transmitting (wc_write_output_ctx ?c)" using c(2) by (simp add: transmitting_def)
      then have "transmitting (wc_write_output_ctx d)" and run: "\<not> wc_write_running d" using d run by (auto simp: serves_def)
      then obtain wg' where "m_current_wg (wc_write_output_ctx d) = Some wg'" by (auto simp: transmitting_def)
      from fail_outcome [OF this] obtain called err w where
        fail: "fail_write_group (w_throws env) (Write_failed (error_number ec)) (wc_write_output_ctx d) = Some (called, err, w)" "\<not> transmitting w"
        by blast
      then have "m_current_wg w = None" by (simp add: transmitting_def)
      with group_done_ws_inv [OF inv run, of w called] d fail show "ws_ends ws_inv
          (case fail_write_group (w_throws env) (Write_failed (error_number ec)) (wc_write_output_ctx d) of
             None \<Rightarrow> Ws_undefined
           | Some (called, err, output_ctx) \<Rightarrow> Ws_done (ws_notify called (d\<lparr>wc_write_output_ctx := output_ctx\<rparr>)))" by simp
    qed
    with Some show ?thesis by (simp add: ws_after_write_def del: ws_exec.simps)
  qed
qed

subsection \<open>The timer and the activation\<close>

lemma timer_ok:
  assumes "0 < w_max_iov_len env" "ws_inv c"
  shows "ws_ends ws_inv (ws_check_timeout_impl (ws_exec env (Suc (Suc (Suc n)))) c)"
proof -
  have inv: "ws_inv0 c" "guard_inv c" using assms(2) by (simp_all add: ws_inv_def)
  let ?c = "c\<lparr>wc_close_frame_to_peer := False\<rparr>"
  have c: "ws_inv0 ?c" using inv(1) by (auto simp: ws_inv_defs)
  have "ws_ends ws_inv (ws_then (call_close_handler_if_necessary (ws_exec env (Suc (Suc (Suc n)))) unexpected_condition ?c)
      (\<lambda>c. Ws_done (close_impl c)))"
  proof (rule ws_ends_then [OF close_handler_ok [OF assms(1) c]])
    fix d
    assume d: "serves ?c d \<and> \<not> wc_close_frame_to_user d \<and> (told d \<longrightarrow> told ?c \<or> wc_websocket_weak_handle ?c)"
    then have "ws_inv0 d" by (simp add: serves_def)
    note close = close_impl_serves [OF this]
    have "serves ?c (close_impl d)" using d close(1) serves_trans by blast
    moreover have "guard_inv ?c = guard_inv c" by (simp add: guard_inv_def)
    ultimately have "serves c (close_impl d)" using close(2) d unfolding serves_def by (elim conjE) (intro conjI; simp)
    with close d show "ws_ends ws_inv (Ws_done (close_impl d))" using serves_ws_inv [OF assms(2)] by (simp add: told_def)
  qed
  moreover have "ws_inv (close_impl c)" if "wc_close_frame_from_peer_timeout_after c = Some t" for t
  proof -
    have "\<not> wc_close_frame_to_user c" using inv(2) that by (simp add: guard_inv_def)
    from close_impl_serves [OF inv(1) this] show ?thesis using serves_ws_inv [OF assms(2)] by simp
  qed
  moreover have "ws_inv (ws_init_next_timeout_checking c)" using assms(2) by (simp add: ws_init_next_timeout_checking_def)
  ultimately show ?thesis unfolding ws_check_timeout_impl_def
    by (cases "wc_close_frame_from_peer_timeout_after c") (simp_all del: ws_exec.simps)
qed

lemma activate_ok:
  assumes "0 < w_max_iov_len env" "ws_inv c" "\<not> wc_activated c" "wc_connected c"
  shows "ws_ends ws_inv (init_read env (ws_exec env (enough n)) c)"
proof -
  let ?c = "(ws_init_next_timeout_checking c)\<lparr>wc_websocket_weak_handle := True, wc_read_state := Read_any_frame, wc_activated := True\<rparr>"
  have c: "ws_inv0 c" "guard_inv c" "buffer_ok (wc_buf c)" "wc_reading c = None" "\<not> told c" "wc_read_state c = Read_nothing"
    "wc_socket_open c \<longrightarrow> wc_close_frame_to_peer c"
    using assms(2-4) by (simp_all add: ws_inv_def)
  then have "ws_inv0 ?c" by (auto simp: ws_inv_defs ws_init_next_timeout_checking_def)
  with c have p: "processing ?c"
    by (auto simp: processing_def stopped_def guard_inv_def told_def ws_init_next_timeout_checking_def)
  have "processed (start_read_header env (ws_exec env (enough n)) ?c)"
    using start_read_header_ok [OF assms(1) p next_ok_exec [OF assms(1)]] buffer_bound [OF p] by simp
  from recovers [OF assms(1) this] show ?thesis by (simp add: init_read_def del: ws_exec.simps)
qed

lemma event_ok:
  assumes "0 < w_max_iov_len env" "ws_inv c" "ws_event_possible e c"
  shows "ws_ends ws_inv (ws_handle_event env (enough n) e c)"
proof -
  have inv: "ws_inv0 c" using assms(2) by (simp add: ws_inv_def)
  note user = ws_ends_mono [OF _ ukeeps_ws_inv [OF assms(2)]]
  show ?thesis
  proof (cases e)
    case Activate
    with assms show ?thesis using activate_ok [OF assms(1,2)] by (simp del: ws_exec.simps)
  next
    case (Read_completed_ws outcome)
    with assms(3) read_completed_ok [OF assms(1,2)] show ?thesis by (simp del: ws_exec.simps)
  next
    case (Write_completed_ws outcome)
    with assms(3) write_completed_ok [OF assms(1,2)] show ?thesis by (simp add: ws_ends_catching del: ws_exec.simps)
  next
    case (Raw_write wg)
    with assms(3) user [OF write_data_ok [OF assms(1) inv]] show ?thesis by (simp del: ws_exec.simps)
  next
    case (User_call u)
    with user [OF user_call_ok [OF assms(1) inv]] show ?thesis by (simp del: ws_exec.simps)
  next
    case Timer_ws
    with timer_ok [OF assms(1), of "c\<lparr>wc_timer_scheduled := False\<rparr>"] assms(2) show ?thesis
      by (simp add: ws_check_timeout_def ws_ends_catching del: ws_exec.simps)
  qed
qed

lemma started_ws_inv: "ws_inv (ws_connection now)"
  by (simp add: ws_connection_def ws_inv_def ws_inv_defs output_ok_def guard_inv_def buffer_ok_def fixed_buffer_def only_last_def
      write_group_output_ctx_def rest_pieces_def ws_reads_def ws_writes_def transmitting_def)

lemma event_ends:
  assumes "0 < w_max_iov_len env" "ws_inv c" "ws_event_possible e (c\<lparr>wc_now := now\<rparr>)" "websocket_header_max_size + 4 \<le> fuel"
  shows "ws_ends ws_inv (ws_handle_event env fuel e (c\<lparr>wc_now := now\<rparr>))"
proof -
  obtain n where "fuel = websocket_header_max_size + 4 + n" using assms(4) le_Suc_ex by blast
  then have fuel: "fuel = enough n" by simp
  show ?thesis unfolding fuel by (rule event_ok [OF assms(1) _ assms(3)]) (simp add: assms(2))
qed

lemma reach_ws_inv:
  assumes "0 < w_max_iov_len env" "ws_reach env c"
  shows "ws_inv c"
  using assms(2)
proof induction
  case (ws_started now)
  show ?case by (rule started_ws_inv)
next
  case (ws_event c now e fuel c')
  from event_ends [OF assms(1) ws_event.IH ws_event.hyps(3,4)] ws_event.hyps(5) show ?case by simp
qed

end
