(* ===== verification/Ws_Session.thy ===== *)
theory Ws_Session
  imports Ws_Reading
begin

text \<open>
  Runs of a websocket connection and what holds in every state they reach: events are handled to their end, one read and one write
  are running at most, the frames go out in the order in which they were accepted, and the user is told of a close once.
\<close>

section \<open>Runs\<close>

text \<open>A sequence of events at one time, each of which has to be possible.\<close>

fun ws_run :: "ws_env \<Rightarrow> nat \<Rightarrow> ws_event list \<Rightarrow> ws_conn_t \<Rightarrow> ws_result" where
  "ws_run env fuel [] c = Ws_done c"
| "ws_run env fuel (e # es) c =
     (if ws_event_possible e c then ws_then (ws_handle_event env fuel e c) (ws_run env fuel es) else Ws_undefined)"

definition ws_sample_env :: ws_env where
  "ws_sample_env = \<lparr>w_handler = (\<lambda>k m. []), w_throws = (\<lambda>n. False), w_max_iov_len = 16, w_max_size = 100,
     w_write_http_response_timelimit = 5, w_read_next_http_message_timelimit = 60\<rparr>"

definition bytes_of :: "nat list \<Rightarrow> string" where
  "bytes_of ns = map char_of ns"

lemma ws_run_reach:
  assumes "ws_reach env c" "websocket_header_max_size + 4 \<le> fuel" "ws_run env fuel es c = Ws_done c'"
  shows "ws_reach env c'"
  using assms
proof (induction es arbitrary: c)
  case (Cons e es)
  then obtain d where d: "ws_event_possible e c" "ws_handle_event env fuel e c = Ws_done d" "ws_run env fuel es d = Ws_done c'"
    by (cases "ws_handle_event env fuel e c") (auto simp: ws_then_def simp del: ws_handle_event.simps ws_event_possible.simps split: if_splits)
  have "ws_reach env d"
    by (rule ws_event [OF Cons.prems(1), of "wc_now c" e fuel]) (use d Cons.prems(2) in \<open>simp_all del: ws_handle_event.simps ws_event_possible.simps\<close>)
  with d(3) Cons.IH Cons.prems(2) show ?case by blast
qed simp

text \<open>A text message arrives; the user's answer and the close frame of the user's shutdown are sent.\<close>

definition ws_sample_conn :: ws_conn_t where
  "ws_sample_conn =
     (case ws_run ws_sample_env 18
        [Activate, Read_completed_ws (Inr (bytes_of [0x81, 0x82, 1, 2, 3, 4, 0x49, 0x6B])),
         User_call (Send_message True text_frame (Datasizeable_buf ''yes'') (Some 7)), Write_completed_ws None, User_call Shutdown]
        (ws_connection 0) of Ws_done c \<Rightarrow> c | _ \<Rightarrow> ws_connection 0)"

lemma ws_sample_reached: "ws_reach ws_sample_env ws_sample_conn"
  unfolding ws_sample_conn_def
  by (auto intro: ws_run_reach ws_started simp: websocket_header_max_size_def simp del: ws_run.simps split: ws_result.split)

lemma ws_sample_computed:
  "(wc_socket_open ws_sample_conn, wc_reading ws_sample_conn, wc_write_running ws_sample_conn, delivered (wc_trace ws_sample_conn),
    map snd (accepted (wc_trace ws_sample_conn)), wc_now ws_sample_conn) =
   (True, Some Reading_header, True, [\<lparr>wm_final_flag = True, wm_opcode = text_frame, wm_payload = [72, 105]\<rparr>], [False, True], 0)"
  by code_simp

lemma ws_sample_facts:
  "wc_socket_open ws_sample_conn" "wc_reading ws_sample_conn = Some Reading_header" "wc_write_running ws_sample_conn"
  "delivered (wc_trace ws_sample_conn) = [\<lparr>wm_final_flag = True, wm_opcode = text_frame, wm_payload = [72, 105]\<rparr>]"
  "map snd (accepted (wc_trace ws_sample_conn)) = [False, True]" "wc_now ws_sample_conn = 0" "0 < w_max_iov_len ws_sample_env"
  using ws_sample_computed by (simp_all add: ws_sample_env_def)

section \<open>Properties\<close>

text \<open>
  C5: every event that can happen in a state the connection reaches - the activation of the handle, the end of a read or a write with data
  or an error, a call of the user, the timer - is handled to its end: no assertion fails, no method is called outside its contract, no
  exception escapes, and the calls nest at most as deep as the buffer for headers has bytes, and four more.
\<close>

theorem ws_events_are_handled:
  assumes "0 < w_max_iov_len env" "ws_reach env c" "ws_event_possible e (c\<lparr>wc_now := now\<rparr>)" "websocket_header_max_size + 4 \<le> fuel"
  shows "\<exists>c'. ws_handle_event env fuel e (c\<lparr>wc_now := now\<rparr>) = Ws_done c'"
  using event_ends [OF assms(1) reach_ws_inv [OF assms(1,2)] assms(3,4)] by (auto simp: ws_ends_def split: ws_result.splits)

theorem ws_events_are_handled_witness:
  "\<exists>c'. ws_handle_event ws_sample_env 18 (Read_completed_ws (Inr (bytes_of [0x88, 0x82, 0]))) (ws_sample_conn\<lparr>wc_now := 3\<rparr>) = Ws_done c'"
proof -
  have "length (fb_buf (wc_buf ws_sample_conn)) = 14"
    using reach_ws_inv [OF ws_sample_facts(7) ws_sample_reached] by (simp add: ws_inv_def buffer_ok_def websocket_header_max_size_def)
  then have "ws_event_possible (Read_completed_ws (Inr (bytes_of [0x88, 0x82, 0]))) (ws_sample_conn\<lparr>wc_now := 3\<rparr>)"
    by (simp add: ws_sample_facts bytes_of_def)
  from ws_events_are_handled [OF ws_sample_facts(7) ws_sample_reached this, of 18] show ?thesis
    by (simp add: websocket_header_max_size_def del: ws_handle_event.simps)
qed

text \<open>
  C16: in every state a websocket connection reaches, one read and one write are running at most: reads and writes are started only
  when the one before has ended; a write is running only for the group that is being transmitted; and nothing is read any more once the peer's close
  frame was answered.
\<close>

theorem ws_one_operation_at_a_time:
  assumes "0 < w_max_iov_len env" "ws_reach env c"
  shows "ws_reads (wc_trace c) = Some (wc_reading c \<noteq> None) \<and> ws_writes (wc_trace c) = Some (wc_write_running c) \<and>
    (wc_write_running c \<longrightarrow> transmitting (wc_write_output_ctx c)) \<and>
    (wc_read_state c = Read_nothing \<longrightarrow> wc_reading c = None)"
  using reach_ws_inv [OF assms] by (auto simp: ws_inv_def ws_inv0_def read_inv_def write_inv_def)

theorem ws_one_operation_at_a_time_witness:
  "ws_reads (wc_trace ws_sample_conn) = Some True \<and> ws_writes (wc_trace ws_sample_conn) = Some True"
  using ws_one_operation_at_a_time [OF ws_sample_facts(7) ws_sample_reached] ws_sample_facts(2,3) by simp

text \<open>
  C6: as long as the socket is open, the bytes that went to it are the beginning of the accepted groups - the answer to the upgrade, the
  messages of the user, the close frame - one after the other in the order in which they were accepted, and what is missing is the rest of the group
  under way and the queue. A close frame is the last group that is accepted, whoever closes first.
\<close>

theorem ws_frames_in_order:
  assumes "0 < w_max_iov_len env" "ws_reach env c"
  shows "only_last snd (accepted (wc_trace c)) \<and>
    (wc_socket_open c \<longrightarrow>
      concat (map (group_pieces \<circ> fst) (accepted (wc_trace c))) =
        ws_wire (wc_trace c) @ rest_pieces (wc_write_output_ctx c) @ concat (map group_pieces (wc_outgoing_data c)))"
  using reach_ws_inv [OF assms] by (simp add: ws_inv_def ws_inv0_def close_inv_def ws_order_inv_def)

theorem ws_frames_in_order_witness:
  "only_last snd (accepted (wc_trace ws_sample_conn)) \<and> map snd (accepted (wc_trace ws_sample_conn)) = [False, True] \<and>
   concat (map (group_pieces \<circ> fst) (accepted (wc_trace ws_sample_conn))) =
     ws_wire (wc_trace ws_sample_conn) @ rest_pieces (wc_write_output_ctx ws_sample_conn) @
     concat (map group_pieces (wc_outgoing_data ws_sample_conn))"
  using ws_frames_in_order [OF ws_sample_facts(7) ws_sample_reached] ws_sample_facts(1,5) by simp

text \<open>
  C7: as long as the socket is open, the user is told of a close at most once - with the peer's close frame, or with one the connection
  makes up for an error - and is given no message after it. While frames of any kind are still read, the connection has not sent its
  close frame.
\<close>

theorem ws_close_told_once:
  assumes "0 < w_max_iov_len env" "ws_reach env c" "wc_socket_open c"
  shows "only_last is_close (delivered (wc_trace c)) \<and>
    (wc_close_frame_to_user c \<longrightarrow> list_all (\<lambda>m. \<not> is_close m) (delivered (wc_trace c))) \<and>
    (wc_reading c \<noteq> None \<and> wc_read_state c = Read_any_frame \<longrightarrow>
      list_all (\<lambda>m. \<not> is_close m) (delivered (wc_trace c)) \<and> list_all (\<lambda>a. \<not> snd a) (accepted (wc_trace c)))"
proof -
  note inv = reach_ws_inv [OF assms(1,2)]
  have quiet: "list_all (\<lambda>m. \<not> is_close m) (delivered (wc_trace c))" if "\<not> told c"
    using that by (simp add: told_def list_all_iff list_ex_iff)
  have "read_inv c" "close_inv c" using inv by (simp_all add: ws_inv_def ws_inv0_def)
  moreover have "wc_close_frame_to_peer c \<and> \<not> told c" if "wc_reading c \<noteq> None" "wc_read_state c = Read_any_frame"
    using inv that assms(3) by (auto simp: ws_inv_def split: if_splits)
  ultimately show ?thesis using assms(3) quiet by (auto simp: read_inv_def close_inv_def)
qed

theorem ws_close_told_once_witness:
  "only_last is_close (delivered (wc_trace ws_sample_conn)) \<and> delivered (wc_trace ws_sample_conn) \<noteq> []"
  using ws_close_told_once [OF ws_sample_facts(7) ws_sample_reached ws_sample_facts(1)] ws_sample_facts(4) by simp

section \<open>Concrete runs\<close>

text \<open>
  Three runs in which the connection does not do what it means to. (1) A text message that ends inside a UTF-8 symbol is answered with a close frame and the
  connection then means to read the peer's close frame, but starts no read, so that frame is never seen. (2) After a byte that is never part of UTF-8 the validator
  stays in its refusing state across its reset: the close frame with which the peer answers is not recognised when it gives a reason, and reading goes on.
  (3) After a failed write the position in the failed group is kept: the message that was queued behind it is reported to its callback as written
  when a shutdown restarts writing, although no byte of it was sent.
\<close>

theorem ws_broken_runs:
  "(case ws_run ws_sample_env 18 [Activate, Read_completed_ws (Inr (bytes_of [0x81, 0x81, 0, 0, 0, 0, 0xC3]))] (ws_connection 0) of
      Ws_done c \<Rightarrow> wc_read_state c = Read_only_close_frame \<and> wc_reading c = None \<and> wc_socket_open c \<and>
        map snd (accepted (wc_trace c)) = [True]
    | _ \<Rightarrow> False) \<and>
   (case ws_run ws_sample_env 18
      [Activate, Read_completed_ws (Inr (bytes_of [0x81, 0x81, 0, 0, 0, 0, 0xFF])), Write_completed_ws None,
       Read_completed_ws (Inr (bytes_of [0x88, 0x83, 0, 0, 0, 0, 3, 232, 0x41]))] (ws_connection 0) of
      Ws_done c \<Rightarrow> wc_socket_open c \<and> wc_reading c = Some Reading_header
    | _ \<Rightarrow> False) \<and>
   (case ws_run ws_sample_env 18
      [User_call (Send_message True binary_frame (Datasizeable_buf ''ab'') (Some 1)),
       User_call (Send_message True binary_frame (Datasizeable_buf ''cd'') (Some 2)),
       Write_completed_ws (Some (Other_error 5)), User_call Shutdown] (ws_connection 0) of
      Ws_done c \<Rightarrow> Ws_called (2, Write_ok) \<in> set (wc_trace c) \<and> Bytes ''cd'' \<notin> set (ws_wire (wc_trace c))
    | _ \<Rightarrow> False)"
  by (intro conjI; code_simp)

end
