(* ===== verification/Spec2Isabelle.thy ===== *)
theory Spec2Isabelle
  imports Game_Routes Hosts_And_Ranges Sendfile_Runner Connection_Runs Ws_Session
begin

text \<open>
  Verification of the web server of a board game console.

  \<^bold>\<open>The program.\<close> A browser selects players and a game; a server on a Raspberry Pi stores the selection in a file and sends a
  short frame over a serial line to the board that runs the game.  The server is the program in
  \<^verbatim>\<open>src/web/restinio/sample/express_router/\<close> with \<^verbatim>\<open>src/RPIdata.hpp\<close>, \<^verbatim>\<open>src/PSoCcom.hpp\<close> and \<^verbatim>\<open>src/Serial.hpp\<close>; it is
  built on the HTTP and websocket library RESTinio, whose sources are in \<^verbatim>\<open>src/web/restinio/restinio/\<close>.  The way
  of a request is: bytes arrive on a connection, the http parser calls back with pieces of a message, the connection hands the
  message to the handler, the express router normalises the path, finds a route and calls its handler, the handler
  builds a response, the response coordinator puts the responses of pipelined requests into order, and the connection writes them,
  buffers with gathering writes and files with sendfile operations.

  \<^bold>\<open>The theories.\<close> File names are relative to \<^verbatim>\<open>src/web/restinio/restinio/\<close> unless they begin with \<^verbatim>\<open>src/\<close>.

  \<^item> Prelude: lemmas on bytes, words and lists, and the collections of facts.
  \<^item> Bitops, Base64, Utf8: \<^verbatim>\<open>utils/impl/bitops.hpp\<close>, \<^verbatim>\<open>utils/base64.hpp\<close>, \<^verbatim>\<open>utils/utf8_checker.hpp\<close>.  Decoding inverts encoding; the
    checker accepts exactly the well-formed UTF-8 texts of Unicode.
  \<^item> Ws_Parser, Ws_Validator: \<^verbatim>\<open>websocket/impl/ws_parser.hpp\<close> and \<^verbatim>\<open>ws_protocol_validator.hpp\<close>.  A frame header is read back
    however the input is cut; a fragmented text message is accepted exactly when its payload is well-formed; the
    invariant of the validator in all reachable states.
  \<^item> Buffers, Response_Coordinator: \<^verbatim>\<open>buffers.hpp\<close>, \<^verbatim>\<open>sendfile.hpp\<close>, \<^verbatim>\<open>impl/response_coordinator.hpp\<close>.  Writable items, groups with
    their callbacks, the ring buffer of response contexts; a history of registering, appending and popping keeps responses in the
    order of the requests while fewer than \<open>2 ^ 32\<close> requests were registered, and what goes wrong when the id wraps around.
  \<^item> Percent_Encoding: \<^verbatim>\<open>utils/percent_encoding.hpp\<close>.  Round trips, agreement of the variants in place, normal forms.
  \<^item> Field_Names, Http_Headers: \<^verbatim>\<open>http_headers.hpp\<close>.  The table of field names, the container of fields as a caseless
    multimap, request and response headers.
  \<^item> Response_Builder: \<^verbatim>\<open>message_builders.hpp\<close> and \<^verbatim>\<open>impl/header_helpers.hpp\<close>.  What the three builders hand over.
  \<^item> Easy_Parser, Field_Basics, Field_Parsers, Hosts_And_Ranges: \<^verbatim>\<open>helpers/easy_parser.hpp\<close> and \<^verbatim>\<open>helpers/http_field_parsers/\<close>.
    A producer is a function from the source to an error or a value and the rest; every combinator implements
    an operator of parsing expression grammars and gives back the input when it fails, and header fields are read as they were written.
  \<^item> Std_Regex, Path2Regex: \<^verbatim>\<open>path2regex/path2regex.hpp\<close> and \<^verbatim>\<open>router/std_regex_engine.hpp\<close>.  The regular expressions of the
    standard library that the translation needs, with their captures, and the translation of route texts.
  \<^item> Express_Router: \<^verbatim>\<open>router/express.hpp\<close>, \<^verbatim>\<open>router/method_matcher.hpp\<close>, \<^verbatim>\<open>router/impl/target_path_holder.hpp\<close>.  The meaning of a
    route of literals and parameters, reading parameters back, the path that is matched.
  \<^item> Game_Server, Game_Routes: the game server.  Its handlers with the stored selection and the frames to the board, and
    the router with its routes, which decides as a table of methods and paths does.
  \<^item> Http_Parser_Ctx: \<^verbatim>\<open>impl/parser_callbacks.ipp\<close>, \<^verbatim>\<open>incoming_http_msg_limits.hpp\<close>, \<^verbatim>\<open>chunked_input_info.hpp\<close>.  Collecting a message
    from callbacks, independent of the pieces, within the limits.
  \<^item> Write_Output, Sendfile_Runner: \<^verbatim>\<open>impl/write_group_output_ctx.hpp\<close> and \<^verbatim>\<open>impl/sendfile_operation_posix.ipp\<close>.  Cutting a group
    into write operations, and sending the range of a file over a socket that takes parts of it, also of a chunk whose write then fails.
  \<^item> Connection, Connection_Runs: \<^verbatim>\<open>impl/connection.hpp\<close> and \<^verbatim>\<open>impl/fixed_buffer.hpp\<close>.  The connection as a
    state with one handler per event (the end of a read or a write, parts of a response sent by a handler, the timer).  The
    invariant over all reachable states gives the order of the responses on the wire, one read and one write at a time,
    the account of the callbacks and the guard by timeouts; every event is handled to its end; an upgrade request that is answered like any other
    is handed to the handler again and again.
  \<^item> Ws_Connection, Ws_Reading, Ws_Session: \<^verbatim>\<open>websocket/impl/ws_connection.hpp\<close> and \<^verbatim>\<open>websocket/websocket.hpp\<close>.  The websocket
    connection, modelled in the same way: reading frames, the closing handshake, writing, timeouts and the calls of the user from inside and outside
    of its message handler.  The invariant over all reachable states gives one read and one write at a time, frames on the wire in the order in which they were
    accepted with the close frame last, and one report of a close to the user; every event is handled to its end.  Ws_Connection has the model
    and what writing and the user's calls keep, Ws_Reading what reading keeps, Ws_Session the properties and some runs.

  \<^bold>\<open>How code is modelled.\<close> A struct is a record, an enumeration a datatype, unsigned integers that may wrap are words, errors and
  exceptions are values of sum types, and behaviour that the language leaves undefined is a value of its own, so that
  a theorem shows whether it can happen.  Strings and views are lists of characters; the time is the number the clock gives.  A trace of
  actions records what a connection does to its socket and which callbacks it calls.  Code that is not part of the sources is a parameter: the
  http parser (\<^verbatim>\<open>http_parser_execute\<close>) and the numbers of its methods, the conversion of JSON, the serial port, the clock, the texts of dates, the
  handlers and callbacks of the user of the library, the answers of the system to reads, writes and sendfile calls.

  \<^bold>\<open>Bounds and fuel.\<close> The methods of a connection call each other; \<open>exec\<close> ties them together with a bound on the depth of the calls.
  With a parser that completes no message without consuming a byte, and with answers to upgrade requests that have something to write, some depth is enough for
  every event, and every greater one gives the same state
  (events_are_handled in Connection_Runs).  In the same way \<open>ws_exec\<close> bounds the depth of the calls on a websocket connection; a depth of 18 is enough,
  because every frame that is read without waiting takes a byte of the header buffer of 14 bytes (ws_events_are_handled in Ws_Session).
  The recursive grammar of comments is unfolded as often as the text is long, which its recursion never exceeds (comment_grammar in
  Field_Basics).  Repetitions are bounded by \<^verbatim>\<open>N\<close>, the largest \<^verbatim>\<open>std::size_t\<close>, numbers by 127 digits, as in the source.  The matcher of regular
  expressions and all other loops terminate by a measure.  The two sendfile runners consume an explicit list of answers of the system, and a run
  whose list is used up is still in its loop.

  \<^bold>\<open>Interfaces.\<close> The laws one component relies on in another are locales, interpreted on the definitions of the component that
  provides them, so that the properties rest on the facts of the interpretation.

  \<^bold>\<open>Not modelled.\<close> The acceptor, the threads and signals of \<^verbatim>\<open>http_server_run.hpp\<close>, timers, sockets and TLS streams are wrappers of asio; the connection sees them as
  events and actions.  \<^verbatim>\<open>settings.hpp\<close> and \<^verbatim>\<open>traits.hpp\<close> store values for template parameters.  \<^verbatim>\<open>transforms/zlib.hpp\<close> and the engines for pcre and
  boost drive libraries that are not part of the sources, and so do the http parser, the JSON and the format libraries.  
  \<^verbatim>\<open>router/easy_parser_router.hpp\<close>, the helpers for file upload, SHA-1,
  \<^verbatim>\<open>uri_helpers.hpp\<close> and \<^verbatim>\<open>sync_chain\<close> are not used by the game server.  Logging and console output are left out.
\<close>

end
